(* ===== verification/LLVM_Prelude.thy ===== *)
theory LLVM_Prelude
  imports Main "HOL-Library.Word"
begin

text \<open>
  Shared material of the development: the machine integer types of the C++ code, the
  counted loop, and the generic lemmas on lists, words and numbers that more than one
  component uses.

  \<^item> \<open>u8\<close>, \<open>u16\<close>, \<open>u32\<close>, \<open>u64\<close> are \<open>uint8_t\<close> to \<open>uint64_t\<close> of the source.
  \<^item> \<open>for_upto i n body s\<close> is the loop \<open>for (k = i; k != n; ++k) body\<close> over an explicit
    state \<open>s\<close>. Its rule \<open>for_upto_invariant\<close> is the one every counted loop of the
    development is proved with.
  \<^item> \<open>word_nat\<close> collects the lemmas that move a word operation to natural numbers.
\<close>

unbundle bit_operations_syntax

named_theorems word_nat

type_synonym u8 = "8 word"
type_synonym u16 = "16 word"
type_synonym u32 = "32 word"
type_synonym u64 = "64 word"

section \<open>Counted loops\<close>

definition for_upto :: "nat \<Rightarrow> nat \<Rightarrow> (nat \<Rightarrow> 's \<Rightarrow> 's) \<Rightarrow> 's \<Rightarrow> 's" where
  "for_upto i n body s = fold body [i..<n] s"

lemma for_upto_done [simp]: "n \<le> i \<Longrightarrow> for_upto i n body s = s"
  by (simp add: for_upto_def)

lemma for_upto_Suc: "i \<le> n \<Longrightarrow> for_upto i (Suc n) body s = body n (for_upto i n body s)"
  by (simp add: for_upto_def)

lemma for_upto_step: "i < n \<Longrightarrow> for_upto i n body s = for_upto (Suc i) n body (body i s)"
  by (simp add: for_upto_def upt_conv_Cons)

lemma for_upto_invariant:
  assumes "i \<le> n" and "P i s"
    and "\<And>k t. i \<le> k \<Longrightarrow> k < n \<Longrightarrow> P k t \<Longrightarrow> P (Suc k) (body k t)"
  shows "P n (for_upto i n body s)"
  using assms
proof (induction n)
  case 0
  then show ?case by simp
next
  case (Suc n)
  show ?case
  proof (cases "i = Suc n")
    case True
    with Suc.prems show ?thesis by simp
  next
    case False
    with Suc.prems(1) have le: "i \<le> n" by simp
    have "P n (for_upto i n body s)"
      by (rule Suc.IH [OF le Suc.prems(2)]) (rule Suc.prems(3), auto)
    with le Suc.prems(3) show ?thesis by (simp add: for_upto_Suc)
  qed
qed

section \<open>Words read as natural numbers\<close>

lemma unat_drop_bit [word_nat]: "unat (drop_bit n w) = unat w div 2 ^ n"
  by (simp add: unat_drop_bit_eq flip: drop_bit_eq_div)

lemma u64_less: "unat (w :: u64) < 2 ^ 64"
  using unsigned_less [of w] by simp

lemma bit_iff_odd_unat: "bit w n \<longleftrightarrow> odd (unat w div 2 ^ n)" for w :: "'a::len word"
proof -
  have "bit w n \<longleftrightarrow> bit (unat w) n" by (simp add: bit_unsigned_iff)
  then show ?thesis by (simp add: bit_iff_odd)
qed

lemma div_eq_1D: "n div m = 1 \<Longrightarrow> m \<le> n \<and> n < 2 * m" for n m :: nat
proof -
  assume q: "n div m = 1"
  then have "n = m + n mod m" using mult_div_mod_eq [of m n] by simp
  moreover have "n mod m < m" using q by (cases "m = 0") simp_all
  ultimately show ?thesis by linarith
qed

lemma unat_add_carry:
  "unat (a + b) + (if a + b < a then 2 ^ LENGTH('a) else 0) = unat a + unat b"
  for a b :: "'a::len word"
proof -
  have "unat (a + b) = (if unat a + unat b < 2 ^ LENGTH('a) then unat a + unat b
      else unat a + unat b - 2 ^ LENGTH('a))"
    by (rule unat_plus_if')
  moreover have "unat a < 2 ^ LENGTH('a)" "unat b < 2 ^ LENGTH('a)" by (rule unsigned_less)+
  ultimately show ?thesis by (auto simp: word_less_nat_alt simp del: unsigned_less)
qed

lemma unat_add_carry_Suc:
  "unat (a + (b + 1)) + (if a + (b + 1) \<le> a then 2 ^ LENGTH('a) else 0) = unat a + unat b + 1"
  for a b :: "'a::len word"
proof (cases "b + 1 = 0")
  case True
  then have "b = - 1" by (simp add: eq_neg_iff_add_eq_0)
  then have "unat b + 1 = 2 ^ LENGTH('a)" by (simp add: unsigned_minus_1_eq_mask mask_eq_exp_minus_1)
  with True show ?thesis by simp
next
  case False
  have b: "unat (b + 1) = unat b + 1"
    using False by (simp add: unatSuc add.commute)
  have "a + (b + 1) \<le> a \<longleftrightarrow> a + (b + 1) < a"
    using False by (metis add_cancel_right_right order_le_less)
  with unat_add_carry [of a "b + 1"] b show ?thesis by simp
qed

lemma unat_sub_borrow:
  "unat a + (if a - b > a then 2 ^ LENGTH('a) else 0) = unat (a - b) + unat b"
  for a b :: "'a::len word"
proof -
  have "unat (a - b) = (if unat b \<le> unat a then unat a - unat b
      else unat a + 2 ^ LENGTH('a) - unat b)"
    by (rule unat_sub_if')
  moreover have "unat a < 2 ^ LENGTH('a)" "unat b < 2 ^ LENGTH('a)" by (rule unsigned_less)+
  ultimately show ?thesis by (auto simp: word_less_nat_alt simp del: unsigned_less)
qed

lemma unat_sub_borrow_Suc:
  "unat a + (if a - (b + 1) \<ge> a then 2 ^ LENGTH('a) else 0) = unat (a - (b + 1)) + unat b + 1"
  for a b :: "'a::len word"
proof (cases "b + 1 = 0")
  case True
  then have "b = - 1" by (simp add: eq_neg_iff_add_eq_0)
  then have "unat b + 1 = 2 ^ LENGTH('a)" by (simp add: unsigned_minus_1_eq_mask mask_eq_exp_minus_1)
  with True show ?thesis by simp
next
  case False
  have b: "unat (b + 1) = unat b + 1"
    using False by (simp add: unatSuc add.commute)
  have "a - x \<noteq> a" if "x \<noteq> 0" for x using that by (simp add: diff_eq_eq)
  from this [OF False] have "a - (b + 1) \<noteq> a" .
  then have "a - (b + 1) \<ge> a \<longleftrightarrow> a - (b + 1) > a" by (auto simp: order_le_less)
  with unat_sub_borrow [of a "b + 1"] b show ?thesis by simp
qed

end
