(* ===== verification/MathExtras.thy ===== *)
theory MathExtras
  imports LLVM_Prelude
begin

text \<open>
  The bit scanning and alignment arithmetic of \<open>llvm/Support/MathExtras.h\<close>. Every function is
  an overload on a fixed width, so the model takes \<open>u32\<close> and \<open>u64\<close>. The scans are the generic
  bisection templates of \<open>namespace detail\<close>; the compiler builtins that replace them on some
  hosts are not under \<open>src/\<close>.
\<close>

section \<open>Leading and trailing zeros\<close>

text \<open>\<open>LeadingZerosCounter::count\<close>: the loop halves \<open>Shift\<close> until it is zero.\<close>

fun leading_zeros_loop :: "nat \<Rightarrow> u64 \<Rightarrow> nat \<Rightarrow> nat" where
  "leading_zeros_loop Shift Val ZeroBits =
     (if Shift = 0 then ZeroBits
      else let Tmp = drop_bit Shift Val in
        if Tmp \<noteq> 0 then leading_zeros_loop (Shift div 2) Tmp ZeroBits
        else leading_zeros_loop (Shift div 2) Val (ZeroBits OR Shift))"

definition countLeadingZeros :: "u64 \<Rightarrow> nat" where
  "countLeadingZeros Val =
     (if Val = 0 then 64 else leading_zeros_loop (64 div 2) Val 0)"

text \<open>\<open>TrailingZerosCounter::count\<close>: \<open>Mask\<close> follows \<open>Shift\<close>.\<close>

fun trailing_zeros_loop :: "nat \<Rightarrow> u64 \<Rightarrow> u64 \<Rightarrow> nat \<Rightarrow> nat" where
  "trailing_zeros_loop Shift Mask Val ZeroBits =
     (if Shift = 0 then ZeroBits
      else let (Val', ZeroBits') =
             (if Val AND Mask = 0 then (drop_bit Shift Val, ZeroBits OR Shift)
              else (Val, ZeroBits))
        in trailing_zeros_loop (Shift div 2) (drop_bit (Shift div 2) Mask) Val' ZeroBits')"

definition countTrailingZeros :: "u64 \<Rightarrow> nat" where
  "countTrailingZeros Val =
     (if Val = 0 then 64
      else if Val AND 1 \<noteq> 0 then 0
      else trailing_zeros_loop (64 div 2) (drop_bit (64 div 2) (- 1)) Val 0)"

text \<open>\<open>findFirstSet\<close> and \<open>findLastSet\<close> with the default \<open>ZB_Max\<close>: zero gives
  \<open>numeric_limits<uint64_t>::max()\<close>.\<close>

definition findFirstSet :: "u64 \<Rightarrow> u64" where
  "findFirstSet Val = (if Val = 0 then - 1 else of_nat (countTrailingZeros Val))"

definition findLastSet :: "u64 \<Rightarrow> u64" where
  "findLastSet Val = (if Val = 0 then - 1 else of_nat (countLeadingZeros Val) XOR of_nat (64 - 1))"

declare leading_zeros_loop.simps [simp del] trailing_zeros_loop.simps [simp del]

text \<open>
  While \<open>Val < 2^s\<close> is non-zero, a round keeps it equal to the original value shifted right, so
  that \<open>ZeroBits\<close>, the width left and the shift add up to 64.
\<close>

definition lz_state :: "u64 \<Rightarrow> nat \<Rightarrow> u64 \<Rightarrow> nat \<Rightarrow> bool" where
  "lz_state V s Val Z \<longleftrightarrow>
     Val \<noteq> 0 \<and> unat Val < 2 ^ s \<and> Z + s \<le> 64 \<and> drop_bit (64 - (Z + s)) V = Val"

lemma lz_state_round:
  assumes st: "lz_state V (2 * s) Val Z"
  shows "if drop_bit s Val \<noteq> 0 then lz_state V s (drop_bit s Val) Z
    else lz_state V s Val (Z + s)"
proof (cases "drop_bit s Val = 0")
  case False
  have "unat Val < 2 ^ s * 2 ^ s"
    using st by (simp add: lz_state_def power_add [symmetric] mult_2)
  then have "unat (drop_bit s Val) < 2 ^ s"
    by (simp add: unat_drop_bit less_mult_imp_div_less)
  moreover have "drop_bit (64 - (Z + s)) V = drop_bit s Val"
    using st by (auto simp: lz_state_def add.commute)
  ultimately show ?thesis
    using False st by (simp add: lz_state_def)
next
  case True
  then have "unat (drop_bit s Val) = 0" by simp
  then have "unat Val < 2 ^ s" by (simp add: unat_drop_bit div_eq_0_iff)
  then show ?thesis
    using True st by (simp add: lz_state_def mult_2 add.assoc)
qed

lemma or_exp_eq_add: "2 * 2 ^ k dvd Z \<Longrightarrow> Z OR 2 ^ k = Z + 2 ^ k" for Z :: nat
proof -
  assume "2 * 2 ^ k dvd Z"
  then have "2 ^ Suc k dvd Z" by simp
  then have "take_bit (Suc k) Z = 0" by (simp only: take_bit_eq_0_iff)
  then have "\<not> bit (take_bit (Suc k) Z) k" by simp
  then have nb: "\<not> bit Z k" by (simp add: bit_take_bit_iff)
  have "Z AND 2 ^ k = 0"
    by (rule bit_eqI) (use nb in \<open>auto simp: bit_and_iff bit_exp_iff\<close>)
  then show ?thesis by (simp add: disjunctive_add_eq_or)
qed

lemma half_exp: "(2 * 2 ^ k) div 2 = (2 ^ k :: nat)" "(2 ^ 0 :: nat) div 2 = 0"
  by simp_all

lemma leading_zeros_loop_state:
  "lz_state V (2 * 2 ^ k) Val Z \<Longrightarrow> 2 * 2 ^ k dvd Z \<Longrightarrow>
    \<exists>Val'. lz_state V 1 Val' (leading_zeros_loop (2 ^ k) Val Z)"
proof (induction k arbitrary: Val Z)
  case 0
  then show ?case
    using lz_state_round [of V 1 Val Z] or_exp_eq_add [of 0 Z]
    by (auto simp: leading_zeros_loop.simps [of "Suc 0"] leading_zeros_loop.simps [of 0] Let_def
        split: if_splits)
next
  case (Suc k)
  define Val' where "Val' = (if drop_bit (2 * 2 ^ k) Val \<noteq> 0 then drop_bit (2 * 2 ^ k) Val else Val)"
  define Z' where "Z' = (if drop_bit (2 * 2 ^ k) Val \<noteq> 0 then Z else Z + 2 * 2 ^ k)"
  have "lz_state V (2 * 2 ^ k) Val' Z'"
    using lz_state_round [of V "2 * 2 ^ k" Val Z] Suc.prems(1)
    by (auto simp: Val'_def Z'_def split: if_splits)
  moreover have "2 * 2 ^ k dvd Z'"
    using Suc.prems(2) by (auto simp: Z'_def intro: dvd_mult_left)
  ultimately have "\<exists>Val''. lz_state V 1 Val'' (leading_zeros_loop (2 ^ k) Val' Z')"
    by (rule Suc.IH)
  moreover have "leading_zeros_loop (2 ^ Suc k) Val Z = leading_zeros_loop (2 ^ k) Val' Z'"
    using or_exp_eq_add [of "Suc k" Z] Suc.prems(2)
    by (simp add: leading_zeros_loop.simps [of "2 * 2 ^ k"] Val'_def Z'_def Let_def)
  ultimately show ?case by simp
qed

lemma countLeadingZeros_state:
  assumes "V \<noteq> 0"
  shows "lz_state V 1 1 (countLeadingZeros V)"
proof -
  have "unat V < 2 ^ LENGTH(64)" by (rule unsigned_less)
  then have "lz_state V (2 * 2 ^ 5) V 0" using assms by (simp add: lz_state_def)
  then obtain Val' where st: "lz_state V 1 Val' (leading_zeros_loop (2 ^ 5) V 0)"
    using leading_zeros_loop_state [of V 5 V 0] by auto
  then have "unat Val' < 2" "unat Val' \<noteq> 0" unfolding lz_state_def unat_eq_0 by simp_all
  then have "unat Val' = 1" by linarith
  then have "Val' = 1" by (simp add: word_unat_eq_iff)
  with st assms show ?thesis by (simp add: countLeadingZeros_def)
qed

lemma countLeadingZeros_less: "V \<noteq> 0 \<Longrightarrow> countLeadingZeros V < 64"
  using countLeadingZeros_state [of V] by (simp add: lz_state_def)

text \<open>The highest set bit of a non-zero value is bit \<open>63 - countLeadingZeros\<close>.\<close>

lemma countLeadingZeros_bounds:
  assumes "V \<noteq> 0"
  shows "2 ^ (63 - countLeadingZeros V) \<le> unat V"
    and "unat V < 2 ^ (64 - countLeadingZeros V)"
proof -
  let ?k = "63 - countLeadingZeros V"
  have "drop_bit ?k V = 1"
    using countLeadingZeros_state [OF assms] by (simp add: lz_state_def)
  then have "unat V div 2 ^ ?k = 1"
    by (metis unat_drop_bit unat_1)
  then have "2 ^ ?k \<le> unat V" "unat V < 2 * 2 ^ ?k"
    using div_eq_1D by blast+
  moreover have "64 - countLeadingZeros V = Suc ?k"
    using countLeadingZeros_less [OF assms] by simp
  ultimately show "2 ^ ?k \<le> unat V" "unat V < 2 ^ (64 - countLeadingZeros V)" by simp_all
qed

text \<open>The trailing-zero loop: \<open>Val\<close> is the original value without \<open>ZeroBits\<close> zeros, and fewer than
  \<open>s\<close> zeros are left.\<close>

definition tz_state :: "u64 \<Rightarrow> nat \<Rightarrow> u64 \<Rightarrow> nat \<Rightarrow> bool" where
  "tz_state V s Val Z \<longleftrightarrow> unat V = 2 ^ Z * unat Val \<and> \<not> 2 ^ s dvd unat Val"

lemma and_mask_eq_0_iff: "(w :: 'a::len word) AND mask s = 0 \<longleftrightarrow> 2 ^ s dvd unat w"
proof -
  have "w AND mask s = 0 \<longleftrightarrow> unat (take_bit s w) = 0"
    by (simp add: take_bit_eq_mask unat_eq_0)
  then show ?thesis
    by (simp add: unsigned_take_bit_eq take_bit_eq_0_iff)
qed

lemma tz_state_round:
  assumes st: "tz_state V (2 * s) Val Z"
  shows "if Val AND mask s = 0 then tz_state V s (drop_bit s Val) (Z + s) else tz_state V s Val Z"
proof (cases "Val AND mask s = 0")
  case True
  then obtain m where m: "unat Val = 2 ^ s * m" by (auto simp: and_mask_eq_0_iff elim: dvdE)
  then have d: "unat (drop_bit s Val) = m"
    by (simp add: unat_drop_bit)
  have "\<not> 2 ^ s * 2 ^ s dvd unat Val"
    using st by (simp add: tz_state_def power_add [symmetric] mult_2)
  then have "\<not> 2 ^ s dvd m" by (simp add: m)
  with True st m d show ?thesis by (simp add: tz_state_def power_add)
next
  case False
  with st show ?thesis by (simp add: tz_state_def and_mask_eq_0_iff)
qed

lemma drop_bit_mask_half: "drop_bit n (mask (2 * n) :: u64) = mask n" if "2 * n \<le> 64"
  using that by (auto simp: bit_eq_iff bit_simps)

lemma trailing_zeros_loop_state:
  "tz_state V (2 * 2 ^ k) Val Z \<Longrightarrow> 2 * 2 ^ k dvd Z \<Longrightarrow> k \<le> 5 \<Longrightarrow>
    \<exists>Val'. tz_state V 1 Val' (trailing_zeros_loop (2 ^ k) (mask (2 ^ k)) Val Z)"
proof (induction k arbitrary: Val Z)
  case 0
  then show ?case
    using tz_state_round [of V 1 Val Z] or_exp_eq_add [of 0 Z]
    by (auto simp: trailing_zeros_loop.simps [of "Suc 0"] trailing_zeros_loop.simps [of 0] Let_def
        split: if_splits)
next
  case (Suc k)
  have len: "2 * 2 ^ k \<le> (64::nat)"
    using power_increasing [of "Suc k" 5 "2::nat"] Suc.prems(3) by simp
  define Val' where "Val' = (if Val AND mask (2 * 2 ^ k) = 0 then drop_bit (2 * 2 ^ k) Val else Val)"
  define Z' where "Z' = (if Val AND mask (2 * 2 ^ k) = 0 then Z + 2 * 2 ^ k else Z)"
  have "tz_state V (2 * 2 ^ k) Val' Z'"
    using tz_state_round [of V "2 * 2 ^ k" Val Z] Suc.prems(1)
    by (auto simp: Val'_def Z'_def split: if_splits)
  moreover have "2 * 2 ^ k dvd Z'"
    using Suc.prems(2) by (auto simp: Z'_def intro: dvd_mult_left)
  ultimately have "\<exists>Val''. tz_state V 1 Val'' (trailing_zeros_loop (2 ^ k) (mask (2 ^ k)) Val' Z')"
    using Suc.IH Suc.prems(3) by simp
  moreover have "trailing_zeros_loop (2 ^ Suc k) (mask (2 ^ Suc k)) Val Z =
      trailing_zeros_loop (2 ^ k) (mask (2 ^ k)) Val' Z'"
    using or_exp_eq_add [of "Suc k" Z] Suc.prems(2) drop_bit_mask_half [OF len]
    by (simp add: trailing_zeros_loop.simps [of "2 * 2 ^ k"] Val'_def Z'_def Let_def)
  ultimately show ?case by simp
qed

lemma countTrailingZeros_spec:
  assumes "V \<noteq> 0"
  obtains m where "unat V = 2 ^ countTrailingZeros V * m" and "odd m"
proof (cases "V AND 1 = 0")
  case False
  then have "odd (unat V)" using and_mask_eq_0_iff [of V 1] by (simp add: mask_Suc_0)
  with False assms that [of "unat V"] show thesis by (simp add: countTrailingZeros_def)
next
  case True
  have "unat V < 2 ^ LENGTH(64)" by (rule unsigned_less)
  moreover have "0 < unat V" using assms by (simp add: unat_gt_0)
  ultimately have "tz_state V (2 * 2 ^ 5) V 0"
    by (auto simp: tz_state_def dest: dvd_imp_le)
  then obtain Val' where st: "tz_state V 1 Val' (trailing_zeros_loop (2 ^ 5) (mask (2 ^ 5)) V 0)"
    using trailing_zeros_loop_state [of V 5 V 0] by auto
  have "drop_bit 32 (- 1 :: u64) = mask 32"
    using drop_bit_mask_half [of 32] by (simp add: minus_1_eq_mask)
  with st True assms that [of "unat Val'"] show thesis
    by (simp add: countTrailingZeros_def tz_state_def)
qed

lemma findLastSet_eq: "V \<noteq> 0 \<Longrightarrow> findLastSet V = of_nat (63 - countLeadingZeros V)"
proof -
  assume "V \<noteq> 0"
  have "\<forall>n \<in> set [0..<64]. of_nat n XOR of_nat (64 - 1) = (of_nat (63 - n) :: u64)"
    by code_simp
  then show ?thesis
    using countLeadingZeros_less [OF \<open>V \<noteq> 0\<close>] \<open>V \<noteq> 0\<close> by (simp add: findLastSet_def)
qed

text \<open>
  The bit tricks and the alignment arithmetic of \<open>llvm/Support/MathExtras.h\<close>: masks and powers of
  two, logarithms, Euclid's algorithm, alignment and sign extension. \<open>size_t\<close>, \<open>uintptr_t\<close> and
  \<open>uint64_t\<close> are \<open>u64\<close>, \<open>unsigned\<close> results are \<open>u32\<close>, and a shift count, which the source
  requires to be below the width, is a \<open>nat\<close>.
\<close>

section \<open>The functions\<close>

definition Hi_32 :: "u64 \<Rightarrow> u32" where
  "Hi_32 Value = ucast (drop_bit 32 Value)"

definition Lo_32 :: "u64 \<Rightarrow> u32" where
  "Lo_32 Value = ucast Value"

definition Make_64 :: "u32 \<Rightarrow> u32 \<Rightarrow> u64" where
  "Make_64 High Low = push_bit 32 (ucast High) OR ucast Low"

definition isUIntN :: "nat \<Rightarrow> u64 \<Rightarrow> bool" where
  "isUIntN N x \<longleftrightarrow> x = x AND drop_bit (64 - N) (NOT 0)"

definition isIntN :: "nat \<Rightarrow> u64 \<Rightarrow> bool" where
  "isIntN N x \<longleftrightarrow> N \<ge> 64 \<or>
     sint (- push_bit (N - 1) (1 :: u64)) \<le> sint x \<and> sint x < sint (push_bit (N - 1) (1 :: u64))"

definition isMask_32 :: "u32 \<Rightarrow> bool" where
  "isMask_32 Value \<longleftrightarrow> Value \<noteq> 0 \<and> (Value + 1) AND Value = 0"

definition isMask_64 :: "u64 \<Rightarrow> bool" where
  "isMask_64 Value \<longleftrightarrow> Value \<noteq> 0 \<and> (Value + 1) AND Value = 0"

definition isShiftedMask_32 :: "u32 \<Rightarrow> bool" where
  "isShiftedMask_32 Value = isMask_32 ((Value - 1) OR Value)"

definition isShiftedMask_64 :: "u64 \<Rightarrow> bool" where
  "isShiftedMask_64 Value = isMask_64 ((Value - 1) OR Value)"

definition isPowerOf2_32 :: "u32 \<Rightarrow> bool" where
  "isPowerOf2_32 Value \<longleftrightarrow> Value \<noteq> 0 \<and> \<not> Value AND (Value - 1) \<noteq> 0"

definition isPowerOf2_64 :: "u64 \<Rightarrow> bool" where
  "isPowerOf2_64 Value \<longleftrightarrow> Value \<noteq> 0 \<and> \<not> Value AND (Value - 1) \<noteq> 0"

definition countLeadingOnes :: "u64 \<Rightarrow> nat" where
  "countLeadingOnes Value = countLeadingZeros (NOT Value)"

definition countTrailingOnes :: "u64 \<Rightarrow> nat" where
  "countTrailingOnes Value = countTrailingZeros (NOT Value)"

definition Log2_64 :: "u64 \<Rightarrow> u32" where
  "Log2_64 Value = 63 - of_nat (countLeadingZeros Value)"

definition Log2_64_Ceil :: "u64 \<Rightarrow> u32" where
  "Log2_64_Ceil Value = 64 - of_nat (countLeadingZeros (Value - 1))"

function GreatestCommonDivisor64 :: "u64 \<Rightarrow> u64 \<Rightarrow> u64" where
  "GreatestCommonDivisor64 A B = (if B \<noteq> 0 then GreatestCommonDivisor64 B (A mod B) else A)"
  by pat_completeness auto
termination
proof (relation "measure (\<lambda>(A, B). unat B)")
  show "((B, A mod B), (A, B)) \<in> measure (\<lambda>(A, B). unat B)" if "B \<noteq> 0" for A B :: u64
    using that by (simp add: unat_mod_distrib unat_gt_0)
qed simp

declare GreatestCommonDivisor64.simps [simp del]

definition MinAlign :: "u64 \<Rightarrow> u64 \<Rightarrow> u64" where
  "MinAlign A B = (A OR B) AND (1 + NOT (A OR B))"

text \<open>The two assertions of \<open>alignAddr\<close> are the branches that return no value.\<close>

definition alignAddr :: "u64 \<Rightarrow> u64 \<Rightarrow> u64 option" where
  "alignAddr Addr Alignment =
     (if \<not> (Alignment \<noteq> 0 \<and> isPowerOf2_64 Alignment) then None
      else if \<not> Addr + Alignment - 1 \<ge> Addr then None
      else Some ((Addr + Alignment - 1) AND NOT (Alignment - 1)))"

definition alignmentAdjustment :: "u64 \<Rightarrow> u64 \<Rightarrow> u64 option" where
  "alignmentAdjustment Ptr Alignment = map_option (\<lambda>a. a - Ptr) (alignAddr Ptr Alignment)"

definition NextPowerOf2 :: "u64 \<Rightarrow> u64" where
  "NextPowerOf2 A =
     (let A = A OR drop_bit 1 A; A = A OR drop_bit 2 A; A = A OR drop_bit 4 A;
          A = A OR drop_bit 8 A; A = A OR drop_bit 16 A; A = A OR drop_bit 32 A
      in A + 1)"

definition PowerOf2Floor :: "u64 \<Rightarrow> u64" where
  "PowerOf2Floor A = (if A = 0 then 0 else push_bit (63 - countLeadingZeros A) 1)"

definition RoundUpToAlignment :: "u64 \<Rightarrow> u64 \<Rightarrow> u64" where
  "RoundUpToAlignment Value Align = (Value + Align - 1) div Align * Align"

definition OffsetToAlignment :: "u64 \<Rightarrow> u64 \<Rightarrow> u64" where
  "OffsetToAlignment Value Align = RoundUpToAlignment Value Align - Value"

definition SignExtend32 :: "u32 \<Rightarrow> nat \<Rightarrow> u32" where
  "SignExtend32 X B = signed_drop_bit (32 - B) (push_bit (32 - B) X)"

definition SignExtend64 :: "u64 \<Rightarrow> nat \<Rightarrow> u64" where
  "SignExtend64 X B = signed_drop_bit (64 - B) (push_bit (64 - B) X)"

section \<open>The lowest set bit\<close>

declare push_bit_Suc [simp del]

lemma lowest_bit_split:
  fixes x :: "'a::len word"
  assumes "x \<noteq> 0"
  obtains t q where "t < LENGTH('a)" and "x = push_bit (Suc t) q OR push_bit t 1"
    and "x - 1 = push_bit (Suc t) q OR mask t" and "bit x t" and "\<And>s. s < t \<Longrightarrow> \<not> bit x s"
proof -
  define t where "t = (LEAST n. bit x n)"
  have ex: "\<exists>n. bit x n" using assms by (auto simp: bit_eq_iff)
  have t: "bit x t" unfolding t_def using ex by (rule LeastI_ex)
  have low: "\<not> bit x s" if "s < t" for s using that not_less_Least t_def by blast
  have len: "t < LENGTH('a)" using t by (rule bit_imp_le_length)
  define q where "q = drop_bit (Suc t) x"
  have x: "x = push_bit (Suc t) q OR push_bit t 1"
  proof (rule bit_word_eqI)
    fix n assume "n < LENGTH('a)"
    then show "bit x n = bit (push_bit (Suc t) q OR push_bit t 1) n"
      using t low [of n] by (cases n t rule: linorder_cases) (auto simp: q_def bit_simps)
  qed
  have "push_bit (Suc t) q AND push_bit t 1 = 0" "push_bit (Suc t) q AND mask t = 0"
    by (intro bit_word_eqI; auto simp: bit_simps)+
  then have "x = push_bit (Suc t) q + push_bit t 1"
    "push_bit (Suc t) q OR mask t = push_bit (Suc t) q + mask t"
    using x by (simp_all add: disjunctive_add_eq_or)
  then have "x - 1 = push_bit (Suc t) q OR mask t"
    by (simp add: mask_eq_exp_minus_1 push_bit_eq_mult)
  with that len x t low show thesis by blast
qed

lemma power_of_2_trick:
  fixes x :: "'a::len word"
  shows "x \<noteq> 0 \<and> x AND (x - 1) = 0 \<longleftrightarrow> (\<exists>t<LENGTH('a). x = 2 ^ t)"
proof
  assume "x \<noteq> 0 \<and> x AND (x - 1) = 0"
  then obtain t q where s: "t < LENGTH('a)" "x = push_bit (Suc t) q OR push_bit t 1"
    "x - 1 = push_bit (Suc t) q OR mask t" and z: "x AND (x - 1) = 0"
    using lowest_bit_split [of x] by metis
  have "x AND (x - 1) = push_bit (Suc t) q"
    unfolding s(3) by (subst s(2), rule bit_word_eqI) (auto simp: bit_simps simp del: push_bit_Suc)
  with z s(1,2) show "\<exists>t<LENGTH('a). x = 2 ^ t" by (auto simp: push_bit_eq_mult)
next
  assume "\<exists>t<LENGTH('a). x = 2 ^ t"
  then obtain t where t: "t < LENGTH('a)" "x = 2 ^ t" by blast
  have "x - 1 = mask t" by (simp add: t(2) mask_eq_exp_minus_1)
  moreover have "(2 ^ t :: 'a word) AND mask t = 0" by (intro bit_word_eqI) (auto simp: bit_simps)
  ultimately show "x \<noteq> 0 \<and> x AND (x - 1) = 0" using t by simp
qed

lemma mask_trick:
  fixes x :: "'a::len word"
  shows "x \<noteq> 0 \<and> (x + 1) AND x = 0 \<longleftrightarrow> (\<exists>t\<le>LENGTH('a). 0 < t \<and> x = mask t)"
proof (cases "x + 1 = 0")
  case True
  then have "x = mask LENGTH('a)" by (simp add: eq_neg_iff_add_eq_0 flip: minus_1_eq_mask)
  moreover from this have "x \<noteq> 0" by (simp flip: minus_1_eq_mask)
  ultimately show ?thesis using True by auto
next
  case False
  have "(x + 1) AND x = 0 \<longleftrightarrow> (\<exists>t<LENGTH('a). x + 1 = 2 ^ t)"
    using power_of_2_trick [of "x + 1"] False by simp
  also have "\<dots> \<longleftrightarrow> (\<exists>t<LENGTH('a). x = mask t)"
    by (simp add: mask_eq_exp_minus_1 eq_diff_eq)
  finally have "x \<noteq> 0 \<and> (x + 1) AND x = 0 \<longleftrightarrow> (\<exists>t<LENGTH('a). x \<noteq> 0 \<and> x = mask t)" by auto
  also have "\<dots> \<longleftrightarrow> (\<exists>t\<le>LENGTH('a). 0 < t \<and> x = mask t)"
  proof -
    have "x \<noteq> mask LENGTH('a)" using False by (auto simp: eq_neg_iff_add_eq_0 simp flip: minus_1_eq_mask)
    moreover have "t < LENGTH('a) \<Longrightarrow> mask t \<noteq> (0 :: 'a word) \<longleftrightarrow> 0 < t" for t
      by (auto simp: mask_eq_0_iff)
    ultimately show ?thesis by (metis le_eq_less_or_eq)
  qed
  finally show ?thesis .
qed

lemma or_pred:
  fixes x :: "'a::len word"
  assumes "x \<noteq> 0"
  obtains t q where "t < LENGTH('a)" and "x = push_bit (Suc t) q OR push_bit t 1"
    and "(x - 1) OR x = push_bit (Suc t) q OR mask (Suc t)"
proof -
  obtain t q where s: "t < LENGTH('a)" "x = push_bit (Suc t) q OR push_bit t 1"
    "x - 1 = push_bit (Suc t) q OR mask t"
    using lowest_bit_split [OF assms] by metis
  have "(x - 1) OR x = push_bit (Suc t) q OR mask (Suc t)"
    unfolding s(3) by (subst s(2)) (auto simp: bit_eq_iff bit_simps less_Suc_eq)
  with s that show thesis by blast
qed

lemma shifted_mask_trick:
  fixes x :: "'a::len word"
  assumes "x \<noteq> 0"
  shows "(\<exists>n\<le>LENGTH('a). 0 < n \<and> (x - 1) OR x = mask n) \<longleftrightarrow>
    (\<exists>t k. 0 < k \<and> t + k \<le> LENGTH('a) \<and> x = push_bit t (mask k))"
proof
  assume "\<exists>n\<le>LENGTH('a). 0 < n \<and> (x - 1) OR x = mask n"
  then obtain n where n: "n \<le> LENGTH('a)" "(x - 1) OR x = mask n" by blast
  obtain t q where s: "t < LENGTH('a)" "x = push_bit (Suc t) q OR push_bit t 1"
    "(x - 1) OR x = push_bit (Suc t) q OR mask (Suc t)"
    using or_pred [OF assms] by blast
  have eq: "push_bit (Suc t) q OR mask (Suc t) = mask n" using s(3) n(2) by simp
  have bits: "bit (push_bit (Suc t) q) i \<longleftrightarrow> Suc t \<le> i \<and> i < n" if "i < LENGTH('a)" for i
    using arg_cong [OF eq, of "\<lambda>w. bit w i"] that by (auto simp: bit_simps)
  have "bit (mask n :: 'a word) t" unfolding eq [symmetric] using s(1) by (simp add: bit_simps)
  then have tn: "t < n" by (simp add: bit_simps)
  have "x = push_bit t (mask (n - t))"
  proof (rule bit_word_eqI)
    fix i assume i: "i < LENGTH('a)"
    show "bit x i = bit (push_bit t (mask (n - t)) :: 'a word) i"
      by (subst s(2), unfold bit_or_iff bits [OF i])
        (use i tn in \<open>auto simp: bit_push_bit_iff bit_mask_iff bit_1_iff bit_exp_iff\<close>)
  qed
  then show "\<exists>t k. 0 < k \<and> t + k \<le> LENGTH('a) \<and> x = push_bit t (mask k)"
    using tn n(1) by (intro exI [of _ t] exI [of _ "n - t"]) simp
next
  assume "\<exists>t k. 0 < k \<and> t + k \<le> LENGTH('a) \<and> x = push_bit t (mask k)"
  then obtain t k where k: "0 < k" "t + k \<le> LENGTH('a)" "x = push_bit t (mask k)" by blast
  have "x - 1 = push_bit t (mask k) - 1" by (simp add: k(3))
  also have "(push_bit t (mask k) :: 'a word) = push_bit t 1 + push_bit (Suc t) (mask (k - 1))"
  proof -
    obtain j where j: "k = Suc j" using k(1) by (cases k) auto
    have "(mask k :: 'a word) = 1 + push_bit 1 (mask j)"
      by (simp add: j mask_eq_exp_minus_1 push_bit_eq_mult algebra_simps)
    then show ?thesis by (simp add: j push_bit_add)
  qed
  also have "\<dots> - 1 = mask t + push_bit (Suc t) (mask (k - 1))"
    by (simp add: mask_eq_exp_minus_1 push_bit_eq_mult)
  also have "\<dots> = mask t OR push_bit (Suc t) (mask (k - 1))"
    by (rule disjunctive_add_eq_or) (auto simp: bit_eq_iff bit_simps)
  finally have "(x - 1) OR x = mask (t + k)"
    using k(1,2) unfolding k(3) by (auto simp: bit_eq_iff bit_simps)
  then show "\<exists>n\<le>LENGTH('a). 0 < n \<and> (x - 1) OR x = mask n" using k by (intro exI [of _ "t + k"]) simp
qed

lemma lowest_bit_trick:
  fixes x :: "'a::len word"
  assumes "x \<noteq> 0"
  obtains t where "t < LENGTH('a)" and "x AND (1 + NOT x) = 2 ^ t" and "2 ^ t dvd unat x" and "\<not> 2 ^ Suc t dvd unat x"
proof -
  obtain t q where s: "t < LENGTH('a)" "x = push_bit (Suc t) q OR push_bit t 1"
    "x - 1 = push_bit (Suc t) q OR mask t" "bit x t" "\<And>s. s < t \<Longrightarrow> \<not> bit x s"
    using lowest_bit_split [OF assms] by metis
  have "1 + NOT x = NOT (x - 1)" by (simp add: not_diff_distrib)
  then have "x AND (1 + NOT x) = 2 ^ t"
    unfolding s(3) by (subst s(2), intro bit_word_eqI)
      (use s(1) in \<open>auto simp: bit_simps simp del: push_bit_Suc\<close>)
  moreover have "take_bit t (unat x) = 0" "take_bit (Suc t) (unat x) \<noteq> 0"
    using s(4,5) by (auto simp: bit_eq_iff bit_simps intro!: exI [of _ t])
  ultimately show thesis using that s(1) by (simp add: take_bit_eq_0_iff)
qed

section \<open>Logarithms and powers\<close>

lemma countLeadingZeros_Log2:
  assumes "V \<noteq> 0"
  shows "unat (Log2_64 V) = 63 - countLeadingZeros V"
proof -
  have l: "countLeadingZeros V \<le> 63" using countLeadingZeros_less [OF assms] by simp
  then have "Log2_64 V = of_nat (63 - countLeadingZeros V)" by (simp add: Log2_64_def of_nat_diff)
  then show ?thesis by (simp add: unat_of_nat take_bit_nat_eq_self less_imp_diff_less)
qed

lemma Log2_64_bounds:
  assumes "V \<noteq> 0"
  shows "2 ^ unat (Log2_64 V) \<le> unat V" and "unat V < 2 ^ Suc (unat (Log2_64 V))"
    and "unat (Log2_64 V) < 64"
proof -
  have "64 - countLeadingZeros V = Suc (63 - countLeadingZeros V)"
    using countLeadingZeros_less [OF assms] by simp
  then show "2 ^ unat (Log2_64 V) \<le> unat V" "unat V < 2 ^ Suc (unat (Log2_64 V))"
    "unat (Log2_64 V) < 64"
    using countLeadingZeros_bounds [OF assms] by (simp_all add: countLeadingZeros_Log2 [OF assms])
qed

lemma top_bit_Log2:
  assumes "V \<noteq> 0"
  shows "bit V (unat (Log2_64 V))" and "bit V n \<Longrightarrow> n \<le> unat (Log2_64 V)"
proof -
  let ?l = "unat (Log2_64 V)"
  have "unat V div 2 ^ ?l = 1"
    using Log2_64_bounds [OF assms] by (intro div_nat_eqI) simp_all
  then show "bit V ?l" by (simp add: bit_iff_odd_unat)
  show "n \<le> ?l" if "bit V n"
  proof (rule ccontr)
    assume "\<not> n \<le> ?l"
    then have "2 ^ Suc ?l \<le> (2 :: nat) ^ n" by (intro power_increasing) simp_all
    then have "unat V < 2 ^ n" using Log2_64_bounds(2) [OF assms] by linarith
    then have "unat V div 2 ^ n = 0" by simp
    then show False using that by (simp add: bit_iff_odd_unat)
  qed
qed

text \<open>Each step of \<open>NextPowerOf2\<close> doubles the distance over which set bits are smeared down.\<close>

lemma smear_step:
  fixes A B :: "'a::len word"
  assumes "k + k = k'" and "\<And>n. bit A n \<longleftrightarrow> (\<exists>d<k. bit B (n + d))"
  shows "bit (A OR drop_bit k A) n \<longleftrightarrow> (\<exists>d<k'. bit B (n + d))"
proof -
  have "bit (A OR drop_bit k A) n \<longleftrightarrow> (\<exists>d<k. bit B (n + d)) \<or> (\<exists>d<k. bit B (n + (k + d)))"
    by (simp add: bit_or_iff bit_drop_bit_eq assms(2) ac_simps)
  also have "\<dots> \<longleftrightarrow> (\<exists>d<k + k. bit B (n + d))"
  proof
    assume "(\<exists>d<k. bit B (n + d)) \<or> (\<exists>d<k. bit B (n + (k + d)))"
    then show "\<exists>d<k + k. bit B (n + d)" by (meson add_less_cancel_left trans_less_add1)
  next
    assume "\<exists>d<k + k. bit B (n + d)"
    then obtain d where d: "d < k + k" "bit B (n + d)" by blast
    show "(\<exists>d<k. bit B (n + d)) \<or> (\<exists>d<k. bit B (n + (k + d)))"
    proof (cases "d < k")
      case False
      then have "d - k < k" "n + (k + (d - k)) = n + d" using d by auto
      then show ?thesis using d(2) by metis
    qed (use d in blast)
  qed
  finally show ?thesis by (simp only: assms(1))
qed

definition smear :: "u64 \<Rightarrow> u64" where
  "smear A =
     (let A = A OR drop_bit 1 A; A = A OR drop_bit 2 A; A = A OR drop_bit 4 A;
          A = A OR drop_bit 8 A; A = A OR drop_bit 16 A
      in A OR drop_bit 32 A)"

lemma bit_smear: "bit (smear A) n \<longleftrightarrow> (\<exists>d<64. bit A (n + d))"
proof -
  have z: "bit A n \<longleftrightarrow> (\<exists>d<1. bit A (n + d))" for n by simp
  have k: "2 + 2 = (4 :: nat)" "4 + 4 = (8 :: nat)" "8 + 8 = (16 :: nat)" "16 + 16 = (32 :: nat)"
    "32 + 32 = (64 :: nat)" by simp_all
  note s = smear_step [OF k(5) smear_step [OF k(4) smear_step [OF k(3) smear_step [OF k(2)
    smear_step [OF k(1) smear_step [OF one_add_one z]]]]]]
  show ?thesis using s [of n] by (simp only: smear_def Let_def)
qed

lemma NextPowerOf2_smear: "NextPowerOf2 A = smear A + 1"
  by (simp only: NextPowerOf2_def smear_def Let_def)

lemma smear_mask:
  assumes "A \<noteq> 0"
  shows "smear A = mask (Suc (unat (Log2_64 A)))"
proof (rule bit_word_eqI)
  fix n assume n: "n < LENGTH(64)"
  let ?l = "unat (Log2_64 A)"
  have "(\<exists>d<64. bit A (n + d)) \<longleftrightarrow> n \<le> ?l"
  proof
    assume "n \<le> ?l"
    then have "?l - n < 64" "bit A (n + (?l - n))"
      using Log2_64_bounds(3) [OF assms] top_bit_Log2(1) [OF assms] by simp_all
    then show "\<exists>d<64. bit A (n + d)" by blast
  qed (auto dest: top_bit_Log2(2) [OF assms])
  then show "bit (smear A) n = bit (mask (Suc ?l) :: u64) n"
    using n by (simp add: bit_smear bit_mask_iff less_Suc_eq_le)
qed

section \<open>Alignment\<close>

lemma dvd_unat_iff: "2 ^ s dvd unat w \<longleftrightarrow> take_bit s w = 0" for w :: "'a::len word"
  by (simp add: unsigned_take_bit_eq flip: take_bit_eq_0_iff unat_eq_0)

lemma dvd_unat_or: "2 ^ s dvd unat (a OR b) \<longleftrightarrow> 2 ^ s dvd unat a \<and> 2 ^ s dvd unat b"
  for a b :: "'a::len word"
  by (simp add: dvd_unat_iff or_eq_0_iff)

lemma RoundUp_exact:
  assumes "Align \<noteq> 0" and "unat Value + unat Align - 1 < 2 ^ 64"
  shows "unat (RoundUpToAlignment Value Align) = (unat Value + unat Align - 1) div unat Align * unat Align"
proof -
  have pos: "0 < unat Align" using assms(1) by (simp add: unat_gt_0)
  have "unat (Value + Align - 1) = unat Value + unat Align - 1"
  proof -
    have "Value + Align - 1 = of_nat (unat Value + unat Align - 1)"
      using pos by (simp add: of_nat_diff)
    then show ?thesis using assms(2) by (simp add: unat_of_nat take_bit_nat_eq_self)
  qed
  moreover have "(unat Value + unat Align - 1) div unat Align * unat Align < 2 ^ 64"
    using assms(2) div_times_less_eq_dividend [of "unat Value + unat Align - 1" "unat Align"] by linarith
  ultimately show ?thesis
    by (simp add: RoundUpToAlignment_def unat_word_ariths(2) unat_div_distrib)
qed

lemma round_up_nat:
  fixes v a :: nat
  assumes "0 < a"
  shows "v \<le> (v + a - 1) div a * a" and "(v + a - 1) div a * a < v + a"
proof -
  have "(v + a - 1) div a * a + (v + a - 1) mod a = v + a - 1" by (rule div_mult_mod_eq)
  moreover have "(v + a - 1) mod a < a" using assms by simp
  ultimately show "v \<le> (v + a - 1) div a * a" "(v + a - 1) div a * a < v + a"
    using assms by linarith+
qed

text \<open>Masking the low bits of an address is the division the general routine does.\<close>

lemma and_not_mask: "w AND NOT (mask t) = w div 2 ^ t * 2 ^ t" if "t < LENGTH('a)" for w :: "'a::len word"
proof -
  have "w AND NOT (mask t) = push_bit t (drop_bit t w)"
    by (rule bit_word_eqI) (auto simp: bit_simps)
  then show ?thesis using that by (simp add: push_bit_eq_mult drop_bit_eq_div)
qed

lemma alignAddr_RoundUp:
  assumes "alignAddr Addr Alignment = Some r"
  shows "r = RoundUpToAlignment Addr Alignment" and "Alignment \<noteq> 0"
    and "unat Addr + unat Alignment - 1 < 2 ^ 64"
proof -
  have p: "isPowerOf2_64 Alignment" "Addr + Alignment - 1 \<ge> Addr"
    and r: "r = (Addr + Alignment - 1) AND NOT (Alignment - 1)"
    using assms by (auto simp: alignAddr_def split: if_splits)
  obtain t where t: "t < LENGTH(64)" "Alignment = 2 ^ t"
    using p(1) power_of_2_trick [of Alignment] by (auto simp: isPowerOf2_64_def)
  have "Alignment - 1 = mask t" by (simp add: t(2) mask_eq_exp_minus_1)
  then show "r = RoundUpToAlignment Addr Alignment"
    using and_not_mask [OF t(1), of "Addr + Alignment - 1"] by (simp only: r RoundUpToAlignment_def t(2))
  show "Alignment \<noteq> 0" using p(1) by (simp add: isPowerOf2_64_def)
  then have pos: "0 < unat Alignment" by (simp add: unat_gt_0)
  have "unat (Alignment - 1) = unat Alignment - 1"
    using pos by (simp add: unat_minus_one \<open>Alignment \<noteq> 0\<close>)
  moreover have "\<not> Addr + (Alignment - 1) < Addr" using p(2) by (simp add: add_diff_eq)
  then have "unat (Addr + (Alignment - 1)) = unat Addr + unat (Alignment - 1)"
    using unat_add_carry [of Addr "Alignment - 1"] by simp
  ultimately show "unat Addr + unat Alignment - 1 < 2 ^ 64"
    using pos u64_less [of "Addr + (Alignment - 1)"] by linarith
qed

text \<open>The documentation of \<open>RoundUpToAlignment\<close> promises the next multiple modulo \<open>2 ^ 64\<close>. When
  the sum wraps and the alignment does not divide \<open>2 ^ 64\<close> the result is neither that multiple nor
  the wrapped one: the largest value is itself a multiple of 3, and is rounded to 0.\<close>

lemma RoundUpToAlignment_wraps:
  "unat (- 1 :: u64) mod 3 = 0 \<and> RoundUpToAlignment (- 1) 3 = 0"
  by (simp add: RoundUpToAlignment_def unsigned_minus_1_eq_mask mask_eq_exp_minus_1)

section \<open>Sign extension and range tests\<close>

lemma bit_SignExtend64:
  assumes "0 < B" and "B \<le> 64" and "n < 64"
  shows "bit (SignExtend64 X B) n \<longleftrightarrow> bit X (min n (B - 1))"
  using assms by (auto simp: SignExtend64_def bit_simps min_def)

lemma SignExtend64_sint:
  assumes "0 < B" and "B \<le> 64"
  shows "sint (SignExtend64 X B) = signed_take_bit (B - 1) (uint X)"
proof (rule bit_eqI)
  fix n :: nat
  show "bit (sint (SignExtend64 X B)) n = bit (signed_take_bit (B - 1) (uint X)) n"
  proof (cases "n < 64")
    case True
    then show ?thesis
      using assms bit_SignExtend64 [OF assms, of n X] bit_SignExtend64 [OF assms, of 63 X]
      by (auto simp: bit_sint_iff bit_signed_take_bit_iff bit_uint_iff min_def)
  next
    case False
    then have "min n (B - 1) = B - 1" "\<not> bit (SignExtend64 X B) n" "min 63 (B - 1) = B - 1"
      using assms by (auto dest: bit_imp_le_length)
    with False show ?thesis
      using assms bit_SignExtend64 [OF assms, of 63 X]
      by (auto simp: bit_sint_iff bit_signed_take_bit_iff bit_uint_iff)
  qed
qed

section \<open>The properties\<close>

text \<open>The bit tricks decide what they claim to: \<open>isPowerOf2_64\<close> accepts the powers of two,
  \<open>isMask_64\<close> the non-empty runs of ones that start at bit 0, and \<open>isShiftedMask_64\<close> the non-empty
  runs of ones anywhere, but also zero.\<close>

theorem mask_predicates:
  "(isPowerOf2_64 v \<longleftrightarrow> (\<exists>t<64. v = 2 ^ t)) \<and>
   (isMask_64 v \<longleftrightarrow> (\<exists>k\<le>64. 0 < k \<and> v = mask k)) \<and>
   (isShiftedMask_64 v \<longleftrightarrow> v = 0 \<or> (\<exists>t k. 0 < k \<and> t + k \<le> 64 \<and> v = push_bit t (mask k)))"
proof (intro conjI)
  show "isPowerOf2_64 v \<longleftrightarrow> (\<exists>t<64. v = 2 ^ t)"
    using power_of_2_trick [of v] by (simp add: isPowerOf2_64_def)
  show "isMask_64 v \<longleftrightarrow> (\<exists>k\<le>64. 0 < k \<and> v = mask k)"
    using mask_trick [of v] by (simp add: isMask_64_def)
  show "isShiftedMask_64 v \<longleftrightarrow> v = 0 \<or> (\<exists>t k. 0 < k \<and> t + k \<le> 64 \<and> v = push_bit t (mask k))"
  proof (cases "v = 0")
    case False
    then show ?thesis
      using shifted_mask_trick [of v] mask_trick [of "(v - 1) OR v"]
      by (simp add: isShiftedMask_64_def isMask_64_def)
  qed (simp add: isShiftedMask_64_def isMask_64_def)
qed

text \<open>Euclid's loop returns the greatest common divisor.\<close>

theorem GreatestCommonDivisor64_gcd: "unat (GreatestCommonDivisor64 A B) = gcd (unat A) (unat B)"
proof (induction A B rule: GreatestCommonDivisor64.induct)
  case (1 A B)
  show ?case
  proof (cases "B = 0")
    case False
    with 1 have "unat (GreatestCommonDivisor64 A B) = gcd (unat B) (unat A mod unat B)"
      by (simp add: GreatestCommonDivisor64.simps [of A B] unat_mod_distrib)
    then show ?thesis by (metis gcd.commute gcd_red_nat)
  qed (simp add: GreatestCommonDivisor64.simps [of A])
qed

text \<open>\<open>NextPowerOf2\<close> returns the least power of two above its argument, and zero when that
  power does not fit 64 bits; \<open>PowerOf2Floor\<close> returns the greatest power of two that is at most a
  non-zero argument; both agree with \<open>Log2_64\<close>.\<close>

theorem power_of_2_neighbours:
  assumes "A \<noteq> 0"
  shows "unat (PowerOf2Floor A) = 2 ^ unat (Log2_64 A) \<and>
    unat (PowerOf2Floor A) \<le> unat A \<and> unat A < 2 * unat (PowerOf2Floor A) \<and>
    unat (NextPowerOf2 A) = 2 * unat (PowerOf2Floor A) mod 2 ^ 64"
proof (intro conjI)
  note b = Log2_64_bounds [OF assms]
  have "(2 :: nat) ^ unat (Log2_64 A) < 2 ^ 64" by (rule power_strict_increasing) (use b(3) in simp_all)
  then show f: "unat (PowerOf2Floor A) = 2 ^ unat (Log2_64 A)"
    using assms unat_of_nat [of "2 ^ unat (Log2_64 A)", where 'a = 64]
    by (simp add: PowerOf2Floor_def push_bit_eq_mult take_bit_nat_eq_self
      flip: countLeadingZeros_Log2 [OF assms])
  show "unat (PowerOf2Floor A) \<le> unat A" "unat A < 2 * unat (PowerOf2Floor A)"
    using b unfolding f by simp_all
  have "NextPowerOf2 A = 2 ^ Suc (unat (Log2_64 A))"
    by (simp add: NextPowerOf2_smear smear_mask [OF assms] mask_eq_exp_minus_1)
  moreover have "unat (2 ^ Suc (unat (Log2_64 A)) :: u64) = 2 ^ Suc (unat (Log2_64 A)) mod 2 ^ 64"
    using unat_of_nat [of "2 ^ Suc (unat (Log2_64 A))", where 'a = 64] by (simp add: take_bit_eq_mod)
  ultimately show "unat (NextPowerOf2 A) = 2 * unat (PowerOf2Floor A) mod 2 ^ 64"
    unfolding f by simp
qed

theorem power_of_2_neighbours_witness:
  "unat (NextPowerOf2 100) = 2 * unat (PowerOf2Floor 100) mod 2 ^ 64"
  using power_of_2_neighbours [of 100] by simp

text \<open>\<open>MinAlign\<close> returns the largest power of two that divides both arguments.\<close>

theorem MinAlign_largest:
  assumes "A \<noteq> 0 \<or> B \<noteq> 0"
  shows "\<exists>t<64. MinAlign A B = 2 ^ t \<and> (\<forall>s. 2 ^ s dvd unat A \<and> 2 ^ s dvd unat B \<longleftrightarrow> s \<le> t)"
proof -
  have "A OR B \<noteq> 0" using assms by (simp add: or_eq_0_iff)
  from lowest_bit_trick [OF this] obtain t where t: "t < LENGTH(64)" "MinAlign A B = 2 ^ t"
    "2 ^ t dvd unat (A OR B)" "\<not> 2 ^ Suc t dvd unat (A OR B)"
    unfolding MinAlign_def by metis
  have "2 ^ s dvd unat (A OR B) \<longleftrightarrow> s \<le> t" for s
  proof
    assume d: "2 ^ s dvd unat (A OR B)"
    show "s \<le> t"
    proof (rule ccontr)
      assume "\<not> s \<le> t"
      then have "(2 :: nat) ^ Suc t dvd 2 ^ s" by (intro le_imp_power_dvd) simp
      with d t(4) show False by (meson dvd_trans)
    qed
  next
    assume "s \<le> t"
    then have "(2 :: nat) ^ s dvd 2 ^ t" by (rule le_imp_power_dvd)
    with t(3) show "2 ^ s dvd unat (A OR B)" by (meson dvd_trans)
  qed
  with t(1,2) show ?thesis by (auto simp: dvd_unat_or)
qed

theorem MinAlign_largest_witness:
  "\<exists>t<64. MinAlign 24 20 = 2 ^ t \<and> (\<forall>s. 2 ^ s dvd unat (24 :: u64) \<and> 2 ^ s dvd unat (20 :: u64) \<longleftrightarrow> s \<le> t)"
  using MinAlign_largest [of 24 20] by simp

text \<open>As long as the sum does not wrap, \<open>RoundUpToAlignment\<close> returns the least multiple of the
  alignment that is at least the value, and \<open>OffsetToAlignment\<close> the distance to it. The mask based
  \<open>alignAddr\<close>, whenever its assertions hold, returns the same.\<close>

theorem RoundUpToAlignment_least:
  assumes "Align \<noteq> 0" and "unat Value + unat Align - 1 < 2 ^ 64"
  shows "unat Align dvd unat (RoundUpToAlignment Value Align) \<and>
    unat Value \<le> unat (RoundUpToAlignment Value Align) \<and>
    unat (RoundUpToAlignment Value Align) < unat Value + unat Align \<and>
    unat Value + unat (OffsetToAlignment Value Align) = unat (RoundUpToAlignment Value Align)"
proof (intro conjI)
  have pos: "0 < unat Align" using assms(1) by (simp add: unat_gt_0)
  note e = RoundUp_exact [OF assms]
  show "unat Align dvd unat (RoundUpToAlignment Value Align)" by (simp add: e)
  show le: "unat Value \<le> unat (RoundUpToAlignment Value Align)"
    and "unat (RoundUpToAlignment Value Align) < unat Value + unat Align"
    unfolding e by (rule round_up_nat [OF pos])+
  show "unat Value + unat (OffsetToAlignment Value Align) = unat (RoundUpToAlignment Value Align)"
    using le by (simp add: OffsetToAlignment_def unat_sub_if')
qed

theorem RoundUpToAlignment_least_witness:
  "unat (5 :: u64) \<le> unat (RoundUpToAlignment 5 8) \<and> unat (RoundUpToAlignment 5 8) < unat (5 :: u64) + unat (8 :: u64)"
  using RoundUpToAlignment_least [of 8 5] by simp

text \<open>Whenever the assertions of \<open>alignAddr\<close> hold it returns what \<open>RoundUpToAlignment\<close> returns,
  without wrap-around, and they hold for every power of two that leaves the address room.\<close>

theorem alignAddr_correct:
  shows "alignAddr Addr Alignment = Some r \<longleftrightarrow>
    isPowerOf2_64 Alignment \<and> unat Addr + unat Alignment - 1 < 2 ^ 64 \<and> r = RoundUpToAlignment Addr Alignment"
proof
  assume "alignAddr Addr Alignment = Some r"
  with alignAddr_RoundUp [OF this] show "isPowerOf2_64 Alignment \<and> unat Addr + unat Alignment - 1 < 2 ^ 64 \<and>
      r = RoundUpToAlignment Addr Alignment"
    by (auto simp: alignAddr_def split: if_splits)
next
  assume p: "isPowerOf2_64 Alignment \<and> unat Addr + unat Alignment - 1 < 2 ^ 64 \<and>
      r = RoundUpToAlignment Addr Alignment"
  then have nz: "Alignment \<noteq> 0" by (simp add: isPowerOf2_64_def)
  then have "unat (Alignment - 1) = unat Alignment - 1" by (simp add: unat_minus_one)
  moreover have "0 < unat Alignment" using nz by (simp add: unat_gt_0)
  ultimately have "unat (Addr + (Alignment - 1)) = unat Addr + unat (Alignment - 1)"
    using p by (simp add: unat_word_ariths)
  then have "Addr + Alignment - 1 \<ge> Addr" by (simp add: word_le_nat_alt add_diff_eq)
  with p nz have "alignAddr Addr Alignment \<noteq> None" by (simp add: alignAddr_def)
  then obtain s where "alignAddr Addr Alignment = Some s" by blast
  with alignAddr_RoundUp(1) [OF this] p show "alignAddr Addr Alignment = Some r" by simp
qed

end
