(* ===== verification/BigNum.thy ===== *)
theory BigNum
  imports MathExtras
begin

text \<open>
  The arbitrary precision routines \<open>APInt::tc*\<close> of \<open>llvm/lib/Support/APInt.cpp\<close>, on
  arrays of 64-bit parts with the least significant part first. An \<open>integerPart *\<close> is the list of
  the words it points to, a routine that writes through \<open>dst\<close> returns the new list, and an
  offset pointer \<open>&dst[i]\<close> is \<open>drop i dst\<close> written back behind \<open>take i dst\<close>. The counts
  \<open>parts\<close>, \<open>bits\<close> and \<open>count\<close> are natural numbers; the bit numbers that can be \<open>-1U\<close> are
  \<open>u32\<close>. \<open>bval xs n\<close> is the number that the first \<open>n\<close> parts of \<open>xs\<close> stand for; the
  correctness lemmas say what each routine does to it.
\<close>

type_synonym integerPart = u64

abbreviation integerPartWidth :: nat where "integerPartWidth \<equiv> 64"

section \<open>Parts\<close>

definition lowBitMask :: "nat \<Rightarrow> integerPart" where
  "lowBitMask bits = drop_bit (integerPartWidth - bits) (NOT 0)"

definition lowHalf :: "integerPart \<Rightarrow> integerPart" where
  "lowHalf part = part AND lowBitMask (integerPartWidth div 2)"

definition highHalf :: "integerPart \<Rightarrow> integerPart" where
  "highHalf part = drop_bit (integerPartWidth div 2) part"

definition partMSB :: "integerPart \<Rightarrow> u32" where
  "partMSB value = ucast (findLastSet value)"

definition partLSB :: "integerPart \<Rightarrow> u32" where
  "partLSB value = ucast (findFirstSet value)"

section \<open>Assignment, tests and single bits\<close>

definition tcSet :: "integerPart list \<Rightarrow> integerPart \<Rightarrow> nat \<Rightarrow> integerPart list" where
  "tcSet dst part parts = for_upto 1 parts (\<lambda>i dst. dst[i := 0]) (dst[0 := part])"

definition tcAssign :: "integerPart list \<Rightarrow> integerPart list \<Rightarrow> nat \<Rightarrow> integerPart list" where
  "tcAssign dst src parts = for_upto 0 parts (\<lambda>i dst. dst[i := src ! i]) dst"

function tcIsZero_loop :: "integerPart list \<Rightarrow> nat \<Rightarrow> nat \<Rightarrow> bool" where
  "tcIsZero_loop src parts i =
     (if i < parts then (if src ! i \<noteq> 0 then False else tcIsZero_loop src parts (Suc i)) else True)"
  by pat_completeness auto
termination
  by (relation "measure (\<lambda>(src, parts, i). parts - i)") auto

definition tcIsZero :: "integerPart list \<Rightarrow> nat \<Rightarrow> bool" where
  "tcIsZero src parts = tcIsZero_loop src parts 0"

definition tcExtractBit :: "integerPart list \<Rightarrow> nat \<Rightarrow> int" where
  "tcExtractBit parts bt =
     (if parts ! (bt div integerPartWidth) AND push_bit (bt mod integerPartWidth) 1 \<noteq> 0
      then 1 else 0)"

definition tcSetBit :: "integerPart list \<Rightarrow> nat \<Rightarrow> integerPart list" where
  "tcSetBit parts bt = parts[bt div integerPartWidth :=
     parts ! (bt div integerPartWidth) OR push_bit (bt mod integerPartWidth) 1]"

definition tcClearBit :: "integerPart list \<Rightarrow> nat \<Rightarrow> integerPart list" where
  "tcClearBit parts bt = parts[bt div integerPartWidth :=
     parts ! (bt div integerPartWidth) AND NOT (push_bit (bt mod integerPartWidth) 1)]"

function tcLSB_loop :: "integerPart list \<Rightarrow> nat \<Rightarrow> nat \<Rightarrow> u32" where
  "tcLSB_loop parts n i =
     (if i < n then
        if parts ! i \<noteq> 0 then partLSB (parts ! i) + of_nat (i * integerPartWidth)
        else tcLSB_loop parts n (Suc i)
      else - 1)"
  by pat_completeness auto
termination
  by (relation "measure (\<lambda>(parts, n, i). n - i)") auto

definition tcLSB :: "integerPart list \<Rightarrow> nat \<Rightarrow> u32" where
  "tcLSB parts n = tcLSB_loop parts n 0"

text \<open>The source's \<open>do \<dots> while (n)\<close> starts by decrementing \<open>n\<close>, so it needs \<open>n > 0\<close>; running
  down to zero is the fall-through that returns \<open>-1U\<close>.\<close>

fun tcMSB :: "integerPart list \<Rightarrow> nat \<Rightarrow> u32" where
  "tcMSB parts 0 = - 1"
| "tcMSB parts (Suc n) =
     (if parts ! n \<noteq> 0 then partMSB (parts ! n) + of_nat (n * integerPartWidth)
      else tcMSB parts n)"

section \<open>Addition, subtraction, increment\<close>

definition tcAdd ::
    "integerPart list \<Rightarrow> integerPart list \<Rightarrow> integerPart \<Rightarrow> nat \<Rightarrow> integerPart list \<times> integerPart" where
  "tcAdd dst rhs c parts =
     for_upto 0 parts (\<lambda>i (dst, c).
       let l = dst ! i in
       if c \<noteq> 0 then
         let dst = dst[i := dst ! i + (rhs ! i + 1)] in (dst, of_bool (dst ! i \<le> l))
       else
         let dst = dst[i := dst ! i + rhs ! i] in (dst, of_bool (dst ! i < l)))
     (dst, c)"

definition tcSubtract ::
    "integerPart list \<Rightarrow> integerPart list \<Rightarrow> integerPart \<Rightarrow> nat \<Rightarrow> integerPart list \<times> integerPart" where
  "tcSubtract dst rhs c parts =
     for_upto 0 parts (\<lambda>i (dst, c).
       let l = dst ! i in
       if c \<noteq> 0 then
         let dst = dst[i := dst ! i - (rhs ! i + 1)] in (dst, of_bool (dst ! i \<ge> l))
       else
         let dst = dst[i := dst ! i - rhs ! i] in (dst, of_bool (dst ! i > l)))
     (dst, c)"

definition tcComplement :: "integerPart list \<Rightarrow> nat \<Rightarrow> integerPart list" where
  "tcComplement dst parts = for_upto 0 parts (\<lambda>i dst. dst[i := NOT (dst ! i)]) dst"

text \<open>\<open>tcIncrement\<close> breaks out of the loop at the first part that does not become zero; the
  carry is \<open>i == parts\<close>. \<open>tcDecrement\<close> returns from inside its loop.\<close>

function tcIncrement_loop :: "integerPart list \<Rightarrow> nat \<Rightarrow> nat \<Rightarrow> integerPart list \<times> nat" where
  "tcIncrement_loop dst parts i =
     (if i < parts then
        let dst = dst[i := dst ! i + 1] in
        if dst ! i \<noteq> 0 then (dst, i) else tcIncrement_loop dst parts (Suc i)
      else (dst, i))"
  by pat_completeness auto
termination
  by (relation "measure (\<lambda>(dst, parts, i). parts - i)") auto

definition tcIncrement :: "integerPart list \<Rightarrow> nat \<Rightarrow> integerPart list \<times> integerPart" where
  "tcIncrement dst parts =
     (let (dst, i) = tcIncrement_loop dst parts 0 in (dst, of_bool (i = parts)))"

function tcDecrement_loop :: "integerPart list \<Rightarrow> nat \<Rightarrow> nat \<Rightarrow> integerPart list \<times> integerPart" where
  "tcDecrement_loop dst parts i =
     (if i < parts then
        let old = dst ! i; dst = dst[i := dst ! i - 1] in
        if old \<noteq> 0 then (dst, 0) else tcDecrement_loop dst parts (Suc i)
      else (dst, 1))"
  by pat_completeness auto
termination
  by (relation "measure (\<lambda>(dst, parts, i). parts - i)") auto

definition tcDecrement :: "integerPart list \<Rightarrow> nat \<Rightarrow> integerPart list \<times> integerPart" where
  "tcDecrement dst parts = tcDecrement_loop dst parts 0"

definition tcNegate :: "integerPart list \<Rightarrow> nat \<Rightarrow> integerPart list" where
  "tcNegate dst parts = fst (tcIncrement (tcComplement dst parts) parts)"

section \<open>Comparison and bitwise operations\<close>

fun tcCompare :: "integerPart list \<Rightarrow> integerPart list \<Rightarrow> nat \<Rightarrow> int" where
  "tcCompare lhs rhs 0 = 0"
| "tcCompare lhs rhs (Suc parts) =
     (if lhs ! parts = rhs ! parts then tcCompare lhs rhs parts
      else if lhs ! parts > rhs ! parts then 1 else - 1)"

definition tcAnd :: "integerPart list \<Rightarrow> integerPart list \<Rightarrow> nat \<Rightarrow> integerPart list" where
  "tcAnd dst rhs parts = for_upto 0 parts (\<lambda>i dst. dst[i := dst ! i AND rhs ! i]) dst"

definition tcOr :: "integerPart list \<Rightarrow> integerPart list \<Rightarrow> nat \<Rightarrow> integerPart list" where
  "tcOr dst rhs parts = for_upto 0 parts (\<lambda>i dst. dst[i := dst ! i OR rhs ! i]) dst"

definition tcXor :: "integerPart list \<Rightarrow> integerPart list \<Rightarrow> nat \<Rightarrow> integerPart list" where
  "tcXor dst rhs parts = for_upto 0 parts (\<lambda>i dst. dst[i := dst ! i XOR rhs ! i]) dst"

declare tcIsZero_loop.simps [simp del] tcLSB_loop.simps [simp del]
  tcIncrement_loop.simps [simp del] tcDecrement_loop.simps [simp del]

section \<open>The number a part array stands for\<close>

definition bval :: "integerPart list \<Rightarrow> nat \<Rightarrow> nat" where
  "bval xs n = (\<Sum>i<n. unat (xs ! i) * 2 ^ (64 * i))"

lemma bval_0 [simp]: "bval xs 0 = 0"
  by (simp add: bval_def)

lemma bval_Suc: "bval xs (Suc n) = bval xs n + unat (xs ! n) * 2 ^ (64 * n)"
  by (simp add: bval_def)

lemma bval_cong: "(\<And>i. i < n \<Longrightarrow> xs ! i = ys ! i) \<Longrightarrow> bval xs n = bval ys n"
  by (simp add: bval_def)

lemma bval_update_beyond [simp]: "n \<le> i \<Longrightarrow> bval (xs[i := v]) n = bval xs n"
  by (rule bval_cong) simp

lemma unat_part_less: "unat (w :: u64) < 2 ^ 64"
  using unsigned_less [of w] by simp

lemma exp_part_Suc: "2 ^ (64 * Suc n) = (2 ^ 64 * 2 ^ (64 * n) :: nat)"
  by (simp add: power_add)

lemma bval_less: "bval xs n < 2 ^ (64 * n)"
proof (induction n)
  case 0
  then show ?case by simp
next
  case (Suc n)
  have "(unat (xs ! n) + 1) * 2 ^ (64 * n) \<le> 2 ^ 64 * (2 ^ (64 * n) :: nat)"
    using unat_part_less [of "xs ! n"] by (intro mult_le_mono1) simp
  then have "bval xs (Suc n) < 2 ^ 64 * 2 ^ (64 * n)"
    using Suc by (simp only: bval_Suc add_mult_distrib mult_1)
  then show ?case by (simp only: exp_part_Suc)
qed

lemma bval_eq_0_iff: "bval xs n = 0 \<longleftrightarrow> (\<forall>i<n. xs ! i = 0)"
  by (auto simp: bval_def unat_eq_0)

lemma bval_replicate_0 [simp]: "n \<le> m \<Longrightarrow> bval (replicate m 0) n = 0"
  by (simp add: bval_eq_0_iff)

text \<open>The value splits at any part boundary.\<close>

lemma bval_split: "bval xs (m + n) = bval xs m + bval (drop m xs) n * 2 ^ (64 * m)"
  if "m + n \<le> length xs"
  using that
proof (induction n)
  case 0
  then show ?case by simp
next
  case (Suc n)
  then show ?case
    by (simp add: bval_Suc power_add add_mult_distrib algebra_simps)
qed

text \<open>Bit \<open>k\<close> of the value is bit \<open>k mod 64\<close> of part \<open>k div 64\<close>.\<close>

lemma bit_bval: "bit (bval xs n) k \<longleftrightarrow> k < 64 * n \<and> bit (xs ! (k div 64)) (k mod 64)"
proof (induction n arbitrary: k)
  case 0
  then show ?case by simp
next
  case (Suc n)
  have "bval xs n AND push_bit (64 * n) (unat (xs ! n)) = 0"
    by (rule bit_eqI) (auto simp: bit_simps Suc.IH)
  then have "bval xs (Suc n) = bval xs n OR push_bit (64 * n) (unat (xs ! n))"
    by (simp add: bval_Suc push_bit_eq_mult disjunctive_add_eq_or)
  then have "bit (bval xs (Suc n)) k \<longleftrightarrow>
      bit (bval xs n) k \<or> 64 * n \<le> k \<and> bit (xs ! n) (k - 64 * n)"
    by (simp add: bit_simps)
  also have "\<dots> \<longleftrightarrow> k < 64 * Suc n \<and> bit (xs ! (k div 64)) (k mod 64)"
  proof (cases "64 * n \<le> k")
    case True
    show ?thesis
    proof (cases "k < 64 * Suc n")
      case inr: True
      with True have "k div 64 = n" "k mod 64 = k - 64 * n" by (auto simp: div_nat_eqI mod_nat_eqI)
      with True inr Suc.IH show ?thesis by simp
    next
      case False
      then have "\<not> bit (xs ! n) (k - 64 * n)" by (auto dest: bit_imp_le_length)
      with True False Suc.IH show ?thesis by auto
    qed
  next
    case False
    with Suc.IH show ?thesis by auto
  qed
  finally show ?case .
qed

section \<open>Addition and subtraction are exact\<close>

text \<open>One digit of a carry chain, over the digits already processed.\<close>

lemma digit_step_add:
  fixes w :: nat
  assumes "w + c2 * 2 ^ 64 = a + b + c1" and "V + c1 * B = X + Y + c0"
  shows "(V + w * B) + c2 * (2 ^ 64 * B) = (X + a * B) + (Y + b * B) + c0"
proof -
  have "(w + c2 * 2 ^ 64) * B = (a + b + c1) * B" using assms(1) by simp
  then show ?thesis using assms(2) by (simp add: algebra_simps)
qed

lemma digit_step_sub:
  fixes w :: nat
  assumes "a + c2 * 2 ^ 64 = w + b + c1" and "X + c1 * B = V + Y + c0"
  shows "(X + a * B) + c2 * (2 ^ 64 * B) = (V + w * B) + (Y + b * B) + c0"
proof -
  have "(a + c2 * 2 ^ 64) * B = (w + b + c1) * B" using assms(1) by simp
  then show ?thesis using assms(2) by (simp add: algebra_simps)
qed

lemma bool_word_cases: "unat (c :: 'a::len word) \<le> 1 \<Longrightarrow> c \<noteq> 0 \<Longrightarrow> c = 1"
proof -
  assume "unat c \<le> 1" and "c \<noteq> 0"
  moreover from this have "unat c \<noteq> 0" by (simp add: unat_eq_0)
  ultimately have "unat c = 1" by linarith
  then show "c = 1" by (simp add: word_unat_eq_iff)
qed

text \<open>The invariant of the two carry loops: the parts below \<open>k\<close> are done, the others untouched.\<close>

definition tcAdd_inv where
  "tcAdd_inv dst0 rhs c0 k s \<longleftrightarrow> (case s of (dst, c :: integerPart) \<Rightarrow>
     bval dst k + unat c * 2 ^ (64 * k) = bval dst0 k + bval rhs k + unat (c0 :: integerPart) \<and>
     unat c \<le> 1 \<and> length dst = length dst0 \<and> (\<forall>j\<ge>k. dst ! j = dst0 ! j))"

lemma tcAdd_final:
  assumes "parts \<le> length dst" and "unat c \<le> 1"
  shows "tcAdd_inv dst rhs c parts (tcAdd dst rhs c parts)"
  unfolding tcAdd_def
proof (rule for_upto_invariant)
  show "tcAdd_inv dst rhs c 0 (dst, c)" using assms(2) by (simp add: tcAdd_inv_def)
next
  fix k t
  assume k: "k < parts" and inv: "tcAdd_inv dst rhs c k t"
  obtain d e where t: "t = (d, e)" by (cases t)
  let ?a = "dst ! k" and ?b = "rhs ! k"
  define w where "w = (if e \<noteq> 0 then ?a + (?b + 1) else ?a + ?b)"
  define e' :: integerPart where "e' = of_bool (if e \<noteq> 0 then w \<le> ?a else w < ?a)"
  have e: "unat e \<le> 1" "d ! k = ?a" "k < length d"
    using inv k assms(1) by (auto simp: t tcAdd_inv_def)
  have digit: "unat w + unat e' * 2 ^ 64 = unat ?a + unat ?b + unat e"
    using unat_add_carry_Suc [of ?a ?b] unat_add_carry [of ?a ?b] bool_word_cases [OF e(1)]
    by (auto simp: w_def e'_def split: if_splits)
  have "bval d k + unat e * 2 ^ (64 * k) = bval dst k + bval rhs k + unat c"
    using inv by (simp add: t tcAdd_inv_def)
  from digit_step_add [OF digit this]
  have "tcAdd_inv dst rhs c (Suc k) (d[k := w], e')"
    using inv e unfolding tcAdd_inv_def t prod.case bval_Suc exp_part_Suc
    by (auto simp: e'_def)
  then show "tcAdd_inv dst rhs c (Suc k) (case t of (dst, c) \<Rightarrow>
       let l = dst ! k in
       if c \<noteq> 0 then
         let dst = dst[k := dst ! k + (rhs ! k + 1)] in (dst, of_bool (dst ! k \<le> l))
       else
         let dst = dst[k := dst ! k + rhs ! k] in (dst, of_bool (dst ! k < l)))"
    using e by (cases "e = 0") (simp_all add: t w_def e'_def Let_def)
qed simp

definition tcSubtract_inv where
  "tcSubtract_inv dst0 rhs c0 k s \<longleftrightarrow> (case s of (dst, c :: integerPart) \<Rightarrow>
     bval dst0 k + unat c * 2 ^ (64 * k) = bval dst k + bval rhs k + unat (c0 :: integerPart) \<and>
     unat c \<le> 1 \<and> length dst = length dst0 \<and> (\<forall>j\<ge>k. dst ! j = dst0 ! j))"

lemma tcSubtract_final:
  assumes "parts \<le> length dst" and "unat c \<le> 1"
  shows "tcSubtract_inv dst rhs c parts (tcSubtract dst rhs c parts)"
  unfolding tcSubtract_def
proof (rule for_upto_invariant)
  show "tcSubtract_inv dst rhs c 0 (dst, c)" using assms(2) by (simp add: tcSubtract_inv_def)
next
  fix k t
  assume k: "k < parts" and inv: "tcSubtract_inv dst rhs c k t"
  obtain d e where t: "t = (d, e)" by (cases t)
  let ?a = "dst ! k" and ?b = "rhs ! k"
  define w where "w = (if e \<noteq> 0 then ?a - (?b + 1) else ?a - ?b)"
  define e' :: integerPart where "e' = of_bool (if e \<noteq> 0 then w \<ge> ?a else w > ?a)"
  have e: "unat e \<le> 1" "d ! k = ?a" "k < length d"
    using inv k assms(1) by (auto simp: t tcSubtract_inv_def)
  have digit: "unat ?a + unat e' * 2 ^ 64 = unat w + unat ?b + unat e"
    using unat_sub_borrow_Suc [of ?a ?b] unat_sub_borrow [of ?a ?b] bool_word_cases [OF e(1)]
    by (auto simp: w_def e'_def split: if_splits)
  have "bval dst k + unat e * 2 ^ (64 * k) = bval d k + bval rhs k + unat c"
    using inv by (simp add: t tcSubtract_inv_def)
  from digit_step_sub [OF digit this]
  have "tcSubtract_inv dst rhs c (Suc k) (d[k := w], e')"
    using inv e unfolding tcSubtract_inv_def t prod.case bval_Suc exp_part_Suc
    by (auto simp: e'_def)
  then show "tcSubtract_inv dst rhs c (Suc k) (case t of (dst, c) \<Rightarrow>
       let l = dst ! k in
       if c \<noteq> 0 then
         let dst = dst[k := dst ! k - (rhs ! k + 1)] in (dst, of_bool (dst ! k \<ge> l))
       else
         let dst = dst[k := dst ! k - rhs ! k] in (dst, of_bool (dst ! k > l)))"
    using e by (cases "e = 0") (simp_all add: t w_def e'_def Let_def)
qed simp

text \<open>Comparison decides the order of the values.\<close>

lemma bval_Suc_less: "lhs ! n < rhs ! n \<Longrightarrow> bval lhs (Suc n) < bval rhs (Suc n)"
proof -
  assume "lhs ! n < rhs ! n"
  then have "unat (lhs ! n) + 1 \<le> unat (rhs ! n)" by (simp add: word_less_nat_alt)
  then have "(unat (lhs ! n) + 1) * 2 ^ (64 * n) \<le> unat (rhs ! n) * 2 ^ (64 * n)"
    by (rule mult_le_mono1)
  then show ?thesis using bval_less [of lhs n] by (simp add: bval_Suc)
qed

lemma tcCompare_sgn: "tcCompare lhs rhs n = sgn (int (bval lhs n) - int (bval rhs n))"
proof (induction n)
  case 0
  then show ?case by simp
next
  case (Suc n)
  show ?case
  proof (cases "lhs ! n = rhs ! n")
    case True
    with Suc show ?thesis by (simp add: bval_Suc)
  next
    case False
    then consider "lhs ! n < rhs ! n" | "rhs ! n < lhs ! n" by (meson linorder_neqE)
    then show ?thesis
    proof cases
      case 1
      with bval_Suc_less [OF 1] show ?thesis by auto
    next
      case 2
      with bval_Suc_less [OF 2] show ?thesis by auto
    qed
  qed
qed

section \<open>The properties of addition, subtraction and comparison\<close>

text \<open>\<open>tcAdd\<close> is exact. The low \<open>parts\<close> parts it writes and the carry it returns make up the
  sum of the two values and the carry in, the carry is 0 or 1, and the parts above are left as they
  were.\<close>

theorem tcAdd_exact:
  assumes "parts \<le> length dst" and "parts \<le> length rhs" and "unat c \<le> 1"
    and "tcAdd dst rhs c parts = (s, carry)"
  shows "bval s parts + unat carry * 2 ^ (64 * parts) = bval dst parts + bval rhs parts + unat c \<and>
    carry \<in> {0, 1} \<and> (\<forall>j\<ge>parts. s ! j = dst ! j)"
  using tcAdd_final [OF assms(1,3), of rhs] assms(4) bool_word_cases [of carry]
  by (auto simp: tcAdd_inv_def)

theorem tcAdd_exact_witness:
  "case tcAdd [- 1, - 1, 7] [1, 0] 0 2 of (s, carry) \<Rightarrow>
     bval s 2 + unat carry * 2 ^ 128 = bval [- 1, - 1, 7] 2 + bval [1, 0] 2"
  using tcAdd_exact [where dst = "[- 1, - 1, 7]" and rhs = "[1, 0]" and c = 0 and parts = 2]
  by (cases "tcAdd [- 1, - 1, 7] [1, 0] 0 2") simp

text \<open>\<open>tcSubtract\<close> is exact. The difference it writes, the subtrahend and the borrow in make up
  the minuend plus the borrow out at the top, and the borrow out is 1 just when the subtraction
  wraps.\<close>

theorem tcSubtract_exact:
  assumes "parts \<le> length dst" and "parts \<le> length rhs" and "unat c \<le> 1"
    and "tcSubtract dst rhs c parts = (diff, borrow)"
  shows "bval diff parts + bval rhs parts + unat c = bval dst parts + unat borrow * 2 ^ (64 * parts) \<and>
    borrow = (if bval dst parts < bval rhs parts + unat c then 1 else 0)"
proof -
  have inv: "bval diff parts + bval rhs parts + unat c = bval dst parts + unat borrow * 2 ^ (64 * parts)"
    "unat borrow \<le> 1"
    using tcSubtract_final [OF assms(1,3), of rhs] assms(4) by (auto simp: tcSubtract_inv_def)
  have "borrow = 0 \<or> borrow = 1" using bool_word_cases [OF inv(2)] by blast
  then have "borrow = (if bval dst parts < bval rhs parts + unat c then 1 else 0)"
    using inv(1) bval_less [of diff parts] by auto
  with inv(1) show ?thesis by blast
qed

theorem tcSubtract_exact_witness:
  "case tcSubtract [3, 0] [5, 0] 0 2 of (diff, borrow) \<Rightarrow>
     bval diff 2 + bval [5, 0] 2 = bval [3, 0] 2 + unat borrow * 2 ^ 128"
  using tcSubtract_exact [where dst = "[3, 0]" and rhs = "[5, 0]" and c = 0 and parts = 2]
  by (cases "tcSubtract [3, 0] [5, 0] 0 2") simp

text \<open>
  The routines of \<open>APInt::tc*\<close> that move or set bits: the shifts, \<open>tcExtract\<close>,
  \<open>tcSetLeastSignificantBits\<close>, the bitwise operations, increment, decrement, complement and
  negation, and the scans for the lowest and highest set bit. The proofs compare bit \<open>k\<close> of both
  sides through \<open>bit_bval\<close>.
\<close>

section \<open>Shifts\<close>

text \<open>\<open>shl_part\<close> is the word the left-shift loop writes at index \<open>parts\<close>, \<open>shr_part\<close> the word the
  right-shift loop writes at index \<open>i\<close>.\<close>

definition shl_part :: "nat \<Rightarrow> nat \<Rightarrow> nat \<Rightarrow> integerPart list \<Rightarrow> integerPart" where
  "shl_part jump shift parts dst =
     (let part = dst ! (parts - jump) in
      if shift \<noteq> 0 then
        let part = push_bit shift part in
        if parts \<ge> jump + 1
        then part OR drop_bit (integerPartWidth - shift) (dst ! (parts - jump - 1))
        else part
      else part)"

fun tcShiftLeft_loop :: "nat \<Rightarrow> nat \<Rightarrow> nat \<Rightarrow> integerPart list \<Rightarrow> integerPart list \<times> nat" where
  "tcShiftLeft_loop jump shift 0 dst = (dst, 0)"
| "tcShiftLeft_loop jump shift (Suc parts) dst =
     (if Suc parts > jump
      then tcShiftLeft_loop jump shift parts (dst[parts := shl_part jump shift parts dst])
      else (dst, Suc parts))"

fun tcZero_down :: "nat \<Rightarrow> integerPart list \<Rightarrow> integerPart list" where
  "tcZero_down 0 dst = dst"
| "tcZero_down (Suc parts) dst = tcZero_down parts (dst[parts := 0])"

definition tcShiftLeft :: "integerPart list \<Rightarrow> nat \<Rightarrow> nat \<Rightarrow> integerPart list" where
  "tcShiftLeft dst parts count =
     (if count \<noteq> 0 then
        let jump = count div integerPartWidth; shift = count mod integerPartWidth;
            (dst, parts) = tcShiftLeft_loop jump shift parts dst
        in tcZero_down parts dst
      else dst)"

definition shr_part :: "nat \<Rightarrow> nat \<Rightarrow> nat \<Rightarrow> nat \<Rightarrow> integerPart list \<Rightarrow> integerPart" where
  "shr_part jump shift parts i dst =
     (if i + jump \<ge> parts then 0
      else
        let part = dst ! (i + jump) in
        if shift \<noteq> 0 then
          let part = drop_bit shift part in
          if i + jump + 1 < parts
          then part OR push_bit (integerPartWidth - shift) (dst ! (i + jump + 1))
          else part
        else part)"

definition tcShiftRight :: "integerPart list \<Rightarrow> nat \<Rightarrow> nat \<Rightarrow> integerPart list" where
  "tcShiftRight dst parts count =
     (if count \<noteq> 0 then
        let jump = count div integerPartWidth; shift = count mod integerPartWidth
        in for_upto 0 parts (\<lambda>i dst. dst[i := shr_part jump shift parts i dst]) dst
      else dst)"

section \<open>Extraction and masks\<close>

definition tcExtract ::
    "integerPart list \<Rightarrow> nat \<Rightarrow> integerPart list \<Rightarrow> nat \<Rightarrow> nat \<Rightarrow> integerPart list" where
  "tcExtract dst dstCount src srcBits srcLSB =
     (let dstParts = (srcBits + integerPartWidth - 1) div integerPartWidth;
          firstSrcPart = srcLSB div integerPartWidth;
          dst = tcAssign dst (drop firstSrcPart src) dstParts;
          shift = srcLSB mod integerPartWidth;
          dst = tcShiftRight dst dstParts shift;
          n = dstParts * integerPartWidth - shift;
          dst =
            (if n < srcBits then
               let mask = lowBitMask (srcBits - n) in
               dst[dstParts - 1 := dst ! (dstParts - 1) OR
                 push_bit (n mod integerPartWidth) (src ! (firstSrcPart + dstParts) AND mask)]
             else if n > srcBits then
               if srcBits mod integerPartWidth \<noteq> 0
               then dst[dstParts - 1 := dst ! (dstParts - 1) AND
                 lowBitMask (srcBits mod integerPartWidth)]
               else dst
             else dst)
      in for_upto dstParts dstCount (\<lambda>i dst. dst[i := 0]) dst)"

function tcSetLSB_loop :: "integerPart list \<Rightarrow> nat \<Rightarrow> nat \<Rightarrow> integerPart list \<times> nat \<times> nat" where
  "tcSetLSB_loop dst i bits =
     (if bits > integerPartWidth
      then tcSetLSB_loop (dst[i := NOT 0]) (i + 1) (bits - integerPartWidth)
      else (dst, i, bits))"
  by pat_completeness auto
termination
  by (relation "measure (\<lambda>(dst, i, bits). bits)") auto

definition tcSetLeastSignificantBits :: "integerPart list \<Rightarrow> nat \<Rightarrow> nat \<Rightarrow> integerPart list" where
  "tcSetLeastSignificantBits dst parts bits =
     (let (dst, i, bits) = tcSetLSB_loop dst 0 bits;
          (dst, i) = (if bits \<noteq> 0
            then (dst[i := drop_bit (integerPartWidth - bits) (NOT 0)], i + 1) else (dst, i))
      in for_upto i parts (\<lambda>i dst. dst[i := 0]) dst)"

declare tcSetLSB_loop.simps [simp del]

section \<open>Loops that rewrite one part per round\<close>

lemma for_upto_update:
  assumes "n \<le> length xs" and "i \<le> n"
  shows "length (for_upto i n (\<lambda>k d. d[k := f k (d ! k)]) xs) = length xs \<and>
    (\<forall>j<length xs. for_upto i n (\<lambda>k d. d[k := f k (d ! k)]) xs ! j =
      (if i \<le> j \<and> j < n then f j (xs ! j) else xs ! j))"
  by (rule for_upto_invariant [where P = "\<lambda>k d. length d = length xs \<and>
        (\<forall>j<length xs. d ! j = (if i \<le> j \<and> j < k then f j (xs ! j) else xs ! j))", OF assms(2)])
     (use assms(1) in \<open>auto simp: nth_list_update less_Suc_eq\<close>)

lemma length_tcAssign [simp]: "n \<le> length dst \<Longrightarrow> length (tcAssign dst src n) = length dst"
  and nth_tcAssign: "n \<le> length dst \<Longrightarrow> j < length dst \<Longrightarrow>
    tcAssign dst src n ! j = (if j < n then src ! j else dst ! j)"
  using for_upto_update [of n dst 0 "\<lambda>k _. src ! k"] by (auto simp: tcAssign_def)

lemma length_tcSet [simp]: "0 < n \<Longrightarrow> n \<le> length dst \<Longrightarrow> length (tcSet dst v n) = length dst"
  and nth_tcSet: "0 < n \<Longrightarrow> n \<le> length dst \<Longrightarrow> j < length dst \<Longrightarrow>
    tcSet dst v n ! j = (if j = 0 then v else if j < n then 0 else dst ! j)"
  using for_upto_update [of n "dst[0 := v]" 1 "\<lambda>_ _. 0"]
  by (auto simp: tcSet_def nth_list_update)

lemma bval_tcAssign: "n \<le> length dst \<Longrightarrow> bval (tcAssign dst src n) n = bval src n"
  by (rule bval_cong) (simp add: nth_tcAssign)

lemma bval_tcSet:
  assumes "0 < n" and "n \<le> length dst"
  shows "bval (tcSet dst v n) n = unat v"
proof -
  obtain m where m: "n = Suc m" using assms(1) by (cases n) auto
  have "bval (tcSet dst v n) n = (\<Sum>i<Suc m. if i = 0 then unat v else 0)"
    unfolding bval_def m by (rule sum.cong) (use assms m in \<open>auto simp: nth_tcSet\<close>)
  then show ?thesis by simp
qed

lemma tcIsZero_loop_iff: "tcIsZero_loop src n i \<longleftrightarrow> (\<forall>j<n. i \<le> j \<longrightarrow> src ! j = 0)"
  by (induction src n i rule: tcIsZero_loop.induct)
     (subst tcIsZero_loop.simps, auto simp: Suc_le_eq le_eq_less_or_eq [of _ j for j])

lemma tcIsZero_iff: "tcIsZero src n \<longleftrightarrow> bval src n = 0"
  by (auto simp: tcIsZero_def tcIsZero_loop_iff bval_eq_0_iff)

text \<open>The bitwise loops act on the values.\<close>

lemma bitwise_loops:
  assumes "n \<le> length dst"
  shows "bval (tcAnd dst rhs n) n = (bval dst n AND bval rhs n)"
    and "bval (tcOr dst rhs n) n = (bval dst n OR bval rhs n)"
    and "bval (tcXor dst rhs n) n = (bval dst n XOR bval rhs n)"
proof -
  have idx: "k div 64 < n" if "k < 64 * n" for k :: nat
    using that by (simp add: less_mult_imp_div_less mult.commute)
  have nth: "j < n \<Longrightarrow> tcAnd dst rhs n ! j = dst ! j AND rhs ! j"
    "j < n \<Longrightarrow> tcOr dst rhs n ! j = dst ! j OR rhs ! j"
    "j < n \<Longrightarrow> tcXor dst rhs n ! j = dst ! j XOR rhs ! j" for j
    using assms for_upto_update [of n dst 0 "\<lambda>k w. w AND rhs ! k"]
      for_upto_update [of n dst 0 "\<lambda>k w. w OR rhs ! k"]
      for_upto_update [of n dst 0 "\<lambda>k w. w XOR rhs ! k"]
    by (simp_all add: tcAnd_def tcOr_def tcXor_def)
  show "bval (tcAnd dst rhs n) n = (bval dst n AND bval rhs n)"
    "bval (tcOr dst rhs n) n = (bval dst n OR bval rhs n)"
    "bval (tcXor dst rhs n) n = (bval dst n XOR bval rhs n)"
    by (rule bit_eqI; auto simp: bit_bval bit_simps nth idx)+
qed

section \<open>The shifts multiply and divide\<close>

lemma div_mod_part: "(64 * j + b) div 64 = j" "(64 * j + b) mod 64 = b" if "b < 64" for j b :: nat
  using that by simp_all

lemma bit_bval_at: "b < 64 \<Longrightarrow> bit (bval xs n) (64 * j + b) \<longleftrightarrow> j < n \<and> bit (xs ! j) b"
  using bit_bval [of xs n "64 * j + b"] by (auto simp: div_mod_part)

text \<open>A value is determined by the bits of its parts.\<close>

lemma bval_bitsI:
  assumes "\<And>j b. j < n \<Longrightarrow> b < 64 \<Longrightarrow> bit (xs ! j) b \<longleftrightarrow> bit v (64 * j + b)"
  shows "bval xs n = take_bit (64 * n) v"
proof (rule bit_eqI)
  fix k :: nat
  show "bit (bval xs n) k = bit (take_bit (64 * n) v) k"
    using assms [of "k div 64" "k mod 64"]
    by (auto simp: bit_bval bit_take_bit_iff less_mult_imp_div_less mult.commute [of 64])
qed

lemma bit_part_less: "bit (w :: integerPart) b \<Longrightarrow> b < 64"
  by (auto dest: bit_imp_le_length)

lemma bit_shl_part:
  assumes "jump \<le> j" and "j < n" and "b < 64" and "shift < 64"
  shows "bit (shl_part jump shift j xs) b \<longleftrightarrow>
    64 * jump + shift \<le> 64 * j + b \<and> bit (bval xs n) (64 * j + b - (64 * jump + shift))"
proof (cases "shift \<le> b")
  case True
  define i b' where "i = j - jump" and "b' = b - shift"
  have idx: "64 * j + b - (64 * jump + shift) = 64 * i + b'"
    using assms True by (simp add: i_def b'_def diff_mult_distrib2)
  have "b' < 64" "i < n" using assms by (auto simp: i_def b'_def)
  then have "bit (bval xs n) (64 * j + b - (64 * jump + shift)) \<longleftrightarrow> bit (xs ! i) b'"
    unfolding idx by (simp add: bit_bval_at)
  then show ?thesis
    using assms True bit_part_less [of "xs ! (j - Suc jump)" "integerPartWidth + b - shift"]
    by (auto simp: shl_part_def Let_def bit_simps i_def b'_def)
next
  case False
  show ?thesis
  proof (cases "jump + 1 \<le> j")
    case inner: True
    define i b' where "i = j - jump - 1" and "b' = 64 + b - shift"
    have idx: "64 * j + b - (64 * jump + shift) = 64 * i + b'"
      using assms False inner by (simp add: i_def b'_def diff_mult_distrib2)
    have "b' < 64" "i < n" using assms False by (auto simp: i_def b'_def)
    then have "bit (bval xs n) (64 * j + b - (64 * jump + shift)) \<longleftrightarrow> bit (xs ! i) b'"
      unfolding idx by (simp add: bit_bval_at)
    then show ?thesis
      using assms False inner
      by (auto simp: shl_part_def Let_def bit_simps i_def b'_def add.commute)
  next
    case inner: False
    then have "j = jump" using assms by simp
    then show ?thesis using False by (auto simp: shl_part_def Let_def bit_simps)
  qed
qed

lemma shl_part_cong: "(\<And>i. i \<le> j \<Longrightarrow> xs ! i = ys ! i) \<Longrightarrow> shl_part jump shift j xs = shl_part jump shift j ys"
  by (simp add: shl_part_def Let_def)

lemma tcShiftLeft_loop_nth:
  "n \<le> length dst \<Longrightarrow> tcShiftLeft_loop jump shift n dst = (d, m) \<Longrightarrow>
    m = min n jump \<and> length d = length dst \<and>
    (\<forall>j<length dst. d ! j = (if jump \<le> j \<and> j < n then shl_part jump shift j dst else dst ! j))"
proof (induction n arbitrary: dst)
  case 0
  then show ?case by simp
next
  case (Suc n)
  show ?case
  proof (cases "Suc n > jump")
    case True
    let ?dst = "dst[n := shl_part jump shift n dst]"
    have "tcShiftLeft_loop jump shift n ?dst = (d, m)" using Suc.prems True by simp
    with Suc.IH [of ?dst] Suc.prems
    have IH: "m = min n jump \<and> length d = length dst \<and> (\<forall>j<length dst.
        d ! j = (if jump \<le> j \<and> j < n then shl_part jump shift j ?dst else ?dst ! j))" by simp
    have "shl_part jump shift j ?dst = shl_part jump shift j dst" if "j < n" for j
      by (rule shl_part_cong) (use that in simp)
    with IH True Suc.prems show ?thesis by (auto simp: nth_list_update less_Suc_eq min_def)
  next
    case False
    with Suc.prems show ?thesis by auto
  qed
qed

lemma tcZero_down_nth:
  "n \<le> length dst \<Longrightarrow> length (tcZero_down n dst) = length dst \<and>
    (\<forall>j<length dst. tcZero_down n dst ! j = (if j < n then 0 else dst ! j))"
  by (induction n arbitrary: dst) (auto simp: nth_list_update less_Suc_eq)

lemma tcShiftLeft_nth:
  assumes "n \<le> length dst" and "count \<noteq> 0"
  shows "length (tcShiftLeft dst n count) = length dst \<and>
    (\<forall>j<length dst. tcShiftLeft dst n count ! j =
      (if j < n then if j < count div 64 then 0 else shl_part (count div 64) (count mod 64) j dst
       else dst ! j))"
proof -
  obtain d m where dm: "tcShiftLeft_loop (count div 64) (count mod 64) n dst = (d, m)"
    by (cases "tcShiftLeft_loop (count div 64) (count mod 64) n dst")
  show ?thesis
    using tcShiftLeft_loop_nth [OF assms(1) dm] tcZero_down_nth [of m d] assms
    by (auto simp: tcShiftLeft_def dm)
qed

lemma bval_tcShiftLeft:
  assumes "n \<le> length dst"
  shows "bval (tcShiftLeft dst n count) n = take_bit (64 * n) (push_bit count (bval dst n))"
proof (cases "count = 0")
  case True
  then show ?thesis using bval_less [of dst n] by (simp add: tcShiftLeft_def take_bit_nat_eq_self)
next
  case False
  have c: "64 * (count div 64) + count mod 64 = count" by (rule mult_div_mod_eq)
  show ?thesis
  proof (rule bval_bitsI)
    fix j b :: nat
    assume j: "j < n" and b: "b < 64"
    show "bit (tcShiftLeft dst n count ! j) b = bit (push_bit count (bval dst n)) (64 * j + b)"
    proof (cases "j < count div 64")
      case True
      then have "64 * j + b < count" using b by linarith
      then show ?thesis using True j assms tcShiftLeft_nth [OF assms False]
        by (simp add: bit_push_bit_iff)
    next
      case ge: False
      then show ?thesis
        using tcShiftLeft_nth [OF assms False] assms j
          bit_shl_part [of "count div 64" j n b "count mod 64" dst] b
        by (simp add: bit_push_bit_iff c)
    qed
  qed
qed

lemma bit_shr_part:
  assumes "j < n" and "b < 64" and "shift < 64"
  shows "bit (shr_part jump shift n j xs) b \<longleftrightarrow> bit (bval xs n) (64 * j + b + (64 * jump + shift))"
proof (cases "b + shift < 64")
  case True
  have idx: "64 * j + b + (64 * jump + shift) = 64 * (j + jump) + (b + shift)" by simp
  have "bit (bval xs n) (64 * j + b + (64 * jump + shift)) \<longleftrightarrow>
      j + jump < n \<and> bit (xs ! (j + jump)) (b + shift)"
    unfolding idx by (rule bit_bval_at [OF True])
  then show ?thesis
    using assms True by (auto simp: shr_part_def Let_def bit_simps add.commute)
next
  case False
  define b' where "b' = b + shift - 64"
  have idx: "64 * j + b + (64 * jump + shift) = 64 * (j + jump + 1) + b'"
    using False by (simp add: b'_def)
  have "b' < 64" using assms by (simp add: b'_def)
  then have "bit (bval xs n) (64 * j + b + (64 * jump + shift)) \<longleftrightarrow>
      j + jump + 1 < n \<and> bit (xs ! (j + jump + 1)) b'"
    unfolding idx by (rule bit_bval_at)
  then show ?thesis
    using assms False bit_part_less [of "xs ! (j + jump)" "b + shift"]
    by (auto simp: shr_part_def Let_def bit_simps b'_def add.commute)
qed

lemma shr_part_cong: "(\<And>i. j \<le> i \<Longrightarrow> xs ! i = ys ! i) \<Longrightarrow> shr_part jump shift n j xs = shr_part jump shift n j ys"
  by (simp add: shr_part_def Let_def)

lemma tcShiftRight_nth:
  assumes "n \<le> length dst" and "count \<noteq> 0"
  shows "length (tcShiftRight dst n count) = length dst \<and>
    (\<forall>j. tcShiftRight dst n count ! j =
      (if j < n then shr_part (count div 64) (count mod 64) n j dst else dst ! j))"
proof -
  let ?f = "\<lambda>j xs. shr_part (count div 64) (count mod 64) n j xs"
  have "length (for_upto 0 n (\<lambda>i d. d[i := ?f i d]) dst) = length dst \<and>
    (\<forall>j. for_upto 0 n (\<lambda>i d. d[i := ?f i d]) dst ! j = (if j < n then ?f j dst else dst ! j))"
  proof (rule for_upto_invariant [where P = "\<lambda>k t. length t = length dst \<and>
      (\<forall>j. t ! j = (if j < k then ?f j dst else dst ! j))"])
    fix k t
    assume k: "k < n" and inv: "length t = length dst \<and> (\<forall>j. t ! j = (if j < k then ?f j dst else dst ! j))"
    have "?f k t = ?f k dst" by (rule shr_part_cong) (use inv in simp)
    with inv k assms(1) show "length (t[k := ?f k t]) = length dst \<and>
        (\<forall>j. t[k := ?f k t] ! j = (if j < Suc k then ?f j dst else dst ! j))"
      by (auto simp: nth_list_update less_Suc_eq)
  qed simp_all
  with assms(2) show ?thesis by (simp add: tcShiftRight_def)
qed

lemma bval_tcShiftRight:
  assumes "n \<le> length dst"
  shows "bval (tcShiftRight dst n count) n = drop_bit count (bval dst n)"
proof (cases "count = 0")
  case True
  then show ?thesis by (simp add: tcShiftRight_def)
next
  case False
  have c: "64 * (count div 64) + count mod 64 = count" by (rule mult_div_mod_eq)
  have "bval (tcShiftRight dst n count) n = take_bit (64 * n) (drop_bit count (bval dst n))"
  proof (rule bval_bitsI)
    fix j b :: nat
    assume "j < n" and "b < 64"
    then show "bit (tcShiftRight dst n count ! j) b = bit (drop_bit count (bval dst n)) (64 * j + b)"
      using tcShiftRight_nth [OF assms False]
        bit_shr_part [of j n b "count mod 64" "count div 64" dst]
      by (simp add: bit_drop_bit_eq c add.commute)
  qed
  moreover have "drop_bit count (bval dst n) < 2 ^ (64 * n)"
    unfolding drop_bit_eq_div by (rule le_less_trans [OF div_le_dividend bval_less])
  ultimately show ?thesis by (simp add: take_bit_nat_eq_self)
qed

lemma length_tcShiftRight [simp]: "n \<le> length dst \<Longrightarrow> length (tcShiftRight dst n count) = length dst"
  using tcShiftRight_nth [of n dst count] by (cases "count = 0") (simp_all add: tcShiftRight_def)

lemma length_tcShiftLeft [simp]: "n \<le> length dst \<Longrightarrow> length (tcShiftLeft dst n count) = length dst"
  using tcShiftLeft_nth [of n dst count] by (cases "count = 0") (simp_all add: tcShiftLeft_def)

section \<open>Extraction of a bit field\<close>

lemma lowBitMask_eq: "n \<le> 64 \<Longrightarrow> lowBitMask n = mask n"
  by (rule bit_eqI) (auto simp: lowBitMask_def bit_simps)

lemma bit_bval_drop:
  assumes "f + n \<le> length xs"
  shows "bit (bval (drop f xs) n) k \<longleftrightarrow> k < 64 * n \<and> bit (bval xs (length xs)) (64 * f + k)"
proof -
  have "(64 * f + k) div 64 = f + k div 64" "(64 * f + k) mod 64 = k mod 64" by simp_all
  moreover have "k < 64 * n \<Longrightarrow> 64 * f + k < 64 * length xs" using assms by linarith
  ultimately show ?thesis using assms by (auto simp: bit_bval)
qed

text \<open>The words after the in-place right shift hold the first \<open>n = 64 * P - shift\<close> bits of the field.\<close>

lemma tcExtract_shifted:
  assumes "P \<le> length dst" and "f + P \<le> length src" and "shift < 64" and "j < P" and "b < 64"
  shows "bit (tcShiftRight (tcAssign dst (drop f src) P) P shift ! j) b \<longleftrightarrow>
    64 * j + b + shift < 64 * P \<and> bit (bval src (length src)) (64 * f + shift + (64 * j + b))"
proof -
  let ?R = "tcShiftRight (tcAssign dst (drop f src) P) P shift"
  have "bit (?R ! j) b \<longleftrightarrow> bit (bval ?R P) (64 * j + b)"
    using assms by (simp add: bit_bval_at)
  also have "\<dots> \<longleftrightarrow> bit (bval (drop f src) P) (shift + (64 * j + b))"
    using assms by (simp add: bval_tcShiftRight bval_tcAssign bit_drop_bit_eq)
  also have "\<dots> \<longleftrightarrow> shift + (64 * j + b) < 64 * P \<and>
      bit (bval src (length src)) (64 * f + (shift + (64 * j + b)))"
    by (rule bit_bval_drop [OF assms(2)])
  finally show ?thesis by (simp add: ac_simps)
qed

lemma tcExtract_merge:
  assumes "Suc p \<le> length dst" and src: "f + Suc p < length src" and "shift < 64"
    and "srcBits \<le> 64 * p + 64" and "64 * p < srcBits"
    and n: "n = 64 * p + (64 - shift)" "n < srcBits" and "j < Suc p" and b: "b < 64"
    and R: "R = tcShiftRight (tcAssign dst (drop f src) (Suc p)) (Suc p) shift"
  shows "bit (R[p := R ! p OR push_bit (n mod 64) (src ! (f + Suc p) AND lowBitMask (srcBits - n))] ! j) b
    \<longleftrightarrow> 64 * j + b < srcBits \<and> bit (bval src (length src)) (64 * f + shift + (64 * j + b))"
proof -
  have len: "length R = length dst" using assms(1) by (simp add: R)
  have low: "bit (R ! j) b \<longleftrightarrow> 64 * j + b < n \<and>
      bit (bval src (length src)) (64 * f + shift + (64 * j + b))"
    using tcExtract_shifted [of "Suc p" dst f src shift j b] assms by auto
  show ?thesis
  proof (cases "j = p")
    case False
    with assms have "64 * j + b < n" by auto
    with low False assms(7) show ?thesis by auto
  next
    case True
    define s where "s = 64 - shift"
    have "0 < shift" using assms by (cases "shift = 0") auto
    have "n = 64 * p + s" "s < 64" using n \<open>0 < shift\<close> by (simp_all add: s_def)
    then have m: "n mod 64 = s" "s \<le> 64" by simp_all
    have mask: "lowBitMask (srcBits - n) = mask (srcBits - n)"
      using assms by (intro lowBitMask_eq) auto
    have hi: "bit (src ! (f + Suc p)) (b - s) \<longleftrightarrow>
        bit (bval src (length src)) (64 * f + shift + (64 * j + b))" if "s \<le> b"
    proof -
      have idx: "64 * f + shift + (64 * j + b) = 64 * (f + Suc p) + (b - s)"
        using that assms(3) True by (simp add: s_def)
      show ?thesis unfolding idx using src b by (subst bit_bval_at) simp_all
    qed
    have "bit (R[p := R ! p OR push_bit (n mod 64) (src ! (f + Suc p) AND lowBitMask (srcBits - n))] ! j) b
        \<longleftrightarrow> bit (R ! j) b \<or> s \<le> b \<and> bit (src ! (f + Suc p)) (b - s) \<and> b - s < srcBits - n"
      using assms(1) b by (auto simp: len True m mask bit_or_iff bit_push_bit_iff bit_and_iff bit_mask_iff)
    also have "\<dots> \<longleftrightarrow> 64 * j + b < srcBits \<and> bit (bval src (length src)) (64 * f + shift + (64 * j + b))"
      using low hi n True by (cases "s \<le> b") (auto simp: s_def)
    finally show ?thesis .
  qed
qed

lemma tcExtract_mask:
  assumes "Suc p \<le> length dst" and src: "f + Suc p \<le> length src" and "shift < 64"
    and "srcBits \<le> 64 * p + 64" and "64 * p < srcBits"
    and n: "n = 64 * p + (64 - shift)" "srcBits \<le> n" and "j < Suc p" and "b < 64"
    and R: "R = tcShiftRight (tcAssign dst (drop f src) (Suc p)) (Suc p) shift"
  shows "bit ((if n > srcBits then
      if srcBits mod 64 \<noteq> 0 then R[p := R ! p AND lowBitMask (srcBits mod 64)] else R
      else R) ! j) b
    \<longleftrightarrow> 64 * j + b < srcBits \<and> bit (bval src (length src)) (64 * f + shift + (64 * j + b))"
proof -
  have len: "length R = length dst" using assms(1) by (simp add: R)
  have low: "bit (R ! j) b \<longleftrightarrow> 64 * j + b < n \<and>
      bit (bval src (length src)) (64 * f + shift + (64 * j + b))"
    using tcExtract_shifted [of "Suc p" dst f src shift j b] assms by auto
  show ?thesis
  proof (cases "n > srcBits")
    case True
    define r where "r = srcBits - 64 * p"
    have r: "srcBits = 64 * p + r" "r < 64" "0 < r" using assms True by (auto simp: r_def)
    then have "srcBits mod 64 = r" by simp
    moreover have "lowBitMask r = mask r" using r by (intro lowBitMask_eq) simp
    ultimately show ?thesis
      using low True r n assms(1,8,9) len
      by (cases "j = p") (auto simp: bit_and_iff bit_mask_iff)
  next
    case False
    with low n show ?thesis by simp
  qed
qed

lemma bval_zero_above:
  assumes "m \<le> n" and "\<And>j. m \<le> j \<Longrightarrow> j < n \<Longrightarrow> xs ! j = 0"
  shows "bval xs n = bval xs m"
  using assms(1)
proof (rule dec_induct)
  fix k
  assume "m \<le> k" "k < n" "bval xs k = bval xs m"
  then show "bval xs (Suc k) = bval xs m" by (simp add: bval_Suc assms(2))
qed simp

lemma bval_zero_tail:
  assumes "i \<le> n" and "n \<le> length xs"
  shows "bval (for_upto i n (\<lambda>k d. d[k := 0]) xs) n = bval xs i"
proof -
  let ?R = "for_upto i n (\<lambda>k d. d[k := 0]) xs"
  have R: "\<forall>j<length xs. ?R ! j = (if i \<le> j \<and> j < n then 0 else xs ! j)"
    using for_upto_update [of n xs i "\<lambda>_ _. 0"] assms by simp
  have "bval ?R n = bval ?R i"
    by (rule bval_zero_above) (use assms R in auto)
  also have "\<dots> = bval xs i" by (rule bval_cong) (use assms R in auto)
  finally show ?thesis .
qed

lemma tcExtract_bits:
  assumes parts: "(srcBits + 63) div 64 \<le> dstCount" "dstCount \<le> length dst"
    and src: "srcLSB + srcBits \<le> 64 * length src" and pos: "0 < srcBits"
  shows "bval (tcExtract dst dstCount src srcBits srcLSB) dstCount =
    take_bit srcBits (drop_bit srcLSB (bval src (length src)))"
proof -
  define P f shift where "P = (srcBits + 64 - 1) div 64" and "f = srcLSB div 64" and "shift = srcLSB mod 64"
  define R where "R = tcShiftRight (tcAssign dst (drop f src) P) P shift"
  define n where "n = P * 64 - shift"
  define D where "D = (if n < srcBits
      then R[P - 1 := R ! (P - 1) OR push_bit (n mod 64) (src ! (f + P) AND lowBitMask (srcBits - n))]
      else if n > srcBits
      then if srcBits mod 64 \<noteq> 0 then R[P - 1 := R ! (P - 1) AND lowBitMask (srcBits mod 64)] else R
      else R)"
  have res: "tcExtract dst dstCount src srcBits srcLSB = for_upto P dstCount (\<lambda>i d. d[i := 0]) D"
    unfolding tcExtract_def D_def n_def R_def P_def f_def shift_def Let_def by (rule refl)
  have lsb: "srcLSB = 64 * f + shift" "shift < 64" by (simp_all add: f_def shift_def)
  obtain p where p: "P = Suc p" using pos by (cases P) (auto simp: P_def div_eq_0_iff)
  have szP: "srcBits \<le> 64 * p + 64" "64 * p < srcBits" using p unfolding P_def by auto
  have lenP: "Suc p \<le> length dst" using parts by (simp add: P_def flip: p)
  then have lenR: "length R = length dst" by (simp add: R_def p)
  then have lenD: "length D = length dst" by (simp add: D_def)
  have n: "n = 64 * p + (64 - shift)" using lsb by (simp add: n_def p)
  have bits: "bit (D ! j) b \<longleftrightarrow>
      64 * j + b < srcBits \<and> bit (bval src (length src)) (srcLSB + (64 * j + b))"
    if "j < Suc p" "b < 64" for j b
  proof (cases "n < srcBits")
    case True
    have "f + Suc p < length src" using True n src lsb szP by linarith
    then show ?thesis
      using tcExtract_merge [OF lenP _ lsb(2) szP n True that R_def [unfolded p]] True
      by (simp add: D_def p lsb(1))
  next
    case False
    have "f + Suc p \<le> length src" using src lsb szP by linarith
    moreover have "D = (if n > srcBits
      then if srcBits mod 64 \<noteq> 0 then R[p := R ! p AND lowBitMask (srcBits mod 64)] else R
      else R)" by (simp only: D_def p False if_False diff_Suc_1)
    moreover have "srcBits \<le> n" using False by simp
    ultimately show ?thesis
      using tcExtract_mask [OF lenP _ lsb(2) szP n _ that R_def [unfolded p]]
      by (simp only: lsb(1))
  qed
  have "bval (tcExtract dst dstCount src srcBits srcLSB) dstCount = bval D P"
    unfolding res by (rule bval_zero_tail) (use parts lenD in \<open>simp_all add: P_def\<close>)
  also have "\<dots> = take_bit (64 * P) (take_bit srcBits (drop_bit srcLSB (bval src (length src))))"
    by (rule bval_bitsI) (use bits in \<open>simp add: p bit_take_bit_iff bit_drop_bit_eq\<close>)
  also have "\<dots> = take_bit srcBits (drop_bit srcLSB (bval src (length src)))"
    using szP by (simp add: p min_absorb2)
  finally show ?thesis .
qed

section \<open>Masks\<close>

lemma unat_mask_part: "r \<le> 64 \<Longrightarrow> unat (mask r :: integerPart) = mask r"
  by (rule bit_eqI) (auto simp: bit_simps)

lemma tcSetLSB_loop_spec:
  "bits \<le> 64 * (length dst - i) \<Longrightarrow> i \<le> length dst \<Longrightarrow> (\<forall>j<i. dst ! j = - 1) \<Longrightarrow>
    tcSetLSB_loop dst i bits = (d, i', bits') \<Longrightarrow>
    length d = length dst \<and> (\<forall>j<i'. d ! j = - 1) \<and> bits' \<le> 64 \<and> 64 * i' + bits' = 64 * i + bits"
proof (induction dst i bits rule: tcSetLSB_loop.induct)
  case (1 dst i bits)
  show ?case
  proof (cases "bits > 64")
    case True
    then have "tcSetLSB_loop (dst[i := - 1]) (i + 1) (bits - 64) = (d, i', bits')"
      using "1.prems"(4) by (simp add: tcSetLSB_loop.simps [of dst i bits])
    moreover have "i < length dst" using True "1.prems" by auto
    ultimately show ?thesis
      using "1.IH" True "1.prems" by (auto simp: nth_list_update less_Suc_eq)
  next
    case False
    with "1.prems" show ?thesis by (simp add: tcSetLSB_loop.simps [of dst i bits])
  qed
qed

lemma bval_ones: "(\<forall>j<i. xs ! j = - 1) \<Longrightarrow> bval xs i = mask (64 * i)"
proof (induction i)
  case (Suc i)
  have "unat (- 1 :: integerPart) = 2 ^ 64 - 1"
    by (simp add: unsigned_minus_1_eq_mask mask_eq_exp_minus_1)
  moreover have "1 \<le> (2 ^ (64 * i) :: nat)" "1 \<le> (2 ^ 64 :: nat)" by simp_all
  ultimately show ?case
    using Suc by (simp add: bval_Suc mask_eq_exp_minus_1 power_add diff_mult_distrib)
qed simp

lemma bval_tcSetLeastSignificantBits:
  assumes "bits \<le> 64 * parts" and "parts \<le> length dst"
  shows "bval (tcSetLeastSignificantBits dst parts bits) parts = mask bits"
proof -
  obtain d i r where loop: "tcSetLSB_loop dst 0 bits = (d, i, r)"
    by (cases "tcSetLSB_loop dst 0 bits")
  have d: "length d = length dst" "\<forall>j<i. d ! j = - 1" "r \<le> 64" "64 * i + r = bits"
    using tcSetLSB_loop_spec [OF _ _ _ loop] assms by auto
  define e where "e = (if r \<noteq> 0 then d[i := lowBitMask r] else d)"
  define i' where "i' = (if r \<noteq> 0 then i + 1 else i)"
  have i': "i' \<le> parts" using assms d by (auto simp: i'_def)
  have res: "tcSetLeastSignificantBits dst parts bits = for_upto i' parts (\<lambda>i d. d[i := 0]) e"
    by (simp add: tcSetLeastSignificantBits_def loop e_def i'_def lowBitMask_def)
  have "bval (tcSetLeastSignificantBits dst parts bits) parts = bval e i'"
    unfolding res by (rule bval_zero_tail [OF i']) (use assms d in \<open>simp add: e_def\<close>)
  also have "\<dots> = mask bits"
  proof (cases "r = 0")
    case True
    with d show ?thesis by (auto simp: e_def i'_def bval_ones)
  next
    case False
    have "unat (lowBitMask r) = 2 ^ r - 1"
      using d unat_mask_part [of r] by (simp only: lowBitMask_eq) (simp add: mask_eq_exp_minus_1)
    then have "bval e i' = (2 ^ (64 * i) - 1) + (2 ^ r - 1) * 2 ^ (64 * i)"
      using False d i' assms
      by (simp add: e_def i'_def bval_Suc bval_ones mask_eq_exp_minus_1)
    also have "\<dots> = 2 ^ (64 * i + r) - 1"
      using one_le_power [of "2::nat" r] by (simp add: diff_mult_distrib power_add mult.commute)
    finally show ?thesis using d by (simp add: mask_eq_exp_minus_1)
  qed
  finally show ?thesis .
qed

section \<open>Increment, decrement, complement, negation\<close>

lemma bval_update:
  "i < n \<Longrightarrow> n \<le> length xs \<Longrightarrow>
    bval (xs[i := v]) n + unat (xs ! i) * 2 ^ (64 * i) = bval xs n + unat v * 2 ^ (64 * i)"
proof (induction n)
  case (Suc n)
  then show ?case by (cases "i = n") (auto simp: bval_Suc)
qed simp

lemma tcIncrement_loop_spec:
  "n \<le> length dst \<Longrightarrow> i \<le> n \<Longrightarrow> tcIncrement_loop dst n i = (d, j) \<Longrightarrow>
    length d = length dst \<and> j \<le> n \<and>
    bval d n + of_bool (j = n) * 2 ^ (64 * n) = bval dst n + 2 ^ (64 * i)"
proof (induction dst n i rule: tcIncrement_loop.induct)
  case (1 dst n i)
  show ?case
  proof (cases "i < n")
    case False
    with "1.prems" show ?thesis by (auto simp: tcIncrement_loop.simps [of dst n n])
  next
    case True
    let ?w = "dst ! i + 1"
    have upd: "bval (dst[i := ?w]) n + unat (dst ! i) * 2 ^ (64 * i) = bval dst n + unat ?w * 2 ^ (64 * i)"
      using True "1.prems"(1) by (rule bval_update)
    show ?thesis
    proof (cases "?w = 0")
      case False
      then have "unat ?w = unat (dst ! i) + 1" by (simp add: unatSuc add.commute)
      with upd False True "1.prems" show ?thesis
        by (simp add: tcIncrement_loop.simps [of dst n i] Let_def algebra_simps) (auto)
    next
      case w: True
      then have "dst ! i = - 1" by (simp add: eq_neg_iff_add_eq_0)
      then have top: "unat (dst ! i) + 1 = 2 ^ 64"
        by (simp add: unsigned_minus_1_eq_mask mask_eq_exp_minus_1)
      have "bval (dst[i := ?w]) n + 2 ^ (64 * Suc i) = bval dst n + 2 ^ (64 * i)"
      proof -
        have "(unat (dst ! i) + 1) * 2 ^ (64 * i) = 2 ^ (64 * Suc i)"
          unfolding top exp_part_Suc by (rule refl)
        with upd w show ?thesis by (simp add: algebra_simps)
      qed
      moreover have "tcIncrement_loop (dst[i := ?w]) n (Suc i) = (d, j)"
        using True w "1.prems" by (simp add: tcIncrement_loop.simps [of dst n i] Let_def)
      ultimately show ?thesis
        using "1.IH" [OF True refl] w True "1.prems" by simp
    qed
  qed
qed

lemma bval_tcIncrement:
  assumes "n \<le> length dst"
  shows "bval (fst (tcIncrement dst n)) n + unat (snd (tcIncrement dst n)) * 2 ^ (64 * n) = bval dst n + 1"
    and "length (fst (tcIncrement dst n)) = length dst"
proof -
  obtain d j where loop: "tcIncrement_loop dst n 0 = (d, j)" by (cases "tcIncrement_loop dst n 0")
  have "length d = length dst \<and> j \<le> n \<and> bval d n + of_bool (j = n) * 2 ^ (64 * n) = bval dst n + 1"
    using tcIncrement_loop_spec [OF assms _ loop] by simp
  then show "bval (fst (tcIncrement dst n)) n + unat (snd (tcIncrement dst n)) * 2 ^ (64 * n) = bval dst n + 1"
    and "length (fst (tcIncrement dst n)) = length dst"
    by (auto simp: tcIncrement_def loop)
qed

lemma tcDecrement_loop_spec:
  "n \<le> length dst \<Longrightarrow> i \<le> n \<Longrightarrow> tcDecrement_loop dst n i = (d, b) \<Longrightarrow>
    length d = length dst \<and> unat b \<le> 1 \<and>
    bval d n + 2 ^ (64 * i) = bval dst n + unat b * 2 ^ (64 * n)"
proof (induction dst n i rule: tcDecrement_loop.induct)
  case (1 dst n i)
  show ?case
  proof (cases "i < n")
    case False
    with "1.prems" show ?thesis by (auto simp: tcDecrement_loop.simps [of dst n n])
  next
    case True
    let ?w = "dst ! i - 1"
    have upd: "bval (dst[i := ?w]) n + unat (dst ! i) * 2 ^ (64 * i) = bval dst n + unat ?w * 2 ^ (64 * i)"
      using True "1.prems"(1) by (rule bval_update)
    show ?thesis
    proof (cases "dst ! i = 0")
      case False
      then have "unat (dst ! i) = unat ?w + 1"
        using unat_gt_0 [of "dst ! i"] by (simp add: unat_minus_one)
      with upd False True "1.prems" show ?thesis
        by (simp add: tcDecrement_loop.simps [of dst n i] Let_def algebra_simps) auto
    next
      case w: True
      have top: "unat ?w + 1 = 2 ^ 64"
        using w by (simp add: unsigned_minus_1_eq_mask mask_eq_exp_minus_1)
      have "bval (dst[i := ?w]) n + 2 ^ (64 * i) = bval dst n + 2 ^ (64 * Suc i)"
      proof -
        have "(unat ?w + 1) * 2 ^ (64 * i) = 2 ^ (64 * Suc i)"
          unfolding top exp_part_Suc by (rule refl)
        with upd w show ?thesis by (simp add: algebra_simps)
      qed
      moreover have "tcDecrement_loop (dst[i := ?w]) n (Suc i) = (d, b)"
        using True w "1.prems" by (simp add: tcDecrement_loop.simps [of dst n i] Let_def)
      ultimately show ?thesis
        using "1.IH" [OF True refl refl] w True "1.prems" by simp
    qed
  qed
qed

lemma bval_tcDecrement:
  assumes "n \<le> length dst" and "tcDecrement dst n = (d, b)"
  shows "bval d n + 1 = bval dst n + unat b * 2 ^ (64 * n)" and "unat b \<le> 1"
  using tcDecrement_loop_spec [of n dst 0 d b] assms by (simp_all add: tcDecrement_def)

lemma length_tcComplement [simp]: "n \<le> length dst \<Longrightarrow> length (tcComplement dst n) = length dst"
  and nth_tcComplement: "n \<le> length dst \<Longrightarrow> j < n \<Longrightarrow> tcComplement dst n ! j = NOT (dst ! j)"
  using for_upto_update [of n dst 0 "\<lambda>_. NOT"] by (auto simp: tcComplement_def)

lemma bval_tcComplement:
  assumes "n \<le> length dst"
  shows "bval (tcComplement dst n) n + bval dst n + 1 = 2 ^ (64 * n)"
proof -
  have "bval (tcComplement dst n) k + bval dst k + 1 = 2 ^ (64 * k)" if "k \<le> n" for k
    using that
  proof (induction k)
    case (Suc k)
    have "unat (NOT (dst ! k)) + unat (dst ! k) + 1 = 2 ^ 64"
    proof -
      have "NOT (dst ! k) = - 1 - dst ! k" by (simp add: not_eq_complement)
      then show ?thesis
        using unat_sub_borrow [of "- 1 :: integerPart" "dst ! k"]
        by (simp add: unsigned_minus_1_eq_mask mask_eq_exp_minus_1 split: if_splits)
    qed
    then have "(unat (NOT (dst ! k)) + unat (dst ! k) + 1) * 2 ^ (64 * k) = 2 ^ (64 * Suc k)"
      unfolding exp_part_Suc by simp
    with Suc assms show ?case by (simp add: bval_Suc nth_tcComplement algebra_simps)
  qed simp
  then show ?thesis by simp
qed

lemma bval_tcNegate:
  assumes "n \<le> length dst"
  shows "bval (tcNegate dst n) n = (2 ^ (64 * n) - bval dst n) mod 2 ^ (64 * n)"
proof -
  have "length (tcComplement dst n) = length dst" using assms by simp
  with assms have "bval (tcNegate dst n) n +
      unat (snd (tcIncrement (tcComplement dst n) n)) * 2 ^ (64 * n) = bval (tcComplement dst n) n + 1"
    using bval_tcIncrement(1) [of n "tcComplement dst n"] by (simp add: tcNegate_def)
  also have "bval (tcComplement dst n) n + 1 = 2 ^ (64 * n) - bval dst n"
    using bval_tcComplement [OF assms] by simp
  finally have "(bval (tcNegate dst n) n +
      unat (snd (tcIncrement (tcComplement dst n) n)) * 2 ^ (64 * n)) mod 2 ^ (64 * n) =
      (2 ^ (64 * n) - bval dst n) mod 2 ^ (64 * n)" by (rule arg_cong)
  then have "bval (tcNegate dst n) n mod 2 ^ (64 * n) = (2 ^ (64 * n) - bval dst n) mod 2 ^ (64 * n)"
    by (simp only: mod_mult_self1)
  then show ?thesis by (simp only: mod_less [OF bval_less])
qed

section \<open>Lowest and highest set bit\<close>

lemma unat_partMSB: "w \<noteq> 0 \<Longrightarrow> unat (partMSB w) = 63 - countLeadingZeros w"
  by (simp add: partMSB_def findLastSet_eq unsigned_ucast_eq unsigned_of_nat take_bit_nat_eq_self)

lemma tcMSB_spec:
  "64 * n < 2 ^ 32 \<Longrightarrow> bval xs n \<noteq> 0 \<Longrightarrow>
    2 ^ unat (tcMSB xs n) \<le> bval xs n \<and> bval xs n < 2 ^ Suc (unat (tcMSB xs n)) \<and>
    unat (tcMSB xs n) < 64 * n"
proof (induction n)
  case 0
  then show ?case by simp
next
  case (Suc n)
  show ?case
  proof (cases "xs ! n = 0")
    case True
    with Suc show ?thesis by (simp add: bval_Suc)
  next
    case False
    let ?m = "63 - countLeadingZeros (xs ! n)"
    have m: "?m < 64" by simp
    have "unat (of_nat (n * 64) :: u32) = n * 64"
      using Suc.prems(1) by (simp add: unsigned_of_nat take_bit_nat_eq_self del: of_nat_mult)
    moreover have "?m + n * 64 < 2 ^ 32"
      by (rule le_less_trans [OF _ Suc.prems(1)]) (use m in simp)
    ultimately have r: "unat (tcMSB xs (Suc n)) = ?m + 64 * n"
      using False by (simp add: unat_partMSB unat_plus_if')
    have "64 - countLeadingZeros (xs ! n) = Suc ?m"
      using countLeadingZeros_less [OF False] by simp
    with countLeadingZeros_bounds [OF False]
    have b: "2 ^ ?m \<le> unat (xs ! n)" "unat (xs ! n) + 1 \<le> 2 ^ Suc ?m"
      by (simp_all only: Suc_eq_plus1 [symmetric] Suc_le_eq)
    have "2 ^ (?m + 64 * n) \<le> unat (xs ! n) * 2 ^ (64 * n)"
      unfolding power_add by (rule mult_le_mono1 [OF b(1)])
    moreover have "(unat (xs ! n) + 1) * 2 ^ (64 * n) \<le> 2 ^ Suc (?m + 64 * n)"
      using mult_le_mono1 [OF b(2), of "2 ^ (64 * n)"] by (simp add: power_add)
    ultimately show ?thesis
      unfolding r bval_Suc using bval_less [of xs n] m by (auto simp: add_mult_distrib)
  qed
qed

lemma tcMSB_zero: "bval xs n = 0 \<Longrightarrow> tcMSB xs n = - 1"
  by (induction n) (simp_all add: bval_Suc unat_eq_0)

section \<open>The properties of shifts and extraction\<close>

text \<open>\<open>tcShiftLeft\<close> multiplies by \<open>2 ^ count\<close> and keeps the low \<open>64 * n\<close> bits, and
  \<open>tcShiftRight\<close> divides by \<open>2 ^ count\<close>, for any count, the ones that are a whole number of parts or
  exceed the width included.\<close>

theorem tcShift_values:
  assumes "n \<le> length dst"
  shows "bval (tcShiftLeft dst n count) n = bval dst n * 2 ^ count mod 2 ^ (64 * n) \<and>
    bval (tcShiftRight dst n count) n = bval dst n div 2 ^ count"
  using assms by (simp_all add: bval_tcShiftLeft bval_tcShiftRight push_bit_eq_mult drop_bit_eq_div take_bit_eq_mod)

theorem tcShift_values_witness:
  "bval (tcShiftLeft [5, 6, 7] 2 70) 2 = bval [5, 6, 7] 2 * 2 ^ 70 mod 2 ^ 128"
  using tcShift_values [where n = 2 and dst = "[5, 6, 7]" and count = 70] by simp

text \<open>\<open>tcExtract\<close> copies the bit field \<open>srcLSB .. srcLSB + srcBits - 1\<close> of the source to the low
  bits of the destination and clears the rest of it, whatever the alignment of the field and whether
  or not its last part straddles one more source part.\<close>

theorem tcExtract_field:
  assumes "(srcBits + 63) div 64 \<le> dstCount" and "dstCount \<le> length dst"
    and "srcLSB + srcBits \<le> 64 * length src" and "0 < srcBits"
  shows "bval (tcExtract dst dstCount src srcBits srcLSB) dstCount =
    bval src (length src) div 2 ^ srcLSB mod 2 ^ srcBits"
  using tcExtract_bits [OF assms] by (simp add: drop_bit_eq_div take_bit_eq_mod)

theorem tcExtract_field_witness:
  "bval (tcExtract [9, 9] 2 [1, 2, 3] 60 70) 2 = bval [1, 2, 3] 3 div 2 ^ 70 mod 2 ^ 60"
  using tcExtract_field [where srcBits = 60 and dstCount = 2 and dst = "[9, 9]" and srcLSB = 70 and src = "[1, 2, 3]"]
  by (simp add: numeral_3_eq_3)

end
