(* ===== verification/BigNumMul.thy ===== *)
theory BigNumMul
  imports BigNum
begin

text \<open>
  \<open>APInt::tcMultiplyPart\<close>, \<open>tcMultiply\<close> and \<open>tcFullMultiply\<close>: schoolbook multiplication on
  64-bit parts, with each 64 by 64 bit product assembled from four 32 by 32 bit ones. The lemmas
  give the value written, exactly or modulo the width of the destination, and the overflow flag.
\<close>

section \<open>The routines\<close>

text \<open>The body of the loop in \<open>tcMultiplyPart\<close> up to the addition of the carry:
  \<open>[low, high] = multiplier * srcPart + carry\<close>.\<close>

definition mul_part :: "integerPart \<Rightarrow> integerPart \<Rightarrow> integerPart \<Rightarrow> integerPart \<times> integerPart" where
  "mul_part multiplier srcPart carry =
     (if multiplier = 0 \<or> srcPart = 0 then (carry, 0)
      else
        let low = lowHalf srcPart * lowHalf multiplier;
            high = highHalf srcPart * highHalf multiplier;
            mid = lowHalf srcPart * highHalf multiplier;
            high = high + highHalf mid;
            mid = push_bit (integerPartWidth div 2) mid;
            high = (if low + mid < low then high + 1 else high);
            low = low + mid;
            mid = highHalf srcPart * lowHalf multiplier;
            high = high + highHalf mid;
            mid = push_bit (integerPartWidth div 2) mid;
            high = (if low + mid < low then high + 1 else high);
            low = low + mid;
            high = (if low + carry < low then high + 1 else high);
            low = low + carry
        in (low, high))"

definition tcMultiplyPart ::
    "integerPart list \<Rightarrow> integerPart list \<Rightarrow> integerPart \<Rightarrow> integerPart \<Rightarrow> nat \<Rightarrow> nat \<Rightarrow> bool
      \<Rightarrow> integerPart list \<times> nat" where
  "tcMultiplyPart dst src multiplier carry srcParts dstParts add =
     (let n = (if dstParts < srcParts then dstParts else srcParts);
          (dst, carry) =
            for_upto 0 n (\<lambda>i (dst, carry).
              let (low, high) = mul_part multiplier (src ! i) carry in
              if add then
                let high = (if low + dst ! i < low then high + 1 else high)
                in (dst[i := dst ! i + low], high)
              else (dst[i := low], high)) (dst, carry)
      in if n < dstParts then (dst[n := carry], 0)
         else if carry \<noteq> 0 then (dst, 1)
         else if multiplier \<noteq> 0 \<and> list_ex (\<lambda>i. src ! i \<noteq> 0) [n..<srcParts] then (dst, 1)
         else (dst, 0))"

definition tcMultiply ::
    "integerPart list \<Rightarrow> integerPart list \<Rightarrow> integerPart list \<Rightarrow> nat \<Rightarrow> integerPart list \<times> nat" where
  "tcMultiply dst lhs rhs parts =
     for_upto 0 parts (\<lambda>i (dst, overflow).
       let (d, ov) = tcMultiplyPart (drop i dst) lhs (rhs ! i) 0 parts (parts - i) True
       in (take i dst @ d, overflow OR ov)) (tcSet dst 0 parts, 0)"

definition tcFullMultiply_ordered ::
    "integerPart list \<Rightarrow> integerPart list \<Rightarrow> integerPart list \<Rightarrow> nat \<Rightarrow> nat \<Rightarrow> integerPart list \<times> nat" where
  "tcFullMultiply_ordered dst lhs rhs lhsParts rhsParts =
     (let dst = for_upto 0 lhsParts (\<lambda>n dst.
            take n dst @ fst (tcMultiplyPart (drop n dst) rhs (lhs ! n) 0 rhsParts (rhsParts + 1) True))
            (tcSet dst 0 rhsParts);
          n = lhsParts + rhsParts
      in (dst, n - of_bool (dst ! (n - 1) = 0)))"

text \<open>The source recurses once, with the operands swapped, to put the narrower one on the left.\<close>

definition tcFullMultiply ::
    "integerPart list \<Rightarrow> integerPart list \<Rightarrow> integerPart list \<Rightarrow> nat \<Rightarrow> nat \<Rightarrow> integerPart list \<times> nat" where
  "tcFullMultiply dst lhs rhs lhsParts rhsParts =
     (if lhsParts > rhsParts then tcFullMultiply_ordered dst rhs lhs rhsParts lhsParts
      else tcFullMultiply_ordered dst lhs rhs lhsParts rhsParts)"

section \<open>One 64 by 64 bit product\<close>

lemma unat_lowHalf: "unat (lowHalf w) = unat w mod 2 ^ 32"
proof -
  have "lowHalf w = take_bit 32 w" by (simp add: lowHalf_def lowBitMask_eq take_bit_eq_mask)
  moreover have "unat (take_bit 32 w) = unat w mod 2 ^ 32"
    by (simp add: unsigned_take_bit_eq) (simp add: take_bit_eq_mod)
  ultimately show ?thesis by simp
qed

lemma unat_highHalf: "unat (highHalf w) = unat w div 2 ^ 32"
  by (simp add: highHalf_def unat_drop_bit)

lemma unat_mult_exact: "unat a * unat b < 2 ^ 64 \<Longrightarrow> unat (a * b) = unat a * unat b"
  for a b :: integerPart
  by (simp add: unat_word_ariths)

lemma unat_add_exact: "unat a + unat b < 2 ^ 64 \<Longrightarrow> unat (a + b) = unat a + unat b"
  for a b :: integerPart
  by (simp add: unat_word_ariths)

lemma half_mult: "a < 2 ^ 32 \<Longrightarrow> b < 2 ^ 32 \<Longrightarrow> a * b < (2 ^ 64 :: nat)"
proof -
  assume "a < 2 ^ 32" and "b < 2 ^ 32"
  then have "a * b < 2 ^ 32 * 2 ^ 32" by (rule mult_strict_mono) simp_all
  then show ?thesis by simp
qed

text \<open>Adding a word to the low half, with the carry into the high half, is exact while the total
  fits.\<close>

lemma acc_add:
  fixes l h x :: integerPart
  assumes "unat l + 2 ^ 64 * unat h + unat x < 2 ^ 64 * 2 ^ 64"
  shows "unat (l + x) + 2 ^ 64 * unat (if l + x < l then h + 1 else h) = unat l + 2 ^ 64 * unat h + unat x"
proof (cases "l + x < l")
  case True
  then have c: "unat (l + x) + 2 ^ 64 = unat l + unat x" using unat_add_carry [of l x] by simp
  then have "2 ^ 64 * (unat h + 1) < 2 ^ 64 * (2 ^ 64 :: nat)" using assms by simp
  then have "unat h + 1 < 2 ^ 64" by simp
  then have "unat (h + 1) = unat h + 1" using unat_add_exact [of h 1] by simp
  with True c show ?thesis by simp
next
  case False
  then show ?thesis using unat_add_carry [of l x] by simp
qed

lemma unat_shift_half: "unat (push_bit 32 w) = 2 ^ 32 * (unat w mod 2 ^ 32)" for w :: integerPart
proof -
  have "unat (push_bit 32 w) = take_bit 64 (push_bit 32 (unat w))"
    by (simp add: unsigned_push_bit_eq)
  also have "\<dots> = push_bit 32 (take_bit 32 (unat w))"
    by (simp add: take_bit_push_bit)
  finally show ?thesis by (simp add: push_bit_eq_mult take_bit_eq_mod)
qed

lemma mid_split: "(2 ^ 64 * (m div 2 ^ 32) + 2 ^ 32 * (m mod 2 ^ 32) :: nat) = 2 ^ 32 * m"
proof -
  have "(2 :: nat) ^ 64 = 2 ^ 32 * 2 ^ 32" by simp
  then have "2 ^ 64 * (m div 2 ^ 32) + 2 ^ 32 * (m mod 2 ^ 32) = 2 ^ 32 * (2 ^ 32 * (m div 2 ^ 32) + m mod 2 ^ 32)"
    by (simp only: distrib_left mult.assoc)
  also have "\<dots> = 2 ^ 32 * m" by (simp only: mult_div_mod_eq)
  finally show ?thesis .
qed

text \<open>One of the two middle products: its high half goes to \<open>high\<close>, its low half, shifted, to
  \<open>low\<close>.\<close>

lemma acc_mid:
  fixes l h mid :: integerPart
  assumes "unat l + 2 ^ 64 * unat h + 2 ^ 32 * unat mid < 2 ^ 64 * 2 ^ 64"
  shows "unat (l + push_bit 32 mid) +
      2 ^ 64 * unat (if l + push_bit 32 mid < l then h + highHalf mid + 1 else h + highHalf mid) =
    unat l + 2 ^ 64 * unat h + 2 ^ 32 * unat mid"
proof -
  have split: "2 ^ 64 * (unat mid div 2 ^ 32) + 2 ^ 32 * (unat mid mod 2 ^ 32) = 2 ^ 32 * unat mid"
    by (rule mid_split)
  then have "2 ^ 64 * (unat h + unat mid div 2 ^ 32) < 2 ^ 64 * (2 ^ 64 :: nat)"
    using assms by (simp only: distrib_left)
  then have "unat h + unat (highHalf mid) < 2 ^ 64" by (simp add: unat_highHalf)
  then have h: "unat (h + highHalf mid) = unat h + unat mid div 2 ^ 32"
    using unat_add_exact by (simp add: unat_highHalf)
  have "unat l + 2 ^ 64 * unat (h + highHalf mid) + unat (push_bit 32 mid) =
      unat l + 2 ^ 64 * unat h + 2 ^ 32 * unat mid"
    using split by (simp only: h unat_shift_half distrib_left)
  with acc_add [of l "h + highHalf mid" "push_bit 32 mid"] assms show ?thesis by simp
qed

lemma product_split:
  fixes s m :: nat
  shows "m * s = (s mod 2 ^ 32) * (m mod 2 ^ 32) + 2 ^ 64 * ((s div 2 ^ 32) * (m div 2 ^ 32)) +
    2 ^ 32 * ((s mod 2 ^ 32) * (m div 2 ^ 32)) + 2 ^ 32 * ((s div 2 ^ 32) * (m mod 2 ^ 32))"
proof -
  have "m * s = (2 ^ 32 * (m div 2 ^ 32) + m mod 2 ^ 32) * (2 ^ 32 * (s div 2 ^ 32) + s mod 2 ^ 32)"
    by simp
  then show ?thesis by (simp only: algebra_simps) (simp add: algebra_simps)
qed

lemma word_product_bound: "unat (m :: integerPart) * unat (s :: integerPart) + unat (c :: integerPart)
    + unat (d :: integerPart) < 2 ^ 64 * 2 ^ 64"
proof -
  have "unat m \<le> 2 ^ 64 - 1" "unat s \<le> 2 ^ 64 - 1" "unat c \<le> 2 ^ 64 - 1" "unat d \<le> 2 ^ 64 - 1"
    using unat_part_less [of m] unat_part_less [of s] unat_part_less [of c] unat_part_less [of d]
    by linarith+
  moreover from this(1,2) have "unat m * unat s \<le> (2 ^ 64 - 1) * (2 ^ 64 - 1)" by (rule mult_le_mono)
  ultimately show ?thesis by simp
qed

lemma mul_part_correct:
  assumes "mul_part m s c = (l, h)"
  shows "unat l + 2 ^ 64 * unat h = unat m * unat s + unat c"
proof (cases "m = 0 \<or> s = 0")
  case True
  with assms show ?thesis by (auto simp: mul_part_def)
next
  case False
  let ?s0 = "unat s mod 2 ^ 32" and ?s1 = "unat s div 2 ^ 32"
  let ?m0 = "unat m mod 2 ^ 32" and ?m1 = "unat m div 2 ^ 32"
  define l0 h0 p q where "l0 = lowHalf s * lowHalf m" and "h0 = highHalf s * highHalf m"
    and "p = lowHalf s * highHalf m" and "q = highHalf s * lowHalf m"
  define l1 h1 where "l1 = l0 + push_bit 32 p"
    and "h1 = (if l0 + push_bit 32 p < l0 then h0 + highHalf p + 1 else h0 + highHalf p)"
  define l2 h2 where "l2 = l1 + push_bit 32 q"
    and "h2 = (if l1 + push_bit 32 q < l1 then h1 + highHalf q + 1 else h1 + highHalf q)"
  have w: "(64::nat) div 2 = 32" by simp
  have "mul_part m s c = (l2 + c, if l2 + c < l2 then h2 + 1 else h2)"
    using False
    unfolding mul_part_def l2_def h2_def l1_def h1_def l0_def h0_def p_def q_def Let_def w
    by (simp only: if_False)
  then have res: "l = l2 + c" "h = (if l2 + c < l2 then h2 + 1 else h2)"
    using assms by simp_all
  have b: "?s0 < 2 ^ 32" "?m0 < 2 ^ 32" "?s1 < 2 ^ 32" "?m1 < 2 ^ 32"
    using unat_part_less [of s] unat_part_less [of m] by (simp_all add: less_mult_imp_div_less)
  have parts: "unat l0 = ?s0 * ?m0" "unat h0 = ?s1 * ?m1" "unat p = ?s0 * ?m1" "unat q = ?s1 * ?m0"
    unfolding l0_def h0_def p_def q_def
    using half_mult b by (simp_all add: unat_mult_exact unat_lowHalf unat_highHalf)
  have total: "unat m * unat s =
      unat l0 + 2 ^ 64 * unat h0 + 2 ^ 32 * unat p + 2 ^ 32 * unat q"
    unfolding parts by (rule product_split)
  have bound: "unat m * unat s + unat c < 2 ^ 64 * 2 ^ 64"
    using word_product_bound [of m s c 0] by simp
  have 1: "unat l1 + 2 ^ 64 * unat h1 = unat l0 + 2 ^ 64 * unat h0 + 2 ^ 32 * unat p"
    unfolding l1_def h1_def by (rule acc_mid) (use total bound in linarith)
  have 2: "unat l2 + 2 ^ 64 * unat h2 = unat l1 + 2 ^ 64 * unat h1 + 2 ^ 32 * unat q"
    unfolding l2_def h2_def by (rule acc_mid) (use total bound 1 in linarith)
  have "unat l + 2 ^ 64 * unat h = unat l2 + 2 ^ 64 * unat h2 + unat c"
    unfolding res by (rule acc_add) (use total bound 1 2 in linarith)
  with total 1 2 show ?thesis by linarith
qed

section \<open>One row of the product\<close>

definition tcMultiplyPart_inv where
  "tcMultiplyPart_inv dst0 src m c0 add k s \<longleftrightarrow> (case s of (dst, c :: integerPart) \<Rightarrow>
     bval dst k + unat c * 2 ^ (64 * k) =
       (if add then bval dst0 k else 0) + unat m * bval src k + unat (c0 :: integerPart) \<and>
     length dst = length dst0 \<and> (\<forall>j\<ge>k. dst ! j = dst0 ! j))"

text \<open>One round: the low word stored and the high word carried stand for the digit.\<close>

lemma mul_digit:
  assumes "mul_part m s c = (l, h)" and "d' = (if add then d + l else l)"
    and "h' = (if add then (if l + d < l then h + 1 else h) else h)"
  shows "unat d' + unat h' * 2 ^ 64 = (if add then unat d else 0) + unat m * unat s + unat c"
proof (cases add)
  case True
  have "unat l + 2 ^ 64 * unat h + unat d < 2 ^ 64 * 2 ^ 64"
    using mul_part_correct [OF assms(1)] word_product_bound [of m s c d] by simp
  from acc_add [OF this] mul_part_correct [OF assms(1)] True show ?thesis
    by (simp add: assms(2,3) add.commute)
next
  case False
  with mul_part_correct [OF assms(1)] show ?thesis by (simp add: assms(2,3))
qed

lemma digit_step_mul:
  fixes w :: nat
  assumes "w + c2 * 2 ^ 64 = a + m * b + c1" and "V + c1 * B = X + m * Y + c0"
  shows "(V + w * B) + c2 * (2 ^ 64 * B) = (X + a * B) + m * (Y + b * B) + c0"
proof -
  have "(w + c2 * 2 ^ 64) * B = (a + m * b + c1) * B" using assms(1) by simp
  then show ?thesis using assms(2) by (simp add: algebra_simps)
qed

lemma tcMultiplyPart_loop:
  assumes "n \<le> length dst"
  shows "tcMultiplyPart_inv dst src m c add n
    (for_upto 0 n (\<lambda>i (dst, carry).
      let (low, high) = mul_part m (src ! i) carry in
      if add then
        let high = (if low + dst ! i < low then high + 1 else high)
        in (dst[i := dst ! i + low], high)
      else (dst[i := low], high)) (dst, c))"
proof (rule for_upto_invariant)
  show "tcMultiplyPart_inv dst src m c add 0 (dst, c)" by (simp add: tcMultiplyPart_inv_def)
next
  fix k t
  assume k: "k < n" and inv: "tcMultiplyPart_inv dst src m c add k t"
  obtain d e where t: "t = (d, e)" by (cases t)
  obtain l h where lh: "mul_part m (src ! k) e = (l, h)" by (cases "mul_part m (src ! k) e")
  define w where "w = (if add then d ! k + l else l)"
  define h' where "h' = (if add then (if l + d ! k < l then h + 1 else h) else h)"
  have e: "d ! k = dst ! k" "k < length d" "length d = length dst" "\<forall>j\<ge>k. d ! j = dst ! j"
    and val: "bval d k + unat e * 2 ^ (64 * k) =
       (if add then bval dst k else 0) + unat m * bval src k + unat c"
    using inv k assms by (auto simp: t tcMultiplyPart_inv_def)
  from digit_step_mul [OF mul_digit [OF lh w_def h'_def] val]
  have "tcMultiplyPart_inv dst src m c add (Suc k) (d[k := w], h')"
    using e unfolding tcMultiplyPart_inv_def prod.case bval_Suc exp_part_Suc
    by (cases add) simp_all
  then show "tcMultiplyPart_inv dst src m c add (Suc k) (case t of (dst, carry) \<Rightarrow>
      let (low, high) = mul_part m (src ! k) carry in
      if add then
        let high = (if low + dst ! k < low then high + 1 else high)
        in (dst[k := dst ! k + low], high)
      else (dst[k := low], high))"
    by (cases add) (simp_all add: t lh w_def h'_def Let_def)
qed simp

text \<open>The wide case: the destination has one part more than the source, and nothing is lost.\<close>

lemma tcMultiplyPart_wide:
  assumes "srcParts < length dst"
  shows "case tcMultiplyPart dst src m c srcParts (srcParts + 1) add of (d, ov) \<Rightarrow>
      ov = 0 \<and> length d = length dst \<and> (\<forall>j>srcParts. d ! j = dst ! j) \<and>
      bval d (srcParts + 1) = (if add then bval dst srcParts else 0) + unat m * bval src srcParts + unat c"
proof -
  define loop where "loop = for_upto 0 srcParts (\<lambda>i (dst, carry).
      let (low, high) = mul_part m (src ! i) carry in
      if add then
        let high = (if low + dst ! i < low then high + 1 else high)
        in (dst[i := dst ! i + low], high)
      else (dst[i := low], high)) (dst, c)"
  obtain d e where de: "loop = (d, e)" by (cases loop)
  have "tcMultiplyPart_inv dst src m c add srcParts (d, e)"
    using tcMultiplyPart_loop [of srcParts dst src m c add] assms
    by (simp only: loop_def [symmetric] de less_imp_le)
  moreover have "tcMultiplyPart dst src m c srcParts (srcParts + 1) add = (d[srcParts := e], 0)"
    using de by (simp add: tcMultiplyPart_def loop_def)
  ultimately show ?thesis using assms by (simp add: tcMultiplyPart_inv_def bval_Suc)
qed

text \<open>The narrow case: the destination takes the low parts, and the flag says whether the full
  result was wider.\<close>

lemma list_ex_nonzero: "list_ex (\<lambda>i. src ! i \<noteq> 0) [n..<m] \<longleftrightarrow> bval (drop n src) (m - n) \<noteq> 0"
  if "m \<le> length src"
proof -
  have "list_ex (\<lambda>i. src ! i \<noteq> 0) [n..<m] \<longleftrightarrow> (\<exists>j<m - n. src ! (n + j) \<noteq> 0)"
  proof
    assume "list_ex (\<lambda>i. src ! i \<noteq> 0) [n..<m]"
    then obtain i where "n \<le> i" "i < m" "src ! i \<noteq> 0" by (auto simp: list_ex_iff)
    then show "\<exists>j<m - n. src ! (n + j) \<noteq> 0" by (intro exI [of _ "i - n"]) auto
  qed (auto simp: list_ex_iff)
  with that show ?thesis by (auto simp: bval_eq_0_iff)
qed

lemma quotient_overflow:
  fixes V C H B :: nat
  assumes "V < B"
  shows "(V + C * B + H * B) mod B = V" and "V + C * B + H * B < B \<longleftrightarrow> C = 0 \<and> H = 0"
proof -
  show "(V + C * B + H * B) mod B = V" using assms by (simp add: add.assoc flip: distrib_right)
  show "V + C * B + H * B < B \<longleftrightarrow> C = 0 \<and> H = 0"
  proof
    assume lt: "V + C * B + H * B < B"
    show "C = 0 \<and> H = 0"
      using lt by (cases C; cases H) auto
  qed (use assms in simp)
qed

lemma tcMultiplyPart_narrow:
  assumes "n \<le> srcParts" and "n \<le> length dst" and "srcParts \<le> length src"
    and full: "full = (if add then bval dst n else 0) + unat m * bval src srcParts + unat c"
  shows "case tcMultiplyPart dst src m c srcParts n add of (d, ov) \<Rightarrow>
      ov = of_bool (full \<ge> 2 ^ (64 * n)) \<and> length d = length dst \<and> (\<forall>j\<ge>n. d ! j = dst ! j) \<and>
      bval d n = full mod 2 ^ (64 * n)"
proof -
  define loop where "loop = for_upto 0 n (\<lambda>i (dst, carry).
      let (low, high) = mul_part m (src ! i) carry in
      if add then
        let high = (if low + dst ! i < low then high + 1 else high)
        in (dst[i := dst ! i + low], high)
      else (dst[i := low], high)) (dst, c)"
  obtain d e where de: "loop = (d, e)" by (cases loop)
  have inv: "tcMultiplyPart_inv dst src m c add n (d, e)"
    using tcMultiplyPart_loop [of n dst src m c add] assms(2)
    by (simp only: loop_def [symmetric] de)
  define H where "H = bval (drop n src) (srcParts - n)"
  have res: "tcMultiplyPart dst src m c srcParts n add = (d, of_bool (e \<noteq> 0 \<or> m \<noteq> 0 \<and> H \<noteq> 0))"
  proof -
    have n: "(if n < srcParts then n else srcParts) = n" using assms(1) by simp
    show ?thesis
      using de assms(3) unfolding tcMultiplyPart_def n loop_def
      by (simp add: list_ex_nonzero H_def)
  qed
  have "bval src srcParts = bval src n + H * 2 ^ (64 * n)"
    using bval_split [of n "srcParts - n" src] assms by (simp add: H_def)
  then have full': "full = bval d n + unat e * 2 ^ (64 * n) + (unat m * H) * 2 ^ (64 * n)"
    using inv by (simp add: full tcMultiplyPart_inv_def algebra_simps)
  have "full mod 2 ^ (64 * n) = bval d n" "full < 2 ^ (64 * n) \<longleftrightarrow> e = 0 \<and> (m = 0 \<or> H = 0)"
    unfolding full' using quotient_overflow [OF bval_less [of d n]] by (simp_all add: unat_eq_0)
  with inv show ?thesis
    by (auto simp: res tcMultiplyPart_inv_def not_less [symmetric])
qed

section \<open>The full products\<close>

lemma bval_take_append:
  assumes "k \<le> length dst"
  shows "bval (take k dst @ d) (k + n) = bval dst k + bval d n * 2 ^ (64 * k)"
proof (induction n)
  case 0
  then show ?case using assms by (simp add: bval_def nth_append)
next
  case (Suc n)
  then show ?case using assms by (simp add: bval_Suc nth_append power_add algebra_simps)
qed

lemma split_mod:
  fixes dl x :: nat
  assumes "dl < C"
  shows "dl + (x mod A) * C = (dl + x * C) mod (A * C)"
    and "A * C \<le> dl + x * C \<longleftrightarrow> A \<le> x"
proof -
  have C: "0 < C" using assms by simp
  have q: "(dl + x * C) div C = x" "(dl + x * C) mod C = dl" using assms C by simp_all
  show "dl + (x mod A) * C = (dl + x * C) mod (A * C)"
    using mod_mult2_eq [of "dl + x * C" C A] by (simp only: q mult.commute [of A C]) simp
  show "A * C \<le> dl + x * C \<longleftrightarrow> A \<le> x"
  proof (cases "A \<le> x")
    case True
    then have "A * C \<le> x * C" by (rule mult_le_mono1)
    then have "A * C \<le> dl + x * C" by (rule trans_le_add2)
    with True show ?thesis by blast
  next
    case False
    then have "(x + 1) * C \<le> A * C" by (intro mult_le_mono1) simp
    with False assms show ?thesis by simp
  qed
qed

lemma or_of_bool: "(of_bool a OR of_bool b :: nat) = of_bool (a \<or> b)"
  by (cases a; cases b) simp_all

text \<open>The arithmetic of one round of \<open>tcMultiply\<close>: \<open>T\<close> is the product so far, kept modulo
  \<open>A * C\<close>, and the round adds \<open>x * C\<close> to it.\<close>

lemma truncated_round:
  fixes T x :: nat
  assumes "dl < C" and "dl + dh * C = T mod (A * C)"
  shows "dl + ((dh + x) mod A) * C = (T + x * C) mod (A * C)"
    and "(T \<ge> A * C \<or> dh + x \<ge> A) \<longleftrightarrow> T + x * C \<ge> A * C"
proof -
  have "dl + (dh + x) * C = T mod (A * C) + x * C"
    using assms(2) by (simp add: algebra_simps)
  then show "dl + ((dh + x) mod A) * C = (T + x * C) mod (A * C)"
    using split_mod(1) [OF assms(1), of "dh + x" A] by (simp add: mod_add_left_eq)
  show "(T \<ge> A * C \<or> dh + x \<ge> A) \<longleftrightarrow> T + x * C \<ge> A * C"
  proof (cases "T \<ge> A * C")
    case False
    then have "dl + dh * C = T" using assms(2) by simp
    then have "dl + (dh + x) * C = T + x * C" by (simp add: algebra_simps)
    with False split_mod(2) [OF assms(1), of A "dh + x"] show ?thesis by simp
  qed simp
qed

lemma tcMultiply_inv:
  assumes len: "parts \<le> length dst" "parts \<le> length lhs" and pos: "0 < parts"
    and "tcMultiply dst lhs rhs parts = (d, ov)"
  defines "L \<equiv> bval lhs parts"
  shows "bval d parts = (L * bval rhs parts) mod 2 ^ (64 * parts)"
    and "ov = of_bool (L * bval rhs parts \<ge> 2 ^ (64 * parts))"
    and "length d = length dst"
proof -
  let ?body = "\<lambda>i (dst, overflow).
       let (d, ov) = tcMultiplyPart (drop i dst) lhs (rhs ! i) 0 parts (parts - i) True
       in (take i dst @ d, overflow OR ov)"
  let ?P = "\<lambda>k (d, ov). length d = length dst \<and>
      bval d parts = (L * bval rhs k) mod 2 ^ (64 * parts) \<and>
      ov = (of_bool (L * bval rhs k \<ge> 2 ^ (64 * parts)) :: nat)"
  have "?P parts (for_upto 0 parts ?body (tcSet dst 0 parts, 0))"
  proof (rule for_upto_invariant [where P = ?P])
    show "?P 0 (tcSet dst 0 parts, 0)" using len pos by (simp add: bval_tcSet)
  next
    fix k t
    assume k: "k < parts" and inv: "?P k t"
    obtain e ovf where t: "t = (e, ovf)" by (cases t)
    obtain d' ov' where row: "tcMultiplyPart (drop k e) lhs (rhs ! k) 0 parts (parts - k) True = (d', ov')"
      by (cases "tcMultiplyPart (drop k e) lhs (rhs ! k) 0 parts (parts - k) True")
    have e: "length e = length dst" "bval e parts = (L * bval rhs k) mod 2 ^ (64 * parts)"
      "ovf = of_bool (L * bval rhs k \<ge> 2 ^ (64 * parts))" using inv by (simp_all add: t)
    define x where "x = unat (rhs ! k) * L"
    define dh where "dh = bval (drop k e) (parts - k)"
    have row': "ov' = of_bool (dh + x \<ge> 2 ^ (64 * (parts - k)))" "length d' = length e - k"
      "bval d' (parts - k) = (dh + x) mod 2 ^ (64 * (parts - k))"
      using tcMultiplyPart_narrow [where n = "parts - k" and srcParts = parts and dst = "drop k e" and src = lhs
        and full = "dh + x" and add = True and m = "rhs ! k" and c = 0] k len e
      by (simp_all add: row x_def dh_def L_def)
    have pw: "2 ^ (64 * parts) = 2 ^ (64 * (parts - k)) * (2 ^ (64 * k) :: nat)"
      using k by (simp add: right_diff_distrib' flip: power_add)
    have split: "bval e k + dh * 2 ^ (64 * k) = (L * bval rhs k) mod (2 ^ (64 * (parts - k)) * 2 ^ (64 * k))"
      using bval_split [of k "parts - k" e] k len e by (simp add: dh_def pw)
    have nxt: "L * bval rhs (Suc k) = L * bval rhs k + x * 2 ^ (64 * k)"
      by (simp add: bval_Suc x_def algebra_simps)
    have "bval (take k e @ d') parts = bval e k + bval d' (parts - k) * 2 ^ (64 * k)"
      using bval_take_append [of k e d' "parts - k"] k len e by simp
    also have "\<dots> = (L * bval rhs (Suc k)) mod 2 ^ (64 * parts)"
      unfolding row' nxt pw by (rule truncated_round(1) [OF bval_less split])
    finally have "bval (take k e @ d') parts = (L * bval rhs (Suc k)) mod 2 ^ (64 * parts)" .
    moreover have "ovf OR ov' = of_bool (L * bval rhs (Suc k) \<ge> 2 ^ (64 * parts))"
      using truncated_round(2) [OF bval_less split, of x]
      by (simp only: e(3) row' or_of_bool nxt pw)
    ultimately show "?P (Suc k) (?body k t)"
      using k len e row' by (simp add: t row)
  qed simp
  then show "bval d parts = (L * bval rhs parts) mod 2 ^ (64 * parts)"
    "ov = of_bool (L * bval rhs parts \<ge> 2 ^ (64 * parts))" "length d = length dst"
    using assms(4) by (simp_all add: tcMultiply_def)
qed

lemma tcFullMultiply_rows:
  fixes dst lhs rhs :: "integerPart list"
  assumes len: "lhsParts + rhsParts \<le> length dst" and pos: "0 < rhsParts" and "k \<le> lhsParts"
  defines "rows \<equiv> for_upto 0 k (\<lambda>n dst.
      take n dst @ fst (tcMultiplyPart (drop n dst) rhs (lhs ! n) 0 rhsParts (rhsParts + 1) True))
      (tcSet dst 0 rhsParts)"
  shows "length rows = length dst \<and> bval rows (k + rhsParts) = bval lhs k * bval rhs rhsParts"
  unfolding rows_def
proof (rule for_upto_invariant [where P = "\<lambda>k d. length d = length dst \<and>
    bval d (k + rhsParts) = bval lhs k * bval rhs rhsParts"])
  show "length (tcSet dst 0 rhsParts) = length dst \<and>
      bval (tcSet dst 0 rhsParts) (0 + rhsParts) = bval lhs 0 * bval rhs rhsParts"
    using len pos by (simp add: bval_tcSet)
next
  fix j e
  assume j: "j < k" and inv: "length e = length dst \<and> bval e (j + rhsParts) = bval lhs j * bval rhs rhsParts"
  obtain d ov where row: "tcMultiplyPart (drop j e) rhs (lhs ! j) 0 rhsParts (rhsParts + 1) True = (d, ov)"
    by (cases "tcMultiplyPart (drop j e) rhs (lhs ! j) 0 rhsParts (rhsParts + 1) True")
  have "rhsParts < length (drop j e)" using inv j len \<open>k \<le> lhsParts\<close> by simp
  from tcMultiplyPart_wide [OF this, where src = rhs and m = "lhs ! j" and c = 0 and add = True]
  have d: "length d = length e - j"
    "bval d (rhsParts + 1) = bval (drop j e) rhsParts + unat (lhs ! j) * bval rhs rhsParts"
    unfolding row prod.case by simp_all
  have "bval (take j e @ d) (j + (rhsParts + 1)) = bval e j + bval d (rhsParts + 1) * 2 ^ (64 * j)"
    using inv j len \<open>k \<le> lhsParts\<close> by (intro bval_take_append) simp
  also have "\<dots> = bval e (j + rhsParts) + unat (lhs ! j) * bval rhs rhsParts * 2 ^ (64 * j)"
    using bval_split [of j rhsParts e] inv j len \<open>k \<le> lhsParts\<close>
    unfolding d by (simp add: algebra_simps)
  also have "\<dots> = bval lhs (Suc j) * bval rhs rhsParts"
    using inv by (simp add: bval_Suc algebra_simps)
  finally show "length (take j e @ fst (tcMultiplyPart (drop j e) rhs (lhs ! j) 0 rhsParts (rhsParts + 1) True)) = length dst \<and>
      bval (take j e @ fst (tcMultiplyPart (drop j e) rhs (lhs ! j) 0 rhsParts (rhsParts + 1) True)) (Suc j + rhsParts) =
        bval lhs (Suc j) * bval rhs rhsParts"
    using inv j len d \<open>k \<le> lhsParts\<close> unfolding row fst_conv by simp
qed simp

lemma bval_top_zero: "xs ! n = 0 \<Longrightarrow> bval xs (Suc n) < 2 ^ (64 * n)"
  using bval_less [of xs n] by (simp add: bval_Suc)

lemma tcFullMultiply_ordered_spec:
  assumes "lhsParts + rhsParts \<le> length dst" and "0 < rhsParts"
    and "tcFullMultiply_ordered dst lhs rhs lhsParts rhsParts = (d, n)"
  shows "bval d (lhsParts + rhsParts) = bval lhs lhsParts * bval rhs rhsParts"
    and "bval d (lhsParts + rhsParts) < 2 ^ (64 * n)" and "length d = length dst"
proof -
  have d: "length d = length dst" "bval d (lhsParts + rhsParts) = bval lhs lhsParts * bval rhs rhsParts"
    and n: "n = lhsParts + rhsParts - of_bool (d ! (lhsParts + rhsParts - 1) = 0)"
    using tcFullMultiply_rows [OF assms(1,2) le_refl, of rhs lhs] assms(3)
    by (auto simp: tcFullMultiply_ordered_def Let_def)
  obtain p where p: "lhsParts + rhsParts = Suc p" using assms(2) by (cases "lhsParts + rhsParts") auto
  show "bval d (lhsParts + rhsParts) < 2 ^ (64 * n)"
    using bval_less [of d "Suc p"] bval_top_zero [of d p] by (auto simp: n p)
  show "length d = length dst" "bval d (lhsParts + rhsParts) = bval lhs lhsParts * bval rhs rhsParts"
    by (fact d)+
qed

lemma tcFullMultiply_spec:
  assumes "lhsParts + rhsParts \<le> length dst" and "0 < lhsParts" and "0 < rhsParts"
    and "tcFullMultiply dst lhs rhs lhsParts rhsParts = (d, n)"
  shows "bval d (lhsParts + rhsParts) = bval lhs lhsParts * bval rhs rhsParts"
    and "bval d (lhsParts + rhsParts) < 2 ^ (64 * n)"
  using assms tcFullMultiply_ordered_spec [of lhsParts rhsParts dst lhs rhs d n]
    tcFullMultiply_ordered_spec [of rhsParts lhsParts dst rhs lhs d n]
  by (auto simp: tcFullMultiply_def add.commute mult.commute split: if_splits)

end
