(* ===== verification/BigNumDiv.thy ===== *)
theory BigNumDiv
  imports BigNumMul
begin

text \<open>
  \<open>APInt::tcDivide\<close>: restoring division, one quotient bit per round. The divisor is first
  shifted left until its top bit is the top bit of the array, and the loop shifts it back one bit
  at a time. The number of parts is such that the bit count fits the source's 32-bit counters.
\<close>

text \<open>The comparison and the subtraction at the head of the loop: one bit of the quotient.\<close>

definition divide_bit ::
    "nat \<Rightarrow> nat \<Rightarrow> integerPart \<Rightarrow> integerPart list \<Rightarrow> integerPart list \<Rightarrow> integerPart list
      \<Rightarrow> integerPart list \<times> integerPart list" where
  "divide_bit parts n bmask lhs remainder srhs =
     (if tcCompare remainder srhs parts \<ge> 0
      then (lhs[n := lhs ! n OR bmask], fst (tcSubtract remainder srhs 0 parts))
      else (lhs, remainder))"

text \<open>The rest of the loop, which leaves when \<open>shiftCount\<close> is zero.\<close>

fun tcDivide_loop ::
    "nat \<Rightarrow> nat \<Rightarrow> nat \<Rightarrow> integerPart \<Rightarrow> integerPart list \<times> integerPart list \<times> integerPart list
      \<Rightarrow> integerPart list \<times> integerPart list \<times> integerPart list" where
  "tcDivide_loop parts shiftCount n bmask (lhs, remainder, srhs) =
     (let (lhs, remainder) = divide_bit parts n bmask lhs remainder srhs
      in case shiftCount of
           0 \<Rightarrow> (lhs, remainder, srhs)
         | Suc shiftCount \<Rightarrow>
             let srhs = tcShiftRight srhs parts 1;
                 bmask = drop_bit 1 bmask;
                 (bmask, n) = (if bmask = 0 then (push_bit (integerPartWidth - 1) 1, n - 1) else (bmask, n))
             in tcDivide_loop parts shiftCount n bmask (lhs, remainder, srhs))"

declare tcDivide_loop.simps [simp del]

definition tcDivide ::
    "integerPart list \<Rightarrow> integerPart list \<Rightarrow> integerPart list \<Rightarrow> integerPart list \<Rightarrow> nat
      \<Rightarrow> bool \<times> integerPart list \<times> integerPart list \<times> integerPart list" where
  "tcDivide lhs rhs remainder srhs parts =
     (let shiftCount = tcMSB rhs parts + 1 in
      if shiftCount = 0 then (True, lhs, remainder, srhs)
      else
        let shiftCount = parts * integerPartWidth - unat shiftCount;
            n = shiftCount div integerPartWidth;
            bmask = push_bit (shiftCount mod integerPartWidth) 1;
            srhs = tcShiftLeft (tcAssign srhs rhs parts) parts shiftCount;
            remainder = tcAssign remainder lhs parts;
            lhs = tcSet lhs 0 parts
        in (False, tcDivide_loop parts shiftCount n bmask (lhs, remainder, srhs)))"

section \<open>Setting a bit\<close>

lemma bval_or_bit:
  assumes "s < 64 * n" and "n \<le> length xs"
  shows "bval (xs[s div 64 := xs ! (s div 64) OR push_bit (s mod 64) 1]) n = (bval xs n OR 2 ^ s)"
proof (rule bit_eqI)
  fix k :: nat
  have idx: "s div 64 < length xs" using assms by (simp add: less_mult_imp_div_less mult.commute)
  have eq: "k = s \<longleftrightarrow> k div 64 = s div 64 \<and> k mod 64 = s mod 64"
    by (metis mult_div_mod_eq)
  show "bit (bval (xs[s div 64 := xs ! (s div 64) OR push_bit (s mod 64) 1]) n) k =
      bit (bval xs n OR 2 ^ s) k"
  proof (cases "k div 64 = s div 64")
    case True
    then show ?thesis using idx assms eq
      by (auto simp: bit_bval bit_or_iff bit_push_bit_iff bit_exp_iff bit_1_iff)
  next
    case False
    then have "k \<noteq> s" by auto
    with False show ?thesis by (simp add: bit_bval bit_or_iff bit_exp_iff)
  qed
qed

lemma or_exp_add: "2 ^ Suc s dvd x \<Longrightarrow> (x OR 2 ^ s :: nat) = x + 2 ^ s"
proof -
  assume "2 ^ Suc s dvd x"
  then obtain q where q: "x = 2 ^ Suc s * q" by blast
  have "x = push_bit (Suc s) q" by (simp only: q push_bit_eq_mult mult.commute)
  then have "\<not> bit x s" by (simp only: bit_push_bit_iff) simp
  then have "x AND 2 ^ s = 0" by (intro bit_eqI) (auto simp: bit_and_iff bit_exp_iff)
  then show ?thesis by (simp add: disjunctive_add_eq_or)
qed

section \<open>The restoring division\<close>

text \<open>The invariant at the head of the loop, for the dividend \<open>l\<close> and the divisor \<open>r\<close>.\<close>

definition tcDivide_inv where
  "tcDivide_inv l r parts s n bmask lhs remainder srhs \<longleftrightarrow>
     length lhs \<ge> parts \<and> length remainder \<ge> parts \<and> length srhs \<ge> parts \<and>
     s < 64 * parts \<and> n = s div 64 \<and> bmask = push_bit (s mod 64) (1 :: integerPart) \<and>
     bval srhs parts = r * 2 ^ s \<and> 2 ^ Suc s dvd bval lhs parts \<and>
     bval remainder parts < r * 2 ^ Suc s \<and> l = r * bval lhs parts + bval remainder parts"

lemma bval_tcSubtract_le:
  assumes "parts \<le> length dst" and "bval rhs parts \<le> bval dst parts"
  shows "bval (fst (tcSubtract dst rhs 0 parts)) parts = bval dst parts - bval rhs parts"
    and "length (fst (tcSubtract dst rhs 0 parts)) = length dst"
proof -
  obtain d c where s: "tcSubtract dst rhs 0 parts = (d, c)" by (cases "tcSubtract dst rhs 0 parts")
  have inv: "bval dst parts + unat c * 2 ^ (64 * parts) = bval d parts + bval rhs parts"
    "unat c \<le> 1" "length d = length dst"
    using tcSubtract_final [of parts dst 0 rhs] assms(1) by (simp_all add: s tcSubtract_inv_def)
  have "unat c = 0"
  proof (rule ccontr)
    assume "unat c \<noteq> 0"
    then have "unat c = 1" using inv(2) by simp
    then show False using inv(1) assms(2) bval_less [of d parts] by simp
  qed
  then show "bval (fst (tcSubtract dst rhs 0 parts)) parts = bval dst parts - bval rhs parts"
    "length (fst (tcSubtract dst rhs 0 parts)) = length dst"
    using inv by (simp_all add: s)
qed

lemma divide_bit:
  assumes inv: "tcDivide_inv l r parts s n bmask lhs remainder srhs"
    and step: "divide_bit parts n bmask lhs remainder srhs = (lhs', remainder')"
  shows "length lhs' = length lhs" "length remainder' = length remainder"
    and "2 ^ s dvd bval lhs' parts" and "bval remainder' parts < r * 2 ^ s"
    and "l = r * bval lhs' parts + bval remainder' parts"
proof -
  have i: "length lhs \<ge> parts" "length remainder \<ge> parts" "s < 64 * parts" "n = s div 64"
    "bmask = push_bit (s mod 64) 1" "bval srhs parts = r * 2 ^ s" "2 ^ Suc s dvd bval lhs parts"
    "bval remainder parts < r * 2 ^ Suc s" "l = r * bval lhs parts + bval remainder parts"
    using inv by (simp_all add: tcDivide_inv_def)
  have ge: "tcCompare remainder srhs parts \<ge> 0 \<longleftrightarrow> r * 2 ^ s \<le> bval remainder parts"
    by (auto simp: tcCompare_sgn i(6) sgn_if simp flip: of_nat_mult of_nat_power)
  have dvd: "2 ^ s dvd bval lhs parts" using i(7) by (rule power_le_dvd) simp
  have "length lhs' = length lhs \<and> length remainder' = length remainder \<and> 2 ^ s dvd bval lhs' parts \<and>
      bval remainder' parts < r * 2 ^ s \<and> l = r * bval lhs' parts + bval remainder' parts"
  proof (cases "r * 2 ^ s \<le> bval remainder parts")
    case True
    then have eqs: "lhs' = lhs[n := lhs ! n OR bmask]" "remainder' = fst (tcSubtract remainder srhs 0 parts)"
      using step ge by (simp_all add: divide_bit_def)
    have lv: "bval lhs' parts = bval lhs parts + 2 ^ s"
      using bval_or_bit [OF i(3,1)] or_exp_add [OF i(7)] by (simp add: eqs i(4,5))
    have rv: "bval remainder' parts = bval remainder parts - r * 2 ^ s" "length remainder' = length remainder"
      using bval_tcSubtract_le [OF i(2), of srhs] True by (simp_all add: eqs i(6))
    have "bval remainder' parts < r * 2 ^ s" using i(8) True by (simp add: rv(1))
    moreover have "l = r * bval lhs' parts + bval remainder' parts"
      using i(9) True by (simp add: lv rv(1) algebra_simps)
    moreover have "2 ^ s dvd bval lhs' parts" using dvd by (simp add: lv)
    ultimately show ?thesis by (simp add: rv(2)) (simp add: eqs(1))
  next
    case False
    then show ?thesis using step ge dvd i(9) by (auto simp: divide_bit_def)
  qed
  then show "length lhs' = length lhs" "length remainder' = length remainder"
    "2 ^ s dvd bval lhs' parts" "bval remainder' parts < r * 2 ^ s"
    "l = r * bval lhs' parts + bval remainder' parts" by blast+
qed

text \<open>The mask moves down one bit, into the part below when it falls off.\<close>

lemma mask_step:
  defines "m s \<equiv> push_bit (s mod 64) (1 :: integerPart)"
  shows "(if drop_bit 1 (m (Suc s)) = 0 then (push_bit (64 - 1) 1, Suc s div 64 - 1) else (drop_bit 1 (m (Suc s)), Suc s div 64))
    = (m s, s div 64)"
proof (cases "Suc s mod 64 = 0")
  case True
  then have e: "s mod 64 = 63" "Suc s div 64 - 1 = s div 64"
    by (simp_all add: mod_Suc div_Suc split: if_splits)
  have "m (Suc s) = 1" "m s = push_bit (64 - 1) 1" by (simp_all add: m_def True e(1))
  moreover have "drop_bit 1 (1 :: integerPart) = 0" by simp
  ultimately show ?thesis by (simp only: e(2) if_True refl)
next
  case False
  then have e: "Suc s mod 64 = Suc (s mod 64)" "Suc s div 64 = s div 64"
    by (simp_all add: mod_Suc div_Suc split: if_splits)
  have lt: "Suc (s mod 64) < 64" using False e(1) mod_less_divisor [of 64 "Suc s"] by linarith
  have "drop_bit 1 (push_bit (Suc (s mod 64)) (1 :: integerPart)) = push_bit (s mod 64) 1"
    by (rule bit_word_eqI) (use lt in \<open>auto simp: bit_simps\<close>)
  moreover have "push_bit (s mod 64) (1 :: integerPart) \<noteq> 0"
    using bit_push_bit_iff [of "s mod 64" "1 :: integerPart" "s mod 64"] lt by auto
  ultimately show ?thesis by (simp add: m_def e)
qed

lemma tcDivide_loop_unfold:
  "tcDivide_loop parts s n bmask (lhs, remainder, srhs) =
     (case divide_bit parts n bmask lhs remainder srhs of (lhs, remainder) \<Rightarrow>
      case s of 0 \<Rightarrow> (lhs, remainder, srhs)
      | Suc s \<Rightarrow>
          (case (if drop_bit 1 bmask = 0 then (push_bit (64 - 1) 1, n - 1) else (drop_bit 1 bmask, n)) of
             (bmask, n) \<Rightarrow> tcDivide_loop parts s n bmask (lhs, remainder, tcShiftRight srhs parts 1)))"
  by (simp only: tcDivide_loop.simps [of parts s] Let_def)

lemma tcDivide_loop_correct:
  assumes "tcDivide_inv l r parts s n bmask lhs remainder srhs"
    and "tcDivide_loop parts s n bmask (lhs, remainder, srhs) = (quot, rest, scratch)"
  shows "l = r * bval quot parts + bval rest parts \<and> bval rest parts < r"
  using assms
proof (induction s arbitrary: n bmask lhs remainder srhs)
  case 0
  obtain lhs' remainder' where b: "divide_bit parts n bmask lhs remainder srhs = (lhs', remainder')"
    by (cases "divide_bit parts n bmask lhs remainder srhs")
  from divide_bit [OF 0(1) b] 0(2) show ?case by (simp add: tcDivide_loop_unfold [of parts 0] b)
next
  case (Suc s)
  obtain lhs' remainder' where b: "divide_bit parts n bmask lhs remainder srhs = (lhs', remainder')"
    by (cases "divide_bit parts n bmask lhs remainder srhs")
  note d = divide_bit [OF Suc.prems(1) b]
  have i: "length lhs \<ge> parts" "length remainder \<ge> parts" "length srhs \<ge> parts" "Suc s < 64 * parts"
    "n = Suc s div 64" "bmask = push_bit (Suc s mod 64) 1" "bval srhs parts = r * 2 ^ Suc s"
    using Suc.prems(1) by (simp_all add: tcDivide_inv_def)
  have "bval (tcShiftRight srhs parts 1) parts = r * 2 ^ s"
    using i(7) by (simp add: bval_tcShiftRight i(3) drop_bit_Suc)
  then have "tcDivide_inv l r parts s (s div 64) (push_bit (s mod 64) 1) lhs' remainder' (tcShiftRight srhs parts 1)"
    using d i by (simp add: tcDivide_inv_def)
  moreover have "tcDivide_loop parts s (s div 64) (push_bit (s mod 64) 1)
      (lhs', remainder', tcShiftRight srhs parts 1) = (quot, rest, scratch)"
    using Suc.prems(2) by (simp only: tcDivide_loop_unfold [of parts "Suc s"] b [unfolded i(5,6)] i(5,6) mask_step prod.case nat.case)
  ultimately show ?case by (rule Suc.IH)
qed

lemma tcDivide_start:
  assumes w: "64 * parts < 2 ^ 32" and len: "parts \<le> length lhs" "parts \<le> length remainder" "parts \<le> length srhs"
    and nz: "bval rhs parts \<noteq> 0"
  defines "s \<equiv> parts * 64 - unat (tcMSB rhs parts + 1)"
  shows "tcMSB rhs parts + 1 \<noteq> 0"
    and "tcDivide_inv (bval lhs parts) (bval rhs parts) parts s (s div 64) (push_bit (s mod 64) 1)
      (tcSet lhs 0 parts) (tcAssign remainder lhs parts) (tcShiftLeft (tcAssign srhs rhs parts) parts s)"
proof -
  define t where "t = unat (tcMSB rhs parts)"
  have t: "2 ^ t \<le> bval rhs parts" "bval rhs parts < 2 ^ Suc t" "t < 64 * parts"
    using tcMSB_spec [OF w nz] by (simp_all add: t_def)
  have pos: "0 < parts" using t(3) by (cases parts) auto
  have "t + 1 < 2 ^ 32" using t(3) w by simp
  then have u: "unat (tcMSB rhs parts + 1) = t + 1"
    by (simp add: unat_word_ariths t_def)
  then show "tcMSB rhs parts + 1 \<noteq> 0" by (metis add_is_0 one_neq_zero unat_0)
  have s: "s + Suc t = 64 * parts" using t(3) by (simp add: s_def u)
  have "bval rhs parts * 2 ^ s < 2 ^ Suc t * 2 ^ s" using t(2) by (rule mult_strict_right_mono) simp
  moreover have "2 ^ Suc t * 2 ^ s = (2 ^ (64 * parts) :: nat)"
    by (simp only: power_add [symmetric] add.commute [of "Suc t"] s)
  ultimately have top: "bval rhs parts * 2 ^ s < 2 ^ (64 * parts)" by (simp only:)
  have "2 ^ t * 2 ^ Suc s \<le> bval rhs parts * 2 ^ Suc s" using t(1) by (rule mult_le_mono1)
  then have "2 ^ (64 * parts) \<le> bval rhs parts * 2 ^ Suc s"
    by (simp only: s [symmetric] power_add) (simp add: mult.commute mult.left_commute)
  then have "bval lhs parts < bval rhs parts * 2 ^ Suc s" using bval_less [of lhs parts] by linarith
  moreover have "bval (tcShiftLeft (tcAssign srhs rhs parts) parts s) parts = bval rhs parts * 2 ^ s"
    using top len by (simp add: bval_tcShiftLeft bval_tcAssign push_bit_eq_mult take_bit_nat_eq_self)
  ultimately show "tcDivide_inv (bval lhs parts) (bval rhs parts) parts s (s div 64) (push_bit (s mod 64) 1)
      (tcSet lhs 0 parts) (tcAssign remainder lhs parts) (tcShiftLeft (tcAssign srhs rhs parts) parts s)"
    using len pos s by (simp add: tcDivide_inv_def bval_tcSet bval_tcAssign)
qed

lemma tcDivide_spec:
  assumes "64 * parts < 2 ^ 32" and "parts \<le> length lhs" "parts \<le> length remainder" "parts \<le> length srhs"
    and "bval rhs parts \<noteq> 0"
    and "tcDivide lhs rhs remainder srhs parts = (err, quot, rest, scratch)"
  shows "\<not> err \<and> bval quot parts = bval lhs parts div bval rhs parts \<and>
    bval rest parts = bval lhs parts mod bval rhs parts"
proof -
  define s where "s = parts * 64 - unat (tcMSB rhs parts + 1)"
  note start = tcDivide_start [OF assms(1-5), folded s_def]
  have "\<not> err" and "tcDivide_loop parts s (s div 64) (push_bit (s mod 64) 1)
      (tcSet lhs 0 parts, tcAssign remainder lhs parts, tcShiftLeft (tcAssign srhs rhs parts) parts s)
    = (quot, rest, scratch)"
    using assms(6) start(1) by (simp_all add: tcDivide_def Let_def flip: s_def)
  with tcDivide_loop_correct [OF start(2)]
  have "\<not> err" "bval lhs parts = bval rhs parts * bval quot parts + bval rest parts" "bval rest parts < bval rhs parts"
    by auto
  then show ?thesis by simp
qed

section \<open>The properties of multiplication and division\<close>

text \<open>\<open>tcMultiply\<close> writes the product modulo the width of the arrays, and its overflow flag is set
  exactly when the product does not fit that width.\<close>

theorem tcMultiply_correct:
  assumes "parts \<le> length dst" and "parts \<le> length lhs" and "parts \<le> length rhs" and "0 < parts"
    and "tcMultiply dst lhs rhs parts = (product, overflow)"
  shows "bval product parts = bval lhs parts * bval rhs parts mod 2 ^ (64 * parts) \<and>
    overflow = (if bval lhs parts * bval rhs parts < 2 ^ (64 * parts) then 0 else 1)"
  using tcMultiply_inv [OF assms(1,2,4,5)] by (simp_all add: not_less)

theorem tcMultiply_correct_witness:
  "case tcMultiply [0, 0] [- 1, 1] [3, 4] 2 of (product, overflow) \<Rightarrow>
     bval product 2 = bval [- 1, 1] 2 * bval [3, 4] 2 mod 2 ^ 128"
  using tcMultiply_correct [where dst = "[0, 0]" and lhs = "[- 1, 1]" and rhs = "[3, 4]" and parts = 2]
  by (cases "tcMultiply [0, 0] [- 1, 1] [3, 4] 2") simp

text \<open>\<open>tcFullMultiply\<close> writes the exact product, and the number of parts it returns is enough to
  hold it.\<close>

theorem tcFullMultiply_correct:
  assumes "lhsParts + rhsParts \<le> length dst" and "0 < lhsParts" and "0 < rhsParts"
    and "tcFullMultiply dst lhs rhs lhsParts rhsParts = (product, n)"
  shows "bval product (lhsParts + rhsParts) = bval lhs lhsParts * bval rhs rhsParts \<and>
    bval lhs lhsParts * bval rhs rhsParts < 2 ^ (64 * n)"
  using tcFullMultiply_spec [OF assms] by simp_all

theorem tcFullMultiply_correct_witness:
  "case tcFullMultiply [0, 0, 0] [- 1, 1] [3] 2 1 of (product, n) \<Rightarrow>
     bval product 3 = bval [- 1, 1] 2 * bval [3] 1"
  using tcFullMultiply_correct [where dst = "[0, 0, 0]" and lhs = "[- 1, 1]" and rhs = "[3]"
    and lhsParts = 2 and rhsParts = 1]
  by (cases "tcFullMultiply [0, 0, 0] [- 1, 1] [3] 2 1") simp

text \<open>C14: \<open>tcDivide\<close> leaves its operands alone and reports failure for a zero divisor; otherwise it
  succeeds and writes the quotient and the remainder.\<close>

theorem tcDivide_correct:
  assumes "64 * parts < 2 ^ 32" and "parts \<le> length lhs" and "parts \<le> length remainder" and "parts \<le> length srhs"
    and "tcDivide lhs rhs remainder srhs parts = (failed, quot, rest, scratch)"
  shows "if bval rhs parts = 0 then failed \<and> quot = lhs \<and> rest = remainder
    else \<not> failed \<and> bval quot parts = bval lhs parts div bval rhs parts \<and>
      bval rest parts = bval lhs parts mod bval rhs parts"
proof (cases "bval rhs parts = 0")
  case True
  then show ?thesis using assms(5) by (simp add: tcDivide_def tcMSB_zero)
next
  case False
  then show ?thesis using tcDivide_spec [OF assms(1-4) False assms(5)] by simp
qed

theorem tcDivide_correct_witness:
  "case tcDivide [7, 9] [3, 0] [0, 0] [0, 0] 2 of (failed, quot, rest, scratch) \<Rightarrow>
     \<not> failed \<and> bval quot 2 = bval [7, 9] 2 div bval [3, 0] 2 \<and> bval rest 2 = bval [7, 9] 2 mod bval [3, 0] 2"
proof -
  obtain failed quot rest scratch where run: "tcDivide [7, 9] [3, 0] [0, 0] [0, 0] 2 = (failed, quot, rest, scratch)"
    by (metis prod_cases4)
  have "bval [3, 0] 2 \<noteq> 0" by (auto simp: bval_eq_0_iff intro!: exI [of _ 0])
  then show ?thesis using tcDivide_correct [OF _ _ _ _ run] by (simp add: run)
qed

end
