(* ===== verification/APIntSpec.thy ===== *)
theory APIntSpec
  imports LLVM_Prelude
begin

text \<open>
  The abstract arithmetic that \<open>llvm/ADT/APInt.h\<close> documents: an \<open>APInt\<close> is a bit width and a
  number below \<open>2 ^ bitWidth\<close>, and every operation works modulo \<open>2 ^ bitWidth\<close>. The widths are
  run-time values in the code, hence a record and not a word type. The clients of \<open>APInt\<close>
  (\<open>ConstantRange\<close>, the integer comparisons) are modelled over these values. The word-level routines meet the
  specification at every width (\<open>APIntRep\<close>, \<open>APIntSound\<close>), except multiplication and division, which do so up to 128 bits
  (\<open>APIntDiv\<close>): \<open>ConstantRange\<close> therefore calls the word-level routines for those two.
\<close>

record apint =
  bitWidth :: nat
  ival :: nat

definition mk_apint :: "nat \<Rightarrow> nat \<Rightarrow> apint" where
  "mk_apint w v = \<lparr>bitWidth = w, ival = v mod 2 ^ w\<rparr>"

definition wf_apint :: "nat \<Rightarrow> apint \<Rightarrow> bool" where
  "wf_apint w a \<longleftrightarrow> bitWidth a = w \<and> 0 < w \<and> ival a < 2 ^ w"

text \<open>The signed reading.\<close>

definition sval :: "apint \<Rightarrow> int" where
  "sval a = (if ival a < 2 ^ (bitWidth a - 1) then int (ival a) else int (ival a) - 2 ^ bitWidth a)"

definition of_sval :: "nat \<Rightarrow> int \<Rightarrow> apint" where
  "of_sval w v = \<lparr>bitWidth = w, ival = nat (v mod 2 ^ w)\<rparr>"

section \<open>Special values and predicates\<close>

definition getMaxValue :: "nat \<Rightarrow> apint" where
  "getMaxValue w = mk_apint w (2 ^ w - 1)"

definition getMinValue :: "nat \<Rightarrow> apint" where
  "getMinValue w = mk_apint w 0"

definition getSignedMaxValue :: "nat \<Rightarrow> apint" where
  "getSignedMaxValue w = mk_apint w (2 ^ (w - 1) - 1)"

definition getSignedMinValue :: "nat \<Rightarrow> apint" where
  "getSignedMinValue w = mk_apint w (2 ^ (w - 1))"

definition getOneBitSet :: "nat \<Rightarrow> nat \<Rightarrow> apint" where
  "getOneBitSet w b = mk_apint w (2 ^ b)"

definition getHighBitsSet :: "nat \<Rightarrow> nat \<Rightarrow> apint" where
  "getHighBitsSet w n = mk_apint w (2 ^ w - 2 ^ (w - n))"

definition getLowBitsSet :: "nat \<Rightarrow> nat \<Rightarrow> apint" where
  "getLowBitsSet w n = mk_apint w (2 ^ n - 1)"

definition isMaxValue :: "apint \<Rightarrow> bool" where
  "isMaxValue a \<longleftrightarrow> a = getMaxValue (bitWidth a)"

definition isMinValue :: "apint \<Rightarrow> bool" where
  "isMinValue a \<longleftrightarrow> ival a = 0"

definition isMaxSignedValue :: "apint \<Rightarrow> bool" where
  "isMaxSignedValue a \<longleftrightarrow> a = getSignedMaxValue (bitWidth a)"

definition isMinSignedValue :: "apint \<Rightarrow> bool" where
  "isMinSignedValue a \<longleftrightarrow> a = getSignedMinValue (bitWidth a)"

definition isNegative :: "apint \<Rightarrow> bool" where
  "isNegative a \<longleftrightarrow> 2 ^ (bitWidth a - 1) \<le> ival a"

section \<open>Arithmetic, comparison and conversion\<close>

definition ap_add :: "apint \<Rightarrow> apint \<Rightarrow> apint" where
  "ap_add a b = mk_apint (bitWidth a) (ival a + ival b)"

definition ap_sub :: "apint \<Rightarrow> apint \<Rightarrow> apint" where
  "ap_sub a b = mk_apint (bitWidth a) (ival a + (2 ^ bitWidth a - ival b))"

definition ap_mul :: "apint \<Rightarrow> apint \<Rightarrow> apint" where
  "ap_mul a b = mk_apint (bitWidth a) (ival a * ival b)"

definition ap_inc :: "apint \<Rightarrow> apint" where
  "ap_inc a = ap_add a (mk_apint (bitWidth a) 1)"

definition ap_dec :: "apint \<Rightarrow> apint" where
  "ap_dec a = ap_sub a (mk_apint (bitWidth a) 1)"

definition ap_udiv :: "apint \<Rightarrow> apint \<Rightarrow> apint" where
  "ap_udiv a b = mk_apint (bitWidth a) (ival a div ival b)"

definition ap_urem :: "apint \<Rightarrow> apint \<Rightarrow> apint" where
  "ap_urem a b = mk_apint (bitWidth a) (ival a mod ival b)"

definition ap_and :: "apint \<Rightarrow> apint \<Rightarrow> apint" where
  "ap_and a b = mk_apint (bitWidth a) (ival a AND ival b)"

definition ap_or :: "apint \<Rightarrow> apint \<Rightarrow> apint" where
  "ap_or a b = mk_apint (bitWidth a) (ival a OR ival b)"

definition ap_shl :: "apint \<Rightarrow> apint \<Rightarrow> apint" where
  "ap_shl a b = (if ival b \<ge> bitWidth a then mk_apint (bitWidth a) 0
     else mk_apint (bitWidth a) (ival a * 2 ^ ival b))"

definition ap_lshr :: "apint \<Rightarrow> apint \<Rightarrow> apint" where
  "ap_lshr a b = (if ival b \<ge> bitWidth a then mk_apint (bitWidth a) 0
     else mk_apint (bitWidth a) (ival a div 2 ^ ival b))"

definition ult :: "apint \<Rightarrow> apint \<Rightarrow> bool" where "ult a b \<longleftrightarrow> ival a < ival b"
definition ule :: "apint \<Rightarrow> apint \<Rightarrow> bool" where "ule a b \<longleftrightarrow> ival a \<le> ival b"
definition ugt :: "apint \<Rightarrow> apint \<Rightarrow> bool" where "ugt a b \<longleftrightarrow> ival a > ival b"
definition uge :: "apint \<Rightarrow> apint \<Rightarrow> bool" where "uge a b \<longleftrightarrow> ival a \<ge> ival b"
definition slt :: "apint \<Rightarrow> apint \<Rightarrow> bool" where "slt a b \<longleftrightarrow> sval a < sval b"
definition sle :: "apint \<Rightarrow> apint \<Rightarrow> bool" where "sle a b \<longleftrightarrow> sval a \<le> sval b"
definition sgt :: "apint \<Rightarrow> apint \<Rightarrow> bool" where "sgt a b \<longleftrightarrow> sval a > sval b"
definition sge :: "apint \<Rightarrow> apint \<Rightarrow> bool" where "sge a b \<longleftrightarrow> sval a \<ge> sval b"

text \<open>\<open>APIntOps\<close>: each returns one of its arguments.\<close>

definition ap_umin :: "apint \<Rightarrow> apint \<Rightarrow> apint" where "ap_umin a b = (if ult a b then a else b)"
definition ap_umax :: "apint \<Rightarrow> apint \<Rightarrow> apint" where "ap_umax a b = (if ugt a b then a else b)"
definition ap_smin :: "apint \<Rightarrow> apint \<Rightarrow> apint" where "ap_smin a b = (if slt a b then a else b)"
definition ap_smax :: "apint \<Rightarrow> apint \<Rightarrow> apint" where "ap_smax a b = (if sgt a b then a else b)"

definition ap_zext :: "apint \<Rightarrow> nat \<Rightarrow> apint" where
  "ap_zext a w = mk_apint w (ival a)"

definition ap_trunc :: "apint \<Rightarrow> nat \<Rightarrow> apint" where
  "ap_trunc a w = mk_apint w (ival a)"

definition ap_sext :: "apint \<Rightarrow> nat \<Rightarrow> apint" where
  "ap_sext a w = of_sval w (sval a)"

fun bit_length :: "nat \<Rightarrow> nat" where
  "bit_length n = (if n = 0 then 0 else Suc (bit_length (n div 2)))"

declare bit_length.simps [simp del]

definition ap_clz :: "apint \<Rightarrow> nat" where
  "ap_clz a = bitWidth a - bit_length (ival a)"

section \<open>The laws the clients use\<close>

lemma bitWidth_simps [simp]:
  "bitWidth (mk_apint w v) = w" "bitWidth (of_sval w i) = w" "bitWidth (getMaxValue w) = w"
  "bitWidth (getMinValue w) = w" "bitWidth (getSignedMaxValue w) = w" "bitWidth (getSignedMinValue w) = w"
  "bitWidth (getOneBitSet w n) = w" "bitWidth (getHighBitsSet w n) = w" "bitWidth (getLowBitsSet w n) = w"
  "bitWidth (ap_add a b) = bitWidth a" "bitWidth (ap_sub a b) = bitWidth a" "bitWidth (ap_mul a b) = bitWidth a"
  "bitWidth (ap_inc a) = bitWidth a" "bitWidth (ap_dec a) = bitWidth a" "bitWidth (ap_udiv a b) = bitWidth a"
  "bitWidth (ap_urem a b) = bitWidth a" "bitWidth (ap_and a b) = bitWidth a" "bitWidth (ap_or a b) = bitWidth a"
  "bitWidth (ap_shl a b) = bitWidth a" "bitWidth (ap_lshr a b) = bitWidth a"
  "bitWidth (ap_zext a w) = w" "bitWidth (ap_trunc a w) = w" "bitWidth (ap_sext a w) = w"
  by (simp_all add: mk_apint_def of_sval_def getMaxValue_def getMinValue_def getSignedMaxValue_def
    getSignedMinValue_def getOneBitSet_def getHighBitsSet_def getLowBitsSet_def ap_add_def ap_sub_def
    ap_mul_def ap_inc_def ap_dec_def ap_udiv_def ap_urem_def ap_and_def ap_or_def ap_shl_def ap_lshr_def
    ap_zext_def ap_trunc_def ap_sext_def)

lemma ival_mk [simp]: "ival (mk_apint w v) = v mod 2 ^ w"
  by (simp add: mk_apint_def)

lemma mk_ival [simp]: "ival a < 2 ^ w \<Longrightarrow> bitWidth a = w \<Longrightarrow> mk_apint w (ival a) = a"
  by (simp add: mk_apint_def)

lemma apint_eq_iff: "(a :: apint) = b \<longleftrightarrow> bitWidth a = bitWidth b \<and> ival a = ival b"
  by auto

lemma wf_mk [simp]: "wf_apint w (mk_apint w v) \<longleftrightarrow> 0 < w"
  by (simp add: wf_apint_def)

lemma ival_less: "wf_apint w a \<Longrightarrow> ival a < 2 ^ w"
  by (simp add: wf_apint_def)

lemma wf_bitWidth: "wf_apint w a \<Longrightarrow> bitWidth a = w"
  by (simp add: wf_apint_def)

lemma ival_consts:
  "ival (getMaxValue w) = 2 ^ w - 1" "ival (getMinValue w) = 0"
  "0 < w \<Longrightarrow> ival (getSignedMaxValue w) = 2 ^ (w - 1) - 1"
  "0 < w \<Longrightarrow> ival (getSignedMinValue w) = 2 ^ (w - 1)"
  by (simp_all add: getMaxValue_def getMinValue_def getSignedMaxValue_def getSignedMinValue_def less_imp_diff_less)

text \<open>Wrap-around as a case distinction, which is what linear arithmetic needs.\<close>

lemma add_mod_cases: "a < m \<Longrightarrow> b < m \<Longrightarrow> (a + b) mod m = (if a + b < m then a + b else a + b - m)"
  for a b m :: nat
  by (simp add: mod_if)

lemma sub_mod_cases: "a < m \<Longrightarrow> b < m \<Longrightarrow> (a + (m - b)) mod m = (if b \<le> a then a - b else a + m - b)"
  for a b m :: nat
proof -
  assume a: "a < m" "b < m"
  show "(a + (m - b)) mod m = (if b \<le> a then a - b else a + m - b)"
  proof (cases "b \<le> a")
    case True
    then have "a + (m - b) = (a - b) + m" using a by simp
    then have "(a + (m - b)) mod m = (a - b) mod m" by (metis mod_add_self2)
    with True a show ?thesis by simp
  qed (use a in simp)
qed

lemma ival_add:
  "wf_apint w a \<Longrightarrow> wf_apint w b \<Longrightarrow>
    ival (ap_add a b) = (if ival a + ival b < 2 ^ w then ival a + ival b else ival a + ival b - 2 ^ w)"
  by (simp add: ap_add_def wf_apint_def add_mod_cases)

lemma ival_sub:
  "wf_apint w a \<Longrightarrow> wf_apint w b \<Longrightarrow>
    ival (ap_sub a b) = (if ival b \<le> ival a then ival a - ival b else ival a + 2 ^ w - ival b)"
  using sub_mod_cases [of "ival a" "2 ^ w" "ival b"] by (auto simp only: ap_sub_def wf_apint_def ival_mk)

lemma one_less_exp: "0 < w \<Longrightarrow> 1 < (2 :: nat) ^ w"
  by (rule one_less_power) simp_all

lemma ival_inc: "wf_apint w a \<Longrightarrow> ival (ap_inc a) = (if ival a + 1 < 2 ^ w then ival a + 1 else 0)"
  using ival_add [of w a "mk_apint w 1"] one_less_exp [of w] by (auto simp: ap_inc_def wf_apint_def)

lemma ival_dec: "wf_apint w a \<Longrightarrow> ival (ap_dec a) = (if ival a = 0 then 2 ^ w - 1 else ival a - 1)"
  using ival_sub [of w a "mk_apint w 1"] one_less_exp [of w] by (auto simp: ap_dec_def wf_apint_def)

lemma wf_arith [simp]:
  "wf_apint w a \<Longrightarrow> wf_apint w (ap_add a b)" "wf_apint w a \<Longrightarrow> wf_apint w (ap_sub a b)"
  "wf_apint w a \<Longrightarrow> wf_apint w (ap_mul a b)" "wf_apint w a \<Longrightarrow> wf_apint w (ap_inc a)"
  "wf_apint w a \<Longrightarrow> wf_apint w (ap_dec a)"
  by (simp_all add: wf_apint_def ap_inc_def ap_dec_def ap_add_def ap_sub_def ap_mul_def)

lemma wf_consts [simp]:
  "0 < w \<Longrightarrow> wf_apint w (getMaxValue w)" "0 < w \<Longrightarrow> wf_apint w (getMinValue w)"
  "0 < w \<Longrightarrow> wf_apint w (getSignedMaxValue w)" "0 < w \<Longrightarrow> wf_apint w (getSignedMinValue w)"
  by (simp_all add: wf_apint_def getMaxValue_def getMinValue_def getSignedMaxValue_def getSignedMinValue_def)

text \<open>The two halves of the range of values.\<close>

lemma exp_halves: "0 < w \<Longrightarrow> 2 ^ w = 2 * (2 :: 'a::comm_semiring_1) ^ (w - 1)"
  by (cases w) simp_all

lemma sval_bounds:
  assumes "wf_apint w a"
  shows "- (2 ^ (w - 1)) \<le> sval a" and "sval a < 2 ^ (w - 1)"
proof -
  have a: "bitWidth a = w" "0 < w" "ival a < 2 ^ w" using assms by (auto simp: wf_apint_def)
  have "int (ival a) < 2 ^ w" using a(3) by (metis of_nat_less_iff of_nat_numeral of_nat_power)
  then show "- (2 ^ (w - 1)) \<le> sval a" "sval a < 2 ^ (w - 1)"
    using exp_halves [OF a(2), where 'a = int] of_nat_less_iff [of "ival a" "2 ^ (w - 1)", where 'a = int]
    by (auto simp: sval_def a(1) not_less) (metis not_less of_nat_le_iff of_nat_numeral of_nat_power)?
qed

lemma bit_length_bounds: "n < 2 ^ bit_length n" "0 < n \<Longrightarrow> 2 ^ (bit_length n - 1) \<le> n"
proof (induction n rule: bit_length.induct)
  case (1 n)
  {
    case 1
    with "1.IH"(1) show ?case by (cases "n = 0") (auto simp: bit_length.simps [of n])
  next
    case 2
    show ?case
    proof (cases "n div 2 = 0")
      case True
      with 2 show ?thesis by (auto simp: bit_length.simps [of n] bit_length.simps [of 0] True)
    next
      case False
      then have "2 ^ (bit_length (n div 2) - 1) \<le> n div 2" "bit_length (n div 2) \<noteq> 0"
        using "1.IH"(2) 2 by (auto simp: bit_length.simps [of "n div 2"])
      then have "2 ^ bit_length (n div 2) \<le> 2 * (n div 2)"
        by (cases "bit_length (n div 2)") auto
      then show ?thesis using 2 by (simp add: bit_length.simps [of n])
    qed
  }
qed

text \<open>Values modulo the width, read with a sign.\<close>

lemma ival_mod_sval: "int (ival a) mod 2 ^ w = sval a mod 2 ^ w" if "bitWidth a = w"
  using that by (simp add: sval_def)

lemma sval_of_sval:
  assumes "0 < w" "- (2 ^ (w - 1)) \<le> v" "v < 2 ^ (w - 1)"
  shows "sval (of_sval w v) = v" and "wf_apint w (of_sval w v)"
proof -
  define h where "h = (2 :: int) ^ (w - 1)"
  have m: "(2 :: int) ^ w = 2 * h" "0 < h" using exp_halves [OF assms(1), where 'a = int] by (simp_all add: h_def)
  have b: "- h \<le> v" "v < h" using assms by (simp_all add: h_def)
  have r: "v mod 2 ^ w = (if 0 \<le> v then v else v + 2 * h)"
  proof (cases "0 \<le> v")
    case True
    then show ?thesis using b m by (simp add: mod_pos_pos_trivial)
  next
    case False
    have "v mod 2 ^ w = (v + 2 * h) mod (2 * h)" by (simp add: m)
    also have "\<dots> = v + 2 * h" by (rule mod_pos_pos_trivial) (use False b m in auto)
    finally show ?thesis using False by simp
  qed
  have nn: "0 \<le> v mod 2 ^ w" by simp
  have iv: "int (ival (of_sval w v)) = (if 0 \<le> v then v else v + 2 * h)"
    using nn by (simp add: of_sval_def r)
  have "ival (of_sval w v) < 2 ^ (w - 1) \<longleftrightarrow> int (ival (of_sval w v)) < h"
    by (metis h_def of_nat_less_iff of_nat_numeral of_nat_power)
  then show "sval (of_sval w v) = v" using iv b m by (auto simp: sval_def)
  have "int (ival (of_sval w v)) < 2 ^ w" using iv b m by auto
  then have "ival (of_sval w v) < 2 ^ w" by (metis of_nat_less_iff of_nat_numeral of_nat_power)
  with assms(1) show "wf_apint w (of_sval w v)" by (simp add: wf_apint_def)
qed

lemma ap_mul_sval: "bitWidth a = w \<Longrightarrow> bitWidth b = w \<Longrightarrow> ap_mul a b = of_sval w (sval a * sval b)"
proof -
  assume w: "bitWidth a = w" "bitWidth b = w"
  have "int (ival a * ival b mod 2 ^ w) = (int (ival a) mod 2 ^ w) * (int (ival b) mod 2 ^ w) mod 2 ^ w"
    by (simp add: zmod_int mod_mult_eq)
  also have "\<dots> = (sval a * sval b) mod 2 ^ w"
    unfolding ival_mod_sval [OF w(1)] ival_mod_sval [OF w(2)] by (simp add: mod_mult_eq)
  finally have "nat ((sval a * sval b) mod 2 ^ w) = ival a * ival b mod 2 ^ w" by (metis nat_int)
  then show ?thesis by (simp add: ap_mul_def of_sval_def mk_apint_def w)
qed

end
