(* ===== verification/APIntRep.thy ===== *)
theory APIntRep
  imports BigNum APIntSpec "HOL-Library.Monad_Syntax"
begin

text \<open>
  The class \<open>APInt\<close> itself (\<open>include/llvm/ADT/APInt.h\<close>, \<open>lib/Support/APInt.cpp\<close>): a width and 64-bit words,
  with the single word case apart from the word loops of the \<open>SlowCase\<close> functions.

  The union of \<open>VAL\<close> and \<open>pVal\<close> is a list of words, least significant first: \<open>VAL\<close> is the first word of a value of
  at most 64 bits. A member function that changes the object returns the new one. \<open>None\<close> is a failed assertion. The
  constructor's assertion that the width is not zero is tested where the width is an argument (\<open>APInt_of\<close>); where a
  member function constructs a value of its own width, \<open>construct\<close> is the constructor's body. Widths and bit positions
  stay far below \<open>2 ^ 32\<close>, so the \<open>unsigned\<close> counters are natural numbers.

  \<open>wf_rep\<close> is the invariant of the class, with the bits above the width clear; \<open>abs_apint\<close> is the value in
  \<open>APIntSpec\<close>.
\<close>

record APInt =
  BitWidth :: nat
  pVal :: "u64 list"

section \<open>Words and bits\<close>

definition getNumWords :: "nat \<Rightarrow> nat" where
  "getNumWords w = (w + 63) div 64"

definition isSingleWord :: "APInt \<Rightarrow> bool" where
  "isSingleWord x \<longleftrightarrow> BitWidth x \<le> 64"

definition VAL :: "APInt \<Rightarrow> u64" where
  "VAL x = pVal x ! 0"

definition whichWord :: "nat \<Rightarrow> nat" where
  "whichWord bitPosition = bitPosition div 64"

definition whichBit :: "nat \<Rightarrow> nat" where
  "whichBit bitPosition = bitPosition mod 64"

definition maskBit :: "nat \<Rightarrow> u64" where
  "maskBit bitPosition = push_bit (whichBit bitPosition) 1"

definition clearUnusedBits :: "APInt \<Rightarrow> APInt" where
  "clearUnusedBits x =
    (let wordBits = BitWidth x mod 64 in
     if wordBits = 0 then x
     else
       let mask = drop_bit (64 - wordBits) (NOT 0) in
       if isSingleWord x then x\<lparr> pVal := [VAL x AND mask] \<rparr>
       else
         let i = getNumWords (BitWidth x) - 1
         in x\<lparr> pVal := (pVal x)[i := pVal x ! i AND mask] \<rparr>)"

definition getWord :: "APInt \<Rightarrow> nat \<Rightarrow> u64" where
  "getWord x bitPosition = (if isSingleWord x then VAL x else pVal x ! whichWord bitPosition)"

definition getBit :: "APInt \<Rightarrow> nat \<Rightarrow> bool option" where
  "getBit x bitPosition =
    (if bitPosition < BitWidth x
     then Some (maskBit bitPosition AND (if isSingleWord x then VAL x else pVal x ! whichWord bitPosition) \<noteq> 0)
     else None)"

section \<open>Construction and assignment\<close>

definition initSlowCase :: "nat \<Rightarrow> u64 \<Rightarrow> bool \<Rightarrow> u64 list" where
  "initSlowCase numBits val isSigned =
    (let p = (replicate (getNumWords numBits) 0)[0 := val]
     in if isSigned \<and> val <s 0 then for_upto 1 (getNumWords numBits) (\<lambda>i p. p[i := - 1]) p else p)"

definition construct :: "nat \<Rightarrow> u64 \<Rightarrow> bool \<Rightarrow> APInt" where
  "construct numBits val isSigned =
    clearUnusedBits \<lparr> BitWidth = numBits,
      pVal = (if numBits \<le> 64 then [val] else initSlowCase numBits val isSigned) \<rparr>"

definition APInt_of :: "nat \<Rightarrow> u64 \<Rightarrow> bool \<Rightarrow> APInt option" where
  "APInt_of numBits val isSigned = (if numBits = 0 then None else Some (construct numBits val isSigned))"

definition initFromArray :: "nat \<Rightarrow> u64 list \<Rightarrow> APInt option" where
  "initFromArray numBits bigVal =
    (if numBits = 0 \<or> bigVal = [] then None
     else Some (clearUnusedBits \<lparr> BitWidth = numBits,
       pVal = (if numBits \<le> 64 then [bigVal ! 0]
               else let n = getNumWords numBits; words = min (length bigVal) n
                    in take words bigVal @ drop words (replicate n 0)) \<rparr>))"

definition assign_u64 :: "APInt \<Rightarrow> u64 \<Rightarrow> APInt" where
  "assign_u64 x RHS =
    clearUnusedBits (x\<lparr> pVal :=
      (if isSingleWord x then [RHS]
       else for_upto 1 (getNumWords (BitWidth x)) (\<lambda>i p. p[i := 0]) ((pVal x)[0 := RHS])) \<rparr>)"

definition clearAllBits :: "APInt \<Rightarrow> APInt" where
  "clearAllBits x = x\<lparr> pVal := (if isSingleWord x then [0] else replicate (getNumWords (BitWidth x)) 0) \<rparr>"

definition setAllBits :: "APInt \<Rightarrow> APInt" where
  "setAllBits x =
    clearUnusedBits (x\<lparr> pVal :=
      (if isSingleWord x then [- 1]
       else for_upto 0 (getNumWords (BitWidth x)) (\<lambda>i p. p[i := - 1]) (pVal x)) \<rparr>)"

definition flipAllBits :: "APInt \<Rightarrow> APInt" where
  "flipAllBits x =
    clearUnusedBits (x\<lparr> pVal :=
      (if isSingleWord x then [VAL x XOR - 1]
       else for_upto 0 (getNumWords (BitWidth x)) (\<lambda>i p. p[i := p ! i XOR - 1]) (pVal x)) \<rparr>)"

definition setBit :: "APInt \<Rightarrow> nat \<Rightarrow> APInt" where
  "setBit x bitPosition =
    (if isSingleWord x then x\<lparr> pVal := [VAL x OR maskBit bitPosition] \<rparr>
     else let i = whichWord bitPosition in x\<lparr> pVal := (pVal x)[i := pVal x ! i OR maskBit bitPosition] \<rparr>)"

definition clearBit :: "APInt \<Rightarrow> nat \<Rightarrow> APInt" where
  "clearBit x bitPosition =
    (if isSingleWord x then x\<lparr> pVal := [VAL x AND NOT (maskBit bitPosition)] \<rparr>
     else let i = whichWord bitPosition in x\<lparr> pVal := (pVal x)[i := pVal x ! i AND NOT (maskBit bitPosition)] \<rparr>)"

definition flipBit :: "APInt \<Rightarrow> nat \<Rightarrow> APInt option" where
  "flipBit x bitPosition =
    map_option (\<lambda>b. if b then clearBit x bitPosition else setBit x bitPosition) (getBit x bitPosition)"

section \<open>Addition and subtraction\<close>

text \<open>The digit loops. \<open>add_1\<close> and \<open>sub_1\<close> leave early; the result is the array and the carry or borrow.\<close>

function add_1 :: "u64 list \<Rightarrow> u64 list \<Rightarrow> nat \<Rightarrow> u64 \<Rightarrow> nat \<Rightarrow> u64 list \<times> bool" where
  "add_1 dest x len y i =
    (if i < len then
       let dest = dest[i := y + x ! i]
       in if dest ! i < y then add_1 dest x len 1 (Suc i) else (dest, False)
     else (dest, y \<noteq> 0))"
  by pat_completeness auto
termination by (relation "measure (\<lambda>(dest, x, len, y, i). len - i)") auto

function sub_1 :: "u64 list \<Rightarrow> nat \<Rightarrow> u64 \<Rightarrow> nat \<Rightarrow> u64 list \<times> bool" where
  "sub_1 x len y i =
    (if i < len then
       let X = x ! i; x = x[i := x ! i - y]
       in if y > X then sub_1 x len 1 (Suc i) else (x, False)
     else (x, y \<noteq> 0))"
  by pat_completeness auto
termination by (relation "measure (\<lambda>(x, len, y, i). len - i)") auto

declare add_1.simps [simp del] sub_1.simps [simp del]

definition add_words :: "u64 list \<Rightarrow> u64 list \<Rightarrow> u64 list \<Rightarrow> nat \<Rightarrow> u64 list \<times> bool" where
  "add_words dest x y len =
    for_upto 0 len (\<lambda>i (dest, carry).
      let limit = min (x ! i) (y ! i);
          d = x ! i + y ! i + of_bool carry
      in (dest[i := d], d < limit \<or> carry \<and> d = limit)) (dest, False)"

definition sub_words :: "u64 list \<Rightarrow> u64 list \<Rightarrow> u64 list \<Rightarrow> nat \<Rightarrow> u64 list \<times> bool" where
  "sub_words dest x y len =
    for_upto 0 len (\<lambda>i (dest, borrow).
      let x_tmp = (if borrow then x ! i - 1 else x ! i)
      in (dest[i := x_tmp - y ! i], y ! i > x_tmp \<or> borrow \<and> x ! i = 0)) (dest, False)"

definition op_inc :: "APInt \<Rightarrow> APInt" where
  "op_inc x =
    clearUnusedBits (x\<lparr> pVal := (if isSingleWord x then [VAL x + 1]
                               else fst (add_1 (pVal x) (pVal x) (getNumWords (BitWidth x)) 1 0)) \<rparr>)"

definition op_dec :: "APInt \<Rightarrow> APInt" where
  "op_dec x =
    clearUnusedBits (x\<lparr> pVal := (if isSingleWord x then [VAL x - 1]
                               else fst (sub_1 (pVal x) (getNumWords (BitWidth x)) 1 0)) \<rparr>)"

definition plus_assign :: "APInt \<Rightarrow> APInt \<Rightarrow> APInt option" where
  "plus_assign x RHS =
    (if BitWidth x \<noteq> BitWidth RHS then None
     else Some (clearUnusedBits (x\<lparr> pVal :=
       (if isSingleWord x then [VAL x + VAL RHS]
        else fst (add_words (pVal x) (pVal x) (pVal RHS) (getNumWords (BitWidth x)))) \<rparr>)))"

definition minus_assign :: "APInt \<Rightarrow> APInt \<Rightarrow> APInt option" where
  "minus_assign x RHS =
    (if BitWidth x \<noteq> BitWidth RHS then None
     else Some (clearUnusedBits (x\<lparr> pVal :=
       (if isSingleWord x then [VAL x - VAL RHS]
        else fst (sub_words (pVal x) (pVal x) (pVal RHS) (getNumWords (BitWidth x)))) \<rparr>)))"

definition op_plus :: "APInt \<Rightarrow> APInt \<Rightarrow> APInt option" where
  "op_plus x RHS =
    (if BitWidth x \<noteq> BitWidth RHS then None
     else if isSingleWord x then Some (construct (BitWidth x) (VAL x + VAL RHS) False)
     else let Result = construct (BitWidth x) 0 False
          in Some (clearUnusedBits (Result\<lparr> pVal :=
               fst (add_words (pVal Result) (pVal x) (pVal RHS) (getNumWords (BitWidth x))) \<rparr>)))"

definition op_minus :: "APInt \<Rightarrow> APInt \<Rightarrow> APInt option" where
  "op_minus x RHS =
    (if BitWidth x \<noteq> BitWidth RHS then None
     else if isSingleWord x then Some (construct (BitWidth x) (VAL x - VAL RHS) False)
     else let Result = construct (BitWidth x) 0 False
          in Some (clearUnusedBits (Result\<lparr> pVal :=
               fst (sub_words (pVal Result) (pVal x) (pVal RHS) (getNumWords (BitWidth x))) \<rparr>)))"

definition op_neg :: "APInt \<Rightarrow> APInt option" where
  "op_neg x = op_minus (construct (BitWidth x) 0 False) x"

section \<open>Bitwise operations\<close>

definition bitwise_words :: "(u64 \<Rightarrow> u64 \<Rightarrow> u64) \<Rightarrow> u64 list \<Rightarrow> u64 list \<Rightarrow> u64 list \<Rightarrow> nat \<Rightarrow> u64 list" where
  "bitwise_words f val x y numWords = for_upto 0 numWords (\<lambda>i val. val[i := f (x ! i) (y ! i)]) val"

definition and_assign :: "APInt \<Rightarrow> APInt \<Rightarrow> APInt option" where
  "and_assign x RHS =
    (if BitWidth x \<noteq> BitWidth RHS then None
     else if isSingleWord x then Some (x\<lparr> pVal := [VAL x AND VAL RHS] \<rparr>)
     else Some (x\<lparr> pVal := bitwise_words (AND) (pVal x) (pVal x) (pVal RHS) (getNumWords (BitWidth x)) \<rparr>))"

definition or_assign :: "APInt \<Rightarrow> APInt \<Rightarrow> APInt option" where
  "or_assign x RHS =
    (if BitWidth x \<noteq> BitWidth RHS then None
     else if isSingleWord x then Some (x\<lparr> pVal := [VAL x OR VAL RHS] \<rparr>)
     else Some (x\<lparr> pVal := bitwise_words (OR) (pVal x) (pVal x) (pVal RHS) (getNumWords (BitWidth x)) \<rparr>))"

definition xor_assign :: "APInt \<Rightarrow> APInt \<Rightarrow> APInt option" where
  "xor_assign x RHS =
    (if BitWidth x \<noteq> BitWidth RHS then None
     else if isSingleWord x then Some (clearUnusedBits (x\<lparr> pVal := [VAL x XOR VAL RHS] \<rparr>))
     else Some (clearUnusedBits (x\<lparr> pVal :=
            bitwise_words (XOR) (pVal x) (pVal x) (pVal RHS) (getNumWords (BitWidth x)) \<rparr>)))"

definition AndSlowCase :: "APInt \<Rightarrow> APInt \<Rightarrow> APInt" where
  "AndSlowCase x RHS =
    (let n = getNumWords (BitWidth x)
     in \<lparr> BitWidth = BitWidth x, pVal = bitwise_words (AND) (replicate n 0) (pVal x) (pVal RHS) n \<rparr>)"

definition OrSlowCase :: "APInt \<Rightarrow> APInt \<Rightarrow> APInt" where
  "OrSlowCase x RHS =
    (let n = getNumWords (BitWidth x)
     in \<lparr> BitWidth = BitWidth x, pVal = bitwise_words (OR) (replicate n 0) (pVal x) (pVal RHS) n \<rparr>)"

definition XorSlowCase :: "APInt \<Rightarrow> APInt \<Rightarrow> APInt" where
  "XorSlowCase x RHS =
    (let n = getNumWords (BitWidth x)
     in clearUnusedBits
          \<lparr> BitWidth = BitWidth x, pVal = bitwise_words (XOR) (replicate n 0) (pVal x) (pVal RHS) n \<rparr>)"

definition op_and :: "APInt \<Rightarrow> APInt \<Rightarrow> APInt option" where
  "op_and x RHS =
    (if BitWidth x \<noteq> BitWidth RHS then None
     else Some (if isSingleWord x then construct (BitWidth x) (VAL x AND VAL RHS) False else AndSlowCase x RHS))"

definition op_or :: "APInt \<Rightarrow> APInt \<Rightarrow> APInt option" where
  "op_or x RHS =
    (if BitWidth x \<noteq> BitWidth RHS then None
     else Some (if isSingleWord x then construct (BitWidth x) (VAL x OR VAL RHS) False else OrSlowCase x RHS))"

definition op_xor :: "APInt \<Rightarrow> APInt \<Rightarrow> APInt option" where
  "op_xor x RHS =
    (if BitWidth x \<noteq> BitWidth RHS then None
     else Some (if isSingleWord x then construct (BitWidth x) (VAL x XOR VAL RHS) False else XorSlowCase x RHS))"

section \<open>Counting\<close>

text \<open>The loops over the words below the most significant one; \<open>i\<close> is the number of words left.\<close>

fun leading_zero_words :: "u64 list \<Rightarrow> nat \<Rightarrow> nat \<Rightarrow> nat" where
  "leading_zero_words p 0 Count = Count"
| "leading_zero_words p (Suc i) Count =
     (if p ! i = 0 then leading_zero_words p i (Count + 64) else Count + countLeadingZeros (p ! i))"

definition countLeadingZerosSlowCase :: "APInt \<Rightarrow> nat" where
  "countLeadingZerosSlowCase x =
    (let BitsInMSW = BitWidth x mod 64;
         MSWMask = (if BitsInMSW \<noteq> 0 then push_bit BitsInMSW 1 - 1 else NOT 0);
         BitsInMSW = (if BitsInMSW \<noteq> 0 then BitsInMSW else 64);
         i = getNumWords (BitWidth x);
         MSW = pVal x ! (i - 1) AND MSWMask
     in if MSW \<noteq> 0 then countLeadingZeros MSW - (64 - BitsInMSW)
        else leading_zero_words (pVal x) (i - 1) BitsInMSW)"

definition countLeadingZeros_rep :: "APInt \<Rightarrow> nat" where
  "countLeadingZeros_rep x =
    (if isSingleWord x then countLeadingZeros (VAL x) - (64 - BitWidth x) else countLeadingZerosSlowCase x)"

fun leading_one_words :: "u64 list \<Rightarrow> nat \<Rightarrow> nat \<Rightarrow> nat" where
  "leading_one_words p 0 Count = Count"
| "leading_one_words p (Suc i) Count =
     (if p ! i = - 1 then leading_one_words p i (Count + 64) else Count + countLeadingOnes (p ! i))"

definition countLeadingOnes_rep :: "APInt \<Rightarrow> nat" where
  "countLeadingOnes_rep x =
    (if isSingleWord x then countLeadingOnes (push_bit (64 - BitWidth x) (VAL x))
     else
       let highWordBits = BitWidth x mod 64;
           shift = (if highWordBits = 0 then 0 else 64 - highWordBits);
           highWordBits = (if highWordBits = 0 then 64 else highWordBits);
           i = getNumWords (BitWidth x) - 1;
           Count = countLeadingOnes (push_bit shift (pVal x ! i))
       in if Count = highWordBits then leading_one_words (pVal x) i Count else Count)"

function trailing_words :: "u64 \<Rightarrow> (u64 \<Rightarrow> nat) \<Rightarrow> u64 list \<Rightarrow> nat \<Rightarrow> nat \<Rightarrow> nat \<Rightarrow> nat" where
  "trailing_words full count p n i Count =
    (if i < n then
       if p ! i = full then trailing_words full count p n (Suc i) (Count + 64) else Count + count (p ! i)
     else Count)"
  by pat_completeness auto
termination by (relation "measure (\<lambda>(full, count, p, n, i, Count). n - i)") auto

declare trailing_words.simps [simp del]

definition countTrailingZeros_rep :: "APInt \<Rightarrow> nat" where
  "countTrailingZeros_rep x =
    (if isSingleWord x then min (countTrailingZeros (VAL x)) (BitWidth x)
     else min (trailing_words 0 countTrailingZeros (pVal x) (getNumWords (BitWidth x)) 0 0) (BitWidth x))"

definition countTrailingOnesSlowCase :: "APInt \<Rightarrow> nat" where
  "countTrailingOnesSlowCase x =
    min (trailing_words (- 1) countTrailingOnes (pVal x) (getNumWords (BitWidth x)) 0 0) (BitWidth x)"

definition countTrailingOnes_rep :: "APInt \<Rightarrow> nat" where
  "countTrailingOnes_rep x =
    (if isSingleWord x then countTrailingOnes (VAL x) else countTrailingOnesSlowCase x)"

definition getActiveBits :: "APInt \<Rightarrow> nat" where
  "getActiveBits x = BitWidth x - countLeadingZeros_rep x"

definition isNegative_rep :: "APInt \<Rightarrow> bool" where
  "isNegative_rep x \<longleftrightarrow> getBit x (BitWidth x - 1) = Some True"

definition getMinSignedBits :: "APInt \<Rightarrow> nat" where
  "getMinSignedBits x =
    (if isNegative_rep x then BitWidth x - countLeadingOnes_rep x + 1 else getActiveBits x + 1)"

definition getZExtValue :: "APInt \<Rightarrow> u64 option" where
  "getZExtValue x =
    (if isSingleWord x then Some (VAL x) else if getActiveBits x \<le> 64 then Some (pVal x ! 0) else None)"

definition getSExtValue :: "APInt \<Rightarrow> u64 option" where
  "getSExtValue x =
    (if isSingleWord x then Some (signed_drop_bit (64 - BitWidth x) (push_bit (64 - BitWidth x) (VAL x)))
     else if getMinSignedBits x \<le> 64 then Some (pVal x ! 0) else None)"

definition getLimitedValue :: "APInt \<Rightarrow> u64 \<Rightarrow> u64" where
  "getLimitedValue x Limit =
    (if getActiveBits x > 64 then Limit
     else case getZExtValue x of None \<Rightarrow> Limit | Some v \<Rightarrow> if v > Limit then Limit else v)"

section \<open>Comparison\<close>

fun words_eq :: "u64 list \<Rightarrow> u64 list \<Rightarrow> nat \<Rightarrow> bool" where
  "words_eq p q 0 = True"
| "words_eq p q (Suc i) = (if p ! i \<noteq> q ! i then False else words_eq p q i)"

definition EqualSlowCase :: "APInt \<Rightarrow> APInt \<Rightarrow> bool" where
  "EqualSlowCase x RHS =
    (let n1 = getActiveBits x; n2 = getActiveBits RHS
     in if n1 \<noteq> n2 then False
        else if n1 \<le> 64 then pVal x ! 0 = pVal RHS ! 0
        else words_eq (pVal x) (pVal RHS) (whichWord (n1 - 1) + 1))"

definition EqualSlowCase_u64 :: "APInt \<Rightarrow> u64 \<Rightarrow> bool" where
  "EqualSlowCase_u64 x Val = (if getActiveBits x \<le> 64 then pVal x ! 0 = Val else False)"

definition op_eq :: "APInt \<Rightarrow> APInt \<Rightarrow> bool option" where
  "op_eq x RHS =
    (if BitWidth x \<noteq> BitWidth RHS then None
     else Some (if isSingleWord x then VAL x = VAL RHS else EqualSlowCase x RHS))"

definition op_eq_u64 :: "APInt \<Rightarrow> u64 \<Rightarrow> bool" where
  "op_eq_u64 x Val = (if isSingleWord x then VAL x = Val else EqualSlowCase_u64 x Val)"

definition op_not :: "APInt \<Rightarrow> bool" where
  "op_not x =
    (if isSingleWord x then VAL x = 0 else list_all (\<lambda>i. pVal x ! i = 0) [0..<getNumWords (BitWidth x)])"

fun words_less :: "u64 list \<Rightarrow> u64 list \<Rightarrow> nat \<Rightarrow> bool" where
  "words_less p q 0 = False"
| "words_less p q (Suc i) = (if p ! i > q ! i then False else if p ! i < q ! i then True else words_less p q i)"

definition ult_rep :: "APInt \<Rightarrow> APInt \<Rightarrow> bool option" where
  "ult_rep x RHS =
    (if BitWidth x \<noteq> BitWidth RHS then None
     else if isSingleWord x then Some (VAL x < VAL RHS)
     else
       let n1 = getActiveBits x; n2 = getActiveBits RHS
       in Some (if n1 < n2 then True
                else if n2 < n1 then False
                else if n1 \<le> 64 \<and> n2 \<le> 64 then pVal x ! 0 < pVal RHS ! 0
                else words_less (pVal x) (pVal RHS) (whichWord (max n1 n2 - 1) + 1)))"

definition ule_rep :: "APInt \<Rightarrow> APInt \<Rightarrow> bool option" where
  "ule_rep x RHS = do { l \<leftarrow> ult_rep x RHS; if l then Some True else op_eq x RHS }"

definition ugt_rep :: "APInt \<Rightarrow> APInt \<Rightarrow> bool option" where
  "ugt_rep x RHS = do { l \<leftarrow> ult_rep x RHS; if l then Some False else map_option Not (op_eq x RHS) }"

definition uge_rep :: "APInt \<Rightarrow> APInt \<Rightarrow> bool option" where
  "uge_rep x RHS = map_option Not (ult_rep x RHS)"

definition slt_rep :: "APInt \<Rightarrow> APInt \<Rightarrow> bool option" where
  "slt_rep x RHS =
    (if BitWidth x \<noteq> BitWidth RHS then None
     else if isSingleWord x then
       let sh = 64 - BitWidth x;
           lhsSext = signed_drop_bit sh (push_bit sh (VAL x));
           rhsSext = signed_drop_bit sh (push_bit sh (VAL RHS))
       in Some (lhsSext <s rhsSext)
     else
       let lhsNeg = isNegative_rep x;
           rhsNeg = isNegative_rep RHS;
           lhs = (if lhsNeg then op_inc (flipAllBits x) else x);
           rhs = (if rhsNeg then op_inc (flipAllBits RHS) else RHS)
       in if lhsNeg then if rhsNeg then ugt_rep lhs rhs else Some True
          else if rhsNeg then Some False
          else ult_rep lhs rhs)"

definition sle_rep :: "APInt \<Rightarrow> APInt \<Rightarrow> bool option" where
  "sle_rep x RHS = do { l \<leftarrow> slt_rep x RHS; if l then Some True else op_eq x RHS }"

definition sgt_rep :: "APInt \<Rightarrow> APInt \<Rightarrow> bool option" where
  "sgt_rep x RHS = do { l \<leftarrow> slt_rep x RHS; if l then Some False else map_option Not (op_eq x RHS) }"

definition sge_rep :: "APInt \<Rightarrow> APInt \<Rightarrow> bool option" where
  "sge_rep x RHS = map_option Not (slt_rep x RHS)"

section \<open>Changing the width\<close>

text \<open>Memory that the code allocates without clearing it holds zeroes here; every word is written before it is read.
  \<open>(0 - width) % 64\<close> wraps, and is the number of unused bits of the last word.\<close>

definition trunc :: "APInt \<Rightarrow> nat \<Rightarrow> APInt option" where
  "trunc x width =
    (if \<not> width < BitWidth x \<or> width = 0 then None
     else if width \<le> 64 then Some (construct width (pVal x ! 0) False)
     else
       let p = for_upto 0 (width div 64) (\<lambda>i p. p[i := pVal x ! i]) (replicate (getNumWords width) 0);
           i = width div 64;
           bits = (64 - width mod 64) mod 64;
           p = (if bits \<noteq> 0 then p[i := drop_bit bits (push_bit bits (pVal x ! i))] else p)
       in Some \<lparr> BitWidth = width, pVal = p \<rparr>)"

definition sext :: "APInt \<Rightarrow> nat \<Rightarrow> APInt option" where
  "sext x width =
    (if \<not> width > BitWidth x then None
     else if width \<le> 64 then
       let val = push_bit (64 - BitWidth x) (VAL x);
           val = signed_drop_bit (width - BitWidth x) val
       in Some (construct width (drop_bit (64 - width) val) False)
     else
       let (p, word) = for_upto 0 (BitWidth x div 64) (\<lambda>i (p, word). (p[i := pVal x ! i], pVal x ! i))
                         (replicate (getNumWords width) 0, 0);
           i = BitWidth x div 64;
           bits = (64 - BitWidth x mod 64) mod 64;
           word = (if bits \<noteq> 0 then signed_drop_bit bits (push_bit bits (pVal x ! i))
                   else signed_drop_bit 63 word);
           (p, word) = for_upto i (width div 64) (\<lambda>i (p, word). (p[i := word], signed_drop_bit 63 word)) (p, word);
           bits = (64 - width mod 64) mod 64;
           p = (if bits \<noteq> 0 then p[width div 64 := drop_bit bits (push_bit bits word)] else p)
       in Some \<lparr> BitWidth = width, pVal = p \<rparr>)"

definition zext :: "APInt \<Rightarrow> nat \<Rightarrow> APInt option" where
  "zext x width =
    (if \<not> width > BitWidth x then None
     else if width \<le> 64 then Some (construct width (VAL x) False)
     else
       let n = getNumWords (BitWidth x);
           p = for_upto 0 n (\<lambda>i p. p[i := pVal x ! i]) (replicate (getNumWords width) 0);
           p = for_upto n (getNumWords width) (\<lambda>i p. p[i := 0]) p
       in Some \<lparr> BitWidth = width, pVal = p \<rparr>)"

definition zextOrTrunc_rep :: "APInt \<Rightarrow> nat \<Rightarrow> APInt option" where
  "zextOrTrunc_rep x width =
    (if BitWidth x < width then zext x width else if BitWidth x > width then trunc x width else Some x)"

definition sextOrTrunc_rep :: "APInt \<Rightarrow> nat \<Rightarrow> APInt option" where
  "sextOrTrunc_rep x width =
    (if BitWidth x < width then sext x width else if BitWidth x > width then trunc x width else Some x)"

section \<open>Shifts\<close>

text \<open>\<open>lshrNear\<close>, from the top word down; \<open>I\<close> words are left.\<close>

fun lshrNear :: "u64 list \<Rightarrow> u64 list \<Rightarrow> nat \<Rightarrow> nat \<Rightarrow> u64 \<Rightarrow> u64 list" where
  "lshrNear Dst Src 0 Shift Carry = Dst"
| "lshrNear Dst Src (Suc I) Shift Carry =
     (let Tmp = Src ! I
      in lshrNear (Dst[I := drop_bit Shift Tmp OR Carry]) Src I Shift (push_bit (64 - Shift) Tmp))"

definition lshr :: "APInt \<Rightarrow> nat \<Rightarrow> APInt" where
  "lshr x shiftAmt =
    (let w = BitWidth x; n = getNumWords w in
     if isSingleWord x then
       if shiftAmt \<ge> w then construct w 0 False else construct w (drop_bit shiftAmt (VAL x)) False
     else if shiftAmt \<ge> w then construct w 0 False
     else if shiftAmt = 0 then x
     else if shiftAmt < 64 then
       clearUnusedBits \<lparr> BitWidth = w, pVal = lshrNear (replicate n 0) (pVal x) n shiftAmt 0 \<rparr>
     else
       let wordShift = shiftAmt mod 64; offset = shiftAmt div 64; val = replicate n 0
       in if wordShift = 0 then
            let val = for_upto 0 (n - offset) (\<lambda>i val. val[i := pVal x ! (i + offset)]) val;
                val = for_upto (n - offset) n (\<lambda>i val. val[i := 0]) val
            in clearUnusedBits \<lparr> BitWidth = w, pVal = val \<rparr>
          else
            let breakWord = n - offset - 1;
                val = for_upto 0 breakWord (\<lambda>i val. val[i :=
                        drop_bit wordShift (pVal x ! (i + offset)) OR
                        push_bit (64 - wordShift) (pVal x ! (i + offset + 1))]) val;
                val = val[breakWord := drop_bit wordShift (pVal x ! (breakWord + offset))];
                val = for_upto (breakWord + 1) n (\<lambda>i val. val[i := 0]) val
            in clearUnusedBits \<lparr> BitWidth = w, pVal = val \<rparr>)"

definition ashr :: "APInt \<Rightarrow> nat \<Rightarrow> APInt option" where
  "ashr x shiftAmt =
    (let w = BitWidth x; n = getNumWords w in
     if \<not> shiftAmt \<le> w then None
     else if shiftAmt = 0 then Some x
     else if isSingleWord x then
       if shiftAmt = w then Some (construct w 0 False)
       else let SignBit = 64 - w
            in Some (construct w (signed_drop_bit shiftAmt (signed_drop_bit SignBit (push_bit SignBit (VAL x)))) False)
     else if shiftAmt = w then Some (if isNegative_rep x then construct w (- 1) True else construct w 0 False)
     else
       let val = replicate n 0;
           wordShift = shiftAmt mod 64; offset = shiftAmt div 64;
           breakWord = n - 1 - offset;
           bitsInWord = whichBit w;
           bitsInWord = (if bitsInWord = 0 then 64 else bitsInWord);
           val =
             (if wordShift = 0 then
                let val = for_upto 0 (breakWord + 1) (\<lambda>i val. val[i := pVal x ! (i + offset)]) val
                in if isNegative_rep x \<and> bitsInWord < 64
                   then val[breakWord := val ! breakWord OR push_bit bitsInWord (NOT 0)] else val
              else
                let val = for_upto 0 breakWord (\<lambda>i val. val[i :=
                            drop_bit wordShift (pVal x ! (i + offset)) OR
                            push_bit (64 - wordShift) (pVal x ! (i + offset + 1))]) val;
                    val = val[breakWord := drop_bit wordShift (pVal x ! (breakWord + offset))]
                in if isNegative_rep x then
                     if wordShift > bitsInWord then
                       let val = (if breakWord > 0
                                  then val[breakWord - 1 := val ! (breakWord - 1) OR
                                         push_bit (64 - (wordShift - bitsInWord)) (NOT 0)]
                                  else val)
                       in val[breakWord := val ! breakWord OR NOT 0]
                     else val[breakWord := val ! breakWord OR push_bit (bitsInWord - wordShift) (NOT 0)]
                   else val);
           fillValue = (if isNegative_rep x then - 1 else 0);
           val = for_upto (breakWord + 1) n (\<lambda>i val. val[i := fillValue]) val
       in Some (clearUnusedBits \<lparr> BitWidth = w, pVal = val \<rparr>))"

text \<open>The loop that shifts by less than a word carries the bits into the next word.\<close>

definition shl_near :: "u64 list \<Rightarrow> nat \<Rightarrow> nat \<Rightarrow> u64 list" where
  "shl_near p n shiftAmt =
    fst (for_upto 0 n (\<lambda>i (val, carry).
      (val[i := push_bit shiftAmt (p ! i) OR carry], drop_bit (64 - shiftAmt) (p ! i))) (replicate n 0, 0))"

text \<open>The words above \<open>offset\<close>, written from the top down; \<open>i\<close> is the index of the code.\<close>

fun shl_down :: "u64 list \<Rightarrow> nat \<Rightarrow> nat \<Rightarrow> nat \<Rightarrow> u64 list \<Rightarrow> u64 list" where
  "shl_down p offset wordShift 0 val = val"
| "shl_down p offset wordShift (Suc i) val =
     (if Suc i > offset then
        shl_down p offset wordShift i (val[Suc i :=
          push_bit wordShift (p ! (Suc i - offset)) OR drop_bit (64 - wordShift) (p ! (Suc i - offset - 1))])
      else val)"

definition shlSlowCase :: "APInt \<Rightarrow> nat \<Rightarrow> APInt" where
  "shlSlowCase x shiftAmt =
    (let w = BitWidth x; n = getNumWords w in
     if shiftAmt = w then construct w 0 False
     else if shiftAmt = 0 then x
     else if shiftAmt < 64 then clearUnusedBits \<lparr> BitWidth = w, pVal = shl_near (pVal x) n shiftAmt \<rparr>
     else
       let wordShift = shiftAmt mod 64; offset = shiftAmt div 64; val = replicate n 0
       in if wordShift = 0 then
            let val = for_upto 0 offset (\<lambda>i val. val[i := 0]) val;
                val = for_upto offset n (\<lambda>i val. val[i := pVal x ! (i - offset)]) val
            in clearUnusedBits \<lparr> BitWidth = w, pVal = val \<rparr>
          else
            let val = shl_down (pVal x) offset wordShift (n - 1) val;
                val = val[offset := push_bit wordShift (pVal x ! 0)];
                val = for_upto 0 offset (\<lambda>i val. val[i := 0]) val
            in clearUnusedBits \<lparr> BitWidth = w, pVal = val \<rparr>)"

definition shl :: "APInt \<Rightarrow> nat \<Rightarrow> APInt option" where
  "shl x shiftAmt =
    (if \<not> shiftAmt \<le> BitWidth x then None
     else if isSingleWord x then
       if shiftAmt \<ge> BitWidth x then Some (construct (BitWidth x) 0 False)
       else Some (construct (BitWidth x) (push_bit shiftAmt (VAL x)) False)
     else Some (shlSlowCase x shiftAmt))"

definition rotl :: "APInt \<Rightarrow> nat \<Rightarrow> APInt option" where
  "rotl x rotateAmt =
    (let rotateAmt = rotateAmt mod BitWidth x in
     if rotateAmt = 0 then Some x
     else do { l \<leftarrow> shl x rotateAmt; op_or l (lshr x (BitWidth x - rotateAmt)) })"

definition rotr :: "APInt \<Rightarrow> nat \<Rightarrow> APInt option" where
  "rotr x rotateAmt =
    (let rotateAmt = rotateAmt mod BitWidth x in
     if rotateAmt = 0 then Some x
     else do { l \<leftarrow> shl x (BitWidth x - rotateAmt); op_or (lshr x rotateAmt) l })"

section \<open>The invariant and the value\<close>

definition wf_rep :: "APInt \<Rightarrow> bool" where
  "wf_rep x \<longleftrightarrow> 0 < BitWidth x \<and> length (pVal x) = getNumWords (BitWidth x) \<and>
     bval (pVal x) (getNumWords (BitWidth x)) < 2 ^ BitWidth x"

definition abs_apint :: "APInt \<Rightarrow> apint" where
  "abs_apint x = \<lparr>bitWidth = BitWidth x, ival = bval (pVal x) (getNumWords (BitWidth x))\<rparr>"

section \<open>Widths and words\<close>

lemma getNumWords_bounds: "w \<le> 64 * getNumWords w" "0 < w \<Longrightarrow> 64 * getNumWords w < w + 64"
  by (simp_all add: getNumWords_def)

lemma getNumWords_pos [simp]: "0 < w \<Longrightarrow> 0 < getNumWords w"
  using getNumWords_bounds(1) [of w] by simp

lemma getNumWords_single: "0 < w \<Longrightarrow> w \<le> 64 \<Longrightarrow> getNumWords w = 1"
  using getNumWords_bounds [of w] by linarith

lemma getNumWords_top: "0 < w \<Longrightarrow> getNumWords w - 1 = (w - 1) div 64"
  by (cases w) (simp_all add: getNumWords_def div_add_self2)

lemma getNumWords_cases:
  obtains (exact) "w mod 64 = 0" "getNumWords w = w div 64" "w = 64 * (w div 64)"
  | (more) "0 < w mod 64" "getNumWords w = Suc (w div 64)"
proof (cases "w mod 64 = 0")
  case True
  then have "w = 64 * (w div 64)" by auto
  moreover from this have "getNumWords w = w div 64" by (simp add: getNumWords_def)
  ultimately show ?thesis using exact True by blast
next
  case False
  moreover have "getNumWords w = Suc (w div 64)"
  proof -
    have "w mod 64 < 64" "0 < w" using False by (simp, cases w) auto
    then show ?thesis
      using False mult_div_mod_eq [of 64 w] getNumWords_bounds [of w] by linarith
  qed
  ultimately show ?thesis using more by blast
qed

lemma exp_dvd_words: "(2 :: nat) ^ w dvd 2 ^ (64 * getNumWords w)"
  by (rule le_imp_power_dvd) (rule getNumWords_bounds)

lemma mod_words: "a mod 2 ^ (64 * getNumWords w) mod 2 ^ w = a mod 2 ^ w" for a :: nat
  by (rule mod_mod_cancel) (rule exp_dvd_words)

lemma mod_low_high: "V < B \<Longrightarrow> (V + a * B) mod (B * m) = V + a mod m * B" for V B :: nat
  by (simp add: mod_mult2_eq)

lemma bval_single: "bval [v] 1 = unat v" "bval [v] (Suc 0) = unat v"
  by (simp_all add: bval_def)

section \<open>Values\<close>

lemma bitWidth_abs [simp]: "bitWidth (abs_apint x) = BitWidth x"
  and ival_abs: "ival (abs_apint x) = bval (pVal x) (getNumWords (BitWidth x))"
  by (simp_all add: abs_apint_def)

lemma wf_repD:
  "wf_rep x \<Longrightarrow> 0 < BitWidth x" "wf_rep x \<Longrightarrow> length (pVal x) = getNumWords (BitWidth x)"
  "wf_rep x \<Longrightarrow> ival (abs_apint x) < 2 ^ BitWidth x"
  by (simp_all add: wf_rep_def ival_abs)

lemma wf_abs: "wf_rep x \<Longrightarrow> wf_apint (BitWidth x) (abs_apint x)"
  by (simp add: wf_rep_def wf_apint_def ival_abs)

lemma single_word:
  assumes "wf_rep x" and "isSingleWord x"
  shows "pVal x = [VAL x]" and "getNumWords (BitWidth x) = 1" and "unat (VAL x) = ival (abs_apint x)"
proof -
  show n: "getNumWords (BitWidth x) = 1"
    using assms getNumWords_single [of "BitWidth x"] by (simp add: wf_rep_def isSingleWord_def)
  with assms show p: "pVal x = [VAL x]" by (cases "pVal x") (auto simp: wf_rep_def VAL_def)
  show "unat (VAL x) = ival (abs_apint x)"
    unfolding ival_abs n p by (simp add: bval_single VAL_def)
qed

text \<open>A value has one representation.\<close>

lemma bval_inject: "bval xs n = bval ys n \<Longrightarrow> i < n \<Longrightarrow> xs ! i = ys ! i"
proof (rule bit_eqI)
  fix b
  assume e: "bval xs n = bval ys n" and i: "i < n" and "possible_bit TYPE(integerPart) b"
  then have b: "b < 64" by simp
  show "bit (xs ! i) b = bit (ys ! i) b"
    using bit_bval_at [OF b, of xs n i] bit_bval_at [OF b, of ys n i] i e by simp
qed

lemma abs_inject: "wf_rep x \<Longrightarrow> wf_rep y \<Longrightarrow> abs_apint x = abs_apint y \<Longrightarrow> x = y"
  by (cases x; cases y) (auto simp: wf_rep_def abs_apint_def intro!: nth_equalityI bval_inject)

text \<open>\<open>clearUnusedBits\<close> reduces the words modulo \<open>2 ^ width\<close>. This is how the operations that compute on whole words
  end.\<close>

lemma clear_pVal:
  assumes "0 < w" and "length p = getNumWords w"
  shows "clearUnusedBits \<lparr>BitWidth = w, pVal = p\<rparr> =
    \<lparr>BitWidth = w, pVal = (if w mod 64 = 0 then p else p[w div 64 := p ! (w div 64) AND mask (w mod 64)])\<rparr>"
proof (cases rule: getNumWords_cases [of w])
  case exact
  then show ?thesis by (simp add: clearUnusedBits_def Let_def)
next
  case more
  have m: "drop_bit (64 - w mod 64) (NOT 0 :: u64) = mask (w mod 64)"
    using lowBitMask_eq [of "w mod 64"] by (simp add: lowBitMask_def)
  show ?thesis
  proof (cases "w \<le> 64")
    case True
    with more have w: "w < 64" "w div 64 = 0" by (auto simp: le_less)
    with assms more obtain v where "p = [v]" by (cases p) auto
    with more m w show ?thesis by (simp add: clearUnusedBits_def Let_def isSingleWord_def VAL_def)
  next
    case False
    with more m show ?thesis by (simp add: clearUnusedBits_def Let_def isSingleWord_def)
  qed
qed

lemma clear_raw:
  assumes "0 < w" and "length p = getNumWords w"
  shows "wf_rep (clearUnusedBits \<lparr>BitWidth = w, pVal = p\<rparr>)"
    and "abs_apint (clearUnusedBits \<lparr>BitWidth = w, pVal = p\<rparr>) = mk_apint w (bval p (getNumWords w))"
proof -
  let ?q = "if w mod 64 = 0 then p else p[w div 64 := p ! (w div 64) AND mask (w mod 64)]"
  have "bval ?q (getNumWords w) = bval p (getNumWords w) mod 2 ^ w"
  proof (cases rule: getNumWords_cases [of w])
    case exact
    then show ?thesis using bval_less [of p "w div 64"] by simp
  next
    case more
    have w: "w = 64 * (w div 64) + w mod 64" by simp
    have ne: "w mod 64 \<noteq> 0" using more(1) by simp
    have u: "unat (p ! (w div 64) AND mask (w mod 64)) = unat (p ! (w div 64)) mod 2 ^ (w mod 64)"
      by (simp only: take_bit_eq_mask [symmetric] unsigned_take_bit_eq) (simp only: take_bit_eq_mod)
    have "bval ?q (getNumWords w) =
        bval p (w div 64) + unat (p ! (w div 64)) mod 2 ^ (w mod 64) * 2 ^ (64 * (w div 64))"
      using more(2) ne assms(2) by (simp add: u bval_Suc)
    also have "\<dots> = bval p (getNumWords w) mod 2 ^ w"
      using mod_low_high [OF bval_less [of p "w div 64"], of _ "2 ^ (w mod 64)"]
      by (simp add: more bval_Suc power_add [symmetric])
    finally show ?thesis .
  qed
  then show "wf_rep (clearUnusedBits \<lparr>BitWidth = w, pVal = p\<rparr>)"
    "abs_apint (clearUnusedBits \<lparr>BitWidth = w, pVal = p\<rparr>) = mk_apint w (bval p (getNumWords w))"
    unfolding clear_pVal [OF assms] using assms by (simp_all add: wf_rep_def abs_apint_def mk_apint_def)
qed

lemma clear_BitWidth [simp]: "BitWidth (clearUnusedBits x) = BitWidth x"
  by (simp add: clearUnusedBits_def Let_def)

section \<open>Construction and assignment\<close>

lemma APInt_update [simp]: "x\<lparr>pVal := p\<rparr> = \<lparr>BitWidth = BitWidth x, pVal = p\<rparr>"
  by (cases x) simp

text \<open>One word: what the inline single word code stores is reduced by the constructor or by
  \<open>clearUnusedBits\<close>.\<close>

lemma clear_single:
  assumes "0 < w" and "w \<le> 64"
  shows "wf_rep (clearUnusedBits \<lparr>BitWidth = w, pVal = [v]\<rparr>)"
    and "abs_apint (clearUnusedBits \<lparr>BitWidth = w, pVal = [v]\<rparr>) = mk_apint w (unat v)"
  using clear_raw [OF assms(1), of "[v]"] getNumWords_single [OF assms] by (simp_all add: bval_single)

lemma construct_unsigned:
  assumes "0 < w"
  shows "wf_rep (construct w v False)" and "abs_apint (construct w v False) = mk_apint w (unat v)"
proof -
  have "bval ((replicate (getNumWords w) 0)[0 := v]) (getNumWords w) = unat v"
    using bval_update [of 0 "getNumWords w" "replicate (getNumWords w) 0" v] assms by simp
  then show "wf_rep (construct w v False)" "abs_apint (construct w v False) = mk_apint w (unat v)"
    using clear_single [OF assms, of v] clear_raw [OF assms, of "(replicate (getNumWords w) 0)[0 := v]"]
    by (simp_all add: construct_def initSlowCase_def)
qed

lemma construct_BitWidth [simp]: "BitWidth (construct w v s) = w"
  by (simp add: construct_def)

lemma bval_fill:
  assumes "1 \<le> n" and "n \<le> length p"
  shows "bval (for_upto 1 n (\<lambda>i p. p[i := - 1]) p) n + 2 ^ 64 = unat (p ! 0) + 2 ^ (64 * n)"
proof -
  let ?R = "for_upto 1 n (\<lambda>i p. p[i := - 1]) p"
  have R: "\<forall>j<length p. ?R ! j = (if 1 \<le> j \<and> j < n then - 1 else p ! j)"
    using for_upto_update [of n p 1 "\<lambda>_ _. - 1"] assms by simp
  have "bval ?R m + 2 ^ 64 = unat (p ! 0) + 2 ^ (64 * m)" if "1 \<le> m" "m \<le> n" for m
    using that
  proof (induction m rule: dec_induct)
    case base
    have "?R ! 0 = p ! 0" using R assms by (cases p) auto
    then show ?case by (simp add: bval_Suc)
  next
    case (step m)
    have "unat (?R ! m) + 1 = 2 ^ 64"
      using R step assms by (simp add: unsigned_minus_1_eq_mask mask_eq_exp_minus_1)
    then have "(unat (?R ! m) + 1) * 2 ^ (64 * m) = 2 ^ (64 * Suc m)" by (simp only: exp_part_Suc)
    then have "unat (?R ! m) * 2 ^ (64 * m) + 2 ^ (64 * m) = 2 ^ (64 * Suc m)" by (simp only: add_mult_distrib mult_1)
    then show ?case using step(3) [OF Suc_leD [OF step(4)]] unfolding bval_Suc by linarith
  qed
  from this [OF assms(1)] show ?thesis by simp
qed

lemma unat_sint: "int (unat v) = sint v + (if v <s 0 then 2 ^ 64 else 0)" for v :: u64
proof -
  have "int (unat v) = sint v mod 2 ^ 64"
    using uint_sint [of v] by (simp add: take_bit_eq_mod)
  moreover have "- (2 ^ 63) \<le> sint v" "sint v < 2 ^ 63" using sint_ge [of v] sint_less [of v] by simp_all
  moreover have "v <s 0 \<longleftrightarrow> sint v < 0" by (simp add: word_sless_alt)
  moreover have "s mod B = s + (if s < 0 then B else 0)" if "- B \<le> s" "s < B" for s B :: int
    using that mod_pos_pos_trivial [of "s + B" B] by simp
  ultimately show ?thesis by simp
qed

lemma construct_signed:
  assumes "0 < w"
  shows "wf_rep (construct w v True)" and "abs_apint (construct w v True) = of_sval w (sint v)"
proof -
  define n where "n = getNumWords w"
  define p where "p = (if w \<le> 64 then [v] else initSlowCase w v True)"
  have n: "0 < n" using assms by (simp add: n_def)
  have len: "length p = n"
    using for_upto_update [of n "(replicate n 0)[0 := v]" 1 "\<lambda>_ _. - 1"] n getNumWords_single [OF assms]
    by (auto simp: p_def initSlowCase_def Let_def n_def [symmetric])
  have s: "int (unat v) = sint v + (if v <s 0 then 2 ^ 64 else 0)"
    by (rule unat_sint)
  obtain k where k: "int (bval p n) = sint v + k * 2 ^ (64 * n)"
  proof (cases "w \<le> 64")
    case True
    then have "bval p n = unat v" using getNumWords_single [OF assms] by (simp add: p_def n_def bval_single)
    moreover have "n = 1" using True getNumWords_single [OF assms] by (simp add: n_def)
    ultimately show ?thesis using s that [of "of_bool (v <s 0)"] by simp
  next
    case False
    let ?z = "(replicate n 0)[0 := v]"
    have z: "bval ?z n = unat v" "?z ! 0 = v"
      using bval_update [of 0 n "replicate n 0" v] n by simp_all
    have p: "p = (if v <s 0 then for_upto 1 n (\<lambda>i p. p[i := - 1]) ?z else ?z)"
      using False by (simp add: p_def initSlowCase_def n_def Let_def)
    have "int (bval (for_upto 1 n (\<lambda>i p. p[i := - 1]) ?z) n) + 2 ^ 64 = int (unat v) + 2 ^ (64 * n)"
      using arg_cong [OF bval_fill [of n ?z], of int] n z(2) by (simp add: Suc_le_eq)
    then have "int (bval p n) = sint v + of_bool (v <s 0) * 2 ^ (64 * n)"
      using s z by (cases "v <s 0") (simp_all add: p del: One_nat_def)
    then show ?thesis by (rule that)
  qed
  have "(2 :: int) ^ w dvd 2 ^ (64 * n)" unfolding n_def by (rule le_imp_power_dvd) (rule getNumWords_bounds)
  then have "int (bval p n) mod 2 ^ w = sint v mod 2 ^ w"
    unfolding k by (metis dvd_mult mod_add_right_eq add.right_neutral dvd_eq_mod_eq_0)
  then have "bval p n mod 2 ^ w = nat (sint v mod 2 ^ w)"
    by (metis nat_int of_nat_mod of_nat_numeral of_nat_power)
  then show "wf_rep (construct w v True)" "abs_apint (construct w v True) = of_sval w (sint v)"
    using clear_raw [OF assms len [unfolded n_def]] by (simp_all add: construct_def p_def [symmetric] n_def [symmetric]
      mk_apint_def of_sval_def)
qed

section \<open>Addition and subtraction\<close>

lemma add_digit:
  fixes x y :: "'a::len word"
  defines "d c \<equiv> x + y + of_bool c"
  shows "unat (d c) + of_bool (d c < min x y \<or> c \<and> d c = min x y) * 2 ^ LENGTH('a) = unat x + unat y + of_bool c"
proof -
  have *: "D + of_bool (D < min X Y \<or> c \<and> D = min X Y) * B = X + Y + of_bool c"
    if "D = (X + Y + of_bool c) mod B" "X < B" "Y < B" for D X Y B :: nat
  proof (cases "X + Y + of_bool c < B")
    case True
    with that(1) have "D = X + Y + of_bool c" by simp
    then show ?thesis by (auto simp: min_def)
  next
    case False
    with that(2,3) have "D + B = X + Y + of_bool c" unfolding that(1) by (subst mod_if) (auto simp: of_bool_def)
    moreover from this that(2,3) have "D < min X Y \<or> c \<and> D = min X Y" by (auto simp: of_bool_def split: if_splits)
    ultimately show ?thesis by simp
  qed
  have "unat (d c) = (unat x + unat y + of_bool c) mod 2 ^ LENGTH('a)"
    by (cases c) (simp_all add: d_def unat_word_ariths mod_simps)
  moreover have "unat (min x y) = min (unat x) (unat y)" by (simp add: min_def word_le_nat_alt)
  moreover have "unat x < 2 ^ LENGTH('a)" "unat y < 2 ^ LENGTH('a)" by (rule unsigned_less)+
  ultimately show ?thesis
    using * [of "unat (d c)" "unat x" "unat y" "2 ^ LENGTH('a)"] by (simp only: word_less_nat_alt word_unat_eq_iff)
qed

lemma add_word_digit:
  fixes x y :: u64
  shows "unat (x + y + of_bool c) + of_bool (x + y + of_bool c < min x y \<or> c \<and> x + y + of_bool c = min x y) * 2 ^ 64 =
    unat x + unat y + of_bool c"
  using add_digit [of x y c] by simp

lemma sub_digit:
  fixes x y :: u64
  defines "t b \<equiv> if b then x - 1 else x"
  shows "unat x + of_bool (y > t b \<or> b \<and> x = 0) * 2 ^ 64 = unat (t b - y) + unat y + of_bool b"
proof (cases "b \<and> x = 0")
  case True
  then show ?thesis using unat_sub_borrow [of "- 1" y]
    by (simp add: t_def unsigned_minus_1_eq_mask mask_eq_exp_minus_1)
next
  case False
  then have "unat x = unat (t b) + of_bool b" using unat_gt_0 [of x] by (auto simp: t_def unat_minus_one)
  moreover have "t b - y > t b \<longleftrightarrow> y > t b"
    using unat_sub_borrow [of "t b" y] unat_sub_if' [of "t b" y] u64_less [of y]
    by (auto simp: word_less_nat_alt word_le_nat_alt split: if_splits)
  ultimately show ?thesis using unat_sub_borrow [of "t b" y] False by auto
qed

text \<open>The two word loops, and the two loops that stop at the first word without a carry.\<close>

definition add_words_inv where
  "add_words_inv dest x y k s \<longleftrightarrow> (case s of (d, c) \<Rightarrow>
     bval d k + of_bool c * 2 ^ (64 * k) = bval x k + bval y k \<and> length d = length dest)"

lemma bval_add_words:
  assumes "n \<le> length dest"
  shows "add_words_inv dest x y n (add_words dest x y n)"
  unfolding add_words_def
proof (rule for_upto_invariant)
  fix k t
  assume k: "k < n" and inv: "add_words_inv dest x y k t"
  obtain d c where t: "t = (d, c)" by (cases t)
  let ?d = "x ! k + y ! k + of_bool c"
  let ?c = "?d < min (x ! k) (y ! k) \<or> c \<and> ?d = min (x ! k) (y ! k)"
  have "bval d k + of_bool c * 2 ^ (64 * k) = bval x k + bval y k + 0" "length d = length dest"
    using inv by (simp_all add: t add_words_inv_def)
  from digit_step_add [OF add_word_digit this(1)] this(2)
  have "add_words_inv dest x y (Suc k) (d[k := ?d], ?c)"
    using k assms unfolding add_words_inv_def prod.case bval_Suc exp_part_Suc by simp
  then show "add_words_inv dest x y (Suc k) (case t of (dest, carry) \<Rightarrow>
      let limit = min (x ! k) (y ! k); d = x ! k + y ! k + of_bool carry
      in (dest[k := d], d < limit \<or> carry \<and> d = limit))"
    by (simp add: t Let_def)
qed (simp_all add: add_words_inv_def)

definition sub_words_inv where
  "sub_words_inv dest x y k s \<longleftrightarrow> (case s of (d, c) \<Rightarrow>
     bval x k + of_bool c * 2 ^ (64 * k) = bval d k + bval y k \<and> length d = length dest)"

lemma bval_sub_words:
  assumes "n \<le> length dest"
  shows "sub_words_inv dest x y n (sub_words dest x y n)"
  unfolding sub_words_def
proof (rule for_upto_invariant)
  fix k t
  assume k: "k < n" and inv: "sub_words_inv dest x y k t"
  obtain d c where t: "t = (d, c)" by (cases t)
  let ?x = "if c then x ! k - 1 else x ! k"
  have "bval x k + of_bool c * 2 ^ (64 * k) = bval d k + bval y k + 0" "length d = length dest"
    using inv by (simp_all add: t sub_words_inv_def)
  from digit_step_sub [OF sub_digit this(1)] this(2)
  have "sub_words_inv dest x y (Suc k) (d[k := ?x - y ! k], y ! k > ?x \<or> c \<and> x ! k = 0)"
    using k assms unfolding sub_words_inv_def prod.case bval_Suc exp_part_Suc by simp
  then show "sub_words_inv dest x y (Suc k) (case t of (dest, borrow) \<Rightarrow>
      let x_tmp = (if borrow then x ! k - 1 else x ! k)
      in (dest[k := x_tmp - y ! k], y ! k > x_tmp \<or> borrow \<and> x ! k = 0))"
    by (simp add: t Let_def)
qed (simp_all add: sub_words_inv_def)

lemma add_1_spec:
  "n \<le> length d \<Longrightarrow> i \<le> n \<Longrightarrow> (\<forall>j. i \<le> j \<longrightarrow> d ! j = x ! j) \<Longrightarrow> add_1 d x n y i = (r, c) \<Longrightarrow>
    length r = length d \<and> (\<exists>k. bval r n + k * 2 ^ (64 * n) = bval d n + unat y * 2 ^ (64 * i))"
proof (induction d x n y i rule: add_1.induct)
  case (1 d x n y i)
  show ?case
  proof (cases "i < n")
    case False
    with "1.prems" have "i = n" "r = d" by (auto simp: add_1.simps [of d x n y n])
    then show ?thesis by auto
  next
    case True
    let ?w = "y + x ! i"
    have upd: "bval (d[i := ?w]) n + unat (d ! i) * 2 ^ (64 * i) = bval d n + unat ?w * 2 ^ (64 * i)"
      using True "1.prems"(1) by (rule bval_update)
    have digit: "unat ?w + of_bool (?w < y) * 2 ^ 64 = unat y + unat (d ! i)"
      using unat_add_carry [of y "x ! i"] "1.prems"(3) by (simp split: if_splits)
    have "(unat ?w + of_bool (?w < y) * 2 ^ 64) * 2 ^ (64 * i) = (unat y + unat (d ! i)) * 2 ^ (64 * i)"
      by (simp only: digit)
    then have bv: "bval (d[i := ?w]) n + of_bool (?w < y) * 2 ^ (64 * Suc i) = bval d n + unat y * 2 ^ (64 * i)"
      using upd unfolding exp_part_Suc add_mult_distrib mult.assoc by linarith
    show ?thesis
    proof (cases "?w < y")
      case False
      with True "1.prems" have "r = d[i := ?w]" by (simp add: add_1.simps [of d x n y i] Let_def)
      with bv False show ?thesis by (auto intro: exI [of _ 0])
    next
      case w: True
      have "add_1 (d[i := ?w]) x n 1 (Suc i) = (r, c)"
        using True w "1.prems" by (simp add: add_1.simps [of d x n y i] Let_def)
      with "1.IH" [OF True refl] w True "1.prems" bv show ?thesis by auto
    qed
  qed
qed

lemma sub_1_spec:
  "n \<le> length x \<Longrightarrow> i \<le> n \<Longrightarrow> sub_1 x n y i = (r, c) \<Longrightarrow>
    length r = length x \<and> (\<exists>k. bval r n + unat y * 2 ^ (64 * i) = bval x n + k * 2 ^ (64 * n))"
proof (induction x n y i rule: sub_1.induct)
  case (1 x n y i)
  show ?case
  proof (cases "i < n")
    case False
    with "1.prems" have "i = n" "r = x" by (auto simp: sub_1.simps [of x n y n])
    then show ?thesis by auto
  next
    case True
    let ?w = "x ! i - y"
    have upd: "bval (x[i := ?w]) n + unat (x ! i) * 2 ^ (64 * i) = bval x n + unat ?w * 2 ^ (64 * i)"
      using True "1.prems"(1) by (rule bval_update)
    have digit: "unat (x ! i) + of_bool (y > x ! i) * 2 ^ 64 = unat ?w + unat y"
      using sub_digit [where x = "x ! i" and y = y and b = False] by simp
    have "(unat (x ! i) + of_bool (y > x ! i) * 2 ^ 64) * 2 ^ (64 * i) = (unat ?w + unat y) * 2 ^ (64 * i)"
      by (simp only: digit)
    then have bv: "bval (x[i := ?w]) n + unat y * 2 ^ (64 * i) = bval x n + of_bool (y > x ! i) * 2 ^ (64 * Suc i)"
      using upd unfolding exp_part_Suc add_mult_distrib mult.assoc by linarith
    show ?thesis
    proof (cases "y > x ! i")
      case False
      with True "1.prems" have "r = x[i := ?w]" by (simp add: sub_1.simps [of x n y i] Let_def)
      with bv False show ?thesis by (auto intro: exI [of _ 0])
    next
      case w: True
      have s: "sub_1 (x[i := ?w]) n 1 (Suc i) = (r, c)"
        using True w "1.prems" by (simp add: sub_1.simps [of x n y i] Let_def)
      have "length r = length (x[i := ?w]) \<and>
          (\<exists>k. bval r n + unat (1 :: u64) * 2 ^ (64 * Suc i) = bval (x[i := ?w]) n + k * 2 ^ (64 * n))"
        by (rule "1.IH" [OF True refl refl w _ _ s]) (use True "1.prems" in auto)
      then obtain k where "length r = length x" "bval r n + 2 ^ (64 * Suc i) = bval (x[i := ?w]) n + k * 2 ^ (64 * n)"
        by auto
      moreover from this(2) bv w have "bval r n + unat y * 2 ^ (64 * i) = bval x n + k * 2 ^ (64 * n)"
        by (simp only: of_bool_def if_True mult_1)
      ultimately show ?thesis by blast
    qed
  qed
qed

text \<open>From the words to the value: the carries beyond the words do not matter.\<close>

lemma mk_apint_mod: "a mod 2 ^ w = b mod 2 ^ w \<Longrightarrow> mk_apint w a = mk_apint w b"
  by (simp add: mk_apint_def)

lemma clear_sum:
  assumes "0 < w" and "length p = getNumWords w" and "bval p (getNumWords w) + k * 2 ^ (64 * getNumWords w) = s"
  shows "wf_rep (clearUnusedBits \<lparr>BitWidth = w, pVal = p\<rparr>)"
    and "abs_apint (clearUnusedBits \<lparr>BitWidth = w, pVal = p\<rparr>) = mk_apint w s"
proof -
  have "bval p (getNumWords w) mod 2 ^ w = s mod 2 ^ w"
    unfolding assms(3) [symmetric] using exp_dvd_words [of w] by (metis dvd_mult mod_add_right_eq add.right_neutral dvd_eq_mod_eq_0)
  then show "wf_rep (clearUnusedBits \<lparr>BitWidth = w, pVal = p\<rparr>)"
    "abs_apint (clearUnusedBits \<lparr>BitWidth = w, pVal = p\<rparr>) = mk_apint w s"
    using clear_raw [OF assms(1,2)] by (simp_all add: mk_apint_def)
qed

lemma clear_difference:
  assumes "0 < w" and "length p = getNumWords w" and "b < 2 ^ w"
    and "bval p (getNumWords w) + b = a + k * 2 ^ (64 * getNumWords w)"
  shows "wf_rep (clearUnusedBits \<lparr>BitWidth = w, pVal = p\<rparr>)"
    and "abs_apint (clearUnusedBits \<lparr>BitWidth = w, pVal = p\<rparr>) = mk_apint w (a + (2 ^ w - b))"
proof -
  obtain c where c: "2 ^ (64 * getNumWords w) = 2 ^ w * (c :: nat)" using exp_dvd_words [of w] by (rule dvdE)
  have "bval p (getNumWords w) + 2 ^ w = (a + (2 ^ w - b)) + k * c * 2 ^ w"
    using assms(3) arg_cong [OF assms(4), of "\<lambda>v. v + 2 ^ w - b"] by (simp add: c mult.assoc mult.commute [of c])
  then have "bval p (getNumWords w) mod 2 ^ w = (a + (2 ^ w - b)) mod 2 ^ w"
    by (metis mod_add_self2 mod_mult_self1)
  then show "wf_rep (clearUnusedBits \<lparr>BitWidth = w, pVal = p\<rparr>)"
    "abs_apint (clearUnusedBits \<lparr>BitWidth = w, pVal = p\<rparr>) = mk_apint w (a + (2 ^ w - b))"
    using clear_raw [OF assms(1,2)] by (simp_all add: mk_apint_def)
qed

lemma single_word_sum: "bval [a + b] 1 + of_bool (a + b < a) * 2 ^ (64 * 1) = unat a + unat b" for a b :: u64
  using unat_add_carry [of a b] by (simp add: bval_single split: if_splits)

lemma single_word_difference: "bval [a - b] 1 + unat b = unat a + of_bool (b > a) * 2 ^ (64 * 1)" for a b :: u64
  using sub_digit [where x = a and y = b and b = False] by (simp add: bval_single)

text \<open>\<open>p\<close> holds the sum or the difference of the values of \<open>x\<close> and \<open>y\<close>, the carry out of the top left aside.\<close>

definition sum_words where
  "sum_words x p s \<longleftrightarrow> length p = getNumWords (BitWidth x) \<and>
     (\<exists>k. bval p (getNumWords (BitWidth x)) + k * 2 ^ (64 * getNumWords (BitWidth x)) = s)"

definition difference_words where
  "difference_words x p a b \<longleftrightarrow> length p = getNumWords (BitWidth x) \<and> b < 2 ^ BitWidth x \<and>
     (\<exists>k. bval p (getNumWords (BitWidth x)) + b = a + k * 2 ^ (64 * getNumWords (BitWidth x)))"

lemma sum_wordsD:
  assumes "wf_rep x" and "sum_words x p s"
  shows "wf_rep (clearUnusedBits \<lparr>BitWidth = BitWidth x, pVal = p\<rparr>)"
    and "abs_apint (clearUnusedBits \<lparr>BitWidth = BitWidth x, pVal = p\<rparr>) = mk_apint (BitWidth x) s"
  using assms clear_sum [of "BitWidth x" p] by (auto simp: sum_words_def wf_rep_def)

lemma difference_wordsD:
  assumes "wf_rep x" and "difference_words x p a b"
  shows "wf_rep (clearUnusedBits \<lparr>BitWidth = BitWidth x, pVal = p\<rparr>)"
    and "abs_apint (clearUnusedBits \<lparr>BitWidth = BitWidth x, pVal = p\<rparr>) = mk_apint (BitWidth x) (a + (2 ^ BitWidth x - b))"
  using assms clear_difference [of "BitWidth x" p] by (auto simp: difference_words_def wf_rep_def)

lemma sum_words_add:
  assumes "wf_rep x" and "wf_rep y" and "BitWidth x = BitWidth y"
  shows "isSingleWord x \<Longrightarrow> sum_words x [VAL x + VAL y] (ival (abs_apint x) + ival (abs_apint y))"
    and "length d = getNumWords (BitWidth x) \<Longrightarrow>
      sum_words x (fst (add_words d (pVal x) (pVal y) (getNumWords (BitWidth x))))
        (ival (abs_apint x) + ival (abs_apint y))"
proof -
  show "sum_words x [VAL x + VAL y] (ival (abs_apint x) + ival (abs_apint y))" if "isSingleWord x"
    using single_word [OF assms(1) that] single_word [OF assms(2)] that assms(3) single_word_sum [of "VAL x" "VAL y"]
    by (auto simp: sum_words_def isSingleWord_def)
  show "sum_words x (fst (add_words d (pVal x) (pVal y) (getNumWords (BitWidth x))))
      (ival (abs_apint x) + ival (abs_apint y))" if "length d = getNumWords (BitWidth x)"
    using bval_add_words [of "getNumWords (BitWidth x)" d "pVal x" "pVal y"] that assms(3)
    by (auto simp: sum_words_def add_words_inv_def ival_abs split: prod.splits)
qed

lemma difference_words_sub:
  assumes "wf_rep x" and "wf_rep y" and "BitWidth x = BitWidth y"
  shows "isSingleWord x \<Longrightarrow> difference_words x [VAL x - VAL y] (ival (abs_apint x)) (ival (abs_apint y))"
    and "length d = getNumWords (BitWidth x) \<Longrightarrow>
      difference_words x (fst (sub_words d (pVal x) (pVal y) (getNumWords (BitWidth x))))
        (ival (abs_apint x)) (ival (abs_apint y))"
proof -
  have y: "ival (abs_apint y) < 2 ^ BitWidth x" using wf_repD(3) [OF assms(2)] assms(3) by simp
  show "difference_words x [VAL x - VAL y] (ival (abs_apint x)) (ival (abs_apint y))" if "isSingleWord x"
    using single_word [OF assms(1) that] single_word [OF assms(2)] that y assms(3)
      single_word_difference [of "VAL x" "VAL y"]
    by (auto simp: difference_words_def isSingleWord_def)
  show "difference_words x (fst (sub_words d (pVal x) (pVal y) (getNumWords (BitWidth x))))
      (ival (abs_apint x)) (ival (abs_apint y))" if "length d = getNumWords (BitWidth x)"
    using bval_sub_words [of "getNumWords (BitWidth x)" d "pVal x" "pVal y"] that y assms(3)
    by (auto simp: difference_words_def sub_words_inv_def ival_abs split: prod.splits) (metis add.commute)
qed

text \<open>The result of an operation stands for \<open>a\<close>.\<close>

definition refines :: "APInt option \<Rightarrow> apint \<Rightarrow> bool" where
  "refines r a \<longleftrightarrow> (\<exists>z. r = Some z \<and> wf_rep z \<and> abs_apint z = a)"

lemma refines_Some [simp]: "refines (Some z) a \<longleftrightarrow> wf_rep z \<and> abs_apint z = a"
  by (simp add: refines_def)

lemma construct_single: "w \<le> 64 \<Longrightarrow> construct w v s = clearUnusedBits \<lparr>BitWidth = w, pVal = [v]\<rparr>"
  by (simp add: construct_def)

lemma construct_words: "0 < w \<Longrightarrow> length (pVal (construct w v False)) = getNumWords w"
  using construct_unsigned(1) [of w v] by (simp add: wf_rep_def)

lemma refines_add:
  assumes "wf_rep x" and "wf_rep y" and "BitWidth x = BitWidth y"
  shows "refines (plus_assign x y) (ap_add (abs_apint x) (abs_apint y))"
    and "refines (op_plus x y) (ap_add (abs_apint x) (abs_apint y))"
  using sum_wordsD [OF assms(1) sum_words_add(1) [OF assms]] sum_wordsD [OF assms(1) sum_words_add(2) [OF assms]]
    wf_repD(1,2) [OF assms(1)] assms(3)
  by (simp_all add: plus_assign_def op_plus_def ap_add_def construct_single construct_words isSingleWord_def)

lemma refines_sub:
  assumes "wf_rep x" and "wf_rep y" and "BitWidth x = BitWidth y"
  shows "refines (minus_assign x y) (ap_sub (abs_apint x) (abs_apint y))"
    and "refines (op_minus x y) (ap_sub (abs_apint x) (abs_apint y))"
  using difference_wordsD [OF assms(1) difference_words_sub(1) [OF assms]]
    difference_wordsD [OF assms(1) difference_words_sub(2) [OF assms]] wf_repD(1,2) [OF assms(1)] assms(3)
  by (simp_all add: minus_assign_def op_minus_def ap_sub_def construct_single construct_words isSingleWord_def)

lemma refines_neg:
  assumes "wf_rep x"
  shows "refines (op_neg x) (ap_sub (mk_apint (BitWidth x) 0) (abs_apint x))"
  using refines_sub(2) [OF construct_unsigned(1) assms, of "BitWidth x" 0] construct_unsigned [OF wf_repD(1) [OF assms], of 0]
    wf_repD(1) [OF assms]
  by (simp add: op_neg_def)

lemma refines_inc_dec:
  assumes "wf_rep x"
  shows "wf_rep (op_inc x) \<and> abs_apint (op_inc x) = ap_inc (abs_apint x)"
    and "wf_rep (op_dec x) \<and> abs_apint (op_dec x) = ap_dec (abs_apint x)"
proof -
  let ?w = "BitWidth x" and ?n = "getNumWords (BitWidth x)" and ?X = "ival (abs_apint x)"
  note w = wf_repD(1,2) [OF assms]
  have "sum_words x (if isSingleWord x then [VAL x + 1] else fst (add_1 (pVal x) (pVal x) ?n 1 0)) (?X + 1)"
  proof (cases "isSingleWord x")
    case True
    then show ?thesis
      using single_word [OF assms True] single_word_sum [of "VAL x" 1] by (auto simp: sum_words_def)
  next
    case False
    obtain r c where "add_1 (pVal x) (pVal x) ?n 1 0 = (r, c)" by force
    with False w add_1_spec [OF _ _ _ this] show ?thesis by (auto simp: sum_words_def ival_abs)
  qed
  from sum_wordsD [OF assms this]
  show "wf_rep (op_inc x) \<and> abs_apint (op_inc x) = ap_inc (abs_apint x)"
    using one_less_exp [OF w(1)] by (simp add: op_inc_def ap_inc_def ap_add_def)
  have "difference_words x (if isSingleWord x then [VAL x - 1] else fst (sub_1 (pVal x) ?n 1 0)) ?X 1"
  proof (cases "isSingleWord x")
    case True
    then show ?thesis
      using single_word [OF assms True] single_word_difference [of "VAL x" 1] one_less_exp [OF w(1)]
      by (auto simp: difference_words_def)
  next
    case False
    obtain r c where "sub_1 (pVal x) ?n 1 0 = (r, c)" by force
    with False w sub_1_spec [OF _ _ this] one_less_exp [OF w(1)] show ?thesis
      by (auto simp: difference_words_def ival_abs)
  qed
  from difference_wordsD [OF assms this]
  show "wf_rep (op_dec x) \<and> abs_apint (op_dec x) = ap_dec (abs_apint x)"
    using one_less_exp [OF w(1)] by (simp add: op_dec_def ap_dec_def ap_sub_def)
qed

section \<open>The contract of a binary operation\<close>

text \<open>A member function of two operands fails on different widths, and otherwise yields the one object that stands
  for the result of the abstract operation.\<close>

locale apint_binary =
  fixes impl :: "APInt \<Rightarrow> APInt \<Rightarrow> APInt option" and spec :: "apint \<Rightarrow> apint \<Rightarrow> apint"
  assumes impl_refines: "wf_rep x \<Longrightarrow> wf_rep y \<Longrightarrow> BitWidth x = BitWidth y \<Longrightarrow>
      refines (impl x y) (spec (abs_apint x) (abs_apint y))"
    and impl_mismatch: "BitWidth x \<noteq> BitWidth y \<Longrightarrow> impl x y = None"
begin

lemma impl_iff:
  assumes "wf_rep x" and "wf_rep y"
  shows "impl x y = Some z \<longleftrightarrow>
    BitWidth x = BitWidth y \<and> wf_rep z \<and> abs_apint z = spec (abs_apint x) (abs_apint y)"
proof (cases "BitWidth x = BitWidth y")
  case True
  then obtain r where "impl x y = Some r" "wf_rep r" "abs_apint r = spec (abs_apint x) (abs_apint y)"
    using impl_refines [OF assms] by (auto simp: refines_def)
  with True show ?thesis using abs_inject [of z r] by auto
qed (simp add: impl_mismatch)

lemma impl_total: "wf_rep x \<Longrightarrow> wf_rep y \<Longrightarrow> impl x y = None \<longleftrightarrow> BitWidth x \<noteq> BitWidth y"
  using impl_refines [of x y] impl_mismatch [of x y] by (auto simp: refines_def)

lemma impl_commutes:
  assumes "wf_rep x" and "wf_rep y"
    and "spec (abs_apint x) (abs_apint y) = spec (abs_apint y) (abs_apint x)"
  shows "impl x y = impl y x"
proof (cases "impl x y")
  case None
  then show ?thesis using impl_total [OF assms(1,2)] impl_total [OF assms(2,1)] by simp
next
  case (Some z)
  then have "impl y x = Some z"
    using impl_iff [OF assms(1,2), of z] impl_iff [OF assms(2,1), of z] assms(3) by simp
  with Some show ?thesis by simp
qed

end

text \<open>Two operations of which one undoes the other.\<close>

locale apint_inverse = first: apint_binary f sf + second: apint_binary g sg for f sf g sg +
  assumes undo: "wf_apint w a \<Longrightarrow> wf_apint w b \<Longrightarrow> sg (sf a b) b = a"
    and width: "wf_apint w a \<Longrightarrow> bitWidth (sf a b) = w"
begin

lemma undo_impl:
  assumes "wf_rep x" and "wf_rep y" and "BitWidth x = BitWidth y"
  shows "f x y \<bind> (\<lambda>z. g z y) = Some x"
proof -
  obtain z where z: "f x y = Some z" "wf_rep z" "abs_apint z = sf (abs_apint x) (abs_apint y)"
    using first.impl_refines [OF assms] by (auto simp: refines_def)
  note wf = wf_abs [OF assms(1)] wf_abs [OF assms(2), folded assms(3)]
  have "BitWidth z = BitWidth x"
    using width [OF wf(1)] z(3) by (metis bitWidth_abs)
  then have "g z y = Some x"
    using second.impl_iff [OF z(2) assms(2)] z(3) undo [OF wf] assms by simp
  with z(1) show ?thesis by simp
qed

end

lemma ap_sub_add: "wf_apint w a \<Longrightarrow> wf_apint w b \<Longrightarrow> ap_add (ap_sub a b) b = a"
  using ival_add [of w "ap_sub a b" b] ival_sub [of w a b] ival_less [of w a] ival_less [of w b]
  by (auto simp: apint_eq_iff split: if_splits)

lemma ap_add_sub: "wf_apint w a \<Longrightarrow> wf_apint w b \<Longrightarrow> ap_sub (ap_add a b) b = a"
  using ival_sub [of w "ap_add a b" b] ival_add [of w a b] ival_less [of w a] ival_less [of w b]
  by (auto simp: apint_eq_iff split: if_splits)

lemma arith_mismatch:
  "BitWidth x \<noteq> BitWidth y \<Longrightarrow> op_plus x y = None" "BitWidth x \<noteq> BitWidth y \<Longrightarrow> op_minus x y = None"
  "BitWidth x \<noteq> BitWidth y \<Longrightarrow> plus_assign x y = None" "BitWidth x \<noteq> BitWidth y \<Longrightarrow> minus_assign x y = None"
  by (simp_all add: op_plus_def op_minus_def plus_assign_def minus_assign_def)

lemmas arith_laws = refines_add refines_sub arith_mismatch ap_add_sub ap_sub_add

interpretation add_sub: apint_inverse op_plus ap_add op_minus ap_sub
  by unfold_locales (simp_all add: arith_laws wf_bitWidth)

interpretation sub_add: apint_inverse op_minus ap_sub op_plus ap_add
  by unfold_locales (simp_all add: arith_laws wf_bitWidth)

interpretation assign: apint_inverse plus_assign ap_add minus_assign ap_sub
  by unfold_locales (simp_all add: arith_laws wf_bitWidth)

section \<open>Bitwise operations\<close>

text \<open>The bits of a value, word by word.\<close>

lemma bit_ival:
  "bit (ival (abs_apint x)) k \<longleftrightarrow> k < 64 * getNumWords (BitWidth x) \<and> bit (pVal x ! (k div 64)) (k mod 64)"
  by (simp add: ival_abs bit_bval)

lemma bit_ival_width: "wf_rep x \<Longrightarrow> bit (ival (abs_apint x)) k \<Longrightarrow> k < BitWidth x"
  using wf_repD(3) [of x] take_bit_nat_eq_self_iff [of "BitWidth x" "ival (abs_apint x)"]
  by (metis bit_take_bit_iff)

text \<open>An object given by its words, where the bits above the width are clear already.\<close>

lemma rep_bitsI:
  assumes "0 < w" and "length p = getNumWords w" and "v < 2 ^ w"
    and "\<And>k. k < 64 * getNumWords w \<Longrightarrow> bit (p ! (k div 64)) (k mod 64) \<longleftrightarrow> bit v k"
  shows "wf_rep \<lparr>BitWidth = w, pVal = p\<rparr>" and "abs_apint \<lparr>BitWidth = w, pVal = p\<rparr> = mk_apint w v"
proof -
  have "v < 2 ^ (64 * getNumWords w)"
    by (rule less_le_trans [OF assms(3)]) (simp add: getNumWords_bounds)
  then have t: "take_bit (64 * getNumWords w) v = v" by (simp add: take_bit_nat_eq_self_iff)
  have "bval p (getNumWords w) = v"
  proof (rule bit_eqI)
    fix k :: nat
    show "bit (bval p (getNumWords w)) k = bit v k"
      unfolding bit_bval using assms(4) [of k] bit_take_bit_iff [of "64 * getNumWords w" v k]
      by (auto simp: t)
  qed
  with assms show "wf_rep \<lparr>BitWidth = w, pVal = p\<rparr>" "abs_apint \<lparr>BitWidth = w, pVal = p\<rparr> = mk_apint w v"
    by (simp_all add: wf_rep_def abs_apint_def mk_apint_def)
qed

lemma clear_bitsI:
  assumes "0 < w" and "length p = getNumWords w"
    and "\<And>k. k < w \<Longrightarrow> bit (p ! (k div 64)) (k mod 64) \<longleftrightarrow> bit v k"
  shows "wf_rep (clearUnusedBits \<lparr>BitWidth = w, pVal = p\<rparr>)"
    and "abs_apint (clearUnusedBits \<lparr>BitWidth = w, pVal = p\<rparr>) = mk_apint w v"
proof -
  have "take_bit w (bval p (getNumWords w)) = take_bit w v"
    using assms(3) getNumWords_bounds(1) [of w] by (intro bit_eqI) (auto simp: bit_take_bit_iff bit_bval)
  then show "wf_rep (clearUnusedBits \<lparr>BitWidth = w, pVal = p\<rparr>)"
    "abs_apint (clearUnusedBits \<lparr>BitWidth = w, pVal = p\<rparr>) = mk_apint w v"
    using clear_raw [OF assms(1,2)] by (simp_all add: mk_apint_def take_bit_eq_mod)
qed

lemma index_words: "k < 64 * n \<Longrightarrow> k div 64 < n" for k n :: nat
  by (simp add: less_mult_imp_div_less mult.commute)

lemma bitwise_words_nth:
  assumes "length val = n"
  shows "length (bitwise_words f val x y n) = n"
    and "i < n \<Longrightarrow> bitwise_words f val x y n ! i = f (x ! i) (y ! i)"
  using for_upto_update [of n val 0 "\<lambda>i _. f (x ! i) (y ! i)"] assms by (auto simp: bitwise_words_def)

lemma bitwise_words_single: "length val = 1 \<Longrightarrow> bitwise_words f val x y 1 = [f (x ! 0) (y ! 0)]"
  using bitwise_words_nth [where n = 1 and val = val and f = f and x = x and y = y] by (auto simp: list_eq_iff_nth_eq)

lemma refines_bitwise_raw:
  fixes f :: "u64 \<Rightarrow> u64 \<Rightarrow> u64" and g :: "nat \<Rightarrow> nat \<Rightarrow> nat"
  assumes "wf_rep x" and "wf_rep y" and "BitWidth x = BitWidth y" and "length val = getNumWords (BitWidth x)"
    and bits: "\<And>a b j. j < 64 \<Longrightarrow> bit (f a b) j \<longleftrightarrow> F (bit a j) (bit b j)"
      "\<And>a b j. bit (g a b) j \<longleftrightarrow> F (bit a j) (bit b j)"
    and F: "\<not> F False False"
  defines "p \<equiv> bitwise_words f val (pVal x) (pVal y) (getNumWords (BitWidth x))"
  shows "wf_rep \<lparr>BitWidth = BitWidth x, pVal = p\<rparr>"
    and "abs_apint \<lparr>BitWidth = BitWidth x, pVal = p\<rparr> =
      mk_apint (BitWidth x) (g (ival (abs_apint x)) (ival (abs_apint y)))"
proof -
  let ?n = "getNumWords (BitWidth x)" and ?X = "ival (abs_apint x)" and ?Y = "ival (abs_apint y)"
  have len: "length p = ?n" unfolding p_def by (rule bitwise_words_nth) (rule assms(4))
  have nth: "i < ?n \<Longrightarrow> p ! i = f (pVal x ! i) (pVal y ! i)" for i
    unfolding p_def by (rule bitwise_words_nth) (rule assms(4))
  have "take_bit (BitWidth x) (g ?X ?Y) = g ?X ?Y"
  proof (rule bit_eqI)
    fix k
    show "bit (take_bit (BitWidth x) (g ?X ?Y)) k = bit (g ?X ?Y) k"
      using bit_ival_width [OF assms(1), of k] bit_ival_width [OF assms(2), of k] F
      by (cases "bit ?X k"; cases "bit ?Y k") (simp_all add: bit_take_bit_iff bits(2) assms(3))
  qed
  then have less: "g ?X ?Y < 2 ^ BitWidth x" by (simp only: take_bit_nat_eq_self_iff)
  have "bit (p ! (k div 64)) (k mod 64) \<longleftrightarrow> bit (g ?X ?Y) k" if "k < 64 * ?n" for k
    using that by (simp add: nth index_words bits bit_ival assms(3) [symmetric])
  from rep_bitsI [OF wf_repD(1) [OF assms(1)] len less this]
  show "wf_rep \<lparr>BitWidth = BitWidth x, pVal = p\<rparr>"
    and "abs_apint \<lparr>BitWidth = BitWidth x, pVal = p\<rparr> = mk_apint (BitWidth x) (g ?X ?Y)" by simp_all
qed

lemma clear_wf:
  assumes "wf_rep x"
  shows "clearUnusedBits x = x"
proof -
  have "wf_rep (clearUnusedBits \<lparr>BitWidth = BitWidth x, pVal = pVal x\<rparr>)"
    "abs_apint (clearUnusedBits \<lparr>BitWidth = BitWidth x, pVal = pVal x\<rparr>) = mk_apint (BitWidth x) (ival (abs_apint x))"
    using clear_raw [OF wf_repD(1,2) [OF assms]] by (simp_all add: ival_abs)
  moreover have "mk_apint (BitWidth x) (ival (abs_apint x)) = abs_apint x"
    using wf_repD(3) [OF assms] by simp
  ultimately show ?thesis using abs_inject [OF _ assms] by (cases x) simp
qed

text \<open>The single word code computes the same words.\<close>

lemma bitwise_single:
  assumes "wf_rep x" and "isSingleWord x"
  shows "[f (VAL x) (VAL y)] = bitwise_words f (pVal x) (pVal x) (pVal y) (getNumWords (BitWidth x))"
proof -
  have "getNumWords (BitWidth x) = 1" "length (pVal x) = 1"
    using single_word [OF assms] wf_repD(2) [OF assms(1)] by simp_all
  then show ?thesis by (simp only: bitwise_words_single VAL_def)
qed

definition ap_xor :: "apint \<Rightarrow> apint \<Rightarrow> apint" where
  "ap_xor a b = mk_apint (bitWidth a) (ival a XOR ival b)"

lemma bitWidth_ap_xor [simp]: "bitWidth (ap_xor a b) = bitWidth a"
  by (simp add: ap_xor_def)

lemma refines_and_or_xor:
  assumes "wf_rep x" and "wf_rep y" and "BitWidth x = BitWidth y"
  shows "refines (and_assign x y) (ap_and (abs_apint x) (abs_apint y))"
    and "refines (or_assign x y) (ap_or (abs_apint x) (abs_apint y))"
    and "refines (xor_assign x y) (ap_xor (abs_apint x) (abs_apint y))"
    and "refines (op_and x y) (ap_and (abs_apint x) (abs_apint y))"
    and "refines (op_or x y) (ap_or (abs_apint x) (abs_apint y))"
    and "refines (op_xor x y) (ap_xor (abs_apint x) (abs_apint y))"
proof -
  note raw = refines_bitwise_raw [OF assms, where F = "(\<and>)" and f = "(AND)" and g = "(AND)"]
    refines_bitwise_raw [OF assms, where F = "(\<or>)" and f = "(OR)" and g = "(OR)"]
    refines_bitwise_raw [OF assms, where F = "\<lambda>a b. a \<noteq> b" and f = "(XOR)" and g = "(XOR)"]
  note defs = and_assign_def or_assign_def xor_assign_def op_and_def op_or_def op_xor_def AndSlowCase_def
    OrSlowCase_def XorSlowCase_def ap_and_def ap_or_def ap_xor_def construct_single isSingleWord_def Let_def
  note single = bitwise_single [OF assms(1), unfolded isSingleWord_def]
  show "refines (and_assign x y) (ap_and (abs_apint x) (abs_apint y))"
    "refines (or_assign x y) (ap_or (abs_apint x) (abs_apint y))"
    "refines (xor_assign x y) (ap_xor (abs_apint x) (abs_apint y))"
    "refines (op_and x y) (ap_and (abs_apint x) (abs_apint y))"
    "refines (op_or x y) (ap_or (abs_apint x) (abs_apint y))"
    "refines (op_xor x y) (ap_xor (abs_apint x) (abs_apint y))"
    using raw wf_repD(2) [OF assms(1)] assms(3) by (simp_all add: defs single clear_wf bit_simps)
qed

lemma bitwise_mismatch:
  "BitWidth x \<noteq> BitWidth y \<Longrightarrow> op_and x y = None" "BitWidth x \<noteq> BitWidth y \<Longrightarrow> op_or x y = None"
  "BitWidth x \<noteq> BitWidth y \<Longrightarrow> op_xor x y = None" "BitWidth x \<noteq> BitWidth y \<Longrightarrow> and_assign x y = None"
  "BitWidth x \<noteq> BitWidth y \<Longrightarrow> or_assign x y = None" "BitWidth x \<noteq> BitWidth y \<Longrightarrow> xor_assign x y = None"
  by (simp_all add: op_and_def op_or_def op_xor_def and_assign_def or_assign_def xor_assign_def)

interpretation bit_and: apint_binary op_and ap_and
  by unfold_locales (simp_all add: refines_and_or_xor bitwise_mismatch)

interpretation bit_or: apint_binary op_or ap_or
  by unfold_locales (simp_all add: refines_and_or_xor bitwise_mismatch)

text \<open>Exclusive or undoes itself.\<close>

interpretation bit_xor: apint_inverse op_xor ap_xor op_xor ap_xor
proof unfold_locales
  fix a b w
  assume a: "wf_apint w a" and b: "wf_apint w b"
  have "(ival a XOR ival b) mod 2 ^ w XOR ival b = ival a"
  proof -
    have "take_bit w (ival a) = ival a" "take_bit w (ival b) = ival b"
      using a b by (simp_all add: wf_apint_def take_bit_nat_eq_self_iff)
    then show ?thesis by (simp add: take_bit_xor xor.assoc flip: take_bit_eq_mod)
  qed
  then show "ap_xor (ap_xor a b) b = a" using a by (simp add: ap_xor_def wf_apint_def)
qed (simp_all add: refines_and_or_xor bitwise_mismatch wf_bitWidth)

text \<open>One word changed.\<close>

lemma wf_div_less: "k < w \<Longrightarrow> k div 64 < getNumWords w"
  using getNumWords_bounds(1) [of w] by (intro index_words) simp

lemma bit_maskBit: "j < 64 \<Longrightarrow> bit (maskBit b) j \<longleftrightarrow> j = b mod 64"
  by (auto simp: maskBit_def whichBit_def bit_simps)

lemma one_bit_raw:
  assumes "wf_rep x" and "b < BitWidth x"
    and f: "\<And>w j. j < 64 \<Longrightarrow> bit (f w) j \<longleftrightarrow> (if j = b mod 64 then v else bit w j)"
    and V: "\<And>k. bit V k \<longleftrightarrow> (if k = b then v else bit (ival (abs_apint x)) k)"
  defines "p \<equiv> (pVal x)[b div 64 := f (pVal x ! (b div 64))]"
  shows "wf_rep \<lparr>BitWidth = BitWidth x, pVal = p\<rparr> \<and> abs_apint \<lparr>BitWidth = BitWidth x, pVal = p\<rparr> = mk_apint (BitWidth x) V"
proof -
  have "take_bit (BitWidth x) V = V"
  proof (rule bit_eqI)
    fix k
    show "bit (take_bit (BitWidth x) V) k = bit V k"
      using bit_ival_width [OF assms(1), of k] assms(2) by (auto simp: bit_take_bit_iff V)
  qed
  then have less: "V < 2 ^ BitWidth x" by (simp only: take_bit_nat_eq_self_iff)
  have len: "length p = getNumWords (BitWidth x)" using wf_repD(2) [OF assms(1)] by (simp add: p_def)
  have "bit (p ! (k div 64)) (k mod 64) \<longleftrightarrow> bit V k" if "k < 64 * getNumWords (BitWidth x)" for k
  proof -
    have "k = b \<longleftrightarrow> k div 64 = b div 64 \<and> k mod 64 = b mod 64"
      by (metis div_mult_mod_eq)
    then show ?thesis
      using that wf_repD(2) [OF assms(1)] wf_div_less [OF assms(2)] by (auto simp: p_def nth_list_update f V bit_ival index_words)
  qed
  from rep_bitsI [OF wf_repD(1) [OF assms(1)] len less this] show ?thesis by blast
qed

lemma single_word_update:
  assumes "wf_rep x" and "isSingleWord x" and "b < BitWidth x"
  shows "[f (VAL x)] = (pVal x)[b div 64 := f (pVal x ! (b div 64))]"
proof -
  have "b div 64 = 0" using assms by (simp add: isSingleWord_def)
  with single_word(1) [OF assms(1,2)] show ?thesis by (metis VAL_def list_update_code(2))
qed

lemma getBit_value:
  assumes "wf_rep x"
  shows "getBit x b = (if b < BitWidth x then Some (bit (ival (abs_apint x)) b) else None)"
proof -
  have "maskBit b AND w \<noteq> 0 \<longleftrightarrow> bit w (b mod 64)" for w :: u64
    by (simp add: maskBit_def whichBit_def bit_iff_and_push_bit_not_eq_0 and.commute)
  moreover have "isSingleWord x \<Longrightarrow> b < BitWidth x \<Longrightarrow> VAL x = pVal x ! (b div 64)"
    by (simp add: isSingleWord_def VAL_def)
  ultimately show ?thesis
    using assms by (auto simp: getBit_def bit_ival wf_div_less whichWord_def less_le_trans [OF _ getNumWords_bounds(1)])
qed

lemma set_clear_flip:
  assumes "wf_rep x" and "b < BitWidth x"
  shows "wf_rep (setBit x b) \<and> abs_apint (setBit x b) = mk_apint (BitWidth x) (set_bit b (ival (abs_apint x)))"
    and "wf_rep (clearBit x b) \<and> abs_apint (clearBit x b) = mk_apint (BitWidth x) (unset_bit b (ival (abs_apint x)))"
    and "refines (flipBit x b) (mk_apint (BitWidth x) (flip_bit b (ival (abs_apint x))))"
proof -
  let ?X = "ival (abs_apint x)"
  have s: "setBit x b = \<lparr>BitWidth = BitWidth x, pVal = (pVal x)[b div 64 := pVal x ! (b div 64) OR maskBit b]\<rparr>"
    using single_word_update [OF assms(1) _ assms(2), where f = "\<lambda>w. w OR maskBit b"]
    by (simp add: setBit_def whichWord_def Let_def)
  have c: "clearBit x b = \<lparr>BitWidth = BitWidth x, pVal = (pVal x)[b div 64 := pVal x ! (b div 64) AND NOT (maskBit b)]\<rparr>"
    using single_word_update [OF assms(1) _ assms(2), where f = "\<lambda>w. w AND NOT (maskBit b)"]
    by (simp add: clearBit_def whichWord_def Let_def)
  show set: "wf_rep (setBit x b) \<and> abs_apint (setBit x b) = mk_apint (BitWidth x) (set_bit b ?X)"
    unfolding s by (rule one_bit_raw [OF assms, where v = True]) (auto simp: bit_simps bit_maskBit)
  show clear: "wf_rep (clearBit x b) \<and> abs_apint (clearBit x b) = mk_apint (BitWidth x) (unset_bit b ?X)"
    unfolding c by (rule one_bit_raw [OF assms, where v = False]) (auto simp: bit_simps bit_maskBit)
  have "flip_bit b ?X = (if bit ?X b then unset_bit b ?X else set_bit b ?X)"
    by (rule bit_eqI) (auto simp: bit_simps)
  then show "refines (flipBit x b) (mk_apint (BitWidth x) (flip_bit b ?X))"
    using set clear assms by (simp add: flipBit_def getBit_value)
qed

text \<open>All bits.\<close>

lemma clear_set_flip_all:
  assumes "wf_rep x"
  shows "wf_rep (clearAllBits x) \<and> abs_apint (clearAllBits x) = getMinValue (BitWidth x)"
    and "wf_rep (setAllBits x) \<and> abs_apint (setAllBits x) = getMaxValue (BitWidth x)"
    and "wf_rep (flipAllBits x) \<and> abs_apint (flipAllBits x) = mk_apint (BitWidth x) (2 ^ BitWidth x - 1 - ival (abs_apint x))"
proof -
  let ?w = "BitWidth x" and ?n = "getNumWords (BitWidth x)" and ?X = "ival (abs_apint x)"
  note w = wf_repD(1,2) [OF assms] and n1 = single_word(2) [OF assms]
  have z: "(if isSingleWord x then [0] else replicate ?n 0) = replicate ?n (0 :: u64)"
    using n1 by auto
  show "wf_rep (clearAllBits x) \<and> abs_apint (clearAllBits x) = getMinValue ?w"
    using w(1) by (simp add: clearAllBits_def z wf_rep_def abs_apint_def getMinValue_def mk_apint_def)
  let ?S = "if isSingleWord x then [- 1] else for_upto 0 ?n (\<lambda>i p. p[i := - 1]) (pVal x)"
  have "length ?S = ?n" "j < ?n \<Longrightarrow> ?S ! j = - 1" for j
    using for_upto_update [of ?n "pVal x" 0 "\<lambda>_ _. - 1"] w n1 by auto
  then have "wf_rep (clearUnusedBits \<lparr>BitWidth = ?w, pVal = ?S\<rparr>) \<and>
      abs_apint (clearUnusedBits \<lparr>BitWidth = ?w, pVal = ?S\<rparr>) = mk_apint ?w (mask ?w)"
    using clear_bitsI [OF w(1), of ?S "mask ?w"] by (auto simp: wf_div_less bit_simps)
  then show "wf_rep (setAllBits x) \<and> abs_apint (setAllBits x) = getMaxValue ?w"
    by (simp add: setAllBits_def getMaxValue_def mask_eq_exp_minus_1)
  let ?F = "if isSingleWord x then [VAL x XOR - 1] else for_upto 0 ?n (\<lambda>i p. p[i := p ! i XOR - 1]) (pVal x)"
  have "length ?F = ?n" "j < ?n \<Longrightarrow> ?F ! j = NOT (pVal x ! j)" for j
    using for_upto_update [of ?n "pVal x" 0 "\<lambda>_ w. w XOR - 1"] w n1 by (auto simp: VAL_def)
  then have "wf_rep (clearUnusedBits \<lparr>BitWidth = ?w, pVal = ?F\<rparr>) \<and>
      abs_apint (clearUnusedBits \<lparr>BitWidth = ?w, pVal = ?F\<rparr>) = mk_apint ?w (mask ?w XOR ?X)"
    using clear_bitsI [OF w(1), of ?F "mask ?w XOR ?X"] getNumWords_bounds(1) [of ?w]
    by (auto simp: wf_div_less bit_simps bit_ival)
  moreover have "mask ?w XOR ?X = 2 ^ ?w - 1 - ?X"
  proof -
    have "(mask ?w XOR ?X) AND ?X = 0" "(mask ?w XOR ?X) OR ?X = mask ?w"
      using bit_ival_width [OF assms] by (auto intro!: bit_eqI simp: bit_simps)
    then have "(mask ?w XOR ?X) + ?X = mask ?w" by (simp add: disjunctive_add_eq_or)
    then show ?thesis by (simp add: mask_eq_exp_minus_1)
  qed
  ultimately show "wf_rep (flipAllBits x) \<and> abs_apint (flipAllBits x) = mk_apint ?w (2 ^ ?w - 1 - ?X)"
    by (simp add: flipAllBits_def)
qed

end
