(* ===== verification/APIntSound.thy ===== *)
theory APIntSound
  imports APIntRep
begin

section \<open>Counting\<close>

lemma bit_length_le: "bit_length n \<le> k \<longleftrightarrow> n < 2 ^ k"
proof
  assume "bit_length n \<le> k"
  then have "(2 :: nat) ^ bit_length n \<le> 2 ^ k" by simp
  with bit_length_bounds(1) [of n] show "n < 2 ^ k" by (rule less_le_trans)
next
  assume n: "n < 2 ^ k"
  show "bit_length n \<le> k"
  proof (rule ccontr)
    assume "\<not> bit_length n \<le> k"
    then have "k \<le> bit_length n - 1" "0 < n" by (auto simp: bit_length.simps [of n] split: if_splits)
    then have "(2 :: nat) ^ k \<le> 2 ^ (bit_length n - 1)" "2 ^ (bit_length n - 1) \<le> n"
      using bit_length_bounds(2) [of n] by simp_all
    with n show False by simp
  qed
qed

lemma bit_length_0 [simp]: "bit_length 0 = 0"
  by (simp add: bit_length.simps)

lemma bit_length_high:
  assumes "0 < u" and "V < 2 ^ s"
  shows "bit_length (V + u * 2 ^ s) = bit_length u + s"
proof (rule antisym)
  have "(u + 1) * 2 ^ s \<le> 2 ^ bit_length u * 2 ^ s"
    by (rule mult_le_mono1) (use bit_length_bounds(1) [of u] in simp)
  then have "V + u * 2 ^ s < 2 ^ (bit_length u + s)" using assms(2) by (simp add: power_add)
  then show "bit_length (V + u * 2 ^ s) \<le> bit_length u + s" by (simp only: bit_length_le)
next
  have pos: "0 < bit_length u" using assms(1) by (simp add: bit_length.simps)
  have "2 ^ (bit_length u - 1) * 2 ^ s \<le> u * 2 ^ s"
    by (rule mult_le_mono1) (rule bit_length_bounds(2) [OF assms(1)])
  then have "\<not> V + u * 2 ^ s < 2 ^ (bit_length u - 1 + s)" unfolding power_add by linarith
  then have "\<not> bit_length (V + u * 2 ^ s) \<le> bit_length u - 1 + s" by (simp only: bit_length_le not_less)
  then show "bit_length u + s \<le> bit_length (V + u * 2 ^ s)" using pos by simp
qed

lemma countLeadingZeros_bit_length: "countLeadingZeros v = 64 - bit_length (unat v)"
proof (cases "v = 0")
  case True
  then show ?thesis by (simp add: countLeadingZeros_def)
next
  case False
  have "\<not> bit_length (unat v) \<le> 63 - countLeadingZeros v"
    using countLeadingZeros_bounds(1) [OF False] by (simp only: bit_length_le not_less)
  moreover have "bit_length (unat v) \<le> 64 - countLeadingZeros v"
    using countLeadingZeros_bounds(2) [OF False] by (simp only: bit_length_le)
  ultimately show ?thesis using countLeadingZeros_less [OF False] by simp
qed

lemma leading_zero_words_value: "leading_zero_words p i c = c + (64 * i - bit_length (bval p i))"
proof (induction i arbitrary: c)
  case (Suc i)
  have le: "bit_length (bval p i) \<le> 64 * i" using bval_less [of p i] by (simp only: bit_length_le)
  show ?case
  proof (cases "p ! i = 0")
    case True
    with le Suc show ?thesis by (simp add: bval_Suc)
  next
    case False
    then have "0 < unat (p ! i)" by (simp add: unat_gt_0)
    then have "bit_length (bval p (Suc i)) = bit_length (unat (p ! i)) + 64 * i"
      unfolding bval_Suc using bval_less [of p i] by (rule bit_length_high)
    with False show ?thesis by (simp add: countLeadingZeros_bit_length)
  qed
qed simp

text \<open>The words of a value of more than one word: the top word and the bits it holds.\<close>

lemma top_word:
  assumes "wf_rep x"
  defines "b \<equiv> (if BitWidth x mod 64 = 0 then 64 else BitWidth x mod 64)"
  shows "BitWidth x = 64 * (getNumWords (BitWidth x) - 1) + b"
    and "unat (pVal x ! (getNumWords (BitWidth x) - 1)) < 2 ^ b"
    and "ival (abs_apint x) = bval (pVal x) (getNumWords (BitWidth x) - 1) +
      unat (pVal x ! (getNumWords (BitWidth x) - 1)) * 2 ^ (64 * (getNumWords (BitWidth x) - 1))"
proof -
  let ?n = "getNumWords (BitWidth x)"
  have pos: "0 < ?n" using wf_repD(1) [OF assms(1)] by simp
  show w: "BitWidth x = 64 * (?n - 1) + b"
    using pos by (cases rule: getNumWords_cases [of "BitWidth x"]) (auto simp: b_def)
  show v: "ival (abs_apint x) = bval (pVal x) (?n - 1) + unat (pVal x ! (?n - 1)) * 2 ^ (64 * (?n - 1))"
    using pos by (cases ?n) (simp_all add: ival_abs bval_Suc)
  then have "unat (pVal x ! (?n - 1)) * 2 ^ (64 * (?n - 1)) < 2 ^ b * 2 ^ (64 * (?n - 1))"
    using wf_repD(3) [OF assms(1)] w by (simp add: power_add [symmetric] add.commute)
  then show "unat (pVal x ! (?n - 1)) < 2 ^ b" by (simp only: mult_less_cancel2)
qed

lemma countLeadingZeros_value:
  assumes "wf_rep x"
  shows "countLeadingZeros_rep x = ap_clz (abs_apint x)"
proof (cases "isSingleWord x")
  case True
  then show ?thesis
    using single_word(3) [OF assms True] by (simp add: countLeadingZeros_rep_def ap_clz_def
      countLeadingZeros_bit_length isSingleWord_def)
next
  case False
  let ?n = "getNumWords (BitWidth x)"
  define b where "b = (if BitWidth x mod 64 = 0 then 64 else BitWidth x mod 64)"
  define t where "t = pVal x ! (?n - 1)"
  note top = top_word [OF assms, folded b_def t_def]
  define m :: u64 where "m = (if BitWidth x mod 64 \<noteq> 0 then push_bit (BitWidth x mod 64) 1 - 1 else NOT 0)"
  have b: "b \<le> 64" by (simp add: b_def)
  have "m = mask b" by (simp add: m_def b_def mask_eq_exp_minus_1 minus_1_eq_mask push_bit_of_1)
  then have "t AND m = take_bit b t" by (simp only: take_bit_eq_mask)
  also have "\<dots> = t"
    by (simp only: word_unat_eq_iff unsigned_take_bit_eq take_bit_nat_eq_self_iff top(2))
  finally have m: "t AND m = t" .
  have "countLeadingZeros_rep x =
      (if t \<noteq> 0 then countLeadingZeros t - (64 - b) else leading_zero_words (pVal x) (?n - 1) b)"
    using False m by (simp add: countLeadingZeros_rep_def countLeadingZerosSlowCase_def Let_def t_def b_def m_def)
  also have "\<dots> = BitWidth x - bit_length (ival (abs_apint x))"
  proof (cases "t = 0")
    case True
    have "bit_length (bval (pVal x) (?n - 1)) \<le> 64 * (?n - 1)"
      using bval_less [of "pVal x" "?n - 1"] by (simp only: bit_length_le)
    then show ?thesis
      unfolding leading_zero_words_value top(3) by (subst (3) top(1)) (simp add: True)
  next
    case False
    then have "bit_length (ival (abs_apint x)) = bit_length (unat t) + 64 * (?n - 1)"
      unfolding top(3) by (intro bit_length_high bval_less) (simp add: unat_gt_0)
    moreover have "bit_length (unat t) \<le> b" using top(2) by (simp only: bit_length_le)
    ultimately show ?thesis
      using False b by (subst (2) top(1)) (simp add: countLeadingZeros_bit_length)
  qed
  finally show ?thesis by (simp add: ap_clz_def)
qed

lemma bit_length_ival: "wf_rep x \<Longrightarrow> bit_length (ival (abs_apint x)) \<le> BitWidth x"
  using wf_repD(3) [of x] by (simp only: bit_length_le)

lemma getActiveBits_value: "wf_rep x \<Longrightarrow> getActiveBits x = bit_length (ival (abs_apint x))"
  using bit_length_ival [of x] by (simp add: getActiveBits_def countLeadingZeros_value ap_clz_def)

section \<open>Comparison\<close>

lemma bval_mod: "m \<le> n \<Longrightarrow> bval p m = bval p n mod 2 ^ (64 * m)"
  by (rule bit_eqI) (auto simp: bit_bval bit_take_bit_iff simp flip: take_bit_eq_mod)

text \<open>The words up to the one with the highest set bit hold the value.\<close>

lemma bval_active:
  assumes "wf_rep x" and "ival (abs_apint x) < 2 ^ a" and "a \<le> BitWidth x" and "0 < a"
  shows "bval (pVal x) ((a - 1) div 64 + 1) = ival (abs_apint x)"
proof -
  have a: "a \<le> 64 * ((a - 1) div 64 + 1)" using getNumWords_bounds(1) [of a] assms(4) getNumWords_top [of a] by simp
  have "(a - 1) div 64 < getNumWords (BitWidth x)" by (rule wf_div_less) (use assms in simp)
  then have "bval (pVal x) ((a - 1) div 64 + 1) = ival (abs_apint x) mod 2 ^ (64 * ((a - 1) div 64 + 1))"
    unfolding ival_abs by (intro bval_mod) simp
  also have "\<dots> = ival (abs_apint x)"
    by (rule mod_less, rule less_le_trans [OF assms(2)], rule power_increasing [OF a]) simp
  finally show ?thesis .
qed

lemma bval_first:
  assumes "wf_rep x" and "ival (abs_apint x) < 2 ^ a" and "a \<le> 64"
  shows "unat (pVal x ! 0) = ival (abs_apint x)"
proof -
  have "bval (pVal x) 1 = ival (abs_apint x) mod 2 ^ (64 * 1)"
    unfolding ival_abs by (rule bval_mod) (use wf_repD(1) [OF assms(1)] in \<open>simp add: Suc_le_eq\<close>)
  moreover have "ival (abs_apint x) < 2 ^ 64"
    by (rule less_le_trans [OF assms(2)], rule power_increasing [OF assms(3)]) simp
  ultimately show ?thesis by (simp add: bval_Suc)
qed

lemma words_eq_iff: "words_eq p q n \<longleftrightarrow> bval p n = bval q n"
proof (induction n)
  case (Suc n)
  show ?case
  proof
    assume "words_eq p q (Suc n)"
    with Suc show "bval p (Suc n) = bval q (Suc n)" by (auto simp: bval_Suc split: if_splits)
  next
    assume e: "bval p (Suc n) = bval q (Suc n)"
    then have "p ! n = q ! n" by (rule bval_inject) simp
    with e Suc show "words_eq p q (Suc n)" by (simp add: bval_Suc)
  qed
qed simp

lemma words_less_iff: "words_less p q n \<longleftrightarrow> bval p n < bval q n"
proof (induction n)
  case (Suc n)
  show ?case
  proof (cases "p ! n" "q ! n" rule: linorder_cases)
    case less
    then show ?thesis using bval_Suc_less [OF less] by simp
  next
    case equal
    with Suc show ?thesis by (simp add: bval_Suc)
  next
    case greater
    then show ?thesis using bval_Suc_less [OF greater] by simp
  qed
qed simp

lemma active_bits:
  assumes "wf_rep x"
  shows "ival (abs_apint x) < 2 ^ getActiveBits x" and "getActiveBits x \<le> BitWidth x"
  using bit_length_bounds(1) bit_length_ival [OF assms] by (simp_all add: getActiveBits_value [OF assms])

lemma active_bits_less:
  assumes "wf_rep x" and "wf_rep y" and "getActiveBits x < getActiveBits y"
  shows "ival (abs_apint x) < ival (abs_apint y)"
proof -
  have "\<not> ival (abs_apint y) < 2 ^ getActiveBits x"
    using assms(3) unfolding getActiveBits_value [OF assms(2)] by (simp only: bit_length_le [symmetric] not_le)
  with active_bits(1) [OF assms(1)] show ?thesis by linarith
qed

lemma op_eq_value:
  assumes "wf_rep x" and "wf_rep y" and "BitWidth x = BitWidth y"
  shows "op_eq x y = Some (ival (abs_apint x) = ival (abs_apint y))"
proof (cases "isSingleWord x")
  case True
  with assms have y: "isSingleWord y" by (simp add: isSingleWord_def)
  show ?thesis
    using single_word(3) [OF assms(1) True] single_word(3) [OF assms(2) y] True assms(3)
    by (simp add: op_eq_def word_unat_eq_iff)
next
  case False
  let ?a = "getActiveBits x"
  have "EqualSlowCase x y \<longleftrightarrow> ival (abs_apint x) = ival (abs_apint y)"
  proof (cases "getActiveBits x = getActiveBits y")
    case True
    note y = active_bits [OF assms(2), folded True]
    show ?thesis
    proof (cases "?a \<le> 64")
      case small: True
      with True bval_first [OF assms(1) active_bits(1) [OF assms(1)] small] bval_first [OF assms(2) y(1) small]
      show ?thesis by (simp add: EqualSlowCase_def word_unat_eq_iff)
    next
      case False
      then have "0 < ?a" by simp
      from bval_active [OF assms(1) active_bits [OF assms(1)] this] bval_active [OF assms(2) y this] True False
      show ?thesis by (simp add: EqualSlowCase_def words_eq_iff whichWord_def)
    qed
  next
    case False
    then show ?thesis
      by (auto simp: EqualSlowCase_def getActiveBits_value assms)
  qed
  with False assms(3) show ?thesis by (simp add: op_eq_def)
qed

lemma op_eq_u64_value:
  assumes "wf_rep x"
  shows "op_eq_u64 x v \<longleftrightarrow> ival (abs_apint x) = unat v"
proof (cases "isSingleWord x")
  case True
  then show ?thesis using single_word(3) [OF assms True] by (simp add: op_eq_u64_def word_unat_eq_iff)
next
  case False
  show ?thesis
  proof (cases "getActiveBits x \<le> 64")
    case True
    from bval_first [OF assms active_bits(1) [OF assms] True] False True
    show ?thesis by (simp add: op_eq_u64_def EqualSlowCase_u64_def word_unat_eq_iff)
  next
    case big: False
    then have "\<not> ival (abs_apint x) < 2 ^ 64"
      unfolding getActiveBits_value [OF assms] by (simp only: bit_length_le not_less)
    then have "ival (abs_apint x) \<noteq> unat v" using u64_less [of v] by linarith
    with False big show ?thesis by (simp add: op_eq_u64_def EqualSlowCase_u64_def)
  qed
qed

lemma ult_value:
  assumes "wf_rep x" and "wf_rep y" and "BitWidth x = BitWidth y"
  shows "ult_rep x y = Some (ival (abs_apint x) < ival (abs_apint y))"
proof (cases "isSingleWord x")
  case True
  with assms have y: "isSingleWord y" by (simp add: isSingleWord_def)
  show ?thesis
    using single_word(3) [OF assms(1) True] single_word(3) [OF assms(2) y] True assms(3)
    by (simp add: ult_rep_def word_less_nat_alt)
next
  case False
  note slow = False
  let ?a = "getActiveBits x"
  show ?thesis
  proof (cases "getActiveBits x" "getActiveBits y" rule: linorder_cases)
    case less
    with active_bits_less [OF assms(1,2) less] slow assms(3) show ?thesis by (simp add: ult_rep_def Let_def)
  next
    case greater
    with active_bits_less [OF assms(2,1) greater] slow assms(3) show ?thesis by (simp add: ult_rep_def Let_def)
  next
    case equal
    note y = active_bits [OF assms(2), folded equal]
    show ?thesis
    proof (cases "?a \<le> 64")
      case small: True
      with equal slow bval_first [OF assms(1) active_bits(1) [OF assms(1)] small] bval_first [OF assms(2) y(1) small]
        assms(3)
      show ?thesis by (simp add: ult_rep_def Let_def word_less_nat_alt)
    next
      case False
      then have "0 < ?a" by simp
      from bval_active [OF assms(1) active_bits [OF assms(1)] this] bval_active [OF assms(2) y this] equal False
        slow assms(3)
      show ?thesis by (simp add: ult_rep_def Let_def words_less_iff whichWord_def)
    qed
  qed
qed

text \<open>The sign.\<close>

lemma bit_top: "0 < w \<Longrightarrow> X < 2 ^ w \<Longrightarrow> bit X (w - 1) \<longleftrightarrow> 2 ^ (w - 1) \<le> X" for X :: nat
proof -
  assume w: "0 < w" and X: "X < 2 ^ w"
  have "X div 2 ^ (w - 1) < 2"
    by (rule less_mult_imp_div_less) (use X exp_halves [OF w, where 'a = nat] in simp)
  moreover have "X div 2 ^ (w - 1) = 0 \<longleftrightarrow> X < 2 ^ (w - 1)" by (simp add: div_eq_0_iff)
  ultimately show ?thesis by (auto simp: bit_iff_odd less_2_cases_iff not_less)
qed

lemma isNegative_value:
  assumes "wf_rep x"
  shows "isNegative_rep x \<longleftrightarrow> isNegative (abs_apint x)"
  using getBit_value [OF assms, of "BitWidth x - 1"] bit_top [OF wf_repD(1,3) [OF assms]] wf_repD(1) [OF assms]
  by (simp add: isNegative_rep_def isNegative_def)

lemma sval_value:
  assumes "wf_rep x"
  shows "sval (abs_apint x) = int (ival (abs_apint x)) - (if isNegative_rep x then 2 ^ BitWidth x else 0)"
  by (simp add: isNegative_value [OF assms] isNegative_def sval_def not_le)

lemma ival_int: "wf_rep x \<Longrightarrow> int (ival (abs_apint x)) < 2 ^ BitWidth x"
  using wf_repD(3) [of x] by (metis of_nat_less_iff of_nat_numeral of_nat_power)

lemma sint_sext_word:
  fixes v :: u64
  assumes "0 < w" and "w \<le> 64" and "unat v < 2 ^ w"
  shows "sint (signed_drop_bit (64 - w) (push_bit (64 - w) v)) = sval \<lparr>bitWidth = w, ival = unat v\<rparr>"
proof -
  have "sint (signed_drop_bit (64 - w) (push_bit (64 - w) v)) = signed_take_bit (w - 1) (int (unat v))"
    using SignExtend64_sint [OF assms(1,2), of v] by (simp add: SignExtend64_def)
  also have "\<dots> = take_bit w (int (unat v)) - 2 ^ w * of_bool (bit (unat v) (w - 1))"
    using assms(1) by (subst signed_take_bit_eq_take_bit_minus) (simp add: bit_unsigned_iff)
  also have "take_bit w (int (unat v)) = int (unat v)"
    using assms(3) by (metis take_bit_nat_eq_self_iff take_bit_of_nat)
  finally show ?thesis
    using bit_top [OF assms(1,3)] by (simp add: sval_def not_le)
qed

lemma sint_single:
  assumes "wf_rep x" and "isSingleWord x"
  shows "sint (signed_drop_bit (64 - BitWidth x) (push_bit (64 - BitWidth x) (VAL x))) = sval (abs_apint x)"
  using sint_sext_word [of "BitWidth x" "VAL x"] single_word(3) [OF assms] wf_repD(1,3) [OF assms(1)] assms(2)
  by (simp add: isSingleWord_def sval_def)

text \<open>The magnitude of a negative value, as \<open>slt\<close> computes it.\<close>

lemma magnitude:
  assumes "wf_rep x" and "isNegative_rep x"
  defines "z \<equiv> op_inc (flipAllBits x)"
  shows "wf_rep z" and "BitWidth z = BitWidth x" and "int (ival (abs_apint z)) = - sval (abs_apint x)"
proof -
  let ?w = "BitWidth x" and ?X = "ival (abs_apint x)"
  have neg: "2 ^ (?w - 1) \<le> ?X" using assms(2) by (simp add: isNegative_value [OF assms(1)] isNegative_def)
  note f = clear_set_flip_all(3) [OF assms(1)]
  then have z: "wf_rep z \<and> abs_apint z = ap_inc (abs_apint (flipAllBits x))"
    unfolding z_def by (intro refines_inc_dec) simp
  then show "wf_rep z" by blast
  have "bitWidth (abs_apint z) = ?w" using z f by simp
  then show "BitWidth z = ?w" by simp
  have "0 < ?X" using neg by (rule less_le_trans [rotated]) simp
  moreover have "?X < 2 ^ ?w" by (rule wf_repD(3) [OF assms(1)])
  ultimately have "ival (abs_apint z) = 2 ^ ?w - ?X"
    using z f by (simp add: ap_inc_def ap_add_def mod_simps)
  then show "int (ival (abs_apint z)) = - sval (abs_apint x)"
    using \<open>?X < 2 ^ ?w\<close> assms(2) by (simp add: sval_value [OF assms(1)])
qed

lemma ugt_value:
  assumes "wf_rep x" and "wf_rep y" and "BitWidth x = BitWidth y"
  shows "ugt_rep x y = Some (ival (abs_apint x) > ival (abs_apint y))"
  using ult_value [OF assms] op_eq_value [OF assms] by (auto simp: ugt_rep_def)

lemma slt_value:
  assumes "wf_rep x" and "wf_rep y" and "BitWidth x = BitWidth y"
  shows "slt_rep x y = Some (sval (abs_apint x) < sval (abs_apint y))"
proof (cases "isSingleWord x")
  case True
  with assms have y: "isSingleWord y" by (simp add: isSingleWord_def)
  show ?thesis
    using sint_single [OF assms(1) True] sint_single [OF assms(2) y] True assms(3)
    by (simp add: slt_rep_def word_sless_alt Let_def)
next
  case False
  have nonneg: "\<not> isNegative_rep z \<Longrightarrow> sval (abs_apint z) = int (ival (abs_apint z))" if "wf_rep z" for z
    by (simp add: sval_value [OF that])
  have neg: "isNegative_rep z \<Longrightarrow> sval (abs_apint z) < 0" if "wf_rep z" for z
    using ival_int [OF that] by (simp add: sval_value [OF that])
  have d: "slt_rep x y = (let lhs = if isNegative_rep x then op_inc (flipAllBits x) else x;
      rhs = if isNegative_rep y then op_inc (flipAllBits y) else y
    in if isNegative_rep x then if isNegative_rep y then ugt_rep lhs rhs else Some True
       else if isNegative_rep y then Some False else ult_rep lhs rhs)"
    using False assms(3) by (simp add: slt_rep_def Let_def)
  show ?thesis
  proof (cases "isNegative_rep x"; cases "isNegative_rep y")
    assume n: "isNegative_rep x" "isNegative_rep y"
    note mx = magnitude [OF assms(1) n(1)] and my = magnitude [OF assms(2) n(2)]
    have "slt_rep x y = Some (ival (abs_apint (op_inc (flipAllBits x))) > ival (abs_apint (op_inc (flipAllBits y))))"
      using ugt_value [OF mx(1) my(1)] mx(2) my(2) assms(3) n by (simp add: d)
    then show ?thesis
      by (simp only: of_nat_less_iff [where 'a = int, symmetric] mx(3) my(3) neg_less_iff_less)
  next
    assume "isNegative_rep x" "\<not> isNegative_rep y"
    with neg [OF assms(1)] nonneg [OF assms(2)] show ?thesis by (simp add: d)
  next
    assume "\<not> isNegative_rep x" "isNegative_rep y"
    with nonneg [OF assms(1)] neg [OF assms(2)] show ?thesis by (simp add: d)
  next
    assume "\<not> isNegative_rep x" "\<not> isNegative_rep y"
    with nonneg [OF assms(1)] nonneg [OF assms(2)] ult_value [OF assms] show ?thesis by (simp add: d)
  qed
qed

lemma no_wrap: "b < 2 ^ w \<Longrightarrow> int a \<noteq> int b - 2 ^ w"
proof -
  assume "b < 2 ^ w"
  then have "int b < 2 ^ w" by (metis of_nat_less_iff of_nat_numeral of_nat_power)
  then show ?thesis by linarith
qed

lemma compare_values:
  assumes "wf_rep x" and "wf_rep y" and "BitWidth x = BitWidth y"
  shows "op_eq x y = Some (abs_apint x = abs_apint y)"
    and "ult_rep x y = Some (ult (abs_apint x) (abs_apint y))" and "ule_rep x y = Some (ule (abs_apint x) (abs_apint y))"
    and "ugt_rep x y = Some (ugt (abs_apint x) (abs_apint y))" and "uge_rep x y = Some (uge (abs_apint x) (abs_apint y))"
    and "slt_rep x y = Some (slt (abs_apint x) (abs_apint y))" and "sle_rep x y = Some (sle (abs_apint x) (abs_apint y))"
    and "sgt_rep x y = Some (sgt (abs_apint x) (abs_apint y))" and "sge_rep x y = Some (sge (abs_apint x) (abs_apint y))"
proof -
  have s: "sval (abs_apint x) = sval (abs_apint y) \<longleftrightarrow> ival (abs_apint x) = ival (abs_apint y)"
    using wf_repD(3) [OF assms(1)] wf_repD(3) [OF assms(2)] assms(3)
    by (auto simp: sval_def no_wrap no_wrap [symmetric] split: if_splits)
  note v = op_eq_value [OF assms] ult_value [OF assms] slt_value [OF assms]
  show "op_eq x y = Some (abs_apint x = abs_apint y)"
    "ult_rep x y = Some (ult (abs_apint x) (abs_apint y))" "ule_rep x y = Some (ule (abs_apint x) (abs_apint y))"
    "ugt_rep x y = Some (ugt (abs_apint x) (abs_apint y))" "uge_rep x y = Some (uge (abs_apint x) (abs_apint y))"
    "slt_rep x y = Some (slt (abs_apint x) (abs_apint y))"
    using v assms(3) by (auto simp: apint_eq_iff ult_def ule_def ugt_def uge_def slt_def ule_rep_def ugt_rep_def uge_rep_def)
  show "sle_rep x y = Some (sle (abs_apint x) (abs_apint y))"
    "sgt_rep x y = Some (sgt (abs_apint x) (abs_apint y))" "sge_rep x y = Some (sge (abs_apint x) (abs_apint y))"
    using v s by (auto simp: sle_def sgt_def sge_def sle_rep_def sgt_rep_def sge_rep_def)
qed

section \<open>Runs of ones and zeroes, and the values that fit a word\<close>

lemma bit_length_mask: "bit_length (2 ^ s - 1) = s"
proof (cases s)
  case (Suc n)
  have "\<not> 2 ^ s - 1 < (2 :: nat) ^ n" using one_le_power [of "2 :: nat" n] Suc by simp
  then have "\<not> bit_length (2 ^ s - 1) \<le> n" by (simp only: bit_length_le not_less)
  moreover have "bit_length (2 ^ s - 1) \<le> s" by (simp add: bit_length_le)
  ultimately show ?thesis using Suc by simp
qed simp

lemma unat_not: "unat (NOT u) = 2 ^ 64 - 1 - unat u" for u :: u64
proof -
  have "NOT u = - 1 - u" by (simp add: not_eq_complement)
  then show ?thesis
    using unat_sub_borrow [of "- 1 :: u64" u] u64_less [of u]
    by (simp add: unsigned_minus_1_eq_mask mask_eq_exp_minus_1 split: if_splits)
qed

lemma complement_split:
  fixes V r :: nat
  assumes "V < 2 ^ b" and "r < 2 ^ s"
  shows "2 ^ (b + s) - 1 - (r + V * 2 ^ s) = (2 ^ b - 1 - V) * 2 ^ s + (2 ^ s - 1 - r)"
proof -
  obtain T where T: "2 ^ b = V + T + 1" using assms(1) that [of "2 ^ b - 1 - V"] by simp
  obtain R where R: "2 ^ s = r + R + 1" using assms(2) that [of "2 ^ s - 1 - r"] by simp
  show ?thesis unfolding power_add T by (simp add: R algebra_simps)
qed

lemma countLeadingOnes_shifted:
  fixes v :: u64
  assumes "0 < b" and "b \<le> 64" and "unat v < 2 ^ b"
  shows "countLeadingOnes (push_bit (64 - b) v) = b - bit_length (2 ^ b - 1 - unat v)"
proof -
  let ?s = "64 - b"
  have "unat v * 2 ^ ?s < 2 ^ b * 2 ^ ?s" using assms(3) by simp
  also have "2 ^ b * 2 ^ ?s = (2 :: nat) ^ 64" using assms(2) by (simp only: power_add [symmetric]) simp
  finally have "unat (push_bit ?s v) = unat v * 2 ^ ?s"
    unfolding unsigned_push_bit_eq unfolding push_bit_eq_mult by (intro take_bit_nat_eq_self) simp
  moreover have "(2 :: nat) ^ 64 = 2 ^ (b + ?s)" using assms(2) by simp
  ultimately have u: "unat (NOT (push_bit ?s v)) = (2 ^ ?s - 1) + (2 ^ b - 1 - unat v) * 2 ^ ?s"
    using complement_split [OF assms(3), of 0 ?s] by (simp only: unat_not) (simp add: add.commute)
  have "bit_length (unat (NOT (push_bit ?s v))) =
      (if unat v = 2 ^ b - 1 then ?s else bit_length (2 ^ b - 1 - unat v) + ?s)"
    unfolding u using bit_length_high [of "2 ^ b - 1 - unat v" "2 ^ ?s - 1" ?s] bit_length_mask [of ?s] assms(3) by auto
  then show ?thesis using assms(2) by (simp add: countLeadingOnes_def countLeadingZeros_bit_length)
qed

lemma bval_complement: "i \<le> length p \<Longrightarrow> bval (map NOT p) i = 2 ^ (64 * i) - 1 - bval p i"
proof -
  assume i: "i \<le> length p"
  have "bval (tcComplement p i) i = bval (map NOT p) i"
    by (rule bval_cong) (use i in \<open>simp add: nth_tcComplement\<close>)
  with bval_tcComplement [OF i] show ?thesis by simp
qed

lemma not_eq_0_iff: "NOT w = 0 \<longleftrightarrow> w = - 1" for w :: u64
proof
  assume "NOT w = 0"
  then have "NOT (NOT w) = NOT 0" by (rule arg_cong)
  then show "w = - 1" by simp
qed simp

lemma leading_one_words_value:
  "i \<le> length p \<Longrightarrow> leading_one_words p i c = c + (64 * i - bit_length (2 ^ (64 * i) - 1 - bval p i))"
proof -
  assume i: "i \<le> length p"
  have "leading_one_words p i c = leading_zero_words (map NOT p) i c"
    using i by (induction i arbitrary: c) (auto simp: countLeadingOnes_def not_eq_0_iff)
  with i show ?thesis by (simp only: leading_zero_words_value bval_complement)
qed

lemma countLeadingOnes_value:
  assumes "wf_rep x"
  shows "countLeadingOnes_rep x = BitWidth x - bit_length (2 ^ BitWidth x - 1 - ival (abs_apint x))"
proof (cases "isSingleWord x")
  case True
  with single_word(3) [OF assms True] wf_repD(1,3) [OF assms] show ?thesis
    by (simp add: countLeadingOnes_rep_def isSingleWord_def countLeadingOnes_shifted)
next
  case False
  define n where "n = getNumWords (BitWidth x)"
  define b where "b = (if BitWidth x mod 64 = 0 then 64 else BitWidth x mod 64)"
  define t where "t = pVal x ! (n - 1)"
  define L where "L = bval (pVal x) (n - 1)"
  note top = top_word [OF assms, folded b_def n_def, folded t_def L_def]
  have b: "0 < b" "b \<le> 64" by (simp_all add: b_def)
  have L: "L < 2 ^ (64 * (n - 1))" unfolding L_def by (rule bval_less)
  have w: "2 ^ BitWidth x - 1 - ival (abs_apint x) =
      (2 ^ (64 * (n - 1)) - 1 - L) + (2 ^ b - 1 - unat t) * 2 ^ (64 * (n - 1))"
    unfolding top(3) using complement_split [OF top(2) L] by (simp add: top(1) add.commute)
  have "countLeadingOnes_rep x =
      (if countLeadingOnes (push_bit (64 - b) t) = b then leading_one_words (pVal x) (n - 1) b
       else countLeadingOnes (push_bit (64 - b) t))"
    using False by (simp add: countLeadingOnes_rep_def Let_def t_def b_def n_def)
  also have "\<dots> = (if bit_length (2 ^ b - 1 - unat t) = 0
      then b + (64 * (n - 1) - bit_length (2 ^ (64 * (n - 1)) - 1 - L))
      else b - bit_length (2 ^ b - 1 - unat t))"
  proof -
    have "bit_length (2 ^ b - 1 - unat t) \<le> b" by (simp add: bit_length_le less_imp_diff_less)
    then show ?thesis
      using b top(2) wf_repD(2) [OF assms] by (auto simp: countLeadingOnes_shifted leading_one_words_value L_def n_def)
  qed
  also have "\<dots> = BitWidth x - bit_length (2 ^ BitWidth x - 1 - ival (abs_apint x))"
  proof (cases "2 ^ b - 1 - unat t = 0")
    case True
    have "bit_length (2 ^ (64 * (n - 1)) - 1 - L) \<le> 64 * (n - 1)"
      by (simp add: bit_length_le less_imp_diff_less)
    with True show ?thesis unfolding w by (simp add: top(1) add.commute)
  next
    case False
    have "bit_length (2 ^ b - 1 - unat t) \<noteq> 0"
      using False by (metis bit_length_bounds(1) less_one power_0)
    moreover have "bit_length (2 ^ b - 1 - unat t) \<le> b" by (simp add: bit_length_le less_imp_diff_less)
    moreover have "bit_length ((2 ^ (64 * (n - 1)) - 1 - L) + (2 ^ b - 1 - unat t) * 2 ^ (64 * (n - 1))) =
        bit_length (2 ^ b - 1 - unat t) + 64 * (n - 1)"
      by (rule bit_length_high) (use False L in simp_all)
    ultimately show ?thesis unfolding w by (simp add: top(1) add.commute)
  qed
  finally show ?thesis .
qed

text \<open>A run of \<open>r\<close> bits \<open>v\<close> at the low end of a value of \<open>w\<close> bits, as long as it goes.\<close>

definition trailing_run :: "bool \<Rightarrow> nat \<Rightarrow> nat \<Rightarrow> nat \<Rightarrow> bool" where
  "trailing_run v w X r \<longleftrightarrow> r \<le> w \<and> (\<forall>k<r. bit X k = v) \<and> (r < w \<longrightarrow> bit X r \<noteq> v)"

lemma trailing_run_unique: "trailing_run v w X r \<Longrightarrow> trailing_run v w X s \<Longrightarrow> r = s"
  unfolding trailing_run_def by (metis linorder_neqE_nat order_less_le_trans)

lemma countTrailingZeros_run: "trailing_run False 64 (unat V) (countTrailingZeros V)"
proof (cases "V = 0")
  case True
  then show ?thesis by (simp add: trailing_run_def countTrailingZeros_def)
next
  case False
  then obtain m where m: "unat V = 2 ^ countTrailingZeros V * m" "odd m" by (rule countTrailingZeros_spec)
  have "bit (unat V) k \<longleftrightarrow> countTrailingZeros V \<le> k \<and> bit m (k - countTrailingZeros V)" for k
    using bit_push_bit_iff [of "countTrailingZeros V" m k] by (simp add: m(1) push_bit_eq_mult mult.commute)
  then have "bit (unat V) (countTrailingZeros V)" "\<forall>k<countTrailingZeros V. \<not> bit (unat V) k"
    using m(2) by (simp_all add: bit_0)
  moreover from this(1) have "countTrailingZeros V < 64" by (simp add: bit_unsigned_iff bit_part_less)
  ultimately show ?thesis by (simp add: trailing_run_def)
qed

lemma countTrailingZeros_bits:
  assumes "V \<noteq> 0"
  shows "countTrailingZeros V < 64" and "bit V (countTrailingZeros V)" and "\<forall>k<countTrailingZeros V. \<not> bit V k"
proof -
  note run = countTrailingZeros_run [of V, unfolded trailing_run_def]
  have "V = 0" if "64 \<le> countTrailingZeros V"
    by (rule bit_word_eqI) (use run that in \<open>auto simp: bit_unsigned_iff\<close>)
  with assms show "countTrailingZeros V < 64" by (metis not_le)
  with run show "bit V (countTrailingZeros V)" "\<forall>k<countTrailingZeros V. \<not> bit V k"
    by (auto simp: bit_unsigned_iff)
qed

lemma trailing_words_run:
  "i \<le> n \<Longrightarrow> (\<forall>j<i. p ! j = 0) \<Longrightarrow> c = 64 * i \<Longrightarrow>
    trailing_run False (64 * n) (bval p n) (trailing_words 0 countTrailingZeros p n i c)"
proof (induction "0 :: u64" countTrailingZeros p n i c rule: trailing_words.induct)
  case (1 p n i c)
  show ?case
  proof (cases "i < n")
    case False
    with "1.prems" have "i = n" "bval p n = 0" by (auto simp: bval_eq_0_iff)
    then show ?thesis using "1.prems" by (simp add: trailing_words.simps [of 0 _ p n n] trailing_run_def)
  next
    case True
    show ?thesis
    proof (cases "p ! i = 0")
      case z: True
      have "trailing_run False (64 * n) (bval p n) (trailing_words 0 countTrailingZeros p n (Suc i) (c + 64))"
        by (rule "1.hyps" [OF True z]) (use True z "1.prems" in \<open>auto simp: less_Suc_eq\<close>)
      with True z show ?thesis by (simp add: trailing_words.simps [of 0 _ p n i])
    next
      case nz: False
      let ?r = "countTrailingZeros (p ! i)"
      have r: "?r < 64" "bit (p ! i) ?r" "\<forall>k<?r. \<not> bit (p ! i) k"
        using countTrailingZeros_bits [OF nz] by simp_all
      have "\<not> bit (bval p n) k" if "k < 64 * i + ?r" for k
      proof (cases "k < 64 * i")
        case True
        then have "p ! (k div 64) = 0" using "1.prems"(2) index_words [of k i] by blast
        then show ?thesis by (simp add: bit_bval)
      next
        case False
        then have "k div 64 = i" "k mod 64 = k - 64 * i" "k - 64 * i < ?r" using that r(1) by (auto simp: div_nat_eqI mod_nat_eqI)
        with r(3) show ?thesis by (simp add: bit_bval)
      qed
      moreover have "bit (bval p n) (64 * i + ?r)" using True r by (simp add: bit_bval_at)
      moreover have "64 * i + ?r < 64 * n" using True r(1) by linarith
      ultimately show ?thesis
        using True nz "1.prems"(3) by (simp add: trailing_words.simps [of 0 _ p n i] trailing_run_def)
    qed
  qed
qed

lemma trailing_words_ones:
  "n \<le> length p \<Longrightarrow> trailing_words (- 1) countTrailingOnes p n i c = trailing_words 0 countTrailingZeros (map NOT p) n i c"
proof (induction "- 1 :: u64" countTrailingOnes p n i c rule: trailing_words.induct)
  case (1 p n i c)
  then show ?case
    by (subst (1 2) trailing_words.simps) (simp add: not_eq_0_iff countTrailingOnes_def)
qed

lemma trailing_run_min:
  "trailing_run v m X r \<Longrightarrow> w \<le> m \<Longrightarrow> trailing_run v w X (min r w)"
  by (auto simp: trailing_run_def min_def)

lemma countTrailing_values:
  assumes "wf_rep x"
  shows "trailing_run False (BitWidth x) (ival (abs_apint x)) (countTrailingZeros_rep x)"
    and "trailing_run True (BitWidth x) (ival (abs_apint x)) (countTrailingOnes_rep x)"
proof -
  let ?w = "BitWidth x" and ?n = "getNumWords (BitWidth x)" and ?X = "ival (abs_apint x)"
  note single = single_word [OF assms] and w = wf_repD(1,2) [OF assms]
  have "trailing_run False ?w (bval p ?n) (min (trailing_words 0 countTrailingZeros p ?n 0 0) ?w)" for p
    by (rule trailing_run_min [OF trailing_words_run]) (simp_all add: getNumWords_bounds)
  note zeros = this [of "pVal x"] this [of "map NOT (pVal x)"]
  have flip: "trailing_run True ?w ?X r" if "trailing_run False ?w (bval (map NOT (pVal x)) ?n) r" for r
  proof -
    have "bit (bval (map NOT (pVal x)) ?n) k \<longleftrightarrow> \<not> bit ?X k" if "k < ?w" for k
      using that wf_div_less [OF that] getNumWords_bounds(1) [of ?w] w(2)
      by (simp add: bit_ival bit_bval bit_not_iff)
    then show ?thesis using that by (auto simp: trailing_run_def)
  qed
  show "trailing_run False ?w ?X (countTrailingZeros_rep x)"
  proof (cases "isSingleWord x")
    case True
    then show ?thesis
      using trailing_run_min [OF countTrailingZeros_run [of "VAL x"], of ?w] single(3)
      by (simp add: countTrailingZeros_rep_def isSingleWord_def)
  next
    case False
    then show ?thesis using zeros(1) by (simp add: countTrailingZeros_rep_def ival_abs)
  qed
  show "trailing_run True ?w ?X (countTrailingOnes_rep x)"
  proof (cases "isSingleWord x")
    case True
    have "map NOT (pVal x) = [NOT (VAL x)]" "?n = 1" using single(1,2) True by simp_all
    then have "bval (map NOT (pVal x)) ?n = unat (NOT (VAL x))" by (simp add: bval_single)
    then have "trailing_run True ?w ?X (min (countTrailingZeros (NOT (VAL x))) ?w)"
      using trailing_run_min [OF countTrailingZeros_run [of "NOT (VAL x)"], of ?w] True
      by (intro flip) (simp add: isSingleWord_def)
    moreover have "countTrailingZeros (NOT (VAL x)) \<le> ?w"
    proof (cases "?w = 64")
      case False
      then have "?w < 64" using True by (simp add: isSingleWord_def)
      moreover have "\<not> bit (VAL x) ?w"
        using bit_ival_width [OF assms, of ?w] \<open>?w < 64\<close>
        unfolding single(3) [OF True, symmetric] by (auto simp: bit_unsigned_iff)
      ultimately have "bit (unat (NOT (VAL x))) ?w" by (simp add: bit_unsigned_iff bit_not_iff)
      then show ?thesis
        using countTrailingZeros_run [of "NOT (VAL x)"] unfolding trailing_run_def by (metis not_le)
    qed (use countTrailingZeros_run [of "NOT (VAL x)"] in \<open>simp add: trailing_run_def\<close>)
    ultimately show ?thesis using True by (simp add: countTrailingOnes_rep_def countTrailingOnes_def min_absorb1)
  next
    case False
    then show ?thesis
      using flip [OF zeros(2)] w(2) by (simp add: countTrailingOnes_rep_def countTrailingOnesSlowCase_def trailing_words_ones)
  qed
qed

lemma op_not_value:
  assumes "wf_rep x"
  shows "op_not x \<longleftrightarrow> ival (abs_apint x) = 0"
proof (cases "isSingleWord x")
  case True
  with single_word(3) [OF assms True] show ?thesis by (auto simp: op_not_def simp flip: unat_eq_0)
qed (auto simp: op_not_def list_all_iff ival_abs bval_eq_0_iff)

text \<open>The bits that the signed value needs.\<close>

lemma getMinSignedBits_value:
  assumes "wf_rep x"
  shows "getMinSignedBits x \<le> k \<longleftrightarrow>
    0 < k \<and> - (2 ^ (k - 1)) \<le> sval (abs_apint x) \<and> sval (abs_apint x) < 2 ^ (k - 1)"
proof -
  let ?w = "BitWidth x" and ?X = "ival (abs_apint x)"
  have X: "?X < 2 ^ ?w" by (rule wf_repD(3) [OF assms])
  have le: "bit_length v + 1 \<le> k \<longleftrightarrow> 0 < k \<and> int v < 2 ^ (k - 1)" for v
  proof -
    have "int v < 2 ^ (k - 1) \<longleftrightarrow> bit_length v \<le> k - 1"
      unfolding bit_length_le by (metis of_nat_less_iff of_nat_numeral of_nat_power)
    then show ?thesis by auto
  qed
  show ?thesis
  proof (cases "isNegative_rep x")
    case True
    define v where "v = 2 ^ ?w - 1 - ?X"
    have v: "int v = - sval (abs_apint x) - 1"
      using X True by (simp add: v_def sval_value [OF assms] of_nat_diff)
    have "bit_length v \<le> ?w" by (simp add: v_def bit_length_le less_imp_diff_less)
    then have "getMinSignedBits x = bit_length v + 1"
      using True by (simp add: getMinSignedBits_def countLeadingOnes_value [OF assms] v_def)
    then show ?thesis using v le [of v] by auto
  next
    case False
    have v: "int ?X = sval (abs_apint x)" using False by (simp add: sval_value [OF assms])
    have "getMinSignedBits x = bit_length ?X + 1"
      using False by (simp add: getMinSignedBits_def getActiveBits_value [OF assms])
    moreover have "- (2 ^ (k - 1)) \<le> sval (abs_apint x)"
      using v by (metis neg_le_0_iff_le of_nat_0_le_iff order_trans zero_le_numeral zero_le_power)
    ultimately show ?thesis using v le [of ?X] by auto
  qed
qed

lemma getZExtValue_value:
  assumes "wf_rep x"
  shows "getZExtValue x = (if ival (abs_apint x) < 2 ^ 64 then Some (of_nat (ival (abs_apint x))) else None)"
proof (cases "isSingleWord x")
  case True
  have "ival (abs_apint x) < 2 ^ 64" using u64_less [of "VAL x"] single_word(3) [OF assms True] by simp
  moreover have "of_nat (ival (abs_apint x)) = VAL x"
    unfolding single_word(3) [OF assms True, symmetric] by (simp only: of_nat_unat ucast_id)
  ultimately show ?thesis using True by (simp add: getZExtValue_def)
next
  case False
  have "getActiveBits x \<le> 64 \<longleftrightarrow> ival (abs_apint x) < 2 ^ 64"
    unfolding getActiveBits_value [OF assms] by (rule bit_length_le)
  moreover have "of_nat (ival (abs_apint x)) = pVal x ! 0" if "ival (abs_apint x) < 2 ^ 64"
    unfolding bval_first [OF assms that order_refl, symmetric] by (simp only: of_nat_unat ucast_id)
  ultimately show ?thesis using False by (simp add: getZExtValue_def)
qed

lemma sint_eqI:
  fixes v :: u64
  assumes "int (unat v) mod 2 ^ 64 = s mod 2 ^ 64" and "- (2 ^ 63) \<le> s" and "s < 2 ^ 63"
  shows "sint v = s"
proof -
  have e: "uint v = s mod 2 ^ 64"
    using assms(1) uint_sint [of v] by (simp add: take_bit_eq_mod)
  have "sint v = s + (if s < 0 then 2 ^ 64 else 0) - (if v <s 0 then 2 ^ 64 else 0)"
    using unat_sint [of v] e assms(2,3) mod_pos_pos_trivial [of "s + 2 ^ 64" "2 ^ 64"] by (cases "s < 0") simp_all
  moreover have "- (2 ^ 63) \<le> sint v" "sint v < 2 ^ 63" using sint_ge [of v] sint_less [of v] by simp_all
  moreover have "v <s 0 \<longleftrightarrow> sint v < 0" by (simp add: word_sless_alt)
  ultimately show ?thesis using assms(2,3) by (auto split: if_splits)
qed

lemma getSExtValue_value:
  assumes "wf_rep x"
  shows "map_option sint (getSExtValue x) =
    (if - (2 ^ 63) \<le> sval (abs_apint x) \<and> sval (abs_apint x) < 2 ^ 63 then Some (sval (abs_apint x)) else None)"
proof (cases "isSingleWord x")
  case True
  have "sval (abs_apint x) = sint (signed_drop_bit (64 - BitWidth x) (push_bit (64 - BitWidth x) (VAL x)))"
    using sint_single [OF assms True] by simp
  moreover have "- (2 ^ 63) \<le> sint v" "sint v < 2 ^ 63" for v :: u64
    using sint_ge [of v] sint_less [of v] by simp_all
  ultimately show ?thesis using True by (simp add: getSExtValue_def)
next
  case False
  have "sint (pVal x ! 0) = sval (abs_apint x)" if "- (2 ^ 63) \<le> sval (abs_apint x)" "sval (abs_apint x) < 2 ^ 63"
  proof (rule sint_eqI [OF _ that])
    have n: "1 \<le> getNumWords (BitWidth x)" using wf_repD(1) [OF assms] by (simp add: Suc_le_eq)
    have "int (unat (pVal x ! 0)) = int (ival (abs_apint x)) mod 2 ^ 64"
      using bval_mod [OF n, of "pVal x"] by (simp add: ival_abs bval_Suc zmod_int)
    moreover have "(2 :: int) ^ BitWidth x mod 2 ^ 64 = 0"
      by (rule dvd_imp_mod_0, rule le_imp_power_dvd) (use False in \<open>simp add: isSingleWord_def\<close>)
    then have "(int (ival (abs_apint x)) - 2 ^ BitWidth x) mod 2 ^ 64 = int (ival (abs_apint x)) mod 2 ^ 64"
      by (metis diff_zero mod_diff_right_eq)
    ultimately show "int (unat (pVal x ! 0)) mod 2 ^ 64 = sval (abs_apint x) mod 2 ^ 64"
      by (simp add: sval_value [OF assms])
  qed
  then show ?thesis
    using False getMinSignedBits_value [OF assms, of 64] by (auto simp: getSExtValue_def)
qed

lemma getLimitedValue_value:
  assumes "wf_rep x"
  shows "unat (getLimitedValue x L) = min (ival (abs_apint x)) (unat L)"
proof (cases "ival (abs_apint x) < 2 ^ 64")
  case True
  have "getActiveBits x \<le> 64" unfolding getActiveBits_value [OF assms] bit_length_le by (rule True)
  moreover have "unat (of_nat (ival (abs_apint x)) :: u64) = ival (abs_apint x)"
    using True by (simp add: unsigned_of_nat take_bit_nat_eq_self)
  ultimately show ?thesis
    using True by (simp add: getLimitedValue_def getZExtValue_value [OF assms] word_less_nat_alt min_def)
next
  case False
  then have "\<not> getActiveBits x \<le> 64" unfolding getActiveBits_value [OF assms] bit_length_le .
  moreover have "unat L \<le> ival (abs_apint x)" using False u64_less [of L] by linarith
  ultimately show ?thesis by (simp add: getLimitedValue_def min_def)
qed

section \<open>Changing the width\<close>

lemma ival_bit_mod: "bit (ival (mk_apint w v)) k \<longleftrightarrow> k < w \<and> bit v k"
  by (simp add: bit_take_bit_iff flip: take_bit_eq_mod)

lemma refines_zext:
  assumes "wf_rep x" and "BitWidth x < w"
  shows "refines (zext x w) (ap_zext (abs_apint x) w)"
proof (cases "w \<le> 64")
  case True
  then have "isSingleWord x" "0 < w" using assms(2) by (simp_all add: isSingleWord_def)
  with True single_word(3) [OF assms(1)] construct_unsigned [of w] assms(2) show ?thesis
    by (simp add: zext_def ap_zext_def)
next
  case False
  let ?n = "getNumWords (BitWidth x)" and ?N = "getNumWords w"
  have le: "?n \<le> ?N" using assms(2) by (simp add: getNumWords_def div_le_mono)
  let ?q = "for_upto 0 ?n (\<lambda>i p. p[i := pVal x ! i]) (replicate ?N 0)"
  let ?p = "for_upto ?n ?N (\<lambda>i p. p[i := 0]) ?q"
  have q: "length ?q = ?N" "\<forall>j<?N. ?q ! j = (if j < ?n then pVal x ! j else 0)"
    using for_upto_update [of ?n "replicate ?N 0" 0 "\<lambda>i _. pVal x ! i"] le by simp_all
  have p: "length ?p = ?N" "\<forall>j<?N. ?p ! j = (if j < ?n then pVal x ! j else 0)"
    using for_upto_update [of ?N ?q ?n "\<lambda>_ _. 0"] le q by auto
  have "bit (?p ! (k div 64)) (k mod 64) \<longleftrightarrow> bit (ival (abs_apint x)) k" if "k < 64 * ?N" for k
    using that p(2) index_words [OF that] index_words [of k ?n] div_less_iff_less_mult [of 64 k ?n]
    by (auto simp: bit_ival mult.commute)
  moreover have "ival (abs_apint x) < 2 ^ w"
    by (rule less_le_trans [OF wf_repD(3) [OF assms(1)]]) (use assms(2) in simp)
  ultimately show ?thesis
    using rep_bitsI [of w ?p "ival (abs_apint x)"] p(1) assms(2) False by (simp add: zext_def ap_zext_def Let_def)
qed

lemma bit_low_part:
  "r < 64 \<Longrightarrow> b < 64 \<Longrightarrow> bit (drop_bit (64 - r) (push_bit (64 - r) v)) b \<longleftrightarrow> b < r \<and> bit v b" for v :: u64
  by (auto simp: bit_simps)

lemma refines_trunc:
  assumes "wf_rep x" and "w < BitWidth x" and "0 < w"
  shows "refines (trunc x w) (ap_trunc (abs_apint x) w)"
proof (cases "w \<le> 64")
  case True
  have n: "1 \<le> getNumWords (BitWidth x)" using wf_repD(1) [OF assms(1)] by (simp add: Suc_le_eq)
  have "unat (pVal x ! 0) mod 2 ^ w = ival (abs_apint x) mod 2 ^ w"
  proof -
    have "unat (pVal x ! 0) = ival (abs_apint x) mod 2 ^ 64"
      using bval_mod [OF n, of "pVal x"] by (simp add: ival_abs bval_Suc)
    moreover have "(2 :: nat) ^ w dvd 2 ^ 64" using True by (rule le_imp_power_dvd)
    ultimately show ?thesis by (simp only: mod_mod_cancel)
  qed
  with True assms construct_unsigned [of w] show ?thesis
    by (simp add: trunc_def ap_trunc_def mk_apint_def)
next
  case False
  let ?N = "getNumWords w" and ?m = "w div 64"
  define bits where "bits = (64 - w mod 64) mod 64"
  let ?q = "for_upto 0 ?m (\<lambda>i p. p[i := pVal x ! i]) (replicate ?N 0)"
  let ?p = "if bits \<noteq> 0 then ?q[?m := drop_bit bits (push_bit bits (pVal x ! ?m))] else ?q"
  have mN: "?m \<le> ?N" by (simp add: getNumWords_def div_le_mono)
  have q: "length ?q = ?N" "\<forall>j<?N. ?q ! j = (if j < ?m then pVal x ! j else 0)"
    using for_upto_update [of ?m "replicate ?N 0" 0 "\<lambda>i _. pVal x ! i"] mN by simp_all
  have "bit (?p ! (k div 64)) (k mod 64) \<longleftrightarrow> bit (ival (abs_apint x) mod 2 ^ w) k" if k: "k < 64 * ?N" for k
  proof -
    have kw: "k < w \<Longrightarrow> k < 64 * getNumWords (BitWidth x)"
      using getNumWords_bounds(1) [of "BitWidth x"] assms(2) by linarith
    show ?thesis
    proof (cases rule: getNumWords_cases [of w])
      case exact
      then show ?thesis
        using k q(2) kw index_words [OF k] by (simp add: bits_def bit_ival bit_take_bit_iff flip: take_bit_eq_mod)
    next
      case more
      then have b: "bits = 64 - w mod 64" "bits \<noteq> 0" by (simp_all add: bits_def)
      show ?thesis
      proof (cases "k div 64 < ?m")
        case True
        then have "k < w" by (metis div_le_mono not_le)
        with True k q kw index_words [OF k] b show ?thesis
          by (simp add: nth_list_update bit_ival bit_take_bit_iff flip: take_bit_eq_mod)
      next
        case top: False
        then have m: "k div 64 = ?m" using index_words [OF k] more by simp
        then have "k < w \<longleftrightarrow> k mod 64 < w mod 64"
          by (metis add_less_cancel_left mult_div_mod_eq)
        moreover have "?p ! (k div 64) = drop_bit (64 - w mod 64) (push_bit (64 - w mod 64) (pVal x ! (k div 64)))"
          using b q(1) more(2) by (simp only: m if_True not_False_eq_True nth_list_update_eq lessI)
        moreover have "bit (pVal x ! (k div 64)) (k mod 64) = bit (ival (abs_apint x)) k" if "k < w"
          using kw [OF that] by (simp add: bit_ival)
        ultimately show ?thesis
          using bit_low_part [of "w mod 64" "k mod 64" "pVal x ! (k div 64)"]
          by (auto simp: bit_take_bit_iff simp flip: take_bit_eq_mod)
      qed
    qed
  qed
  from rep_bitsI [OF assms(3) _ _ this] q(1) show ?thesis
    using False assms by (simp add: trunc_def ap_trunc_def Let_def bits_def [symmetric] mk_apint_def)
qed

text \<open>The sign bit repeats above the width.\<close>

lemma bit_sval: "wf_rep x \<Longrightarrow> bit (sval (abs_apint x)) k \<longleftrightarrow> bit (ival (abs_apint x)) (min k (BitWidth x - 1))"
proof -
  assume x: "wf_rep x"
  let ?w = "BitWidth x" and ?X = "ival (abs_apint x)"
  note w = wf_repD(1,3) [OF x]
  have "sval (abs_apint x) = int ?X - 2 ^ ?w * of_bool (bit ?X (?w - 1))"
    using bit_top [OF w] by (simp add: sval_def not_le)
  also have "\<dots> = take_bit ?w (int ?X) - 2 ^ ?w * of_bool (bit (int ?X) (?w - 1))"
    using w(2) by (simp add: take_bit_of_nat take_bit_nat_eq_self bit_of_nat_iff_bit)
  also have "\<dots> = signed_take_bit (?w - 1) (int ?X)"
    using w(1) by (subst signed_take_bit_eq_take_bit_minus) simp
  finally show ?thesis by (simp add: bit_signed_take_bit_iff bit_of_nat_iff_bit min.commute)
qed

lemma of_sval_mk: "of_sval w i = mk_apint w (nat (i mod 2 ^ w))"
proof -
  have "nat (i mod 2 ^ w) < 2 ^ w" by (simp add: nat_less_iff)
  then show ?thesis by (simp add: of_sval_def mk_apint_def)
qed

lemma bit_nat_mod: "bit (nat (i mod 2 ^ w)) k \<longleftrightarrow> k < w \<and> bit i k" for i :: int
  by (simp add: bit_nat_iff bit_take_bit_iff flip: take_bit_eq_mod)

lemma refines_of_sval:
  assumes "0 < w" and "length p = getNumWords w"
    and "\<And>k. k < w \<Longrightarrow> bit (p ! (k div 64)) (k mod 64) \<longleftrightarrow> bit i k"
  shows "refines (Some (clearUnusedBits \<lparr>BitWidth = w, pVal = p\<rparr>)) (of_sval w i)"
  using clear_bitsI [OF assms(1,2), of "nat (i mod 2 ^ w)"] assms(3) by (simp add: bit_nat_mod of_sval_mk)

lemma unused_bits:
  "0 < w mod 64 \<Longrightarrow> (64 - w mod 64) mod 64 = 64 - w mod 64" "0 < w mod 64 \<Longrightarrow> (64 - w mod 64 = 0) = False"
  for w :: nat
proof -
  have "(64 - r) mod 64 = 64 - r" "(64 - r = 0) = False" if "0 < r" "r < 64" for r :: nat using that by simp_all
  from this [of "w mod 64"]
  show "0 < w mod 64 \<Longrightarrow> (64 - w mod 64) mod 64 = 64 - w mod 64" "0 < w mod 64 \<Longrightarrow> (64 - w mod 64 = 0) = False"
    by simp_all
qed

lemma bit_sign_word: "b < 64 \<Longrightarrow> bit (signed_drop_bit 63 w) b = bit w 63" for w :: u64
  by (cases "b = 0") (auto simp: bit_simps)

text \<open>The loops of \<open>sext\<close>: the words below \<open>k\<close> are written, and \<open>word\<close> is the next one.\<close>

definition sext_inv where
  "sext_inv s N k st \<longleftrightarrow> (case st of (p :: u64 list, word :: u64) \<Rightarrow> length p = N \<and>
     (\<forall>j<k. \<forall>b<64. bit (p ! j) b \<longleftrightarrow> bit (s :: int) (64 * j + b)) \<and> (\<forall>b<64. bit word b \<longleftrightarrow> bit s (64 * k + b)))"

lemma sext_fill:
  assumes "sext_inv s N i (p, word)" and "i \<le> m" and "m \<le> N"
    and "\<And>k. 64 * i + 63 \<le> k \<Longrightarrow> bit s k = bit s (64 * i + 63)"
  shows "sext_inv s N m (for_upto i m (\<lambda>i (p, word). (p[i := word], signed_drop_bit 63 word)) (p, word))"
proof (rule for_upto_invariant [where P = "sext_inv s N", OF assms(2,1)])
  fix k t
  assume k: "i \<le> k" "k < m" and inv: "sext_inv s N k t"
  obtain q w where t: "t = (q, w)" by (cases t)
  have sign: "bit s l = bit s (64 * i + 63)" if "64 * k + 63 \<le> l" for l
    by (rule assms(4)) (use that k(1) in linarith)
  have "bit (signed_drop_bit 63 w) b \<longleftrightarrow> bit s (64 * Suc k + b)" if "b < 64" for b
  proof -
    have "bit (signed_drop_bit 63 w) b \<longleftrightarrow> bit w 63" using that by (rule bit_sign_word)
    also have "\<dots> \<longleftrightarrow> bit s (64 * k + 63)" using inv by (simp add: sext_inv_def t)
    finally show ?thesis using sign [of "64 * k + 63"] sign [of "64 * Suc k + b"] by simp
  qed
  with inv k assms(3) show "sext_inv s N (Suc k) (case t of (p, word) \<Rightarrow> (p[k := word], signed_drop_bit 63 word))"
    by (auto simp: sext_inv_def t nth_list_update less_Suc_eq)
qed

lemma refines_sext:
  assumes "wf_rep x" and "BitWidth x < w"
  shows "refines (sext x w) (ap_sext (abs_apint x) w)"
proof (cases "w \<le> 64")
  case True
  let ?W = "BitWidth x"
  let ?v = "drop_bit (64 - w) (signed_drop_bit (w - ?W) (push_bit (64 - ?W) (VAL x)))"
  have single: "isSingleWord x" using True assms(2) by (simp add: isSingleWord_def)
  have W: "0 < ?W" by (rule wf_repD(1) [OF assms(1)])
  have "bit ?v k \<longleftrightarrow> bit (sval (abs_apint x)) k" if "k < w" for k
  proof -
    have "bit ?v k \<longleftrightarrow> bit (VAL x) (min k (?W - 1))"
      using that True assms(2) W by (auto simp: bit_simps min_def)
    then show ?thesis
      using that True assms(2) by (simp add: bit_sval [OF assms(1)] bit_unsigned_iff flip: single_word(3) [OF assms(1) single])
  qed
  then have "refines (Some (clearUnusedBits \<lparr>BitWidth = w, pVal = [?v]\<rparr>)) (of_sval w (sval (abs_apint x)))"
    using True assms(2) getNumWords_single [of w] by (intro refines_of_sval) simp_all
  with True assms(2) show ?thesis by (simp add: sext_def ap_sext_def construct_single Let_def)
next
  case False
  let ?W = "BitWidth x" and ?N = "getNumWords w" and ?s = "sval (abs_apint x)"
  let ?i = "?W div 64" and ?m = "w div 64"
  have W: "0 < ?W" by (rule wf_repD(1) [OF assms(1)])
  have im: "?i \<le> ?m" using assms(2) by (simp add: div_le_mono)
  have mN: "?m \<le> ?N" by (simp add: getNumWords_def div_le_mono)
  note s = bit_sval [OF assms(1)]
  have bitX: "bit (pVal x ! j) b \<longleftrightarrow> bit ?s (64 * j + b)" if "b < 64" "64 * j + b < ?W" for j b
  proof -
    have "min (64 * j + b) (?W - 1) = 64 * j + b" using that(2) by linarith
    with that getNumWords_bounds(1) [of ?W] show ?thesis by (simp only: s) (simp add: bit_ival)
  qed
  define c where "c = for_upto 0 ?i (\<lambda>i (p, word). (p[i := pVal x ! i], pVal x ! i)) (replicate ?N 0, 0 :: u64)"
  have c: "length (fst c) = ?N \<and> (\<forall>j<?i. fst c ! j = pVal x ! j) \<and> (0 < ?i \<longrightarrow> snd c = pVal x ! (?i - 1))"
    unfolding c_def
  proof (rule for_upto_invariant [where P = "\<lambda>k c. length (fst c) = ?N \<and> (\<forall>j<k. fst c ! j = pVal x ! j) \<and>
      (0 < k \<longrightarrow> snd c = pVal x ! (k - 1))"])
    fix k t
    assume "k < ?i" "length (fst t) = ?N \<and> (\<forall>j<k. fst t ! j = pVal x ! j) \<and> (0 < k \<longrightarrow> snd t = pVal x ! (k - 1))"
    then show "length (fst (case t of (p, word) \<Rightarrow> (p[k := pVal x ! k], pVal x ! k))) = ?N \<and>
        (\<forall>j<Suc k. fst (case t of (p, word) \<Rightarrow> (p[k := pVal x ! k], pVal x ! k)) ! j = pVal x ! j) \<and>
        (0 < Suc k \<longrightarrow> snd (case t of (p, word) \<Rightarrow> (p[k := pVal x ! k], pVal x ! k)) = pVal x ! (Suc k - 1))"
      using im mN by (auto simp: nth_list_update less_Suc_eq split: prod.splits)
  qed simp_all
  define word where "word = (if (64 - ?W mod 64) mod 64 \<noteq> 0
      then signed_drop_bit ((64 - ?W mod 64) mod 64) (push_bit ((64 - ?W mod 64) mod 64) (pVal x ! ?i))
      else signed_drop_bit 63 (snd c))"
  have word: "bit word b \<longleftrightarrow> bit ?s (64 * ?i + b)" if b: "b < 64" for b
  proof (cases rule: getNumWords_cases [of ?W])
    case exact
    then have i: "0 < ?i" "?W = 64 * ?i" using W by auto
    have "bit word b \<longleftrightarrow> bit (snd c) 63" using exact b by (simp add: word_def bit_sign_word)
    also have "\<dots> \<longleftrightarrow> bit ?s (64 * (?i - 1) + 63)"
      using c i by (subst bitX [symmetric]) auto
    also have "min (64 * (?i - 1) + 63) (?W - 1) = min (64 * ?i + b) (?W - 1)" using i by linarith
    then have "bit ?s (64 * (?i - 1) + 63) = bit ?s (64 * ?i + b)" by (simp only: s)
    finally show ?thesis .
  next
    case more
    let ?r = "?W mod 64"
    have w: "?W = 64 * ?i + ?r" by simp
    have "word = SignExtend64 (pVal x ! ?i) ?r"
      by (simp only: word_def SignExtend64_def unused_bits [OF more(1)] not_False_eq_True if_True)
    then have "bit word b \<longleftrightarrow> bit (pVal x ! ?i) (min b (?r - 1))"
      using more(1) b bit_SignExtend64 [of ?r b "pVal x ! ?i"] by simp
    also have "\<dots> \<longleftrightarrow> bit ?s (64 * ?i + min b (?r - 1))"
    proof (rule bitX)
      have "min b (?r - 1) < ?r" using more(1) by linarith
      then show "min b (?r - 1) < 64" "64 * ?i + min b (?r - 1) < ?W"
        using w mod_less_divisor [of 64 ?W] by (simp, linarith)+
    qed
    also have "min (m + min b (r - 1)) (m + r - 1) = min (m + b) (m + r - 1)" if "0 < r" for m r b :: nat
      using that by (auto simp: min_def)
    from this [OF more(1), of "64 * ?i" b]
    have "min (64 * ?i + min b (?r - 1)) (?W - 1) = min (64 * ?i + b) (?W - 1)" by (simp only: mult_div_mod_eq)
    then have "bit ?s (64 * ?i + min b (?r - 1)) = bit ?s (64 * ?i + b)" by (simp only: s)
    finally show ?thesis .
  qed
  have inv: "sext_inv ?s ?N ?i (fst c, word)"
  proof -
    have "bit (fst c ! j) b \<longleftrightarrow> bit ?s (64 * j + b)" if "j < ?i" "b < 64" for j b
    proof -
      have "64 * j + b < ?W" using that mult_div_mod_eq [of 64 ?W] by linarith
      with that c show ?thesis by (simp add: bitX)
    qed
    with c word show ?thesis by (simp add: sext_inv_def)
  qed
  have high: "bit ?s k = bit ?s (64 * ?i + 63)" if "64 * ?i + 63 \<le> k" for k
  proof -
    have "?W \<le> 64 * ?i + 64" using mult_div_mod_eq [of 64 ?W] mod_less_divisor [of 64 ?W] by linarith
    with that have "min k (?W - 1) = min (64 * ?i + 63) (?W - 1)" by linarith
    then show ?thesis by (simp only: s)
  qed
  obtain p v where pv: "for_upto ?i ?m (\<lambda>i (p, word). (p[i := word], signed_drop_bit 63 word)) (fst c, word) = (p, v)"
    by force
  have f: "sext_inv ?s ?N ?m (p, v)" using sext_fill [OF inv im mN high] by (simp only: pv)
  let ?bits = "(64 - w mod 64) mod 64"
  let ?q = "if ?bits \<noteq> 0 then p[?m := drop_bit ?bits (push_bit ?bits v)] else p"
  have "bit (?q ! (k div 64)) (k mod 64) \<longleftrightarrow> bit (nat (?s mod 2 ^ w)) k" if k: "k < 64 * ?N" for k
  proof (cases "k div 64 < ?m")
    case True
    then have "k < w" by (metis div_le_mono not_le)
    with True f show ?thesis by (simp add: sext_inv_def bit_nat_mod)
  next
    case top: False
    show ?thesis
    proof (cases rule: getNumWords_cases [of w])
      case exact
      with top index_words [OF k] show ?thesis by simp
    next
      case more
      have m: "k div 64 = ?m" using top index_words [OF k] more by simp
      then have kw: "k < w \<longleftrightarrow> k mod 64 < w mod 64" by (metis add_less_cancel_left mult_div_mod_eq)
      have "?q ! (k div 64) = drop_bit (64 - w mod 64) (push_bit (64 - w mod 64) v)"
        using f by (simp only: m sext_inv_def prod.case unused_bits [OF more(1)] not_False_eq_True if_True)
          (simp add: more(2))
      moreover have "bit v (k mod 64) \<longleftrightarrow> bit ?s k"
        using f by (simp add: sext_inv_def flip: m)
      ultimately show ?thesis
        using bit_low_part [of "w mod 64" "k mod 64" v] by (simp only: bit_nat_mod kw)
    qed
  qed
  moreover have "length ?q = ?N" using f by (simp add: sext_inv_def)
  moreover have "nat (?s mod 2 ^ w) < 2 ^ w" by (simp add: nat_less_iff)
  ultimately have "refines (Some \<lparr>BitWidth = w, pVal = ?q\<rparr>) (of_sval w ?s)"
    using rep_bitsI [of w ?q "nat (?s mod 2 ^ w)"] assms(2) unfolding of_sval_mk refines_Some by blast
  moreover obtain c1 c2 where cc: "c = (c1, c2)" by (cases c)
  have "sext x w = Some \<lparr>BitWidth = w, pVal = ?q\<rparr>"
    using assms(2) False
    by (simp only: sext_def Let_def c_def [symmetric] cc prod.case word_def [unfolded cc snd_conv, symmetric]
      pv [unfolded cc fst_conv] if_False not_True_eq_False)
  ultimately show ?thesis by (simp add: ap_sext_def)
qed

section \<open>Shifts\<close>

text \<open>The words that the branches of the left and the right shift write are those of the \<open>tc\<close> routines.\<close>

lemma clear_shl:
  assumes "wf_rep x" and "length p = getNumWords (BitWidth x)" and "s \<noteq> 0"
    and "\<And>j. j < getNumWords (BitWidth x) \<Longrightarrow>
      p ! j = (if j < s div 64 then 0 else shl_part (s div 64) (s mod 64) j (pVal x))"
  shows "refines (Some (clearUnusedBits \<lparr>BitWidth = BitWidth x, pVal = p\<rparr>))
    (mk_apint (BitWidth x) (ival (abs_apint x) * 2 ^ s))"
proof -
  let ?w = "BitWidth x" and ?n = "getNumWords (BitWidth x)"
  have "bval p ?n = bval (tcShiftLeft (pVal x) ?n s) ?n"
    by (rule bval_cong) (use tcShiftLeft_nth [of ?n "pVal x" s] wf_repD(2) [OF assms(1)] assms(3,4) in simp)
  also have "\<dots> = ival (abs_apint x) * 2 ^ s mod 2 ^ (64 * ?n)"
    using wf_repD(2) [OF assms(1)] by (simp add: bval_tcShiftLeft push_bit_eq_mult take_bit_eq_mod ival_abs)
  finally show ?thesis
    using clear_raw [OF wf_repD(1) [OF assms(1)] assms(2)] by (simp add: mk_apint_def mod_words)
qed

lemma clear_shr:
  assumes "wf_rep x" and "length p = getNumWords (BitWidth x)" and "s \<noteq> 0"
    and "\<And>j. j < getNumWords (BitWidth x) \<Longrightarrow>
      p ! j = shr_part (s div 64) (s mod 64) (getNumWords (BitWidth x)) j (pVal x)"
  shows "refines (Some (clearUnusedBits \<lparr>BitWidth = BitWidth x, pVal = p\<rparr>))
    (mk_apint (BitWidth x) (ival (abs_apint x) div 2 ^ s))"
proof -
  let ?n = "getNumWords (BitWidth x)"
  have "bval p ?n = bval (tcShiftRight (pVal x) ?n s) ?n"
    by (rule bval_cong) (use tcShiftRight_nth [of ?n "pVal x" s] wf_repD(2) [OF assms(1)] assms(3,4) in simp)
  also have "\<dots> = ival (abs_apint x) div 2 ^ s"
    using wf_repD(2) [OF assms(1)] by (simp add: bval_tcShiftRight drop_bit_eq_div ival_abs)
  finally show ?thesis
    using clear_raw [OF wf_repD(1) [OF assms(1)] assms(2)] by simp
qed

lemma shl_near_words:
  "length (shl_near p n s) = n \<and> (0 < s \<longrightarrow> (\<forall>j<n. shl_near p n s ! j = shl_part 0 s j p))"
proof -
  let ?I = "\<lambda>k st. length (fst st) = n \<and> (0 < s \<longrightarrow> (\<forall>j<k. fst st ! j = shl_part 0 s j p)) \<and>
    snd st = (if k = 0 then 0 else drop_bit (64 - s) (p ! (k - 1)))"
  let ?body = "\<lambda>i (val, carry). (val[i := push_bit s (p ! i) OR carry], drop_bit (64 - s) (p ! i))"
  have "?I n (for_upto 0 n ?body (replicate n 0, 0))"
  proof (rule for_upto_invariant [where P = ?I])
    fix k t
    assume k: "k < n" and inv: "?I k t"
    obtain v c where t: "t = (v, c)" by (cases t)
    have "push_bit s (p ! k) OR c = shl_part 0 s k p" if "0 < s"
      using inv that by (cases k) (auto simp: t shl_part_def Let_def)
    with inv k show "?I (Suc k) (?body k t)" by (auto simp: t nth_list_update less_Suc_eq)
  qed simp_all
  then show ?thesis by (auto simp: shl_near_def)
qed

lemma shl_down_words:
  "i < length val \<Longrightarrow> 0 < s \<Longrightarrow> length (shl_down p off s i val) = length val \<and>
    (\<forall>j<length val. shl_down p off s i val ! j = (if off < j \<and> j \<le> i then shl_part off s j p else val ! j))"
proof (induction i arbitrary: val)
  case (Suc i)
  show ?case
  proof (cases "Suc i > off")
    case True
    let ?v = "val[Suc i := push_bit s (p ! (Suc i - off)) OR drop_bit (64 - s) (p ! (Suc i - off - 1))]"
    have "push_bit s (p ! (Suc i - off)) OR drop_bit (64 - s) (p ! (Suc i - off - 1)) = shl_part off s (Suc i) p"
      using True Suc.prems by (simp add: shl_part_def Let_def)
    with Suc.IH [of ?v] Suc.prems True show ?thesis by (auto simp: nth_list_update le_Suc_eq)
  next
    case False
    then show ?thesis by auto
  qed
qed auto

lemma refines_shl:
  assumes "wf_rep x" and "s \<le> BitWidth x"
  shows "refines (shl x s) (mk_apint (BitWidth x) (ival (abs_apint x) * 2 ^ s))"
proof -
  let ?w = "BitWidth x" and ?n = "getNumWords (BitWidth x)" and ?X = "ival (abs_apint x)"
  note w = wf_repD(1,2) [OF assms(1)]
  have zero: "mk_apint ?w (?X * 2 ^ ?w) = mk_apint ?w 0" by (simp add: mk_apint_def)
  show ?thesis
  proof (cases "isSingleWord x")
    case True
    have "unat (push_bit s (VAL x)) mod 2 ^ ?w = ?X * 2 ^ s mod 2 ^ ?w"
    proof -
      have "unat (push_bit s (VAL x)) = ?X * 2 ^ s mod 2 ^ 64"
        unfolding unsigned_push_bit_eq unfolding push_bit_eq_mult take_bit_eq_mod single_word(3) [OF assms(1) True]
        by simp
      moreover have "(2 :: nat) ^ ?w dvd 2 ^ 64" using True by (intro le_imp_power_dvd) (simp add: isSingleWord_def)
      ultimately show ?thesis by (simp only: mod_mod_cancel)
    qed
    then show ?thesis
      using True assms(2) w(1) zero construct_unsigned [of ?w] by (auto simp: shl_def mk_apint_def)
  next
    case False
    let ?off = "s div 64" and ?sh = "s mod 64"
    consider (all) "s = ?w" | (none) "s \<noteq> ?w" "s = 0" | (near) "s \<noteq> ?w" "0 < s" "s < 64"
      | (words) "s \<noteq> ?w" "\<not> s < 64" "?sh = 0" | (bits) "s \<noteq> ?w" "\<not> s < 64" "?sh \<noteq> 0" by linarith
    then have "refines (Some (shlSlowCase x s)) (mk_apint ?w (?X * 2 ^ s))"
    proof cases
      case all
      then show ?thesis using construct_unsigned [of ?w 0] w(1) zero by (simp add: shlSlowCase_def Let_def)
    next
      case none
      have "mk_apint ?w ?X = abs_apint x" using wf_repD(3) [OF assms(1)] by simp
      with none assms(1) w(1) show ?thesis by (simp add: shlSlowCase_def Let_def)
    next
      case near
      have "refines (Some (clearUnusedBits \<lparr>BitWidth = ?w, pVal = shl_near (pVal x) ?n s\<rparr>)) (mk_apint ?w (?X * 2 ^ s))"
        by (rule clear_shl [OF assms(1)]) (use near shl_near_words [of "pVal x" ?n s] in simp_all)
      with near show ?thesis by (simp add: shlSlowCase_def Let_def)
    next
      case words
      let ?z = "for_upto 0 ?off (\<lambda>i val. val[i := 0]) (replicate ?n (0 :: u64))"
      let ?v = "for_upto ?off ?n (\<lambda>i val. val[i := pVal x ! (i - ?off)]) ?z"
      have off: "?off \<le> ?n" using assms(2) by (simp add: getNumWords_def div_le_mono)
      have "length ?z = ?n" "\<forall>j<?n. ?z ! j = 0"
        using for_upto_update [of ?off "replicate ?n (0 :: u64)" 0 "\<lambda>_ _. 0"] off by simp_all
      then have "length ?v = ?n \<and> (\<forall>j<?n. ?v ! j = (if j < ?off then 0 else pVal x ! (j - ?off)))"
        using for_upto_update [of ?n ?z ?off "\<lambda>i _. pVal x ! (i - ?off)"] off by auto
      then have "refines (Some (clearUnusedBits \<lparr>BitWidth = ?w, pVal = ?v\<rparr>)) (mk_apint ?w (?X * 2 ^ s))"
        by (intro clear_shl [OF assms(1)]) (use words in \<open>auto simp: shl_part_def\<close>)
      with words show ?thesis by (simp add: shlSlowCase_def Let_def)
    next
      case bits
      let ?d = "shl_down (pVal x) ?off ?sh (?n - 1) (replicate ?n 0)"
      let ?e = "?d[?off := push_bit ?sh (pVal x ! 0)]"
      let ?v = "for_upto 0 ?off (\<lambda>i val. val[i := 0]) ?e"
      have off: "?off < ?n" using assms(2) bits(1) by (intro wf_div_less) simp
      have d: "length ?d = ?n \<and> (\<forall>j<?n. ?d ! j = (if ?off < j then shl_part ?off ?sh j (pVal x) else 0))"
        using shl_down_words [of "?n - 1" "replicate ?n 0" ?sh "pVal x" ?off] bits(3) w(1) by auto
      have "length ?v = ?n \<and> (\<forall>j<?n. ?v ! j = (if j < ?off then 0 else if j = ?off then push_bit ?sh (pVal x ! 0)
          else shl_part ?off ?sh j (pVal x)))"
        using for_upto_update [of ?off ?e 0 "\<lambda>_ _. 0"] off d by auto
      then have "refines (Some (clearUnusedBits \<lparr>BitWidth = ?w, pVal = ?v\<rparr>)) (mk_apint ?w (?X * 2 ^ s))"
        by (intro clear_shl [OF assms(1)]) (use bits in \<open>auto simp: shl_part_def\<close>)
      with bits show ?thesis by (simp add: shlSlowCase_def Let_def)
    qed
    with False assms(2) show ?thesis by (simp add: shl_def)
  qed
qed

lemma lshrNear_words:
  "I \<le> length Dst \<Longrightarrow> I \<le> n \<Longrightarrow> 0 < s \<Longrightarrow> Carry = (if I < n then push_bit (64 - s) (Src ! I) else 0) \<Longrightarrow>
    length (lshrNear Dst Src I s Carry) = length Dst \<and>
    (\<forall>j<length Dst. lshrNear Dst Src I s Carry ! j = (if j < I then shr_part 0 s n j Src else Dst ! j))"
proof (induction I arbitrary: Dst Carry)
  case (Suc I)
  let ?D = "Dst[I := drop_bit s (Src ! I) OR Carry]"
  have "drop_bit s (Src ! I) OR Carry = shr_part 0 s n I Src"
    using Suc.prems by (simp add: shr_part_def Let_def)
  with Suc.IH [of ?D "push_bit (64 - s) (Src ! I)"] Suc.prems show ?case
    by (auto simp: Let_def nth_list_update less_Suc_eq)
qed simp

text \<open>The words that \<open>lshr\<close> and \<open>ashr\<close> share: the loop below \<open>breakWord\<close>.\<close>

lemma shr_words:
  fixes p x :: "u64 list"
  assumes "off < n" and "length p = n" and "0 < s"
  defines "b \<equiv> n - 1 - off"
  defines "q \<equiv> (for_upto 0 b (\<lambda>i val. val[i := drop_bit s (x ! (i + off)) OR push_bit (64 - s) (x ! (i + off + 1))]) p)
      [b := drop_bit s (x ! (b + off))]"
  shows "length q = n \<and> (\<forall>j<n. q ! j = (if j \<le> b then shr_part off s n j x else p ! j))"
proof -
  have b: "b + off = n - 1" "b < n" using assms(1) by (simp_all add: b_def)
  have "length q = n \<and> (\<forall>j<n. q ! j = (if j < b then drop_bit s (x ! (j + off)) OR push_bit (64 - s) (x ! (j + off + 1))
      else if j = b then drop_bit s (x ! (b + off)) else p ! j))"
    using for_upto_update [of b p 0 "\<lambda>i _. drop_bit s (x ! (i + off)) OR push_bit (64 - s) (x ! (i + off + 1))"]
      assms(2) b(2) by (auto simp: q_def nth_list_update)
  then show ?thesis using b assms(3) by (auto simp: shr_part_def Let_def)
qed

lemma refines_lshr:
  assumes "wf_rep x"
  shows "refines (Some (lshr x s)) (mk_apint (BitWidth x) (ival (abs_apint x) div 2 ^ s))"
proof -
  let ?w = "BitWidth x" and ?n = "getNumWords (BitWidth x)" and ?X = "ival (abs_apint x)"
  note w = wf_repD(1,2) [OF assms]
  have zero: "?X div 2 ^ s = 0" if "?w \<le> s"
    by (rule div_less, rule less_le_trans [OF wf_repD(3) [OF assms]]) (use that in simp)
  let ?off = "s div 64" and ?sh = "s mod 64"
  consider (single) "isSingleWord x" | (all) "\<not> isSingleWord x" "?w \<le> s" | (none) "\<not> isSingleWord x" "s < ?w" "s = 0"
    | (near) "\<not> isSingleWord x" "s < ?w" "0 < s" "s < 64"
    | (words) "\<not> isSingleWord x" "s < ?w" "\<not> s < 64" "?sh = 0"
    | (bits) "\<not> isSingleWord x" "s < ?w" "\<not> s < 64" "?sh \<noteq> 0" by linarith
  then show ?thesis
  proof cases
    case single
    with single_word(3) [OF assms single] zero construct_unsigned [OF w(1)] show ?thesis
      by (simp add: lshr_def Let_def unat_drop_bit)
  next
    case all
    with zero construct_unsigned [OF w(1)] show ?thesis by (simp add: lshr_def Let_def)
  next
    case none
    have "mk_apint ?w ?X = abs_apint x" using wf_repD(3) [OF assms] by simp
    with none assms show ?thesis by (simp add: lshr_def Let_def)
  next
    case near
    have "refines (Some (clearUnusedBits \<lparr>BitWidth = ?w, pVal = lshrNear (replicate ?n 0) (pVal x) ?n s 0\<rparr>))
        (mk_apint ?w (?X div 2 ^ s))"
      by (rule clear_shr [OF assms]) (use near lshrNear_words [of ?n "replicate ?n 0" ?n s 0 "pVal x"] in simp_all)
    with near show ?thesis by (simp add: lshr_def Let_def)
  next
    case words
    let ?z = "for_upto 0 (?n - ?off) (\<lambda>i val. val[i := pVal x ! (i + ?off)]) (replicate ?n 0)"
    let ?v = "for_upto (?n - ?off) ?n (\<lambda>i val. val[i := 0]) ?z"
    have "length ?v = ?n \<and> (\<forall>j<?n. ?v ! j = (if j < ?n - ?off then pVal x ! (j + ?off) else 0))"
      using for_upto_update [of "?n - ?off" "replicate ?n 0" 0 "\<lambda>i _. pVal x ! (i + ?off)"]
        for_upto_update [of ?n ?z "?n - ?off" "\<lambda>_ _. 0"] by auto
    then have "refines (Some (clearUnusedBits \<lparr>BitWidth = ?w, pVal = ?v\<rparr>)) (mk_apint ?w (?X div 2 ^ s))"
      by (intro clear_shr [OF assms]) (use words in \<open>auto simp: shr_part_def\<close>)
    with words show ?thesis by (simp add: lshr_def Let_def)
  next
    case bits
    have off: "?off < ?n" using bits(2) by (rule wf_div_less)
    let ?b = "?n - ?off - 1"
    let ?q = "(for_upto 0 ?b (\<lambda>i val. val[i := drop_bit ?sh (pVal x ! (i + ?off)) OR
        push_bit (64 - ?sh) (pVal x ! (i + ?off + 1))]) (replicate ?n 0))[?b := drop_bit ?sh (pVal x ! (?b + ?off))]"
    let ?v = "for_upto (?b + 1) ?n (\<lambda>i val. val[i := 0]) ?q"
    have q: "length ?q = ?n \<and> (\<forall>j<?n. ?q ! j = (if j \<le> ?b then shr_part ?off ?sh ?n j (pVal x) else 0))"
      using shr_words [OF off, of "replicate ?n 0" ?sh "pVal x"] bits(4) by simp
    have "length ?v = ?n \<and> (\<forall>j<?n. ?v ! j = (if j \<le> ?b then shr_part ?off ?sh ?n j (pVal x) else 0))"
      using for_upto_update [of ?n ?q "?b + 1" "\<lambda>_ _. 0"] q off by auto
    then have "refines (Some (clearUnusedBits \<lparr>BitWidth = ?w, pVal = ?v\<rparr>)) (mk_apint ?w (?X div 2 ^ s))"
      by (intro clear_shr [OF assms]) (use bits in \<open>auto simp: shr_part_def\<close>)
    with bits show ?thesis by (simp add: lshr_def Let_def)
  qed
qed

lemma bit_or_not_shift: "b < 64 \<Longrightarrow> bit (v OR push_bit m (NOT 0)) b \<longleftrightarrow> bit v b \<or> m \<le> b" for v :: u64
  by (auto simp: bit_simps)

text \<open>The fill bits of the words at and below \<open>breakWord\<close>.\<close>

lemma ashr_fill:
  fixes v :: "u64 list" and neg :: bool
  assumes "b < length v" and "0 < m" and "m \<le> 64" and "sh < 64" and "sh \<le> m \<or> 0 < b"
  defines "V \<equiv> (if sh = 0 then (if neg \<and> m < 64 then v[b := v ! b OR push_bit m (NOT 0)] else v)
    else if neg then
      if sh > m then
        let v = (if b > 0 then v[b - 1 := v ! (b - 1) OR push_bit (64 - (sh - m)) (NOT 0)] else v)
        in v[b := v ! b OR NOT 0]
      else v[b := v ! b OR push_bit (m - sh) (NOT 0)]
    else v)"
  shows "length V = length v"
    and "j \<le> b \<Longrightarrow> c < 64 \<Longrightarrow> bit (V ! j) c \<longleftrightarrow> bit (v ! j) c \<or> neg \<and> 64 * b + m - sh \<le> 64 * j + c"
proof -
  show "length V = length v" by (simp add: V_def Let_def)
  assume j: "j \<le> b" and c: "c < 64"
  consider (off) "\<not> neg \<or> sh = 0 \<and> m = 64" | (near) "neg" "sh \<le> m" "m - sh < 64" | (far) "neg" "m < sh"
    using assms(3) by linarith
  then show "bit (V ! j) c \<longleftrightarrow> bit (v ! j) c \<or> neg \<and> 64 * b + m - sh \<le> 64 * j + c"
  proof cases
    case off
    then have "V = v" by (auto simp: V_def)
    with off j c show ?thesis by auto
  next
    case near
    then have V: "V = v[b := v ! b OR push_bit (m - sh) (NOT 0)]" by (auto simp: V_def)
    have "64 * b + m - sh \<le> 64 * j + c \<longleftrightarrow> j = b \<and> m - sh \<le> c"
    proof (cases "j = b")
      case False
      then have "64 * j + c < 64 * b" using j c by linarith
      with near(2) False show ?thesis by linarith
    qed (use near(2) in auto)
    then show ?thesis using near(1) assms(1) bit_or_not_shift [OF c, of "v ! b" "m - sh"]
      by (auto simp: V nth_list_update)
  next
    case far
    with assms(5) have b: "0 < b" by linarith
    have V: "V = v[b - 1 := v ! (b - 1) OR push_bit (64 - (sh - m)) (NOT 0), b := v ! b OR NOT 0]"
      using far b by (auto simp: V_def Let_def)
    have "64 * b + m - sh \<le> 64 * j + c \<longleftrightarrow> j = b \<or> j = b - 1 \<and> 64 - (sh - m) \<le> c"
    proof -
      consider "j = b" | "j = b - 1" "j \<noteq> b" | "j + 1 < b" using j b by linarith
      then show ?thesis
      proof cases
        case 1
        then show ?thesis using far(2) by linarith
      next
        case 2
        then have "64 * b = 64 * j + 64" using b by linarith
        with 2 far(2) assms(4) show ?thesis by linarith
      next
        case 3
        then have "64 * j + c + 64 < 64 * b" using c by linarith
        with 3 far(2) assms(4) show ?thesis by linarith
      qed
    qed
    then show ?thesis using far(1) assms(1) b bit_or_not_shift [OF c, of "v ! (b - 1)" "64 - (sh - m)"] c
      by (auto simp: V nth_list_update bit_simps)
  qed
qed

text \<open>\<open>ashr\<close> sets the bits from \<open>w - s\<close> on when the value is negative. The words of the result, for the
  position \<open>w - s = 64 * b + m\<close> of the first bit that is filled.\<close>

lemma refines_ashr_words:
  assumes "wf_rep x" and "s < BitWidth x" and "length p = getNumWords (BitWidth x)"
    and words: "\<And>j b. j < getNumWords (BitWidth x) \<Longrightarrow> b < 64 \<Longrightarrow> 64 * j + b < BitWidth x \<Longrightarrow>
      bit (p ! j) b \<longleftrightarrow> bit (ival (abs_apint x)) (64 * j + b + s) \<or> isNegative_rep x \<and> BitWidth x - s \<le> 64 * j + b"
  shows "refines (Some (clearUnusedBits \<lparr>BitWidth = BitWidth x, pVal = p\<rparr>))
    (of_sval (BitWidth x) (sval (abs_apint x) div 2 ^ s))"
proof (rule refines_of_sval [OF wf_repD(1) [OF assms(1)] assms(3)])
  fix k
  assume k: "k < BitWidth x"
  let ?X = "ival (abs_apint x)"
  have "bit (p ! (k div 64)) (k mod 64) \<longleftrightarrow> bit ?X (k + s) \<or> isNegative_rep x \<and> BitWidth x - s \<le> k"
    using words [OF wf_div_less [OF k], of "k mod 64"] k by simp
  also have "\<dots> \<longleftrightarrow> bit ?X (min (s + k) (BitWidth x - 1))"
  proof (cases "s + k < BitWidth x")
    case True
    then have "min (s + k) (BitWidth x - 1) = k + s" "\<not> BitWidth x - s \<le> k" by linarith+
    then show ?thesis by (simp only: simp_thms)
  next
    case False
    then have "\<not> bit ?X (k + s)" using bit_ival_width [OF assms(1), of "k + s"] by auto
    moreover have "isNegative_rep x \<longleftrightarrow> bit ?X (BitWidth x - 1)"
      using bit_top [OF wf_repD(1,3) [OF assms(1)]] by (simp add: isNegative_value [OF assms(1)] isNegative_def)
    moreover have "min (s + k) (BitWidth x - 1) = BitWidth x - 1" "BitWidth x - s \<le> k" using False by linarith+
    ultimately show ?thesis by (simp only: simp_thms)
  qed
  also have "\<dots> \<longleftrightarrow> bit (sval (abs_apint x) div 2 ^ s) k"
    using bit_drop_bit_eq [of s "sval (abs_apint x)"] by (simp add: bit_sval [OF assms(1)] drop_bit_eq_div)
  finally show "bit (p ! (k div 64)) (k mod 64) \<longleftrightarrow> bit (sval (abs_apint x) div 2 ^ s) k" .
qed

lemma refines_ashr:
  assumes "wf_rep x" and "s \<le> BitWidth x"
  shows "refines (ashr x s) (if s = BitWidth x \<and> isSingleWord x then mk_apint (BitWidth x) 0
    else of_sval (BitWidth x) (sval (abs_apint x) div 2 ^ s))"
proof -
  let ?w = "BitWidth x" and ?n = "getNumWords (BitWidth x)" and ?X = "ival (abs_apint x)" and ?S = "sval (abs_apint x)"
  note w = wf_repD(1,2) [OF assms(1)]
  have id: "of_sval ?w ?S = abs_apint x"
    using w(1) wf_repD(3) [OF assms(1)] by (cases "abs_apint x") (auto simp: of_sval_def sval_def apint_eq_iff)
  let ?off = "s div 64" and ?sh = "s mod 64"
  consider (none) "s = 0" | (zero) "0 < s" "isSingleWord x" "s = ?w" | (single) "0 < s" "isSingleWord x" "s < ?w"
    | (all) "0 < s" "\<not> isSingleWord x" "s = ?w" | (many) "0 < s" "\<not> isSingleWord x" "s < ?w"
    using assms(2) by linarith
  then show ?thesis
  proof cases
    case none
    then show ?thesis using assms w(1) id by (simp add: ashr_def Let_def)
  next
    case zero
    then show ?thesis using construct_unsigned [OF w(1), of 0] by (simp add: ashr_def Let_def)
  next
    case single
    let ?v = "signed_drop_bit s (signed_drop_bit (64 - ?w) (push_bit (64 - ?w) (VAL x)))"
    have w64: "?w \<le> 64" using single(2) by (simp add: isSingleWord_def)
    have "refines (Some (clearUnusedBits \<lparr>BitWidth = ?w, pVal = [?v]\<rparr>)) (of_sval ?w (?S div 2 ^ s))"
    proof (rule refines_of_sval [OF w(1)])
      fix k
      assume k: "k < ?w"
      have "bit ?v k \<longleftrightarrow> bit (SignExtend64 (VAL x) ?w) (min (s + k) 63)"
        using k w64 single(3) unfolding SignExtend64_def [symmetric] by (auto simp: bit_simps min_def)
      also have "\<dots> \<longleftrightarrow> bit (VAL x) (min (s + k) (?w - 1))"
        using bit_SignExtend64 [OF w(1) w64, of "min (s + k) 63" "VAL x"] w64 by (simp add: min.assoc min_absorb2)
      also have "\<dots> \<longleftrightarrow> bit ?X (min (s + k) (?w - 1))"
        using w64 w(1) by (simp add: bit_unsigned_iff flip: single_word(3) [OF assms(1) single(2)])
      also have "\<dots> \<longleftrightarrow> bit (?S div 2 ^ s) k"
        using bit_drop_bit_eq [of s ?S] by (simp add: bit_sval [OF assms(1)] drop_bit_eq_div)
      finally show "bit ([?v] ! (k div 64)) (k mod 64) \<longleftrightarrow> bit (?S div 2 ^ s) k"
        using k w64 by simp
    qed (use getNumWords_single [OF w(1) w64] in simp)
    with single w64 show ?thesis by (simp add: ashr_def Let_def construct_single)
  next
    case all
    have X: "?X < 2 ^ ?w" by (rule wf_repD(3) [OF assms(1)])
    have "?S div 2 ^ ?w = (if isNegative_rep x then - 1 else 0)"
    proof (cases "isNegative_rep x")
      case True
      have "?S div 2 ^ ?w = (int ?X + (- 1) * 2 ^ ?w) div 2 ^ ?w" using True by (simp add: sval_value [OF assms(1)])
      also have "\<dots> = - 1 + int ?X div 2 ^ ?w" by (rule div_mult_self1) simp
      also have "int ?X div 2 ^ ?w = 0" using ival_int [OF assms(1)] by (intro div_pos_pos_trivial) simp_all
      finally show ?thesis using True by simp
    next
      case False
      have "int ?X div 2 ^ ?w = 0" using ival_int [OF assms(1)] by (intro div_pos_pos_trivial) simp_all
      with False show ?thesis by (simp add: sval_value [OF assms(1)])
    qed
    then show ?thesis
      using all construct_signed [OF w(1), of "- 1"] construct_unsigned [OF w(1), of 0]
      by (simp add: ashr_def Let_def mk_apint_def of_sval_def)
  next
    case many
    have off: "?off < ?n" using many(3) by (rule wf_div_less)
    define b where "b = ?n - 1 - ?off"
    define m where "m = (if whichBit ?w = 0 then 64 else whichBit ?w)"
    have m: "?w = 64 * (?n - 1) + m" "m \<le> 64" "0 < m"
      using top_word(1) [OF assms(1)] by (auto simp: m_def whichBit_def split: if_splits)
    have b: "b + ?off = ?n - 1" "b < ?n" using off by (simp_all add: b_def)
    have s: "s = 64 * ?off + ?sh" by simp
    have first: "?w - s = 64 * b + m - ?sh" using m(1) b(1) s by linarith
    define neg where "neg = isNegative_rep x"
    let ?l0 = "for_upto 0 (b + 1) (\<lambda>i val. val[i := pVal x ! (i + ?off)]) (replicate ?n 0)"
    let ?l1 = "(for_upto 0 b (\<lambda>i val. val[i := drop_bit ?sh (pVal x ! (i + ?off)) OR
        push_bit (64 - ?sh) (pVal x ! (i + ?off + 1))]) (replicate ?n 0))[b := drop_bit ?sh (pVal x ! (b + ?off))]"
    define v where "v = (if ?sh = 0 then ?l0 else ?l1)"
    have v: "length v = ?n" "\<And>j. j < ?n \<Longrightarrow> v ! j = shr_part ?off ?sh ?n j (pVal x)"
    proof -
      have "length v = ?n \<and> (\<forall>j<?n. v ! j = (if j \<le> b then shr_part ?off ?sh ?n j (pVal x) else 0))"
      proof (cases "?sh = 0")
        case True
        have "length ?l0 = ?n \<and> (\<forall>j<?n. ?l0 ! j = (if j < b + 1 then pVal x ! (j + ?off) else 0))"
          using for_upto_update [of "b + 1" "replicate ?n 0" 0 "\<lambda>i _. pVal x ! (i + ?off)"] b(2) by simp
        then show ?thesis using b off True by (auto simp: v_def shr_part_def)
      next
        case False
        then show ?thesis
          using shr_words [OF off, of "replicate ?n 0" ?sh "pVal x"] by (simp add: v_def b_def)
      qed
      moreover have "shr_part ?off ?sh ?n j (pVal x) = 0" if "\<not> j \<le> b" for j
      proof -
        have "?n \<le> j + ?off" using that b(1) off by linarith
        then show ?thesis by (simp add: shr_part_def)
      qed
      ultimately show "length v = ?n" "\<And>j. j < ?n \<Longrightarrow> v ! j = shr_part ?off ?sh ?n j (pVal x)" by auto
    qed
    have sh: "?sh < 64" by simp
    have far: "?sh \<le> m \<or> 0 < b" using many(3) first by (cases b) simp_all
    define V where "V = (if ?sh = 0 then (if neg \<and> m < 64 then v[b := v ! b OR push_bit m (NOT 0)] else v)
      else if neg then
        if ?sh > m then
          let v = (if b > 0 then v[b - 1 := v ! (b - 1) OR push_bit (64 - (?sh - m)) (NOT 0)] else v)
          in v[b := v ! b OR NOT 0]
        else v[b := v ! b OR push_bit (m - ?sh) (NOT 0)]
      else v)"
    note fill = ashr_fill [where v = v and neg = neg, OF _ m(3,2) sh far, unfolded v(1), OF b(2), folded V_def]
    define u where "u = for_upto (b + 1) ?n (\<lambda>i val. val[i := if neg then - 1 else 0]) V"
    have u: "length u = ?n" "\<And>j. j < ?n \<Longrightarrow> u ! j = (if j \<le> b then V ! j else if neg then - 1 else 0)"
      using for_upto_update [of ?n V "b + 1" "\<lambda>_ _. if neg then - 1 else 0"] fill(1) b(2) by (auto simp: u_def)
    have "refines (Some (clearUnusedBits \<lparr>BitWidth = ?w, pVal = u\<rparr>)) (of_sval ?w (?S div 2 ^ s))"
    proof (rule refines_ashr_words [OF assms(1) many(3) u(1)])
      fix j c :: nat
      assume j: "j < ?n" and c: "c < 64" and jc: "64 * j + c < ?w"
      have X: "bit (v ! j) c \<longleftrightarrow> bit ?X (64 * j + c + s)"
        using bit_shr_part [OF j c sh, of ?off "pVal x"] by (simp add: v(2) [OF j] ival_abs)
      show "bit (u ! j) c \<longleftrightarrow> bit ?X (64 * j + c + s) \<or> isNegative_rep x \<and> ?w - s \<le> 64 * j + c"
      proof (cases "j \<le> b")
        case True
        with fill(2) [OF True c] show ?thesis by (simp only: u(2) [OF j] if_True X first neg_def [symmetric])
      next
        case False
        then have "?w - s \<le> 64 * j + c" unfolding first using m(2) by linarith
        moreover from this have "\<not> bit ?X (64 * j + c + s)" using bit_ival_width [OF assms(1), of "64 * j + c + s"] by auto
        ultimately show ?thesis using c by (simp add: u(2) [OF j] False neg_def)
      qed
    qed
    moreover have "ashr x s = Some (clearUnusedBits \<lparr>BitWidth = ?w, pVal = u\<rparr>)"
    proof -
      have "s \<le> ?w" "s \<noteq> 0" "s \<noteq> ?w" using many by simp_all
      note unfold = ashr_def Let_def neg_def [symmetric] b_def [symmetric] m_def [symmetric] u_def V_def v_def
        \<open>s \<le> ?w\<close> \<open>s \<noteq> 0\<close> \<open>s \<noteq> ?w\<close> many(2) if_True if_False simp_thms
      show ?thesis by (cases "?sh = 0") (simp_all only: unfold)
    qed
    ultimately show ?thesis using many by simp
  qed
qed

section \<open>Rotation\<close>

text \<open>Bit \<open>k\<close> of the operand becomes bit \<open>(k + r) mod w\<close> of \<open>rotl\<close>, and the reverse for \<open>rotr\<close>.\<close>

lemma rotate_bits:
  fixes X :: nat
  assumes "X < 2 ^ w" and "r < w" and "k < w"
  shows "bit (X * 2 ^ r mod 2 ^ w OR X div 2 ^ (w - r) mod 2 ^ w) ((k + r) mod w) \<longleftrightarrow> bit X k"
proof -
  have b: "bit (X * 2 ^ r mod 2 ^ w OR X div 2 ^ (w - r) mod 2 ^ w) p \<longleftrightarrow>
      r \<le> p \<and> bit X (p - r) \<or> bit X (p + (w - r))" if "p < w" for p
    using that by (auto simp: bit_simps add.commute simp flip: take_bit_eq_mod push_bit_eq_mult drop_bit_eq_div)
  have high: "\<not> bit X n" if "w \<le> n" for n
    using assms(1) that by (metis bit_take_bit_iff not_le take_bit_nat_eq_self_iff)
  show ?thesis
  proof (cases "k + r < w")
    case True
    then have "(k + r) mod w = k + r" by simp
    moreover have "\<not> bit X (k + r + (w - r))" by (rule high) (use assms(2) in simp)
    ultimately show ?thesis using b [OF True] by simp
  next
    case False
    have m: "(k + r) mod w = k + r - w" using False assms by (simp add: mod_if)
    have "k + r - w < w" "\<not> r \<le> k + r - w" "k + r - w + (w - r) = k" using False assms by linarith+
    with b [of "k + r - w"] show ?thesis by (simp only: m simp_thms)
  qed
qed

lemma rotl_value:
  assumes "wf_rep x"
  shows "\<exists>z. rotl x r = Some z \<and> wf_rep z \<and> BitWidth z = BitWidth x \<and>
    (\<forall>k<BitWidth x. bit (ival (abs_apint z)) ((k + r) mod BitWidth x) \<longleftrightarrow> bit (ival (abs_apint x)) k)"
proof -
  let ?w = "BitWidth x" and ?X = "ival (abs_apint x)"
  define s where "s = r mod ?w"
  have s: "s < ?w" using wf_repD(1) [OF assms] by (simp add: s_def)
  have mod: "(k + r) mod ?w = (k + s) mod ?w" for k by (simp add: s_def mod_add_right_eq)
  show ?thesis
  proof (cases "s = 0")
    case True
    have "bit ?X ((k + r) mod ?w) \<longleftrightarrow> bit ?X k" if "k < ?w" for k using that by (simp add: mod True)
    then show ?thesis using assms True by (simp add: rotl_def s_def [symmetric])
  next
    case False
    obtain a where a: "shl x s = Some a" "wf_rep a" "abs_apint a = mk_apint ?w (?X * 2 ^ s)"
      using refines_shl [OF assms, of s] s by (auto simp: refines_def)
    have b: "wf_rep (lshr x (?w - s))" "abs_apint (lshr x (?w - s)) = mk_apint ?w (?X div 2 ^ (?w - s))"
      using refines_lshr [OF assms, of "?w - s"] by simp_all
    have w: "BitWidth a = ?w" "BitWidth (lshr x (?w - s)) = ?w"
      using arg_cong [OF a(3), of bitWidth] arg_cong [OF b(2), of bitWidth] by simp_all
    then obtain z where z: "op_or a (lshr x (?w - s)) = Some z" "wf_rep z"
        "abs_apint z = ap_or (abs_apint a) (abs_apint (lshr x (?w - s)))"
      using refines_and_or_xor(5) [OF a(2) b(1)] by (auto simp: refines_def)
    have Z: "ival (abs_apint z) = (?X * 2 ^ s mod 2 ^ ?w OR ?X div 2 ^ (?w - s) mod 2 ^ ?w) mod 2 ^ ?w"
      using a(3) b(2) z(3) by (simp add: ap_or_def w)
    have "bit (ival (abs_apint z)) ((k + r) mod ?w) \<longleftrightarrow> bit ?X k" if "k < ?w" for k
      using rotate_bits [OF wf_repD(3) [OF assms] s that] wf_repD(1) [OF assms]
      by (simp add: Z mod bit_take_bit_iff flip: take_bit_eq_mod)
    moreover have "rotl x r = Some z" using False a(1) z(1) by (simp add: rotl_def s_def [symmetric])
    moreover have "BitWidth z = ?w" using arg_cong [OF z(3), of bitWidth] w by (simp add: ap_or_def)
    ultimately show ?thesis using z(2) by blast
  qed
qed

lemma rotr_rotl:
  assumes "wf_rep x"
  shows "rotr x r = rotl x (BitWidth x - r mod BitWidth x)"
proof (cases "r mod BitWidth x = 0")
  case True
  then show ?thesis by (simp add: rotr_def rotl_def)
next
  case False
  let ?w = "BitWidth x"
  have s: "r mod ?w < ?w" using wf_repD(1) [OF assms] by simp
  with False have m: "(?w - r mod ?w) mod ?w = ?w - r mod ?w" "?w - r mod ?w \<noteq> 0" "?w - (?w - r mod ?w) = r mod ?w" by simp_all
  obtain a where a: "shl x (?w - r mod ?w) = Some a" "wf_rep a"
      "abs_apint a = mk_apint ?w (ival (abs_apint x) * 2 ^ (?w - r mod ?w))"
    using refines_shl [OF assms, of "?w - r mod ?w"] by (auto simp: refines_def)
  have b: "wf_rep (lshr x (r mod ?w))" "abs_apint (lshr x (r mod ?w)) = mk_apint ?w (ival (abs_apint x) div 2 ^ (r mod ?w))"
    using refines_lshr [OF assms, of "r mod ?w"] by simp_all
  have "op_or (lshr x (r mod ?w)) a = op_or a (lshr x (r mod ?w))"
    by (rule bit_or.impl_commutes) (use a b in \<open>simp_all add: ap_or_def or.commute\<close>)
  then show ?thesis using False m a(1) by (simp add: rotr_def rotl_def)
qed

lemma ival_bitsI:
  assumes "wf_rep x" and "wf_rep y" and "BitWidth x = BitWidth y"
    and "\<And>k. k < BitWidth x \<Longrightarrow> bit (ival (abs_apint x)) k \<longleftrightarrow> bit (ival (abs_apint y)) k"
  shows "x = y"
proof -
  have "ival (abs_apint x) = ival (abs_apint y)"
  proof (rule bit_eqI)
    fix k
    show "bit (ival (abs_apint x)) k = bit (ival (abs_apint y)) k"
      using bit_ival_width [OF assms(1), of k] bit_ival_width [OF assms(2), of k] assms(3,4) by auto
  qed
  then show ?thesis using abs_inject [OF assms(1,2)] assms(3) by (simp add: apint_eq_iff)
qed

lemma rotate_back:
  assumes "wf_rep x"
  shows "rotl x r \<bind> (\<lambda>z. rotr z r) = Some x"
proof -
  let ?w = "BitWidth x"
  define s where "s = r mod ?w"
  have s: "s < ?w" using wf_repD(1) [OF assms] by (simp add: s_def)
  obtain z where z: "rotl x r = Some z" "wf_rep z" "BitWidth z = ?w"
      "\<forall>k<?w. bit (ival (abs_apint z)) ((k + r) mod ?w) \<longleftrightarrow> bit (ival (abs_apint x)) k"
    using rotl_value [OF assms, of r] by blast
  obtain y where y: "rotl z (?w - s) = Some y" "wf_rep y" "BitWidth y = ?w"
      "\<forall>k<?w. bit (ival (abs_apint y)) ((k + (?w - s)) mod ?w) \<longleftrightarrow> bit (ival (abs_apint z)) k"
    using rotl_value [OF z(2), of "?w - s", unfolded z(3)] by blast
  have "y = x"
  proof (rule ival_bitsI [OF y(2) assms y(3)])
    fix k
    assume k: "k < BitWidth y"
    have "(k + r) mod ?w = (k + s) mod ?w" by (simp add: s_def mod_add_right_eq)
    then have "((k + r) mod ?w + (?w - s)) mod ?w = (k + s + (?w - s)) mod ?w" by (simp only: mod_add_left_eq)
    also have "\<dots> = k" using k s y(3) by simp
    finally show "bit (ival (abs_apint y)) k \<longleftrightarrow> bit (ival (abs_apint x)) k"
      using y(4) z(4) k s y(3) by (metis mod_less_divisor wf_repD(1) assms)
  qed
  then show ?thesis using z(1) y(1) rotr_rotl [OF z(2), of r] by (simp add: z(3) s_def)
qed

section \<open>Properties\<close>

text \<open>The examples of the witnesses: objects of two words.\<close>

lemma bval_pair: "bval [a, b] 2 = unat a + unat b * 2 ^ 64"
  by (simp add: bval_def numeral_2_eq_2)

lemma two_words:
  assumes "64 < w" and "w \<le> 128"
  shows "unat b < 2 ^ (w - 64) \<Longrightarrow> wf_rep \<lparr>BitWidth = w, pVal = [a, b]\<rparr>"
    and "abs_apint \<lparr>BitWidth = w, pVal = [a, b]\<rparr> = \<lparr>bitWidth = w, ival = unat a + unat b * 2 ^ 64\<rparr>"
proof -
  have n: "getNumWords w = 2" using getNumWords_bounds [of w] assms by linarith
  show "abs_apint \<lparr>BitWidth = w, pVal = [a, b]\<rparr> = \<lparr>bitWidth = w, ival = unat a + unat b * 2 ^ 64\<rparr>"
    by (simp add: abs_apint_def n bval_pair)
  assume "unat b < 2 ^ (w - 64)"
  then have "(unat b + 1) * 2 ^ 64 \<le> 2 ^ (w - 64) * 2 ^ 64" by (intro mult_le_mono1) simp
  also have "2 ^ (w - 64) * 2 ^ 64 = (2 :: nat) ^ w" using assms(1) by (simp only: power_add [symmetric]) simp
  finally have "unat a + unat b * 2 ^ 64 < 2 ^ w" using u64_less [of a] by (simp only: add_mult_distrib)
  then show "wf_rep \<lparr>BitWidth = w, pVal = [a, b]\<rparr>" using assms(1) by (simp add: wf_rep_def n bval_pair)
qed

lemma initFromArray_value:
  assumes "0 < w" and "ps \<noteq> []"
  shows "refines (initFromArray w ps) (mk_apint w (bval ps (length ps)))"
proof -
  let ?n = "getNumWords w"
  define m where "m = min (length ps) ?n"
  let ?p = "if w \<le> 64 then [ps ! 0] else take m ps @ drop m (replicate ?n 0)"
  have m: "m \<le> length ps" "m \<le> ?n" "1 \<le> m"
    using assms getNumWords_pos [OF assms(1)] by (simp_all add: m_def Suc_le_eq)
  have len: "length ?p = ?n" using m getNumWords_single [OF assms(1)] by simp
  have "bval ?p ?n = bval ps m"
  proof (cases "w \<le> 64")
    case True
    then have "m = 1" using m getNumWords_single [OF assms(1)] by simp
    with True getNumWords_single [OF assms(1)] show ?thesis by (simp add: bval_Suc)
  next
    case False
    have "bval ?p ?n = bval ?p m"
      by (rule bval_zero_above) (use False m in \<open>simp_all add: nth_append\<close>)
    also have "\<dots> = bval ps m" by (rule bval_cong) (use False m in \<open>simp add: nth_append\<close>)
    finally show ?thesis .
  qed
  moreover have "bval ps m mod 2 ^ w = bval ps (length ps) mod 2 ^ w"
  proof (cases "m = length ps")
    case False
    then have "m = ?n" by (simp add: m_def)
    with m(1) have "bval ps m mod 2 ^ w = bval ps (length ps) mod 2 ^ (64 * ?n) mod 2 ^ w"
      using bval_mod [of m "length ps" ps] by simp
    then show ?thesis by (simp only: mod_words)
  qed simp
  ultimately have "mk_apint w (bval ?p ?n) = mk_apint w (bval ps (length ps))" by (simp add: mk_apint_def)
  then have "refines (Some (clearUnusedBits \<lparr>BitWidth = w, pVal = ?p\<rparr>)) (mk_apint w (bval ps (length ps)))"
    using clear_raw [OF assms(1) len] by simp
  then show ?thesis
    using assms by (simp only: initFromArray_def Let_def m_def [symmetric]) simp
qed

lemma assign_u64_value:
  assumes "wf_rep x"
  shows "refines (Some (assign_u64 x v)) (mk_apint (BitWidth x) (unat v))"
proof -
  let ?n = "getNumWords (BitWidth x)"
  note w = wf_repD(1,2) [OF assms]
  have "assign_u64 x v = clearUnusedBits \<lparr>BitWidth = BitWidth x, pVal = tcSet (pVal x) v ?n\<rparr>"
  proof (cases "isSingleWord x")
    case True
    then obtain u where "pVal x = [u]" "?n = 1" using single_word [OF assms] by blast
    with True show ?thesis by (simp add: assign_u64_def tcSet_def)
  qed (simp add: assign_u64_def tcSet_def)
  with clear_raw [OF w(1), of "tcSet (pVal x) v ?n"] w show ?thesis by (simp add: bval_tcSet)
qed

text \<open>C33: The constructors of \<open>APInt\<close> establish the invariant, with the bits above the width clear, and build the
  documented value: the constructor from a word zero-extends it or sign-extends it, the one from an array reduces the
  number in the array modulo \<open>2 ^ numBits\<close>, whatever the length of the array, and the assignment of a word keeps the
  width. Two objects of one width with the same value have the same words.\<close>

theorem APInt_construction:
  assumes "0 < numBits" and "bigVal \<noteq> []" and "wf_rep x" and "wf_rep y"
  shows "refines (APInt_of numBits val False) (mk_apint numBits (unat val)) \<and>
    refines (APInt_of numBits val True) (of_sval numBits (sint val)) \<and>
    refines (initFromArray numBits bigVal) (mk_apint numBits (bval bigVal (length bigVal))) \<and>
    refines (Some (assign_u64 x val)) (mk_apint (BitWidth x) (unat val)) \<and>
    (x = y \<longleftrightarrow> abs_apint x = abs_apint y)"
  using construct_unsigned [OF assms(1), of val] construct_signed [OF assms(1), of val]
    initFromArray_value [OF assms(1,2)] assign_u64_value [OF assms(3)] abs_inject [OF assms(3,4)] assms(1)
  by (auto simp: APInt_of_def)

theorem APInt_construction_witness:
  "refines (initFromArray 100 [1, 2, 3]) (mk_apint 100 (bval [1, 2, 3] 3)) \<and>
   refines (APInt_of 100 (- 5) True) (of_sval 100 (- 5))"
  using APInt_construction [of 100 "[1, 2, 3]" "\<lparr>BitWidth = 3, pVal = [6]\<rparr>" "\<lparr>BitWidth = 3, pVal = [6]\<rparr>" "- 5"]
  by (simp add: wf_rep_def getNumWords_def bval_Suc numeral_3_eq_3)

text \<open>C2: The arithmetic of \<open>APInt\<close> at every width implements arithmetic modulo \<open>2 ^ width\<close>: the word loops with their
  comparisons for the carry in \<open>+\<close>, \<open>-\<close>, \<open>+=\<close> and \<open>-=\<close>, the loops that stop early in \<open>++\<close> and \<open>--\<close>, and negation.
  The results keep the invariant, addition commutes as an operation on objects, and addition undoes subtraction.\<close>

theorem APInt_arithmetic:
  assumes "wf_rep x" and "wf_rep y" and "BitWidth x = BitWidth y"
  shows "refines (op_plus x y) (ap_add (abs_apint x) (abs_apint y)) \<and>
    refines (op_minus x y) (ap_sub (abs_apint x) (abs_apint y)) \<and>
    refines (plus_assign x y) (ap_add (abs_apint x) (abs_apint y)) \<and>
    refines (minus_assign x y) (ap_sub (abs_apint x) (abs_apint y)) \<and>
    refines (Some (op_inc x)) (ap_inc (abs_apint x)) \<and> refines (Some (op_dec x)) (ap_dec (abs_apint x)) \<and>
    refines (op_neg x) (ap_sub (mk_apint (BitWidth x) 0) (abs_apint x)) \<and>
    op_plus x y = op_plus y x \<and> op_minus x y \<bind> (\<lambda>d. op_plus d y) = Some x"
proof -
  have "op_plus x y = op_plus y x"
    by (rule add_sub.first.impl_commutes [OF assms(1,2)]) (simp add: ap_add_def assms(3) add.commute)
  then show ?thesis
    using refines_add [OF assms] refines_sub [OF assms] refines_inc_dec [OF assms(1)] refines_neg [OF assms(1)]
      sub_add.undo_impl [OF assms] by simp
qed

theorem APInt_arithmetic_witness:
  "refines (op_plus \<lparr>BitWidth = 100, pVal = [- 1, 7]\<rparr> \<lparr>BitWidth = 100, pVal = [3, 5]\<rparr>) (mk_apint 100 (13 * 2 ^ 64 + 2))"
  using APInt_arithmetic [of "\<lparr>BitWidth = 100, pVal = [- 1, 7]\<rparr>" "\<lparr>BitWidth = 100, pVal = [3, 5]\<rparr>",
    THEN conjunct1]
  by (simp add: two_words ap_add_def
    unsigned_minus_1_eq_mask mask_eq_exp_minus_1)

text \<open>C34: The bitwise operators implement the bitwise operations on the values, \<open>^\<close> undoes itself, \<open>operator[]\<close> reads
  a bit of the value and fails beyond the width, and \<open>setBit\<close>, \<open>clearBit\<close>, \<open>flipBit\<close> and \<open>flipAllBits\<close> change the bits
  that they name and no others, above the width included.\<close>

theorem APInt_bits:
  assumes "wf_rep x" and "wf_rep y" and "BitWidth x = BitWidth y" and "b < BitWidth x"
  shows "refines (op_and x y) (ap_and (abs_apint x) (abs_apint y)) \<and>
    refines (op_or x y) (ap_or (abs_apint x) (abs_apint y)) \<and>
    refines (op_xor x y) (ap_xor (abs_apint x) (abs_apint y)) \<and>
    op_xor x y \<bind> (\<lambda>z. op_xor z y) = Some x \<and>
    getBit x k = (if k < BitWidth x then Some (bit (ival (abs_apint x)) k) else None) \<and>
    refines (Some (setBit x b)) (mk_apint (BitWidth x) (set_bit b (ival (abs_apint x)))) \<and>
    refines (Some (clearBit x b)) (mk_apint (BitWidth x) (unset_bit b (ival (abs_apint x)))) \<and>
    refines (flipBit x b) (mk_apint (BitWidth x) (flip_bit b (ival (abs_apint x)))) \<and>
    refines (Some (flipAllBits x)) (mk_apint (BitWidth x) (2 ^ BitWidth x - 1 - ival (abs_apint x)))"
  using refines_and_or_xor [OF assms(1-3)] bit_xor.undo_impl [OF assms(1-3)] getBit_value [OF assms(1)]
    set_clear_flip [OF assms(1,4)] clear_set_flip_all [OF assms(1)] by simp

theorem APInt_bits_witness:
  "refines (Some (setBit \<lparr>BitWidth = 100, pVal = [5, 7]\<rparr> 70)) (mk_apint 100 (set_bit 70 (5 + 7 * 2 ^ 64)))"
  using APInt_bits [of "\<lparr>BitWidth = 100, pVal = [5, 7]\<rparr>" "\<lparr>BitWidth = 100, pVal = [5, 7]\<rparr>" 70 0]
  by (simp add: two_words)

text \<open>C9: Equality and the eight orders on objects of one width decide equality and order of the unsigned and of the
  signed values, through the comparison of the numbers of active bits, the words from the top, and for \<open>slt\<close> the
  magnitudes. The comparison with a word and the test for zero look at all words.\<close>

theorem APInt_compare:
  assumes "wf_rep x" and "wf_rep y" and "BitWidth x = BitWidth y"
  shows "op_eq x y = Some (abs_apint x = abs_apint y) \<and>
    ult_rep x y = Some (ult (abs_apint x) (abs_apint y)) \<and> ule_rep x y = Some (ule (abs_apint x) (abs_apint y)) \<and>
    ugt_rep x y = Some (ugt (abs_apint x) (abs_apint y)) \<and> uge_rep x y = Some (uge (abs_apint x) (abs_apint y)) \<and>
    slt_rep x y = Some (slt (abs_apint x) (abs_apint y)) \<and> sle_rep x y = Some (sle (abs_apint x) (abs_apint y)) \<and>
    sgt_rep x y = Some (sgt (abs_apint x) (abs_apint y)) \<and> sge_rep x y = Some (sge (abs_apint x) (abs_apint y)) \<and>
    op_eq_u64 x v = (ival (abs_apint x) = unat v) \<and> op_not x = (ival (abs_apint x) = 0)"
  using compare_values [OF assms] op_eq_u64_value [OF assms(1)] op_not_value [OF assms(1)] by simp

theorem APInt_compare_witness:
  "slt_rep \<lparr>BitWidth = 100, pVal = [0, 2 ^ 35]\<rparr> \<lparr>BitWidth = 100, pVal = [1, 0]\<rparr> = Some True"
  using APInt_compare [of "\<lparr>BitWidth = 100, pVal = [0, 2 ^ 35]\<rparr>" "\<lparr>BitWidth = 100, pVal = [1, 0]\<rparr>" 0]
  by (simp add: two_words slt_def sval_def)

text \<open>C11: \<open>zext\<close>, \<open>sext\<close> and \<open>trunc\<close> are the extensions and the truncation of the value, for one word and for many
  and wherever the old and the new width end inside a word, and truncation undoes both extensions.\<close>

theorem APInt_resize:
  assumes "wf_rep x" and "BitWidth x < w"
  shows "refines (zext x w) (ap_zext (abs_apint x) w) \<and> refines (sext x w) (ap_sext (abs_apint x) w) \<and>
    (\<forall>v. 0 < v \<and> v < BitWidth x \<longrightarrow> refines (trunc x v) (ap_trunc (abs_apint x) v)) \<and>
    zext x w \<bind> (\<lambda>z. trunc z (BitWidth x)) = Some x \<and> sext x w \<bind> (\<lambda>z. trunc z (BitWidth x)) = Some x"
proof -
  let ?X = "abs_apint x"
  note z = refines_zext [OF assms] and s = refines_sext [OF assms] and w = wf_repD(1,3) [OF assms(1)]
  have undo: "f \<bind> (\<lambda>z. trunc z (BitWidth x)) = Some x"
    if f: "refines f a" "bitWidth a = w" "ap_trunc a (BitWidth x) = ?X" for f :: "APInt option" and a
  proof -
    obtain z where z: "f = Some z" "wf_rep z" "abs_apint z = a" using f(1) by (auto simp: refines_def)
    moreover have "BitWidth z = w" using z(3) f(2) by (metis bitWidth_abs)
    ultimately obtain t where t: "trunc z (BitWidth x) = Some t" "wf_rep t" "abs_apint t = ap_trunc a (BitWidth x)"
      using refines_trunc [OF z(2), of "BitWidth x"] assms(2) w(1) by (auto simp: refines_def)
    then have "t = x" using abs_inject [OF t(2) assms(1)] f(3) by simp
    with z(1) t(1) show ?thesis by simp
  qed
  have "ival ?X < 2 ^ w" by (rule less_trans [OF w(2)]) (use assms(2) in simp)
  then have tz: "ap_trunc (ap_zext ?X w) (BitWidth x) = ?X"
    using w(2) by (simp add: ap_trunc_def ap_zext_def apint_eq_iff)
  have "(2 :: int) ^ BitWidth x dvd 2 ^ w" using assms(2) by (intro le_imp_power_dvd) simp
  then have "sval ?X mod 2 ^ w mod 2 ^ BitWidth x = sval ?X mod 2 ^ BitWidth x" by (rule mod_mod_cancel)
  also have "\<dots> = int (ival ?X)"
    using ival_int [OF assms(1)] by (simp add: sval_value [OF assms(1)])
  finally have "int (nat (sval ?X mod 2 ^ w) mod 2 ^ BitWidth x) = int (ival ?X)" by (simp add: zmod_int)
  then have ts: "ap_trunc (ap_sext ?X w) (BitWidth x) = ?X"
    by (simp only: of_nat_eq_iff) (simp add: ap_trunc_def ap_sext_def of_sval_def apint_eq_iff)
  show ?thesis
    using z s refines_trunc [OF assms(1)] undo [OF z _ tz] undo [OF s _ ts] by simp
qed

theorem APInt_resize_witness:
  "sext \<lparr>BitWidth = 100, pVal = [5, 2 ^ 35]\<rparr> 200 \<bind> (\<lambda>z. trunc z 100) = Some \<lparr>BitWidth = 100, pVal = [5, 2 ^ 35]\<rparr>"
  using APInt_resize [of "\<lparr>BitWidth = 100, pVal = [5, 2 ^ 35]\<rparr>" 200]
  by (simp add: two_words)

text \<open>C8: The shifts, in all their branches (no shift, less than a word, whole words, both), multiply and divide by the
  power of two: \<open>shl\<close> modulo the width, \<open>lshr\<close> the unsigned value for any amount, \<open>ashr\<close> the signed value rounding
  down. An arithmetic shift by the width itself, which the code calls undefined, gives zero for one word and the sign
  for many.\<close>

theorem APInt_shifts:
  assumes "wf_rep x" and "s \<le> BitWidth x"
  shows "refines (shl x s) (mk_apint (BitWidth x) (ival (abs_apint x) * 2 ^ s)) \<and>
    refines (Some (lshr x r)) (mk_apint (BitWidth x) (ival (abs_apint x) div 2 ^ r)) \<and>
    refines (ashr x s) (if s = BitWidth x \<and> isSingleWord x then mk_apint (BitWidth x) 0
      else of_sval (BitWidth x) (sval (abs_apint x) div 2 ^ s))"
  using refines_shl [OF assms] refines_lshr [OF assms(1)] refines_ashr [OF assms] by simp

theorem APInt_shifts_witness:
  "refines (ashr \<lparr>BitWidth = 100, pVal = [5, 2 ^ 35]\<rparr> 70) (of_sval 100 (- (2 ^ 99) div 2 ^ 70))"
  using APInt_shifts [of "\<lparr>BitWidth = 100, pVal = [5, 2 ^ 35]\<rparr>" 70 0]
  by (simp add: two_words sval_def isSingleWord_def)

text \<open>Rotation: \<open>rotl\<close> moves bit \<open>k\<close> to \<open>(k + r) mod width\<close> for any amount, and \<open>rotr\<close> undoes it.\<close>

theorem APInt_rotate:
  assumes "wf_rep x"
  shows "(\<exists>z. rotl x r = Some z \<and> wf_rep z \<and> BitWidth z = BitWidth x \<and>
      (\<forall>k<BitWidth x. bit (ival (abs_apint z)) ((k + r) mod BitWidth x) = bit (ival (abs_apint x)) k)) \<and>
    rotl x r \<bind> (\<lambda>z. rotr z r) = Some x"
  using rotl_value [OF assms] rotate_back [OF assms] by blast

theorem APInt_rotate_witness:
  "rotl \<lparr>BitWidth = 100, pVal = [5, 2 ^ 35]\<rparr> 170 \<bind> (\<lambda>z. rotr z 170) = Some \<lparr>BitWidth = 100, pVal = [5, 2 ^ 35]\<rparr>"
  using APInt_rotate [of "\<lparr>BitWidth = 100, pVal = [5, 2 ^ 35]\<rparr>" 170]
  by (simp add: two_words)

text \<open>C35: The counts: \<open>countLeadingZeros\<close>, \<open>countLeadingOnes\<close> and \<open>getActiveBits\<close> locate the highest bit of the value
  or of its complement, \<open>countTrailingZeros\<close> and \<open>countTrailingOnes\<close> measure the run at the low end, and
  \<open>getMinSignedBits\<close> is the least width at which the signed value fits. The words that are read back are the value:
  \<open>getZExtValue\<close> and \<open>getSExtValue\<close> fail exactly when it does not fit, and \<open>getLimitedValue\<close> is the minimum.\<close>

theorem APInt_counts:
  assumes "wf_rep x"
  shows "countLeadingZeros_rep x = ap_clz (abs_apint x) \<and> getActiveBits x = bit_length (ival (abs_apint x)) \<and>
    countLeadingOnes_rep x = BitWidth x - bit_length (2 ^ BitWidth x - 1 - ival (abs_apint x)) \<and>
    trailing_run False (BitWidth x) (ival (abs_apint x)) (countTrailingZeros_rep x) \<and>
    trailing_run True (BitWidth x) (ival (abs_apint x)) (countTrailingOnes_rep x) \<and>
    (getMinSignedBits x \<le> k \<longleftrightarrow> 0 < k \<and> - (2 ^ (k - 1)) \<le> sval (abs_apint x) \<and> sval (abs_apint x) < 2 ^ (k - 1)) \<and>
    getZExtValue x = (if ival (abs_apint x) < 2 ^ 64 then Some (of_nat (ival (abs_apint x))) else None) \<and>
    map_option sint (getSExtValue x) =
      (if - (2 ^ 63) \<le> sval (abs_apint x) \<and> sval (abs_apint x) < 2 ^ 63 then Some (sval (abs_apint x)) else None) \<and>
    unat (getLimitedValue x L) = min (ival (abs_apint x)) (unat L)"
  using countLeadingZeros_value [OF assms] getActiveBits_value [OF assms] countLeadingOnes_value [OF assms]
    countTrailing_values [OF assms] getMinSignedBits_value [OF assms] getZExtValue_value [OF assms]
    getSExtValue_value [OF assms] getLimitedValue_value [OF assms] by blast

theorem APInt_counts_witness:
  "getZExtValue \<lparr>BitWidth = 100, pVal = [5, 0]\<rparr> = Some 5 \<and> getZExtValue \<lparr>BitWidth = 100, pVal = [5, 1]\<rparr> = None"
  using APInt_counts [of "\<lparr>BitWidth = 100, pVal = [5, 0]\<rparr>" 0 0] APInt_counts [of "\<lparr>BitWidth = 100, pVal = [5, 1]\<rparr>" 0 0]
  by (simp add: two_words)

end
