(* ===== verification/APIntDiv.thy ===== *)
theory APIntDiv
  imports APIntSound BigNumMul
begin

text \<open>
  Multiplication and division of \<open>APInt\<close> (\<open>lib/Support/APInt.cpp\<close>): the schoolbook multiplication on 32-bit halves,
  Knuth's Algorithm D on 32-bit digits, the conversion of the words to digits and back, and the operators over them.

  An array of \<open>unsigned\<close> is a list of \<open>u32\<close>, least significant digit first, and \<open>dval xs n\<close> the number in its first
  \<open>n\<close> digits. \<open>divide\<close> gets null for the result that its caller does not want; here it returns both. The results of
  \<open>udivrem\<close> are written to objects that have a width of their own, so the objects before the call are arguments; the
  inputs are read before the results are written, so it does not matter that they may be the same objects.
\<close>

section \<open>Multiplication\<close>

text \<open>The two loops of the multiplication compute a word of the product and the carry into the next from a word of each
  factor and the carry. \<open>hasCarry\<close> is 0 for no carry, 1 for a carry and 2 for no carry and a zero result.\<close>

definition mul_halves :: "u64 \<Rightarrow> u64 \<Rightarrow> u64 \<Rightarrow> u64 \<times> u64" where
  "mul_halves x y carry =
    (let ly = y AND 0xffffffff; hy = drop_bit 32 y;
         lx = x AND 0xffffffff; hx = drop_bit 32 x;
         resul = carry + lx * ly;
         hasCarry = (if resul < carry then 1 else 0 :: nat);
         carry = hx * ly + drop_bit 32 resul + (if hasCarry \<noteq> 0 then push_bit 32 1 else 0);
         hasCarry = (if carry = 0 \<and> hasCarry \<noteq> 0 then 1 else if carry = 0 then 2 else 0 :: nat);
         carry = carry + (lx * hy AND 0xffffffff);
         resul = push_bit 32 carry OR (resul AND 0xffffffff)
     in (resul, (if carry = 0 \<and> hasCarry \<noteq> 2 \<or> hasCarry = 1 then push_bit 32 1 else 0) +
          drop_bit 32 carry + drop_bit 32 (lx * hy) + hx * hy))"

definition mul_1 :: "u64 list \<Rightarrow> u64 list \<Rightarrow> nat \<Rightarrow> u64 \<Rightarrow> u64 list \<times> u64" where
  "mul_1 dest x len y =
    for_upto 0 len (\<lambda>i (dest, carry). let (d, carry) = mul_halves (x ! i) y carry in (dest[i := d], carry)) (dest, 0)"

definition mul_row :: "u64 list \<Rightarrow> u64 list \<Rightarrow> nat \<Rightarrow> u64 \<Rightarrow> nat \<Rightarrow> u64 list \<times> u64" where
  "mul_row dest x xlen y i =
    for_upto 0 xlen (\<lambda>j (dest, carry).
      let (resul, carry) = mul_halves (x ! j) y carry;
          dest = dest[i + j := dest ! (i + j) + resul]
      in (dest, carry + of_bool (dest ! (i + j) < resul))) (dest, 0)"

definition mul :: "u64 list \<Rightarrow> u64 list \<Rightarrow> nat \<Rightarrow> u64 list \<Rightarrow> nat \<Rightarrow> u64 list" where
  "mul dest x xlen y ylen =
    (let (dest, carry) = mul_1 dest x xlen (y ! 0)
     in for_upto 1 ylen (\<lambda>i dest. let (dest, carry) = mul_row dest x xlen (y ! i) i in dest[i + xlen := carry])
          (dest[xlen := carry]))"

definition activeWords :: "APInt \<Rightarrow> nat" where
  "activeWords x = (let bits = getActiveBits x in if bits = 0 then 0 else whichWord (bits - 1) + 1)"

definition times_assign :: "APInt \<Rightarrow> APInt \<Rightarrow> APInt option" where
  "times_assign x RHS =
    (if BitWidth x \<noteq> BitWidth RHS then None
     else if isSingleWord x then Some (clearUnusedBits (x\<lparr> pVal := [VAL x * VAL RHS] \<rparr>))
     else
       let lhsWords = activeWords x in
       if lhsWords = 0 then Some x
       else
         let rhsWords = activeWords RHS in
         if rhsWords = 0 then Some (clearAllBits x)
         else
           let destWords = rhsWords + lhsWords;
               dest = mul (replicate destWords 0) (pVal x) lhsWords (pVal RHS) rhsWords;
               n = getNumWords (BitWidth x);
               wordsToCopy = (if destWords \<ge> n then n else destWords)
           in Some (clearUnusedBits (x\<lparr> pVal := take wordsToCopy dest @ drop wordsToCopy (replicate n 0) \<rparr>)))"

definition op_times :: "APInt \<Rightarrow> APInt \<Rightarrow> APInt option" where
  "op_times x RHS =
    (if BitWidth x \<noteq> BitWidth RHS then None
     else if isSingleWord x then Some (construct (BitWidth x) (VAL x * VAL RHS) False)
     else times_assign x RHS)"

section \<open>Knuth's Algorithm D\<close>

text \<open>D1: the shift of an array to the left, with the digit that falls out.\<close>

definition shl_digits :: "nat \<Rightarrow> nat \<Rightarrow> u32 list \<Rightarrow> u32 list \<times> u32" where
  "shl_digits shift len xs =
    for_upto 0 len (\<lambda>i (xs, carry). (xs[i := push_bit shift (xs ! i) OR carry], drop_bit (32 - shift) (xs ! i))) (xs, 0)"

text \<open>D3: the trial digit.\<close>

definition trial_digit :: "u32 list \<Rightarrow> u32 list \<Rightarrow> nat \<Rightarrow> nat \<Rightarrow> u64" where
  "trial_digit u v n j =
    (let b = push_bit 32 1 :: u64;
         v1 = ucast (v ! (n - 1)); v2 = ucast (v ! (n - 2)); u2 = ucast (u ! (j + n - 2));
         dividend = push_bit 32 (ucast (u ! (j + n))) + ucast (u ! (j + n - 1));
         qp = dividend div v1;
         rp = dividend mod v1
     in if qp = b \<or> qp * v2 > b * rp + u2 then
          let qp = qp - 1; rp = rp + v1
          in if rp < b \<and> (qp = b \<or> qp * v2 > b * rp + u2) then qp - 1 else qp
        else qp)"

text \<open>D4: the loop that takes a borrow to the left, up to the digit \<open>u[m+n]\<close>, and the subtraction.\<close>

function borrow_left :: "u32 list \<Rightarrow> nat \<Rightarrow> nat \<Rightarrow> bool \<Rightarrow> u32 list \<times> bool" where
  "borrow_left u last_digit k borrow =
    (if borrow \<and> k \<le> last_digit then borrow_left (u[k := u ! k - 1]) last_digit (Suc k) (u ! k = 0) else (u, borrow))"
  by pat_completeness auto
termination by (relation "measure (\<lambda>(u, last_digit, k, borrow). Suc last_digit - k)") auto

declare borrow_left.simps [simp del]

definition mul_sub :: "u32 list \<Rightarrow> u32 list \<Rightarrow> u64 \<Rightarrow> nat \<Rightarrow> nat \<Rightarrow> nat \<Rightarrow> u32 list \<times> bool" where
  "mul_sub u v qp m n j =
    for_upto 0 n (\<lambda>i (u, isNeg).
      let u_tmp = push_bit 32 (ucast (u ! (j + i + 1))) OR ucast (u ! (j + i)) :: u64;
          subtrahend = qp * ucast (v ! i);
          borrow = subtrahend > u_tmp;
          result = u_tmp - subtrahend;
          u = u[j + i := ucast result, j + i + 1 := ucast (drop_bit 32 result)];
          (u, borrow) = borrow_left u (m + n) (j + i + 2) borrow
      in (u, isNeg \<or> borrow)) (u, False)"

text \<open>D6: adding the divisor back.\<close>

definition add_back :: "u32 list \<Rightarrow> u32 list \<Rightarrow> nat \<Rightarrow> nat \<Rightarrow> u32 list" where
  "add_back u v n j =
    (let (u, carry) = for_upto 0 n (\<lambda>i (u, carry).
           let limit = min (u ! (j + i)) (v ! i);
               d = u ! (j + i) + (v ! i + of_bool carry)
           in (u[j + i := d], d < limit \<or> carry \<and> d = limit)) (u, False)
     in u[j + n := u ! (j + n) + of_bool carry])"

definition knuth_step :: "u32 list \<Rightarrow> nat \<Rightarrow> nat \<Rightarrow> nat \<Rightarrow> u32 list \<times> u32 list \<Rightarrow> u32 list \<times> u32 list" where
  "knuth_step v m n j = (\<lambda>(u, q).
    let qp = trial_digit u v n j;
        (u, isNeg) = mul_sub u v qp m n j;
        q = q[j := ucast qp]
    in if isNeg then (add_back u v n j, q[j := q ! j - 1]) else (u, q))"

fun knuth_loop :: "u32 list \<Rightarrow> nat \<Rightarrow> nat \<Rightarrow> nat \<Rightarrow> u32 list \<times> u32 list \<Rightarrow> u32 list \<times> u32 list" where
  "knuth_loop v m n 0 s = knuth_step v m n 0 s"
| "knuth_loop v m n (Suc j) s = knuth_loop v m n j (knuth_step v m n (Suc j) s)"

text \<open>D8: the shift back to the right, from the top.\<close>

fun shr_digits :: "u32 list \<Rightarrow> nat \<Rightarrow> nat \<Rightarrow> u32 \<Rightarrow> u32 list \<Rightarrow> u32 list" where
  "shr_digits u shift 0 carry r = r"
| "shr_digits u shift (Suc i) carry r =
     shr_digits u shift i (push_bit (32 - shift) (u ! i)) (r[i := drop_bit shift (u ! i) OR carry])"

text \<open>\<open>countLeadingZeros\<close> at 32 bits is the 64-bit count less the 32 bits above.\<close>

definition KnuthDiv :: "u32 list \<Rightarrow> u32 list \<Rightarrow> u32 list \<Rightarrow> u32 list \<Rightarrow> nat \<Rightarrow> nat \<Rightarrow> u32 list \<times> u32 list" where
  "KnuthDiv u v q r m n =
    (let shift = countLeadingZeros (ucast (v ! (n - 1))) - 32;
         (u, u_carry) = (if shift \<noteq> 0 then shl_digits shift (m + n) u else (u, 0));
         v = (if shift \<noteq> 0 then fst (shl_digits shift n v) else v);
         u = u[m + n := u_carry];
         (u, q) = knuth_loop v m n m (u, q);
         r = (if shift \<noteq> 0 then shr_digits u shift n 0 r else for_upto 0 n (\<lambda>i r. r[i := u ! i]) r)
     in (q, r))"

section \<open>Division\<close>

definition split_words :: "u64 list \<Rightarrow> nat \<Rightarrow> u32 list \<Rightarrow> u32 list" where
  "split_words p words xs =
    for_upto 0 words (\<lambda>i xs. xs[i * 2 := ucast (p ! i AND drop_bit 32 (NOT 0)), i * 2 + 1 := ucast (drop_bit 32 (p ! i))]) xs"

definition join_words :: "u32 list \<Rightarrow> nat \<Rightarrow> u64 list \<Rightarrow> u64 list" where
  "join_words xs words p =
    for_upto 0 words (\<lambda>i p. p[i := ucast (xs ! (i * 2)) OR push_bit 32 (ucast (xs ! (i * 2 + 1)))]) p"

text \<open>The number of digits without the zero digits at the top.\<close>

fun used_digits :: "u32 list \<Rightarrow> nat \<Rightarrow> nat" where
  "used_digits xs 0 = 0"
| "used_digits xs (Suc i) = (if xs ! i = 0 then used_digits xs i else Suc i)"

text \<open>Division by one digit, from the top.\<close>

fun short_divide :: "u32 list \<Rightarrow> u32 \<Rightarrow> nat \<Rightarrow> u32 \<Rightarrow> u32 list \<Rightarrow> u32 list \<times> u32" where
  "short_divide U divisor 0 remainder Q = (Q, remainder)"
| "short_divide U divisor (Suc i) remainder Q =
     (let partial_dividend = push_bit 32 (ucast remainder) OR ucast (U ! i) :: u64
      in if partial_dividend = 0 then short_divide U divisor i 0 (Q[i := 0])
         else if partial_dividend < ucast divisor then
           short_divide U divisor i (ucast partial_dividend) (Q[i := 0])
         else if partial_dividend = ucast divisor then short_divide U divisor i 0 (Q[i := 1])
         else
           let q = ucast (partial_dividend div ucast divisor)
           in short_divide U divisor i (ucast (partial_dividend - ucast (q * divisor))) (Q[i := q]))"

definition divide_digits :: "u32 list \<Rightarrow> u32 list \<Rightarrow> nat \<Rightarrow> nat \<Rightarrow> (u32 list \<times> u32 list) option" where
  "divide_digits U V m n =
    (let Q = replicate (m + n) 0; R = replicate n 0;
         n' = used_digits V n;
         len = used_digits U (m + n)
     in if n' = 0 then None
        else if n' = 1 then
          let (Q, remainder) = short_divide U (V ! 0) len 0 Q in Some (Q, R[0 := remainder])
        else Some (KnuthDiv U V Q R (len - n') n'))"

definition divide :: "APInt \<Rightarrow> nat \<Rightarrow> APInt \<Rightarrow> nat \<Rightarrow> (APInt \<times> APInt) option" where
  "divide LHS lhsWords RHS rhsWords =
    (if lhsWords < rhsWords \<or> lhsWords \<noteq> 1 \<and> isSingleWord LHS \<or> rhsWords \<noteq> 1 \<and> isSingleWord RHS then None
     else
       let n = rhsWords * 2; m = lhsWords * 2 - n;
           U = (split_words (pVal LHS) lhsWords (replicate (m + n + 1) 0))[m + n := 0];
           V = split_words (pVal RHS) rhsWords (replicate n 0)
       in map_option (\<lambda>(Q, R).
            (\<lparr>BitWidth = BitWidth LHS, pVal = join_words Q lhsWords (replicate (getNumWords (BitWidth LHS)) 0)\<rparr>,
             \<lparr>BitWidth = BitWidth RHS, pVal = join_words R rhsWords (replicate (getNumWords (BitWidth RHS)) 0)\<rparr>))
          (divide_digits U V m n))"

definition udiv :: "APInt \<Rightarrow> APInt \<Rightarrow> APInt option" where
  "udiv x RHS =
    (if BitWidth x \<noteq> BitWidth RHS then None
     else if isSingleWord x then
       if VAL RHS = 0 then None else Some (construct (BitWidth x) (VAL x div VAL RHS) False)
     else
       let rhsWords = activeWords RHS; lhsWords = activeWords x in
       if rhsWords = 0 then None
       else if lhsWords = 0 then Some (construct (BitWidth x) 0 False)
       else if lhsWords < rhsWords \<or> ult_rep x RHS = Some True then Some (construct (BitWidth x) 0 False)
       else if op_eq x RHS = Some True then Some (construct (BitWidth x) 1 False)
       else if lhsWords = 1 \<and> rhsWords = 1 then
         Some (construct (BitWidth x) (pVal x ! 0 div pVal RHS ! 0) False)
       else map_option fst (divide x lhsWords RHS rhsWords))"

definition urem :: "APInt \<Rightarrow> APInt \<Rightarrow> APInt option" where
  "urem x RHS =
    (if BitWidth x \<noteq> BitWidth RHS then None
     else if isSingleWord x then
       if VAL RHS = 0 then None else Some (construct (BitWidth x) (VAL x mod VAL RHS) False)
     else
       let lhsWords = activeWords x; rhsWords = activeWords RHS in
       if rhsWords = 0 then None
       else if lhsWords = 0 then Some (construct (BitWidth x) 0 False)
       else if lhsWords < rhsWords \<or> ult_rep x RHS = Some True then Some x
       else if op_eq x RHS = Some True then Some (construct (BitWidth x) 0 False)
       else if lhsWords = 1 then Some (construct (BitWidth x) (pVal x ! 0 mod pVal RHS ! 0) False)
       else map_option snd (divide x lhsWords RHS rhsWords))"

definition sdiv :: "APInt \<Rightarrow> APInt \<Rightarrow> APInt option" where
  "sdiv x RHS =
    (if isNegative_rep x then
       if isNegative_rep RHS then do { a \<leftarrow> op_neg x; b \<leftarrow> op_neg RHS; udiv a b }
       else do { a \<leftarrow> op_neg x; d \<leftarrow> udiv a RHS; op_neg d }
     else if isNegative_rep RHS then do { b \<leftarrow> op_neg RHS; d \<leftarrow> udiv x b; op_neg d }
     else udiv x RHS)"

definition srem :: "APInt \<Rightarrow> APInt \<Rightarrow> APInt option" where
  "srem x RHS =
    (if isNegative_rep x then
       if isNegative_rep RHS then do { a \<leftarrow> op_neg x; b \<leftarrow> op_neg RHS; d \<leftarrow> urem a b; op_neg d }
       else do { a \<leftarrow> op_neg x; d \<leftarrow> urem a RHS; op_neg d }
     else if isNegative_rep RHS then do { b \<leftarrow> op_neg RHS; urem x b }
     else urem x RHS)"

text \<open>\<open>Quotient = 0\<close> and the like are assignments of a word, which keep the width of the object assigned to.\<close>

definition udivrem :: "APInt \<Rightarrow> APInt \<Rightarrow> APInt \<Rightarrow> APInt \<Rightarrow> (APInt \<times> APInt) option" where
  "udivrem LHS RHS Quot Rem =
    (if BitWidth LHS \<noteq> BitWidth RHS then None
     else if isSingleWord LHS then
       if VAL RHS = 0 then None
       else Some (construct (BitWidth LHS) (VAL LHS div VAL RHS) False, construct (BitWidth LHS) (VAL LHS mod VAL RHS) False)
     else
       let lhsWords = activeWords LHS; rhsWords = activeWords RHS in
       if lhsWords = 0 then Some (assign_u64 Quot 0, assign_u64 Rem 0)
       else if lhsWords < rhsWords \<or> ult_rep LHS RHS = Some True then Some (assign_u64 Quot 0, LHS)
       else if op_eq LHS RHS = Some True then Some (assign_u64 Quot 1, assign_u64 Rem 0)
       else if lhsWords = 1 \<and> rhsWords = 1 then
         Some (construct (BitWidth LHS) (pVal LHS ! 0 div pVal RHS ! 0) False,
               construct (BitWidth LHS) (pVal LHS ! 0 mod pVal RHS ! 0) False)
       else divide LHS lhsWords RHS rhsWords)"

definition sdivrem :: "APInt \<Rightarrow> APInt \<Rightarrow> APInt \<Rightarrow> APInt \<Rightarrow> (APInt \<times> APInt) option" where
  "sdivrem LHS RHS Quot Rem =
    (if isNegative_rep LHS then do {
       a \<leftarrow> op_neg LHS;
       (q, r) \<leftarrow> (if isNegative_rep RHS then do { b \<leftarrow> op_neg RHS; udivrem a b Quot Rem }
                 else do { (q, r) \<leftarrow> udivrem a RHS Quot Rem; q \<leftarrow> op_neg q; Some (q, r) });
       r \<leftarrow> op_neg r;
       Some (q, r) }
     else if isNegative_rep RHS then do {
       b \<leftarrow> op_neg RHS; (q, r) \<leftarrow> udivrem LHS b Quot Rem; q \<leftarrow> op_neg q; Some (q, r) }
     else udivrem LHS RHS Quot Rem)"

section \<open>Overflow tests\<close>

definition sadd_ov :: "APInt \<Rightarrow> APInt \<Rightarrow> (APInt \<times> bool) option" where
  "sadd_ov x RHS = do {
    Res \<leftarrow> op_plus x RHS;
    Some (Res, (\<not> isNegative_rep x) = (\<not> isNegative_rep RHS) \<and> (\<not> isNegative_rep Res) \<noteq> (\<not> isNegative_rep x)) }"

definition uadd_ov :: "APInt \<Rightarrow> APInt \<Rightarrow> (APInt \<times> bool) option" where
  "uadd_ov x RHS = do { Res \<leftarrow> op_plus x RHS; b \<leftarrow> ult_rep Res RHS; Some (Res, b) }"

definition ssub_ov :: "APInt \<Rightarrow> APInt \<Rightarrow> (APInt \<times> bool) option" where
  "ssub_ov x RHS = do {
    Res \<leftarrow> op_minus x RHS;
    Some (Res, (\<not> isNegative_rep x) \<noteq> (\<not> isNegative_rep RHS) \<and> (\<not> isNegative_rep Res) \<noteq> (\<not> isNegative_rep x)) }"

definition usub_ov :: "APInt \<Rightarrow> APInt \<Rightarrow> (APInt \<times> bool) option" where
  "usub_ov x RHS = do { Res \<leftarrow> op_minus x RHS; b \<leftarrow> ugt_rep Res x; Some (Res, b) }"

definition umul_ov :: "APInt \<Rightarrow> APInt \<Rightarrow> (APInt \<times> bool) option" where
  "umul_ov x RHS = do {
    Res \<leftarrow> op_times x RHS;
    if \<not> op_eq_u64 x 0 \<and> \<not> op_eq_u64 RHS 0 then do {
      a \<leftarrow> udiv Res RHS; e \<leftarrow> op_eq a x;
      if \<not> e then Some (Res, True)
      else do { b \<leftarrow> udiv Res x; f \<leftarrow> op_eq b RHS; Some (Res, \<not> f) } }
    else Some (Res, False) }"

definition smul_ov :: "APInt \<Rightarrow> APInt \<Rightarrow> (APInt \<times> bool) option" where
  "smul_ov x RHS = do {
    Res \<leftarrow> op_times x RHS;
    if \<not> op_eq_u64 x 0 \<and> \<not> op_eq_u64 RHS 0 then do {
      a \<leftarrow> sdiv Res RHS; e \<leftarrow> op_eq a x;
      if \<not> e then Some (Res, True)
      else do { b \<leftarrow> sdiv Res x; f \<leftarrow> op_eq b RHS; Some (Res, \<not> f) } }
    else Some (Res, False) }"

section \<open>What the multiplication computes\<close>

text \<open>One step over a general base: the middle sum \<open>S\<close> can exceed \<open>B * B\<close>, and the code's test for that looks only for
  the sum that is exactly \<open>B * B\<close>.\<close>

lemma middle_sum:
  fixes B :: nat
  assumes "lx < B" "ly < B" "hx < B" "C < B * B"
  defines "R \<equiv> (C + lx * ly) mod (B * B)"
  shows "(hx * ly + R div B + (if R < C then B else 0)) mod (B * B) = hx * ly + (C + lx * ly) div B"
    and "hx * ly + (C + lx * ly) div B < B * B" and "R mod B = (C + lx * ly) mod B"
proof -
  have B: "0 < B" using assms(1) by simp
  have le: "a * b \<le> (B - 1) * (B - 1)" if "a < B" "b < B" for a b
    by (rule mult_le_mono) (use that in simp_all)
  obtain D where D: "B = D + 1" using B by (metis Suc_eq_plus1 not0_implies_Suc neq0_conv)
  have p: "lx * ly \<le> D * D" "hx * ly \<le> D * D" using le assms(1-3) by (simp_all add: D)
  have "C + lx * ly < (2 * D + 1) * B" using p(1) assms(4) by (simp add: D algebra_simps)
  then have "(C + lx * ly) div B < 2 * D + 1" by (rule less_mult_imp_div_less)
  then show less: "hx * ly + (C + lx * ly) div B < B * B" using p(2) by (simp add: D algebra_simps)
  have "R div B + (if R < C then B else 0) = (C + lx * ly) div B"
  proof (cases "C + lx * ly < B * B")
    case True
    then show ?thesis by (simp add: R_def)
  next
    case False
    have "lx * ly < B * B" using p(1) by (simp add: D algebra_simps)
    then have "R = C + lx * ly - B * B" unfolding R_def using False assms(4) by (subst mod_if) simp
    then have R: "C + lx * ly = R + B * B" "R < C" using False \<open>lx * ly < B * B\<close> assms(4) by linarith+
    have "(R + B * B) div B = R div B + B" using B by simp
    with R show ?thesis by simp
  qed
  with less show "(hx * ly + R div B + (if R < C then B else 0)) mod (B * B) = hx * ly + (C + lx * ly) div B"
    by (simp add: add.assoc)
  show "R mod B = (C + lx * ly) mod B" by (simp add: R_def mod_mult2_eq)
qed

lemma halves_product:
  fixes B :: nat
  shows "(lx + hx * B) * (ly + hy * B) + C =
    (C + lx * ly) mod B + (hx * ly + (C + lx * ly) div B + lx * hy mod B) * B + (lx * hy div B + hx * hy) * (B * B)"
proof -
  have "(lx + hx * B) * (ly + hy * B) + C = (C + lx * ly) + hx * ly * B + (lx * hy) * B + hx * hy * (B * B)"
    by (simp add: algebra_simps)
  also have "\<dots> = ((C + lx * ly) mod B + (C + lx * ly) div B * B) + hx * ly * B +
      (lx * hy mod B + lx * hy div B * B) * B + hx * hy * (B * B)"
    by (simp only: mod_div_mult_eq)
  also have "p0 + p1 * B + a * B + (q0 + q1 * B) * B + b * (B * B) = p0 + (a + p1 + q0) * B + (q1 + b) * (B * B)"
    for p0 p1 a q0 q1 b by (simp add: algebra_simps)
  finally show ?thesis .
qed

lemma and_low_half: "w AND 0xffffffff = take_bit 32 w" for w :: u64
  by (simp add: take_bit_eq_mask mask_eq_exp_minus_1)

lemma unat_low_half: "unat (w AND 0xffffffff) = unat w mod 2 ^ 32" for w :: u64
  by (simp only: and_low_half unsigned_take_bit_eq) (simp only: take_bit_eq_mod)

lemma unat_join: "unat (push_bit 32 c OR (r AND 0xffffffff)) = unat c mod 2 ^ 32 * 2 ^ 32 + unat r mod 2 ^ 32" for c r :: u64
proof -
  have "push_bit 32 c AND take_bit 32 r = 0" by (rule bit_word_eqI) (auto simp: bit_simps)
  then have "push_bit 32 c OR (r AND 0xffffffff) = push_bit 32 c + take_bit 32 r"
    unfolding and_low_half by (rule disjunctive_add_eq_or [symmetric])
  moreover have t: "unat (take_bit 32 r) = unat r mod 2 ^ 32"
    by (simp only: unsigned_take_bit_eq) (simp only: take_bit_eq_mod)
  moreover have "2 ^ 32 * (unat c mod 2 ^ 32) + unat r mod 2 ^ 32 < (2 ^ 64 :: nat)"
  proof -
    have "a * 2 ^ 32 + b < 2 ^ 64" if "a < 2 ^ 32" "b < 2 ^ 32" for a b :: nat using that by simp
    from this [of "unat c mod 2 ^ 32" "unat r mod 2 ^ 32"] show ?thesis by (simp add: mult.commute)
  qed
  ultimately show ?thesis
    using unat_add_exact [of "push_bit 32 c" "take_bit 32 r"] by (simp only: unat_shift_half mult.commute)
qed

text \<open>The words of the step, read as numbers.\<close>

lemma mul_halves_words:
  fixes x y c :: u64
  defines "B \<equiv> 2 ^ 32 :: nat"
  defines "lx \<equiv> unat x mod B" and "hx \<equiv> unat x div B" and "ly \<equiv> unat y mod B" and "hy \<equiv> unat y div B"
  defines "S \<equiv> hx * ly + (unat c + lx * ly) div B"
  assumes "mul_halves x y c = (r, d)"
  shows "unat r = (S + lx * hy mod B) mod (B * B) mod B * B + (unat c + lx * ly) mod B"
    and "unat d = ((if (S + lx * hy mod B) mod (B * B) = 0 \<and> S \<noteq> 0 then B else 0) +
      (S + lx * hy mod B) mod (B * B) div B + lx * hy div B + hx * hy) mod (B * B)"
    and "S < B * B" and "lx < B" and "hx < B" and "ly < B" and "hy < B"
proof -
  define lxw hxw lyw hyw where w: "lxw = x AND 0xffffffff" "hxw = drop_bit 32 x" "lyw = y AND 0xffffffff" "hyw = drop_bit 32 y"
  have u: "unat lxw = lx" "unat hxw = hx" "unat lyw = ly" "unat hyw = hy"
    by (simp_all only: w unat_low_half unat_drop_bit lx_def hx_def ly_def hy_def B_def)
  have BB: "B * B = 2 ^ 64" by (simp add: B_def)
  show small: "lx < B" "hx < B" "ly < B" "hy < B"
    using u64_less [of x] u64_less [of y] by (simp_all add: lx_def hx_def ly_def hy_def B_def less_mult_imp_div_less)
  have prod: "unat (lxw * lyw) = lx * ly" "unat (hxw * lyw) = hx * ly" "unat (lxw * hyw) = lx * hy" "unat (hxw * hyw) = hx * hy"
    using small half_mult by (simp_all add: unat_mult_exact u B_def)
  have C: "unat c < B * B" using u64_less [of c] by (simp only: BB)
  note mid = middle_sum [OF small(1,3,2) C]
  show S: "S < B * B" unfolding S_def by (rule mid(2))
  define rw where "rw = c + lxw * lyw"
  have R: "unat rw = (unat c + lx * ly) mod (B * B)" by (simp add: rw_def unat_word_ariths(1) prod BB)
  define c1 where "c1 = hxw * lyw + drop_bit 32 rw + (if rw < c then push_bit 32 1 else 0)"
  have "unat (if rw < c then push_bit 32 1 else 0 :: u64) = (if unat rw < unat c then B else 0)"
    by (simp add: word_less_nat_alt B_def)
  then have "unat c1 = (hx * ly + unat rw div B + (if unat rw < unat c then B else 0)) mod (B * B)"
    unfolding c1_def by (simp add: unat_word_ariths(1) prod BB unat_drop_bit mod_simps) (simp add: B_def)
  then have c1: "unat c1 = S" using mid(1) by (simp only: R S_def)
  define c2 where "c2 = c1 + (lxw * hyw AND 0xffffffff)"
  have c2: "unat c2 = (S + lx * hy mod B) mod (B * B)"
    by (simp only: c2_def unat_word_ariths(1) unat_low_half prod c1 BB) (simp add: B_def)
  have no: "c1 \<noteq> 0" if "rw < c"
  proof -
    have "(unat c + lx * ly) div B \<noteq> 0"
    proof
      assume "(unat c + lx * ly) div B = 0"
      then have "unat c + lx * ly < B" by (simp add: B_def div_eq_0_iff)
      moreover have "B \<le> B * B" by (simp add: B_def)
      ultimately have "unat c + lx * ly < B * B" by linarith
      then have "unat rw = unat c + lx * ly" by (simp only: R mod_less)
      with that show False by (simp add: word_less_nat_alt)
    qed
    then show ?thesis using c1 by (auto simp: S_def)
  qed
  have split: "mul_halves x y c = (push_bit 32 c2 OR (rw AND 0xffffffff),
      (if c2 = 0 \<and> c1 \<noteq> 0 then push_bit 32 1 else 0) + drop_bit 32 c2 + drop_bit 32 (lxw * hyw) + hxw * hyw)"
    using no unfolding mul_halves_def Let_def w(1,2,3,4) [symmetric] rw_def [symmetric]
    by (auto simp: c1_def c2_def)
  then have r: "r = push_bit 32 c2 OR (rw AND 0xffffffff)"
    and d: "d = (if c2 = 0 \<and> c1 \<noteq> 0 then push_bit 32 1 else 0) + drop_bit 32 c2 + drop_bit 32 (lxw * hyw) + hxw * hyw"
    using assms(7) by simp_all
  show "unat r = (S + lx * hy mod B) mod (B * B) mod B * B + (unat c + lx * ly) mod B"
    using mid(3) unfolding r unat_join c2 R by (simp add: B_def)
  have "unat (if c2 = 0 \<and> c1 \<noteq> 0 then push_bit 32 1 else 0 :: u64) = (if unat c2 = 0 \<and> unat c1 \<noteq> 0 then B else 0)"
    by (simp add: unat_eq_0 B_def)
  then show "unat d = ((if (S + lx * hy mod B) mod (B * B) = 0 \<and> S \<noteq> 0 then B else 0) +
      (S + lx * hy mod B) mod (B * B) div B + lx * hy div B + hx * hy) mod (B * B)"
    unfolding d by (simp only: unat_word_ariths(1) unat_drop_bit prod c1 c2 BB) (simp add: B_def mod_simps)
qed

lemma middle_small:
  fixes B :: nat
  assumes "lx < B" "ly < B" "hx < B" "q < B"
  shows "hx * ly + lx * ly div B + q < B * B"
proof -
  obtain D where D: "B = D + 1" using assms(1) by (metis Suc_eq_plus1 less_nat_zero_code not0_implies_Suc)
  have p: "lx * ly \<le> D * D" "hx * ly \<le> D * D"
    using mult_le_mono [of lx D ly D] mult_le_mono [of hx D ly D] assms by (simp_all add: D)
  have "lx * ly div B \<le> D * D div (D + 1)" unfolding D by (rule div_le_mono) (rule p(1))
  moreover have "D * D div (D + 1) \<le> D - 1"
  proof (cases D)
    case (Suc n)
    have "D * D < D * (D + 1)" using Suc by simp
    then have "D * D div (D + 1) < D" by (rule less_mult_imp_div_less)
    then show ?thesis by simp
  qed simp
  ultimately have "hx * ly + lx * ly div B + q \<le> D * D + (D - 1) + D" using p(2) assms(4) by (simp add: D)
  also have "\<dots> < B * B" by (simp add: D algebra_simps)
  finally show ?thesis .
qed

lemma mul_halves_value:
  assumes "mul_halves x y c = (r, d)"
  shows "unat r = (unat x * unat y + unat c) mod 2 ^ 64"
    and "c = 0 \<or> unat y < 2 ^ 32 \<Longrightarrow> unat r + unat d * 2 ^ 64 = unat x * unat y + unat c"
proof -
  define B where "B = (2 ^ 32 :: nat)"
  define lx hx ly hy where h: "lx = unat x mod B" "hx = unat x div B" "ly = unat y mod B" "hy = unat y div B"
  define S where "S = hx * ly + (unat c + lx * ly) div B"
  note words = mul_halves_words [OF assms, folded B_def, folded h, folded S_def]
  have BB: "B * B = 2 ^ 64" "0 < B" by (simp_all add: B_def)
  let ?P = "(unat c + lx * ly) mod B" and ?T = "S + lx * hy mod B" and ?H = "lx * hy div B + hx * hy"
  have "unat x = lx + hx * B" "unat y = ly + hy * B" by (simp_all only: h mod_div_mult_eq)
  then have split: "unat x * unat y + unat c = ?P + ?T * B + ?H * (B * B)"
    using halves_product [of lx hx B ly hy "unat c"] by (simp only: S_def add.assoc)
  have P: "?P < B" using BB(2) by simp
  have low: "(p + t * B + k * (B * B)) mod (B * B) = t mod B * B + p" if "p < B" for p t k
    using that mod_low_high [of p B t B] by (simp add: add.commute)
  have T: "?T mod (B * B) mod B = ?T mod B" by (rule mod_mod_cancel) simp
  show "unat r = (unat x * unat y + unat c) mod 2 ^ 64"
    unfolding BB(1) [symmetric] split low [OF P] words(1) T ..
  show "unat r + unat d * 2 ^ 64 = unat x * unat y + unat c" if "c = 0 \<or> unat y < 2 ^ 32"
  proof -
    have "?T < B * B"
    proof (cases "unat y < 2 ^ 32")
      case True
      then have "hy = 0" by (simp add: h B_def)
      then show ?thesis using words(3) by simp
    next
      case False
      then show ?thesis using that middle_small [OF words(4,6,5), of "lx * hy mod B"] BB(2) by (simp add: S_def)
    qed
    then have t: "?T mod (B * B) = ?T" by simp
    have "(if ?T mod (B * B) = 0 \<and> S \<noteq> 0 then B else 0) = 0" unfolding t by simp
    then have d: "unat d = (?T div B + ?H) mod (B * B)" using words(2) by (simp only: t add_0 add.assoc)
    have T2: "?T * B = ?T div B * (B * B) + ?T mod B * B"
      by (metis add_mult_distrib div_mult_mod_eq mult.assoc)
    have "(?T div B + ?H) * (B * B) \<le> unat x * unat y + unat c"
      unfolding split T2 by (simp only: add_mult_distrib)
    also have "\<dots> < B * B * (B * B)"
      using word_product_bound [of x y c 0] by (simp add: BB(1))
    finally have "?T div B + ?H < B * B" by (simp only: mult_less_cancel2)
    then have "unat d = ?T div B + ?H" by (simp only: d mod_less)
    moreover have "unat r = ?T mod B * B + ?P" by (simp only: words(1) t)
    ultimately show ?thesis unfolding split T2 BB(1) [symmetric] by (simp only: distrib_left distrib_right ac_simps)
  qed
qed

text \<open>A product by a number below \<open>2 ^ 32\<close>, and a product of one word by many, never meet the lost carry.\<close>

lemma mul_1_exact:
  assumes "len \<le> length dest" and "unat y < 2 ^ 32" and "mul_1 dest x len y = (d, c)"
  shows "bval d len + unat c * 2 ^ (64 * len) = bval x len * unat y" and "length d = length dest"
proof -
  let ?I = "\<lambda>k (st :: u64 list \<times> u64). bval (fst st) k + unat (snd st) * 2 ^ (64 * k) = bval x k * unat y \<and> length (fst st) = length dest"
  let ?body = "\<lambda>i (dest, carry). let (d, carry) = mul_halves (x ! i) y carry in (dest[i := d], carry)"
  have "?I len (for_upto 0 len ?body (dest, 0))"
  proof (rule for_upto_invariant [where P = ?I])
    fix k t
    assume k: "k < len" and inv: "?I k t"
    obtain e c where t: "t = (e, c)" by (cases t)
    obtain r c' where h: "mul_halves (x ! k) y c = (r, c')" by force
    have "unat r + unat c' * 2 ^ 64 = unat (x ! k) * unat y + unat c" by (rule mul_halves_value(2) [OF h, OF disjI2 [OF assms(2)]])
    then have "(unat r + unat c' * 2 ^ 64) * 2 ^ (64 * k) = (unat (x ! k) * unat y + unat c) * 2 ^ (64 * k)" by simp
    then have "?I (Suc k) (e[k := r], c')"
      using inv k assms(1) by (simp add: t bval_Suc power_add algebra_simps)
    then show "?I (Suc k) (?body k t)" by (simp add: t h)
  qed simp_all
  then show "bval d len + unat c * 2 ^ (64 * len) = bval x len * unat y" "length d = length dest"
    using assms(3) by (simp_all add: mul_1_def)
qed

lemma high_word_small:
  fixes a b s e B :: nat
  assumes "s + e * B = a * b" and "a < B" and "b < B" and "1 < B"
  shows "e + 1 < B"
proof -
  obtain D where D: "B = D + 1" "0 < D" using assms(4) by (metis add.commute add_diff_inverse_nat less_imp_diff_less less_irrefl not_less_iff_gr_or_eq zero_less_diff)
  have "a * b \<le> D * D" using assms(2,3) by (intro mult_le_mono) (simp_all add: D)
  then have "e * B \<le> D * D" using assms(1) by linarith
  also have "D * D < D * B" using D by simp
  finally have "e < D" by (simp only: mult_less_cancel2)
  then show ?thesis by (simp add: D)
qed

lemma for_upto_small: "for_upto 0 (Suc 0) f s = f 0 s" "for_upto 0 2 f s = f (Suc 0) (f 0 s)" "for_upto (Suc 0) 2 f s = f (Suc 0) s"
  by (simp_all add: for_upto_def numeral_2_eq_2)

lemma mul_row_one:
  assumes "i < length dest" and "mul_halves (x ! 0) y 0 = (r, c)"
  shows "mul_row dest x 1 y i = (dest[i := dest ! i + r], c + of_bool (dest ! i + r < r))"
  using assms by (simp add: mul_row_def for_upto_small)

lemma mul_one_word:
  assumes "0 < yl" and "length dest = 1 + yl"
  shows "bval (mul dest x 1 y yl) (1 + yl) = unat (x ! 0) * bval y yl" and "length (mul dest x 1 y yl) = length dest"
proof -
  let ?I = "\<lambda>k d. bval d (k + 1) = unat (x ! 0) * bval y k \<and> length d = length dest"
  let ?body = "\<lambda>i dest. let (dest, carry) = mul_row dest x 1 (y ! i) i in dest[i + 1 := carry]"
  obtain r c where h: "mul_halves (x ! 0) (y ! 0) 0 = (r, c)" by force
  then have first: "mul_1 dest x 1 (y ! 0) = (dest[0 := r], c)" by (simp add: mul_1_def for_upto_small)
  have "?I yl (for_upto 1 yl ?body (dest[0 := r, 1 := c]))"
  proof (rule for_upto_invariant [where P = ?I])
    show "?I 1 (dest[0 := r, 1 := c])"
      using mul_halves_value(2) [OF h] assms by (simp add: bval_Suc)
  next
    fix k d
    assume k: "1 \<le> k" "k < yl" and inv: "?I k d"
    obtain s e where h: "mul_halves (x ! 0) (y ! k) 0 = (s, e)" by force
    note v = mul_halves_value(2) [OF h]
    let ?w = "d ! k + s"
    have carry: "unat ?w + of_bool (?w < s) * 2 ^ 64 = unat (d ! k) + unat s"
      using unat_add_carry [of s "d ! k"] unfolding add.commute [of s "d ! k"] by (cases "?w < s") simp_all
    have "unat e + 1 < 2 ^ 64"
      by (rule high_word_small [OF _ u64_less u64_less, of "unat s" _ "x ! 0" "y ! k"]) (use v in simp_all)
    then have e: "unat (e + of_bool (?w < s)) = unat e + of_bool (?w < s)"
      using unat_add_exact [of e 1] by (cases "?w < s") simp_all
    have "(unat ?w + unat (e + of_bool (?w < s)) * 2 ^ 64) * 2 ^ (64 * k) =
        (unat (d ! k) + unat (x ! 0) * unat (y ! k)) * 2 ^ (64 * k)"
      using carry v unfolding e by simp
    then have "?I (Suc k) (d[k := ?w, k + 1 := e + of_bool (?w < s)])"
      using inv k assms by (simp add: bval_Suc power_add algebra_simps)
    then show "?I (Suc k) (?body k d)"
      using mul_row_one [of k d x "y ! k", OF _ h] inv k assms by simp
  qed (use assms in simp)
  then show "bval (mul dest x 1 y yl) (1 + yl) = unat (x ! 0) * bval y yl" "length (mul dest x 1 y yl) = length dest"
    using first by (simp_all add: mul_def)
qed

lemma mul_one_digit:
  assumes "unat (y ! 0) < 2 ^ 32" and "length dest = xl + 1"
  shows "bval (mul dest x xl y 1) (xl + 1) = bval x xl * unat (y ! 0)" and "length (mul dest x xl y 1) = length dest"
proof -
  obtain d c where m: "mul_1 dest x xl (y ! 0) = (d, c)" by force
  from mul_1_exact [OF _ assms(1) m] assms(2)
  show "bval (mul dest x xl y 1) (xl + 1) = bval x xl * unat (y ! 0)" "length (mul dest x xl y 1) = length dest"
    by (simp_all add: mul_def m bval_Suc)
qed

text \<open>The two low words are right in any case.\<close>

lemma two_words_product:
  assumes "mul_halves x0 y0 0 = (r0, c0)" and "unat e = (unat x1 * unat y0 + unat c0 + unat x0 * unat y1) mod 2 ^ 64"
  shows "unat r0 + unat e * 2 ^ 64 = (unat x0 + unat x1 * 2 ^ 64) * (unat y0 + unat y1 * 2 ^ 64) mod 2 ^ 128"
proof -
  have "(r + t mod B * B) = (a + b * B) * (u + v * B) mod (B * B)"
    if "r + c * B = a * u" "t = b * u + c + a * v" "r < B" for a b u v r c t B :: nat
  proof -
    have "(a + b * B) * (u + v * B) = a * u + (b * u + a * v) * B + b * v * (B * B)" by (simp add: algebra_simps)
    also have "\<dots> = r + t * B + b * v * (B * B)" by (simp add: that(1) [symmetric] that(2) algebra_simps)
    finally show ?thesis using mod_low_high [OF that(3), of t B] by simp
  qed
  from this [of "unat r0" "unat c0" "2 ^ 64" "unat x0" "unat y0"] mul_halves_value(2) [OF assms(1)] u64_less [of r0]
  show ?thesis by (simp add: assms(2))
qed

lemma mul_two_words:
  assumes "xl \<in> {1, 2}" and "yl \<in> {1, 2}" and "length dest = xl + yl"
  shows "bval (mul dest x xl y yl) 2 = bval x xl * bval y yl mod 2 ^ 128"
proof -
  define x1 y1 where "x1 = (if xl = 1 then 0 else x ! 1)" and "y1 = (if yl = 1 then 0 else y ! 1)"
  have v: "bval x xl = unat (x ! 0) + unat x1 * 2 ^ 64" "bval y yl = unat (y ! 0) + unat y1 * 2 ^ 64"
    using assms(1,2) by (auto simp: x1_def y1_def bval_pair bval_Suc bval_def numeral_2_eq_2)
  obtain r0 c0 where h0: "mul_halves (x ! 0) (y ! 0) 0 = (r0, c0)" by force
  obtain r1 c1 where h1: "mul_halves (x ! 1) (y ! 0) c0 = (r1, c1)" by force
  obtain r2 c2 where h2: "mul_halves (x ! 0) (y ! 1) 0 = (r2, c2)" by force
  define e where "e = (if xl = 1 then c0 else r1) + (if yl = 1 then 0 else r2)"
  have "unat e = (unat x1 * unat (y ! 0) + unat c0 + unat (x ! 0) * unat y1) mod 2 ^ 64"
    using mul_halves_value(1) [OF h1] mul_halves_value(1) [OF h2] assms(1,2)
    by (auto simp: e_def x1_def y1_def unat_word_ariths(1) mod_simps)
  note p = two_words_product [OF h0 this]
  have "mul dest x xl y yl ! 0 = r0 \<and> mul dest x xl y yl ! 1 = e"
  proof -
    have d: "length dest = xl + yl" by (rule assms(3))
    obtain r3 c3 where h3: "mul_halves (x ! 1) (y ! 1) (c2 + of_bool (r1 + r2 < r2)) = (r3, c3)" by force
    show ?thesis
      using assms(1,2) d h0 h1 h2 h3
      by (auto simp: mul_def mul_1_def mul_row_def for_upto_small e_def add.commute)
  qed
  then have "bval (mul dest x xl y yl) 2 = unat r0 + unat e * 2 ^ 64" by (simp add: bval_def numeral_2_eq_2)
  with p show ?thesis by (simp only: v)
qed

text \<open>The active words hold the value.\<close>

lemma activeWords_value:
  assumes "wf_rep x"
  shows "activeWords x = 0 \<longleftrightarrow> ival (abs_apint x) = 0" and "activeWords x \<le> getNumWords (BitWidth x)"
    and "bval (pVal x) (activeWords x) = ival (abs_apint x)"
    and "ival (abs_apint x) < 2 ^ (64 * k) \<longleftrightarrow> activeWords x \<le> k"
proof -
  let ?a = "getActiveBits x"
  have a: "?a = bit_length (ival (abs_apint x))" by (rule getActiveBits_value [OF assms])
  have zero: "?a = 0 \<longleftrightarrow> ival (abs_apint x) = 0"
    unfolding a using bit_length_le [of "ival (abs_apint x)" 0] by simp
  show "activeWords x = 0 \<longleftrightarrow> ival (abs_apint x) = 0" by (simp add: activeWords_def Let_def zero)
  show "activeWords x \<le> getNumWords (BitWidth x)"
    using wf_div_less [of "?a - 1" "BitWidth x"] active_bits(2) [OF assms]
    by (auto simp: activeWords_def Let_def whichWord_def Suc_le_eq)
  show "bval (pVal x) (activeWords x) = ival (abs_apint x)"
    using bval_active [OF assms active_bits [OF assms]] zero by (auto simp: activeWords_def Let_def whichWord_def)
  have "ival (abs_apint x) < 2 ^ (64 * k) \<longleftrightarrow> ?a \<le> 64 * k" unfolding a by (rule bit_length_le [symmetric])
  also have "\<dots> \<longleftrightarrow> activeWords x \<le> k"
  proof (cases "?a = 0")
    case False
    have "?a \<le> 64 * k \<longleftrightarrow> (?a - 1) div 64 < k"
      using False div_less_iff_less_mult [of 64 "?a - 1" k] by (auto simp: mult.commute)
    with False show ?thesis by (simp add: activeWords_def Let_def whichWord_def Suc_le_eq)
  qed (simp add: activeWords_def Let_def)
  finally show "ival (abs_apint x) < 2 ^ (64 * k) \<longleftrightarrow> activeWords x \<le> k" .
qed

lemma length_mul [simp]: "length (mul dest x xl y yl) = length dest"
proof -
  have one: "length (fst (mul_1 d x len y)) = length d" for d x len y
    unfolding mul_1_def
    by (rule for_upto_invariant [where P = "\<lambda>k s. length (fst s) = length d"]) (auto split: prod.splits)
  have row: "length (fst (mul_row d x len y i)) = length d" for d x len y i
    unfolding mul_row_def
    by (rule for_upto_invariant [where P = "\<lambda>k s. length (fst s) = length d"]) (auto simp: Let_def split: prod.splits)
  obtain e c where e: "mul_1 dest x xl (y ! 0) = (e, c)" by force
  have "length (for_upto 1 yl (\<lambda>i dest. let (dest, carry) = mul_row dest x xl (y ! i) i in dest[i + xl := carry])
      (e[xl := c])) = length dest" if "1 \<le> yl"
    by (rule for_upto_invariant [where P = "\<lambda>k d. length d = length dest", OF that])
       (use one [of dest x xl "y ! 0"] e row in \<open>auto simp: case_prod_beta\<close>)
  then show ?thesis using one [of dest x xl "y ! 0"] e by (cases "1 \<le> yl") (simp_all add: mul_def)
qed

lemma bval_min_words: "bval d (min (getNumWords w) m) mod 2 ^ w = bval d m mod 2 ^ w"
proof (cases "getNumWords w \<le> m")
  case True
  then show ?thesis using bval_mod [OF True, of d] by (simp add: mod_words min_absorb1)
qed (simp add: min_def)

text \<open>The product of the active words, modulo the width: for at most two words, or for factors that do not meet the
  lost carry.\<close>

lemma mul_active_words:
  assumes "wf_rep x" and "wf_rep y" and "BitWidth x = BitWidth y" and "\<not> isSingleWord x"
    and "0 < activeWords x" and "0 < activeWords y"
    and "BitWidth x \<le> 128 \<or> ival (abs_apint x) < 2 ^ 64 \<or> ival (abs_apint y) < 2 ^ 32"
  defines "m \<equiv> activeWords y + activeWords x"
  shows "bval (mul (replicate m 0) (pVal x) (activeWords x) (pVal y) (activeWords y)) (min (getNumWords (BitWidth x)) m)
      mod 2 ^ BitWidth x = ival (abs_apint x) * ival (abs_apint y) mod 2 ^ BitWidth x"
proof -
  let ?xl = "activeWords x" and ?yl = "activeWords y" and ?X = "ival (abs_apint x)" and ?Y = "ival (abs_apint y)"
  let ?d = "mul (replicate m 0) (pVal x) ?xl (pVal y) ?yl"
  note ax = activeWords_value [OF assms(1)] and ay = activeWords_value [OF assms(2), folded assms(3)]
  consider (two) "BitWidth x \<le> 128" | (one) "?X < 2 ^ 64" | (digit) "?Y < 2 ^ 32" using assms(7) by blast
  then show ?thesis
  proof cases
    case two
    then have n: "getNumWords (BitWidth x) = 2"
      using getNumWords_bounds [of "BitWidth x"] assms(4) by (simp add: isSingleWord_def)
    then have "?xl \<in> {1, 2}" "?yl \<in> {1, 2}" using ax(2) ay(2) assms(5,6) by auto
    then have "bval ?d 2 = ?X * ?Y mod 2 ^ 128"
      using mul_two_words [of ?xl ?yl "replicate m 0" "pVal x" "pVal y"] ax(3) ay(3) by (simp add: m_def add.commute)
    moreover have "(2 :: nat) ^ BitWidth x dvd 2 ^ 128" using two by (rule le_imp_power_dvd)
    moreover have "min 2 m = 2" using assms(5,6) by (simp add: m_def)
    ultimately show ?thesis by (simp only: n mod_mod_cancel)
  next
    case one
    then have xl: "?xl = 1" using ax(4) [of 1] assms(5) by simp
    have "unat (pVal x ! 0) = ?X" using ax(3) by (simp add: xl bval_Suc)
    then have "bval ?d m = ?X * ?Y"
      using mul_one_word(1) [OF assms(6), of "replicate m 0" "pVal x" "pVal y"] ay(3) by (simp add: m_def xl)
    then show ?thesis by (simp only: bval_min_words)
  next
    case digit
    have "?Y < 2 ^ (64 * 1)" by (rule less_trans [OF digit]) simp
    then have yl: "?yl = 1" using ay(4) [of 1] assms(6) by simp
    have Y: "unat (pVal y ! 0) = ?Y" using ay(3) by (simp add: yl bval_Suc)
    then have "bval ?d m = ?X * ?Y"
      using mul_one_digit(1) [of "pVal y" "replicate m 0" ?xl "pVal x"] ax(3) digit by (simp add: m_def yl)
    then show ?thesis by (simp only: bval_min_words)
  qed
qed

lemma refines_times_assign:
  assumes "wf_rep x" and "wf_rep y" and "BitWidth x = BitWidth y"
    and "BitWidth x \<le> 128 \<or> ival (abs_apint x) < 2 ^ 64 \<or> ival (abs_apint y) < 2 ^ 32"
  shows "refines (times_assign x y) (ap_mul (abs_apint x) (abs_apint y))"
proof (cases "isSingleWord x")
  case True
  let ?X = "ival (abs_apint x)" and ?Y = "ival (abs_apint y)"
  have y: "isSingleWord y" using True assms(3) by (simp add: isSingleWord_def)
  have "unat (VAL x * VAL y) = ?X * ?Y mod 2 ^ 64"
    using single_word(3) [OF assms(1) True] single_word(3) [OF assms(2) y] by (simp add: unat_word_ariths(2))
  moreover have "(2 :: nat) ^ BitWidth x dvd 2 ^ 64"
    by (rule le_imp_power_dvd) (use True in \<open>simp add: isSingleWord_def\<close>)
  ultimately have "unat (VAL x * VAL y) mod 2 ^ BitWidth x = ?X * ?Y mod 2 ^ BitWidth x" by (simp only: mod_mod_cancel)
  then show ?thesis
    using clear_single [OF wf_repD(1) [OF assms(1)], of "VAL x * VAL y"] True assms(3)
    by (simp add: times_assign_def ap_mul_def isSingleWord_def mk_apint_def)
next
  case False
  let ?w = "BitWidth x" and ?n = "getNumWords (BitWidth x)" and ?X = "ival (abs_apint x)" and ?Y = "ival (abs_apint y)"
  let ?xl = "activeWords x" and ?yl = "activeWords y"
  note w = wf_repD(1,2) [OF assms(1)]
  note ax = activeWords_value [OF assms(1)] and ay = activeWords_value [OF assms(2), folded assms(3)]
  consider (x0) "?xl = 0" | (y0) "?xl \<noteq> 0" "?yl = 0" | (pos) "0 < ?xl" "0 < ?yl" by blast
  then show ?thesis
  proof cases
    case x0
    then have "mk_apint ?w (?X * ?Y) = abs_apint x" using ax(1) by (simp add: mk_apint_def apint_eq_iff)
    with x0 False assms(1,3) show ?thesis by (simp add: times_assign_def ap_mul_def Let_def)
  next
    case y0
    then have "?Y = 0" using ay(1) by simp
    with y0 False assms(3) clear_set_flip_all(1) [OF assms(1)] show ?thesis
      by (simp add: times_assign_def ap_mul_def Let_def getMinValue_def)
  next
    case pos
    let ?z = "replicate (?yl + ?xl) 0 :: u64 list"
    define d where "d = mul ?z (pVal x) ?xl (pVal y) ?yl"
    define c where "c = (if ?yl + ?xl \<ge> ?n then ?n else ?yl + ?xl)"
    let ?p = "take c d @ drop c (replicate ?n 0)"
    have d: "length d = ?yl + ?xl \<and> bval d (min ?n (?yl + ?xl)) mod 2 ^ ?w = ?X * ?Y mod 2 ^ ?w"
      using mul_active_words [OF assms(1-3) False pos assms(4)] by (simp add: d_def)
    have c: "c = min ?n (?yl + ?xl)" by (simp add: c_def min_def)
    have p: "length ?p = ?n" using d by (simp add: c)
    have "bval ?p ?n = bval ?p c" by (rule bval_zero_above) (use d in \<open>auto simp: c nth_append\<close>)
    also have "\<dots> = bval d c" by (rule bval_cong) (use d in \<open>auto simp: c nth_append\<close>)
    finally have "mk_apint ?w (bval ?p ?n) = mk_apint ?w (?X * ?Y)" using d by (simp add: mk_apint_def c)
    then have "refines (Some (clearUnusedBits \<lparr>BitWidth = ?w, pVal = ?p\<rparr>)) (ap_mul (abs_apint x) (abs_apint y))"
      using clear_raw [OF w(1) p] by (simp add: ap_mul_def)
    moreover have "times_assign x y = Some (clearUnusedBits \<lparr>BitWidth = ?w, pVal = ?p\<rparr>)"
      unfolding times_assign_def Let_def d_def [symmetric] c_def [symmetric] using False pos assms(3) by simp
    ultimately show ?thesis by (simp only:)
  qed
qed

lemma refines_op_times:
  assumes "wf_rep x" and "wf_rep y" and "BitWidth x = BitWidth y"
    and "BitWidth x \<le> 128 \<or> ival (abs_apint x) < 2 ^ 64 \<or> ival (abs_apint y) < 2 ^ 32"
  shows "refines (op_times x y) (ap_mul (abs_apint x) (abs_apint y))"
  using refines_times_assign [OF assms] assms(3)
  by (auto simp: op_times_def times_assign_def construct_single isSingleWord_def)

section \<open>Digits\<close>

definition radix :: nat where "radix = 2 ^ 32"

definition dval :: "u32 list \<Rightarrow> nat \<Rightarrow> nat" where
  "dval xs n = (\<Sum>i<n. unat (xs ! i) * radix ^ i)"

lemma dval_0 [simp]: "dval xs 0 = 0"
  by (simp add: dval_def)

lemma dval_Suc: "dval xs (Suc n) = dval xs n + unat (xs ! n) * radix ^ n"
  by (simp add: dval_def)

lemma dval_cong: "(\<And>i. i < n \<Longrightarrow> xs ! i = ys ! i) \<Longrightarrow> dval xs n = dval ys n"
  by (simp add: dval_def)

lemma radix_pos [simp]: "0 < radix" "radix \<noteq> 0" "0 < radix ^ n"
  by (simp_all add: radix_def)

lemma digit_less [simp]: "unat (x :: u32) < radix"
proof -
  have "unat x < 2 ^ 32" using unsigned_less [of x] by simp
  then show ?thesis unfolding radix_def .
qed

lemma dval_update_beyond [simp]: "n \<le> i \<Longrightarrow> dval (xs[i := v]) n = dval xs n"
  by (rule dval_cong) simp

lemma dval_less: "dval xs n < radix ^ n"
proof (induction n)
  case (Suc n)
  have "dval xs n + unat (xs ! n) * radix ^ n < radix ^ n + unat (xs ! n) * radix ^ n" using Suc by simp
  also have "\<dots> = Suc (unat (xs ! n)) * radix ^ n" by simp
  also have "\<dots> \<le> radix * radix ^ n" by (rule mult_le_mono1) (simp add: Suc_leI)
  finally show ?case by (simp add: dval_Suc)
qed simp

lemma dval_eq_0_iff: "dval xs n = 0 \<longleftrightarrow> (\<forall>i<n. xs ! i = 0)"
  by (auto simp: dval_def unat_eq_0)

lemma dval_split:
  assumes "m \<le> length xs"
  shows "dval xs (m + n) = dval xs m + dval (drop m xs) n * radix ^ m"
proof -
  have "dval xs (m + n) = dval xs m + (\<Sum>i<n. unat (xs ! (m + i)) * radix ^ (m + i))"
    by (induction n) (simp_all add: dval_Suc)
  also have "(\<Sum>i<n. unat (xs ! (m + i)) * radix ^ (m + i)) = dval (drop m xs) n * radix ^ m"
    unfolding dval_def sum_distrib_right
    by (rule sum.cong) (use assms in \<open>auto simp: power_add\<close>)
  finally show ?thesis .
qed

lemma dval_mod: "m \<le> length xs \<Longrightarrow> m \<le> n \<Longrightarrow> dval xs n mod radix ^ m = dval xs m"
  using dval_split [of m xs "n - m"] dval_less [of xs m] by simp

lemma dval_div: "m \<le> length xs \<Longrightarrow> dval xs (m + n) div radix ^ m = dval (drop m xs) n"
  using dval_split [of m xs n] dval_less [of xs m] by simp

lemma dval_update:
  assumes "i < n" and "i < length xs"
  shows "dval (xs[i := d]) n + unat (xs ! i) * radix ^ i = dval xs n + unat d * radix ^ i"
  using assms(1)
proof (induction n)
  case (Suc n)
  then show ?case using assms(2) by (cases "i = n") (simp_all add: dval_Suc)
qed simp

text \<open>Two digits as one 64-bit number, and the digits of such a number.\<close>

lemma unat_ucast_digit: "unat (ucast w :: u64) = unat w" for w :: u32
  by (simp add: unsigned_ucast_eq take_bit_nat_eq_self_iff less_trans [OF digit_less [unfolded radix_def]])

lemma unat_two_digits: "unat (push_bit 32 (ucast h) OR ucast l :: u64) = unat h * radix + unat l" for h l :: u32
proof -
  have "push_bit 32 (ucast h) AND (ucast l :: u64) = 0" by (rule bit_word_eqI) (auto simp: bit_simps dest: bit_imp_le_length)
  then have "push_bit 32 (ucast h) OR (ucast l :: u64) = push_bit 32 (ucast h) + ucast l"
    by (rule disjunctive_add_eq_or [symmetric])
  moreover have u: "unat (ucast w :: u64) = unat w" for w :: u32 by (rule unat_ucast_digit)
  moreover have "a * 2 ^ 32 + b < 2 ^ 64" if "a < 2 ^ 32" "b < 2 ^ 32" for a b :: nat using that by simp
  ultimately show ?thesis
    using unat_add_exact [of "push_bit 32 (ucast h)" "ucast l"] digit_less [of h] digit_less [of l]
    unfolding radix_def by (simp only: unat_shift_half u mod_less mult.commute [of "2 ^ 32"])
qed

lemma unat_low_digit: "unat (ucast w :: u32) = unat w mod radix" for w :: u64
  unfolding radix_def by (simp only: unsigned_ucast_eq take_bit_eq_mod) simp

lemma unat_high_digit: "unat (ucast (drop_bit 32 w) :: u32) = unat w div radix" for w :: u64
proof -
  have "unat w div 2 ^ 32 < 2 ^ 32" by (rule less_mult_imp_div_less) (use u64_less [of w] in simp)
  then show ?thesis unfolding unat_low_digit unat_drop_bit radix_def by (rule mod_less)
qed

lemma top_digit_le: "0 < n \<Longrightarrow> xs ! (n - 1) \<noteq> 0 \<Longrightarrow> radix ^ (n - 1) \<le> dval xs n"
proof -
  assume "0 < n" and nz: "xs ! (n - 1) \<noteq> 0"
  then obtain p where p: "n = Suc p" by (cases n) simp_all
  have "0 < unat (xs ! p)" using nz p by (simp add: unat_gt_0)
  then have "1 * radix ^ p \<le> unat (xs ! p) * radix ^ p" by (intro mult_le_mono1) simp
  then show "radix ^ (n - 1) \<le> dval xs n" unfolding p dval_Suc diff_Suc_1 mult_1 by (rule trans_le_add2)
qed

section \<open>The trial digit\<close>

text \<open>Knuth's estimate from the top two digits of the dividend and the top digit of the divisor, corrected twice by the
  next digits, over a general base: it is the largest digit that the top three digits of the dividend and the top two of
  the divisor allow.\<close>

definition too_big :: "nat \<Rightarrow> nat \<Rightarrow> nat \<Rightarrow> nat \<Rightarrow> nat \<Rightarrow> bool" where
  "too_big B u2 v2 q r \<longleftrightarrow> q = B \<or> q * v2 > B * r + u2"

definition estimate :: "nat \<Rightarrow> nat \<Rightarrow> nat \<Rightarrow> nat \<Rightarrow> nat \<Rightarrow> nat" where
  "estimate B A u2 v1 v2 =
    (if too_big B u2 v2 (A div v1) (A mod v1) then
       if A mod v1 + v1 < B \<and> too_big B u2 v2 (A div v1 - 1) (A mod v1 + v1) then A div v1 - 1 - 1 else A div v1 - 1
     else A div v1)"

lemma estimate_bound:
  fixes B :: nat
  assumes "0 < v1" and "v2 < B" and "B \<le> 2 * v1" and "A \<le> v1 * B + v2"
  shows "A div v1 \<le> B + 1" and "A div v1 = B + 1 \<Longrightarrow> A mod v1 + v1 < B"
proof -
  have qr: "A div v1 * v1 + A mod v1 = A" by simp
  then have "A div v1 * v1 \<le> A" by linarith
  also have "\<dots> < v1 * B + 2 * v1" using assms by linarith
  also have "\<dots> = (B + 2) * v1" by (simp add: algebra_simps)
  finally have "A div v1 * v1 < (B + 2) * v1" .
  then show "A div v1 \<le> B + 1" using mult_less_cancel2 [of "A div v1" v1 "B + 2"] by simp
  assume "A div v1 = B + 1"
  with qr assms show "A mod v1 + v1 < B" by (simp add: algebra_simps)
qed

lemma estimate_test:
  fixes B :: nat
  assumes "q * v1 + r = A"
  shows "too_big B u2 v2 q r \<longleftrightarrow> q = B \<or> q * (v1 * B + v2) > A * B + u2"
proof -
  have "q * (v1 * B + v2) = (A * B + u2) + q * v2 - (B * r + u2)"
    unfolding assms [symmetric] by (simp add: algebra_simps)
  moreover have "B * r \<le> A * B" unfolding assms [symmetric] by (simp add: algebra_simps)
  ultimately show ?thesis unfolding too_big_def by linarith
qed

lemma estimate_correct:
  fixes B :: nat
  assumes v: "0 < v1" "v1 < B" "v2 < B" "B \<le> 2 * v1" and u: "u2 < B"
    and less: "A * B + u2 < (v1 * B + v2 + 1) * B"
  defines "D \<equiv> v1 * B + v2" and "f \<equiv> estimate B A u2 v1 v2"
  shows "f < B \<and> f * D \<le> A * B + u2 \<and> (\<forall>q < B. q * D \<le> A * B + u2 \<longrightarrow> q \<le> f)"
proof -
  let ?q = "A div v1" and ?r = "A mod v1" and ?T = "A * B + u2"
  have "A * B < (D + 1) * B" using less by (simp add: D_def)
  then have A: "A \<le> v1 * B + v2" unfolding mult_less_cancel2 D_def by simp
  note bnd = estimate_bound [OF v(1,3,4) A]
  have qr: "?q * v1 + ?r = A" by simp
  have test: "too_big B u2 v2 ?q ?r \<longleftrightarrow> ?q = B \<or> ?T < ?q * D" unfolding D_def by (rule estimate_test) simp
  have "?T < (?q + 1) * D"
  proof -
    have "A + 1 \<le> (?q + 1) * v1" using mod_less_divisor [OF v(1), of A] qr unfolding add_mult_distrib by linarith
    then have "(A + 1) * B \<le> (?q + 1) * v1 * B" by (rule mult_le_mono1)
    then show ?thesis using u by (simp add: D_def algebra_simps)
  qed
  then have max: "q \<le> ?q" if "q * D \<le> ?T" for q
    using that less_le_trans [of "q * D" "(?q + 1) * D" "q * D"] mult_less_cancel2 [of q D "?q + 1"] by simp
  have slack: "a * D \<le> ?T" if "a * v1 + r = A" "B \<le> r" "a \<le> B" for a r
  proof -
    have "a * v2 \<le> r * B" using that v(3) by (intro mult_le_mono) auto
    then show ?thesis unfolding D_def that(1) [symmetric] by (simp add: algebra_simps)
  qed
  have D: "B \<le> D" using v(1) by (cases v1) (simp_all add: D_def)
  have leB: "q < B + 1" if "q * D \<le> ?T" for q
  proof -
    have "q * D < (B + 1) * D" using that less D unfolding D_def [symmetric] by (simp add: algebra_simps)
    then show ?thesis by (simp only: mult_less_cancel2)
  qed
  show ?thesis
  proof (cases "?q = B \<or> ?T < ?q * D")
    case False
    then have "f = ?q" unfolding f_def estimate_def test by (simp only: if_False)
    with False max leB [of ?q] show ?thesis by simp
  next
    case True
    have q0: "0 < ?q" using True v(2) by (cases "?q") auto
    have max': "q \<le> ?q - 1" if "q < B" "q * D \<le> ?T" for q
    proof -
      have "q \<noteq> ?q" using True that by auto
      then show ?thesis using max [OF that(2)] by simp
    qed
    have qr': "(?q - 1) * v1 + (?r + v1) = A" using qr q0 by (cases "?q") simp_all
    have test': "too_big B u2 v2 (?q - 1) (?r + v1) \<longleftrightarrow> ?q - 1 = B \<or> ?T < (?q - 1) * D" unfolding D_def by (rule estimate_test [OF qr'])
    show ?thesis
    proof (cases "?r + v1 < B \<and> (?q - 1 = B \<or> ?T < (?q - 1) * D)")
      case False
      then have f: "f = ?q - 1" using True unfolding f_def estimate_def test test' by (simp only: if_True if_False)
      have "?q - 1 \<noteq> B"
      proof
        assume e: "?q - 1 = B"
        then have "?q = B + 1" using q0 by simp
        with bnd(2) False e show False by simp
      qed
      then have "?q - 1 < B" using bnd(1) by simp
      moreover have "(?q - 1) * D \<le> ?T"
        using False slack [OF qr'] \<open>?q - 1 < B\<close> by (cases "?r + v1 < B") auto
      ultimately show ?thesis using max' unfolding f by simp
    next
      case second: True
      then have f: "f = ?q - 1 - 1" using True unfolding f_def estimate_def test test' by (simp only: if_True simp_thms)
      have q1: "0 < ?q - 1" using second v(2) by (cases "?q - 1") auto
      then have "(?q - 1 - 1) * v1 + (?r + v1 + v1) = A" using qr' by (cases "?q - 1") simp_all
      then have "(?q - 1 - 1) * D \<le> ?T" by (rule slack) (use v bnd in auto)
      moreover have "q \<le> ?q - 1 - 1" if "q < B" "q * D \<le> ?T" for q
      proof -
        have "q \<noteq> ?q - 1" using second that by auto
        then show ?thesis using max' [OF that] by simp
      qed
      moreover have "?q - 1 - 1 < B" using bnd(1) q1 by simp
      ultimately show ?thesis unfolding f by simp
    qed
  qed
qed

text \<open>The quotient of the whole numbers is the estimate or one less; with a divisor of two digits it is the estimate.\<close>

lemma estimate_window:
  fixes B T D :: nat
  assumes l: "lu < M" "lv < M" and less: "T * M + lu < (D * M + lv) * B"
  shows "T < (D + 1) * B"
proof -
  have "T * M \<le> T * M + lu" by simp
  also note less
  also have "(D * M + lv) * B \<le> (D * M + M) * B" by (rule mult_le_mono1) (use l(2) in simp)
  finally have "T * M < (D + 1) * B * M" by (simp add: algebra_simps)
  then show ?thesis unfolding mult_less_cancel2 by simp
qed

lemma estimate_quotient:
  fixes B :: nat
  assumes v: "0 < v1" "v1 < B" "v2 < B" "B \<le> 2 * v1" and u: "u2 < B" and l: "lu < M" "lv < M"
    and less: "(A * B + u2) * M + lu < ((v1 * B + v2) * M + lv) * B"
  defines "W \<equiv> (A * B + u2) * M + lu" and "V \<equiv> (v1 * B + v2) * M + lv" and "f \<equiv> estimate B A u2 v1 v2"
  shows "f < B" and "f = W div V \<or> f = W div V + 1" and "M = 1 \<Longrightarrow> f = W div V"
proof -
  let ?T = "A * B + u2" and ?D = "v1 * B + v2"
  have M: "0 < M" using l(1) by simp
  have T: "?T < (?D + 1) * B" by (rule estimate_window [OF l less])
  note e = estimate_correct [OF v u T, folded f_def]
  then show "f < B" by simp
  have "?D * M > 0" using v(1,2) M by simp
  then have V: "0 < V" by (simp add: V_def)
  have q: "W div V < B" using less V unfolding W_def [symmetric] V_def [symmetric] by (simp add: div_less_iff_less_mult mult.commute)
  have "W div V * V \<le> W" by simp
  moreover have "c * ?D * M \<le> c * V" for c by (simp add: V_def algebra_simps)
  moreover have "W < (?T + 1) * M" using l(1) by (simp add: W_def)
  ultimately have "W div V * ?D * M < (?T + 1) * M" by (meson le_less_trans order_trans)
  then have "W div V * ?D \<le> ?T" unfolding mult_less_cancel2 by simp
  then have low: "W div V \<le> f" using e q by simp
  have high: "f \<le> W div V + 1" if nz: "f \<noteq> 0"
  proof -
    obtain g where g: "f = Suc g" using not0_implies_Suc [OF nz] by blast
    have "B \<le> v1 * B" using mult_le_mono1 [of 1 v1 B] v(1) by linarith
    then have "g \<le> ?D" using e g by linarith
    moreover have "Suc g * ?D \<le> ?T" using e g by blast
    ultimately have "g * (?D + 1) \<le> ?T" unfolding mult_Suc by (simp only: distrib_left mult_1_right)
    then have "g * (?D + 1) * M \<le> ?T * M" by (rule mult_le_mono1)
    moreover have "g * V \<le> g * (?D + 1) * M" using l(2) unfolding V_def by (simp add: algebra_simps mult_le_mono2 less_imp_le)
    ultimately have "g * V \<le> W" unfolding W_def by linarith
    then show ?thesis using V by (simp add: g less_eq_div_iff_mult_less_eq)
  qed
  from low high show "f = W div V \<or> f = W div V + 1" by (cases "f = 0") auto
  assume "M = 1"
  then have "f * V \<le> W" using e l unfolding V_def W_def by simp
  then have "f \<le> W div V" using V by (simp add: less_eq_div_iff_mult_less_eq)
  with low show "f = W div V" by simp
qed

lemma digit_products:
  fixes x y :: u64 and d :: u32
  assumes "unat x \<le> radix + 1" and "unat y < radix"
  shows "unat (x * ucast d) = unat x * unat d"
    and "unat (push_bit 32 1 * y + ucast d) = radix * unat y + unat d"
proof -
  have R: "radix * radix = 2 ^ 64" by (simp add: radix_def)
  have d: "unat (ucast d :: u64) = unat d" by (rule unat_ucast_digit)
  have "unat x * unat d \<le> (radix + 1) * (radix - 1)" 
    by (rule mult_le_mono [OF assms(1)]) (use digit_less [of d] in linarith)
  also have "\<dots> < radix * radix" by (simp add: radix_def)
  finally show "unat (x * ucast d) = unat x * unat d" unfolding R using unat_mult_exact [of x "ucast d"] by (simp only: d)
  have b: "unat (push_bit 32 1 :: u64) = radix" by (simp add: radix_def)
  have "radix * unat y + radix \<le> radix * radix" using mult_le_mono2 [of "unat y + 1" radix radix] assms(2) by simp
  then have less: "radix * unat y + unat d < 2 ^ 64" unfolding R [symmetric] using digit_less [of d] by linarith
  then have "unat (push_bit 32 1 * y) = radix * unat y" using unat_mult_exact [of "push_bit 32 1" y] unfolding b by linarith
  with less show "unat (push_bit 32 1 * y + ucast d) = radix * unat y + unat d"
    using unat_add_exact [of "push_bit 32 1 * y" "ucast d"] by (simp only: d)
qed

lemma trial_digit_estimate:
  fixes u v :: "u32 list" and n j :: nat
  defines "A \<equiv> unat (u ! (j + n)) * radix + unat (u ! (j + n - 1))"
  assumes "0 < unat (v ! (n - 1))" and "radix \<le> 2 * unat (v ! (n - 1))"
    and "A \<le> unat (v ! (n - 1)) * radix + unat (v ! (n - 2))"
  shows "unat (trial_digit u v n j) =
    estimate radix A (unat (u ! (j + n - 2))) (unat (v ! (n - 1))) (unat (v ! (n - 2)))"
proof -
  let ?v1 = "unat (v ! (n - 1))" and ?v2 = "unat (v ! (n - 2))" and ?u2 = "unat (u ! (j + n - 2))"
  define b dd vd where "b = (push_bit 32 1 :: u64)"
    and "dd = push_bit 32 (ucast (u ! (j + n))) + (ucast (u ! (j + n - 1)) :: u64)"
    and "vd = (ucast (v ! (n - 1)) :: u64)"
  define q r where "q = dd div vd" and "r = dd mod vd"
  have b: "unat b = radix" by (simp add: b_def radix_def)
  have vd: "unat vd = ?v1" by (simp add: vd_def unat_ucast_digit)
  have dd: "unat dd = A"
  proof -
    have "unat (push_bit 32 (ucast h) :: u64) = unat h * radix" for h :: u32
      unfolding radix_def using digit_less [of h, unfolded radix_def]
      by (simp only: unat_shift_half unat_ucast_digit mod_less mult.commute)
    moreover have "unat h * radix + unat l < 2 ^ 64" for h l :: u32
      using unat_two_digits [of h l] u64_less by metis
    ultimately show ?thesis
      unfolding dd_def A_def using unat_add_exact [of "push_bit 32 (ucast (u ! (j + n)))" "ucast (u ! (j + n - 1))"]
      by (simp only: unat_ucast_digit)
  qed
  have q: "unat q = A div ?v1" and r: "unat r = A mod ?v1" by (simp_all add: q_def r_def unat_div unat_mod dd vd)
  note bnd = estimate_bound [OF assms(2) digit_less assms(3,4), folded q r]
  have rl: "unat r < radix" using assms(2) mod_less_divisor [of ?v1 A] digit_less [of "v ! (n - 1)"] unfolding r by linarith
  define test where "test = (\<lambda>q r. q = b \<or> q * ucast (v ! (n - 2)) > b * r + ucast (u ! (j + n - 2)))"
  have test: "test q r \<longleftrightarrow> too_big radix ?u2 ?v2 (unat q) (unat r)" if "unat q \<le> radix + 1" "unat r < radix" for q r
    using digit_products [OF that] unfolding test_def too_big_def b_def [symmetric]
    by (simp only: word_less_nat_alt word_unat_eq_iff b)
  have code: "trial_digit u v n j =
      (if test q r then if r + vd < b \<and> test (q - 1) (r + vd) then q - 1 - 1 else q - 1 else q)"
    unfolding trial_digit_def Let_def b_def [symmetric] dd_def [symmetric] vd_def [symmetric]
      q_def [symmetric] r_def [symmetric] test_def by simp
  have dec: "unat (x - 1) = unat x - 1" if "0 < unat x" for x :: u64
    using that by (simp add: unat_sub_if_size)
  note t = test [OF bnd(1) rl] and est = estimate_def [of radix A ?u2 ?v1 ?v2, folded q r]
  show ?thesis
  proof (cases "test q r")
    case False
    then show ?thesis unfolding code est using t by (simp only: if_False)
  next
    case True
    then have q0: "0 < unat q" using t by (cases "unat q") (auto simp: too_big_def)
    have rv: "unat (r + vd) = unat r + ?v1"
      using rl digit_less [of "v ! (n - 1)"] vd unfolding radix_def by (intro unat_add_exact [THEN trans]) auto
    have q': "unat (q - 1) \<le> radix + 1" using dec [OF q0] bnd(1) by simp
    have t': "r + vd < b \<and> test (q - 1) (r + vd) \<longleftrightarrow>
        unat r + ?v1 < radix \<and> too_big radix ?u2 ?v2 (unat q - 1) (unat r + ?v1)"
      using test [OF q', of "r + vd"] by (auto simp: word_less_nat_alt rv b dec [OF q0])
    show ?thesis
    proof (cases "r + vd < b \<and> test (q - 1) (r + vd)")
      case second: True
      then have "0 < unat (q - 1)" using t' dec [OF q0] by (cases "unat q - 1") (auto simp: too_big_def)
      then show ?thesis unfolding code est using True second t t' dec q0 by (simp only: if_True simp_thms)
    next
      case no: False
      then show ?thesis unfolding code est using True t t' dec q0 by (simp only: if_True if_False)
    qed
  qed
qed

section \<open>The multiplication and subtraction of a step\<close>

text \<open>The borrow is passed on from a digit that is zero, and is lost over the top digit when all of them are.\<close>

lemma borrow_left_value:
  assumes "k \<le> Suc N" and "Suc N \<le> length u"
  shows "length (fst (borrow_left u N k b)) = length u \<and>
    dval (fst (borrow_left u N k b)) (Suc N) + of_bool b * radix ^ k =
      dval u (Suc N) + of_bool (snd (borrow_left u N k b)) * radix ^ Suc N"
  using assms
proof (induction u N k b rule: borrow_left.induct)
  case (1 u N k b)
  show ?case
  proof (cases "b \<and> k \<le> N")
    case False
    then have "borrow_left u N k b = (u, b)" unfolding borrow_left.simps [of u N k b] by (simp only: if_False)
    then show ?thesis using "1.prems" False by (auto simp: le_Suc_eq)
  next
    case True
    let ?u = "u[k := u ! k - 1]"
    have IH: "length (fst (borrow_left ?u N (Suc k) (u ! k = 0))) = length u \<and>
      dval (fst (borrow_left ?u N (Suc k) (u ! k = 0))) (Suc N) + of_bool (u ! k = 0) * radix ^ Suc k =
      dval ?u (Suc N) + of_bool (snd (borrow_left ?u N (Suc k) (u ! k = 0))) * radix ^ Suc N"
      using "1.IH" [OF True] "1.prems" True by simp
    have "unat (u ! k - 1) + 1 = unat (u ! k) + of_bool (u ! k = 0) * radix"
    proof (cases "u ! k = 0")
      case True
      then show ?thesis by (simp add: radix_def unsigned_minus_1_eq_mask mask_eq_exp_minus_1)
    next
      case False
      then have "0 < unat (u ! k)" by (simp add: unat_gt_0)
      with False show ?thesis by (simp add: unat_sub_if_size)
    qed
    then have "(unat (u ! k - 1) + 1) * radix ^ k = (unat (u ! k) + of_bool (u ! k = 0) * radix) * radix ^ k" by simp
    then have digit: "unat (u ! k - 1) * radix ^ k + radix ^ k = unat (u ! k) * radix ^ k + of_bool (u ! k = 0) * radix ^ Suc k"
      by (simp add: distrib_right)
    have up: "dval ?u (Suc N) + unat (u ! k) * radix ^ k = dval u (Suc N) + unat (u ! k - 1) * radix ^ k"
      using dval_update [of k "Suc N" u "u ! k - 1"] True "1.prems" by simp
    have "borrow_left u N k b = borrow_left ?u N (Suc k) (u ! k = 0)"
      unfolding borrow_left.simps [of u N k b] using True by (simp only: if_True simp_thms)
    with True IH digit up show ?thesis by simp
  qed
qed

definition mul_sub_inv :: "u32 list \<Rightarrow> u32 list \<Rightarrow> nat \<Rightarrow> nat \<Rightarrow> nat \<Rightarrow> nat \<Rightarrow> u32 list \<times> bool \<Rightarrow> bool" where
  "mul_sub_inv u v f N j i = (\<lambda>(u', isNeg). length u' = length u \<and>
    (\<exists>k. dval u' N + f * dval v i * radix ^ j = dval u N + k * radix ^ N \<and> (isNeg \<longleftrightarrow> 0 < k)))"

lemma mul_sub_step:
  fixes qp :: u64 and u :: "u32 list" and d :: u32 and p N :: nat
  assumes "unat qp < radix" and "p + 2 \<le> Suc N" and "Suc N \<le> length u"
  defines "w \<equiv> push_bit 32 (ucast (u ! (p + 1))) OR ucast (u ! p) :: u64" and "s \<equiv> qp * ucast d"
  defines "u' \<equiv> u[p := ucast (w - s), p + 1 := ucast (drop_bit 32 (w - s))]"
  shows "dval u' (Suc N) + unat qp * unat d * radix ^ p = dval u (Suc N) + of_bool (s > w) * radix ^ (p + 2)"
proof -
  let ?h = "unat (u ! (p + 1))" and ?l = "unat (u ! p)"
  have w: "unat w = ?h * radix + ?l" unfolding w_def by (rule unat_two_digits)
  have s: "unat s = unat qp * unat d" unfolding s_def by (rule digit_products(1) [where y = 0]) (use assms(1) in simp_all)
  have "unat (w - s) + unat s = unat w + of_bool (s > w) * radix ^ 2"
    using u64_less [of s] u64_less [of w]
    by (cases "s > w") (simp_all add: unat_sub_if_size word_less_nat_alt not_less radix_def word_size)
  moreover define lo hi where "lo = unat (w - s) mod radix" and "hi = unat (w - s) div radix"
  ultimately have "lo + hi * radix + unat qp * unat d = ?h * radix + ?l + of_bool (s > w) * radix ^ 2"
    by (simp only: s w mod_div_mult_eq)
  then have r: "(lo + hi * radix + unat qp * unat d) * radix ^ p = (?h * radix + ?l + of_bool (s > w) * radix ^ 2) * radix ^ p"
    by simp
  let ?D = "dval u (Suc N)" and ?R = "radix ^ p"
  have e: "lo * ?R + hi * (radix * ?R) + unat qp * unat d * ?R =
      ?h * (radix * ?R) + ?l * ?R + of_bool (s > w) * radix ^ (p + 2)"
    using r by (simp add: distrib_right mult.assoc power_add power2_eq_square mult.commute [of ?R])
  let ?v = "u[p := ucast (w - s)]"
  have "dval ?v (Suc N) + ?l * ?R = ?D + lo * ?R"
    using dval_update [of p "Suc N" u "ucast (w - s)"] assms(2,3) by (simp add: unat_low_digit lo_def)
  moreover have "dval u' (Suc N) + ?h * (radix * ?R) = dval ?v (Suc N) + hi * (radix * ?R)"
    using dval_update [of "p + 1" "Suc N" ?v "ucast (drop_bit 32 (w - s))"] assms(2,3)
    by (simp add: unat_high_digit u'_def hi_def)
  ultimately show ?thesis using e by linarith
qed

lemma mul_sub_value:
  assumes "unat qp < radix" and "j + n \<le> m + n" and "Suc (m + n) \<le> length u"
  shows "mul_sub_inv u v (unat qp) (Suc (m + n)) j n (mul_sub u v qp m n j)"
  unfolding mul_sub_def
proof (rule for_upto_invariant [where P = "mul_sub_inv u v (unat qp) (Suc (m + n)) j"])
  show "mul_sub_inv u v (unat qp) (Suc (m + n)) j 0 (u, False)" by (simp add: mul_sub_inv_def)
next
  fix i t assume i: "0 \<le> i" "i < n" and inv: "mul_sub_inv u v (unat qp) (Suc (m + n)) j i t"
  obtain u0 b0 where t: "t = (u0, b0)" by (cases t)
  let ?w = "push_bit 32 (ucast (u0 ! (j + i + 1))) OR ucast (u0 ! (j + i)) :: u64" and ?s = "qp * ucast (v ! i)"
  let ?u = "u0[j + i := ucast (?w - ?s), j + i + 1 := ucast (drop_bit 32 (?w - ?s))]"
  let ?N = "Suc (m + n)"
  obtain u1 b1 where b: "borrow_left ?u (m + n) (j + i + 2) (?s > ?w) = (u1, b1)" by fastforce
  obtain k where k: "length u0 = length u" "dval u0 ?N + unat qp * dval v i * radix ^ j = dval u ?N + k * radix ^ ?N"
    "b0 \<longleftrightarrow> 0 < k" using inv unfolding t mul_sub_inv_def by auto
  have "dval ?u ?N + unat qp * unat (v ! i) * radix ^ (j + i) = dval u0 ?N + of_bool (?s > ?w) * radix ^ (j + i + 2)"
    using mul_sub_step [of qp "j + i" "m + n" u0 "v ! i"] assms i(2) k(1) by simp
  moreover have "length u1 = length u \<and> dval u1 ?N + of_bool (?s > ?w) * radix ^ (j + i + 2) = dval ?u ?N + of_bool b1 * radix ^ ?N"
    using borrow_left_value [of "j + i + 2" "m + n" ?u "?s > ?w"] assms(2,3) i(2) k(1) unfolding b by simp
  moreover have "unat qp * dval v (Suc i) * radix ^ j = unat qp * dval v i * radix ^ j + unat qp * unat (v ! i) * radix ^ (j + i)"
    by (simp add: dval_Suc algebra_simps power_add)
  ultimately have e: "length u1 = length u"
      "dval u1 ?N + unat qp * dval v (Suc i) * radix ^ j = dval u ?N + (k + of_bool b1) * radix ^ ?N"
    unfolding distrib_right using k(2) by linarith+
  have "b0 \<or> b1 \<longleftrightarrow> 0 < k + of_bool b1" using k(3) by simp
  then have "mul_sub_inv u v (unat qp) ?N j (Suc i) (u1, b0 \<or> b1)"
    unfolding mul_sub_inv_def prod.case by (intro conjI exI [of _ "k + of_bool b1"] e)
  then show "mul_sub_inv u v (unat qp) ?N j (Suc i) (case t of (u, isNeg) \<Rightarrow>
      let u_tmp = push_bit 32 (ucast (u ! (j + i + 1))) OR ucast (u ! (j + i)); subtrahend = qp * ucast (v ! i);
          borrow = u_tmp < subtrahend; result = u_tmp - subtrahend;
          u = u[j + i := ucast result, j + i + 1 := ucast (drop_bit 32 result)];
          (u, borrow) = borrow_left u (m + n) (j + i + 2) borrow
      in (u, isNeg \<or> borrow))"
    unfolding t prod.case Let_def b .
qed simp

section \<open>Adding back\<close>

definition add_back_inv :: "u32 list \<Rightarrow> u32 list \<Rightarrow> nat \<Rightarrow> nat \<Rightarrow> u32 list \<times> bool \<Rightarrow> bool" where
  "add_back_inv u v j i = (\<lambda>(u', carry). length u' = length u \<and> (\<forall>k \<ge> j + i. u' ! k = u ! k) \<and>
    dval u' (j + i) + of_bool carry * radix ^ (j + i) = dval u (j + i) + dval v i * radix ^ j)"

lemma add_back_value:
  assumes "j + n < length u"
  shows "length (add_back u v n j) = length u"
    and "dval (add_back u v n j) (Suc (j + n)) = (dval u (Suc (j + n)) + dval v n * radix ^ j) mod radix ^ Suc (j + n)"
    and "\<And>k. j + n < k \<Longrightarrow> add_back u v n j ! k = u ! k"
proof -
  let ?body = "\<lambda>i (u, carry). let limit = min (u ! (j + i)) (v ! i); d = u ! (j + i) + (v ! i + of_bool carry)
    in (u[j + i := d], d < limit \<or> carry \<and> d = limit)"
  obtain u' c where r: "for_upto 0 n ?body (u, False) = (u', c)" by fastforce
  have "add_back_inv u v j n (for_upto 0 n ?body (u, False))"
  proof (rule for_upto_invariant [where P = "add_back_inv u v j"])
    fix i t assume i: "i < n" and inv: "add_back_inv u v j i t"
    obtain u0 c0 where t: "t = (u0, c0)" by (cases t)
    let ?d = "u0 ! (j + i) + (v ! i + of_bool c0)" and ?l = "min (u0 ! (j + i)) (v ! i)"
    let ?c = "?d < ?l \<or> c0 \<and> ?d = ?l"
    have I: "length u0 = length u" "\<And>k. j + i \<le> k \<Longrightarrow> u0 ! k = u ! k"
      "dval u0 (j + i) + of_bool c0 * radix ^ (j + i) = dval u (j + i) + dval v i * radix ^ j"
      using inv by (simp_all add: t add_back_inv_def)
    have "unat ?d + of_bool ?c * radix = unat (u ! (j + i)) + unat (v ! i) + of_bool c0"
      using add_digit [of "u0 ! (j + i)" "v ! i" c0] I(2) [of "j + i"] by (simp add: add.assoc radix_def)
    then have "(unat ?d + of_bool ?c * radix) * radix ^ (j + i) = (unat (u ! (j + i)) + unat (v ! i) + of_bool c0) * radix ^ (j + i)"
      by simp
    then have "unat ?d * radix ^ (j + i) + of_bool ?c * radix ^ (j + Suc i) =
        unat (u ! (j + i)) * radix ^ (j + i) + unat (v ! i) * radix ^ (j + i) + of_bool c0 * radix ^ (j + i)"
      by (simp only: distrib_right mult.assoc add_Suc_right power_Suc)
    moreover have "dval v (Suc i) * radix ^ j = dval v i * radix ^ j + unat (v ! i) * radix ^ (j + i)"
      by (simp add: dval_Suc algebra_simps power_add)
    moreover have "dval (u0[j + i := ?d]) (j + Suc i) = dval u0 (j + i) + unat ?d * radix ^ (j + i)"
      using I(1) i assms by (simp add: dval_Suc)
    moreover have "dval u (j + Suc i) = dval u (j + i) + unat (u ! (j + i)) * radix ^ (j + i)" by (simp add: dval_Suc)
    ultimately have "dval (u0[j + i := ?d]) (j + Suc i) + of_bool ?c * radix ^ (j + Suc i) = dval u (j + Suc i) + dval v (Suc i) * radix ^ j"
      using I(3) by linarith
    then have "add_back_inv u v j (Suc i) (u0[j + i := ?d], ?c)"
      unfolding add_back_inv_def prod.case using I(1,2) by simp
    then show "add_back_inv u v j (Suc i) (?body i t)" unfolding t prod.case Let_def .
  qed (simp_all add: add_back_inv_def)
  then have I: "length u' = length u" "\<And>k. j + n \<le> k \<Longrightarrow> u' ! k = u ! k"
    "dval u' (j + n) + of_bool c * radix ^ (j + n) = dval u (j + n) + dval v n * radix ^ j"
    unfolding r add_back_inv_def by simp_all
  have code: "add_back u v n j = u'[j + n := u' ! (j + n) + of_bool c]"
    unfolding add_back_def r by simp
  show "length (add_back u v n j) = length u" by (simp add: code I(1))
  show "add_back u v n j ! k = u ! k" if "j + n < k" for k using that I(2) by (simp add: code)
  have "unat (u' ! (j + n) + of_bool c) = (unat (u ! (j + n)) + of_bool c) mod radix"
    using I(2) [of "j + n"] by (cases c) (simp add: radix_def unat_word_ariths(1), simp)
  then have "dval (add_back u v n j) (Suc (j + n)) = dval u' (j + n) + (unat (u ! (j + n)) + of_bool c) mod radix * radix ^ (j + n)"
    using I(1) assms by (simp add: code dval_Suc)
  also have "\<dots> = (dval u' (j + n) + (unat (u ! (j + n)) + of_bool c) * radix ^ (j + n)) mod radix ^ Suc (j + n)"
    using mod_low_high [OF dval_less [of u' "j + n"], of "unat (u ! (j + n)) + of_bool c" radix] by (simp only: power_Suc2)
  also have "dval u' (j + n) + (unat (u ! (j + n)) + of_bool c) * radix ^ (j + n) = dval u (Suc (j + n)) + dval v n * radix ^ j"
    using I(3) unfolding dval_Suc distrib_right by linarith
  finally show "dval (add_back u v n j) (Suc (j + n)) = (dval u (Suc (j + n)) + dval v n * radix ^ j) mod radix ^ Suc (j + n)" .
qed

section \<open>The step and the loop\<close>

text \<open>The digits that the trial digit reads.\<close>

lemma top_digits:
  assumes "2 \<le> n" and "j + n < length u"
  shows "dval u (Suc (j + n)) div radix ^ (j + n - 2) =
    (unat (u ! (j + n)) * radix + unat (u ! (j + n - 1))) * radix + unat (u ! (j + n - 2))"
proof -
  obtain p where p: "j + n = p + 2" using assms(1) by (metis add.commute le_add_diff_inverse trans_le_add2)
  have "dval (drop p u) (Suc (Suc (Suc 0))) = unat (u ! p) + unat (u ! (p + 1)) * radix + unat (u ! (p + 2)) * (radix * radix)"
    using assms(2) p by (simp add: dval_Suc)
  moreover have "dval u (p + Suc (Suc (Suc 0))) div radix ^ p = dval (drop p u) (Suc (Suc (Suc 0)))"
    by (rule dval_div) (use assms(2) p in simp)
  ultimately show ?thesis unfolding p by (simp add: algebra_simps)
qed

lemma top_divisor_digits:
  assumes "2 \<le> n" and "n \<le> length v"
  shows "dval v n div radix ^ (n - 2) = unat (v ! (n - 1)) * radix + unat (v ! (n - 2))"
proof -
  obtain p where p: "n = p + 2" using assms(1) by (metis add.commute le_add_diff_inverse)
  have "dval v (p + Suc (Suc 0)) div radix ^ p = dval (drop p v) (Suc (Suc 0))"
    by (rule dval_div) (use assms(2) p in simp)
  then show ?thesis using assms(2) unfolding p by (simp add: dval_Suc)
qed

text \<open>The trial digit is the digit of the quotient or one more.\<close>

lemma trial_digit_quotient:
  assumes n: "2 \<le> n" and len: "j + n < length u" "n \<le> length v"
    and norm: "radix \<le> 2 * unat (v ! (n - 1))"
    and less: "dval u (Suc (j + n)) < dval v n * radix ^ Suc j"
  defines "q \<equiv> dval u (Suc (j + n)) div radix ^ j div dval v n"
  shows "unat (trial_digit u v n j) < radix"
    and "unat (trial_digit u v n j) = q \<or> unat (trial_digit u v n j) = q + 1"
    and "n = 2 \<Longrightarrow> unat (trial_digit u v n j) = q"
proof -
  let ?A = "unat (u ! (j + n)) * radix + unat (u ! (j + n - 1))" and ?u2 = "unat (u ! (j + n - 2))"
  let ?v1 = "unat (v ! (n - 1))" and ?v2 = "unat (v ! (n - 2))" and ?M = "radix ^ (n - 2)"
  let ?W = "dval u (Suc (j + n)) div radix ^ j" and ?V = "dval v n"
  have v1: "0 < ?v1" using norm radix_pos(1) by linarith
  have "?W div ?M = ?A * radix + ?u2"
    using top_digits [OF n len(1)] n by (simp add: div_mult2_eq [symmetric] power_add [symmetric])
  then have W: "?W = (?A * radix + ?u2) * ?M + ?W mod ?M" using div_mult_mod_eq [of ?W ?M] by simp
  have V: "?V = (?v1 * radix + ?v2) * ?M + ?V mod ?M"
    using div_mult_mod_eq [of ?V ?M] top_divisor_digits [OF n len(2)] by simp
  have "?W < ?V * radix" using less by (simp add: div_less_iff_less_mult mult.assoc)
  then have lessWV: "(?A * radix + ?u2) * ?M + ?W mod ?M < ((?v1 * radix + ?v2) * ?M + ?V mod ?M) * radix"
    using W V by metis
  note est = estimate_quotient [OF v1 digit_less digit_less norm digit_less mod_less_divisor mod_less_divisor lessWV, folded W V]
  have "?A * radix + ?u2 < (?v1 * radix + ?v2 + 1) * radix"
    by (rule estimate_window [OF mod_less_divisor mod_less_divisor lessWV]) simp_all
  then have "?A * radix < (?v1 * radix + ?v2 + 1) * radix" by linarith
  then have "?A \<le> ?v1 * radix + ?v2" unfolding mult_less_cancel2 by simp
  then have t: "unat (trial_digit u v n j) = estimate radix ?A ?u2 ?v1 ?v2" by (rule trial_digit_estimate [OF v1 norm])
  show "unat (trial_digit u v n j) < radix" "unat (trial_digit u v n j) = q \<or> unat (trial_digit u v n j) = q + 1"
    using est(1,2) unfolding t q_def by simp_all
  assume "n = 2"
  then show "unat (trial_digit u v n j) = q" using est(3) unfolding t q_def by simp
qed

lemma subtract_multiple:
  fixes M :: nat
  assumes e: "D + f * V = R + k * M" and less: "D < M" "V < M" and V: "0 < V"
  shows "f = R div V \<Longrightarrow> k = 0 \<and> D = R mod V"
    and "f = R div V + 1 \<Longrightarrow> 0 < k \<and> D + V = R mod V + M"
proof -
  have R: "R = R div V * V + R mod V" by simp
  have mod: "R mod V < V" by (rule mod_less_divisor [OF V])
  have k: "k = 0" if "k * M < M" using that by (cases k) simp_all
  assume "f = R div V"
  then have "f * V + R mod V = R" by simp
  then have "D = R mod V + k * M" using e by linarith
  moreover from this have "k * M < M" using less(1) by linarith
  ultimately show "k = 0 \<and> D = R mod V" using k by simp
next
  have R: "R = R div V * V + R mod V" by simp
  have mod: "R mod V < V" by (rule mod_less_divisor [OF V])
  assume "f = R div V + 1"
  then have *: "D + V = R mod V + k * M" using e R unfolding \<open>f = _\<close> distrib_right mult_1 by linarith
  have "k * M < 2 * M" using * less by linarith
  then have "k < 2" by (simp only: mult_less_cancel2)
  moreover have "k \<noteq> 0"
  proof
    assume "k = 0"
    with * mod show False by simp
  qed
  ultimately have "k = 1" by simp
  with * show "0 < k \<and> D + V = R mod V + M" by simp
qed

text \<open>A step from a state whose whole array holds the remainder so far: afterwards the digits of the window do, and the whole
  array does unless the divisor was added back below the top.\<close>

lemma knuth_step_value:
  assumes n: "2 \<le> n" and len: "Suc (m + n) \<le> length u" "n \<le> length v" "j < length q" and jm: "j \<le> m"
    and norm: "radix \<le> 2 * unat (v ! (n - 1))"
    and R: "dval u (Suc (m + n)) < dval v n * radix ^ Suc j"
    and step: "knuth_step v m n j (u, q) = (u', q')"
  defines "V \<equiv> dval v n * radix ^ j" and "N \<equiv> Suc (m + n)"
  shows "length u' = length u" and "dval u' (Suc (j + n)) = dval u N mod V"
    and "n = 2 \<or> j = m \<Longrightarrow> dval u' N = dval u N mod V"
    and "\<exists>d. q' = q[j := d] \<and> unat d = dval u N div V"
proof -
  let ?R = "dval u N" and ?W = "Suc (j + n)"
  have N: "N = ?W + (m - j)" using jm by (simp add: N_def)
  have VB: "V < radix ^ (j + n)" using dval_less [of v n] by (simp add: V_def power_add)
  have VW: "V < radix ^ ?W" by (rule less_le_trans [OF VB power_increasing]) (simp_all add: radix_def)
  then have VN: "V < radix ^ N" by (rule less_le_trans [OF _ power_increasing]) (use N in \<open>simp_all add: radix_def\<close>)
  have Rlow: "?R < radix ^ ?W"
  proof -
    have "?R < radix ^ n * radix ^ Suc j" by (rule less_le_trans [OF R [folded N_def] mult_le_mono1]) (use dval_less [of v n] in simp)
    then show ?thesis by (simp add: power_add algebra_simps)
  qed
  have jn: "j + n < length u" using len(1) jm by linarith
  have "?R mod radix ^ ?W = dval u ?W" by (rule dval_mod) (use jn N in simp_all)
  then have win: "dval u ?W = ?R" using Rlow by (simp only: mod_less)
  define qp where "qp = trial_digit u v n j"
  have "dval u ?W < dval v n * radix ^ Suc j" using R win by (simp add: N_def)
  note trial = trial_digit_quotient [OF n jn len(2) norm this, folded qp_def]
  have q: "dval u ?W div radix ^ j div dval v n = ?R div V" unfolding win V_def by (simp add: div_mult2_eq [symmetric] mult.commute)
  obtain u1 isNeg where ms: "mul_sub u v qp m n j = (u1, isNeg)" by fastforce
  have "mul_sub_inv u v (unat qp) N j n (u1, isNeg)"
    using mul_sub_value [OF trial(1) _ len(1), of j v] jm unfolding ms N_def by simp
  then obtain k where k: "length u1 = length u" "dval u1 N + unat qp * V = ?R + k * radix ^ N" "isNeg \<longleftrightarrow> 0 < k"
    unfolding mul_sub_inv_def V_def by (auto simp: mult.assoc)
  have "0 < dval v n" using R by (cases "dval v n") simp_all
  then have V0: "0 < V" by (simp add: V_def)
  note sub = subtract_multiple [OF k(2) dval_less VN V0]
  have qw: "unat (ucast qp :: u32) = unat qp" using trial(1) by (simp add: unat_low_digit)
  have code: "(u', q') = (if isNeg then (add_back u1 v n j, q[j := ucast qp - 1]) else (u1, q[j := ucast qp]))"
    using step len(3) unfolding knuth_step_def Let_def prod.case qp_def [symmetric] ms by (simp split: if_splits)
  have Vmod: "?R mod V < V" by (rule mod_less_divisor [OF V0])
  have "length u' = length u \<and> dval u' ?W = ?R mod V \<and> (n = 2 \<or> j = m \<longrightarrow> dval u' N = ?R mod V) \<and>
    (\<exists>d. q' = q[j := d] \<and> unat d = ?R div V)"
  proof (cases "unat qp = ?R div V")
    case True
    then have "\<not> isNeg" "dval u1 N = ?R mod V" using sub(1) k(3) by simp_all
    moreover have "dval u1 ?W = dval u1 N mod radix ^ ?W" using dval_mod [of ?W u1 N] k(1) jn N by simp
    moreover have "?R mod V < radix ^ ?W" using Vmod VW by (rule less_trans)
    ultimately show ?thesis using code k(1) qw True by auto
  next
    case False
    then have qp: "unat qp = ?R div V + 1" and n2: "n \<noteq> 2" using trial(2,3) q by auto
    then have neg: isNeg and D: "dval u1 N + V = ?R mod V + radix ^ N" using sub(2) k(3) by simp_all
    let ?a = "add_back u1 v n j"
    have jn1: "j + n < length u1" using jn k(1) by simp
    have "dval ?a ?W = (dval u1 ?W + V) mod radix ^ ?W" unfolding V_def by (rule add_back_value(2) [OF jn1])
    also have "dval u1 ?W = dval u1 N mod radix ^ ?W" using dval_mod [of ?W u1 N] jn1 N by simp
    also have "(dval u1 N mod radix ^ ?W + V) mod radix ^ ?W = (?R mod V + radix ^ N) mod radix ^ ?W"
      by (simp only: mod_add_left_eq D)
    also have "radix ^ N = radix ^ ?W * radix ^ (m - j)" by (simp only: N power_add)
    also have "(?R mod V + radix ^ ?W * radix ^ (m - j)) mod radix ^ ?W = ?R mod V mod radix ^ ?W" by simp
    also have "\<dots> = ?R mod V"
by (rule mod_less [OF less_trans [OF Vmod VW]])
    finally have a: "dval ?a ?W = ?R mod V" .
    have "unat (ucast qp - 1 :: u32) = ?R div V" using qw qp by (simp add: unat_sub_if_size)
    moreover have "u' = ?a" "q' = q[j := ucast qp - 1]" using code neg by simp_all
    ultimately show ?thesis using a n2 add_back_value(1) [OF jn1] k(1) N_def by auto
  qed
  then show "length u' = length u" "dval u' ?W = ?R mod V" "n = 2 \<or> j = m \<Longrightarrow> dval u' N = ?R mod V"
    "\<exists>d. q' = q[j := d] \<and> unat d = ?R div V" by blast+
qed

lemma knuth_loop_value:
  assumes n: "2 \<le> n" and cond: "n = 2 \<or> m \<le> 1" and v: "n \<le> length v" "radix \<le> 2 * unat (v ! (n - 1))"
    and "Suc (m + n) \<le> length u" and "m < length q" and "j \<le> m"
    and "dval u (Suc (m + n)) < dval v n * radix ^ Suc j"
    and "knuth_loop v m n j (u, q) = (u', q')"
  shows "length u' = length u \<and> length q' = length q \<and> (\<forall>k > j. q' ! k = q ! k) \<and>
    dval u' n = dval u (Suc (m + n)) mod dval v n \<and> dval q' (Suc j) = dval u (Suc (m + n)) div dval v n"
  using assms(5-)
proof (induction j arbitrary: u q)
  case 0
  have q: "0 < length q" using 0(2) by linarith
  note s = knuth_step_value [OF n 0(1) v(1) q _ v(2) 0(4) 0(5) [unfolded knuth_loop.simps], simplified]
  obtain d where d: "q' = q[0 := d]" "unat d = dval u (Suc (m + n)) div dval v n" using s(4) by blast
  have "0 < dval v n" using 0(4) by (cases "dval v n") simp_all
  then have "dval u' (Suc n) < dval v n" using s(2) by simp
  then have "dval u' (Suc n) < radix ^ n" using dval_less [of v n] by (rule less_trans)
  then have "dval u' n = dval u' (Suc n)" using dval_mod [of n u' "Suc n"] s(1) 0(1) by simp
  then show ?case using s(1,2) d q by (simp add: dval_Suc)
next
  case (Suc j)
  let ?N = "Suc (m + n)" and ?V = "dval v n"
  obtain u1 q1 where st: "knuth_step v m n (Suc j) (u, q) = (u1, q1)" by fastforce
  have jq: "Suc j < length q" using Suc.prems(2,3) by simp
  note s = knuth_step_value [OF n Suc.prems(1) v(1) jq Suc.prems(3) v(2) Suc.prems(4) st]
  have clean: "dval u1 ?N = dval u ?N mod (?V * radix ^ Suc j)" by (rule s(3)) (use cond Suc.prems(3) in auto)
  obtain d where d: "q1 = q[Suc j := d]" "unat d = dval u ?N div (?V * radix ^ Suc j)" using s(4) by blast
  have V: "0 < ?V" using Suc.prems(4) by (cases ?V) simp_all
  have "length u' = length u1 \<and> length q' = length q1 \<and> (\<forall>k > j. q' ! k = q1 ! k) \<and>
      dval u' n = dval u1 ?N mod ?V \<and> dval q' (Suc j) = dval u1 ?N div ?V"
  proof (rule Suc.IH)
    show "dval u1 ?N < ?V * radix ^ Suc j" unfolding clean by (rule mod_less_divisor) (use V in simp)
    show "knuth_loop v m n j (u1, q1) = (u', q')" using Suc.prems(5) st by simp
  qed (use Suc.prems s(1) d(1) in simp_all)
  note IH = this
  have "dval u1 ?N mod ?V = dval u ?N mod ?V" unfolding clean by (simp add: mod_mod_cancel)
  moreover have "dval u ?N div ?V = dval u1 ?N div ?V + unat d * radix ^ Suc j"
  proof -
    have "dval u ?N = unat d * radix ^ Suc j * ?V + dval u1 ?N"
      using div_mult_mod_eq [of "dval u ?N" "?V * radix ^ Suc j"] unfolding clean d(2) by (simp only: ac_simps)
    then show ?thesis using V by simp
  qed
  moreover have "q' ! Suc j = d" using IH d(1) jq by simp
  ultimately show ?case using IH s(1) d(1) by (simp add: dval_Suc [of q' "Suc j"])
qed

section \<open>Normalisation\<close>

lemma or_shifted: "c < 2 ^ s \<Longrightarrow> (a * 2 ^ s) OR c = a * 2 ^ s + c" for a c :: nat
proof -
  assume "c < 2 ^ s"
  then have c: "take_bit s c = c" by (rule take_bit_nat_eq_self)
  have "push_bit s a AND take_bit s c = 0" by (rule bit_eqI) (auto simp: bit_simps)
  then have "push_bit s a AND c = 0" by (simp only: c)
  from disjunctive_add_eq_or [OF this] show ?thesis by (simp add: push_bit_eq_mult)
qed

lemma unat_push_digit: "s \<le> 32 \<Longrightarrow> unat (push_bit s x) = unat x mod 2 ^ (32 - s) * 2 ^ s" for x :: u32
proof -
  assume s: "s \<le> 32"
  have "unat (push_bit s x) = unat x * 2 ^ s mod 2 ^ 32"
    unfolding unsigned_push_bit_eq by (simp add: take_bit_eq_mod push_bit_eq_mult)
  also have "(2 :: nat) ^ 32 = 2 ^ (32 - s) * 2 ^ s" using s by (simp only: power_add [symmetric] le_add_diff_inverse2)
  finally show ?thesis by (simp only: mod_mult_mult2)
qed

lemma shift_digit:
  fixes x c :: u32
  assumes "0 < s" and "s < 32" and "unat c < 2 ^ s"
  shows "unat (push_bit s x OR c) + unat (drop_bit (32 - s) x) * radix = unat x * 2 ^ s + unat c"
    and "unat (drop_bit (32 - s) x) < 2 ^ s"
proof -
  have r: "radix = 2 ^ (32 - s) * 2 ^ s" using assms(2) by (simp add: radix_def power_add [symmetric])
  have "unat (push_bit s x OR c) = unat x mod 2 ^ (32 - s) * 2 ^ s + unat c"
    using assms(2,3) by (simp only: unsigned_or_eq unat_push_digit less_imp_le or_shifted)
  moreover have "unat x * 2 ^ s = (unat x div 2 ^ (32 - s) * 2 ^ (32 - s) + unat x mod 2 ^ (32 - s)) * 2 ^ s"
    by (simp only: div_mult_mod_eq)
  ultimately show "unat (push_bit s x OR c) + unat (drop_bit (32 - s) x) * radix = unat x * 2 ^ s + unat c"
    unfolding unat_drop_bit r distrib_right by (simp only: ac_simps)
  show "unat (drop_bit (32 - s) x) < 2 ^ s"
    unfolding unat_drop_bit by (rule less_mult_imp_div_less) (use digit_less [of x] in \<open>simp only: r ac_simps\<close>)
qed

definition shl_inv :: "nat \<Rightarrow> u32 list \<Rightarrow> nat \<Rightarrow> u32 list \<times> u32 \<Rightarrow> bool" where
  "shl_inv s xs i = (\<lambda>(xs', carry). length xs' = length xs \<and> (\<forall>k \<ge> i. xs' ! k = xs ! k) \<and> unat carry < 2 ^ s \<and>
    dval xs' i + unat carry * radix ^ i = dval xs i * 2 ^ s)"

lemma shl_digits_value:
  assumes "0 < s" and "s < 32" and "len \<le> length xs"
  shows "shl_inv s xs len (shl_digits s len xs)"
  unfolding shl_digits_def
proof (rule for_upto_invariant [where P = "shl_inv s xs"])
  fix i t assume i: "i < len" and inv: "shl_inv s xs i t"
  obtain x0 c0 where t: "t = (x0, c0)" by (cases t)
  let ?d = "push_bit s (x0 ! i) OR c0" and ?c = "drop_bit (32 - s) (x0 ! i)"
  have I: "length x0 = length xs" "\<And>k. i \<le> k \<Longrightarrow> x0 ! k = xs ! k" "unat c0 < 2 ^ s"
    "dval x0 i + unat c0 * radix ^ i = dval xs i * 2 ^ s" using inv by (simp_all add: t shl_inv_def)
  have "(unat ?d + unat ?c * radix) * radix ^ i = (unat (xs ! i) * 2 ^ s + unat c0) * radix ^ i"
    using shift_digit(1) [OF assms(1,2) I(3), of "x0 ! i"] I(2) [of i] by simp
  then have "unat ?d * radix ^ i + unat ?c * radix ^ Suc i = unat (xs ! i) * radix ^ i * 2 ^ s + unat c0 * radix ^ i"
    by (simp add: algebra_simps)
  moreover have "dval (x0[i := ?d]) (Suc i) = dval x0 i + unat ?d * radix ^ i" using i I(1) assms(3) by (simp add: dval_Suc)
  moreover have "dval xs (Suc i) * 2 ^ s = dval xs i * 2 ^ s + unat (xs ! i) * radix ^ i * 2 ^ s"
    by (simp add: dval_Suc distrib_right)
  ultimately have "dval (x0[i := ?d]) (Suc i) + unat ?c * radix ^ Suc i = dval xs (Suc i) * 2 ^ s" using I(4) by linarith
  then have "shl_inv s xs (Suc i) (x0[i := ?d], ?c)"
    unfolding shl_inv_def prod.case using I(1,2) shift_digit(2) [OF assms(1,2) I(3)] by simp
  then show "shl_inv s xs (Suc i) (case t of (xs, carry) \<Rightarrow> (xs[i := push_bit s (xs ! i) OR carry], drop_bit (32 - s) (xs ! i)))"
    unfolding t prod.case .
qed (simp_all add: shl_inv_def)

lemma shr_digits_value:
  assumes "0 < s" and "s < 32" and "i \<le> length r" and "unat c = a * 2 ^ (32 - s)" and "a < 2 ^ s"
  shows "length (shr_digits u s i c r) = length r \<and> (\<forall>k \<ge> i. shr_digits u s i c r ! k = r ! k) \<and>
    dval (shr_digits u s i c r) i = (a * radix ^ i + dval u i) div 2 ^ s"
  using assms(3-)
proof (induction i arbitrary: c r a)
  case (Suc i)
  have r: "radix = 2 ^ (32 - s) * 2 ^ s" using assms(2) by (simp add: radix_def power_add [symmetric])
  let ?b = "unat (u ! i) mod 2 ^ s" and ?d = "drop_bit s (u ! i) OR c"
  have b: "unat (push_bit (32 - s) (u ! i)) = ?b * 2 ^ (32 - s)" using unat_push_digit [of "32 - s" "u ! i"] assms(2) by simp
  have d: "unat ?d = unat (u ! i) div 2 ^ s + a * 2 ^ (32 - s)"
  proof -
    have "unat (u ! i) div 2 ^ s < 2 ^ (32 - s)"
      by (rule less_mult_imp_div_less) (use digit_less [of "u ! i"] r in simp)
    then show ?thesis using or_shifted Suc.prems(2) by (simp only: or.commute [of "drop_bit s (u ! i)"] unsigned_or_eq unat_drop_bit add.commute)
  qed
  let ?r = "shr_digits u s i (push_bit (32 - s) (u ! i)) (r[i := ?d])"
  have IH: "length ?r = length r" "\<And>k. i \<le> k \<Longrightarrow> ?r ! k = r[i := ?d] ! k"
    "dval ?r i = (?b * radix ^ i + dval u i) div 2 ^ s"
    using Suc.IH [of "r[i := ?d]" "push_bit (32 - s) (u ! i)" ?b] Suc.prems(1) b by simp_all
  have "a * radix ^ Suc i + dval u (Suc i) = unat ?d * radix ^ i * 2 ^ s + (?b * radix ^ i + dval u i)"
  proof -
    have "unat (u ! i) * radix ^ i = (unat (u ! i) div 2 ^ s * 2 ^ s + ?b) * radix ^ i" by (simp only: div_mult_mod_eq)
    also have "\<dots> = unat (u ! i) div 2 ^ s * radix ^ i * 2 ^ s + ?b * radix ^ i" by (simp only: distrib_right) (simp only: ac_simps)
    moreover have "a * radix ^ Suc i = a * 2 ^ (32 - s) * radix ^ i * 2 ^ s" by (simp only: power_Suc) (simp only: r ac_simps)
    ultimately show ?thesis unfolding d dval_Suc distrib_right by linarith
  qed
  then have "(a * radix ^ Suc i + dval u (Suc i)) div 2 ^ s = unat ?d * radix ^ i + (?b * radix ^ i + dval u i) div 2 ^ s" by simp
  with IH Suc.prems(1) show ?case by (auto simp: dval_Suc)
qed (simp add: assms)

section \<open>The whole algorithm\<close>

definition normalised :: "u32 list \<Rightarrow> nat \<Rightarrow> nat \<Rightarrow> u32 list" where
  "normalised v s n = (if s \<noteq> 0 then fst (shl_digits s n v) else v)"

lemma shift_amount:
  fixes w :: u32
  assumes "w \<noteq> 0"
  defines "s \<equiv> countLeadingZeros (ucast w) - 32"
  shows "s < 32" and "radix \<le> 2 * (unat w * 2 ^ s)" and "(unat w + 1) * 2 ^ s \<le> radix"
proof -
  let ?b = "bit_length (unat w)"
  have w: "0 < unat w" using assms(1) by (simp add: unat_gt_0)
  have s: "s = 32 - ?b" by (simp add: s_def countLeadingZeros_bit_length unat_ucast_digit)
  have b32: "?b \<le> 32" using digit_less [of w] by (simp only: bit_length_le radix_def)
  have b0: "0 < ?b" using bit_length_le [of "unat w" 0] w by (cases ?b) simp_all
  then show "s < 32" by (simp add: s)
  have r: "radix = 2 ^ ?b * 2 ^ s" using b32 by (simp add: s radix_def power_add [symmetric])
  show "(unat w + 1) * 2 ^ s \<le> radix" unfolding r using bit_length_bounds(1) [of "unat w"] by (intro mult_le_mono1) simp
  have "(2 :: nat) ^ ?b \<le> 2 * unat w" using bit_length_bounds(2) [of "unat w"] w b0 by (cases ?b) simp_all
  then have "2 ^ ?b * 2 ^ s \<le> 2 * unat w * 2 ^ s" by (rule mult_le_mono1)
  then show "radix \<le> 2 * (unat w * 2 ^ s)" unfolding r by (simp only: mult.assoc)
qed

lemma normalised_divisor:
  assumes "0 < n" and "n \<le> length v" and "v ! (n - 1) \<noteq> 0"
  defines "s \<equiv> countLeadingZeros (ucast (v ! (n - 1))) - 32"
  shows "length (normalised v s n) = length v" and "dval (normalised v s n) n = dval v n * 2 ^ s"
    and "radix \<le> 2 * unat (normalised v s n ! (n - 1))"
proof -
  let ?v = "normalised v s n"
  obtain p where p: "n = Suc p" using assms(1) by (cases n) simp_all
  note sh = shift_amount [OF assms(3), folded s_def, unfolded p diff_Suc_1]
  have "length ?v = length v \<and> dval ?v n = dval v n * 2 ^ s"
  proof (cases "s = 0")
    case False
    obtain v' c where vc: "shl_digits s n v = (v', c)" by fastforce
    have I: "length v' = length v" "dval v' n + unat c * radix ^ n = dval v n * 2 ^ s"
      using shl_digits_value [OF _ sh(1) assms(2)] False by (simp_all add: vc shl_inv_def)
    have "dval v n * 2 ^ s < (unat (v ! p) + 1) * radix ^ p * 2 ^ s"
      unfolding p using dval_less [of v p] by (simp add: dval_Suc)
    also have "\<dots> = (unat (v ! p) + 1) * 2 ^ s * radix ^ p" by (simp only: ac_simps)
    also have "\<dots> \<le> radix * radix ^ p" by (rule mult_le_mono1 [OF sh(3)])
    finally have "c = 0" using I(2) unfolding p by (cases "unat c") (simp_all add: unat_eq_0)
    then show ?thesis using I False by (simp add: normalised_def vc)
  qed (simp add: normalised_def)
  then show "length ?v = length v" and V: "dval ?v n = dval v n * 2 ^ s" by blast+
  have "unat (?v ! p) * radix ^ p + dval ?v p = (unat (v ! p) * 2 ^ s) * radix ^ p + dval v p * 2 ^ s"
    using V unfolding p by (simp add: dval_Suc algebra_simps)
  then have "unat (v ! p) * 2 ^ s * radix ^ p < (unat (?v ! p) + 1) * radix ^ p"
    using dval_less [of ?v p] unfolding distrib_right mult_1 by linarith
  then have "unat (v ! p) * 2 ^ s < unat (?v ! p) + 1" by (simp only: mult_less_cancel2)
  then show "radix \<le> 2 * unat (?v ! (n - 1))" using sh(2) p by simp
qed

text \<open>The division is right for a divisor of two digits, and for a dividend with at most one digit more than the divisor.\<close>

lemma KnuthDiv_value:
  assumes n: "2 \<le> n" and cond: "n = 2 \<or> m \<le> 1" and len: "Suc (m + n) \<le> length u" "n \<le> length v" "m < length q" "n \<le> length r"
    and top: "v ! (n - 1) \<noteq> 0"
    and res: "KnuthDiv u v q r m n = (q', r')"
  shows "length q' = length q \<and> (\<forall>k > m. q' ! k = q ! k) \<and> dval q' (Suc m) = dval u (m + n) div dval v n" (is ?Q)
    and "length r' = length r \<and> (\<forall>k \<ge> n. k < length r \<longrightarrow> r' ! k = r ! k) \<and> dval r' n = dval u (m + n) mod dval v n" (is ?R)
proof -
  define s where "s = countLeadingZeros (ucast (v ! (n - 1))) - 32"
  have n0: "0 < n" using n by simp
  note sh = shift_amount [OF top, folded s_def]
  note nv = normalised_divisor [OF n0 len(2) top, folded s_def]
  let ?v = "normalised v s n" and ?N = "Suc (m + n)"
  obtain u1 c where u1: "(if s \<noteq> 0 then shl_digits s (m + n) u else (u, 0)) = (u1, c)" by fastforce
  let ?u = "u1[m + n := c]"
  have I: "length u1 = length u" "dval u1 (m + n) + unat c * radix ^ (m + n) = dval u (m + n) * 2 ^ s"
    using shl_digits_value [of s "m + n" u] sh(1) len(1) u1 by (auto simp: shl_inv_def split: if_splits)
  have U: "dval ?u ?N = dval u (m + n) * 2 ^ s" using I len(1) by (simp add: dval_Suc)
  have V0: "radix ^ (n - 1) \<le> dval v n" by (rule top_digit_le [OF n0 top])
  have "dval u (m + n) < dval v n * radix ^ Suc m"
  proof -
    have "dval u (m + n) < radix ^ (m + n)" by (rule dval_less)
    also have "\<dots> = radix ^ (n - 1) * radix ^ Suc m" using n by (simp only: power_add [symmetric]) (simp add: add.commute)
    also have "\<dots> \<le> dval v n * radix ^ Suc m" by (rule mult_le_mono1 [OF V0])
    finally show ?thesis .
  qed
  then have less: "dval ?u ?N < dval ?v n * radix ^ Suc m" unfolding U nv(2) by (simp add: ac_simps)
  obtain u2 q2 where lp: "knuth_loop ?v m n m (?u, q) = (u2, q2)" by fastforce
  have K: "length u2 = length ?u \<and> length q2 = length q \<and> (\<forall>k > m. q2 ! k = q ! k) \<and>
      dval u2 n = dval ?u ?N mod dval ?v n \<and> dval q2 (Suc m) = dval ?u ?N div dval ?v n"
    by (rule knuth_loop_value [OF n cond _ nv(3) _ len(3) _ less lp]) (use len I(1) nv(1) in simp_all)
  have code: "q' = q2" "r' = (if s \<noteq> 0 then shr_digits u2 s n 0 r else for_upto 0 n (\<lambda>i r. r[i := u2 ! i]) r)"
    using res unfolding KnuthDiv_def Let_def s_def [symmetric] normalised_def [symmetric] u1 prod.case lp by simp_all
  show ?Q using K unfolding code U nv(2) by simp
  have "dval u2 n = (dval u (m + n) mod dval v n) * 2 ^ s" using K unfolding U nv(2) by (simp only: mod_mult_mult2)
  moreover have "length r' = length r \<and> (\<forall>k \<ge> n. k < length r \<longrightarrow> r' ! k = r ! k) \<and> dval r' n = dval u2 n div 2 ^ s"
  proof (cases "s = 0")
    case False
    then show ?thesis using shr_digits_value [of s n r 0 0 u2] sh(1) len(4) unfolding code by simp
  next
    case True
    then have c: "length r' = length r" "\<And>k. k < length r \<Longrightarrow> r' ! k = (if k < n then u2 ! k else r ! k)"
      using for_upto_update [OF len(4), of 0 "\<lambda>i _. u2 ! i"] unfolding code by simp_all
    moreover have "dval r' n = dval u2 n" by (rule dval_cong) (use c len(4) in simp)
    ultimately show ?thesis using True by simp
  qed
  ultimately show ?R by simp
qed

section \<open>Division of digits and words\<close>

text \<open>The 32-bit product of the last case wraps around, and so does the difference.\<close>

lemma short_divide_step:
  assumes rem: "unat rem < unat d"
  obtains q r where "\<And>Q. short_divide U d (Suc i) rem Q = short_divide U d i r (Q[i := q])"
    and "unat q = (unat rem * radix + unat (U ! i)) div unat d" and "unat r = (unat rem * radix + unat (U ! i)) mod unat d"
proof -
  let ?p = "push_bit 32 (ucast rem) OR ucast (U ! i) :: u64" and ?d = "ucast d :: u64"
  have p: "unat ?p = unat rem * radix + unat (U ! i)" by (rule unat_two_digits)
  have d: "unat ?d = unat d" by (rule unat_ucast_digit)
  note res = that [folded p]
  consider (zero) "?p = 0" | (less) "?p \<noteq> 0" "?p < ?d" | (equal) "?p \<noteq> 0" "?p = ?d" | (greater) "?p \<noteq> 0" "?d < ?p"
    by (metis linorder_less_linear)
  then show thesis
  proof cases
    case zero
    then show thesis by (intro res [where q = 0 and r = 0]) simp_all
  next
    case less
    then have "unat ?p < unat d" using d by (simp only: word_less_nat_alt)
    moreover from this have "unat ?p < radix" using digit_less [of d] by (rule less_trans)
    then have "unat (ucast ?p :: u32) = unat ?p" by (simp only: unat_low_digit mod_less)
    ultimately show thesis using less by (intro res [where q = 0 and r = "ucast ?p"]) simp_all
  next
    case equal
    then have "unat ?p = unat d" using d by simp
    then show thesis using equal rem by (intro res [where q = 1 and r = 0]) simp_all
  next
    case greater
    define q :: u32 where "q = ucast (?p div ?d)"
    have "unat rem * radix + unat (U ! i) < unat d * radix"
      using mult_le_mono1 [of "unat rem + 1" "unat d" radix] rem digit_less [of "U ! i"] unfolding distrib_right mult_1 by linarith
    then have "unat ?p div unat d < radix" unfolding p by (rule less_mult_imp_div_less [OF ord_less_eq_trans [OF _ mult.commute]])
    then have q: "unat q = unat ?p div unat d" by (simp add: q_def unat_low_digit unat_div d)
    have pqr: "unat ?p = unat q * unat d + unat ?p mod unat d" unfolding q by (simp only: div_mult_mod_eq)
    have qd: "unat (ucast (q * d) :: u64) = unat q * unat d mod radix" unfolding unat_ucast_digit by (simp add: unat_word_ariths(2) radix_def)
    let ?m = "unat q * unat d"
    have "unat (ucast (q * d) :: u64) \<le> unat ?p" using pqr qd mod_less_eq_dividend [of ?m radix] by linarith
    then have "unat (?p - ucast (q * d)) = unat ?p - unat (ucast (q * d) :: u64)" by (simp add: unat_sub_if_size)
    also have "\<dots> = unat ?p - ?m mod radix" by (simp only: qd)
    also have "\<dots> = ?m div radix * radix + unat ?p mod unat d"
      using pqr div_mult_mod_eq [of ?m radix] by linarith
    finally have "unat (ucast (?p - ucast (q * d)) :: u32) = unat ?p mod unat d mod radix" by (simp add: unat_low_digit)
    also have "\<dots> = unat ?p mod unat d"
      by (rule mod_less) (use rem digit_less [of d] mod_less_divisor [of "unat d" "unat ?p"] in linarith)
    finally have r: "unat (ucast (?p - ucast (q * d)) :: u32) = unat ?p mod unat d" .
    have "short_divide U d (Suc i) rem Q = short_divide U d i (ucast (?p - ucast (q * d))) (Q[i := q])" for Q
    proof -
      have "\<not> ?p < ?d" "?p \<noteq> ?d" using greater(2) by auto
      then show ?thesis unfolding short_divide.simps Let_def q_def using greater(1) by (simp only: if_False)
    qed
    then show thesis using q r by (rule res)
  qed
qed

lemma short_divide_value:
  assumes "0 < unat d" and "i \<le> length Q" and "unat rem < unat d"
  shows "length (fst (short_divide U d i rem Q)) = length Q \<and>
    (\<forall>k \<ge> i. fst (short_divide U d i rem Q) ! k = Q ! k) \<and>
    dval (fst (short_divide U d i rem Q)) i = (unat rem * radix ^ i + dval U i) div unat d \<and>
    unat (snd (short_divide U d i rem Q)) = (unat rem * radix ^ i + dval U i) mod unat d"
  using assms(2-)
proof (induction i arbitrary: rem Q)
  case (Suc i)
  obtain q r where step: "\<And>Q. short_divide U d (Suc i) rem Q = short_divide U d i r (Q[i := q])"
      and q: "unat q = (unat rem * radix + unat (U ! i)) div unat d" and r: "unat r = (unat rem * radix + unat (U ! i)) mod unat d"
    using short_divide_step [OF Suc.prems(2)] by metis
  have "unat r < unat d" unfolding r by (rule mod_less_divisor [OF assms(1)])
  note IH = Suc.IH [of "Q[i := q]", OF _ this, folded step]
  have "unat rem * radix ^ Suc i + dval U (Suc i) = unat q * radix ^ i * unat d + (unat r * radix ^ i + dval U i)"
  proof -
    have "(unat rem * radix + unat (U ! i)) * radix ^ i = (unat q * unat d + unat r) * radix ^ i" unfolding q r by (simp only: div_mult_mod_eq)
    then show ?thesis unfolding dval_Suc by (simp add: algebra_simps)
  qed
  then have "(unat rem * radix ^ Suc i + dval U (Suc i)) div unat d = unat q * radix ^ i + (unat r * radix ^ i + dval U i) div unat d"
    and "(unat rem * radix ^ Suc i + dval U (Suc i)) mod unat d = (unat r * radix ^ i + dval U i) mod unat d"
    using assms(1) by simp_all
  with IH Suc.prems(1) show ?case by (auto simp: dval_Suc)
qed simp

lemma used_digits_value:
  "used_digits xs n \<le> n" "dval xs (used_digits xs n) = dval xs n" "0 < used_digits xs n \<Longrightarrow> xs ! (used_digits xs n - 1) \<noteq> 0"
  by (induction n) (auto simp: dval_Suc split: if_splits)

lemma used_digits_least:
  assumes "dval xs n < radix ^ k"
  shows "used_digits xs n \<le> k"
proof (rule ccontr)
  assume k: "\<not> used_digits xs n \<le> k"
  let ?l = "used_digits xs n"
  have "radix ^ (?l - 1) \<le> dval xs ?l" by (rule top_digit_le [OF _ used_digits_value(3)]) (use k in simp_all)
  moreover have "radix ^ k \<le> radix ^ (?l - 1)" by (rule power_increasing) (use k in \<open>auto simp: radix_def\<close>)
  ultimately show False using assms unfolding used_digits_value(2) by simp
qed

text \<open>The digits of the words.\<close>

lemma word_digits: "unat (ucast (w AND drop_bit 32 (NOT 0)) :: u32) + unat (ucast (drop_bit 32 w) :: u32) * radix = unat w"
  for w :: u64
proof -
  have "ucast (w AND drop_bit 32 (NOT 0)) = (ucast w :: u32)" by (rule bit_word_eqI) (auto simp: bit_simps)
  then show ?thesis unfolding unat_high_digit by (simp only: unat_low_digit mod_div_mult_eq)
qed

lemma radix_words: "radix ^ (2 * i) = 2 ^ (64 * i)"
  by (simp only: radix_def power_mult [symmetric] mult.assoc [symmetric]) simp

lemma dval_two: "dval xs (2 * Suc i) = dval xs (2 * i) + (unat (xs ! (2 * i)) + unat (xs ! (2 * i + 1)) * radix) * 2 ^ (64 * i)"
  by (simp add: dval_Suc distrib_right flip: radix_words)

definition split_inv :: "u64 list \<Rightarrow> u32 list \<Rightarrow> nat \<Rightarrow> u32 list \<Rightarrow> bool" where
  "split_inv p xs i t \<longleftrightarrow> length t = length xs \<and> (\<forall>k \<ge> 2 * i. t ! k = xs ! k) \<and> dval t (2 * i) = bval p i"

lemma split_words_value:
  assumes "2 * words \<le> length xs"
  shows "split_inv p xs words (split_words p words xs)"
  unfolding split_words_def
proof (rule for_upto_invariant [where P = "split_inv p xs"])
  fix i t assume i: "i < words" and inv: "split_inv p xs i t"
  let ?t = "t[i * 2 := ucast (p ! i AND drop_bit 32 (NOT 0)), i * 2 + 1 := ucast (drop_bit 32 (p ! i))]"
  have "dval ?t (2 * i) = dval t (2 * i)" by simp
  moreover have "?t ! (2 * i) = ucast (p ! i AND drop_bit 32 (NOT 0))" "?t ! (2 * i + 1) = ucast (drop_bit 32 (p ! i))"
    using i assms inv by (simp_all add: split_inv_def mult.commute [of 2])
  ultimately show "split_inv p xs (Suc i) ?t"
    using inv unfolding split_inv_def dval_two bval_Suc by (simp only: word_digits) simp
qed (simp_all add: split_inv_def)

definition join_inv :: "u32 list \<Rightarrow> u64 list \<Rightarrow> nat \<Rightarrow> u64 list \<Rightarrow> bool" where
  "join_inv xs p i t \<longleftrightarrow> length t = length p \<and> (\<forall>k \<ge> i. t ! k = p ! k) \<and> bval t i = dval xs (2 * i)"

lemma join_words_value:
  assumes "words \<le> length p"
  shows "join_inv xs p words (join_words xs words p)"
  unfolding join_words_def
proof (rule for_upto_invariant [where P = "join_inv xs p"])
  fix i t assume i: "i < words" and inv: "join_inv xs p i t"
  let ?w = "ucast (xs ! (i * 2)) OR push_bit 32 (ucast (xs ! (i * 2 + 1))) :: u64"
  have "unat ?w = unat (xs ! (2 * i)) + unat (xs ! (2 * i + 1)) * radix"
    using unat_two_digits [of "xs ! (i * 2 + 1)" "xs ! (i * 2)"] by (simp only: or.commute add.commute mult.commute)
  then show "join_inv xs p (Suc i) (t[i := ?w])"
    using inv i assms unfolding join_inv_def dval_two bval_Suc by simp
qed (simp_all add: join_inv_def)

lemma dval_zero_above: "k \<le> n \<Longrightarrow> (\<And>i. k \<le> i \<Longrightarrow> i < n \<Longrightarrow> xs ! i = 0) \<Longrightarrow> dval xs n = dval xs k"
proof (induction n)
  case (Suc n)
  then show ?case by (cases "k = Suc n") (simp_all add: dval_Suc)
qed simp

lemma divide_digits_value:
  assumes len: "m + n < length U" "n \<le> length V" and V: "0 < dval V n" "dval V n \<le> dval U (m + n)"
    and cond: "dval V n < radix ^ 2 \<or> dval U (m + n) < radix ^ (used_digits V n + 1)"
  obtains Q R where "divide_digits U V m n = Some (Q, R)" and "length Q = m + n" and "length R = n"
    and "dval Q (m + n) = dval U (m + n) div dval V n" and "dval R n = dval U (m + n) mod dval V n"
proof -
  let ?k = "used_digits V n" and ?l = "used_digits U (m + n)"
  note uV = used_digits_value [of V n] and uU = used_digits_value [of U "m + n"]
  have k0: "0 < ?k" using V(1) uV(2) by (cases ?k) simp_all
  have kl: "?k \<le> ?l"
  proof (rule used_digits_least)
    have "dval U (m + n) < radix ^ ?l" using dval_less [of U ?l] uU(2) by simp
    with V(2) show "dval V n < radix ^ ?l" by simp
  qed
  consider "?k = 1" | "1 < ?k" using k0 by linarith
  then show thesis
  proof cases
    case 1
    let ?s = "short_divide U (V ! 0) ?l 0 (replicate (m + n) 0)"
    have V0: "unat (V ! 0) = dval V n" using uV(2) 1 by (simp add: dval_Suc)
    have s: "length (fst ?s) = m + n \<and> (\<forall>k \<ge> ?l. fst ?s ! k = replicate (m + n) 0 ! k) \<and>
        dval (fst ?s) ?l = dval U (m + n) div dval V n \<and> unat (snd ?s) = dval U (m + n) mod dval V n"
      using short_divide_value [of "V ! 0" ?l "replicate (m + n) 0" 0 U] V(1) uU(1) unfolding uU(2) V0 by simp
    have "dval (fst ?s) (m + n) = dval (fst ?s) ?l" by (rule dval_zero_above [OF uU(1)]) (use s in simp)
    moreover have "dval ((replicate n 0)[0 := snd ?s]) n = dval ((replicate n 0)[0 := snd ?s]) 1"
      by (rule dval_zero_above) (use uV(1) 1 in simp_all)
    moreover have "dval ((replicate n 0)[0 := snd ?s]) 1 = unat (snd ?s)" using uV(1) 1 by (simp add: dval_Suc)
    ultimately show thesis
      by (intro that [of "fst ?s" "(replicate n 0)[0 := snd ?s]"]) (use s 1 in \<open>simp_all add: divide_digits_def Let_def case_prod_beta\<close>)
  next
    case 2
    obtain Q R where K: "KnuthDiv U V (replicate (m + n) 0) (replicate n 0) (?l - ?k) ?k = (Q, R)" by fastforce
    have lk: "?l - ?k + ?k = ?l" using kl by simp
    have "?k = 2 \<or> ?l - ?k \<le> 1" using cond
    proof
      assume "dval V n < radix ^ 2"
      then have "?k \<le> 2" by (rule used_digits_least)
      with 2 show ?thesis by simp
    next
      assume "dval U (m + n) < radix ^ (?k + 1)"
      then have "?l \<le> ?k + 1" by (rule used_digits_least)
      then show ?thesis by linarith
    qed
    note * = KnuthDiv_value [OF _ this _ _ _ _ uV(3) [OF k0] K, unfolded lk uU(2) uV(2)]
    have q: "length Q = m + n \<and> (\<forall>k > ?l - ?k. Q ! k = replicate (m + n) 0 ! k) \<and> dval Q (Suc (?l - ?k)) = dval U (m + n) div dval V n"
      using *(1) 2 len uU(1) uV(1) kl by simp
    have r: "length R = n \<and> (\<forall>k \<ge> ?k. k < n \<longrightarrow> R ! k = replicate n 0 ! k) \<and> dval R ?k = dval U (m + n) mod dval V n"
      using *(2) 2 len uU(1) uV(1) kl by simp
    have "dval Q (m + n) = dval Q (Suc (?l - ?k))" by (rule dval_zero_above) (use q 2 kl uU(1) in auto)
    moreover have "dval R n = dval R ?k" by (rule dval_zero_above [OF uV(1)]) (use r in auto)
    moreover have "divide_digits U V m n = Some (Q, R)" using 2 K by (simp add: divide_digits_def Let_def)
    ultimately show thesis using q r by (intro that) auto
  qed
qed

section \<open>The operators\<close>

text \<open>The operands on which the division is right: at most 128 bits, or a divisor of one word, or a quotient of one digit.\<close>

definition divides_well :: "APInt \<Rightarrow> APInt \<Rightarrow> bool" where
  "divides_well x y \<longleftrightarrow> BitWidth x \<le> 128 \<or> ival (abs_apint y) < 2 ^ 64 \<or> ival (abs_apint x) < 2 ^ 32 * ival (abs_apint y)"

lemma divides_well_digits:
  assumes "divides_well x y" and "ival (abs_apint x) < 2 ^ BitWidth x" and "dval V n = ival (abs_apint y)"
  shows "dval V n < radix ^ 2 \<or> ival (abs_apint x) < radix ^ (used_digits V n + 1)"
proof (cases "dval V n < radix ^ 2")
  case False
  let ?k = "used_digits V n"
  have k: "dval V n < radix ^ ?k" using dval_less [of V ?k] by (simp add: used_digits_value(2))
  then have "radix ^ 2 < radix ^ ?k" using False by linarith
  then have "2 < ?k" by (rule power_less_imp_less_exp [rotated]) (simp add: radix_def)
  have "ival (abs_apint x) < radix ^ (?k + 1)"
  proof (cases "BitWidth x \<le> 128")
    case True
    have "ival (abs_apint x) < 2 ^ 128" by (rule less_le_trans [OF assms(2) power_increasing]) (use True in simp_all)
    also have "\<dots> = radix ^ 4" by (simp only: radix_def power_mult [symmetric]) simp
    also have "\<dots> \<le> radix ^ (?k + 1)" by (rule power_increasing) (use \<open>2 < ?k\<close> in \<open>simp_all add: radix_def\<close>)
    finally show ?thesis .
  next
    case wide: False
    have "radix ^ 2 = 2 ^ 64" by (simp only: radix_def power_mult [symmetric]) simp
    with wide False assms(1,3) have "ival (abs_apint x) < radix * dval V n" unfolding divides_well_def radix_def by simp
    also have "\<dots> < radix * radix ^ ?k" using k by simp
    finally show ?thesis by simp
  qed
  then show ?thesis ..
qed simp

lemma words_of_digits:
  assumes "w \<le> getNumWords b" and "0 < b" and "dval Q (2 * w) < 2 ^ b"
  defines "z \<equiv> \<lparr>BitWidth = b, pVal = join_words Q w (replicate (getNumWords b) 0)\<rparr>"
  shows "refines (Some z) (mk_apint b (dval Q (2 * w)))"
proof -
  let ?p = "join_words Q w (replicate (getNumWords b) 0)"
  have j: "length ?p = getNumWords b" "\<And>k. w \<le> k \<Longrightarrow> ?p ! k = replicate (getNumWords b) 0 ! k" "bval ?p w = dval Q (2 * w)"
    using join_words_value [of w "replicate (getNumWords b) 0" Q] assms(1) by (auto simp: join_inv_def)
  have "bval ?p (getNumWords b) = bval ?p w" by (rule bval_zero_above [OF assms(1)]) (simp add: j(2))
  with j show ?thesis using assms(2,3) by (simp add: z_def wf_rep_def abs_apint_def mk_apint_def)
qed

lemma divide_value:
  assumes x: "wf_rep x" and y: "wf_rep y" and w: "BitWidth x = BitWidth y" and many: "\<not> isSingleWord x"
    and le: "0 < ival (abs_apint y)" "ival (abs_apint y) \<le> ival (abs_apint x)" and good: "divides_well x y"
  shows "refines (map_option fst (divide x (activeWords x) y (activeWords y))) (ap_udiv (abs_apint x) (abs_apint y))"
    and "refines (map_option snd (divide x (activeWords x) y (activeWords y))) (ap_urem (abs_apint x) (abs_apint y))"
proof -
  let ?l = "activeWords x" and ?r = "activeWords y" and ?X = "ival (abs_apint x)" and ?Y = "ival (abs_apint y)"
  note ax = activeWords_value [OF x] and ay = activeWords_value [OF y]
  have rl: "?r \<le> ?l"
    using ax(4) [of ?l] le(2) ay(4) [of ?l] by simp
  define n m where "n = ?r * 2" and "m = ?l * 2 - n"
  have mn: "m + n = 2 * ?l" using rl by (simp add: m_def n_def)
  define U V where "U = (split_words (pVal x) ?l (replicate (m + n + 1) 0))[m + n := 0]"
    and "V = split_words (pVal y) ?r (replicate n 0)"
  have "split_inv (pVal x) (replicate (m + n + 1) 0) ?l (split_words (pVal x) ?l (replicate (m + n + 1) 0))"
    by (rule split_words_value) (simp add: mn)
  then have U: "m + n < length U" "dval U (m + n) = ?X" using ax(3) unfolding split_inv_def U_def mn by simp_all
  have "split_inv (pVal y) (replicate n 0) ?r V" unfolding V_def by (rule split_words_value) (simp add: n_def)
  then have V: "n \<le> length V" "dval V n = ?Y" using ay(3) unfolding split_inv_def n_def by (simp_all add: mult.commute)
  obtain Q R where QR: "divide_digits U V m n = Some (Q, R)" "dval Q (m + n) = ?X div ?Y" "dval R n = ?X mod ?Y"
    using divide_digits_value [OF U(1) V(1), unfolded U(2) V(2), OF le divides_well_digits [OF good wf_repD(3) [OF x] V(2), unfolded V(2)]]
    by metis
  have single: "\<not> isSingleWord y" using many w by (simp add: isSingleWord_def)
  have d: "divide x ?l y ?r = Some
      (\<lparr>BitWidth = BitWidth x, pVal = join_words Q ?l (replicate (getNumWords (BitWidth x)) 0)\<rparr>,
       \<lparr>BitWidth = BitWidth y, pVal = join_words R ?r (replicate (getNumWords (BitWidth y)) 0)\<rparr>)"
    unfolding divide_def Let_def n_def [symmetric] m_def [symmetric] U_def [symmetric] V_def [symmetric]
    using rl many single QR(1) by simp
  have "?X div ?Y < 2 ^ BitWidth x" by (rule le_less_trans [OF div_le_dividend wf_repD(3) [OF x]])
  moreover have "?X mod ?Y < 2 ^ BitWidth y" by (rule less_trans [OF mod_less_divisor [OF le(1)] wf_repD(3) [OF y]])
  ultimately show "refines (map_option fst (divide x ?l y ?r)) (ap_udiv (abs_apint x) (abs_apint y))"
    and "refines (map_option snd (divide x ?l y ?r)) (ap_urem (abs_apint x) (abs_apint y))"
    using words_of_digits [OF ax(2) wf_repD(1) [OF x], of Q] words_of_digits [OF ay(2) wf_repD(1) [OF y], of R] QR(2) [unfolded mn] QR(3) w
    unfolding d mn n_def ap_udiv_def ap_urem_def by (simp_all add: mult.commute)
qed

lemma word_of_active:
  assumes "wf_rep x" and "activeWords x = 1"
  shows "unat (pVal x ! 0) = ival (abs_apint x)"
  using activeWords_value(3) [OF assms(1)] assms(2) by (simp add: bval_Suc)

lemma active_less: "wf_rep x \<Longrightarrow> wf_rep y \<Longrightarrow> activeWords x < activeWords y \<Longrightarrow> ival (abs_apint x) < ival (abs_apint y)"
  using activeWords_value(4) [of x "activeWords x"] activeWords_value(4) [of y "activeWords x"] by (metis less_le_trans not_le order_refl)

lemma refines_construct: "0 < w \<Longrightarrow> refines (Some (construct w v False)) (mk_apint w (unat v))"
  using construct_unsigned [of w v] by simp

lemma refines_udiv_urem:
  assumes x: "wf_rep x" and y: "wf_rep y" and w: "BitWidth x = BitWidth y"
    and Y: "ival (abs_apint y) \<noteq> 0" and good: "divides_well x y"
  shows "refines (udiv x y) (ap_udiv (abs_apint x) (abs_apint y))"
    and "refines (urem x y) (ap_urem (abs_apint x) (abs_apint y))"
proof -
  let ?X = "ival (abs_apint x)" and ?Y = "ival (abs_apint y)" and ?w = "BitWidth x"
  have "refines (udiv x y) (ap_udiv (abs_apint x) (abs_apint y)) \<and> refines (urem x y) (ap_urem (abs_apint x) (abs_apint y))"
  proof (cases "isSingleWord x")
    case True
    then have y': "isSingleWord y" using w by (simp add: isSingleWord_def)
    note v = single_word(3) [OF x True] single_word(3) [OF y y']
    have "VAL y \<noteq> 0" using v(2) Y by auto
    then have "udiv x y = Some (construct ?w (VAL x div VAL y) False)" "urem x y = Some (construct ?w (VAL x mod VAL y) False)"
      using True w by (simp_all add: udiv_def urem_def)
    then show ?thesis
      using refines_construct [OF wf_repD(1) [OF x], of "VAL x div VAL y"] refines_construct [OF wf_repD(1) [OF x], of "VAL x mod VAL y"]
      by (simp add: ap_udiv_def ap_urem_def unat_div unat_mod v)
  next
    case False
    let ?l = "activeWords x" and ?r = "activeWords y"
    note ult = ult_value [OF x y w] and eq = op_eq_value [OF x y w]
    have r: "?r \<noteq> 0" using activeWords_value(1) [OF y] Y by simp
    note zero = refines_construct [OF wf_repD(1) [OF x], of 0]
    have same: "mk_apint ?w ?X = abs_apint x" using wf_repD(3) [OF x] by (simp add: mk_apint_def apint_eq_iff)
    show ?thesis
    proof (cases "?X < ?Y")
      case less: True
      have l: "?l = 0 \<Longrightarrow> ?X = 0" using activeWords_value(1) [OF x] by simp
      have "udiv x y = Some (construct ?w 0 False)" using less False r w ult by (simp add: udiv_def Let_def)
      moreover have "urem x y = (if ?l = 0 then Some (construct ?w 0 False) else Some x)"
        using less False r w ult by (simp add: urem_def Let_def)
      ultimately show ?thesis using zero less x l same by (simp add: ap_udiv_def ap_urem_def)
    next
      case ge: False
      then have rl: "?r \<le> ?l" using active_less [OF x y] by (meson not_le)
      with r have l: "?l \<noteq> 0" by simp
      show ?thesis
      proof (cases "?X = ?Y")
        case True
        then have "udiv x y = Some (construct ?w 1 False)" "urem x y = Some (construct ?w 0 False)"
          using False r l rl w ult eq by (simp_all add: udiv_def urem_def Let_def)
        then show ?thesis using refines_construct [OF wf_repD(1) [OF x], of 1] zero True Y by (simp add: ap_udiv_def ap_urem_def)
      next
        case ne: False
        show ?thesis
        proof (cases "?l = 1")
          case one: True
          then have r1: "?r = 1" using rl r by simp
          note v = word_of_active [OF x one] word_of_active [OF y r1]
          have "udiv x y = Some (construct ?w (pVal x ! 0 div pVal y ! 0) False)" "urem x y = Some (construct ?w (pVal x ! 0 mod pVal y ! 0) False)"
            using False ge ne one r1 w ult eq by (simp_all add: udiv_def urem_def Let_def)
          then show ?thesis
            using refines_construct [OF wf_repD(1) [OF x], of "pVal x ! 0 div pVal y ! 0"]
              refines_construct [OF wf_repD(1) [OF x], of "pVal x ! 0 mod pVal y ! 0"]
            by (simp add: ap_udiv_def ap_urem_def unat_div unat_mod v)
        next
          case more: False
          have "udiv x y = map_option fst (divide x ?l y ?r)" "urem x y = map_option snd (divide x ?l y ?r)"
            using False ge ne r l rl more w ult eq by (simp_all add: udiv_def urem_def Let_def)
          then show ?thesis using divide_value [OF x y w False _ _ good] Y ge by simp
        qed
      qed
    qed
  qed
  then show "refines (udiv x y) (ap_udiv (abs_apint x) (abs_apint y))"
    "refines (urem x y) (ap_urem (abs_apint x) (abs_apint y))" by blast+
qed

section \<open>Signed division\<close>

text \<open>The operators work on the magnitudes and negate the result, all of it modulo the width.\<close>

definition magnitude :: "APInt \<Rightarrow> APInt option" where
  "magnitude x = (if isNegative_rep x then op_neg x else Some x)"

definition negate_if :: "bool \<Rightarrow> APInt option \<Rightarrow> APInt option" where
  "negate_if b r = (if b then do { d \<leftarrow> r; op_neg d } else r)"

lemma signed_by_magnitudes:
  "sdiv x y = do { a \<leftarrow> magnitude x; b \<leftarrow> magnitude y; negate_if (isNegative_rep x \<noteq> isNegative_rep y) (udiv a b) }"
  "srem x y = do { a \<leftarrow> magnitude x; b \<leftarrow> magnitude y; negate_if (isNegative_rep x) (urem a b) }"
  by (auto simp: sdiv_def srem_def magnitude_def negate_if_def split: Option.bind_splits)

lemma neg_mk: "v < 2 ^ w \<Longrightarrow> ap_sub (mk_apint w 0) (mk_apint w v) = of_sval w (- int v)"
proof -
  assume v: "v < 2 ^ w"
  have "- int v mod 2 ^ w = int (2 ^ w - v) mod 2 ^ w" using v by (simp add: of_nat_diff mod_simps)
  also have "\<dots> = int ((2 ^ w - v) mod 2 ^ w)" by (simp add: of_nat_mod)
  finally show ?thesis using v by (simp add: ap_sub_def of_sval_def mk_apint_def)
qed

lemma mk_of_sval: "mk_apint w v = of_sval w (int v)"
proof -
  have "int v mod 2 ^ w = int (v mod 2 ^ w)" by (simp add: of_nat_mod)
  then show ?thesis by (simp add: mk_apint_def of_sval_def)
qed

lemma abs_mk: "wf_rep x \<Longrightarrow> abs_apint x = mk_apint (BitWidth x) (ival (abs_apint x))"
  using wf_repD(3) [of x] by (simp add: mk_apint_def apint_eq_iff)

lemma negate_if_value:
  assumes "refines r (mk_apint w v)" and "v < 2 ^ w"
  shows "refines (negate_if b r) (of_sval w ((if b then - 1 else 1) * int v))"
proof -
  obtain z where z: "r = Some z" "wf_rep z" "abs_apint z = mk_apint w v" using assms(1) by (auto simp: refines_def)
  then have "BitWidth z = w" by (metis bitWidth_simps(1) bitWidth_abs)
  then have "refines (op_neg z) (of_sval w (- int v))" using refines_neg [OF z(2)] neg_mk [OF assms(2)] z(3) by simp
  then show ?thesis using z mk_of_sval [of w v] by (simp add: negate_if_def)
qed

lemma magnitude_value:
  assumes "wf_rep x"
  obtains m where "magnitude x = Some m" and "wf_rep m" and "BitWidth m = BitWidth x"
    and "int (ival (abs_apint m)) = \<bar>sval (abs_apint x)\<bar>"
proof (cases "isNegative_rep x")
  case False
  then show thesis using assms sval_value [OF assms] by (intro that [of x]) (simp_all add: magnitude_def)
next
  case True
  let ?v = "ival (abs_apint x)" and ?w = "BitWidth x"
  have s: "sval (abs_apint x) = int ?v - 2 ^ ?w" using sval_value [OF assms] True by simp
  obtain m where m: "op_neg x = Some m" "wf_rep m" "abs_apint m = of_sval ?w (- int ?v)"
    using refines_neg [OF assms] neg_mk [OF wf_repD(3) [OF assms]] abs_mk [OF assms] by (auto simp: refines_def)
  have "0 < ?v" using True isNegative_value [OF assms] by (cases ?v) (simp_all add: isNegative_def)
  then have "- int ?v mod 2 ^ ?w = 2 ^ ?w - int ?v"
    using ival_int [OF assms] mod_pos_pos_trivial [of "2 ^ ?w - int ?v" "2 ^ ?w"] by simp
  then have "int (ival (abs_apint m)) = \<bar>sval (abs_apint x)\<bar>" using s ival_int [OF assms] by (simp add: m(3) of_sval_def)
  moreover have "BitWidth m = ?w" using m(3) by (metis bitWidth_simps(2) bitWidth_abs)
  ultimately show thesis using m(1,2) True by (intro that) (simp_all add: magnitude_def)
qed

lemma refines_sdiv_srem:
  assumes x: "wf_rep x" and y: "wf_rep y" and w: "BitWidth x = BitWidth y" and Y: "ival (abs_apint y) \<noteq> 0"
  defines "w \<equiv> BitWidth x" and "X \<equiv> sval (abs_apint x)" and "Y \<equiv> sval (abs_apint y)"
  assumes good: "BitWidth x \<le> 128 \<or> \<bar>Y\<bar> < 2 ^ 64 \<or> \<bar>X\<bar> < 2 ^ 32 * \<bar>Y\<bar>"
  shows "refines (sdiv x y) (of_sval w (sgn X * sgn Y * (\<bar>X\<bar> div \<bar>Y\<bar>)))"
    and "refines (srem x y) (of_sval w (sgn X * (\<bar>X\<bar> mod \<bar>Y\<bar>)))"
proof -
  obtain a where a: "magnitude x = Some a" "wf_rep a" "BitWidth a = w" "int (ival (abs_apint a)) = \<bar>X\<bar>"
    using magnitude_value [OF x] unfolding X_def w_def by metis
  obtain b where b: "magnitude y = Some b" "wf_rep b" "BitWidth b = w" "int (ival (abs_apint b)) = \<bar>Y\<bar>"
    using magnitude_value [OF y] unfolding Y_def w_def w by metis
  let ?A = "ival (abs_apint a)" and ?B = "ival (abs_apint b)"
  have neg: "isNegative_rep x \<longleftrightarrow> X < 0" "isNegative_rep y \<longleftrightarrow> Y < 0"
    using sval_value [OF x] sval_value [OF y] ival_int [OF x] ival_int [OF y] by (auto simp: X_def Y_def)
  have "Y \<noteq> 0" using neg(2) Y sval_value [OF y] by (auto simp: Y_def)
  then have B: "?B \<noteq> 0" using b(4) by auto
  have good': "divides_well a b"
    using good of_nat_less_iff [of ?A "2 ^ 32 * ?B", where 'a = int]
    unfolding divides_well_def a(3) w_def [symmetric] a(4) [symmetric] b(4) [symmetric] by simp
  have "BitWidth a = BitWidth b" using a(3) b(3) by simp
  note d = refines_udiv_urem [OF a(2) b(2) this B good', unfolded ap_udiv_def ap_urem_def bitWidth_abs a(3)]
  have "?A < 2 ^ w" using wf_repD(3) [OF a(2)] a(3) by simp
  then have lt: "?A div ?B < 2 ^ w" "?A mod ?B < 2 ^ w"
    by (meson div_le_dividend mod_less_eq_dividend le_less_trans)+
  have q: "int (?A div ?B) = \<bar>X\<bar> div \<bar>Y\<bar>" "int (?A mod ?B) = \<bar>X\<bar> mod \<bar>Y\<bar>" by (simp_all add: zdiv_int zmod_int a(4) b(4))
  have sign: "(if X < 0 \<longleftrightarrow> \<not> Y < 0 then - 1 else 1) * (\<bar>X\<bar> div \<bar>Y\<bar>) = sgn X * sgn Y * (\<bar>X\<bar> div \<bar>Y\<bar>)"
    "(if X < 0 then - 1 else 1) * (\<bar>X\<bar> mod \<bar>Y\<bar>) = sgn X * (\<bar>X\<bar> mod \<bar>Y\<bar>)"
    using \<open>Y \<noteq> 0\<close> by (auto simp: sgn_if)
  show "refines (sdiv x y) (of_sval w (sgn X * sgn Y * (\<bar>X\<bar> div \<bar>Y\<bar>)))"
    using negate_if_value [OF d(1) lt(1), of "X < 0 \<longleftrightarrow> \<not> Y < 0"] sign(1)
    unfolding signed_by_magnitudes a(1) b(1) neg by (simp add: q(1))
  show "refines (srem x y) (of_sval w (sgn X * (\<bar>X\<bar> mod \<bar>Y\<bar>)))"
    using negate_if_value [OF d(2) lt(2), of "X < 0"] sign(2)
    unfolding signed_by_magnitudes a(1) b(1) neg by (simp add: q(2))
qed

section \<open>Overflow\<close>

text \<open>A result that may have overflowed: the wrapped value and the flag.\<close>

definition reports :: "(APInt \<times> bool) option \<Rightarrow> apint \<Rightarrow> bool \<Rightarrow> bool" where
  "reports r a b \<longleftrightarrow> (\<exists>z. r = Some (z, b) \<and> wf_rep z \<and> abs_apint z = a)"

lemma of_sval_mod: "of_sval w (i mod 2 ^ w) = of_sval w i"
  by (simp add: of_sval_def)

lemma of_sval_shift: "of_sval w (i + 2 ^ w) = of_sval w i" "of_sval w (i - 2 ^ w) = of_sval w i"
  by (simp_all add: of_sval_def)

lemma of_sval_cong: "i mod 2 ^ w = j mod 2 ^ w \<Longrightarrow> of_sval w i = of_sval w j"
  by (simp add: of_sval_def)

lemma of_sval_sval: "wf_apint w a \<Longrightarrow> of_sval w (sval a) = a"
  using of_sval_cong [OF ival_mod_sval, of a w]
  by (simp add: wf_apint_def of_sval_def apint_eq_iff flip: zmod_int)

lemma sval_wrap:
  assumes "0 < w" and "- (2 ^ w) \<le> v" and "v < 2 ^ w"
  shows "sval (of_sval w v) = (if v < - (2 ^ (w - 1)) then v + 2 ^ w else if v \<ge> 2 ^ (w - 1) then v - 2 ^ w else v)"
proof -
  define h where "h = (2 :: int) ^ (w - 1)"
  have h: "(2 :: int) ^ w = 2 * h" using exp_halves [OF assms(1), where 'a = int] by (simp add: h_def)
  note in_range = sval_of_sval(1) [OF assms(1), folded h_def]
  have "sval (of_sval w (v + 2 * h)) = v + 2 * h" if "v < - h" by (rule in_range) (use that assms(2) h in simp_all)
  moreover have "sval (of_sval w (v - 2 * h)) = v - 2 * h" if "v \<ge> h" by (rule in_range) (use that assms(3) h in simp_all)
  moreover have "sval (of_sval w v) = v" if "\<not> v < - h" "\<not> v \<ge> h" by (rule in_range) (use that in simp_all)
  ultimately show ?thesis using of_sval_shift [of w v] unfolding h_def [symmetric] h by simp
qed

lemma ap_add_sub_sval:
  assumes "bitWidth a = w" and "bitWidth b = w" and "ival b < 2 ^ w"
  shows "ap_add a b = of_sval w (sval a + sval b)" and "ap_sub a b = of_sval w (sval a - sval b)"
proof -
  note m = ival_mod_sval [OF assms(1)] ival_mod_sval [OF assms(2)]
  have "(int (ival a) + int (ival b)) mod 2 ^ w = (sval a + sval b) mod 2 ^ w"
    by (subst mod_add_eq [symmetric]) (simp only: m mod_add_eq)
  moreover have "ap_add a b = of_sval w (int (ival a) + int (ival b))" by (simp add: ap_add_def mk_of_sval assms(1))
  ultimately show "ap_add a b = of_sval w (sval a + sval b)" using of_sval_cong by metis
  have "(int (ival a) - int (ival b)) mod 2 ^ w = (sval a - sval b) mod 2 ^ w"
    by (subst mod_diff_eq [symmetric]) (simp only: m mod_diff_eq)
  moreover have "int (ival a + (2 ^ w - ival b)) = int (ival a) - int (ival b) + 2 ^ w" using assms(3) by (simp add: of_nat_diff)
  then have "ap_sub a b = of_sval w (int (ival a) - int (ival b))"
    using of_sval_shift(1) [of w "int (ival a) - int (ival b)"] by (simp only: ap_sub_def mk_of_sval assms(1))
  ultimately show "ap_sub a b = of_sval w (sval a - sval b)" using of_sval_cong by metis
qed

lemma sign_bounds:
  assumes "wf_rep x"
  shows "isNegative_rep x \<longleftrightarrow> sval (abs_apint x) < 0"
    and "- (2 ^ (BitWidth x - 1)) \<le> sval (abs_apint x)" and "sval (abs_apint x) < 2 ^ (BitWidth x - 1)"
  using sval_value [OF assms] ival_int [OF assms] sval_bounds [OF wf_abs [OF assms]] by auto

lemma signed_overflow:
  assumes x: "wf_rep x" and y: "wf_rep y" and w: "BitWidth x = BitWidth y"
  defines "w \<equiv> BitWidth x" and "X \<equiv> sval (abs_apint x)" and "Y \<equiv> sval (abs_apint y)"
  shows "reports (sadd_ov x y) (of_sval w (X + Y)) (X + Y < - (2 ^ (w - 1)) \<or> 2 ^ (w - 1) \<le> X + Y)"
    and "reports (ssub_ov x y) (of_sval w (X - Y)) (X - Y < - (2 ^ (w - 1)) \<or> 2 ^ (w - 1) \<le> X - Y)"
proof -
  have w0: "0 < w" using wf_repD(1) [OF x] by (simp add: w_def)
  note h = exp_halves [OF w0, where 'a = int]
  note sx = sign_bounds [OF x, folded X_def w_def] and sy = sign_bounds [OF y, folded Y_def, folded w, folded w_def]
  have ops: "ap_add (abs_apint x) (abs_apint y) = of_sval w (X + Y)" "ap_sub (abs_apint x) (abs_apint y) = of_sval w (X - Y)"
    using ap_add_sub_sval [of "abs_apint x" w "abs_apint y"] wf_repD(3) [OF y] w by (simp_all add: w_def X_def Y_def)
  obtain a where a: "op_plus x y = Some a" "wf_rep a" "abs_apint a = of_sval w (X + Y)"
    using refines_add(2) [OF x y w] by (auto simp: refines_def ops)
  have "sval (abs_apint a) = (if X + Y < - (2 ^ (w - 1)) then X + Y + 2 ^ w else if X + Y \<ge> 2 ^ (w - 1) then X + Y - 2 ^ w else X + Y)"
    unfolding a(3) by (rule sval_wrap [OF w0]) (use sx sy h in linarith)+
  then have "(\<not> isNegative_rep x) = (\<not> isNegative_rep y) \<and> (\<not> isNegative_rep a) \<noteq> (\<not> isNegative_rep x) \<longleftrightarrow>
      X + Y < - (2 ^ (w - 1)) \<or> 2 ^ (w - 1) \<le> X + Y"
    unfolding sx(1) sy(1) sign_bounds(1) [OF a(2)] using sx(2,3) sy(2,3) h by (auto split: if_splits)
  then show "reports (sadd_ov x y) (of_sval w (X + Y)) (X + Y < - (2 ^ (w - 1)) \<or> 2 ^ (w - 1) \<le> X + Y)"
    using a by (simp add: reports_def sadd_ov_def)
  obtain b where b: "op_minus x y = Some b" "wf_rep b" "abs_apint b = of_sval w (X - Y)"
    using refines_sub(2) [OF x y w] by (auto simp: refines_def ops)
  have "sval (abs_apint b) = (if X - Y < - (2 ^ (w - 1)) then X - Y + 2 ^ w else if X - Y \<ge> 2 ^ (w - 1) then X - Y - 2 ^ w else X - Y)"
    unfolding b(3) by (rule sval_wrap [OF w0]) (use sx sy h in linarith)+
  then have "(\<not> isNegative_rep x) \<noteq> (\<not> isNegative_rep y) \<and> (\<not> isNegative_rep b) \<noteq> (\<not> isNegative_rep x) \<longleftrightarrow>
      X - Y < - (2 ^ (w - 1)) \<or> 2 ^ (w - 1) \<le> X - Y"
    unfolding sx(1) sy(1) sign_bounds(1) [OF b(2)] using sx(2,3) sy(2,3) h by (auto split: if_splits)
  then show "reports (ssub_ov x y) (of_sval w (X - Y)) (X - Y < - (2 ^ (w - 1)) \<or> 2 ^ (w - 1) \<le> X - Y)"
    using b by (simp add: reports_def ssub_ov_def)
qed

lemma wrapped_difference: "X < M \<Longrightarrow> Y < M \<Longrightarrow> (X + (M - Y)) mod M > X \<longleftrightarrow> X < Y" for X Y M :: nat
proof -
  assume X: "X < M" and Y: "Y < M"
  show ?thesis
  proof (cases "X < Y")
    case False
    then have "X + (M - Y) = X - Y + M" using Y by simp
    then have "(X + (M - Y)) mod M = X - Y" using X by (simp only: mod_add_self2) simp
    then show ?thesis using False by simp
  qed (use Y in simp)
qed

lemma unsigned_overflow:
  assumes x: "wf_rep x" and y: "wf_rep y" and w: "BitWidth x = BitWidth y"
  defines "w \<equiv> BitWidth x" and "X \<equiv> ival (abs_apint x)" and "Y \<equiv> ival (abs_apint y)"
  shows "reports (uadd_ov x y) (mk_apint w (X + Y)) (2 ^ w \<le> X + Y)"
    and "reports (usub_ov x y) (of_sval w (int X - int Y)) (X < Y)"
proof -
  have lt: "X < 2 ^ w" "Y < 2 ^ w" using wf_repD(3) [OF x] wf_repD(3) [OF y] w by (simp_all add: w_def X_def Y_def)
  obtain a where a: "op_plus x y = Some a" "wf_rep a" "abs_apint a = mk_apint w (X + Y)"
    using refines_add(2) [OF x y w] by (auto simp: refines_def ap_add_def w_def X_def Y_def)
  have wa: "BitWidth a = BitWidth y" using a(3) w by (metis bitWidth_simps(1) bitWidth_abs w_def)
  have "(X + Y) mod 2 ^ w < Y \<longleftrightarrow> 2 ^ w \<le> X + Y" using lt by (simp add: mod_if [of "X + Y"]) auto
  then have "ult_rep a y = Some (2 ^ w \<le> X + Y)"
    using ult_value [OF a(2) y wa] by (simp add: a(3) mk_apint_def Y_def)
  then show "reports (uadd_ov x y) (mk_apint w (X + Y)) (2 ^ w \<le> X + Y)" using a by (simp add: reports_def uadd_ov_def)
  have sub: "ap_sub (abs_apint x) (abs_apint y) = mk_apint w (X + (2 ^ w - Y))"
    by (simp add: ap_sub_def w_def X_def Y_def)
  obtain b where b: "op_minus x y = Some b" "wf_rep b" "abs_apint b = mk_apint w (X + (2 ^ w - Y))"
    using refines_sub(2) [OF x y w] unfolding sub by (auto simp: refines_def)
  have wb: "BitWidth b = BitWidth x" using b(3) by (metis bitWidth_simps(1) bitWidth_abs w_def)
  have "(X + (2 ^ w - Y)) mod 2 ^ w > X \<longleftrightarrow> X < Y" using lt by (rule wrapped_difference)
  then have "ugt_rep b x = Some (X < Y)"
    using compare_values(4) [OF b(2) x wb] by (simp add: b(3) mk_apint_def X_def ugt_def)
  moreover have "mk_apint w (X + (2 ^ w - Y)) = of_sval w (int X - int Y)"
    using of_sval_shift(1) [of w "int X - int Y"] lt(2) by (simp add: mk_of_sval of_nat_diff algebra_simps)
  ultimately show "reports (usub_ov x y) (of_sval w (int X - int Y)) (X < Y)" using b by (simp add: reports_def usub_ov_def)
qed

lemma refinesD: "refines r (mk_apint w v) \<Longrightarrow> \<exists>z. r = Some z \<and> wf_rep z \<and> BitWidth z = w \<and> abs_apint z = mk_apint w v"
  unfolding refines_def by (metis bitWidth_simps(1) bitWidth_abs)

text \<open>The unsigned product overflows when dividing it by a factor does not give the other one.\<close>

lemma umul_overflow:
  assumes x: "wf_rep x" and y: "wf_rep y" and w: "BitWidth x = BitWidth y" and small: "BitWidth x \<le> 128"
  defines "w \<equiv> BitWidth x" and "X \<equiv> ival (abs_apint x)" and "Y \<equiv> ival (abs_apint y)"
  shows "reports (umul_ov x y) (mk_apint w (X * Y)) (2 ^ w \<le> X * Y)"
proof -
  let ?R = "X * Y mod 2 ^ w"
  have lt: "X < 2 ^ w" "Y < 2 ^ w" using wf_repD(3) [OF x] wf_repD(3) [OF y] w by (simp_all add: w_def X_def Y_def)
  obtain a where a: "op_times x y = Some a" "wf_rep a" "abs_apint a = mk_apint w (X * Y)"
    using refines_op_times [OF x y w] small by (auto simp: refines_def ap_mul_def w_def X_def Y_def)
  have wa: "BitWidth a = w" using a(3) by (metis bitWidth_simps(1) bitWidth_abs)
  have R: "ival (abs_apint a) = ?R" by (simp add: a(3) mk_apint_def)
  show ?thesis
  proof (cases "X = 0 \<or> Y = 0")
    case True
    then show ?thesis using a op_eq_u64_value [OF x, of 0] op_eq_u64_value [OF y, of 0]
      by (auto simp: umul_ov_def reports_def X_def Y_def)
  next
    case False
    have dw: "divides_well a y" "divides_well a x" using small wa by (simp_all add: divides_well_def w_def)
    have "refines (udiv a y) (mk_apint w (?R div Y))" "refines (udiv a x) (mk_apint w (?R div X))"
      using refines_udiv_urem(1) [OF a(2) y _ _ dw(1)] refines_udiv_urem(1) [OF a(2) x _ _ dw(2)] False wa w
      by (simp_all add: ap_udiv_def R X_def Y_def w_def)
    then obtain q p where q: "udiv a y = Some q" "wf_rep q" "BitWidth q = w" "abs_apint q = mk_apint w (?R div Y)"
      and p: "udiv a x = Some p" "wf_rep p" "BitWidth p = w" "abs_apint p = mk_apint w (?R div X)"
      by (metis refinesD)
    have le: "?R div d < 2 ^ w" for d by (rule le_less_trans [OF div_le_dividend]) simp
    have e: "op_eq q x = Some (?R div Y = X)" "op_eq p y = Some (?R div X = Y)"
      using op_eq_value [OF q(2) x] op_eq_value [OF p(2) y] q(3,4) p(3,4) w le
      by (simp_all add: w_def mk_apint_def X_def Y_def)
    have "\<not> op_eq_u64 x 0" "\<not> op_eq_u64 y 0"
      using op_eq_u64_value [OF x, of 0] op_eq_u64_value [OF y, of 0] False by (simp_all add: X_def Y_def)
    then have code: "umul_ov x y = Some (a, ?R div Y \<noteq> X \<or> ?R div X \<noteq> Y)"
      by (auto simp: umul_ov_def a(1) q(1) p(1) e)
    have "?R div Y \<noteq> X \<or> ?R div X \<noteq> Y \<longleftrightarrow> 2 ^ w \<le> X * Y"
    proof (cases "X * Y < 2 ^ w")
      case True
      then show ?thesis using False by simp
    next
      case big: False
      have "?R div Y \<noteq> X"
      proof
        assume "?R div Y = X"
        then have "X * Y \<le> ?R" using div_times_less_eq_dividend [of ?R Y] by simp
        moreover have "?R < 2 ^ w" by simp
        ultimately show False using big by linarith
      qed
      with big show ?thesis by simp
    qed
    then show ?thesis unfolding code reports_def using a by simp
  qed
qed

lemma sval_bound_abs: "wf_rep x \<Longrightarrow> \<bar>sval (abs_apint x)\<bar> \<le> 2 ^ (BitWidth x - 1)"
  using sign_bounds(2,3) [of x] by simp

text \<open>The signed product that the two divisions do not notice: the two values are powers of two.\<close>

lemma signed_product_check:
  fixes X Y R H :: int
  assumes H: "1 < H" and X: "- H \<le> X" "X < H" "X \<noteq> 0" and Y: "- H \<le> Y" "Y < H" "Y \<noteq> 0" and R: "- H \<le> R" "R < H"
    and over: "X * Y < - H \<or> H \<le> X * Y"
    and q: "sgn R * sgn Y * (\<bar>R\<bar> div \<bar>Y\<bar>) = X \<or> sgn R * sgn Y * (\<bar>R\<bar> div \<bar>Y\<bar>) = H \<and> X = - H"
    and p: "sgn R * sgn X * (\<bar>R\<bar> div \<bar>X\<bar>) = Y \<or> sgn R * sgn X * (\<bar>R\<bar> div \<bar>X\<bar>) = H \<and> Y = - H"
  shows False
proof -
  have "R \<noteq> 0" using q X(3) H by auto
  have absR: "\<bar>R\<bar> \<le> H" using R by simp
  have magnitude: "\<bar>sgn R * sgn d * (\<bar>R\<bar> div \<bar>d\<bar>)\<bar> = \<bar>R\<bar> div \<bar>d\<bar>" if "d \<noteq> 0" for d
    using that \<open>R \<noteq> 0\<close> by (simp add: abs_mult abs_sgn_eq pos_imp_zdiv_nonneg_iff)
  have XY: "\<bar>X\<bar> * \<bar>Y\<bar> \<le> \<bar>R\<bar>"
  proof -
    have "\<bar>R\<bar> div \<bar>Y\<bar> = \<bar>X\<bar>" using magnitude [OF Y(3)] q H by auto
    moreover have "\<bar>R\<bar> div \<bar>Y\<bar> * \<bar>Y\<bar> \<le> \<bar>R\<bar>"
      using div_mult_mod_eq [of "\<bar>R\<bar>" "\<bar>Y\<bar>"] pos_mod_sign [of "\<bar>Y\<bar>" "\<bar>R\<bar>"] Y(3) by linarith
    ultimately show ?thesis by simp
  qed
  moreover have "H \<le> \<bar>X * Y\<bar>" using over by auto
  ultimately have eq: "\<bar>X * Y\<bar> = H" "\<bar>R\<bar> = H" using absR by (simp_all add: abs_mult)
  then have "R = - H" using R by auto
  have XYH: "X * Y = H" using eq over by auto
  then have "0 < X * Y" using H by simp
  then have same: "sgn X = sgn Y" by (auto simp: zero_less_mult_iff)
  have div: "H div \<bar>Y\<bar> = \<bar>X\<bar>" "H div \<bar>X\<bar> = \<bar>Y\<bar>"
    using eq(1) X(3) Y(3) by (simp_all add: abs_mult flip: eq(1))
  have sR: "sgn R = - 1" using \<open>R = - H\<close> H by simp
  have "- sgn Y * \<bar>X\<bar> = - X" using same by (metis mult_minus_left mult_sgn_abs)
  then have "- X = X \<or> - X = H \<and> X = - H" using q by (simp add: sR eq(2) div(1))
  then have XH: "X = - H" using X(3) by auto
  then have "H * \<bar>Y\<bar> = H * 1" using eq(1) H by (simp add: abs_mult)
  then have "\<bar>Y\<bar> = 1" using H by (simp only: mult_left_cancel)
  then have "Y = - 1" using XYH XH H by (auto simp: abs_if split: if_splits)
  then show False using p H by (simp add: sR eq(2) div(2) XH)
qed

lemma of_sval_eq_iff:
  assumes x: "wf_rep x" and w: "1 < BitWidth x" and i: "\<bar>i\<bar> \<le> 2 ^ (BitWidth x - 1)"
  shows "of_sval (BitWidth x) i = abs_apint x \<longleftrightarrow>
    i = sval (abs_apint x) \<or> i = 2 ^ (BitWidth x - 1) \<and> sval (abs_apint x) = - (2 ^ (BitWidth x - 1))"
proof -
  let ?w = "BitWidth x" and ?s = "sval (abs_apint x)"
  have w0: "0 < ?w" using w by simp
  note h = exp_halves [OF w0, where 'a = int]
  have "(0 :: int) < 2 ^ (?w - 1)" by simp
  then have i': "- (2 ^ ?w) \<le> i" "i < 2 ^ ?w" using i h by linarith+
  have "nat (i mod 2 ^ ?w) < 2 ^ ?w" by (simp add: nat_less_iff)
  then have "wf_apint ?w (of_sval ?w i)" using w0 by (simp add: wf_apint_def of_sval_def)
  from of_sval_sval [OF this] of_sval_sval [OF wf_abs [OF x]]
  have "of_sval ?w i = abs_apint x \<longleftrightarrow> sval (of_sval ?w i) = ?s" by metis
  then show ?thesis unfolding sval_wrap [OF w0 i'] using i h sign_bounds(2,3) [OF x] by (auto simp: abs_le_iff split: if_splits)
qed

lemma sval_eq_0: "wf_rep x \<Longrightarrow> sval (abs_apint x) = 0 \<longleftrightarrow> ival (abs_apint x) = 0"
  using ival_int [of x] by (cases "ival (abs_apint x) = 0") (auto simp: sval_def split: if_splits)

lemma refines_of_svalD: "refines r (of_sval w i) \<Longrightarrow> \<exists>z. r = Some z \<and> wf_rep z \<and> BitWidth z = w \<and> abs_apint z = of_sval w i"
  unfolding refines_def by (metis bitWidth_simps(2) bitWidth_abs)

lemma quotient_bound: "\<bar>sgn a * sgn b * (\<bar>a\<bar> div \<bar>b\<bar>)\<bar> \<le> \<bar>a\<bar>" for a b :: int
proof (cases "a = 0 \<or> b = 0")
  case False
  then have "1 \<le> \<bar>b\<bar>" by linarith
  have "\<bar>a\<bar> div \<bar>b\<bar> \<le> \<bar>a\<bar> div 1" using zdiv_mono2 [of "\<bar>a\<bar>" 1 "\<bar>b\<bar>"] \<open>1 \<le> \<bar>b\<bar>\<close> by simp
  with False show ?thesis by (simp add: abs_mult abs_sgn_eq pos_imp_zdiv_nonneg_iff)
qed auto

lemma smul_overflow:
  assumes x: "wf_rep x" and y: "wf_rep y" and w: "BitWidth x = BitWidth y" and small: "1 < BitWidth x" "BitWidth x \<le> 128"
  defines "w \<equiv> BitWidth x" and "X \<equiv> sval (abs_apint x)" and "Y \<equiv> sval (abs_apint y)"
  shows "reports (smul_ov x y) (of_sval w (X * Y)) (X * Y < - (2 ^ (w - 1)) \<or> 2 ^ (w - 1) \<le> X * Y)"
proof -
  let ?H = "2 ^ (w - 1) :: int" and ?bad = "X * Y < - (2 ^ (w - 1)) \<or> 2 ^ (w - 1) \<le> X * Y"
  have w0: "0 < w" using small by (simp add: w_def)
  have H: "1 < ?H" by (rule one_less_power) (use small in \<open>simp_all add: w_def\<close>)
  note sx = sign_bounds(2,3) [OF x, folded X_def w_def] and sy = sign_bounds(2,3) [OF y, folded Y_def, folded w, folded w_def]
  obtain a where a: "op_times x y = Some a" "wf_rep a" "abs_apint a = of_sval w (X * Y)"
    using refines_op_times [OF x y w] small ap_mul_sval [of "abs_apint x" w "abs_apint y"] w
    by (auto simp: refines_def w_def X_def Y_def)
  have wa: "BitWidth a = w" using a(3) by (metis bitWidth_simps(2) bitWidth_abs)
  define R where "R = sval (abs_apint a)"
  note sr = sign_bounds(2,3) [OF a(2), folded R_def, unfolded wa]
  have zero: "op_eq_u64 x 0 \<longleftrightarrow> X = 0" "op_eq_u64 y 0 \<longleftrightarrow> Y = 0"
    using op_eq_u64_value [OF x, of 0] op_eq_u64_value [OF y, of 0] sval_eq_0 [OF x] sval_eq_0 [OF y]
    by (simp_all add: X_def Y_def)
  show ?thesis
  proof (cases "X = 0 \<or> Y = 0")
    case True
    then have "\<not> ?bad" using H by auto
    moreover have "smul_ov x y = Some (a, False)" using True zero a(1) by (auto simp: smul_ov_def)
    ultimately show ?thesis using a(2,3) by (simp add: reports_def)
  next
    case False
    have nz: "ival (abs_apint x) \<noteq> 0" "ival (abs_apint y) \<noteq> 0"
      using zero False op_eq_u64_value [OF x, of 0] op_eq_u64_value [OF y, of 0] by simp_all
    let ?q = "sgn R * sgn Y * (\<bar>R\<bar> div \<bar>Y\<bar>)" and ?p = "sgn R * sgn X * (\<bar>R\<bar> div \<bar>X\<bar>)"
    have "refines (sdiv a y) (of_sval w ?q)" "refines (sdiv a x) (of_sval w ?p)"
      using refines_sdiv_srem(1) [OF a(2) y _ nz(2)] refines_sdiv_srem(1) [OF a(2) x _ nz(1)] wa w small
      by (simp_all add: R_def X_def Y_def w_def)
    then obtain q p where q: "sdiv a y = Some q" "wf_rep q" "BitWidth q = w" "abs_apint q = of_sval w ?q"
      and p: "sdiv a x = Some p" "wf_rep p" "BitWidth p = w" "abs_apint p = of_sval w ?p"
      by (metis refines_of_svalD)
    have "\<bar>R\<bar> \<le> ?H" using sr by simp
    then have b: "\<bar>?q\<bar> \<le> ?H" "\<bar>?p\<bar> \<le> ?H" using quotient_bound order_trans by blast+
    have wq: "BitWidth q = BitWidth x" "BitWidth p = BitWidth y" using q(3) p(3) w by (simp_all add: w_def)
    have small': "1 < BitWidth y" using small(1) w by simp
    have e: "op_eq q x = Some (?q = X \<or> ?q = ?H \<and> X = - ?H)" "op_eq p y = Some (?p = Y \<or> ?p = ?H \<and> Y = - ?H)"
      unfolding compare_values(1) [OF q(2) x wq(1)] compare_values(1) [OF p(2) y wq(2)] q(4) p(4)
        of_sval_eq_iff [OF x small(1), folded w_def X_def, OF b(1)]
        of_sval_eq_iff [OF y small', folded w, folded w_def Y_def, OF b(2)] by (rule refl)+
    define A B where "A \<longleftrightarrow> ?q = X \<or> ?q = ?H \<and> X = - ?H" and "B \<longleftrightarrow> ?p = Y \<or> ?p = ?H \<and> Y = - ?H"
    have code: "smul_ov x y = Some (a, \<not> A \<or> \<not> B)"
      using False zero e [folded A_def B_def] by (auto simp: smul_ov_def a(1) q(1) p(1))
    have "\<not> A \<or> \<not> B \<longleftrightarrow> ?bad"
    proof (cases ?bad)
      case True
      have "X \<noteq> 0" "Y \<noteq> 0" using False by auto
      have "\<not> (A \<and> B)"
        using signed_product_check [OF H sx \<open>X \<noteq> 0\<close> sy \<open>Y \<noteq> 0\<close> sr True, folded A_def B_def] by blast
      with True show ?thesis by simp
    next
      case ok: False
      then have "R = X * Y" unfolding R_def a(3) by (intro sval_of_sval(1) [OF w0]) auto
      then have "?q = X" "?p = Y" using False by (simp_all add: sgn_mult abs_mult mult.assoc mult_sgn_abs mult.commute [of _ "sgn X"])
      then have A B by (simp_all add: A_def B_def)
      with ok show ?thesis by simp
    qed
    then show ?thesis unfolding code reports_def using a(2,3) by simp
  qed
qed

section \<open>Quotient and remainder at once\<close>

text \<open>With result objects of the width of the operands, \<open>udivrem\<close> stores the results of \<open>udiv\<close> and \<open>urem\<close>.\<close>

lemma refines_udivrem:
  assumes x: "wf_rep x" and y: "wf_rep y" and w: "BitWidth x = BitWidth y"
    and Y: "ival (abs_apint y) \<noteq> 0" and good: "divides_well x y"
    and q: "wf_rep q" "BitWidth q = BitWidth x" and r: "wf_rep r" "BitWidth r = BitWidth x"
  shows "refines (map_option fst (udivrem x y q r)) (ap_udiv (abs_apint x) (abs_apint y)) \<and>
    refines (map_option snd (udivrem x y q r)) (ap_urem (abs_apint x) (abs_apint y))"
proof -
  let ?X = "ival (abs_apint x)" and ?Y = "ival (abs_apint y)" and ?w = "BitWidth x" and ?l = "activeWords x" and ?r = "activeWords y"
  note w0 = wf_repD(1) [OF x]
  note u = refines_udiv_urem [OF x y w Y good]
  show ?thesis
  proof (cases "isSingleWord x")
    case True
    then show ?thesis using u w by (simp add: udivrem_def udiv_def urem_def split: if_splits)
  next
    case False
    note ult = ult_value [OF x y w] and eq = op_eq_value [OF x y w]
    have r0: "?r \<noteq> 0" using activeWords_value(1) [OF y] Y by simp
    have as: "refines (Some (assign_u64 q v)) (mk_apint ?w (unat v))" "refines (Some (assign_u64 r v)) (mk_apint ?w (unat v))" for v
      using assign_u64_value [OF q(1), of v] assign_u64_value [OF r(1), of v] q(2) r(2) by simp_all
    consider (zero) "?l = 0" | (less) "?l \<noteq> 0" "?X < ?Y" | (equal) "?l \<noteq> 0" "?X = ?Y" | (greater) "?l \<noteq> 0" "?Y < ?X" by linarith
    then show ?thesis
    proof cases
      case zero
      then have "?X = 0" using activeWords_value(1) [OF x] by simp
      then show ?thesis using as [of 0] zero False w by (simp add: udivrem_def Let_def ap_udiv_def ap_urem_def)
    next
      case less
      then show ?thesis using as(1) [of 0] x abs_mk [OF x] False w ult by (simp add: udivrem_def Let_def ap_udiv_def ap_urem_def)
    next
      case equal
      then have "\<not> ?l < ?r" using active_less [OF x y] by auto
      then show ?thesis using as(1) [of 1] as(2) [of 0] equal Y False w ult eq
        by (simp add: udivrem_def Let_def ap_udiv_def ap_urem_def)
    next
      case greater
      then have rl: "?r \<le> ?l" using active_less [OF x y] by (meson not_le less_asym)
      show ?thesis
      proof (cases "?l = 1")
        case True
        then have r1: "?r = 1" using rl r0 by simp
        from u show ?thesis using True r1 greater False w ult eq by (simp add: udivrem_def udiv_def urem_def Let_def)
      next
        case more: False
        then have "udivrem x y q r = divide x ?l y ?r" using greater rl False w ult eq by (simp add: udivrem_def Let_def)
        then show ?thesis using divide_value [OF x y w False _ _ good] Y greater by simp
      qed
    qed
  qed
qed

section \<open>Properties\<close>

text \<open>C7: Multiplication implements multiplication modulo \<open>2 ^ width\<close> for every width up to 128 bits, and above that whenever
  the first factor is below \<open>2 ^ 64\<close> or the second below \<open>2 ^ 32\<close>: the schoolbook loops with the carry that is tested for
  only partly, the buffer of the size of the active words, and its copy into the result. Operands of different widths
  fail the assertion.\<close>

theorem APInt_multiply:
  assumes "wf_rep x" and "wf_rep y"
    and "BitWidth x \<le> 128 \<or> ival (abs_apint x) < 2 ^ 64 \<or> ival (abs_apint y) < 2 ^ 32"
  shows "if BitWidth x = BitWidth y
    then refines (times_assign x y) (ap_mul (abs_apint x) (abs_apint y)) \<and> refines (op_times x y) (ap_mul (abs_apint x) (abs_apint y))
    else times_assign x y = None \<and> op_times x y = None"
  using refines_times_assign [OF assms(1,2) _ assms(3)] refines_op_times [OF assms(1,2) _ assms(3)]
  by (simp add: times_assign_def op_times_def)

theorem APInt_multiply_witness:
  "refines (op_times \<lparr>BitWidth = 128, pVal = [11, 5]\<rparr> \<lparr>BitWidth = 128, pVal = [7, 9]\<rparr>)
    (ap_mul (abs_apint \<lparr>BitWidth = 128, pVal = [11, 5]\<rparr>) (abs_apint \<lparr>BitWidth = 128, pVal = [7, 9]\<rparr>))"
  using APInt_multiply [of "\<lparr>BitWidth = 128, pVal = [11, 5]\<rparr>" "\<lparr>BitWidth = 128, pVal = [7, 9]\<rparr>"]
  by (simp add: wf_rep_def getNumWords_def two_words bval_pair)

text \<open>C3: Division implements quotient and remainder: for every width up to 128 bits, and above that whenever the divisor
  is below \<open>2 ^ 64\<close> or the quotient below \<open>2 ^ 32\<close>, the unsigned operators (and \<open>udivrem\<close>, given result objects of the width
  of the operands) return the quotient and the remainder, and no assertion fails. The signed operators truncate towards
  zero, modulo the width, under the same conditions on the magnitudes.\<close>

theorem APInt_divide:
  fixes x y q r :: APInt
  defines "X \<equiv> sval (abs_apint x)" and "Y \<equiv> sval (abs_apint y)"
  assumes "wf_rep x" and "wf_rep y" and "BitWidth x = BitWidth y" and "ival (abs_apint y) \<noteq> 0"
    and "divides_well x y" and "BitWidth x \<le> 128 \<or> \<bar>Y\<bar> < 2 ^ 64 \<or> \<bar>X\<bar> < 2 ^ 32 * \<bar>Y\<bar>"
    and "wf_rep q" and "BitWidth q = BitWidth x" and "wf_rep r" and "BitWidth r = BitWidth x"
  shows "refines (udiv x y) (ap_udiv (abs_apint x) (abs_apint y)) \<and> refines (urem x y) (ap_urem (abs_apint x) (abs_apint y)) \<and>
    refines (map_option fst (udivrem x y q r)) (ap_udiv (abs_apint x) (abs_apint y)) \<and>
    refines (map_option snd (udivrem x y q r)) (ap_urem (abs_apint x) (abs_apint y)) \<and>
    refines (sdiv x y) (of_sval (BitWidth x) (sgn X * sgn Y * (\<bar>X\<bar> div \<bar>Y\<bar>))) \<and>
    refines (srem x y) (of_sval (BitWidth x) (sgn X * (\<bar>X\<bar> mod \<bar>Y\<bar>)))"
  using refines_udiv_urem [OF assms(3-7)] refines_udivrem [OF assms(3-7,9-12)]
    refines_sdiv_srem [OF assms(3-6), folded X_def Y_def, OF assms(8)] by simp

theorem APInt_divide_witness:
  "refines (udiv \<lparr>BitWidth = 128, pVal = [3, 5]\<rparr> \<lparr>BitWidth = 128, pVal = [7, 1]\<rparr>)
    (ap_udiv (abs_apint \<lparr>BitWidth = 128, pVal = [3, 5]\<rparr>) (abs_apint \<lparr>BitWidth = 128, pVal = [7, 1]\<rparr>))"
  using APInt_divide [of "\<lparr>BitWidth = 128, pVal = [3, 5]\<rparr>" "\<lparr>BitWidth = 128, pVal = [7, 1]\<rparr>"
      "\<lparr>BitWidth = 128, pVal = [0, 0]\<rparr>" "\<lparr>BitWidth = 128, pVal = [0, 0]\<rparr>"]
  by (simp add: wf_rep_def getNumWords_def two_words bval_pair divides_well_def abs_apint_def)

text \<open>The results that the code computes for the two counterexamples.\<close>

lemma wrong_results:
  "op_times \<lparr>BitWidth = 192, pVal = [0xFFFFFFFFFFFFFFFF, 0xFFFFFFFFFFFFFFFE, 0]\<rparr> \<lparr>BitWidth = 192, pVal = [0x80000001FFFFFFFF, 0, 0]\<rparr> =
    Some \<lparr>BitWidth = 192, pVal = [0x7FFFFFFE00000001, 0x7FFFFFFE00000000, 0x80000000FFFFFFFE]\<rparr>"
  "udiv \<lparr>BitWidth = 192, pVal = [0x0000000300000003, 0x8000000080000001, 0x00000000ffffffff]\<rparr>
      \<lparr>BitWidth = 192, pVal = [0x0000000080000001, 0x80000000, 0]\<rparr> =
    Some \<lparr>BitWidth = 192, pVal = [0xFFFFFFFEFFFFFFFF, 1, 0]\<rparr>"
  by code_simp+

lemma three_words: "getNumWords 192 = 3"
  "abs_apint \<lparr>BitWidth = 192, pVal = [a, b, c]\<rparr> = \<lparr>bitWidth = 192, ival = unat a + unat b * 2 ^ 64 + unat c * 2 ^ 128\<rparr>"
  by (simp_all add: getNumWords_def abs_apint_def bval_Suc numeral_3_eq_3)

lemma counterexample_wf:
  "wf_rep \<lparr>BitWidth = 192, pVal = [0xFFFFFFFFFFFFFFFF, 0xFFFFFFFFFFFFFFFE, 0]\<rparr>"
  "wf_rep \<lparr>BitWidth = 192, pVal = [0x80000001FFFFFFFF, 0, 0]\<rparr>"
  "wf_rep \<lparr>BitWidth = 192, pVal = [0x0000000300000003, 0x8000000080000001, 0x00000000ffffffff]\<rparr>"
  "wf_rep \<lparr>BitWidth = 192, pVal = [0x0000000080000001, 0x80000000, 0]\<rparr>"
  "wf_rep \<lparr>BitWidth = 192, pVal = [0x7FFFFFFE00000001, 0x7FFFFFFE00000000, 0x80000000FFFFFFFE]\<rparr>"
  "wf_rep \<lparr>BitWidth = 192, pVal = [0xFFFFFFFEFFFFFFFF, 1, 0]\<rparr>"
  by (simp_all add: wf_rep_def getNumWords_def bval_Suc numeral_3_eq_3)

lemma counterexample_values:
  "abs_apint \<lparr>BitWidth = 192, pVal = [0xFFFFFFFFFFFFFFFF, 0xFFFFFFFFFFFFFFFE, 0]\<rparr> =
    \<lparr>bitWidth = 192, ival = 0xFFFFFFFFFFFFFFFEFFFFFFFFFFFFFFFF\<rparr>"
  "abs_apint \<lparr>BitWidth = 192, pVal = [0x80000001FFFFFFFF, 0, 0]\<rparr> =
    \<lparr>bitWidth = 192, ival = 0x80000001FFFFFFFF\<rparr>"
  "abs_apint \<lparr>BitWidth = 192, pVal = [0x0000000300000003, 0x8000000080000001, 0x00000000ffffffff]\<rparr> =
    \<lparr>bitWidth = 192, ival = 0xFFFFFFFF80000000800000010000000300000003\<rparr>"
  "abs_apint \<lparr>BitWidth = 192, pVal = [0x0000000080000001, 0x80000000, 0]\<rparr> =
    \<lparr>bitWidth = 192, ival = 0x800000000000000080000001\<rparr>"
  "abs_apint \<lparr>BitWidth = 192, pVal = [0x7FFFFFFE00000001, 0x7FFFFFFE00000000, 0x80000000FFFFFFFE]\<rparr> =
    \<lparr>bitWidth = 192, ival = 0x80000000FFFFFFFE7FFFFFFE000000007FFFFFFE00000001\<rparr>"
  "abs_apint \<lparr>BitWidth = 192, pVal = [0xFFFFFFFEFFFFFFFF, 1, 0]\<rparr> =
    \<lparr>bitWidth = 192, ival = 0x1FFFFFFFEFFFFFFFF\<rparr>"
  by (simp_all add: three_words)

text \<open>C10: Above 128 bits the two algorithms are wrong. The multiplication loses a carry: it tests the middle sum of the
  halves only for the value zero, not for having wrapped around. The division takes the borrow of a trial digit that is
  one too large through all digits up to the top, but adds the divisor back only within the window, so the next digit
  that is too large is not noticed.\<close>

theorem APInt_lost_carries:
  "(let x = \<lparr>BitWidth = 192, pVal = [0xFFFFFFFFFFFFFFFF, 0xFFFFFFFFFFFFFFFE, 0]\<rparr>; y = \<lparr>BitWidth = 192, pVal = [0x80000001FFFFFFFF, 0, 0]\<rparr>
    in wf_rep x \<and> wf_rep y \<and>
      (case op_times x y of None \<Rightarrow> False | Some z \<Rightarrow> wf_rep z \<and> abs_apint z \<noteq> ap_mul (abs_apint x) (abs_apint y))) \<and>
   (let x = \<lparr>BitWidth = 192, pVal = [0x0000000300000003, 0x8000000080000001, 0x00000000ffffffff]\<rparr>;
        y = \<lparr>BitWidth = 192, pVal = [0x0000000080000001, 0x80000000, 0]\<rparr>
    in wf_rep x \<and> wf_rep y \<and>
      (case udiv x y of None \<Rightarrow> False | Some z \<Rightarrow> wf_rep z \<and> abs_apint z \<noteq> ap_udiv (abs_apint x) (abs_apint y)))"
  unfolding Let_def wrong_results option.case
  by (simp only: counterexample_wf counterexample_values ap_mul_def ap_udiv_def mk_apint_def apint.simps simp_thms) simp

text \<open>C12: The overflow tests are exact: with the wrapped result they report a sum or difference that the width cannot
  represent, signed (\<open>sadd_ov\<close>, \<open>ssub_ov\<close>) and unsigned (\<open>uadd_ov\<close>, \<open>usub_ov\<close>), at every width; and a product
  (\<open>umul_ov\<close>, \<open>smul_ov\<close>) at widths up to 128 bits, where the multiplication and the division they rest on are right,
  the signed one from two bits on.\<close>

theorem APInt_overflow:
  fixes x y :: APInt
  defines "w \<equiv> BitWidth x" and "X \<equiv> sval (abs_apint x)" and "Y \<equiv> sval (abs_apint y)"
    and "A \<equiv> ival (abs_apint x)" and "B \<equiv> ival (abs_apint y)"
    and "fits \<equiv> \<lambda>i. - (2 ^ (BitWidth x - 1)) \<le> i \<and> i < (2 :: int) ^ (BitWidth x - 1)"
  assumes "wf_rep x" and "wf_rep y" and "BitWidth x = BitWidth y"
  shows "reports (sadd_ov x y) (of_sval w (X + Y)) (\<not> fits (X + Y)) \<and> reports (ssub_ov x y) (of_sval w (X - Y)) (\<not> fits (X - Y)) \<and>
    reports (uadd_ov x y) (mk_apint w (A + B)) (2 ^ w \<le> A + B) \<and> reports (usub_ov x y) (of_sval w (int A - int B)) (A < B) \<and>
    (w \<le> 128 \<longrightarrow> reports (umul_ov x y) (mk_apint w (A * B)) (2 ^ w \<le> A * B)) \<and>
    (1 < w \<and> w \<le> 128 \<longrightarrow> reports (smul_ov x y) (of_sval w (X * Y)) (\<not> fits (X * Y)))"
  using signed_overflow [OF assms(7-9)] smul_overflow [OF assms(7-9)] unsigned_overflow [OF assms(7-9)] umul_overflow [OF assms(7-9)]
  unfolding fits_def X_def Y_def A_def B_def w_def by (simp add: not_le not_less)

theorem APInt_overflow_witness:
  "reports (smul_ov \<lparr>BitWidth = 8, pVal = [0x80]\<rparr> \<lparr>BitWidth = 8, pVal = [0xFF]\<rparr>) (of_sval 8 128) True \<and>
   reports (sadd_ov \<lparr>BitWidth = 8, pVal = [0x80]\<rparr> \<lparr>BitWidth = 8, pVal = [0xFF]\<rparr>) (of_sval 8 (- 129)) True"
  using APInt_overflow [of "\<lparr>BitWidth = 8, pVal = [0x80]\<rparr>" "\<lparr>BitWidth = 8, pVal = [0xFF]\<rparr>"]
  by (simp add: wf_rep_def getNumWords_def bval_single abs_apint_def sval_def)

end
