(* ===== verification/ConstantRange.thy ===== *)
theory ConstantRange
  imports APIntDiv
begin

text \<open>
  \<open>lib/IR/ConstantRange.cpp\<close>: sets of integers of one width, written as an interval
  \<open>[Lower, Upper)\<close> that may wrap around. Here the data, the constructors, the queries, the
  lattice operations and the transfer functions.

  \<open>elems\<close> is the set a range stands for. \<open>wf_range\<close> is the condition the constructor asserts: equal
  widths, and \<open>Lower = Upper\<close> only for the full and the empty set.
\<close>

record crange =
  Lower :: apint
  Upper :: apint

section \<open>Constructors and queries\<close>

definition CR :: "apint \<Rightarrow> apint \<Rightarrow> crange" where
  "CR L U = \<lparr>Lower = L, Upper = U\<rparr>"

definition CR_set :: "nat \<Rightarrow> bool \<Rightarrow> crange" where
  "CR_set w Full = (if Full then CR (getMaxValue w) (getMaxValue w) else CR (getMinValue w) (getMinValue w))"

definition CR_single :: "apint \<Rightarrow> crange" where
  "CR_single V = CR V (ap_inc V)"

definition getBitWidth :: "crange \<Rightarrow> nat" where
  "getBitWidth r = bitWidth (Lower r)"

definition isFullSet :: "crange \<Rightarrow> bool" where
  "isFullSet r \<longleftrightarrow> Lower r = Upper r \<and> isMaxValue (Lower r)"

definition isEmptySet :: "crange \<Rightarrow> bool" where
  "isEmptySet r \<longleftrightarrow> Lower r = Upper r \<and> isMinValue (Lower r)"

definition isWrappedSet :: "crange \<Rightarrow> bool" where
  "isWrappedSet r \<longleftrightarrow> ugt (Lower r) (Upper r)"

definition cr_contains :: "crange \<Rightarrow> apint \<Rightarrow> bool" where
  "cr_contains r V =
     (if Lower r = Upper r then isFullSet r
      else if \<not> isWrappedSet r then ule (Lower r) V \<and> ult V (Upper r)
      else ule (Lower r) V \<or> ult V (Upper r))"

definition isSignWrappedSet :: "crange \<Rightarrow> bool" where
  "isSignWrappedSet r \<longleftrightarrow> cr_contains r (getSignedMaxValue (getBitWidth r)) \<and>
     cr_contains r (getSignedMinValue (getBitWidth r))"

text \<open>The size has one bit more than the elements.\<close>

definition getSetSize :: "crange \<Rightarrow> apint" where
  "getSetSize r =
     (if isFullSet r then mk_apint (getBitWidth r + 1) (2 ^ getBitWidth r)
      else ap_zext (ap_sub (Upper r) (Lower r)) (getBitWidth r + 1))"

definition getUnsignedMax :: "crange \<Rightarrow> apint" where
  "getUnsignedMax r =
     (if isFullSet r \<or> isWrappedSet r then getMaxValue (getBitWidth r) else ap_dec (Upper r))"

definition getUnsignedMin :: "crange \<Rightarrow> apint" where
  "getUnsignedMin r =
     (if isFullSet r \<or> (isWrappedSet r \<and> ival (Upper r) \<noteq> 0) then getMinValue (getBitWidth r) else Lower r)"

definition getSignedMax :: "crange \<Rightarrow> apint" where
  "getSignedMax r =
     (let SignedMax = getSignedMaxValue (getBitWidth r) in
      if \<not> isWrappedSet r then
        (if sle (Lower r) (ap_dec (Upper r)) then ap_dec (Upper r) else SignedMax)
      else if isNegative (Lower r) = isNegative (Upper r) then SignedMax
      else ap_dec (Upper r))"

definition getSignedMin :: "crange \<Rightarrow> apint" where
  "getSignedMin r =
     (let SignedMin = getSignedMinValue (getBitWidth r) in
      if \<not> isWrappedSet r then
        (if sle (Lower r) (ap_dec (Upper r)) then Lower r else SignedMin)
      else if slt (ap_dec (Upper r)) (Lower r) \<and> Upper r \<noteq> SignedMin then SignedMin
      else Lower r)"

definition isSingleElement :: "crange \<Rightarrow> bool" where
  "isSingleElement r \<longleftrightarrow> Upper r = ap_inc (Lower r)"

definition cr_contains_range :: "crange \<Rightarrow> crange \<Rightarrow> bool" where
  "cr_contains_range r Other =
     (if isFullSet r \<or> isEmptySet Other then True
      else if isEmptySet r \<or> isFullSet Other then False
      else if \<not> isWrappedSet r then
        (if isWrappedSet Other then False
         else ule (Lower r) (Lower Other) \<and> ule (Upper Other) (Upper r))
      else if \<not> isWrappedSet Other then
        ule (Upper Other) (Upper r) \<or> ule (Lower r) (Lower Other)
      else ule (Upper Other) (Upper r) \<and> ule (Lower r) (Lower Other))"

definition cr_subtract :: "crange \<Rightarrow> apint \<Rightarrow> crange" where
  "cr_subtract r Val = (if Lower r = Upper r then r else CR (ap_sub (Lower r) Val) (ap_sub (Upper r) Val))"

definition cr_inverse :: "crange \<Rightarrow> crange" where
  "cr_inverse r =
     (if isFullSet r then CR_set (getBitWidth r) False
      else if isEmptySet r then CR_set (getBitWidth r) True
      else CR (Upper r) (Lower r))"

section \<open>Intersection and union\<close>

text \<open>Both operations call themselves once, with the arguments exchanged, when only the second range
  is wrapped; the cases below are the body after that.\<close>

definition intersect_cases :: "crange \<Rightarrow> crange \<Rightarrow> crange" where
  "intersect_cases r s =
     (let w = getBitWidth r;
          smaller = (if ult (getSetSize r) (getSetSize s) then r else s)
      in
      if \<not> isWrappedSet r \<and> \<not> isWrappedSet s then
        (if ult (Lower r) (Lower s) then
           (if ule (Upper r) (Lower s) then CR_set w False
            else if ult (Upper r) (Upper s) then CR (Lower s) (Upper r)
            else s)
         else if ult (Upper r) (Upper s) then r
         else if ult (Lower r) (Upper s) then CR (Lower r) (Upper s)
         else CR_set w False)
      else if isWrappedSet r \<and> \<not> isWrappedSet s then
        (if ult (Lower s) (Upper r) then
           (if ult (Upper s) (Upper r) then s
            else if ule (Upper s) (Lower r) then CR (Lower s) (Upper r)
            else smaller)
         else if ult (Lower s) (Lower r) then
           (if ule (Upper s) (Lower r) then CR_set w False else CR (Lower r) (Upper s))
         else s)
      else if ult (Upper s) (Upper r) then
        (if ult (Lower s) (Upper r) then smaller
         else if ult (Lower s) (Lower r) then CR (Lower r) (Upper s)
         else s)
      else if ule (Upper s) (Lower r) then
        (if ult (Lower s) (Lower r) then r else CR (Lower s) (Upper r))
      else smaller)"

definition intersectWith :: "crange \<Rightarrow> crange \<Rightarrow> crange" where
  "intersectWith r s =
     (if isEmptySet r \<or> isFullSet s then r
      else if isEmptySet s \<or> isFullSet r then s
      else if \<not> isWrappedSet r \<and> isWrappedSet s then intersect_cases s r
      else intersect_cases r s)"

definition bridge :: "crange \<Rightarrow> crange \<Rightarrow> crange" where
  "bridge r s =
     (let d1 = ap_sub (Lower s) (Upper r); d2 = ap_sub (Lower r) (Upper s)
      in if ult d1 d2 then CR (Lower r) (Upper s) else CR (Lower s) (Upper r))"

definition union_cases :: "crange \<Rightarrow> crange \<Rightarrow> crange" where
  "union_cases r s =
     (let w = getBitWidth r in
      if \<not> isWrappedSet r \<and> \<not> isWrappedSet s then
        (if ult (Upper s) (Lower r) \<or> ult (Upper r) (Lower s) then bridge r s
         else
           let L = (if ult (Lower s) (Lower r) then Lower s else Lower r);
               U = (if ugt (ap_dec (Upper s)) (ap_dec (Upper r)) then Upper s else Upper r)
           in if ival L = 0 \<and> ival U = 0 then CR_set w True else CR L U)
      else if \<not> isWrappedSet s then
        (if ule (Upper s) (Upper r) \<or> uge (Lower s) (Lower r) then r
         else if ule (Lower s) (Upper r) \<and> ule (Lower r) (Upper s) then CR_set w True
         else if ule (Upper r) (Lower s) \<and> ule (Upper s) (Lower r) then bridge r s
         else if ult (Upper r) (Lower s) \<and> ult (Lower r) (Upper s) then CR (Lower s) (Upper r)
         else CR (Lower r) (Upper s))
      else if ule (Lower s) (Upper r) \<or> ule (Lower r) (Upper s) then CR_set w True
      else
        let L = Lower r; U = Upper r;
            U = (if ugt (Upper s) U then Upper s else U);
            L = (if ult (Lower s) L then Lower s else L)
        in CR L U)"

definition unionWith :: "crange \<Rightarrow> crange \<Rightarrow> crange" where
  "unionWith r s =
     (if isFullSet r \<or> isEmptySet s then r
      else if isFullSet s \<or> isEmptySet r then s
      else if \<not> isWrappedSet r \<and> isWrappedSet s then union_cases s r
      else union_cases r s)"

definition cr_difference :: "crange \<Rightarrow> crange \<Rightarrow> crange" where
  "cr_difference r s = intersectWith r (cr_inverse s)"

section \<open>Well-formed ranges and their elements\<close>

definition wf_range :: "nat \<Rightarrow> crange \<Rightarrow> bool" where
  "wf_range w r \<longleftrightarrow> wf_apint w (Lower r) \<and> wf_apint w (Upper r) \<and>
     (Lower r = Upper r \<longrightarrow> isMaxValue (Lower r) \<or> isMinValue (Lower r))"

definition elems :: "crange \<Rightarrow> nat set" where
  "elems r = {v. v < 2 ^ getBitWidth r \<and> cr_contains r (mk_apint (getBitWidth r) v)}"

text \<open>Intervals of numbers below \<open>m\<close>: \<open>l = u\<close> is the full set at \<open>m - 1\<close> and the empty one at 0.\<close>

definition arc :: "nat \<Rightarrow> nat \<Rightarrow> nat \<Rightarrow> nat set" where
  "arc m l u = {v. v < m \<and> (if l = u then l = m - 1 else if l < u then l \<le> v \<and> v < u else l \<le> v \<or> v < u)}"

definition arc_ok :: "nat \<Rightarrow> nat \<Rightarrow> nat \<Rightarrow> bool" where
  "arc_ok m l u \<longleftrightarrow> 1 < m \<and> l < m \<and> u < m \<and> (l = u \<longrightarrow> l = m - 1 \<or> l = 0)"

definition mk_range :: "nat \<Rightarrow> nat \<Rightarrow> nat \<Rightarrow> crange" where
  "mk_range w l u = CR \<lparr>bitWidth = w, ival = l\<rparr> \<lparr>bitWidth = w, ival = u\<rparr>"

lemma mk_range_sel [simp]:
  "bitWidth (Lower (mk_range w l u)) = w" "bitWidth (Upper (mk_range w l u)) = w"
  "ival (Lower (mk_range w l u)) = l" "ival (Upper (mk_range w l u)) = u"
  "getBitWidth (mk_range w l u) = w"
  by (simp_all add: mk_range_def CR_def getBitWidth_def)

lemma CR_sel [simp]: "Lower (CR l u) = l" "Upper (CR l u) = u"
  by (simp_all add: CR_def)

lemma CR_mk_range: "bitWidth l = w \<Longrightarrow> bitWidth u = w \<Longrightarrow> CR l u = mk_range w (ival l) (ival u)"
  by (cases l; cases u) (simp add: mk_range_def)

lemma wf_mk_range: "wf_range w (mk_range w' l u) \<longleftrightarrow> w' = w \<and> 0 < w \<and> arc_ok (2 ^ w) l u"
  using one_less_exp [of w]
  by (auto simp: wf_range_def wf_apint_def arc_ok_def isMaxValue_def isMinValue_def apint_eq_iff ival_consts)

lemma wf_range_cases:
  assumes "wf_range w r"
  obtains l u where "r = mk_range w l u" and "0 < w" and "arc_ok (2 ^ w) l u"
proof -
  have "bitWidth (Lower r) = w" "bitWidth (Upper r) = w"
    using assms by (simp_all add: wf_range_def wf_apint_def)
  then have r: "r = mk_range w (ival (Lower r)) (ival (Upper r))"
    by (simp add: mk_range_def CR_def)
  with assms have "0 < w \<and> arc_ok (2 ^ w) (ival (Lower r)) (ival (Upper r))"
    using wf_mk_range [of w w "ival (Lower r)" "ival (Upper r)"] by simp
  with r that show thesis by blast
qed

text \<open>The queries on a range given by its two numbers.\<close>

lemma queries:
  "isFullSet (mk_range w l u) \<longleftrightarrow> l = u \<and> l = 2 ^ w - 1"
  "isEmptySet (mk_range w l u) \<longleftrightarrow> l = u \<and> l = 0"
  "isWrappedSet (mk_range w l u) \<longleftrightarrow> u < l"
  "CR_set w True = mk_range w (2 ^ w - 1) (2 ^ w - 1)" "CR_set w False = mk_range w 0 0"
  "(mk_range w l u = mk_range w l' u') \<longleftrightarrow> l = l' \<and> u = u'"
  by (auto simp: isFullSet_def isEmptySet_def isWrappedSet_def isMaxValue_def isMinValue_def ugt_def
      apint_eq_iff ival_consts CR_set_def CR_mk_range mk_range_def CR_def)

lemma elems_mk_range: "arc_ok (2 ^ w) l u \<Longrightarrow> elems (mk_range w l u) = arc (2 ^ w) l u"
  by (auto simp: elems_def cr_contains_def arc_def arc_ok_def queries ule_def ult_def apint_eq_iff)

lemma elems_less: "wf_range w r \<Longrightarrow> v \<in> elems r \<Longrightarrow> v < 2 ^ w"
  by (auto simp: elems_def wf_range_def wf_apint_def getBitWidth_def)

lemma elems_contains:
  assumes "wf_range w r" and "wf_apint w v"
  shows "cr_contains r v \<longleftrightarrow> ival v \<in> elems r"
  using assms by (auto simp: elems_def wf_range_def wf_apint_def getBitWidth_def)

section \<open>Size\<close>

definition arc_size :: "nat \<Rightarrow> nat \<Rightarrow> nat \<Rightarrow> nat" where
  "arc_size m l u = (if l = u \<and> l = m - 1 then m else if l \<le> u then u - l else u + m - l)"

lemma card_arc:
  assumes "arc_ok m l u"
  shows "card (arc m l u) = arc_size m l u" and "finite (arc m l u)"
proof -
  show "finite (arc m l u)" by (simp add: arc_def)
  consider "l = u" "l = m - 1" | "l = u" "l = 0" | "l < u" | "u < l"
    using assms unfolding arc_ok_def by (metis nat_neq_iff)
  then show "card (arc m l u) = arc_size m l u"
  proof cases
    case 1
    then have "arc m l u = {..<m}" by (auto simp: arc_def)
    with 1 show ?thesis by (simp add: arc_size_def)
  next
    case 2
    then have "arc m l u = {}" using assms by (auto simp: arc_def arc_ok_def)
    with 2 assms show ?thesis by (simp add: arc_size_def arc_ok_def)
  next
    case 3
    then have "arc m l u = {l..<u}" using assms by (auto simp: arc_def arc_ok_def)
    with 3 show ?thesis by (simp add: arc_size_def)
  next
    case 4
    then have "arc m l u = {l..<m} \<union> {..<u}" using assms by (auto simp: arc_def arc_ok_def)
    moreover have "card ({l..<m} \<union> {..<u}) = (m - l) + u"
      by (subst card_Un_disjoint) (use 4 in auto)
    ultimately show ?thesis using 4 assms by (simp add: arc_size_def arc_ok_def)
  qed
qed

lemma ival_getSetSize:
  assumes "arc_ok (2 ^ w) l u" and "0 < w"
  shows "ival (getSetSize (mk_range w l u)) = arc_size (2 ^ w) l u"
proof -
  have "wf_apint w (Upper (mk_range w l u))" "wf_apint w (Lower (mk_range w l u))"
    using assms by (simp_all add: wf_apint_def arc_ok_def)
  from ival_sub [OF this] assms show ?thesis
    by (auto simp: getSetSize_def queries ap_zext_def arc_size_def arc_ok_def)
qed

lemma getSetSize_card: "wf_range w r \<Longrightarrow> ival (getSetSize r) = card (elems r)"
  by (auto elim!: wf_range_cases simp: ival_getSetSize elems_mk_range card_arc)

text \<open>
  The transfer functions of \<open>ConstantRange\<close>: for an operation on integers, a range that holds every
  result of applying it to elements of the argument ranges. Widths are in bits; the source asserts
  that an extension goes to a larger and a truncation to a smaller width.
\<close>

section \<open>Multiplication and division\<close>

text \<open>The operators of \<open>APInt\<close> that a range uses meet the specification \<open>APIntSpec\<close> at every width, except the
  multiplication and the division, which lose carries above 128 bits. So these are the word-level routines
  themselves, applied to the words of the operands. The widths of the operands agree and no divisor is zero in
  the calls below, so no assertion fails.\<close>

definition rep_apint :: "apint \<Rightarrow> APInt" where
  "rep_apint a = \<lparr>BitWidth = bitWidth a,
     pVal = map (\<lambda>i. of_nat (drop_bit (64 * i) (ival a))) [0..<getNumWords (bitWidth a)]\<rparr>"

definition APInt_mul :: "apint \<Rightarrow> apint \<Rightarrow> apint" where
  "APInt_mul a b = abs_apint (the (op_times (rep_apint a) (rep_apint b)))"

definition APInt_udiv :: "apint \<Rightarrow> apint \<Rightarrow> apint" where
  "APInt_udiv a b = abs_apint (the (udiv (rep_apint a) (rep_apint b)))"

definition APInt_urem :: "apint \<Rightarrow> apint \<Rightarrow> apint" where
  "APInt_urem a b = abs_apint (the (urem (rep_apint a) (rep_apint b)))"

lemma rep_apint:
  assumes "wf_apint w a"
  shows "wf_rep (rep_apint a)" and "abs_apint (rep_apint a) = a" and "BitWidth (rep_apint a) = w"
proof -
  let ?p = "pVal (rep_apint a)" and ?n = "getNumWords w"
  have w: "bitWidth a = w" "0 < w" "ival a < 2 ^ w" using assms by (simp_all add: wf_apint_def)
  have "bval ?p ?n = ival a mod 2 ^ (64 * ?n)"
  proof (rule bit_eqI)
    fix k
    have "k div 64 < ?n" if "k < 64 * ?n" using that by (simp add: less_mult_imp_div_less mult.commute)
    then show "bit (bval ?p ?n) k = bit (ival a mod 2 ^ (64 * ?n)) k"
      by (auto simp: bit_bval rep_apint_def w(1) bit_simps simp flip: take_bit_eq_mod)
  qed
  also have "ival a < 2 ^ (64 * ?n)"
    by (rule less_le_trans [OF w(3) power_increasing]) (simp_all add: getNumWords_bounds(1))
  then have "ival a mod 2 ^ (64 * ?n) = ival a" by simp
  finally have v: "bval ?p ?n = ival a" .
  show "BitWidth (rep_apint a) = w" by (simp add: rep_apint_def w(1))
  then show "wf_rep (rep_apint a)" using w v by (simp add: wf_rep_def) (simp add: rep_apint_def)
  show "abs_apint (rep_apint a) = a" using w(1) v by (simp add: abs_apint_def \<open>BitWidth (rep_apint a) = w\<close> apint_eq_iff)
qed

text \<open>Where they are right.\<close>

lemma APInt_mul_exact:
  assumes "wf_apint w a" and "wf_apint w b" and "w \<le> 128 \<or> ival a < 2 ^ 64 \<or> ival b < 2 ^ 32"
  shows "APInt_mul a b = ap_mul a b"
  using refines_op_times [OF rep_apint(1) [OF assms(1)] rep_apint(1) [OF assms(2)]] assms(3)
  by (auto simp: APInt_mul_def refines_def rep_apint [OF assms(1)] rep_apint [OF assms(2)])

lemma APInt_udiv_exact:
  assumes "wf_apint w a" and "wf_apint w b" and "ival b \<noteq> 0" and "w \<le> 128 \<or> ival b < 2 ^ 64 \<or> ival a < 2 ^ 32 * ival b"
  shows "APInt_udiv a b = ap_udiv a b" and "APInt_urem a b = ap_urem a b"
  using refines_udiv_urem [OF rep_apint(1) [OF assms(1)] rep_apint(1) [OF assms(2)]] assms(3,4)
  by (auto simp: APInt_udiv_def APInt_urem_def refines_def divides_well_def rep_apint [OF assms(1)] rep_apint [OF assms(2)])

section \<open>The transfer functions\<close>

definition zeroExtend :: "crange \<Rightarrow> nat \<Rightarrow> crange" where
  "zeroExtend r DstTySize =
     (if isEmptySet r then CR_set DstTySize False
      else if isFullSet r \<or> isWrappedSet r then
        let LowerExt = (if ival (Upper r) = 0 then ap_zext (Lower r) DstTySize else mk_apint DstTySize 0)
        in CR LowerExt (getOneBitSet DstTySize (getBitWidth r))
      else CR (ap_zext (Lower r) DstTySize) (ap_zext (Upper r) DstTySize))"

definition signExtend :: "crange \<Rightarrow> nat \<Rightarrow> crange" where
  "signExtend r DstTySize =
     (if isEmptySet r then CR_set DstTySize False
      else if isMinSignedValue (Upper r) then
        CR (ap_sext (Lower r) DstTySize) (ap_zext (Upper r) DstTySize)
      else if isFullSet r \<or> isSignWrappedSet r then
        CR (getHighBitsSet DstTySize (DstTySize - getBitWidth r + 1))
           (ap_inc (getLowBitsSet DstTySize (getBitWidth r - 1)))
      else CR (ap_sext (Lower r) DstTySize) (ap_sext (Upper r) DstTySize))"

text \<open>The tail of \<open>truncate\<close>, on the bounds \<open>LowerDiv\<close> and \<open>UpperDiv\<close> of an interval that does not wrap,
  whose result is joined with \<open>UnionR\<close>.\<close>

definition truncate_interval :: "nat \<Rightarrow> nat \<Rightarrow> apint \<Rightarrow> apint \<Rightarrow> crange \<Rightarrow> crange" where
  "truncate_interval w DstTySize LowerDiv UpperDiv UnionR =
     (let MaxValue = ap_zext (getMaxValue DstTySize) w;
          MaxBitValue = getOneBitSet w DstTySize;
          (LowerDiv, UpperDiv) =
            (if uge LowerDiv MaxValue then
               let Div = APInt_udiv LowerDiv MaxBitValue
               in (APInt_urem LowerDiv MaxBitValue, ap_sub UpperDiv (APInt_mul MaxBitValue Div))
             else (LowerDiv, UpperDiv))
      in if ule UpperDiv MaxValue then
           unionWith (CR (ap_trunc LowerDiv DstTySize) (ap_trunc UpperDiv DstTySize)) UnionR
         else
           let UpperModulo = ap_sub UpperDiv MaxBitValue in
           if ult UpperModulo LowerDiv then
             unionWith (CR (ap_trunc LowerDiv DstTySize) (ap_trunc UpperModulo DstTySize)) UnionR
           else CR_set DstTySize True)"

definition cr_truncate :: "crange \<Rightarrow> nat \<Rightarrow> crange" where
  "cr_truncate r DstTySize =
     (let w = getBitWidth r; MaxValue = ap_zext (getMaxValue DstTySize) w in
      if isEmptySet r then CR_set DstTySize False
      else if isFullSet r then CR_set DstTySize True
      else if isWrappedSet r then
        (if uge (Upper r) MaxValue then CR_set DstTySize True
         else
           let UnionR = CR (getMaxValue DstTySize) (ap_trunc (Upper r) DstTySize);
               UpperDiv = getMaxValue w
           in if Lower r = UpperDiv then UnionR
              else truncate_interval w DstTySize (Lower r) UpperDiv UnionR)
      else truncate_interval w DstTySize (Lower r) (Upper r) (CR_set DstTySize False))"

definition zextOrTrunc :: "crange \<Rightarrow> nat \<Rightarrow> crange" where
  "zextOrTrunc r DstTySize =
     (let SrcTySize = getBitWidth r in
      if SrcTySize > DstTySize then cr_truncate r DstTySize
      else if SrcTySize < DstTySize then zeroExtend r DstTySize else r)"

definition sextOrTrunc :: "crange \<Rightarrow> nat \<Rightarrow> crange" where
  "sextOrTrunc r DstTySize =
     (let SrcTySize = getBitWidth r in
      if SrcTySize > DstTySize then cr_truncate r DstTySize
      else if SrcTySize < DstTySize then signExtend r DstTySize else r)"

definition cr_add :: "crange \<Rightarrow> crange \<Rightarrow> crange" where
  "cr_add r Other =
     (if isEmptySet r \<or> isEmptySet Other then CR_set (getBitWidth r) False
      else if isFullSet r \<or> isFullSet Other then CR_set (getBitWidth r) True
      else
        let Spread_X = getSetSize r; Spread_Y = getSetSize Other;
            NewLower = ap_add (Lower r) (Lower Other);
            NewUpper = ap_dec (ap_add (Upper r) (Upper Other))
        in if NewLower = NewUpper then CR_set (getBitWidth r) True
           else let X = CR NewLower NewUpper in
             if ult (getSetSize X) Spread_X \<or> ult (getSetSize X) Spread_Y then CR_set (getBitWidth r) True
             else X)"

definition cr_sub :: "crange \<Rightarrow> crange \<Rightarrow> crange" where
  "cr_sub r Other =
     (if isEmptySet r \<or> isEmptySet Other then CR_set (getBitWidth r) False
      else if isFullSet r \<or> isFullSet Other then CR_set (getBitWidth r) True
      else
        let Spread_X = getSetSize r; Spread_Y = getSetSize Other;
            NewLower = ap_inc (ap_sub (Lower r) (Upper Other));
            NewUpper = ap_sub (Upper r) (Lower Other)
        in if NewLower = NewUpper then CR_set (getBitWidth r) True
           else let X = CR NewLower NewUpper in
             if ult (getSetSize X) Spread_X \<or> ult (getSetSize X) Spread_Y then CR_set (getBitWidth r) True
             else X)"

text \<open>\<open>std::min\<close> and \<open>std::max\<close> over the initializer list, with the signed comparison: the first of
  the smallest, or of the largest, elements.\<close>

definition min_slt :: "apint list \<Rightarrow> apint" where
  "min_slt L = fold (\<lambda>x best. if slt x best then x else best) (tl L) (hd L)"

definition max_slt :: "apint list \<Rightarrow> apint" where
  "max_slt L = fold (\<lambda>x best. if slt best x then x else best) (tl L) (hd L)"

definition cr_multiply :: "crange \<Rightarrow> crange \<Rightarrow> crange" where
  "cr_multiply r Other =
     (if isEmptySet r \<or> isEmptySet Other then CR_set (getBitWidth r) False
      else
        let w = getBitWidth r;
            this_min = ap_zext (getUnsignedMin r) (w * 2); this_max = ap_zext (getUnsignedMax r) (w * 2);
            Other_min = ap_zext (getUnsignedMin Other) (w * 2); Other_max = ap_zext (getUnsignedMax Other) (w * 2);
            Result_zext = CR (APInt_mul this_min Other_min) (ap_inc (APInt_mul this_max Other_max));
            UR = cr_truncate Result_zext w;
            this_min = ap_sext (getSignedMin r) (w * 2); this_max = ap_sext (getSignedMax r) (w * 2);
            Other_min = ap_sext (getSignedMin Other) (w * 2); Other_max = ap_sext (getSignedMax Other) (w * 2);
            L = [APInt_mul this_min Other_min, APInt_mul this_min Other_max,
                 APInt_mul this_max Other_min, APInt_mul this_max Other_max];
            Result_sext = CR (min_slt L) (ap_inc (max_slt L));
            SR = cr_truncate Result_sext w
        in if ult (getSetSize UR) (getSetSize SR) then UR else SR)"

definition cr_smax :: "crange \<Rightarrow> crange \<Rightarrow> crange" where
  "cr_smax r Other =
     (if isEmptySet r \<or> isEmptySet Other then CR_set (getBitWidth r) False
      else
        let NewL = ap_smax (getSignedMin r) (getSignedMin Other);
            NewU = ap_inc (ap_smax (getSignedMax r) (getSignedMax Other))
        in if NewU = NewL then CR_set (getBitWidth r) True else CR NewL NewU)"

definition cr_umax :: "crange \<Rightarrow> crange \<Rightarrow> crange" where
  "cr_umax r Other =
     (if isEmptySet r \<or> isEmptySet Other then CR_set (getBitWidth r) False
      else
        let NewL = ap_umax (getUnsignedMin r) (getUnsignedMin Other);
            NewU = ap_inc (ap_umax (getUnsignedMax r) (getUnsignedMax Other))
        in if NewU = NewL then CR_set (getBitWidth r) True else CR NewL NewU)"

definition cr_udiv :: "crange \<Rightarrow> crange \<Rightarrow> crange" where
  "cr_udiv r RHS =
     (if isEmptySet r \<or> isEmptySet RHS \<or> ival (getUnsignedMax RHS) = 0 then CR_set (getBitWidth r) False
      else if isFullSet RHS then CR_set (getBitWidth r) True
      else
        let L = APInt_udiv (getUnsignedMin r) (getUnsignedMax RHS);
            RHS_umin = getUnsignedMin RHS;
            RHS_umin =
              (if ival RHS_umin = 0 then
                 (if ival (Upper RHS) = 1 then Lower RHS else mk_apint (getBitWidth r) 1)
               else RHS_umin);
            U = ap_inc (APInt_udiv (getUnsignedMax r) RHS_umin)
        in if L = U then CR_set (getBitWidth r) True else CR L U)"

definition binaryAnd :: "crange \<Rightarrow> crange \<Rightarrow> crange" where
  "binaryAnd r Other =
     (if isEmptySet r \<or> isEmptySet Other then CR_set (getBitWidth r) False
      else
        let umin = ap_umin (getUnsignedMax Other) (getUnsignedMax r)
        in if isMaxValue umin then CR_set (getBitWidth r) True
           else CR (getMinValue (getBitWidth r)) (ap_inc umin))"

definition binaryOr :: "crange \<Rightarrow> crange \<Rightarrow> crange" where
  "binaryOr r Other =
     (if isEmptySet r \<or> isEmptySet Other then CR_set (getBitWidth r) False
      else
        let umax = ap_umax (getUnsignedMin r) (getUnsignedMin Other)
        in if isMinValue umax then CR_set (getBitWidth r) True
           else CR umax (getMinValue (getBitWidth r)))"

definition cr_shl :: "crange \<Rightarrow> crange \<Rightarrow> crange" where
  "cr_shl r Other =
     (if isEmptySet r \<or> isEmptySet Other then CR_set (getBitWidth r) False
      else
        let lo = ap_shl (getUnsignedMin r) (getUnsignedMin Other);
            hi = ap_shl (getUnsignedMax r) (getUnsignedMax Other);
            Zeros = mk_apint (getBitWidth r) (ap_clz (getUnsignedMax r))
        in if ugt Zeros (getUnsignedMax Other) then CR lo (ap_inc hi)
           else CR_set (getBitWidth r) True)"

definition cr_lshr :: "crange \<Rightarrow> crange \<Rightarrow> crange" where
  "cr_lshr r Other =
     (if isEmptySet r \<or> isEmptySet Other then CR_set (getBitWidth r) False
      else
        let hi = ap_lshr (getUnsignedMax r) (getUnsignedMin Other);
            lo = ap_lshr (getUnsignedMin r) (getUnsignedMax Other)
        in if lo = ap_inc hi then CR_set (getBitWidth r) True else CR lo (ap_inc hi))"

end
