(* ===== verification/ConstantRangeLattice.thy ===== *)
theory ConstantRangeLattice
  imports ConstantRange
begin

text \<open>
  The set operations of \<open>ConstantRange\<close>: intersection, union, complement, the subset test and the
  four extremal elements. \<open>best_cover w X r\<close> says that \<open>r\<close> is a well-formed range that covers \<open>X\<close>
  and has the smallest size among those that do; intersection and union reach it.
\<close>

definition best_cover :: "nat \<Rightarrow> nat set \<Rightarrow> crange \<Rightarrow> bool" where
  "best_cover w X r \<longleftrightarrow> (\<exists>l u. r = mk_range w l u \<and> arc_ok (2 ^ w) l u \<and> X \<subseteq> arc (2 ^ w) l u \<and>
     (\<forall>l' u'. arc_ok (2 ^ w) l' u' \<longrightarrow> X \<subseteq> arc (2 ^ w) l' u' \<longrightarrow> arc_size (2 ^ w) l u \<le> arc_size (2 ^ w) l' u'))"

lemma best_exact:
  assumes "arc_ok (2 ^ w) l u" and "X = arc (2 ^ w) l u"
  shows "best_cover w X (mk_range w l u)"
  unfolding best_cover_def
proof (intro exI conjI allI impI)
  fix l' u' assume a: "arc_ok (2 ^ w) l' u'" and "X \<subseteq> arc (2 ^ w) l' u'"
  then have "card X \<le> card (arc (2 ^ w) l' u')" using card_arc(2) [OF a] by (intro card_mono)
  then show "arc_size (2 ^ w) l u \<le> arc_size (2 ^ w) l' u'"
    by (simp add: assms(2) card_arc(1) assms(1) a)
qed (use assms in auto)

lemma intersect_eq:
  "intersect_cases (mk_range w a b) (mk_range w c d) =
     (let smaller = (if ival (getSetSize (mk_range w a b)) < ival (getSetSize (mk_range w c d)) then mk_range w a b else mk_range w c d) in
      if a \<le> b \<and> c \<le> d then
        (if a < c then (if b \<le> c then mk_range w 0 0 else if b < d then mk_range w c b else mk_range w c d)
         else if b < d then mk_range w a b else if a < d then mk_range w a d else mk_range w 0 0)
      else if b < a \<and> c \<le> d then
        (if c < b then (if d < b then mk_range w c d else if d \<le> a then mk_range w c b else smaller)
         else if c < a then (if d \<le> a then mk_range w 0 0 else mk_range w a d)
         else mk_range w c d)
      else if d < b then (if c < b then smaller else if c < a then mk_range w a d else mk_range w c d)
      else if d \<le> a then (if c < a then mk_range w a b else mk_range w c b)
      else smaller)"
  by (simp add: intersect_cases_def queries ult_def ule_def CR_mk_range Let_def not_less)




lemma gap1:
  assumes ok: "arc_ok m a b" "arc_ok m c d" "arc_ok m l u" and ord: "b < a" "c < b" "a < d"
    and sub: "arc m a b \<inter> arc m c d \<subseteq> arc m l u"
  shows "arc_size m a b \<le> arc_size m l u \<or> arc_size m c d \<le> arc_size m l u"
proof -
  have "{a, c, b - 1, d - 1} \<subseteq> arc m a b \<inter> arc m c d"
    using ok ord by (auto simp: arc_def arc_ok_def)
  then have p: "a \<in> arc m l u" "c \<in> arc m l u" "b - 1 \<in> arc m l u" "d - 1 \<in> arc m l u"
    using sub by auto
  show ?thesis
  proof (cases l u rule: linorder_cases)
    case greater
    then have "u \<notin> arc m l u" by (simp add: arc_def)
    then have "u \<notin> arc m a b \<inter> arc m c d" using sub by blast
    then have "u < c \<or> b \<le> u \<and> u < a \<or> d \<le> u"
      using ok ord by (auto simp: arc_def arc_ok_def)
    then show ?thesis using p(1,2) ok ord greater
      by (auto simp: arc_def arc_ok_def arc_size_def)
  qed (use p ok ord in \<open>auto simp: arc_def arc_ok_def arc_size_def\<close>)
qed

lemma gap2:
  assumes ok: "arc_ok m a b" "arc_ok m c d" "arc_ok m l u" and ord: "d < c" "c < b" "b < a"
    and sub: "arc m a b \<inter> arc m c d \<subseteq> arc m l u"
  shows "arc_size m a b \<le> arc_size m l u \<or> arc_size m c d \<le> arc_size m l u"
proof -
  have "{a, c, b - 1, m - 1} \<subseteq> arc m a b \<inter> arc m c d" "d \<noteq> 0 \<Longrightarrow> 0 \<in> arc m a b \<inter> arc m c d"
    "d \<noteq> 0 \<Longrightarrow> d - 1 \<in> arc m a b \<inter> arc m c d"
    using ok ord by (auto simp: arc_def arc_ok_def)
  then have p: "a \<in> arc m l u" "c \<in> arc m l u" "b - 1 \<in> arc m l u" "m - 1 \<in> arc m l u"
    "d \<noteq> 0 \<Longrightarrow> 0 \<in> arc m l u" "d \<noteq> 0 \<Longrightarrow> d - 1 \<in> arc m l u"
    using sub by auto
  show ?thesis
  proof (cases l u rule: linorder_cases)
    case greater
    then have "u \<notin> arc m l u" by (simp add: arc_def)
    then have "u \<notin> arc m a b \<inter> arc m c d" using sub by blast
    then have "d \<le> u \<and> u < c \<or> b \<le> u \<and> u < a"
      using ok ord greater by (auto simp: arc_def arc_ok_def)
    then show ?thesis using p(1,2) ok ord greater
      by (auto simp: arc_def arc_ok_def arc_size_def)
  next
    case less
    show ?thesis
    proof (cases "d = 0")
      case True
      then show ?thesis using p(1-4) ok ord less by (auto simp: arc_def arc_ok_def arc_size_def)
    next
      case False
      then show ?thesis using p ok ord less by (auto simp: arc_def arc_ok_def arc_size_def)
    qed
  qed (use p ok ord in \<open>auto simp: arc_def arc_ok_def arc_size_def\<close>)
qed


lemma best_smaller:
  assumes ok: "arc_ok (2 ^ w) a b" "arc_ok (2 ^ w) c d" "0 < w"
    and gap: "\<And>l u. arc_ok (2 ^ w) l u \<Longrightarrow> arc (2 ^ w) a b \<inter> arc (2 ^ w) c d \<subseteq> arc (2 ^ w) l u \<Longrightarrow>
      arc_size (2 ^ w) a b \<le> arc_size (2 ^ w) l u \<or> arc_size (2 ^ w) c d \<le> arc_size (2 ^ w) l u"
  shows "best_cover w (arc (2 ^ w) a b \<inter> arc (2 ^ w) c d)
    (if ival (getSetSize (mk_range w a b)) < ival (getSetSize (mk_range w c d)) then mk_range w a b else mk_range w c d)"
proof (cases "arc_size (2 ^ w) a b < arc_size (2 ^ w) c d")
  case True
  then show ?thesis using ok gap unfolding best_cover_def
    by (intro exI [of _ a] exI [of _ b]) (auto simp: ival_getSetSize, fastforce)
next
  case False
  then show ?thesis using ok gap unfolding best_cover_def
    by (intro exI [of _ c] exI [of _ d]) (auto simp: ival_getSetSize, fastforce)
qed

lemma intersect_cases_best:
  assumes ok: "arc_ok (2 ^ w) a b" "arc_ok (2 ^ w) c d" "0 < w" and ne: "a \<noteq> b" "c \<noteq> d"
    and ord: "b < a \<or> c < d"
  shows "best_cover w (arc (2 ^ w) a b \<inter> arc (2 ^ w) c d) (intersect_cases (mk_range w a b) (mk_range w c d))"
proof -
  define X where "X = arc (2 ^ w) a b \<inter> arc (2 ^ w) c d"
  have ex: "best_cover w X (mk_range w l u)" if "arc_ok (2 ^ w) l u" "\<And>v. v \<in> X \<longleftrightarrow> v \<in> arc (2 ^ w) l u" for l u
    using that by (intro best_exact) auto
  have mem: "v \<in> X \<longleftrightarrow> v \<in> arc (2 ^ w) a b \<and> v \<in> arc (2 ^ w) c d" for v by (simp add: X_def)
  note set = mem arc_def arc_ok_def
  consider (plain) "a < b" "c < d" | (one) "b < a" "c < d" | (both) "b < a" "d < c" using ne ord by linarith
  then have "best_cover w X (intersect_cases (mk_range w a b) (mk_range w c d))"
  proof cases
    case plain
    then show ?thesis unfolding intersect_eq Let_def
      using ok by (auto intro!: ex simp: set)
  next
    case one
    show ?thesis
    proof (cases "c < b \<and> a < d")
      case True
      then show ?thesis unfolding intersect_eq Let_def
        using one best_smaller [OF ok gap1 [OF ok(1,2)]] by (simp add: X_def)
    next
      case False
      with one show ?thesis unfolding intersect_eq Let_def
        using ok by (auto intro!: ex simp: set)
    qed
  next
    case both
    show ?thesis
    proof (cases "d < b \<and> c < b \<or> b \<le> d \<and> a < d")
      case True
      then show ?thesis
      proof
        assume t: "d < b \<and> c < b"
        show ?thesis unfolding intersect_eq Let_def
          using both t best_smaller [OF ok gap2 [OF ok(1,2)]] by (simp add: X_def)
      next
        assume t: "b \<le> d \<and> a < d"
        have "arc_size (2 ^ w) a b \<le> arc_size (2 ^ w) l u \<or> arc_size (2 ^ w) c d \<le> arc_size (2 ^ w) l u"
          if "arc_ok (2 ^ w) l u" "arc (2 ^ w) a b \<inter> arc (2 ^ w) c d \<subseteq> arc (2 ^ w) l u" for l u
          using gap2 [OF ok(2,1) that(1)] both t that(2) by blast
        from best_smaller [OF ok this] show ?thesis unfolding intersect_eq Let_def
          using both t by (simp add: X_def)
      qed
    next
      case False
      with both show ?thesis unfolding intersect_eq Let_def
        using ok by (auto intro!: ex simp: set)
    qed
  qed
  then show ?thesis by (simp add: X_def)
qed

lemma bridge_eq:
  assumes "arc_ok (2 ^ w) a b" "arc_ok (2 ^ w) c d" "0 < w"
  shows "bridge (mk_range w a b) (mk_range w c d) =
    (if (if b \<le> c then c - b else c + 2 ^ w - b) < (if d \<le> a then a - d else a + 2 ^ w - d)
     then mk_range w a d else mk_range w c b)"
proof -
  have wf: "wf_apint w (Lower (mk_range w a b))" "wf_apint w (Upper (mk_range w a b))"
    "wf_apint w (Lower (mk_range w c d))" "wf_apint w (Upper (mk_range w c d))"
    using assms by (simp_all add: wf_apint_def arc_ok_def)
  show ?thesis
    by (simp only: bridge_def Let_def ult_def ival_sub [OF wf(3,2)] ival_sub [OF wf(1,4)] mk_range_sel CR_mk_range)
qed

lemma best_bridge:
  assumes ok: "arc_ok (2 ^ w) a b" "arc_ok (2 ^ w) c d" "0 < w"
    and ord: "a < b \<and> b < c \<and> c < d \<or> c < d \<and> d < a \<and> a < b \<or> b < c \<and> c < d \<and> d < a"
  shows "best_cover w (arc (2 ^ w) a b \<union> arc (2 ^ w) c d) (bridge (mk_range w a b) (mk_range w c d))"
proof -
  have ok': "arc_ok (2 ^ w) a d" "arc_ok (2 ^ w) c b" using ok ord by (auto simp: arc_ok_def)
  have X: "arc (2 ^ w) a b \<union> arc (2 ^ w) c d = arc (2 ^ w) a d \<inter> arc (2 ^ w) c b"
    using ord
  proof (elim disjE)
    assume "a < b \<and> b < c \<and> c < d"
    with ok show ?thesis by (auto simp: arc_def arc_ok_def)
  next
    assume "c < d \<and> d < a \<and> a < b"
    with ok show ?thesis by (auto simp: arc_def arc_ok_def)
  next
    assume "b < c \<and> c < d \<and> d < a"
    with ok show ?thesis by (auto simp: arc_def arc_ok_def)
  qed
  have gap: "arc_size (2 ^ w) a d \<le> arc_size (2 ^ w) l u \<or> arc_size (2 ^ w) c b \<le> arc_size (2 ^ w) l u"
    if t: "arc_ok (2 ^ w) l u" "arc (2 ^ w) a d \<inter> arc (2 ^ w) c b \<subseteq> arc (2 ^ w) l u" for l u
    using ord
  proof (elim disjE)
    assume "a < b \<and> b < c \<and> c < d"
    then show ?thesis using gap1 [OF ok'(2,1) t(1)] t(2) by blast
  next
    assume "c < d \<and> d < a \<and> a < b"
    then show ?thesis using gap1 [OF ok' t(1)] t(2) by blast
  next
    assume "b < c \<and> c < d \<and> d < a"
    then show ?thesis using gap2 [OF ok' t(1)] t(2) by blast
  qed
  have sizes: "(if b \<le> c then c - b else c + 2 ^ w - b) < (if d \<le> a then a - d else a + 2 ^ w - d)
      \<longrightarrow> arc_size (2 ^ w) a d \<le> arc_size (2 ^ w) c b"
    "\<not> (if b \<le> c then c - b else c + 2 ^ w - b) < (if d \<le> a then a - d else a + 2 ^ w - d)
      \<longrightarrow> arc_size (2 ^ w) c b \<le> arc_size (2 ^ w) a d"
    using ok ord by (auto simp: arc_size_def arc_ok_def)
  show ?thesis
  proof (cases "(if b \<le> c then c - b else c + 2 ^ w - b) < (if d \<le> a then a - d else a + 2 ^ w - d)")
    case True
    then show ?thesis unfolding best_cover_def bridge_eq [OF ok] X
      using sizes(1) gap ok' by (intro exI [of _ a] exI [of _ d]) (simp, meson le_trans)
  next
    case False
    then show ?thesis unfolding best_cover_def bridge_eq [OF ok] X
      using sizes(2) gap ok' by (intro exI [of _ c] exI [of _ b]) (simp, meson le_trans)
  qed
qed

lemma union_eq:
  "ival (ap_dec (Upper (mk_range w a b))) = b - 1 \<Longrightarrow> ival (ap_dec (Upper (mk_range w c d))) = d - 1 \<Longrightarrow>
   a \<le> b \<Longrightarrow> c \<le> d \<Longrightarrow> union_cases (mk_range w a b) (mk_range w c d) =
     (if d < a \<or> b < c then bridge (mk_range w a b) (mk_range w c d)
      else if (if c < a then c else a) = 0 \<and> (if d - 1 > b - 1 then d else b) = 0 then mk_range w (2 ^ w - 1) (2 ^ w - 1)
      else mk_range w (if c < a then c else a) (if d - 1 > b - 1 then d else b))"
  "b < a \<Longrightarrow> c \<le> d \<Longrightarrow> union_cases (mk_range w a b) (mk_range w c d) =
     (if d \<le> b \<or> c \<ge> a then mk_range w a b
      else if c \<le> b \<and> a \<le> d then mk_range w (2 ^ w - 1) (2 ^ w - 1)
      else if b \<le> c \<and> d \<le> a then bridge (mk_range w a b) (mk_range w c d)
      else if b < c \<and> a < d then mk_range w c b else mk_range w a d)"
  "b < a \<Longrightarrow> d < c \<Longrightarrow> union_cases (mk_range w a b) (mk_range w c d) =
     (if c \<le> b \<or> a \<le> d then mk_range w (2 ^ w - 1) (2 ^ w - 1)
      else mk_range w (if c < a then c else a) (if d > b then d else b))"
  by (simp_all add: union_cases_def queries ult_def ule_def ugt_def uge_def CR_mk_range Let_def not_less) auto

lemma union_cases_best:
  assumes ok: "arc_ok (2 ^ w) a b" "arc_ok (2 ^ w) c d" "0 < w" and ne: "a \<noteq> b" "c \<noteq> d"
    and ord: "b < a \<or> c < d"
  shows "best_cover w (arc (2 ^ w) a b \<union> arc (2 ^ w) c d) (union_cases (mk_range w a b) (mk_range w c d))"
proof -
  define X where "X = arc (2 ^ w) a b \<union> arc (2 ^ w) c d"
  have ex: "best_cover w X (mk_range w l u)" if "arc_ok (2 ^ w) l u" "\<And>v. v \<in> X \<longleftrightarrow> v \<in> arc (2 ^ w) l u" for l u
    using that by (intro best_exact) auto
  have mem: "v \<in> X \<longleftrightarrow> v \<in> arc (2 ^ w) a b \<or> v \<in> arc (2 ^ w) c d" for v by (simp add: X_def)
  have bridge: "best_cover w X (bridge (mk_range w a b) (mk_range w c d))"
    if "a < b \<and> b < c \<and> c < d \<or> c < d \<and> d < a \<and> a < b \<or> b < c \<and> c < d \<and> d < a"
    using best_bridge [OF ok that] by (simp add: X_def)
  note set = mem arc_def arc_ok_def
  consider (plain) "a < b" "c < d" | (one) "b < a" "c < d" | (both) "b < a" "d < c" using ne ord by linarith
  then have "best_cover w X (union_cases (mk_range w a b) (mk_range w c d))"
  proof cases
    case plain
    have dec: "ival (ap_dec (Upper (mk_range w a b))) = b - 1" "ival (ap_dec (Upper (mk_range w c d))) = d - 1"
      using plain ok by (subst ival_dec [of w]; simp add: wf_apint_def arc_ok_def)+
    show ?thesis unfolding union_eq(1) [OF dec less_imp_le [OF plain(1)] less_imp_le [OF plain(2)]]
      using plain ok by (auto intro!: ex bridge simp: set)
  next
    case one
    have "b = c \<Longrightarrow> d < a \<Longrightarrow> bridge (mk_range w a b) (mk_range w c d) = mk_range w a d"
      "d = a \<Longrightarrow> b < c \<Longrightarrow> bridge (mk_range w a b) (mk_range w c d) = mk_range w c b"
      unfolding bridge_eq [OF ok] using one by auto
    then show ?thesis unfolding union_eq(2) [OF one(1) less_imp_le [OF one(2)]]
      using one ok bridge by (cases "b = c"; cases "d = a") (auto intro!: ex simp: set)
  next
    case both
    then show ?thesis unfolding union_eq(3) [OF both] using ok by (auto intro!: ex simp: set)
  qed
  then show ?thesis by (simp add: X_def)
qed


lemma arc_trivial: "1 < m \<Longrightarrow> arc m 0 0 = {}" "arc m (m - 1) (m - 1) = {..<m}" "arc m l u \<subseteq> {..<m}"
  by (auto simp: arc_def)

text \<open>The full and the empty set are dealt with before the case distinctions.\<close>

lemma trivial_ranges:
  assumes "arc_ok (2 ^ w) a b" "arc_ok (2 ^ w) c d" "0 < w"
  obtains (empty1) "a = 0" "b = 0" | (full2) "c = 2 ^ w - 1" "d = 2 ^ w - 1" "\<not> (a = 0 \<and> b = 0)"
  | (empty2) "c = 0" "d = 0" "\<not> (a = 0 \<and> b = 0)"
  | (full1) "a = 2 ^ w - 1" "b = 2 ^ w - 1" "c \<noteq> d"
  | (proper) "a \<noteq> b" "c \<noteq> d"
  using assms by (auto simp: arc_ok_def)

lemma intersectWith_best:
  assumes ok: "arc_ok (2 ^ w) a b" "arc_ok (2 ^ w) c d" "0 < w"
  shows "best_cover w (arc (2 ^ w) a b \<inter> arc (2 ^ w) c d) (intersectWith (mk_range w a b) (mk_range w c d))"
proof -
  have one: "1 < (2 :: nat) ^ w" using ok(3) by (rule one_less_exp)
  note triv = arc_trivial(1) [OF one] arc_trivial(2)
  show ?thesis
  proof (rule trivial_ranges [OF ok])
    assume "a = 0" "b = 0"
    then show ?thesis using best_exact [OF ok(1)] by (simp add: intersectWith_def queries triv)
  next
    assume e: "c = 2 ^ w - 1" "d = 2 ^ w - 1" "\<not> (a = 0 \<and> b = 0)"
    then have "intersectWith (mk_range w a b) (mk_range w c d) = mk_range w a b"
      by (simp add: intersectWith_def queries)
    moreover have "arc (2 ^ w) a b \<inter> arc (2 ^ w) c d = arc (2 ^ w) a b"
      unfolding e triv using arc_trivial(3) by blast
    ultimately show ?thesis using best_exact [OF ok(1)] by simp
  next
    assume e: "c = 0" "d = 0" "\<not> (a = 0 \<and> b = 0)"
    then have "intersectWith (mk_range w a b) (mk_range w c d) = mk_range w c d"
      using one by (simp add: intersectWith_def queries)
    then show ?thesis using best_exact [OF ok(2)] by (simp add: e triv)
  next
    assume e: "a = 2 ^ w - 1" "b = 2 ^ w - 1" "c \<noteq> d"
    then have "intersectWith (mk_range w a b) (mk_range w c d) = mk_range w c d"
      using one by (simp add: intersectWith_def queries)
    moreover have "arc (2 ^ w) a b \<inter> arc (2 ^ w) c d = arc (2 ^ w) c d"
      unfolding e triv using arc_trivial(3) by blast
    ultimately show ?thesis using best_exact [OF ok(2)] by simp
  next
    assume ne: "a \<noteq> b" "c \<noteq> d"
    show ?thesis
    proof (cases "a \<le> b \<and> d < c")
      case True
      then have "intersectWith (mk_range w a b) (mk_range w c d) = intersect_cases (mk_range w c d) (mk_range w a b)"
        using ne by (simp add: intersectWith_def queries)
      with intersect_cases_best [OF ok(2,1,3) ne(2,1)] True show ?thesis by (simp add: Int_commute)
    next
      case False
      then have "intersectWith (mk_range w a b) (mk_range w c d) = intersect_cases (mk_range w a b) (mk_range w c d)"
        using ne by (auto simp: intersectWith_def queries)
      with intersect_cases_best [OF ok ne] False ne show ?thesis by (auto simp: not_less)
    qed
  qed
qed

lemma unionWith_best:
  assumes ok: "arc_ok (2 ^ w) a b" "arc_ok (2 ^ w) c d" "0 < w"
  shows "best_cover w (arc (2 ^ w) a b \<union> arc (2 ^ w) c d) (unionWith (mk_range w a b) (mk_range w c d))"
proof -
  have one: "1 < (2 :: nat) ^ w" using ok(3) by (rule one_less_exp)
  note triv = arc_trivial(1) [OF one] arc_trivial(2)
  show ?thesis
  proof (rule trivial_ranges [OF ok(2,1,3)])
    assume e: "c = 0" "d = 0"
    then show ?thesis using best_exact [OF ok(1)] by (simp add: unionWith_def queries triv)
  next
    assume e: "a = 2 ^ w - 1" "b = 2 ^ w - 1" "\<not> (c = 0 \<and> d = 0)"
    then have "unionWith (mk_range w a b) (mk_range w c d) = mk_range w a b"
      by (simp add: unionWith_def queries)
    moreover have "arc (2 ^ w) a b \<union> arc (2 ^ w) c d = arc (2 ^ w) a b"
      unfolding e triv using arc_trivial(3) by blast
    ultimately show ?thesis using best_exact [OF ok(1)] by simp
  next
    assume e: "a = 0" "b = 0" "\<not> (c = 0 \<and> d = 0)"
    then have "unionWith (mk_range w a b) (mk_range w c d) = mk_range w c d"
      using one by (simp add: unionWith_def queries)
    then show ?thesis using best_exact [OF ok(2)] by (simp add: e triv)
  next
    assume e: "c = 2 ^ w - 1" "d = 2 ^ w - 1" "a \<noteq> b"
    then have "unionWith (mk_range w a b) (mk_range w c d) = mk_range w c d"
      using one by (simp add: unionWith_def queries)
    moreover have "arc (2 ^ w) a b \<union> arc (2 ^ w) c d = arc (2 ^ w) c d"
      unfolding e triv using arc_trivial(3) by blast
    ultimately show ?thesis using best_exact [OF ok(2)] by simp
  next
    assume ne: "c \<noteq> d" "a \<noteq> b"
    show ?thesis
    proof (cases "a \<le> b \<and> d < c")
      case True
      then have "unionWith (mk_range w a b) (mk_range w c d) = union_cases (mk_range w c d) (mk_range w a b)"
        using ne by (simp add: unionWith_def queries)
      with union_cases_best [OF ok(2,1,3) ne] True show ?thesis by (simp add: Un_commute)
    next
      case False
      then have "unionWith (mk_range w a b) (mk_range w c d) = union_cases (mk_range w a b) (mk_range w c d)"
        using ne by (auto simp: unionWith_def queries)
      with union_cases_best [OF ok ne(2,1)] False ne show ?thesis by (auto simp: not_less)
    qed
  qed
qed

text \<open>The same, over ranges.\<close>

lemma best_coverD:
  assumes "best_cover w X r" and "0 < w"
  shows "wf_range w r" and "X \<subseteq> elems r"
    and "\<And>t. wf_range w t \<Longrightarrow> X \<subseteq> elems t \<Longrightarrow> card (elems r) \<le> card (elems t)"
proof -
  obtain l u where r: "r = mk_range w l u" "arc_ok (2 ^ w) l u" "X \<subseteq> arc (2 ^ w) l u"
    and least: "\<And>l' u'. arc_ok (2 ^ w) l' u' \<Longrightarrow> X \<subseteq> arc (2 ^ w) l' u' \<Longrightarrow> arc_size (2 ^ w) l u \<le> arc_size (2 ^ w) l' u'"
    using assms(1) by (auto simp: best_cover_def)
  show "wf_range w r" "X \<subseteq> elems r" using r assms(2) by (simp_all add: wf_mk_range elems_mk_range)
  fix t assume t: "wf_range w t" "X \<subseteq> elems t"
  obtain l' u' where t': "t = mk_range w l' u'" "arc_ok (2 ^ w) l' u'" using wf_range_cases [OF t(1)] by metis
  show "card (elems r) \<le> card (elems t)"
    using least [OF t'(2)] t(2) by (simp add: r(1,2) t' elems_mk_range card_arc)
qed

lemma lattice_best:
  assumes "wf_range w r" "wf_range w s"
  shows "best_cover w (elems r \<inter> elems s) (intersectWith r s)"
    and "best_cover w (elems r \<union> elems s) (unionWith r s)"
proof -
  obtain a b where r: "r = mk_range w a b" "0 < w" "arc_ok (2 ^ w) a b" using wf_range_cases [OF assms(1)] by metis
  obtain c d where s: "s = mk_range w c d" "arc_ok (2 ^ w) c d" using wf_range_cases [OF assms(2)] by metis
  show "best_cover w (elems r \<inter> elems s) (intersectWith r s)" "best_cover w (elems r \<union> elems s) (unionWith r s)"
    using intersectWith_best [OF r(3) s(2) r(2)] unionWith_best [OF r(3) s(2) r(2)]
    by (simp_all add: r(1,3) s elems_mk_range)
qed

section \<open>Complement, subset and translation\<close>

lemma elems_inverse:
  assumes "wf_range w r"
  shows "elems (cr_inverse r) = {..<2 ^ w} - elems r" and "wf_range w (cr_inverse r)"
proof -
  obtain a b where r: "r = mk_range w a b" "0 < w" "arc_ok (2 ^ w) a b" using wf_range_cases [OF assms] by metis
  have one: "1 < (2 :: nat) ^ w" using r(2) by (rule one_less_exp)
  have inv: "cr_inverse r = (if a = b then (if a = 0 then mk_range w (2 ^ w - 1) (2 ^ w - 1) else mk_range w 0 0) else mk_range w b a)"
    using r(3) one unfolding r(1) by (auto simp: cr_inverse_def queries CR_mk_range arc_ok_def)
  have ok: "arc_ok (2 ^ w) b a" "arc_ok (2 ^ w) 0 0" "arc_ok (2 ^ w) (2 ^ w - 1) (2 ^ w - 1)"
    using r(3) one by (auto simp: arc_ok_def)
  show "elems (cr_inverse r) = {..<2 ^ w} - elems r"
  proof (cases "a = b")
    case True
    with r(3) one show ?thesis unfolding inv by (auto simp: r(1) elems_mk_range ok arc_def arc_ok_def)
  next
    case False
    with r(3) show ?thesis unfolding inv by (auto simp: r(1) elems_mk_range ok arc_def)
  qed
  show "wf_range w (cr_inverse r)" using ok r(2) unfolding inv by (simp add: wf_mk_range)
qed

lemma arc_subset_iff:
  assumes ok: "arc_ok m a b" "arc_ok m c d" and ne: "a \<noteq> b" "c \<noteq> d"
  shows "arc m c d \<subseteq> arc m a b \<longleftrightarrow>
    (if a < b then (if d < c then False else a \<le> c \<and> d \<le> b)
     else if c < d then d \<le> b \<or> a \<le> c else d \<le> b \<and> a \<le> c)"
proof
  assume sub: "arc m c d \<subseteq> arc m a b"
  have "c \<in> arc m c d" "d \<notin> arc m c d" using ok ne by (auto simp: arc_def arc_ok_def)
  moreover have "(if d = 0 then m - 1 else d - 1) \<in> arc m c d" using ok ne by (auto simp: arc_def arc_ok_def)
  moreover have "d < c \<Longrightarrow> m - 1 \<in> arc m c d" using ok by (auto simp: arc_def arc_ok_def)
  moreover have "b < m \<Longrightarrow> b \<notin> arc m a b" using ne by (auto simp: arc_def)
  ultimately have "c \<in> arc m a b" "(if d = 0 then m - 1 else d - 1) \<in> arc m a b" "d < c \<Longrightarrow> m - 1 \<in> arc m a b"
    "b \<notin> arc m c d" using sub ok by (auto simp: arc_ok_def)
  then show "if a < b then (if d < c then False else a \<le> c \<and> d \<le> b)
     else if c < d then d \<le> b \<or> a \<le> c else d \<le> b \<and> a \<le> c"
    using ok ne by (auto simp: arc_def arc_ok_def split: if_splits)
next
  assume "if a < b then (if d < c then False else a \<le> c \<and> d \<le> b)
     else if c < d then d \<le> b \<or> a \<le> c else d \<le> b \<and> a \<le> c"
  then show "arc m c d \<subseteq> arc m a b" using ok ne by (auto simp: arc_def arc_ok_def split: if_splits)
qed

section \<open>Extremal elements\<close>

text \<open>The signed order on the representatives: \<open>h\<close> is the sign bit.\<close>

definition sleq :: "nat \<Rightarrow> nat \<Rightarrow> nat \<Rightarrow> bool" where
  "sleq h x y \<longleftrightarrow> (if x < h \<longleftrightarrow> y < h then x \<le> y else y < h)"

lemma sval_le_iff:
  assumes "wf_apint w a" "wf_apint w b"
  shows "sval a \<le> sval b \<longleftrightarrow> sleq (2 ^ (w - 1)) (ival a) (ival b)"
proof -
  define h where "h = (2 :: nat) ^ (w - 1)"
  have e: "(2 :: nat) ^ w = 2 * h" "(2 :: int) ^ w = 2 * int h"
    using assms exp_halves [of w, where 'a = nat] exp_halves [of w, where 'a = int]
    by (simp_all add: h_def wf_apint_def)
  have sv: "sval x = (if ival x < h then int (ival x) else int (ival x) - 2 * int h)" "ival x < 2 * h"
    if "wf_apint w x" for x
    using that e by (simp_all add: sval_def wf_apint_def h_def)
  show ?thesis unfolding sleq_def h_def [symmetric] sv(1) [OF assms(1)] sv(1) [OF assms(2)]
    using sv(2) [OF assms(1)] sv(2) [OF assms(2)] by (cases "ival a < h"; cases "ival b < h") simp_all
qed

lemma slt_iff:
  assumes "wf_apint w a" "wf_apint w b"
  shows "slt a b \<longleftrightarrow> \<not> sleq (2 ^ (w - 1)) (ival b) (ival a)"
    and "sgt a b \<longleftrightarrow> \<not> sleq (2 ^ (w - 1)) (ival a) (ival b)"
    and "sle a b \<longleftrightarrow> sleq (2 ^ (w - 1)) (ival a) (ival b)"
    and "sge a b \<longleftrightarrow> sleq (2 ^ (w - 1)) (ival b) (ival a)"
  using sval_le_iff [OF assms] sval_le_iff [OF assms(2,1)]
  by (auto simp: slt_def sgt_def sle_def sge_def)

lemma getUnsigned_mk:
  assumes "arc_ok (2 ^ w) l u" and "0 < w"
  shows "ival (getUnsignedMax (mk_range w l u)) = (if l = u \<or> u < l then 2 ^ w - 1 else u - 1)"
    and "ival (getUnsignedMin (mk_range w l u)) = (if (l = u \<and> l = 2 ^ w - 1) \<or> (u < l \<and> u \<noteq> 0) then 0 else l)"
    and "wf_apint w (getUnsignedMax (mk_range w l u))" "wf_apint w (getUnsignedMin (mk_range w l u))"
proof -
  have wf: "wf_apint w (Upper (mk_range w l u))" "wf_apint w (Lower (mk_range w l u))"
    using assms by (simp_all add: wf_apint_def arc_ok_def)
  show "ival (getUnsignedMax (mk_range w l u)) = (if l = u \<or> u < l then 2 ^ w - 1 else u - 1)"
    using assms ival_dec [OF wf(1)] by (auto simp: getUnsignedMax_def queries ival_consts arc_ok_def)
  show "ival (getUnsignedMin (mk_range w l u)) = (if (l = u \<and> l = 2 ^ w - 1) \<or> (u < l \<and> u \<noteq> 0) then 0 else l)"
    by (auto simp: getUnsignedMin_def queries ival_consts)
  show "wf_apint w (getUnsignedMax (mk_range w l u))" "wf_apint w (getUnsignedMin (mk_range w l u))"
    using wf assms(2) by (simp_all add: getUnsignedMax_def getUnsignedMin_def)
qed

lemma getSigned_mk:
  assumes "arc_ok (2 ^ w) l u" and "0 < w"
  defines "h \<equiv> 2 ^ (w - 1)" and "u' \<equiv> (if u = 0 then 2 ^ w - 1 else u - 1)"
  shows "ival (getSignedMax (mk_range w l u)) =
      (if l \<le> u then (if sleq h l u' then u' else h - 1)
       else if (h \<le> l) = (h \<le> u) then h - 1 else u')"
    and "ival (getSignedMin (mk_range w l u)) =
      (if l \<le> u then (if sleq h l u' then l else h)
       else if \<not> sleq h l u' \<and> u \<noteq> h then h else l)"
    and "wf_apint w (getSignedMax (mk_range w l u))" "wf_apint w (getSignedMin (mk_range w l u))"
proof -
  have wf: "wf_apint w (Upper (mk_range w l u))" "wf_apint w (Lower (mk_range w l u))"
    using assms by (simp_all add: wf_apint_def arc_ok_def)
  have u': "ival (ap_dec (Upper (mk_range w l u))) = u'" by (simp add: ival_dec [OF wf(1)] u'_def)
  have wfd: "wf_apint w (ap_dec (Upper (mk_range w l u)))" using wf by simp
  show "ival (getSignedMax (mk_range w l u)) =
      (if l \<le> u then (if sleq h l u' then u' else h - 1)
       else if (h \<le> l) = (h \<le> u) then h - 1 else u')"
    using assms(2) by (simp add: getSignedMax_def queries slt_iff(3) [OF wf(2) wfd] u' ival_consts isNegative_def h_def not_less)
  show "ival (getSignedMin (mk_range w l u)) =
      (if l \<le> u then (if sleq h l u' then l else h)
       else if \<not> sleq h l u' \<and> u \<noteq> h then h else l)"
    using assms(2) by (simp add: getSignedMin_def queries slt_iff(1,3) [OF wfd wf(2)] slt_iff(3) [OF wf(2) wfd] u' ival_consts
      apint_eq_iff h_def not_less)
  show "wf_apint w (getSignedMax (mk_range w l u))" "wf_apint w (getSignedMin (mk_range w l u))"
    using wf wfd assms(2) by (simp_all add: getSignedMax_def getSignedMin_def Let_def)
qed

lemma unsigned_extremes:
  assumes "wf_range w r"
  shows "wf_apint w (getUnsignedMax r)" "wf_apint w (getUnsignedMin r)"
    and "v \<in> elems r \<Longrightarrow> v \<le> ival (getUnsignedMax r)" and "v \<in> elems r \<Longrightarrow> ival (getUnsignedMin r) \<le> v"
    and "elems r \<noteq> {} \<Longrightarrow> ival (getUnsignedMax r) \<in> elems r \<and> ival (getUnsignedMin r) \<in> elems r"
proof -
  obtain a b where r: "r = mk_range w a b" "0 < w" "arc_ok (2 ^ w) a b" using wf_range_cases [OF assms] by metis
  define m where "m = (2 :: nat) ^ w"
  have ok: "arc_ok m a b" "elems r = arc m a b" using r(3) by (simp_all add: m_def r(1) elems_mk_range)
  note g = getUnsigned_mk [OF r(3,2)]
  note g' = g(1,2) [folded m_def, folded r(1)]
  show "wf_apint w (getUnsignedMax r)" "wf_apint w (getUnsignedMin r)" using g by (simp_all add: r(1))
  show "v \<le> ival (getUnsignedMax r)" if "v \<in> elems r"
    using that [unfolded ok(2)] ok(1) unfolding g' by (cases a b rule: linorder_cases) (auto simp: arc_def arc_ok_def)
  show "ival (getUnsignedMin r) \<le> v" if "v \<in> elems r"
    using that [unfolded ok(2)] ok(1) unfolding g' by (cases a b rule: linorder_cases) (auto simp: arc_def arc_ok_def)
  show "ival (getUnsignedMax r) \<in> elems r \<and> ival (getUnsignedMin r) \<in> elems r" if "elems r \<noteq> {}"
  proof (cases a b rule: linorder_cases)
    case equal
    with that [unfolded ok(2)] ok(1) show ?thesis unfolding g' ok(2) by (cases "a = 0") (simp_all add: arc_def arc_ok_def)
  next
    case less
    with ok(1) show ?thesis unfolding g' ok(2) by (simp add: arc_def arc_ok_def) linarith
  next
    case greater
    with ok(1) show ?thesis unfolding g' ok(2) by (simp add: arc_def arc_ok_def) linarith
  qed
qed

lemma signed_extremes:
  assumes "wf_range w r"
  defines "h \<equiv> 2 ^ (w - 1)"
  shows "wf_apint w (getSignedMax r)" "wf_apint w (getSignedMin r)"
    and "v \<in> elems r \<Longrightarrow> sleq h v (ival (getSignedMax r))" and "v \<in> elems r \<Longrightarrow> sleq h (ival (getSignedMin r)) v"
    and "elems r \<noteq> {} \<Longrightarrow> ival (getSignedMax r) \<in> elems r \<and> ival (getSignedMin r) \<in> elems r"
proof -
  obtain a b where r: "r = mk_range w a b" "0 < w" "arc_ok (2 ^ w) a b" using wf_range_cases [OF assms(1)] by metis
  note g = getSigned_mk [OF r(3,2), folded h_def]
  define m where "m = (2 :: nat) ^ w"
  have m: "m = 2 * h" using exp_halves [OF r(2), where 'a = nat] by (simp add: h_def m_def)
  have ok: "arc_ok m a b" "elems r = arc m a b" using r(3) by (simp_all add: m_def r(1) elems_mk_range)
  note g' = g [folded m_def, folded r(1)]
  have h: "0 < h" by (simp add: h_def)
  show "wf_apint w (getSignedMax r)" "wf_apint w (getSignedMin r)" using g by (simp_all add: r(1))
  show "sleq h v (ival (getSignedMax r))" if "v \<in> elems r"
    using that [unfolded ok(2)] ok(1) h unfolding g'(1) m by (cases a b rule: linorder_cases) (auto simp: arc_def arc_ok_def sleq_def)
  show "sleq h (ival (getSignedMin r)) v" if "v \<in> elems r"
    using that [unfolded ok(2)] ok(1) h unfolding g'(2) m by (cases a b rule: linorder_cases) (auto simp: arc_def arc_ok_def sleq_def)
  show "ival (getSignedMax r) \<in> elems r \<and> ival (getSignedMin r) \<in> elems r" if "elems r \<noteq> {}"
  proof (cases a b rule: linorder_cases)
    case equal
    with that [unfolded ok(2)] ok(1) h show ?thesis unfolding g' ok(2) by (cases "a = 0") (auto simp: arc_def arc_ok_def sleq_def m)
  next
    case less
    with ok(1) have "0 < b" "b < 2 * h" "\<not> b < a" by (simp_all add: arc_ok_def m)
    with less h show ?thesis unfolding g' ok(2) sleq_def by (auto simp: arc_def m)
  next
    case greater
    with ok(1) have "a < 2 * h" "b < 2 * h" by (simp_all add: arc_ok_def m)
    with greater h show ?thesis unfolding g' ok(2) sleq_def by (cases "b = 0") (auto simp: arc_def m)
  qed
qed

end
