(* ===== verification/ConstantRangeSound.thy ===== *)
theory ConstantRangeSound
  imports ConstantRangeLattice
begin

text \<open>
  Soundness of the transfer functions: \<open>covers w X r\<close> says that \<open>r\<close> is a well-formed range of width
  \<open>w\<close> that holds all of \<open>X\<close>, and each function covers the image of its arguments under the operation
  it stands for. Well-formedness of the results is the assertion of the constructor, so the lemmas
  also show that no call of it can fail.
\<close>

section \<open>Arcs measured from their lower end\<close>

lemma arc_offset:
  assumes "arc_ok m l u" and "v < m"
  shows "v \<in> arc m l u \<longleftrightarrow> (int v - int l) mod int m < int (arc_size m l u)"
proof -
  have lm: "l < m" using assms by (simp add: arc_ok_def)
  have off: "(int v - int l) mod int m = (if l \<le> v then int v - int l else int v - int l + int m)"
  proof (cases "l \<le> v")
    case True
    then show ?thesis using assms(2) by (simp add: mod_pos_pos_trivial)
  next
    case False
    have "(int v - int l) mod int m = (int v - int l + int m) mod int m" by simp
    also have "\<dots> = int v - int l + int m" by (rule mod_pos_pos_trivial) (use False lm in auto)
    finally show ?thesis using False by simp
  qed
  consider "l = u" "l = 0" | "l = u" "l = m - 1" "l \<noteq> 0" | "l < u" | "u < l" using assms(1) unfolding arc_ok_def by (metis nat_neq_iff)
  then show ?thesis
    using assms unfolding off by cases (auto simp: arc_def arc_ok_def arc_size_def)
qed

lemma arc_size_int:
  assumes "arc_ok m l u" and "l \<noteq> u"
  shows "int (arc_size m l u) = (int u - int l) mod int m"
proof (cases "l \<le> u")
  case True
  then show ?thesis using assms by (simp add: arc_size_def arc_ok_def mod_pos_pos_trivial)
next
  case False
  have "(int u - int l) mod int m = (int u - int l + int m) mod int m" by simp
  also have "\<dots> = int u - int l + int m" by (rule mod_pos_pos_trivial) (use False assms in \<open>auto simp: arc_ok_def\<close>)
  finally show ?thesis using False assms by (auto simp: arc_size_def arc_ok_def)
qed

lemma arc_size_bounds: "arc_ok m l u \<Longrightarrow> arc_size m l u \<le> m" "arc_ok m l u \<Longrightarrow> l \<noteq> u \<Longrightarrow> 0 < arc_size m l u \<and> arc_size m l u < m"
  by (auto simp: arc_size_def arc_ok_def)

lemma ival_add_int: "bitWidth a = w \<Longrightarrow> int (ival (ap_add a b)) = (int (ival a) + int (ival b)) mod 2 ^ w"
  by (simp add: ap_add_def zmod_int)

lemma ival_sub_int:
  assumes "wf_apint w a" "wf_apint w b"
  shows "int (ival (ap_sub a b)) = (int (ival a) - int (ival b)) mod 2 ^ w"
proof -
  have "ival b \<le> 2 ^ w" using assms by (simp add: wf_apint_def less_imp_le)
  then have "int (ival a + (2 ^ w - ival b)) = int (ival a) - int (ival b) + 2 ^ w" by (simp add: of_nat_diff)
  then have "int ((ival a + (2 ^ w - ival b)) mod 2 ^ w) = (int (ival a) - int (ival b)) mod 2 ^ w"
    by (simp only: zmod_int of_nat_power of_nat_numeral mod_add_self2)
  then show ?thesis using assms by (simp only: ap_sub_def wf_apint_def ival_mk)
qed

lemma ival_incdec_int:
  assumes "wf_apint w a"
  shows "int (ival (ap_inc a)) = (int (ival a) + 1) mod 2 ^ w" "int (ival (ap_dec a)) = (int (ival a) - 1) mod 2 ^ w"
proof -
  have w: "bitWidth a = w" "0 < w" using assms by (simp_all add: wf_apint_def)
  have "wf_apint w (mk_apint w 1)" "ival (mk_apint w 1) = 1" using w(2) one_less_exp [OF w(2)] by simp_all
  then show "int (ival (ap_inc a)) = (int (ival a) + 1) mod 2 ^ w" "int (ival (ap_dec a)) = (int (ival a) - 1) mod 2 ^ w"
    using ival_sub_int [OF assms] ival_add_int [OF w(1)] by (simp_all add: ap_inc_def ap_dec_def w(1))
qed

text \<open>A range is determined up to its elements by the distance of its ends: every transfer function
  on sums and differences is an instance of this.\<close>

lemma arc_sum:
  fixes m :: nat
  assumes ok: "arc_ok m a b" "arc_ok m c d" "a \<noteq> b" "c \<noteq> d" "arc_ok m l u" "l \<noteq> u"
    and size: "int (arc_size m l u) = (int (arc_size m a b) + int (arc_size m c d) - 1) mod int m"
    and big: "arc_size m a b \<le> arc_size m l u" "arc_size m c d \<le> arc_size m l u"
    and v: "v < m" "(int v - int l) mod int m = (i + j) mod int m"
    and i: "0 \<le> i" "i < int (arc_size m a b)" and j: "0 \<le> j" "j < int (arc_size m c d)"
  shows "v \<in> arc m l u"
proof -
  let ?s = "arc_size m a b" and ?t = "arc_size m c d"
  have st: "0 < ?s" "?s < m" "0 < ?t" "?t < m" using arc_size_bounds ok by blast+
  have "?s + ?t - 1 < m"
  proof (rule ccontr)
    assume "\<not> ?s + ?t - 1 < m"
    then have "(int ?s + int ?t - 1) mod int m = (int ?s + int ?t - 1 - int m) mod int m"
      by simp
    also have "\<dots> = int ?s + int ?t - 1 - int m"
      by (rule mod_pos_pos_trivial) (use st \<open>\<not> ?s + ?t - 1 < m\<close> in auto)
    finally show False using size big st by linarith
  qed
  then have "int (arc_size m l u) = int ?s + int ?t - 1"
    using size st by (simp add: mod_pos_pos_trivial)
  moreover have "(i + j) mod int m = i + j"
    by (rule mod_pos_pos_trivial) (use i j \<open>?s + ?t - 1 < m\<close> st in auto)
  ultimately show ?thesis using arc_offset [OF ok(5) v(1)] v(2) i j by simp
qed

lemma range_tests:
  assumes "wf_range w r"
  shows "isEmptySet r \<longleftrightarrow> elems r = {}" and "isFullSet r \<longleftrightarrow> elems r = {..<2 ^ w}"
proof -
  obtain a b where r: "r = mk_range w a b" "0 < w" "arc_ok (2 ^ w) a b" using wf_range_cases [OF assms] by metis
  have one: "1 < (2 :: nat) ^ w" using r(2) by (rule one_less_exp)
  define m where "m = (2 :: nat) ^ w"
  have m: "1 < m" "arc_ok m a b" "elems r = arc m a b"
    using one r(3) by (simp_all add: m_def r(1) elems_mk_range)
  have "arc m a b = {} \<longleftrightarrow> card (arc m a b) = 0" using card_arc(2) [OF m(2)] by simp
  moreover have "arc m a b = {..<m} \<longleftrightarrow> card (arc m a b) = m"
  proof
    assume "card (arc m a b) = m"
    then show "arc m a b = {..<m}" by (intro card_subset_eq arc_trivial(3)) simp_all
  qed simp
  moreover have "(arc_size m a b = 0 \<longleftrightarrow> a = b \<and> a = 0) \<and> (arc_size m a b = m \<longleftrightarrow> a = b \<and> a = m - 1)"
  proof (cases a b rule: linorder_cases)
    case equal
    then have "a = m - 1 \<or> a = 0" using m(2) by (simp add: arc_ok_def)
    with equal m(1) show ?thesis by (auto simp: arc_size_def)
  qed (use m(1,2) in \<open>auto simp: arc_size_def arc_ok_def\<close>)
  ultimately show "isEmptySet r \<longleftrightarrow> elems r = {}" "isFullSet r \<longleftrightarrow> elems r = {..<2 ^ w}"
    unfolding m(3) m_def [symmetric] card_arc(1) [OF m(2)] by (simp_all add: r(1) queries m_def)
qed

lemma elems_sets: "0 < w \<Longrightarrow> elems (CR_set w True) = {..<2 ^ w} \<and> wf_range w (CR_set w True)"
  "0 < w \<Longrightarrow> elems (CR_set w False) = {} \<and> wf_range w (CR_set w False)"
  using one_less_exp [of w] by (simp_all add: queries elems_mk_range wf_mk_range arc_ok_def arc_trivial arc_def lessThan_def)

text \<open>What a transfer function has to deliver.\<close>

definition covers :: "nat \<Rightarrow> nat set \<Rightarrow> crange \<Rightarrow> bool" where
  "covers w X r \<longleftrightarrow> wf_range w r \<and> X \<subseteq> elems r"

lemma covers_full: "0 < w \<Longrightarrow> X \<subseteq> {..<2 ^ w} \<Longrightarrow> covers w X (CR_set w True)"
  by (simp add: covers_def elems_sets)

lemma covers_empty: "0 < w \<Longrightarrow> X = {} \<Longrightarrow> covers w X (CR_set w False)"
  by (simp add: covers_def elems_sets)

lemma covers_CR:
  assumes "wf_apint w L" "wf_apint w U" "ival L \<noteq> ival U" "X \<subseteq> arc (2 ^ w) (ival L) (ival U)"
  shows "covers w X (CR L U)"
proof -
  have w: "bitWidth L = w" "bitWidth U = w" "0 < w" using assms(1,2) by (auto simp: wf_apint_def)
  have ok: "arc_ok (2 ^ w) (ival L) (ival U)"
    using assms one_less_exp [OF w(3)] by (simp add: arc_ok_def wf_apint_def)
  then show ?thesis using assms(4) w
    by (simp add: covers_def CR_mk_range [OF w(1,2)] wf_mk_range elems_mk_range)
qed

lemma wf_range_sel: "wf_range w r \<Longrightarrow> wf_apint w (Lower r) \<and> wf_apint w (Upper r)"
  by (simp add: wf_range_def)

lemma wf_getBitWidth: "wf_range w r \<Longrightarrow> getBitWidth r = w \<and> 0 < w"
  by (simp add: wf_range_def wf_apint_def getBitWidth_def)

text \<open>A range that is neither full nor empty.\<close>

lemma proper_range:
  assumes "wf_range w r" "\<not> isEmptySet r" "\<not> isFullSet r"
  shows "arc_ok (2 ^ w) (ival (Lower r)) (ival (Upper r))" "ival (Lower r) \<noteq> ival (Upper r)"
    "elems r = arc (2 ^ w) (ival (Lower r)) (ival (Upper r))"
    "ival (getSetSize r) = arc_size (2 ^ w) (ival (Lower r)) (ival (Upper r))"
proof -
  obtain a b where r: "r = mk_range w a b" "0 < w" "arc_ok (2 ^ w) a b" using wf_range_cases [OF assms(1)] by metis
  show "arc_ok (2 ^ w) (ival (Lower r)) (ival (Upper r))" "ival (Lower r) \<noteq> ival (Upper r)"
    "elems r = arc (2 ^ w) (ival (Lower r)) (ival (Upper r))"
    "ival (getSetSize r) = arc_size (2 ^ w) (ival (Lower r)) (ival (Upper r))"
    using assms(2,3) r by (auto simp: queries elems_mk_range ival_getSetSize arc_ok_def)
qed

lemma size_CR:
  assumes "wf_apint w L" "wf_apint w U" "ival L \<noteq> ival U"
  shows "arc_ok (2 ^ w) (ival L) (ival U)" "ival (getSetSize (CR L U)) = arc_size (2 ^ w) (ival L) (ival U)"
proof -
  have w: "bitWidth L = w" "bitWidth U = w" "0 < w" using assms(1,2) by (auto simp: wf_apint_def)
  show ok: "arc_ok (2 ^ w) (ival L) (ival U)"
    using assms one_less_exp [OF w(3)] by (simp add: arc_ok_def wf_apint_def)
  show "ival (getSetSize (CR L U)) = arc_size (2 ^ w) (ival L) (ival U)"
    by (simp add: CR_mk_range [OF w(1,2)] ival_getSetSize [OF ok w(3)])
qed

section \<open>Sums and differences\<close>

lemma mod_lt: "0 < w \<Longrightarrow> x mod (2 :: nat) ^ w < 2 ^ w"
  by simp

text \<open>An element of a proper range by its distance from the lower end.\<close>

lemma proper_elem:
  assumes "wf_range w r" "\<not> isEmptySet r" "\<not> isFullSet r" and "x \<in> elems r"
  shows "x < 2 ^ w" "(int x - int (ival (Lower r))) mod 2 ^ w < int (ival (getSetSize r))"
proof -
  show x: "x < 2 ^ w" using elems_less assms(1,4) by blast
  show "(int x - int (ival (Lower r))) mod 2 ^ w < int (ival (getSetSize r))"
    using arc_offset [OF proper_range(1) [OF assms(1-3)] x] assms(4)
    by (simp only: proper_range(3,4) [OF assms(1-3)]) simp
qed

lemma mod_sum3: "(a mod m + b mod m - c) mod m = (a + b - c) mod m"
  and mod_diff3: "(a mod m - ((b mod m) + c) mod m) mod m = (a - b - c) mod m"
  and mod_diff3': "(((a mod m) - c) mod m - b mod m) mod m = (a - b - c) mod m" for a b c m :: int
proof -
  show "(a mod m + b mod m - c) mod m = (a + b - c) mod m" by (metis mod_add_eq mod_diff_left_eq)
  show "(a mod m - ((b mod m) + c) mod m) mod m = (a - b - c) mod m"
    by (simp add: mod_simps diff_diff_eq)
  show "(((a mod m) - c) mod m - b mod m) mod m = (a - b - c) mod m"
    by (simp add: mod_simps algebra_simps)
qed

lemma mod_sum4: "(a mod m + (b mod m - 1 - c mod m)) mod m = (a + b - 1 - c) mod m" for a b c m :: int
proof -
  have d: "m dvd x mod m - x" for x by (simp flip: mod_eq_dvd_iff)
  have "m dvd (a mod m - a) + (b mod m - b) - (c mod m - c)" by (intro dvd_add dvd_diff d)
  then show ?thesis by (simp add: mod_eq_dvd_iff algebra_simps)
qed

lemma cr_sum_covers:
  assumes r: "wf_range w r" "\<not> isEmptySet r" "\<not> isFullSet r"
    and s: "wf_range w s" "\<not> isEmptySet s" "\<not> isFullSet s"
    and LU: "wf_apint w L" "wf_apint w U" "L \<noteq> U"
    and big: "\<not> ult (getSetSize (CR L U)) (getSetSize r)" "\<not> ult (getSetSize (CR L U)) (getSetSize s)"
    and size: "(int (ival U) - int (ival L)) mod 2 ^ w =
      (int (ival (getSetSize r)) + int (ival (getSetSize s)) - 1) mod 2 ^ w"
    and X: "\<And>v. v \<in> X \<Longrightarrow> v < 2 ^ w \<and> (\<exists>i j. (int v - int (ival L)) mod 2 ^ w = (i + j) mod 2 ^ w \<and>
      0 \<le> i \<and> i < int (ival (getSetSize r)) \<and> 0 \<le> j \<and> j < int (ival (getSetSize s)))"
  shows "covers w X (CR L U)"
proof -
  have neq: "ival L \<noteq> ival U" using LU by (auto simp: apint_eq_iff wf_apint_def)
  note sz = size_CR [OF LU(1,2) neq]
  note pr = proper_range [OF r] and ps = proper_range [OF s]
  have "X \<subseteq> arc (2 ^ w) (ival L) (ival U)"
  proof
    fix v assume "v \<in> X"
    with X obtain i j where v: "v < 2 ^ w" "(int v - int (ival L)) mod 2 ^ w = (i + j) mod 2 ^ w"
      "0 \<le> i" "i < int (ival (getSetSize r))" "0 \<le> j" "j < int (ival (getSetSize s))" by blast
    show "v \<in> arc (2 ^ w) (ival L) (ival U)"
    proof (rule arc_sum [OF pr(1) ps(1) pr(2) ps(2) sz(1) neq])
      show "int (arc_size (2 ^ w) (ival L) (ival U)) = (int (arc_size (2 ^ w) (ival (Lower r)) (ival (Upper r))) +
          int (arc_size (2 ^ w) (ival (Lower s)) (ival (Upper s))) - 1) mod int (2 ^ w)"
        using size arc_size_int [OF sz(1) neq] by (simp add: pr(4) ps(4))
    qed (use v big in \<open>simp_all add: ult_def sz(2) flip: pr(4) ps(4)\<close>)
  qed
  then show ?thesis by (rule covers_CR [OF LU(1,2) neq])
qed

lemma proper_size:
  assumes "wf_range w r" "\<not> isEmptySet r" "\<not> isFullSet r"
  shows "int (ival (getSetSize r)) = (int (ival (Upper r)) - int (ival (Lower r))) mod 2 ^ w"
  using arc_size_int [OF proper_range(1,2) [OF assms]] by (simp add: proper_range(4) [OF assms])

lemma cr_add_covers:
  assumes r: "wf_range w r" and s: "wf_range w s"
  shows "covers w {(x + y) mod 2 ^ w |x y. x \<in> elems r \<and> y \<in> elems s} (cr_add r s)"
proof -
  let ?X = "{(x + y) mod 2 ^ w |x y. x \<in> elems r \<and> y \<in> elems s}"
  have w: "getBitWidth r = w" "0 < w" using wf_getBitWidth [OF r] by simp_all
  define L U where "L = ap_add (Lower r) (Lower s)" and "U = ap_dec (ap_add (Upper r) (Upper s))"
  have wfs: "wf_apint w (Lower r)" "wf_apint w (Upper r)" using wf_range_sel r by blast+
  have wf: "wf_apint w L" "wf_apint w U" using wfs by (simp_all add: L_def U_def)
  have bw: "bitWidth (Lower r) = w" "bitWidth (Upper r) = w" using wfs by (simp_all add: wf_apint_def)
  have Li: "int (ival L) = (int (ival (Lower r)) + int (ival (Lower s))) mod 2 ^ w"
    unfolding L_def by (rule ival_add_int [OF bw(1)])
  have Ui: "int (ival U) = ((int (ival (Upper r)) + int (ival (Upper s))) mod 2 ^ w - 1) mod 2 ^ w"
    unfolding U_def using ival_incdec_int(2) [OF wf_arith(1) [OF wfs(2)]] ival_add_int [OF bw(2)] by simp
  consider (empty) "isEmptySet r \<or> isEmptySet s"
    | (full) "\<not> (isEmptySet r \<or> isEmptySet s)" "isFullSet r \<or> isFullSet s \<or> L = U \<or>
        ult (getSetSize (CR L U)) (getSetSize r) \<or> ult (getSetSize (CR L U)) (getSetSize s)"
    | (sum) "\<not> isEmptySet r" "\<not> isEmptySet s" "\<not> isFullSet r" "\<not> isFullSet s" "L \<noteq> U"
        "\<not> ult (getSetSize (CR L U)) (getSetSize r)" "\<not> ult (getSetSize (CR L U)) (getSetSize s)"
    by blast
  then show ?thesis
  proof cases
    case empty
    then have "cr_add r s = CR_set w False" by (simp add: cr_add_def w)
    moreover have "covers w ?X (CR_set w False)"
      using empty range_tests(1) [OF r] range_tests(1) [OF s] by (intro covers_empty [OF w(2)]) auto
    ultimately show ?thesis by simp
  next
    case full
    then have "cr_add r s = CR_set w True" by (auto simp: cr_add_def w Let_def L_def U_def)
    moreover have "covers w ?X (CR_set w True)" using w(2) by (intro covers_full) auto
    ultimately show ?thesis by simp
  next
    case sum
    then have res: "cr_add r s = CR L U" by (simp add: cr_add_def w Let_def L_def U_def)
    show ?thesis unfolding res
    proof (rule cr_sum_covers [OF r sum(1,3) s sum(2,4) wf sum(5-7)])
      show "(int (ival U) - int (ival L)) mod 2 ^ w =
          (int (ival (getSetSize r)) + int (ival (getSetSize s)) - 1) mod 2 ^ w"
        unfolding proper_size [OF r sum(1,3)] proper_size [OF s sum(2,4)] Li Ui mod_sum3 mod_diff3'
        by (simp add: algebra_simps)
    next
      fix v assume "v \<in> ?X"
      then obtain x y where v: "v = (x + y) mod 2 ^ w" "x \<in> elems r" "y \<in> elems s" by blast
      have "(int v - int (ival L)) mod 2 ^ w =
          ((int x - int (ival (Lower r))) mod 2 ^ w + (int y - int (ival (Lower s))) mod 2 ^ w) mod 2 ^ w"
        unfolding Li v(1) zmod_int of_nat_add of_nat_power of_nat_numeral mod_diff_eq mod_add_eq
        by (simp add: algebra_simps)
      moreover have "v < 2 ^ w" by (simp add: v(1))
      ultimately show "v < 2 ^ w \<and> (\<exists>i j. (int v - int (ival L)) mod 2 ^ w = (i + j) mod 2 ^ w \<and>
          0 \<le> i \<and> i < int (ival (getSetSize r)) \<and> 0 \<le> j \<and> j < int (ival (getSetSize s)))"
        using proper_elem(2) [OF r sum(1,3) v(2)] proper_elem(2) [OF s sum(2,4) v(3)]
        by (metis pos_mod_sign zero_less_numeral zero_less_power)
    qed
  qed
qed

lemma cr_sub_covers:
  assumes r: "wf_range w r" and s: "wf_range w s"
  shows "covers w {(x + (2 ^ w - y)) mod 2 ^ w |x y. x \<in> elems r \<and> y \<in> elems s} (cr_sub r s)"
proof -
  let ?X = "{(x + (2 ^ w - y)) mod 2 ^ w |x y. x \<in> elems r \<and> y \<in> elems s}"
  have w: "getBitWidth r = w" "0 < w" using wf_getBitWidth [OF r] by simp_all
  define L U where "L = ap_inc (ap_sub (Lower r) (Upper s))" and "U = ap_sub (Upper r) (Lower s)"
  have wfs: "wf_apint w (Lower r)" "wf_apint w (Upper r)" "wf_apint w (Lower s)" "wf_apint w (Upper s)"
    using wf_range_sel r s by blast+
  have wf: "wf_apint w L" "wf_apint w U" using wfs by (simp_all add: L_def U_def)
  have Ui: "int (ival U) = (int (ival (Upper r)) - int (ival (Lower s))) mod 2 ^ w"
    unfolding U_def by (rule ival_sub_int [OF wfs(2,3)])
  have Li: "int (ival L) = ((int (ival (Lower r)) - int (ival (Upper s))) mod 2 ^ w + 1) mod 2 ^ w"
    unfolding L_def using ival_incdec_int(1) [OF wf_arith(2) [OF wfs(1)]] ival_sub_int [OF wfs(1,4)] by simp
  consider (empty) "isEmptySet r \<or> isEmptySet s"
    | (full) "\<not> (isEmptySet r \<or> isEmptySet s)" "isFullSet r \<or> isFullSet s \<or> L = U \<or>
        ult (getSetSize (CR L U)) (getSetSize r) \<or> ult (getSetSize (CR L U)) (getSetSize s)"
    | (sum) "\<not> isEmptySet r" "\<not> isEmptySet s" "\<not> isFullSet r" "\<not> isFullSet s" "L \<noteq> U"
        "\<not> ult (getSetSize (CR L U)) (getSetSize r)" "\<not> ult (getSetSize (CR L U)) (getSetSize s)"
    by blast
  then show ?thesis
  proof cases
    case empty
    then have "cr_sub r s = CR_set w False" by (simp add: cr_sub_def w)
    moreover have "covers w ?X (CR_set w False)"
      using empty range_tests(1) [OF r] range_tests(1) [OF s] by (intro covers_empty [OF w(2)]) auto
    ultimately show ?thesis by simp
  next
    case full
    then have "cr_sub r s = CR_set w True" by (auto simp: cr_sub_def w Let_def L_def U_def)
    moreover have "covers w ?X (CR_set w True)" using w(2) by (intro covers_full) auto
    ultimately show ?thesis by simp
  next
    case sum
    then have res: "cr_sub r s = CR L U" by (simp add: cr_sub_def w Let_def L_def U_def)
    show ?thesis unfolding res
    proof (rule cr_sum_covers [OF r sum(1,3) s sum(2,4) wf sum(5-7)])
      show "(int (ival U) - int (ival L)) mod 2 ^ w =
          (int (ival (getSetSize r)) + int (ival (getSetSize s)) - 1) mod 2 ^ w"
        unfolding proper_size [OF r sum(1,3)] proper_size [OF s sum(2,4)] Li Ui mod_sum3 mod_diff3
        by (simp add: algebra_simps)
    next
      fix v assume "v \<in> ?X"
      then obtain x y where v: "v = (x + (2 ^ w - y)) mod 2 ^ w" "x \<in> elems r" "y \<in> elems s" by blast
      have y: "y < 2 ^ w" "(int y - int (ival (Lower s))) mod 2 ^ w < int (ival (getSetSize s))"
        by (rule proper_elem [OF s sum(2,4) v(3)])+
      define j where "j = int (ival (getSetSize s)) - 1 - (int y - int (ival (Lower s))) mod 2 ^ w"
      have e: "int (x + (2 ^ w - y)) = int x - int y + 2 ^ w" using y(1) by (simp add: of_nat_diff)
      have vi: "int v = (int x - int y) mod 2 ^ w"
        by (simp only: v(1) zmod_int of_nat_power of_nat_numeral e mod_add_self2)
      have "(int v - int (ival L)) mod 2 ^ w = ((int x - int (ival (Lower r))) mod 2 ^ w + j) mod 2 ^ w"
        unfolding Li vi j_def proper_size [OF s sum(2,4)] mod_diff3 mod_sum4 by (simp add: algebra_simps)
      moreover have "v < 2 ^ w" by (simp add: v(1))
      moreover have "0 \<le> j" "j < int (ival (getSetSize s))"
      proof -
        have "0 \<le> (int y - int (ival (Lower s))) mod 2 ^ w" by (rule pos_mod_sign) simp
        then show "0 \<le> j" "j < int (ival (getSetSize s))" using y(2) unfolding j_def by linarith+
      qed
      ultimately show "v < 2 ^ w \<and> (\<exists>i j. (int v - int (ival L)) mod 2 ^ w = (i + j) mod 2 ^ w \<and>
          0 \<le> i \<and> i < int (ival (getSetSize r)) \<and> 0 \<le> j \<and> j < int (ival (getSetSize s)))"
        using proper_elem(2) [OF r sum(1,3) v(2)]
        by (metis pos_mod_sign zero_less_numeral zero_less_power)
    qed
  qed
qed

section \<open>Extensions\<close>

lemma exp_mono: "w < d \<Longrightarrow> (2 :: nat) ^ w < 2 ^ d" "w \<le> d \<Longrightarrow> (2 :: nat) ^ w \<le> 2 ^ d"
  by (simp_all add: power_strict_increasing power_increasing)

lemma proper_elems_arc:
  assumes "wf_range w r"
  obtains (empty) "isEmptySet r" "elems r = {}" | (full) "isFullSet r" "\<not> isEmptySet r" "elems r = {..<2 ^ w}"
  | (proper) l u where "\<not> isEmptySet r" "\<not> isFullSet r" "arc_ok (2 ^ w) l u" "l \<noteq> u" "elems r = arc (2 ^ w) l u" "ival (Lower r) = l"
    "ival (Upper r) = u" "isWrappedSet r \<longleftrightarrow> u < l"
proof -
  consider "isEmptySet r" | "isFullSet r" "\<not> isEmptySet r" | "\<not> isEmptySet r" "\<not> isFullSet r" by blast
  then show thesis
  proof cases
    case 1
    with range_tests(1) [OF assms] show thesis by (blast intro: empty)
  next
    case 2
    with range_tests(2) [OF assms] show thesis by (blast intro: full)
  next
    case 3
    show thesis
      by (rule proper [OF 3 proper_range(1-3) [OF assms 3] refl refl]) (simp add: isWrappedSet_def ugt_def)
  qed
qed

lemma covers_CRI:
  assumes "M = 2 ^ w" "wf_apint w L" "wf_apint w U" "ival L = a" "ival U = b" "a \<noteq> b" "X \<subseteq> arc M a b"
  shows "covers w X (CR L U)"
  using covers_CR [OF assms(2,3)] assms by simp

lemma zeroExtend_covers:
  assumes r: "wf_range w r" and d: "w < d"
  shows "covers d (elems r) (zeroExtend r d)"
proof -
  have w: "getBitWidth r = w" "0 < w" using wf_getBitWidth [OF r] by simp_all
  define m M where "m = (2 :: nat) ^ w" and "M = (2 :: nat) ^ d"
  have mM: "m < M" unfolding m_def M_def using d by (rule exp_mono)
  have one: "1 < m" unfolding m_def using w by (intro one_less_exp)
  have wfd: "wf_apint d (mk_apint d v)" for v using d by simp
  have small: "ival (mk_apint d v) = v" if "v < M" for v using that by (simp add: M_def)
  have bound: "ival (getOneBitSet d w) = m" using mM by (simp add: getOneBitSet_def m_def M_def)
  have wfb: "wf_apint d (getOneBitSet d w)" using d by (simp add: getOneBitSet_def)
  show ?thesis
  proof (rule proper_elems_arc [OF r])
    assume "isEmptySet r" "elems r = {}"
    then show ?thesis using covers_empty [of d "{}"] d by (simp add: zeroExtend_def)
  next
    assume f: "isFullSet r" "\<not> isEmptySet r" "elems r = {..<2 ^ w}"
    then have u: "ival (Upper r) \<noteq> 0" by (auto simp: isFullSet_def isEmptySet_def isMinValue_def)
    have res: "zeroExtend r d = CR (mk_apint d 0) (getOneBitSet d w)"
      using f u by (simp add: zeroExtend_def w)
    have "{..<m} \<subseteq> arc M 0 m" using one mM by (auto simp: arc_def)
    then show ?thesis unfolding res f(3) m_def [symmetric]
      using one mM by (intro covers_CRI [OF M_def wfd wfb small bound]) auto
  next
    fix l u
    assume p: "\<not> isEmptySet r" "\<not> isFullSet r" "arc_ok (2 ^ w) l u" "l \<noteq> u" "elems r = arc (2 ^ w) l u" "ival (Lower r) = l"
    "ival (Upper r) = u" "isWrappedSet r \<longleftrightarrow> u < l"
    note ok = p(3) [folded m_def] and el = p(5) [folded m_def]
    have lu: "l < m" "u < m" using ok by (simp_all add: arc_ok_def)
    show ?thesis
    proof (cases "u < l")
      case True
      then have res: "zeroExtend r d = CR (mk_apint d (if u = 0 then l else 0)) (getOneBitSet d w)"
        using p by (simp add: zeroExtend_def w ap_zext_def)
      have "arc m l u \<subseteq> arc M (if u = 0 then l else 0) m" using True lu mM one by (auto simp: arc_def)
      then show ?thesis unfolding res el
        using lu mM one by (intro covers_CRI [OF M_def wfd wfb small bound]) auto
    next
      case False
      then have res: "zeroExtend r d = CR (mk_apint d l) (mk_apint d u)"
        using p by (simp add: zeroExtend_def w ap_zext_def)
      have "arc m l u \<subseteq> arc M l u" using False lu mM p(4) by (auto simp: arc_def)
      then show ?thesis unfolding res el
        using lu mM p(4) by (intro covers_CRI [OF M_def wfd wfd small small]) auto
    qed
  qed
qed

text \<open>Sign extension of a representative.\<close>

definition sxt :: "nat \<Rightarrow> nat \<Rightarrow> nat \<Rightarrow> nat" where
  "sxt w d v = (if v < 2 ^ (w - 1) then v else v + 2 ^ d - 2 ^ w)"

lemma ival_sext:
  assumes "wf_apint w a" and "w \<le> d"
  shows "ival (ap_sext a d) = sxt w d (ival a)" and "wf_apint d (ap_sext a d)" "sxt w d (ival a) < 2 ^ d"
proof -
  have a: "bitWidth a = w" "0 < w" "ival a < 2 ^ w" using assms(1) by (auto simp: wf_apint_def)
  have m: "(2 :: nat) ^ w \<le> 2 ^ d" using assms(2) by (rule exp_mono)
  have mi: "(2 :: int) ^ w \<le> 2 ^ d" using assms(2) by (simp add: power_increasing)
  have ai: "int (ival a) < 2 ^ w" using a(3) by (metis of_nat_less_iff of_nat_numeral of_nat_power)
  have "ival a < 2 ^ d" "ival a + 2 ^ d - 2 ^ w < 2 ^ d" using a(3) m by linarith+
  then show lt: "sxt w d (ival a) < 2 ^ d" by (simp add: sxt_def)
  have "int (sxt w d (ival a)) = sval a mod 2 ^ d"
  proof (cases "ival a < 2 ^ (w - 1)")
    case True
    moreover have "int (ival a) mod 2 ^ d = int (ival a)"
      by (rule mod_pos_pos_trivial) (use ai mi in linarith)+
    ultimately show ?thesis using a by (simp add: sxt_def sval_def)
  next
    case False
    have "sval a mod 2 ^ d = (int (ival a) - 2 ^ w + 2 ^ d) mod 2 ^ d" using False a by (simp add: sval_def)
    also have "\<dots> = int (ival a) - 2 ^ w + 2 ^ d" by (rule mod_pos_pos_trivial) (use ai mi in linarith)+
    also have "\<dots> = int (ival a + 2 ^ d - 2 ^ w)"
      using trans_le_add2 [OF m, of "ival a"] by (simp only: of_nat_diff of_nat_add of_nat_power of_nat_numeral)
    finally show ?thesis using False by (simp add: sxt_def)
  qed
  then show "ival (ap_sext a d) = sxt w d (ival a)"
    by (metis ap_sext_def of_sval_def apint.select_convs(2) nat_int)
  with lt a(2) assms(2) show "wf_apint d (ap_sext a d)" by (simp add: wf_apint_def)
qed

text \<open>The four shapes of the result, on numbers: \<open>h\<close> is the sign bit, \<open>2 * h\<close> and \<open>M\<close> the moduli.\<close>

definition sxn :: "nat \<Rightarrow> nat \<Rightarrow> nat \<Rightarrow> nat" where
  "sxn h M v = (if v < h then v else v + M - 2 * h)"

lemma sxn_arcs:
  assumes h: "0 < h" "2 * h < M"
  shows "arc_ok (2 * h) l u \<Longrightarrow> sxn h M ` arc (2 * h) l u \<subseteq> arc M (M - h) h"
    and "arc_ok (2 * h) l u \<Longrightarrow> l \<noteq> u \<Longrightarrow> u = h \<Longrightarrow> sxn h M ` arc (2 * h) l u \<subseteq> arc M (sxn h M l) h \<and> sxn h M l \<noteq> h"
    and "arc_ok (2 * h) l u \<Longrightarrow> l \<noteq> u \<Longrightarrow> u \<noteq> h \<Longrightarrow> h - 1 \<notin> arc (2 * h) l u \<or> h \<notin> arc (2 * h) l u \<Longrightarrow>
      sxn h M ` arc (2 * h) l u \<subseteq> arc M (sxn h M l) (sxn h M u) \<and> sxn h M l \<noteq> sxn h M u"
proof -
  show "sxn h M ` arc (2 * h) l u \<subseteq> arc M (M - h) h" if "arc_ok (2 * h) l u"
    using h by (auto simp: sxn_def arc_def)
  show "sxn h M ` arc (2 * h) l u \<subseteq> arc M (sxn h M l) h \<and> sxn h M l \<noteq> h"
    if ok: "arc_ok (2 * h) l u" and u: "l \<noteq> u" "u = h"
  proof (cases "l < h")
    case True
    with h u show ?thesis by (auto simp: sxn_def arc_def)
  next
    case False
    with h u ok show ?thesis by (auto simp: sxn_def arc_def arc_ok_def)
  qed
  show "sxn h M ` arc (2 * h) l u \<subseteq> arc M (sxn h M l) (sxn h M u) \<and> sxn h M l \<noteq> sxn h M u"
    if ok: "arc_ok (2 * h) l u" and u: "l \<noteq> u" "u \<noteq> h" and nw: "h - 1 \<notin> arc (2 * h) l u \<or> h \<notin> arc (2 * h) l u"
  proof -
    have lt: "l < 2 * h" "u < 2 * h" using ok by (simp_all add: arc_ok_def)
    consider "l < h" "u < h" "l < u" | "l \<ge> h" "u > h" "l < u" | "l \<ge> h" "u < h"
    proof -
      have "\<not> (l < h \<and> h < u)" "\<not> (u < l \<and> l < h)" "\<not> (h < u \<and> u < l)"
        using nw lt h by (auto simp: arc_def)
      then show thesis using that u by linarith
    qed
    then show ?thesis
      by cases (use h lt in \<open>auto simp: sxn_def arc_def\<close>)
  qed
qed

lemma signExtend_covers:
  assumes r: "wf_range w r" and d: "w < d"
  shows "covers d (sxt w d ` elems r) (signExtend r d)"
proof -
  have w: "getBitWidth r = w" "0 < w" using wf_getBitWidth [OF r] by simp_all
  define h m M where "h = (2 :: nat) ^ (w - 1)" and "m = (2 :: nat) ^ w" and "M = (2 :: nat) ^ d"
  have hm: "m = 2 * h" "0 < h" using exp_halves [OF w(2), where 'a = nat] by (simp_all add: m_def h_def)
  have mM: "m < M" unfolding m_def M_def using d by (rule exp_mono)
  have sx: "sxt w d = sxn h M" by (rule ext) (simp add: sxt_def sxn_def h_def M_def hm(1) [unfolded m_def])
  have wfr: "wf_apint w (Lower r)" "wf_apint w (Upper r)" using wf_range_sel r by blast+
  have low: "ival (ap_sext (Lower r) d) = sxt w d (ival (Lower r))" "wf_apint d (ap_sext (Lower r) d)"
    using ival_sext [OF wfr(1)] d by simp_all
  have up: "ival (ap_sext (Upper r) d) = sxt w d (ival (Upper r))" "wf_apint d (ap_sext (Upper r) d)"
    using ival_sext [OF wfr(2)] d by simp_all
  have "ival (Upper r) < 2 ^ d" using ival_less [OF wfr(2)] mM unfolding m_def M_def by (rule less_trans)
  then have upz: "ival (ap_zext (Upper r) d) = ival (Upper r)" "wf_apint d (ap_zext (Upper r) d)"
    using d by (simp_all add: ap_zext_def)
  have hb: "ival (getHighBitsSet d (d - w + 1)) = M - h" "wf_apint d (getHighBitsSet d (d - w + 1))"
  proof -
    have "d - (d - w + 1) = w - 1" using d w(2) by simp
    then show "ival (getHighBitsSet d (d - w + 1)) = M - h" "wf_apint d (getHighBitsSet d (d - w + 1))"
      using d hm mM by (simp_all add: getHighBitsSet_def h_def M_def)
  qed
  have lb: "ival (ap_inc (getLowBitsSet d (w - 1))) = h" "wf_apint d (ap_inc (getLowBitsSet d (w - 1)))"
  proof -
    have wf: "wf_apint d (getLowBitsSet d (w - 1))" using d by (simp add: getLowBitsSet_def)
    have "ival (getLowBitsSet d (w - 1)) = h - 1" using hm mM by (simp add: getLowBitsSet_def h_def M_def less_imp_diff_less)
    then show "ival (ap_inc (getLowBitsSet d (w - 1))) = h"
      unfolding ival_inc [OF wf] using hm mM by (simp add: M_def)
    show "wf_apint d (ap_inc (getLowBitsSet d (w - 1)))" using wf by (rule wf_arith)
  qed
  have minS: "isMinSignedValue (Upper r) \<longleftrightarrow> ival (Upper r) = h"
    using wfr w by (simp add: isMinSignedValue_def apint_eq_iff ival_consts h_def wf_apint_def)
  have signw: "isSignWrappedSet r \<longleftrightarrow> h - 1 \<in> elems r \<and> h \<in> elems r"
    using elems_contains [OF r] w by (simp add: isSignWrappedSet_def ival_consts h_def)
  show ?thesis
  proof (rule proper_elems_arc [OF r])
    assume "isEmptySet r" "elems r = {}"
    then show ?thesis using covers_empty [of d "{}"] d by (simp add: signExtend_def)
  next
    assume f: "isFullSet r" "\<not> isEmptySet r" "elems r = {..<2 ^ w}"
    from f(1) have e: "Lower r = Upper r" "isMaxValue (Lower r)" unfolding isFullSet_def by blast+
    have "Lower r = getMaxValue w" using e(2) wf_bitWidth [OF wfr(1)] by (simp add: isMaxValue_def)
    with e(1) have lu: "ival (Lower r) = m - 1" "ival (Upper r) = m - 1" by (simp_all add: ival_consts m_def flip: e(1))
    have okf: "arc_ok m (m - 1) (m - 1)" "elems r = arc m (m - 1) (m - 1)"
      using hm f(3) unfolding arc_trivial(2) by (simp_all add: arc_ok_def m_def)
    show ?thesis
    proof (cases "m - 1 = h")
      case True
      then have m2: "h = 1" "m = 2" using hm by simp_all
      have res: "signExtend r d = CR (ap_sext (Lower r) d) (ap_zext (Upper r) d)"
        using f minS lu True by (simp add: signExtend_def)
      have "sxt w d ` elems r \<subseteq> arc M (M - 1) 1"
        using sxn_arcs(1) [OF hm(2), of M "m - 1" "m - 1"] mM okf by (simp add: sx hm(1) m2)
      moreover have "sxt w d (m - 1) = M - 1" using mM by (simp add: sx m2 sxn_def)
      ultimately show ?thesis unfolding res
        using mM by (intro covers_CRI [OF M_def low(2) upz(2) low(1) upz(1)]) (simp_all add: lu m2)
    next
      case False
      then have res: "signExtend r d = CR (getHighBitsSet d (d - w + 1)) (ap_inc (getLowBitsSet d (w - 1)))"
        using f minS lu w by (simp add: signExtend_def)
      have "sxt w d ` elems r \<subseteq> arc M (M - h) h"
        using sxn_arcs(1) [OF hm(2), of M "m - 1" "m - 1"] mM okf by (simp add: sx hm(1))
      then show ?thesis unfolding res
        using mM hm by (intro covers_CRI [OF M_def hb(2) lb(2) hb(1) lb(1)]) simp_all
    qed
  next
    fix l u
    assume p: "\<not> isEmptySet r" "\<not> isFullSet r" "arc_ok (2 ^ w) l u" "l \<noteq> u" "elems r = arc (2 ^ w) l u" "ival (Lower r) = l"
    "ival (Upper r) = u" "isWrappedSet r \<longleftrightarrow> u < l"
    have ok: "arc_ok (2 * h) l u" "elems r = arc (2 * h) l u" using p(3,5) hm(1) by (simp_all add: m_def)
    have M: "2 * h < M" using mM hm by simp
    consider "u = h" | (sw) "u \<noteq> h" "h - 1 \<in> arc (2 * h) l u" "h \<in> arc (2 * h) l u"
      | (ns) "u \<noteq> h" "h - 1 \<notin> arc (2 * h) l u \<or> h \<notin> arc (2 * h) l u" by blast
    then show ?thesis
    proof cases
      case 1
      then have res: "signExtend r d = CR (ap_sext (Lower r) d) (ap_zext (Upper r) d)"
        using p minS by (simp add: signExtend_def)
      show ?thesis unfolding res ok(2) sx
        using sxn_arcs(2) [OF hm(2) M ok(1) p(4) 1]
        by (intro covers_CRI [OF M_def low(2) upz(2) low(1) upz(1)]) (simp_all add: p(6,7) sx 1)
    next
      case sw
      then have res: "signExtend r d = CR (getHighBitsSet d (d - w + 1)) (ap_inc (getLowBitsSet d (w - 1)))"
        using p minS signw w ok(2) by (simp add: signExtend_def)
      show ?thesis unfolding res ok(2) sx
        using sxn_arcs(1) [OF hm(2) M ok(1)] M
        by (intro covers_CRI [OF M_def hb(2) lb(2) hb(1) lb(1)]) simp_all
    next
      case ns
      then have res: "signExtend r d = CR (ap_sext (Lower r) d) (ap_sext (Upper r) d)"
        using p minS signw w ok(2) by (auto simp: signExtend_def)
      show ?thesis unfolding res ok(2) sx
        using sxn_arcs(3) [OF hm(2) M ok(1) p(4) ns]
        by (intro covers_CRI [OF M_def low(2) up(2) low(1) up(1)]) (simp_all add: p(6,7) sx)
    qed
  qed
qed

section \<open>Truncation\<close>

lemma covers_union:
  assumes "covers w X r" "covers w Y s"
  shows "covers w (X \<union> Y) (unionWith r s)"
proof -
  have wf: "wf_range w r" "wf_range w s" using assms by (simp_all add: covers_def)
  have "0 < w" using wf_getBitWidth [OF wf(1)] by simp
  from best_coverD(1,2) [OF lattice_best(2) [OF wf] this] assms show ?thesis
    by (auto simp: covers_def)
qed

text \<open>Subtracting the multiple of \<open>n\<close> below the lower bound does not change the residues.\<close>

lemma residues_shift:
  fixes x y n :: nat
  assumes "x < y" "0 < n"
  defines "q \<equiv> x div n"
  shows "(\<lambda>v. v mod n) ` {x..<y} = (\<lambda>v. v mod n) ` {x mod n..<y - n * q}"
proof -
  define a b where "a = x mod n" and "b = y - n * q"
  have x: "x = a + n * q" by (simp add: q_def a_def)
  then have y: "y = b + n * q" using assms(1) by (simp add: b_def)
  have "{x..<y} = (\<lambda>v. v + n * q) ` {a..<b}" unfolding x y by (simp add: image_add_atLeastLessThan')
  then have "(\<lambda>v. v mod n) ` {x..<y} = (\<lambda>v. (v + n * q) mod n) ` {a..<b}" by (simp only: image_image)
  then show ?thesis by (simp add: a_def b_def)
qed

lemma residues_arc:
  fixes x y n :: nat
  assumes n: "1 < n" and x: "x < n" "x < y"
  shows "y \<le> n - 1 \<Longrightarrow> (\<lambda>v. v mod n) ` {x..<y} \<subseteq> arc n x y"
    and "n - 1 < y \<Longrightarrow> y - n < x \<Longrightarrow> (\<lambda>v. v mod n) ` {x..<y} \<subseteq> arc n x (y - n)"
proof -
  show "(\<lambda>v. v mod n) ` {x..<y} \<subseteq> arc n x y" if "y \<le> n - 1"
    using that x n by (auto simp: arc_def)
  show "(\<lambda>v. v mod n) ` {x..<y} \<subseteq> arc n x (y - n)" if y: "n - 1 < y" "y - n < x"
  proof clarify
    fix v assume "v \<in> {x..<y}"
    then have v: "x \<le> v" "v < y" by auto
    show "v mod n \<in> arc n x (y - n)"
    proof (cases "v < n")
      case False
      then have "v - n < n" using v y x by linarith
      then have "v mod n = v - n" using False by (simp add: le_mod_geq)
      then show ?thesis using v y x False by (auto simp: arc_def)
    qed (use v y x in \<open>auto simp: arc_def\<close>)
  qed
qed

lemma truncate_interval_covers:
  assumes d: "0 < d" "d < w" and wf: "wf_apint w L" "wf_apint w U" and lt: "ival L < ival U"
    and cov: "covers d Y s" and exact: "w \<le> 128 \<or> d < 64"
  shows "covers d ((\<lambda>v. v mod 2 ^ d) ` {ival L..<ival U} \<union> Y) (truncate_interval w d L U s)"
proof -
  define n m where "n = (2 :: nat) ^ d" and "m = (2 :: nat) ^ w"
  have nm: "n < m" unfolding n_def m_def using d(2) by (rule exp_mono)
  have n1: "1 < n" unfolding n_def using d(1) by (rule one_less_exp)
  have bounds: "ival L < m" "ival U < m" using ival_less wf by (simp_all add: m_def)
  have maxv: "ival (ap_zext (getMaxValue d) w) = n - 1"
    using nm n1 by (simp add: ap_zext_def ival_consts less_imp_diff_less n_def m_def)
  have mb: "ival (getOneBitSet w d) = n" "wf_apint w (getOneBitSet w d)"
    using nm d by (simp_all add: getOneBitSet_def n_def m_def)
  define q where "q = (if n - 1 \<le> ival L then ival L div n else 0)"
  define L' where "L' = (if uge L (ap_zext (getMaxValue d) w) then ap_urem L (getOneBitSet w d) else L)"
  define U' where "U' = (if uge L (ap_zext (getMaxValue d) w)
    then ap_sub U (ap_mul (getOneBitSet w d) (ap_udiv L (getOneBitSet w d))) else U)"
  have bw: "bitWidth L = w" "bitWidth U = w" "0 < w" using wf by (auto simp: wf_apint_def)
  have qL: "n * q \<le> ival L" by (simp add: q_def)
  have L': "ival L' = ival L - n * q" "wf_apint w L'"
  proof -
    have "ival L mod n < m" using bounds(1) mod_less_eq_dividend [of "ival L" n] by linarith
    then show "ival L' = ival L - n * q"
      by (auto simp: L'_def uge_def maxv q_def ap_urem_def mb(1) bw m_def minus_mult_div_eq_mod)
    show "wf_apint w L'" using wf bw by (simp add: L'_def ap_urem_def)
  qed
  have U': "ival U' = ival U - n * q" "wf_apint w U'"
  proof -
    have div: "ival (ap_udiv L (getOneBitSet w d)) = ival L div n"
    proof -
      have "ival L div n < m" using bounds(1) div_le_dividend [of "ival L" n] by linarith
      then show ?thesis by (simp add: ap_udiv_def mb(1) bw m_def)
    qed
    have "n * (ival L div n) < m" using bounds(1) times_div_less_eq_dividend [of n "ival L"] by linarith
    then have mul: "ival (ap_mul (getOneBitSet w d) (ap_udiv L (getOneBitSet w d))) = n * (ival L div n)"
      by (simp add: ap_mul_def div mb(1) wf_bitWidth [OF mb(2)] m_def)
    have le: "n * (ival L div n) \<le> ival U" using lt times_div_less_eq_dividend [of n "ival L"] by linarith
    show "ival U' = ival U - n * q"
      using le by (simp add: U'_def uge_def maxv q_def ival_sub [OF wf(2) wf_arith(3) [OF mb(2)]] mul)
    show "wf_apint w U'" using wf by (simp add: U'_def)
  qed
  have L'n: "ival L' < n"
  proof (cases "n - 1 \<le> ival L")
    case True
    then have "ival L' = ival L mod n" using L'(1) by (simp add: q_def minus_mult_div_eq_mod)
    then show ?thesis using n1 by simp
  next
    case False
    then show ?thesis using L'(1) by (simp add: q_def)
  qed
  have L'U': "ival L' < ival U'" using lt qL L'(1) U'(1) by simp
  have res: "(\<lambda>v. v mod n) ` {ival L..<ival U} = (\<lambda>v. v mod n) ` {ival L'..<ival U'}"
  proof (cases "n - 1 \<le> ival L")
    case True
    then have "ival L' = ival L mod n" using L'(1) by (simp add: q_def minus_mult_div_eq_mod)
    then show ?thesis using residues_shift [OF lt, of n] n1 U'(1) True by (simp add: q_def)
  qed (use L'(1) U'(1) in \<open>simp add: q_def\<close>)
  have trL: "ival (ap_trunc L' d) = ival L'" "wf_apint d (ap_trunc L' d)"
    using L'n d(1) by (simp_all add: ap_trunc_def n_def)
  have small: "w \<le> 128 \<or> n < 2 ^ 64" using exact power_strict_increasing [of d 64 "2 :: nat"] by (auto simp: n_def)
  have divs: "APInt_udiv L (getOneBitSet w d) = ap_udiv L (getOneBitSet w d)" "APInt_urem L (getOneBitSet w d) = ap_urem L (getOneBitSet w d)"
    using APInt_udiv_exact [OF wf(1) mb(2), unfolded mb(1)] small n1 by auto
  have "wf_apint w (ap_udiv L (getOneBitSet w d))" using bw by (simp add: ap_udiv_def)
  then have prod: "APInt_mul (getOneBitSet w d) (ap_udiv L (getOneBitSet w d)) = ap_mul (getOneBitSet w d) (ap_udiv L (getOneBitSet w d))"
    using APInt_mul_exact [OF mb(2), unfolded mb(1)] small by blast
  have eq: "truncate_interval w d L U s =
    (if ival U' \<le> n - 1 then unionWith (CR (ap_trunc L' d) (ap_trunc U' d)) s
     else if ival (ap_sub U' (getOneBitSet w d)) < ival L' then
       unionWith (CR (ap_trunc L' d) (ap_trunc (ap_sub U' (getOneBitSet w d)) d)) s
     else CR_set d True)"
    by (simp add: truncate_interval_def Let_def ule_def ult_def maxv L'_def U'_def divs prod)
  show ?thesis
  proof (cases "ival U' \<le> n - 1")
    case True
    have trU: "ival (ap_trunc U' d) = ival U'" "wf_apint d (ap_trunc U' d)"
      using True n1 d(1) by (simp_all add: ap_trunc_def n_def)
    have "covers d ((\<lambda>v. v mod n) ` {ival L'..<ival U'}) (CR (ap_trunc L' d) (ap_trunc U' d))"
      using L'U' residues_arc(1) [OF n1 L'n L'U' True]
      by (intro covers_CRI [OF n_def trL(2) trU(2) trL(1) trU(1)]) simp_all
    from covers_union [OF this cov] True show ?thesis unfolding eq n_def [symmetric] res by simp
  next
    case False
    then have sub: "ival (ap_sub U' (getOneBitSet w d)) = ival U' - n"
      by (simp add: ival_sub [OF U'(2) mb(2)] mb(1))
    show ?thesis
    proof (cases "ival U' - n < ival L'")
      case True
      have trU: "ival (ap_trunc (ap_sub U' (getOneBitSet w d)) d) = ival U' - n"
        "wf_apint d (ap_trunc (ap_sub U' (getOneBitSet w d)) d)"
        using True L'n d(1) by (simp_all add: ap_trunc_def sub flip: n_def)
      have "covers d ((\<lambda>v. v mod n) ` {ival L'..<ival U'})
          (CR (ap_trunc L' d) (ap_trunc (ap_sub U' (getOneBitSet w d)) d))"
        using True residues_arc(2) [OF n1 L'n L'U'] False
        by (intro covers_CRI [OF n_def trL(2) trU(2) trL(1) trU(1)]) simp_all
      from covers_union [OF this cov] True False show ?thesis unfolding eq n_def [symmetric] res sub by simp
    next
      case full: False
      have "(\<lambda>v. v mod n) ` {ival L..<ival U} \<union> Y \<subseteq> {..<n}"
        using n1 cov elems_less by (auto simp: covers_def n_def)
      then have "covers d ((\<lambda>v. v mod n) ` {ival L..<ival U} \<union> Y) (CR_set d True)"
        using d(1) by (intro covers_full) (simp_all add: n_def)
      with full False show ?thesis unfolding eq n_def [symmetric] sub by simp
    qed
  qed
qed

lemma covers_mono: "covers w X r \<Longrightarrow> Y \<subseteq> X \<Longrightarrow> covers w Y r"
  by (auto simp: covers_def)

lemma cr_truncate_covers:
  assumes r: "wf_range w r" and d: "0 < d" "d < w" and exact: "w \<le> 128 \<or> d < 64"
  shows "covers d ((\<lambda>v. v mod 2 ^ d) ` elems r) (cr_truncate r d)"
proof -
  have w: "getBitWidth r = w" "0 < w" using wf_getBitWidth [OF r] by simp_all
  define n m where "n = (2 :: nat) ^ d" and "m = (2 :: nat) ^ w"
  have nm: "n < m" unfolding n_def m_def using d(2) by (rule exp_mono)
  have n1: "1 < n" unfolding n_def using d(1) by (rule one_less_exp)
  have dvd: "n dvd m" unfolding n_def m_def using d(2) by (simp add: le_imp_power_dvd)
  have maxv: "ival (ap_zext (getMaxValue d) w) = n - 1"
    using nm n1 by (simp add: ap_zext_def ival_consts less_imp_diff_less n_def m_def)
  have wfr: "wf_apint w (Lower r)" "wf_apint w (Upper r)" using wf_range_sel r by blast+
  have full: "covers d ((\<lambda>v. v mod 2 ^ d) ` elems r) (CR_set d True)"
    using d(1) by (intro covers_full) auto
  show ?thesis
  proof (rule proper_elems_arc [OF r])
    assume "isEmptySet r" "elems r = {}"
    then show ?thesis using covers_empty [of d "{}"] d by (simp add: cr_truncate_def)
  next
    assume "isFullSet r" "\<not> isEmptySet r" "elems r = {..<2 ^ w}"
    with full show ?thesis by (simp add: cr_truncate_def)
  next
    fix l u
    assume p: "\<not> isEmptySet r" "\<not> isFullSet r" "arc_ok (2 ^ w) l u" "l \<noteq> u" "elems r = arc (2 ^ w) l u" "ival (Lower r) = l"
    "ival (Upper r) = u" "isWrappedSet r \<longleftrightarrow> u < l"
    note ok = p(3) [folded m_def] and el = p(5) [folded m_def]
    have lu: "l < m" "u < m" using ok by (simp_all add: arc_ok_def)
    show ?thesis
    proof (cases "u < l")
      case False
      then have res: "cr_truncate r d = truncate_interval w d (Lower r) (Upper r) (CR_set d False)"
        using p by (simp add: cr_truncate_def w Let_def)
      have el': "elems r = {ival (Lower r)..<ival (Upper r)}"
        using False p(4) lu by (auto simp: el arc_def p(6,7))
      show ?thesis unfolding res el'
        using truncate_interval_covers [OF d wfr _ covers_empty [OF d(1) refl] exact] False p(4,6,7) by simp
    next
      case wrapped: True
      show ?thesis
      proof (cases "n - 1 \<le> u")
        case True
        then have "cr_truncate r d = CR_set d True"
          using p wrapped by (simp add: cr_truncate_def w Let_def uge_def maxv)
        with full show ?thesis by simp
      next
        case small: False
        define s where "s = CR (getMaxValue d) (ap_trunc (Upper r) d)"
        have res: "cr_truncate r d = (if l = m - 1 then s else truncate_interval w d (Lower r) (getMaxValue w) s)"
          using p wrapped small wf_bitWidth [OF wfr(1)]
          by (simp add: cr_truncate_def w Let_def uge_def maxv s_def apint_eq_iff ival_consts m_def)
        have tr: "ival (ap_trunc (Upper r) d) = u" "wf_apint d (ap_trunc (Upper r) d)"
          using small n1 d(1) by (simp_all add: ap_trunc_def p(7) n_def)
        have mx: "ival (getMaxValue d) = n - 1" "wf_apint d (getMaxValue d)" using d(1) by (simp_all add: ival_consts n_def)
        have low: "insert (n - 1) {..<u} \<subseteq> arc n (n - 1) u" using small n1 by (auto simp: arc_def)
        have covs: "covers d (insert (n - 1) {..<u}) s"
          unfolding s_def using small low n1
          by (intro covers_CRI [OF n_def mx(2) tr(2) mx(1) tr(1)]) auto
        have top: "(m - 1) mod n = n - 1"
        proof -
          obtain k where k: "m = n * k" using dvd by blast
          then have "0 < k" using nm by (cases k) auto
          then obtain j where "k = Suc j" by (cases k) auto
          then have "m - 1 = (n - 1) + j * n" using k n1 by (simp add: algebra_simps)
          then have "(m - 1) mod n = (n - 1) mod n" by (simp only: mod_mult_self1)
          then show ?thesis using n1 by simp
        qed
        have el': "(\<lambda>v. v mod n) ` elems r \<subseteq> (\<lambda>v. v mod n) ` {l..<m - 1} \<union> insert (n - 1) {..<u}"
        proof
          fix x assume "x \<in> (\<lambda>v. v mod n) ` elems r"
          then obtain v where v: "x = v mod n" "v < m" "l \<le> v \<or> v < u" using wrapped by (auto simp: el arc_def)
          then consider "v = m - 1" | "l \<le> v" "v < m - 1" | "v < u" by linarith
          then show "x \<in> (\<lambda>v. v mod n) ` {l..<m - 1} \<union> insert (n - 1) {..<u}"
            using v(1) top small by cases auto
        qed
        show ?thesis
        proof (cases "l = m - 1")
          case True
          show ?thesis unfolding res n_def [symmetric]
            using covers_mono [OF covs] el' True by simp
        next
          case False
          then have lt: "ival (Lower r) < ival (getMaxValue w)" using lu p(6) by (simp add: ival_consts m_def)
          have wfm: "wf_apint w (getMaxValue w)" using w(2) by simp
          from truncate_interval_covers [OF d wfr(1) wfm lt covs exact]
          have "covers d ((\<lambda>v. v mod n) ` {l..<m - 1} \<union> insert (n - 1) {..<u}) (cr_truncate r d)"
            using False by (simp add: res p(6) ival_consts n_def m_def)
          then show ?thesis unfolding n_def [symmetric] by (rule covers_mono [OF _ el'])
        qed
      qed
    qed
  qed
qed

section \<open>Hulls\<close>

lemma hull_unsigned:
  assumes wf: "wf_apint w lo" "wf_apint w hi" and le: "ival lo \<le> ival hi"
    and X: "\<And>v. v \<in> X \<Longrightarrow> ival lo \<le> v \<and> v \<le> ival hi"
  shows "lo = ap_inc hi \<longleftrightarrow> ival lo = 0 \<and> ival hi = 2 ^ w - 1"
    and "covers w X (if lo = ap_inc hi then CR_set w True else CR lo (ap_inc hi))"
proof -
  define m where "m = (2 :: nat) ^ w"
  have w: "0 < w" "bitWidth lo = w" "bitWidth hi = w" using wf by (auto simp: wf_apint_def)
  have b: "ival lo < m" "ival hi < m" "1 < m"
    using ival_less [OF wf(1)] ival_less [OF wf(2)] one_less_exp [OF w(1)] by (simp_all add: m_def)
  have inc: "ival (ap_inc hi) = (if ival hi + 1 < m then ival hi + 1 else 0)" by (simp add: ival_inc [OF wf(2)] m_def)
  have "lo = ap_inc hi \<longleftrightarrow> ival lo = ival (ap_inc hi)" using w by (simp add: apint_eq_iff)
  then show iff: "lo = ap_inc hi \<longleftrightarrow> ival lo = 0 \<and> ival hi = 2 ^ w - 1"
    unfolding inc m_def [symmetric] using le b by auto
  show "covers w X (if lo = ap_inc hi then CR_set w True else CR lo (ap_inc hi))"
  proof (cases "lo = ap_inc hi")
    case True
    have "X \<subseteq> {..<2 ^ w}" using X b(2) by (force simp: m_def)
    then show ?thesis using True covers_full [OF w(1)] by simp
  next
    case False
    then have neq: "ival lo \<noteq> ival (ap_inc hi)" using w by (simp add: apint_eq_iff)
    have "X \<subseteq> arc m (ival lo) (ival (ap_inc hi))"
    proof
      fix v assume "v \<in> X"
      with X have "ival lo \<le> v" "v \<le> ival hi" by blast+
      then show "v \<in> arc m (ival lo) (ival (ap_inc hi))"
        using neq b unfolding inc by (auto simp: arc_def)
    qed
    then have "covers w X (CR lo (ap_inc hi))"
      using neq wf by (intro covers_CRI [OF m_def wf(1) wf_arith(4) [OF wf(2)] refl refl]) simp_all
    then show ?thesis using False by simp
  qed
qed

lemma hull_signed:
  assumes wf: "wf_apint w lo" "wf_apint w hi" and le: "sval lo \<le> sval hi"
    and X: "\<And>v. v \<in> X \<Longrightarrow> \<exists>a. wf_apint w a \<and> ival a = v \<and> sval lo \<le> sval a \<and> sval a \<le> sval hi"
  shows "lo = ap_inc hi \<longleftrightarrow> sval lo = - (2 ^ (w - 1)) \<and> sval hi = 2 ^ (w - 1) - 1"
    and "covers w X (if lo = ap_inc hi then CR_set w True else CR lo (ap_inc hi))"
proof -
  have w: "0 < w" "bitWidth lo = w" "bitWidth hi = w" using wf by (auto simp: wf_apint_def)
  define h where "h = (2 :: nat) ^ (w - 1)"
  have m: "(2 :: nat) ^ w = 2 * h" "0 < h" using exp_halves [OF w(1), where 'a = nat] by (simp_all add: h_def)
  have b: "ival lo < 2 * h" "ival hi < 2 * h"
    using ival_less [OF wf(1)] ival_less [OF wf(2)] by (simp_all add: m)
  have inc: "ival (ap_inc hi) = (if ival hi + 1 < 2 * h then ival hi + 1 else 0)" by (simp add: ival_inc [OF wf(2)] m)
  have sv: "sval a = (if ival a < h then int (ival a) else int (ival a) - 2 * int h)" if "bitWidth a = w" for a
    using that exp_halves [OF w(1), where 'a = int] by (simp add: sval_def h_def)
  have hi: "int h = 2 ^ (w - 1)" by (simp add: h_def)
  have eq: "lo = ap_inc hi \<longleftrightarrow> ival lo = ival (ap_inc hi)" using w by (simp add: apint_eq_iff)
  have sle: "sleq h (ival lo) (ival hi)" using le sval_le_iff [OF wf] by (simp add: h_def)
  show "lo = ap_inc hi \<longleftrightarrow> sval lo = - (2 ^ (w - 1)) \<and> sval hi = 2 ^ (w - 1) - 1"
    unfolding eq inc sv [OF w(2)] sv [OF w(3)] hi [symmetric] using sle b m(2) by (auto simp: sleq_def split: if_splits)
  show "covers w X (if lo = ap_inc hi then CR_set w True else CR lo (ap_inc hi))"
  proof (cases "lo = ap_inc hi")
    case True
    have "X \<subseteq> {..<2 ^ w}"
    proof
      fix v assume "v \<in> X"
      with X obtain a where "wf_apint w a" "ival a = v" by blast
      then show "v \<in> {..<2 ^ w}" using ival_less by blast
    qed
    then show ?thesis using True covers_full [OF w(1)] by simp
  next
    case False
    then have neq: "ival lo \<noteq> ival (ap_inc hi)" using w by (simp add: apint_eq_iff)
    have "X \<subseteq> arc (2 ^ w) (ival lo) (ival (ap_inc hi))"
    proof
      fix v assume "v \<in> X"
      with X obtain a where a: "wf_apint w a" "ival a = v" "sval lo \<le> sval a" "sval a \<le> sval hi" by blast
      then have "sleq h (ival lo) v" "sleq h v (ival hi)" "v < 2 * h"
        using sval_le_iff [OF wf(1) a(1)] sval_le_iff [OF a(1) wf(2)] ival_less [OF a(1)] m by (simp_all add: h_def)
      then show "v \<in> arc (2 ^ w) (ival lo) (ival (ap_inc hi))"
        using neq b sle unfolding inc m(1) by (auto simp: arc_def sleq_def split: if_splits)
    qed
    then have "covers w X (CR lo (ap_inc hi))"
      using neq wf by (intro covers_CRI [OF refl wf(1) wf_arith(4) [OF wf(2)] refl refl]) simp_all
    then show ?thesis using False by simp
  qed
qed

text \<open>The argument of every unsigned operation: both ranges non-empty, elements between the
  extremes.\<close>

lemma unsigned_binop_covers:
  assumes r: "wf_range w r" and s: "wf_range w s"
    and wf: "wf_apint w lo" "wf_apint w hi"
    and res: "\<not> isEmptySet r \<Longrightarrow> \<not> isEmptySet s \<Longrightarrow>
      f r s = (if lo = ap_inc hi then CR_set w True else CR lo (ap_inc hi))"
    and emp: "isEmptySet r \<or> isEmptySet s \<Longrightarrow> f r s = CR_set w False"
    and g: "\<And>x y. x \<in> elems r \<Longrightarrow> y \<in> elems s \<Longrightarrow> ival lo \<le> g x y \<and> g x y \<le> ival hi"
  shows "covers w {g x y |x y. x \<in> elems r \<and> y \<in> elems s} (f r s)"
proof (cases "isEmptySet r \<or> isEmptySet s")
  case True
  have "0 < w" using wf_getBitWidth [OF r] by simp
  then have "covers w {g x y |x y. x \<in> elems r \<and> y \<in> elems s} (CR_set w False)"
    using True range_tests(1) [OF r] range_tests(1) [OF s] by (intro covers_empty) auto
  with emp [OF True] show ?thesis by simp
next
  case False
  then obtain x y where "x \<in> elems r" "y \<in> elems s" using range_tests(1) r s by blast
  with g have "ival lo \<le> ival hi" using order_trans by blast
  have "covers w {g x y |x y. x \<in> elems r \<and> y \<in> elems s} (if lo = ap_inc hi then CR_set w True else CR lo (ap_inc hi))"
    by (rule hull_unsigned(2) [OF wf \<open>ival lo \<le> ival hi\<close>]) (use g in blast)
  then show ?thesis using False res by simp
qed

lemma cr_umax_covers:
  assumes r: "wf_range w r" and s: "wf_range w s"
  shows "covers w {max x y |x y. x \<in> elems r \<and> y \<in> elems s} (cr_umax r s)"
proof (rule unsigned_binop_covers [OF r s])
  have w: "getBitWidth r = w" using wf_getBitWidth [OF r] by simp
  note er = unsigned_extremes [OF r] and es = unsigned_extremes [OF s]
  show "wf_apint w (ap_umax (getUnsignedMin r) (getUnsignedMin s))" "wf_apint w (ap_umax (getUnsignedMax r) (getUnsignedMax s))"
    using er es by (simp_all add: ap_umax_def)
  show "cr_umax r s = (if ap_umax (getUnsignedMin r) (getUnsignedMin s) = ap_inc (ap_umax (getUnsignedMax r) (getUnsignedMax s))
      then CR_set w True else CR (ap_umax (getUnsignedMin r) (getUnsignedMin s)) (ap_inc (ap_umax (getUnsignedMax r) (getUnsignedMax s))))"
    if "\<not> isEmptySet r" "\<not> isEmptySet s" using that w by (auto simp: cr_umax_def Let_def)
  show "cr_umax r s = CR_set w False" if "isEmptySet r \<or> isEmptySet s" using that w by (simp add: cr_umax_def)
  have e: "ival (ap_umax a b) = max (ival a) (ival b)" for a b by (simp add: ap_umax_def ugt_def)
  show "ival (ap_umax (getUnsignedMin r) (getUnsignedMin s)) \<le> max x y \<and> max x y \<le> ival (ap_umax (getUnsignedMax r) (getUnsignedMax s))"
    if "x \<in> elems r" "y \<in> elems s" for x y
    using er(3,4) [OF that(1)] es(3,4) [OF that(2)] unfolding e by linarith
qed

lemma ival_lshr: "ival (ap_lshr a b) = (if ival b \<ge> bitWidth a then 0 else ival a div 2 ^ ival b)" if "wf_apint w a"
proof -
  have "ival a div 2 ^ ival b < 2 ^ w" using ival_less [OF that] div_le_dividend [of "ival a" "2 ^ ival b"] by linarith
  then show ?thesis using that by (simp add: ap_lshr_def wf_apint_def)
qed

text \<open>A logical shift by the width or more gives zero, which is also the quotient.\<close>

lemma ival_lshr_div: "ival (ap_lshr a b) = ival a div 2 ^ ival b" if "wf_apint w a"
proof (cases "ival b \<ge> bitWidth a")
  case True
  have "(2 :: nat) ^ w \<le> 2 ^ ival b" using True that by (intro power_increasing) (auto simp: wf_apint_def)
  then have "ival a < 2 ^ ival b" using ival_less [OF that] by linarith
  then have "ival a div 2 ^ ival b = 0" by simp
  with True show ?thesis using ival_lshr [OF that] by simp
qed (use ival_lshr [OF that] in simp)

lemma cr_lshr_covers:
  assumes r: "wf_range w r" and s: "wf_range w s"
  shows "covers w {x div 2 ^ y |x y. x \<in> elems r \<and> y \<in> elems s} (cr_lshr r s)"
proof (rule unsigned_binop_covers [OF r s])
  have w: "getBitWidth r = w" using wf_getBitWidth [OF r] by simp
  note er = unsigned_extremes [OF r] and es = unsigned_extremes [OF s]
  show "wf_apint w (ap_lshr (getUnsignedMin r) (getUnsignedMax s))" "wf_apint w (ap_lshr (getUnsignedMax r) (getUnsignedMin s))"
    using er(1,2) by (simp_all add: ap_lshr_def wf_apint_def)
  show "cr_lshr r s = (if ap_lshr (getUnsignedMin r) (getUnsignedMax s) = ap_inc (ap_lshr (getUnsignedMax r) (getUnsignedMin s))
      then CR_set w True else CR (ap_lshr (getUnsignedMin r) (getUnsignedMax s)) (ap_inc (ap_lshr (getUnsignedMax r) (getUnsignedMin s))))"
    if "\<not> isEmptySet r" "\<not> isEmptySet s" using that w by (simp add: cr_lshr_def Let_def)
  show "cr_lshr r s = CR_set w False" if "isEmptySet r \<or> isEmptySet s" using that w by (simp add: cr_lshr_def)
  show "ival (ap_lshr (getUnsignedMin r) (getUnsignedMax s)) \<le> x div 2 ^ y \<and>
      x div 2 ^ y \<le> ival (ap_lshr (getUnsignedMax r) (getUnsignedMin s))"
    if "x \<in> elems r" "y \<in> elems s" for x y
  proof -
    have "(2 :: nat) ^ y \<le> 2 ^ ival (getUnsignedMax s)" "(2 :: nat) ^ ival (getUnsignedMin s) \<le> 2 ^ y"
      using es(3,4) [OF that(2)] by (simp_all add: power_increasing)
    then have "x div 2 ^ ival (getUnsignedMax s) \<le> x div 2 ^ y" "x div 2 ^ y \<le> x div 2 ^ ival (getUnsignedMin s)"
      by (simp_all add: div_le_mono2)
    moreover have "ival (getUnsignedMin r) div 2 ^ ival (getUnsignedMax s) \<le> x div 2 ^ ival (getUnsignedMax s)"
      "x div 2 ^ ival (getUnsignedMin s) \<le> ival (getUnsignedMax r) div 2 ^ ival (getUnsignedMin s)"
      using er(3,4) [OF that(1)] by (simp_all add: div_le_mono)
    ultimately show ?thesis unfolding ival_lshr_div [OF er(2)] ival_lshr_div [OF er(1)] by linarith
  qed
qed

lemma and_le: "(x AND y :: nat) \<le> x" "(x AND y :: nat) \<le> y"
proof -
  have "(x AND y :: nat) \<le> x" for x y
  proof -
    have "int (x AND y) \<le> int x" by (simp add: of_nat_and_eq AND_upper1)
    then show ?thesis by simp
  qed
  then show "(x AND y :: nat) \<le> x" "(x AND y :: nat) \<le> y" using and.commute [of x y] by metis+
qed

lemma or_ge: "x \<le> (x OR y :: nat)" "y \<le> (x OR y :: nat)"
proof -
  have "x \<le> (x OR y)" for x y :: nat
  proof -
    have "(x OR y) AND x = x" by (rule bit_eqI) (auto simp: bit_and_iff bit_or_iff)
    then show ?thesis using and_le(1) [of "x OR y" x] by simp
  qed
  then show "x \<le> (x OR y :: nat)" "y \<le> (x OR y :: nat)" using or.commute [of x y] by metis+
qed

lemma or_less_exp: "x < 2 ^ w \<Longrightarrow> y < 2 ^ w \<Longrightarrow> (x OR y :: nat) < 2 ^ w"
  by (metis take_bit_nat_less_exp take_bit_nat_eq_self take_bit_or)

lemma binaryAnd_covers:
  assumes r: "wf_range w r" and s: "wf_range w s"
  shows "covers w {x AND y |x y. x \<in> elems r \<and> y \<in> elems s} (binaryAnd r s)"
proof (rule unsigned_binop_covers [OF r s])
  have w: "getBitWidth r = w" "0 < w" using wf_getBitWidth [OF r] by simp_all
  note er = unsigned_extremes [OF r] and es = unsigned_extremes [OF s]
  let ?u = "ap_umin (getUnsignedMax s) (getUnsignedMax r)"
  show wf: "wf_apint w (getMinValue w)" "wf_apint w ?u"
    using er es w(2) by (simp_all add: ap_umin_def)
  have e: "ival ?u = min (ival (getUnsignedMax r)) (ival (getUnsignedMax s))" by (simp add: ap_umin_def ult_def)
  have "isMaxValue ?u \<longleftrightarrow> getMinValue w = ap_inc ?u"
    using hull_unsigned(1) [OF wf, of "{}"] wf_bitWidth [OF wf(2)]
    by (simp add: isMaxValue_def apint_eq_iff ival_consts)
  then show "binaryAnd r s = (if getMinValue w = ap_inc ?u then CR_set w True else CR (getMinValue w) (ap_inc ?u))"
    if "\<not> isEmptySet r" "\<not> isEmptySet s" using that w by (simp add: binaryAnd_def Let_def)
  show "binaryAnd r s = CR_set w False" if "isEmptySet r \<or> isEmptySet s" using that w by (simp add: binaryAnd_def)
  show "ival (getMinValue w) \<le> x AND y \<and> (x AND y) \<le> ival ?u" if "x \<in> elems r" "y \<in> elems s" for x y
    using er(3) [OF that(1)] es(3) [OF that(2)] and_le [of x y] unfolding e by (simp add: ival_consts)
qed

lemma binaryOr_covers:
  assumes r: "wf_range w r" and s: "wf_range w s"
  shows "covers w {x OR y |x y. x \<in> elems r \<and> y \<in> elems s} (binaryOr r s)"
proof -
  have w: "getBitWidth r = w" "0 < w" using wf_getBitWidth [OF r] by simp_all
  note er = unsigned_extremes [OF r] and es = unsigned_extremes [OF s]
  let ?u = "ap_umax (getUnsignedMin r) (getUnsignedMin s)"
  have wf: "wf_apint w ?u" "wf_apint w (getMaxValue w)" using er es w(2) by (simp_all add: ap_umax_def)
  have inc: "ap_inc (getMaxValue w) = getMinValue w"
    using w(2) by (simp add: apint_eq_iff ival_inc [OF wf(2)] ival_consts)
  show ?thesis
  proof (rule unsigned_binop_covers [OF r s wf])
    have "isMinValue ?u \<longleftrightarrow> ?u = ap_inc (getMaxValue w)"
      using wf_bitWidth [OF wf(1)] by (simp add: inc isMinValue_def apint_eq_iff ival_consts)
    then show "binaryOr r s = (if ?u = ap_inc (getMaxValue w) then CR_set w True else CR ?u (ap_inc (getMaxValue w)))"
      if "\<not> isEmptySet r" "\<not> isEmptySet s" using that w by (simp add: binaryOr_def Let_def inc)
    show "binaryOr r s = CR_set w False" if "isEmptySet r \<or> isEmptySet s" using that w by (simp add: binaryOr_def)
    show "ival ?u \<le> x OR y \<and> (x OR y) \<le> ival (getMaxValue w)" if "x \<in> elems r" "y \<in> elems s" for x y
    proof -
      have e: "ival ?u = max (ival (getUnsignedMin r)) (ival (getUnsignedMin s))" by (simp add: ap_umax_def ugt_def)
      have "(x OR y) < 2 ^ w" using elems_less [OF r that(1)] elems_less [OF s that(2)] by (rule or_less_exp)
      then show ?thesis
        using er(4) [OF that(1)] es(4) [OF that(2)] or_ge [where x = x and y = y] unfolding e ival_consts by linarith
    qed
  qed
qed


text \<open>Shifting left loses no bits while the top element has more leading zeros than the largest
  shift.\<close>

lemma clz_shift:
  assumes "wf_apint w a" and "k < ap_clz a"
  shows "ival a * 2 ^ k < 2 ^ (w - 1)"
proof -
  have a: "bitWidth a = w" "ival a < 2 ^ w" "0 < w" using assms(1) by (auto simp: wf_apint_def)
  have "bit_length (ival a) + k < w" using assms(2) a(1) by (simp add: ap_clz_def)
  then have le: "bit_length (ival a) + k \<le> w - 1" by simp
  have "ival a * 2 ^ k < 2 ^ bit_length (ival a) * 2 ^ k"
    using bit_length_bounds(1) [of "ival a"] by simp
  also have "\<dots> \<le> 2 ^ (w - 1)" using le by (simp flip: power_add)
  finally show ?thesis .
qed

lemma cr_shl_covers:
  assumes r: "wf_range w r" and s: "wf_range w s"
  shows "covers w {(if y < w then x * 2 ^ y mod 2 ^ w else 0) |x y. x \<in> elems r \<and> y \<in> elems s} (cr_shl r s)"
proof -
  let ?X = "{(if y < w then x * 2 ^ y mod 2 ^ w else 0) |x y. x \<in> elems r \<and> y \<in> elems s}"
  have w: "getBitWidth r = w" "0 < w" using wf_getBitWidth [OF r] by simp_all
  note er = unsigned_extremes [OF r] and es = unsigned_extremes [OF s]
  let ?lo = "ap_shl (getUnsignedMin r) (getUnsignedMin s)" and ?hi = "ap_shl (getUnsignedMax r) (getUnsignedMax s)"
  let ?z = "mk_apint w (ap_clz (getUnsignedMax r))"
  have clz: "ap_clz (getUnsignedMax r) \<le> w" using wf_bitWidth [OF er(1)] by (simp add: ap_clz_def)
  have z: "ival ?z = ap_clz (getUnsignedMax r)"
  proof -
    have "w < 2 ^ w" by (rule less_exp)
    with clz have "ap_clz (getUnsignedMax r) < 2 ^ w" by linarith
    then show ?thesis by simp
  qed
  consider (empty) "isEmptySet r \<or> isEmptySet s"
    | (full) "\<not> (isEmptySet r \<or> isEmptySet s)" "\<not> ugt ?z (getUnsignedMax s)"
    | (shift) "\<not> isEmptySet r" "\<not> isEmptySet s" "ugt ?z (getUnsignedMax s)" by blast
  then show ?thesis
  proof cases
    case empty
    then have "cr_shl r s = CR_set w False" by (simp add: cr_shl_def w)
    moreover have "covers w ?X (CR_set w False)"
      using empty range_tests(1) [OF r] range_tests(1) [OF s] by (intro covers_empty [OF w(2)]) auto
    ultimately show ?thesis by simp
  next
    case full
    then have "cr_shl r s = CR_set w True" by (simp add: cr_shl_def w Let_def)
    moreover have "covers w ?X (CR_set w True)" using w(2) by (intro covers_full) auto
    ultimately show ?thesis by simp
  next
    case shift
    then have res: "cr_shl r s = CR ?lo (ap_inc ?hi)" by (simp add: cr_shl_def w Let_def)
    have k: "ival (getUnsignedMax s) < ap_clz (getUnsignedMax r)" using shift(3) unfolding ugt_def z .
    have small: "ival (getUnsignedMax r) * 2 ^ y < 2 ^ (w - 1)" if "y \<le> ival (getUnsignedMax s)" for y
      using that k by (intro clz_shift [OF er(1)]) simp
    have half: "(2 :: nat) ^ (w - 1) < 2 ^ w" using w(2) by simp
    have ne: "elems r \<noteq> {}" "elems s \<noteq> {}" using shift(1,2) range_tests(1) r s by blast+
    have mins: "ival (getUnsignedMin s) \<le> ival (getUnsignedMax s)" "ival (getUnsignedMin r) \<le> ival (getUnsignedMax r)"
      using er(3,5) es(3,5) ne by blast+
    have lt: "ival (getUnsignedMax s) < w" using k clz by simp
    have shl: "ival (ap_shl a b) = ival a * 2 ^ ival b"
      if "wf_apint w a" "ival a \<le> ival (getUnsignedMax r)" "ival b \<le> ival (getUnsignedMax s)" for a b
    proof -
      have "ival a * 2 ^ ival b \<le> ival (getUnsignedMax r) * 2 ^ ival b" using that(2) by (rule mult_le_mono1)
      then have "ival a * 2 ^ ival b < 2 ^ w" using small [OF that(3)] half by linarith
      then show ?thesis using that lt by (simp add: ap_shl_def wf_apint_def)
    qed
    have lo: "ival ?lo = ival (getUnsignedMin r) * 2 ^ ival (getUnsignedMin s)" by (rule shl [OF er(2) mins(2,1)])
    have hi: "ival ?hi = ival (getUnsignedMax r) * 2 ^ ival (getUnsignedMax s)" by (rule shl [OF er(1)]) simp_all
    have wf: "wf_apint w ?lo" "wf_apint w ?hi" using er(1,2) by (simp_all add: ap_shl_def wf_apint_def)
    have le: "ival ?lo \<le> ival ?hi" unfolding lo hi using mins by (intro mult_le_mono) (simp_all add: power_increasing)
    have X: "ival ?lo \<le> v \<and> v \<le> ival ?hi" if "v \<in> ?X" for v
    proof -
      from that obtain x y where v: "v = (if y < w then x * 2 ^ y mod 2 ^ w else 0)" "x \<in> elems r" "y \<in> elems s" by blast
      have b: "ival (getUnsignedMin r) \<le> x" "x \<le> ival (getUnsignedMax r)"
        "ival (getUnsignedMin s) \<le> y" "y \<le> ival (getUnsignedMax s)"
        using er(3,4) [OF v(2)] es(3,4) [OF v(3)] by simp_all
      have "x * 2 ^ y \<le> ival (getUnsignedMax r) * 2 ^ y" using b(2) by (rule mult_le_mono1)
      then have "x * 2 ^ y < 2 ^ w" using small [OF b(4)] half by linarith
      then have v': "v = x * 2 ^ y" using v(1) b(4) lt by simp
      show ?thesis unfolding v' lo hi using b by (intro conjI mult_le_mono) (simp_all add: power_increasing)
    qed
    have "\<not> (ival ?lo = 0 \<and> ival ?hi = 2 ^ w - 1)"
      using small [of "ival (getUnsignedMax s)"] half unfolding hi by linarith
    then have "?lo \<noteq> ap_inc ?hi" using hull_unsigned(1) [OF wf le, of "{}"] by simp
    moreover have "covers w ?X (if ?lo = ap_inc ?hi then CR_set w True else CR ?lo (ap_inc ?hi))"
      by (rule hull_unsigned(2) [OF wf le X])
    ultimately show ?thesis unfolding res by (simp only: if_False)
  qed
qed

section \<open>Division\<close>

lemma cr_udiv_covers:
  assumes r: "wf_range w r" and s: "wf_range w s" and exact: "w \<le> 128 \<or> (\<forall>y \<in> elems s. y < 2 ^ 64)"
  shows "covers w {x div y |x y. x \<in> elems r \<and> y \<in> elems s \<and> y \<noteq> 0} (cr_udiv r s)"
proof -
  let ?X = "{x div y |x y. x \<in> elems r \<and> y \<in> elems s \<and> y \<noteq> 0}"
  have w: "getBitWidth r = w" "0 < w" using wf_getBitWidth [OF r] by simp_all
  note er = unsigned_extremes [OF r] and es = unsigned_extremes [OF s]
  define d where "d = (if ival (getUnsignedMin s) = 0 then
    (if ival (Upper s) = 1 then Lower s else mk_apint w 1) else getUnsignedMin s)"
  define lo hi where "lo = APInt_udiv (getUnsignedMin r) (getUnsignedMax s)" and "hi = APInt_udiv (getUnsignedMax r) d"
  have bound: "x div y < 2 ^ w" if "x \<in> elems r" for x y
    using elems_less [OF r that] div_le_dividend [of x y] by linarith
  consider (empty) "isEmptySet r \<or> isEmptySet s \<or> ival (getUnsignedMax s) = 0"
    | (full) "\<not> (isEmptySet r \<or> isEmptySet s \<or> ival (getUnsignedMax s) = 0)" "isFullSet s"
    | (quot) "\<not> isEmptySet r" "\<not> isEmptySet s" "ival (getUnsignedMax s) \<noteq> 0" "\<not> isFullSet s" by auto
  then show ?thesis
  proof cases
    case empty
    then have "cr_udiv r s = CR_set w False" by (simp add: cr_udiv_def w)
    moreover have "covers w ?X (CR_set w False)"
    proof (rule covers_empty [OF w(2)])
      have "y = 0" if "ival (getUnsignedMax s) = 0" "y \<in> elems s" for y using es(3) [OF that(2)] that(1) by simp
      then show "?X = {}" using empty range_tests(1) [OF r] range_tests(1) [OF s] by blast
    qed
    ultimately show ?thesis by simp
  next
    case full
    then have "cr_udiv r s = CR_set w True" by (simp add: cr_udiv_def w)
    moreover have "covers w ?X (CR_set w True)" using w(2) bound by (intro covers_full) auto
    ultimately show ?thesis by simp
  next
    case quot
    then have res: "cr_udiv r s = (if lo = ap_inc hi then CR_set w True else CR lo (ap_inc hi))"
      by (simp add: cr_udiv_def w Let_def lo_def hi_def d_def)
    have dpos: "0 < ival d \<and> (\<forall>y \<in> elems s. y \<noteq> 0 \<longrightarrow> ival d \<le> y)"
    proof (cases "ival (getUnsignedMin s) = 0")
      case False
      then show ?thesis using es(4) by (simp add: d_def)
    next
      case zero: True
      show ?thesis
      proof (cases "ival (Upper s) = 1")
        case True
        note p = proper_range [OF s quot(2,4)]
        have u: "ival (Lower s) \<noteq> 1" using p(2) True by simp
        have l0: "ival (Lower s) \<noteq> 0"
        proof
          assume l: "ival (Lower s) = 0"
          have "elems s = {0}" unfolding p(3) l True by (auto simp: arc_def)
          moreover have "ival (getUnsignedMax s) \<in> elems s" using es(5) quot(2) range_tests(1) [OF s] by blast
          ultimately show False using quot(3) by simp
        qed
        have "ival (Lower s) \<le> y" if "y \<in> elems s" "y \<noteq> 0" for y
          using that u l0 unfolding p(3) True arc_def by simp
        then show ?thesis using zero True l0 by (simp add: d_def)
      next
        case False
        then have "d = mk_apint w 1" using zero by (simp add: d_def)
        then have "ival d = 1" using w(2) one_less_exp [OF w(2)] by simp
        then show ?thesis by simp
      qed
    qed
    have top: "ival (getUnsignedMax s) \<in> elems s" using es(5) quot(2) range_tests(1) [OF s] by blast
    have wfd: "wf_apint w d" using es(2) s w(2) by (simp add: d_def wf_range_def)
    have "w \<le> 128 \<or> ival (getUnsignedMax s) < 2 ^ 64" "w \<le> 128 \<or> ival d < 2 ^ 64"
      using exact top dpos quot(3) by fastforce+
    then have lohi: "lo = ap_udiv (getUnsignedMin r) (getUnsignedMax s)" "hi = ap_udiv (getUnsignedMax r) d"
      unfolding lo_def hi_def using APInt_udiv_exact(1) [OF er(2) es(1)] APInt_udiv_exact(1) [OF er(1) wfd] quot(3) dpos by auto
    have wf: "wf_apint w lo" "wf_apint w hi"
      using er(1,2) by (simp_all add: lohi ap_udiv_def wf_apint_def)
    have udiv: "ival (ap_udiv a b) = ival a div ival b" if "wf_apint w a" for a b
    proof -
      have "ival a div ival b < 2 ^ w" using ival_less [OF that] div_le_dividend [of "ival a" "ival b"] by linarith
      then show ?thesis using that by (simp add: ap_udiv_def wf_apint_def)
    qed
    have vals: "ival lo = ival (getUnsignedMin r) div ival (getUnsignedMax s)" "ival hi = ival (getUnsignedMax r) div ival d"
      using udiv er by (simp_all add: lohi)
    have X: "ival lo \<le> x div y \<and> x div y \<le> ival hi" if xy: "x \<in> elems r" "y \<in> elems s" "y \<noteq> 0" for x y
    proof -
      have y: "y \<le> ival (getUnsignedMax s)" "ival d \<le> y" "0 < ival d" using es(3) xy dpos by auto
      have "ival lo \<le> x div ival (getUnsignedMax s)" unfolding vals using er(4) [OF xy(1)] by (rule div_le_mono)
      also have "\<dots> \<le> x div y" using y xy(3) by (intro div_le_mono2) simp_all
      finally have "ival lo \<le> x div y" .
      moreover have "x div y \<le> x div ival d" using y by (intro div_le_mono2)
      moreover have "x div ival d \<le> ival hi" unfolding vals using er(3) [OF xy(1)] by (rule div_le_mono)
      ultimately show ?thesis by linarith
    qed
    have "elems r \<noteq> {}" "elems s \<noteq> {}" using quot(1,2) range_tests(1) r s by blast+
    then obtain x y where "x \<in> elems r" "y \<in> elems s" "y \<noteq> 0" using es(5) quot(3) by blast
    then have "ival lo \<le> ival hi" using X order_trans by blast
    then show ?thesis unfolding res by (rule hull_unsigned(2) [OF wf]) (use X in blast)
  qed
qed

section \<open>Signed maximum and multiplication\<close>

lemma signed_bounds:
  assumes r: "wf_range w r" and x: "x \<in> elems r"
  shows "wf_apint w (mk_apint w x)" "ival (mk_apint w x) = x"
    and "sval (getSignedMin r) \<le> sval (mk_apint w x)" "sval (mk_apint w x) \<le> sval (getSignedMax r)"
proof -
  have w: "0 < w" using wf_getBitWidth [OF r] by simp
  show wf: "wf_apint w (mk_apint w x)" "ival (mk_apint w x) = x" using w elems_less [OF r x] by simp_all
  show "sval (getSignedMin r) \<le> sval (mk_apint w x)"
    unfolding sval_le_iff [OF signed_extremes(2) [OF r] wf(1)] wf(2) by (rule signed_extremes(4) [OF r x])
  show "sval (mk_apint w x) \<le> sval (getSignedMax r)"
    unfolding sval_le_iff [OF wf(1) signed_extremes(1) [OF r]] wf(2) by (rule signed_extremes(3) [OF r x])
qed

lemma cr_smax_covers:
  assumes r: "wf_range w r" and s: "wf_range w s"
  shows "covers w {ival (ap_smax (mk_apint w x) (mk_apint w y)) |x y. x \<in> elems r \<and> y \<in> elems s} (cr_smax r s)"
proof -
  let ?X = "{ival (ap_smax (mk_apint w x) (mk_apint w y)) |x y. x \<in> elems r \<and> y \<in> elems s}"
  have w: "getBitWidth r = w" "0 < w" using wf_getBitWidth [OF r] by simp_all
  define lo hi where "lo = ap_smax (getSignedMin r) (getSignedMin s)" and "hi = ap_smax (getSignedMax r) (getSignedMax s)"
  show ?thesis
  proof (cases "isEmptySet r \<or> isEmptySet s")
    case True
    then have "cr_smax r s = CR_set w False" by (simp add: cr_smax_def w)
    moreover have "covers w ?X (CR_set w False)"
      using True range_tests(1) [OF r] range_tests(1) [OF s] by (intro covers_empty [OF w(2)]) auto
    ultimately show ?thesis by simp
  next
    case False
    then have res: "cr_smax r s = (if lo = ap_inc hi then CR_set w True else CR lo (ap_inc hi))"
      by (auto simp: cr_smax_def w Let_def lo_def hi_def)
    have wf: "wf_apint w lo" "wf_apint w hi"
      using signed_extremes(1,2) r s by (auto simp: lo_def hi_def ap_smax_def)
    have sm: "sval (ap_smax a b) = max (sval a) (sval b)" for a b by (simp add: ap_smax_def sgt_def)
    have mid: "wf_apint w (ap_smax (mk_apint w x) (mk_apint w y)) \<and>
        sval lo \<le> sval (ap_smax (mk_apint w x) (mk_apint w y)) \<and> sval (ap_smax (mk_apint w x) (mk_apint w y)) \<le> sval hi"
      if "x \<in> elems r" "y \<in> elems s" for x y
    proof -
      have "wf_apint w (ap_smax (mk_apint w x) (mk_apint w y))" using w(2) by (simp add: ap_smax_def)
      moreover have "sval lo \<le> max (sval (mk_apint w x)) (sval (mk_apint w y))"
        "max (sval (mk_apint w x)) (sval (mk_apint w y)) \<le> sval hi"
        using signed_bounds(3,4) [OF r that(1)] signed_bounds(3,4) [OF s that(2)] unfolding lo_def hi_def sm by linarith+
      ultimately show ?thesis unfolding sm by simp
    qed
    obtain x y where "x \<in> elems r" "y \<in> elems s" using False range_tests(1) r s by blast
    then have le: "sval lo \<le> sval hi" using mid order_trans by blast
    show ?thesis unfolding res
      by (rule hull_signed(2) [OF wf le]) (use mid in blast)
  qed
qed

lemma double_half_exp: "0 < w \<Longrightarrow> (2 :: int) ^ (w * 2 - 1) = 2 * (2 ^ (w - 1) * 2 ^ (w - 1))"
proof -
  assume "0 < w"
  then obtain k where k: "w = Suc k" by (cases w) auto
  have "w * 2 - 1 = Suc (k + k)" "w - 1 = k" by (simp_all add: k)
  then show ?thesis by (simp only: power_Suc power_add)
qed

text \<open>The full product of two sign-extended numbers.\<close>

lemma sext_product:
  assumes "wf_apint w a" "wf_apint w b"
  shows "sval (ap_mul (ap_sext a (w * 2)) (ap_sext b (w * 2))) = sval a * sval b"
    and "wf_apint (w * 2) (ap_mul (ap_sext a (w * 2)) (ap_sext b (w * 2)))"
    and "sval a * sval b \<noteq> 2 ^ (w * 2 - 1) - 1 \<or> sval a * sval b \<noteq> - (2 ^ (w * 2 - 1))"
proof -
  have w: "0 < w" using assms by (simp add: wf_apint_def)
  define h where "h = (2 :: int) ^ (w - 1)"
  have h: "0 < h" by (simp add: h_def)
  have hh: "(2 :: int) ^ (w * 2 - 1) = 2 * (h * h)"
    using double_half_exp [OF w] by (simp only: h_def)
  note b = sval_bounds [OF assms(1), folded h_def] sval_bounds [OF assms(2), folded h_def]
  have "\<bar>sval a\<bar> \<le> h" "\<bar>sval b\<bar> \<le> h" using b by auto
  then have "\<bar>sval a * sval b\<bar> \<le> h * h" unfolding abs_mult using h by (intro mult_mono) auto
  then have p: "- (h * h) \<le> sval a * sval b" "sval a * sval b \<le> h * h" by auto
  have sq: "0 < h * h" using h by simp
  have ext: "sval (ap_sext x (w * 2)) = sval x" if "wf_apint w x" for x
  proof -
    have hle: "(2 :: int) ^ (w - 1) \<le> 2 ^ (w * 2 - 1)" by (intro power_increasing) auto
    have "- (2 ^ (w * 2 - 1)) \<le> sval x" "sval x < 2 ^ (w * 2 - 1)" using sval_bounds [OF that] hle by linarith+
    then show ?thesis unfolding ap_sext_def using w by (intro sval_of_sval(1)) simp_all
  qed
  have mul: "ap_mul (ap_sext a (w * 2)) (ap_sext b (w * 2)) = of_sval (w * 2) (sval a * sval b)"
    by (subst ap_mul_sval [of _ "w * 2"]) (simp_all add: ext assms)
  show "sval (ap_mul (ap_sext a (w * 2)) (ap_sext b (w * 2))) = sval a * sval b"
    "wf_apint (w * 2) (ap_mul (ap_sext a (w * 2)) (ap_sext b (w * 2)))"
  proof -
    have "- (2 ^ (w * 2 - 1)) \<le> sval a * sval b" "sval a * sval b < 2 ^ (w * 2 - 1)" using p sq unfolding hh by linarith+
    then show "sval (ap_mul (ap_sext a (w * 2)) (ap_sext b (w * 2))) = sval a * sval b"
      "wf_apint (w * 2) (ap_mul (ap_sext a (w * 2)) (ap_sext b (w * 2)))"
      unfolding mul using w by (auto intro: sval_of_sval)
  qed
  show "sval a * sval b \<noteq> 2 ^ (w * 2 - 1) - 1 \<or> sval a * sval b \<noteq> - (2 ^ (w * 2 - 1))"
    using p sq unfolding hh by linarith
qed

lemma product_between:
  fixes x y :: int
  assumes "a \<le> x" "x \<le> b" "c \<le> y" "y \<le> d"
  shows "min (min (a * c) (a * d)) (min (b * c) (b * d)) \<le> x * y"
    and "x * y \<le> max (max (a * c) (a * d)) (max (b * c) (b * d))"
proof -
  have lin: "min (p * z) (q * z) \<le> t * z \<and> t * z \<le> max (p * z) (q * z)" if "p \<le> t" "t \<le> q" for p q t z :: int
  proof (cases "0 \<le> z")
    case True
    then show ?thesis using mult_right_mono [OF that(1) True] mult_right_mono [OF that(2) True] by linarith
  next
    case False
    then have "z \<le> 0" by simp
    then show ?thesis using mult_right_mono_neg [OF that(1)] mult_right_mono_neg [OF that(2)] by fastforce
  qed
  have "min (a * y) (b * y) \<le> x * y \<and> x * y \<le> max (a * y) (b * y)" by (rule lin [OF assms(1,2)])
  moreover have "min (a * c) (a * d) \<le> a * y \<and> a * y \<le> max (a * c) (a * d)"
    using lin [OF assms(3,4), of a] by (simp add: mult.commute)
  moreover have "min (b * c) (b * d) \<le> b * y \<and> b * y \<le> max (b * c) (b * d)"
    using lin [OF assms(3,4), of b] by (simp add: mult.commute)
  ultimately show "min (min (a * c) (a * d)) (min (b * c) (b * d)) \<le> x * y"
    "x * y \<le> max (max (a * c) (a * d)) (max (b * c) (b * d))" by linarith+
qed

lemma min_max_slt:
  fixes p q u v :: apint
  defines "L \<equiv> [p, q, u, v]"
  shows "min_slt L \<in> set L" "max_slt L \<in> set L"
    and "sval (min_slt L) = min (min (sval p) (sval q)) (min (sval u) (sval v))"
    and "sval (max_slt L) = max (max (sval p) (sval q)) (max (sval u) (sval v))"
  by (auto simp: L_def min_slt_def max_slt_def slt_def)

lemma covers_trunc_image:
  assumes w: "0 < w" "w \<le> 64" and cov: "covers (w * 2) X r"
  shows "covers w ((\<lambda>v. v mod 2 ^ w) ` X) (cr_truncate r w)"
proof -
  have "covers w ((\<lambda>v. v mod 2 ^ w) ` elems r) (cr_truncate r w)"
    using cov w by (intro cr_truncate_covers [where w = "w * 2"]) (simp_all add: covers_def)
  then show ?thesis by (rule covers_mono) (use cov in \<open>auto simp: covers_def\<close>)
qed

lemma cr_multiply_covers:
  assumes r: "wf_range w r" and s: "wf_range w s" and exact: "w \<le> 64"
  shows "covers w {x * y mod 2 ^ w |x y. x \<in> elems r \<and> y \<in> elems s} (cr_multiply r s)"
proof (cases "isEmptySet r \<or> isEmptySet s")
  case True
  have w: "getBitWidth r = w" "0 < w" using wf_getBitWidth [OF r] by simp_all
  have "cr_multiply r s = CR_set w False" using True by (simp add: cr_multiply_def w)
  moreover have "covers w {x * y mod 2 ^ w |x y. x \<in> elems r \<and> y \<in> elems s} (CR_set w False)"
    using True range_tests(1) [OF r] range_tests(1) [OF s] by (intro covers_empty [OF w(2)]) auto
  ultimately show ?thesis by simp
next
  case False
  let ?X = "{x * y mod 2 ^ w |x y. x \<in> elems r \<and> y \<in> elems s}"
  have w: "getBitWidth r = w" "0 < w" "0 < w * 2" using wf_getBitWidth [OF r] by simp_all
  have "elems r \<noteq> {}" "elems s \<noteq> {}" using False range_tests(1) r s by blast+
  then obtain x0 y0 where ne: "x0 \<in> elems r" "y0 \<in> elems s" by blast
  define zl zh where "zl = ap_mul (ap_zext (getUnsignedMin r) (w * 2)) (ap_zext (getUnsignedMin s) (w * 2))"
    and "zh = ap_mul (ap_zext (getUnsignedMax r) (w * 2)) (ap_zext (getUnsignedMax s) (w * 2))"
  define UR where "UR = cr_truncate (CR zl (ap_inc zh)) w"
  define L where "L = [ap_mul (ap_sext (getSignedMin r) (w * 2)) (ap_sext (getSignedMin s) (w * 2)),
    ap_mul (ap_sext (getSignedMin r) (w * 2)) (ap_sext (getSignedMax s) (w * 2)),
    ap_mul (ap_sext (getSignedMax r) (w * 2)) (ap_sext (getSignedMin s) (w * 2)),
    ap_mul (ap_sext (getSignedMax r) (w * 2)) (ap_sext (getSignedMax s) (w * 2))]"
  define SR where "SR = cr_truncate (CR (min_slt L) (ap_inc (max_slt L))) w"
  have res: "cr_multiply r s = (if ult (getSetSize UR) (getSetSize SR) then UR else SR)"
  proof -
    have "APInt_mul (ap_zext a (w * 2)) (ap_zext b (w * 2)) = ap_mul (ap_zext a (w * 2)) (ap_zext b (w * 2))"
      "APInt_mul (ap_sext a (w * 2)) (ap_sext b (w * 2)) = ap_mul (ap_sext a (w * 2)) (ap_sext b (w * 2))" for a b
      using w(2) exact by (simp_all add: APInt_mul_exact [of "w * 2"] wf_apint_def ap_zext_def ap_sext_def of_sval_def nat_less_iff)
    then show ?thesis
      using False by (simp add: cr_multiply_def w(1) Let_def UR_def SR_def zl_def zh_def L_def)
  qed
  note ur = unsigned_extremes [OF r] and us = unsigned_extremes [OF s]
  note sr = signed_extremes [OF r] and ss = signed_extremes [OF s]
  have "covers w ?X UR"
  proof -
    have lt: "x * y < 2 ^ (w * 2) - 1" if "x < 2 ^ w" "y < 2 ^ w" for x y :: nat
    proof -
      have "x * y \<le> (2 ^ w - 1) * (2 ^ w - 1)" using that by (intro mult_le_mono) simp_all
      moreover have "(2 ^ w - 1) * (2 ^ w - 1) + 2 * (2 ^ w - 1) + 1 = (2 :: nat) ^ (w * 2)"
      proof -
        obtain k where k: "(2 :: nat) ^ w = Suc k" by (metis Suc_pred' zero_less_numeral zero_less_power)
        show ?thesis by (simp add: power_mult power2_eq_square k)
      qed
      moreover have "1 < (2 :: nat) ^ w" using w(2) by (rule one_less_exp)
      ultimately show ?thesis by linarith
    qed
    have mul: "ival (ap_mul (ap_zext a (w * 2)) (ap_zext b (w * 2))) = ival a * ival b"
      if "wf_apint w a" "wf_apint w b" for a b
    proof -
      have "ival a * ival b < 2 ^ (w * 2)" using lt [OF ival_less [OF that(1)] ival_less [OF that(2)]] by linarith
      moreover have "ival a < 2 ^ (w * 2)" "ival b < 2 ^ (w * 2)"
        using ival_less [OF that(1)] ival_less [OF that(2)] exp_mono(2) [of w "w * 2"] by linarith+
      ultimately show ?thesis by (simp add: ap_mul_def ap_zext_def)
    qed
    have z: "ival zl = ival (getUnsignedMin r) * ival (getUnsignedMin s)" "ival zh = ival (getUnsignedMax r) * ival (getUnsignedMax s)"
      unfolding zl_def zh_def using ur us by (simp_all add: mul)
    have wf: "wf_apint (w * 2) zl" "wf_apint (w * 2) zh"
      unfolding zl_def zh_def using w(3) by (simp_all add: ap_mul_def)
    have X: "ival zl \<le> v \<and> v \<le> ival zh" if "v \<in> {x * y |x y. x \<in> elems r \<and> y \<in> elems s}" for v
      using that ur(3,4) us(3,4) unfolding z by (auto intro: mult_le_mono)
    have le: "ival zl \<le> ival zh" using X [of "x0 * y0"] ne order_trans by blast
    have "ival zh \<noteq> 2 ^ (w * 2) - 1"
      using lt [OF ival_less [OF ur(1)] ival_less [OF us(1)]] unfolding z by linarith
    then have "zl \<noteq> ap_inc zh" using hull_unsigned(1) [OF wf le, of "{}"] by simp
    moreover have "covers (w * 2) {x * y |x y. x \<in> elems r \<and> y \<in> elems s}
        (if zl = ap_inc zh then CR_set (w * 2) True else CR zl (ap_inc zh))"
      by (rule hull_unsigned(2) [OF wf le X])
    ultimately have "covers (w * 2) {x * y |x y. x \<in> elems r \<and> y \<in> elems s} (CR zl (ap_inc zh))"
      by (simp only: if_False)
    from covers_trunc_image [OF w(2) exact this] show ?thesis unfolding UR_def
      by (rule covers_mono) blast
  qed
  moreover have "covers w ?X SR"
  proof -
    let ?p = "\<lambda>x y. ap_mul (ap_sext (mk_apint w x) (w * 2)) (ap_sext (mk_apint w y) (w * 2))"
    have inL: "wf_apint (w * 2) a \<and> (\<exists>b c. wf_apint w b \<and> wf_apint w c \<and> sval a = sval b * sval c)" if "a \<in> set L" for a
      using that sext_product [OF sr(2) ss(2)] sext_product [OF sr(2) ss(1)] sext_product [OF sr(1) ss(2)]
        sext_product [OF sr(1) ss(1)] sr(1,2) ss(1,2) unfolding L_def by auto
    have wf: "wf_apint (w * 2) (min_slt L)" "wf_apint (w * 2) (max_slt L)"
      using inL min_max_slt(1,2) unfolding L_def by blast+
    have mid: "wf_apint (w * 2) (?p x y) \<and> sval (min_slt L) \<le> sval (?p x y) \<and> sval (?p x y) \<le> sval (max_slt L)"
      if xy: "x \<in> elems r" "y \<in> elems s" for x y
    proof -
      note bx = signed_bounds [OF r xy(1)] and b_y = signed_bounds [OF s xy(2)]
      have "sval (?p x y) = sval (mk_apint w x) * sval (mk_apint w y)" "wf_apint (w * 2) (?p x y)"
        by (rule sext_product [OF bx(1) b_y(1)])+
      moreover have "sval (min_slt L) \<le> sval (mk_apint w x) * sval (mk_apint w y)"
        "sval (mk_apint w x) * sval (mk_apint w y) \<le> sval (max_slt L)"
        unfolding L_def min_max_slt(3,4) sext_product(1) [OF sr(2) ss(2)] sext_product(1) [OF sr(2) ss(1)]
          sext_product(1) [OF sr(1) ss(2)] sext_product(1) [OF sr(1) ss(1)]
        by (rule product_between [OF bx(3,4) b_y(3,4)])+
      ultimately show ?thesis by simp
    qed
    have le: "sval (min_slt L) \<le> sval (max_slt L)" using mid [OF ne] by linarith
    have "\<not> (sval (min_slt L) = - (2 ^ (w * 2 - 1)) \<and> sval (max_slt L) = 2 ^ (w * 2 - 1) - 1)"
    proof
      assume e: "sval (min_slt L) = - (2 ^ (w * 2 - 1)) \<and> sval (max_slt L) = 2 ^ (w * 2 - 1) - 1"
      obtain b c where bc: "wf_apint w b" "wf_apint w c" "sval (min_slt L) = sval b * sval c"
        using inL min_max_slt(1) unfolding L_def by blast
      define h where "h = (2 :: int) ^ (w - 1)"
      have h: "0 < h" by (simp add: h_def)
      have "\<bar>sval b\<bar> \<le> h" "\<bar>sval c\<bar> \<le> h" using sval_bounds [OF bc(1)] sval_bounds [OF bc(2)] by (auto simp: h_def)
      then have "\<bar>sval b * sval c\<bar> \<le> h * h" unfolding abs_mult using h by (intro mult_mono) auto
      moreover have "(2 :: int) ^ (w * 2 - 1) = 2 * (h * h)"
        using double_half_exp [OF w(2)] by (simp only: h_def)
      moreover have "0 < h * h" using h by simp
      ultimately show False using e bc(3) by linarith
    qed
    then have "min_slt L \<noteq> ap_inc (max_slt L)" using hull_signed(1) [OF wf le, of "{}"] by simp
    moreover have "covers (w * 2) {ival (?p x y) |x y. x \<in> elems r \<and> y \<in> elems s}
        (if min_slt L = ap_inc (max_slt L) then CR_set (w * 2) True else CR (min_slt L) (ap_inc (max_slt L)))"
      by (rule hull_signed(2) [OF wf le]) (use mid in blast)
    ultimately have "covers (w * 2) {ival (?p x y) |x y. x \<in> elems r \<and> y \<in> elems s} (CR (min_slt L) (ap_inc (max_slt L)))"
      by (simp only: if_False)
    from covers_trunc_image [OF w(2) exact this] show ?thesis unfolding SR_def
    proof (rule covers_mono)
      have "x * y mod 2 ^ w = ival (?p x y) mod 2 ^ w" if xy: "x \<in> elems r" "y \<in> elems s" for x y
      proof -
        note bx = signed_bounds [OF r xy(1)] and b_y = signed_bounds [OF s xy(2)]
        have "int (ival (?p x y)) mod 2 ^ (w * 2) mod 2 ^ w = (sval (mk_apint w x) * sval (mk_apint w y)) mod 2 ^ (w * 2) mod 2 ^ w"
          using ival_mod_sval [of "?p x y" "w * 2"] sext_product(1) [OF bx(1) b_y(1)] by simp
        moreover have "(2 :: int) ^ w dvd 2 ^ (w * 2)" by (simp add: le_imp_power_dvd)
        ultimately have "int (ival (?p x y)) mod 2 ^ w = (sval (mk_apint w x) * sval (mk_apint w y)) mod 2 ^ w"
          by (simp add: mod_mod_cancel)
        also have "\<dots> = (int x * int y) mod 2 ^ w"
          using ival_mod_sval [of "mk_apint w x" w] ival_mod_sval [of "mk_apint w y" w] bx(2) b_y(2)
          by (metis bitWidth_simps(1) mod_mult_eq)
        finally have "int (x * y mod 2 ^ w) = int (ival (?p x y) mod 2 ^ w)" by (simp add: zmod_int)
        then show ?thesis by (simp only: of_nat_eq_iff)
      qed
      then show "?X \<subseteq> (\<lambda>v. v mod 2 ^ w) ` {ival (?p x y) |x y. x \<in> elems r \<and> y \<in> elems s}" by blast
    qed
  qed
  ultimately show ?thesis unfolding res by simp
qed

end
