(* ===== verification/CmpPredicate.thy ===== *)
theory CmpPredicate
  imports APIntSpec
begin

text \<open>
  The comparison predicates of \<open>llvm/IR/InstrTypes.h\<close> (\<open>CmpInst::Predicate\<close>) and the operations on
  them in \<open>lib/IR/Instructions.cpp\<close>: inverting, swapping, changing signedness and the
  classifications. The two \<open>BAD\<close> values are enumerators too; an operation whose \<open>switch\<close> has no
  case for its argument ends in \<open>llvm_unreachable\<close>, which is \<open>None\<close>.
\<close>

datatype predicate =
    FCMP_FALSE | FCMP_OEQ | FCMP_OGT | FCMP_OGE | FCMP_OLT | FCMP_OLE | FCMP_ONE | FCMP_ORD
  | FCMP_UNO | FCMP_UEQ | FCMP_UGT | FCMP_UGE | FCMP_ULT | FCMP_ULE | FCMP_UNE | FCMP_TRUE
  | BAD_FCMP_PREDICATE
  | ICMP_EQ | ICMP_NE | ICMP_UGT | ICMP_UGE | ICMP_ULT | ICMP_ULE | ICMP_SGT | ICMP_SGE
  | ICMP_SLT | ICMP_SLE | BAD_ICMP_PREDICATE

fun pred_code :: "predicate \<Rightarrow> nat" where
  "pred_code FCMP_FALSE = 0" | "pred_code FCMP_OEQ = 1" | "pred_code FCMP_OGT = 2" | "pred_code FCMP_OGE = 3"
| "pred_code FCMP_OLT = 4" | "pred_code FCMP_OLE = 5" | "pred_code FCMP_ONE = 6" | "pred_code FCMP_ORD = 7"
| "pred_code FCMP_UNO = 8" | "pred_code FCMP_UEQ = 9" | "pred_code FCMP_UGT = 10" | "pred_code FCMP_UGE = 11"
| "pred_code FCMP_ULT = 12" | "pred_code FCMP_ULE = 13" | "pred_code FCMP_UNE = 14" | "pred_code FCMP_TRUE = 15"
| "pred_code BAD_FCMP_PREDICATE = 15 + 1"
| "pred_code ICMP_EQ = 32" | "pred_code ICMP_NE = 33" | "pred_code ICMP_UGT = 34" | "pred_code ICMP_UGE = 35"
| "pred_code ICMP_ULT = 36" | "pred_code ICMP_ULE = 37" | "pred_code ICMP_SGT = 38" | "pred_code ICMP_SGE = 39"
| "pred_code ICMP_SLT = 40" | "pred_code ICMP_SLE = 41"
| "pred_code BAD_ICMP_PREDICATE = 41 + 1"

text \<open>The enumerators are ordered by their codes, which is how the range tests read them.\<close>

instantiation predicate :: linorder
begin

definition less_eq_predicate :: "predicate \<Rightarrow> predicate \<Rightarrow> bool" where
  "less_eq_predicate p q \<longleftrightarrow> pred_code p \<le> pred_code q"

definition less_predicate :: "predicate \<Rightarrow> predicate \<Rightarrow> bool" where
  "less_predicate p q \<longleftrightarrow> pred_code p < pred_code q"

instance
proof
  fix p q r :: predicate
  show "p < q \<longleftrightarrow> p \<le> q \<and> \<not> q \<le> p" by (auto simp: less_eq_predicate_def less_predicate_def)
  show "p \<le> p" by (simp add: less_eq_predicate_def)
  show "p \<le> q \<Longrightarrow> q \<le> r \<Longrightarrow> p \<le> r" by (simp add: less_eq_predicate_def)
  show "p \<le> q \<or> q \<le> p" by (simp add: less_eq_predicate_def linear)
  show "p \<le> q \<Longrightarrow> q \<le> p \<Longrightarrow> p = q"
    unfolding less_eq_predicate_def by (cases p; simp; cases q; simp)
qed

end

definition isFPPredicate :: "predicate \<Rightarrow> bool" where
  "isFPPredicate P \<longleftrightarrow> P \<ge> FCMP_FALSE \<and> P \<le> FCMP_TRUE"

definition isIntPredicate :: "predicate \<Rightarrow> bool" where
  "isIntPredicate P \<longleftrightarrow> P \<ge> ICMP_EQ \<and> P \<le> ICMP_SLE"

fun getInversePredicate :: "predicate \<Rightarrow> predicate option" where
  "getInversePredicate ICMP_EQ = Some ICMP_NE"
| "getInversePredicate ICMP_NE = Some ICMP_EQ"
| "getInversePredicate ICMP_UGT = Some ICMP_ULE"
| "getInversePredicate ICMP_ULT = Some ICMP_UGE"
| "getInversePredicate ICMP_UGE = Some ICMP_ULT"
| "getInversePredicate ICMP_ULE = Some ICMP_UGT"
| "getInversePredicate ICMP_SGT = Some ICMP_SLE"
| "getInversePredicate ICMP_SLT = Some ICMP_SGE"
| "getInversePredicate ICMP_SGE = Some ICMP_SLT"
| "getInversePredicate ICMP_SLE = Some ICMP_SGT"
| "getInversePredicate FCMP_OEQ = Some FCMP_UNE"
| "getInversePredicate FCMP_ONE = Some FCMP_UEQ"
| "getInversePredicate FCMP_OGT = Some FCMP_ULE"
| "getInversePredicate FCMP_OLT = Some FCMP_UGE"
| "getInversePredicate FCMP_OGE = Some FCMP_ULT"
| "getInversePredicate FCMP_OLE = Some FCMP_UGT"
| "getInversePredicate FCMP_UEQ = Some FCMP_ONE"
| "getInversePredicate FCMP_UNE = Some FCMP_OEQ"
| "getInversePredicate FCMP_UGT = Some FCMP_OLE"
| "getInversePredicate FCMP_ULT = Some FCMP_OGE"
| "getInversePredicate FCMP_UGE = Some FCMP_OLT"
| "getInversePredicate FCMP_ULE = Some FCMP_OGT"
| "getInversePredicate FCMP_ORD = Some FCMP_UNO"
| "getInversePredicate FCMP_UNO = Some FCMP_ORD"
| "getInversePredicate FCMP_TRUE = Some FCMP_FALSE"
| "getInversePredicate FCMP_FALSE = Some FCMP_TRUE"
| "getInversePredicate _ = None"

fun getSignedPredicate :: "predicate \<Rightarrow> predicate option" where
  "getSignedPredicate ICMP_EQ = Some ICMP_EQ"
| "getSignedPredicate ICMP_NE = Some ICMP_NE"
| "getSignedPredicate ICMP_SGT = Some ICMP_SGT"
| "getSignedPredicate ICMP_SLT = Some ICMP_SLT"
| "getSignedPredicate ICMP_SGE = Some ICMP_SGE"
| "getSignedPredicate ICMP_SLE = Some ICMP_SLE"
| "getSignedPredicate ICMP_UGT = Some ICMP_SGT"
| "getSignedPredicate ICMP_ULT = Some ICMP_SLT"
| "getSignedPredicate ICMP_UGE = Some ICMP_SGE"
| "getSignedPredicate ICMP_ULE = Some ICMP_SLE"
| "getSignedPredicate _ = None"

fun getUnsignedPredicate :: "predicate \<Rightarrow> predicate option" where
  "getUnsignedPredicate ICMP_EQ = Some ICMP_EQ"
| "getUnsignedPredicate ICMP_NE = Some ICMP_NE"
| "getUnsignedPredicate ICMP_UGT = Some ICMP_UGT"
| "getUnsignedPredicate ICMP_ULT = Some ICMP_ULT"
| "getUnsignedPredicate ICMP_UGE = Some ICMP_UGE"
| "getUnsignedPredicate ICMP_ULE = Some ICMP_ULE"
| "getUnsignedPredicate ICMP_SGT = Some ICMP_UGT"
| "getUnsignedPredicate ICMP_SLT = Some ICMP_ULT"
| "getUnsignedPredicate ICMP_SGE = Some ICMP_UGE"
| "getUnsignedPredicate ICMP_SLE = Some ICMP_ULE"
| "getUnsignedPredicate _ = None"

fun getSwappedPredicate :: "predicate \<Rightarrow> predicate option" where
  "getSwappedPredicate ICMP_EQ = Some ICMP_EQ"
| "getSwappedPredicate ICMP_NE = Some ICMP_NE"
| "getSwappedPredicate ICMP_SGT = Some ICMP_SLT"
| "getSwappedPredicate ICMP_SLT = Some ICMP_SGT"
| "getSwappedPredicate ICMP_SGE = Some ICMP_SLE"
| "getSwappedPredicate ICMP_SLE = Some ICMP_SGE"
| "getSwappedPredicate ICMP_UGT = Some ICMP_ULT"
| "getSwappedPredicate ICMP_ULT = Some ICMP_UGT"
| "getSwappedPredicate ICMP_UGE = Some ICMP_ULE"
| "getSwappedPredicate ICMP_ULE = Some ICMP_UGE"
| "getSwappedPredicate FCMP_FALSE = Some FCMP_FALSE"
| "getSwappedPredicate FCMP_TRUE = Some FCMP_TRUE"
| "getSwappedPredicate FCMP_OEQ = Some FCMP_OEQ"
| "getSwappedPredicate FCMP_ONE = Some FCMP_ONE"
| "getSwappedPredicate FCMP_UEQ = Some FCMP_UEQ"
| "getSwappedPredicate FCMP_UNE = Some FCMP_UNE"
| "getSwappedPredicate FCMP_ORD = Some FCMP_ORD"
| "getSwappedPredicate FCMP_UNO = Some FCMP_UNO"
| "getSwappedPredicate FCMP_OGT = Some FCMP_OLT"
| "getSwappedPredicate FCMP_OLT = Some FCMP_OGT"
| "getSwappedPredicate FCMP_OGE = Some FCMP_OLE"
| "getSwappedPredicate FCMP_OLE = Some FCMP_OGE"
| "getSwappedPredicate FCMP_UGT = Some FCMP_ULT"
| "getSwappedPredicate FCMP_ULT = Some FCMP_UGT"
| "getSwappedPredicate FCMP_UGE = Some FCMP_ULE"
| "getSwappedPredicate FCMP_ULE = Some FCMP_UGE"
| "getSwappedPredicate _ = None"

definition isUnsigned :: "predicate \<Rightarrow> bool" where
  "isUnsigned p \<longleftrightarrow> p \<in> {ICMP_ULT, ICMP_ULE, ICMP_UGT, ICMP_UGE}"

definition isSigned :: "predicate \<Rightarrow> bool" where
  "isSigned p \<longleftrightarrow> p \<in> {ICMP_SLT, ICMP_SLE, ICMP_SGT, ICMP_SGE}"

definition isOrdered :: "predicate \<Rightarrow> bool" where
  "isOrdered p \<longleftrightarrow> p \<in> {FCMP_OEQ, FCMP_ONE, FCMP_OGT, FCMP_OLT, FCMP_OGE, FCMP_OLE, FCMP_ORD}"

definition isUnordered :: "predicate \<Rightarrow> bool" where
  "isUnordered p \<longleftrightarrow> p \<in> {FCMP_UEQ, FCMP_UNE, FCMP_UGT, FCMP_ULT, FCMP_UGE, FCMP_ULE, FCMP_UNO}"

definition isTrueWhenEqual :: "predicate \<Rightarrow> bool" where
  "isTrueWhenEqual p \<longleftrightarrow> p \<in> {ICMP_EQ, ICMP_UGE, ICMP_ULE, ICMP_SGE, ICMP_SLE,
     FCMP_TRUE, FCMP_UEQ, FCMP_UGE, FCMP_ULE}"

definition isFalseWhenEqual :: "predicate \<Rightarrow> bool" where
  "isFalseWhenEqual p \<longleftrightarrow> p \<in> {ICMP_NE, ICMP_UGT, ICMP_ULT, ICMP_SGT, ICMP_SLT,
     FCMP_FALSE, FCMP_ONE, FCMP_OGT, FCMP_OLT}"

text \<open>\<open>ICmpInst::isEquality\<close>, which also answers \<open>isCommutative\<close>.\<close>

definition isEquality :: "predicate \<Rightarrow> bool" where
  "isEquality P \<longleftrightarrow> P = ICMP_EQ \<or> P = ICMP_NE"

definition isRelational :: "predicate \<Rightarrow> bool" where
  "isRelational P \<longleftrightarrow> \<not> isEquality P"

section \<open>What the predicates mean\<close>

text \<open>The four possible relations of two floating point values, in the order of the bits \<open>U L G E\<close>
  of the table in \<open>InstrTypes.h\<close>; a predicate holds when the bit of the relation is set in its
  code.\<close>

datatype fp_relation = Equal | Greater | Less | Unordered

fun relation_bit :: "fp_relation \<Rightarrow> nat" where
  "relation_bit Equal = 0" | "relation_bit Greater = 1" | "relation_bit Less = 2" | "relation_bit Unordered = 3"

fun converse_relation :: "fp_relation \<Rightarrow> fp_relation" where
  "converse_relation Less = Greater" | "converse_relation Greater = Less" | "converse_relation r = r"

definition fcmp_holds :: "predicate \<Rightarrow> fp_relation \<Rightarrow> bool" where
  "fcmp_holds p r \<longleftrightarrow> odd (pred_code p div 2 ^ relation_bit r)"

fun icmp_holds :: "predicate \<Rightarrow> apint \<Rightarrow> apint \<Rightarrow> bool" where
  "icmp_holds ICMP_EQ a b \<longleftrightarrow> ival a = ival b"
| "icmp_holds ICMP_NE a b \<longleftrightarrow> ival a \<noteq> ival b"
| "icmp_holds ICMP_UGT a b \<longleftrightarrow> ival a > ival b"
| "icmp_holds ICMP_UGE a b \<longleftrightarrow> ival a \<ge> ival b"
| "icmp_holds ICMP_ULT a b \<longleftrightarrow> ival a < ival b"
| "icmp_holds ICMP_ULE a b \<longleftrightarrow> ival a \<le> ival b"
| "icmp_holds ICMP_SGT a b \<longleftrightarrow> sval a > sval b"
| "icmp_holds ICMP_SGE a b \<longleftrightarrow> sval a \<ge> sval b"
| "icmp_holds ICMP_SLT a b \<longleftrightarrow> sval a < sval b"
| "icmp_holds ICMP_SLE a b \<longleftrightarrow> sval a \<le> sval b"
| "icmp_holds _ a b \<longleftrightarrow> False"

lemmas predicate_simps = less_eq_predicate_def isFPPredicate_def isIntPredicate_def fcmp_holds_def

text \<open>Each operation acts within the floating point or within the integer predicates.\<close>

lemma predicate_cases:
  obtains (fp) "isFPPredicate p" | (int) "isIntPredicate p" | (bad) "p = BAD_FCMP_PREDICATE \<or> p = BAD_ICMP_PREDICATE"
  by (cases p) (simp_all add: predicate_simps)

lemma not_bad: "isFPPredicate p \<or> isIntPredicate p \<longleftrightarrow> p \<noteq> BAD_FCMP_PREDICATE \<and> p \<noteq> BAD_ICMP_PREDICATE"
  by (cases p) (simp_all add: predicate_simps)

lemma getInversePredicate_fcmp:
  "isFPPredicate p \<Longrightarrow> \<exists>q. getInversePredicate p = Some q \<and> isFPPredicate q \<and> pred_code q = 15 - pred_code p"
  by (cases p) (simp_all add: predicate_simps)

lemma getInversePredicate_icmp:
  "isIntPredicate p \<Longrightarrow> \<exists>q. getInversePredicate p = Some q \<and> isIntPredicate q \<and> (\<forall>a b. icmp_holds q a b \<longleftrightarrow> \<not> icmp_holds p a b)"
  by (cases p) (auto simp: predicate_simps)

lemma icmp_holds_inverse:
  "getInversePredicate p = Some q \<Longrightarrow> isIntPredicate p \<Longrightarrow> icmp_holds q a b \<longleftrightarrow> \<not> icmp_holds p a b"
  by (cases p) (auto simp: predicate_simps)

section \<open>The properties\<close>

text \<open>\<open>getInversePredicate\<close> is defined on every comparison predicate, stays within its family,
  is an involution, and the predicate it returns holds exactly when the given one does not: for
  every relation of two floating point values, unordered included, and for all integers.\<close>

theorem getInversePredicate_negates:
  assumes "isFPPredicate p \<or> isIntPredicate p"
  shows "\<exists>q. getInversePredicate p = Some q \<and> getInversePredicate q = Some p \<and>
    (isFPPredicate q \<longleftrightarrow> isFPPredicate p) \<and>
    (if isFPPredicate p then \<forall>r. fcmp_holds q r = (\<not> fcmp_holds p r)
     else \<forall>a b. icmp_holds q a b = (\<not> icmp_holds p a b))"
proof -
  have fp: "(\<forall>r. P r) \<longleftrightarrow> P Equal \<and> P Greater \<and> P Less \<and> P Unordered" for P
    by (metis fp_relation.exhaust)
  show ?thesis using assms by (cases p) (auto simp: predicate_simps fp)
qed

theorem getInversePredicate_negates_witness:
  "\<exists>q. getInversePredicate FCMP_OLT = Some q \<and> getInversePredicate q = Some FCMP_OLT \<and>
    (isFPPredicate q \<longleftrightarrow> isFPPredicate FCMP_OLT) \<and>
    (if isFPPredicate FCMP_OLT then \<forall>r. fcmp_holds q r = (\<not> fcmp_holds FCMP_OLT r)
     else \<forall>a b. icmp_holds q a b = (\<not> icmp_holds FCMP_OLT a b))"
  by (rule getInversePredicate_negates) (simp add: predicate_simps)

text \<open>\<open>getSwappedPredicate\<close> is defined on every comparison predicate and returns the one that
  holds of the exchanged operands.\<close>

theorem getSwappedPredicate_exchanges:
  assumes "isFPPredicate p \<or> isIntPredicate p"
  shows "\<exists>q. getSwappedPredicate p = Some q \<and> getSwappedPredicate q = Some p \<and>
    (if isFPPredicate p then \<forall>r. fcmp_holds q (converse_relation r) = fcmp_holds p r
     else \<forall>a b. icmp_holds q b a = icmp_holds p a b)"
proof -
  have fp: "(\<forall>r. P r) \<longleftrightarrow> P Equal \<and> P Greater \<and> P Less \<and> P Unordered" for P
    by (metis fp_relation.exhaust)
  show ?thesis using assms by (cases p) (auto simp: predicate_simps fp)
qed

theorem getSwappedPredicate_exchanges_witness:
  "\<exists>q. getSwappedPredicate ICMP_SLT = Some q \<and> getSwappedPredicate q = Some ICMP_SLT \<and>
    (if isFPPredicate ICMP_SLT then \<forall>r. fcmp_holds q (converse_relation r) = fcmp_holds ICMP_SLT r
     else \<forall>a b. icmp_holds q b a = icmp_holds ICMP_SLT a b)"
  by (rule getSwappedPredicate_exchanges) (simp add: predicate_simps)

text \<open>A value compared with itself is equal or, for a floating point NaN, unordered.
  \<open>isTrueWhenEqual\<close> and \<open>isFalseWhenEqual\<close> answer exactly for the predicates that hold, or fail, in
  every such case.\<close>

theorem self_comparison:
  assumes "isFPPredicate p \<or> isIntPredicate p"
    and "outcomes = (if isFPPredicate p then {fcmp_holds p Equal, fcmp_holds p Unordered} else {icmp_holds p a a})"
  shows "(isTrueWhenEqual p \<longleftrightarrow> outcomes = {True}) \<and> (isFalseWhenEqual p \<longleftrightarrow> outcomes = {False})"
  using assms(1) unfolding assms(2)
  by (cases p) (auto simp: predicate_simps isTrueWhenEqual_def isFalseWhenEqual_def)

theorem self_comparison_witness:
  "(isTrueWhenEqual FCMP_UGE \<longleftrightarrow> {fcmp_holds FCMP_UGE Equal, fcmp_holds FCMP_UGE Unordered} = {True}) \<and>
   (isFalseWhenEqual FCMP_UGE \<longleftrightarrow> {fcmp_holds FCMP_UGE Equal, fcmp_holds FCMP_UGE Unordered} = {False})"
  by (rule self_comparison [of FCMP_UGE]) (simp_all add: predicate_simps)

end
