(* ===== verification/ICmpRanges.thy ===== *)
theory ICmpRanges
  imports ConstantRangeSound CmpPredicate
begin

text \<open>
  Ranges from comparisons: \<open>ConstantRange::makeAllowedICmpRegion\<close> and \<open>makeSatisfyingICmpRegion\<close>, and
  \<open>ICmpInst::makeConstantRange\<close>. A predicate that is not an integer comparison ends in
  \<open>llvm_unreachable\<close>, which is \<open>None\<close>; an empty range is returned before the predicate is looked at.
\<close>

section \<open>The functions\<close>

definition makeAllowedICmpRegion :: "predicate \<Rightarrow> crange \<Rightarrow> crange option" where
  "makeAllowedICmpRegion Pred r =
     (if isEmptySet r then Some r
      else
        let W = getBitWidth r;
            UMax = getUnsignedMax r; UMin = getUnsignedMin r;
            SMax = getSignedMax r; SMin = getSignedMin r
        in case Pred of
             ICMP_EQ \<Rightarrow> Some r
           | ICMP_NE \<Rightarrow> Some (if isSingleElement r then CR (Upper r) (Lower r) else CR_set W True)
           | ICMP_ULT \<Rightarrow> Some (if isMinValue UMax then CR_set W False else CR (getMinValue W) UMax)
           | ICMP_SLT \<Rightarrow> Some (if isMinSignedValue SMax then CR_set W False else CR (getSignedMinValue W) SMax)
           | ICMP_ULE \<Rightarrow> Some (if isMaxValue UMax then CR_set W True else CR (getMinValue W) (ap_inc UMax))
           | ICMP_SLE \<Rightarrow> Some (if isMaxSignedValue SMax then CR_set W True else CR (getSignedMinValue W) (ap_inc SMax))
           | ICMP_UGT \<Rightarrow> Some (if isMaxValue UMin then CR_set W False else CR (ap_inc UMin) (getMinValue W))
           | ICMP_SGT \<Rightarrow> Some (if isMaxSignedValue SMin then CR_set W False else CR (ap_inc SMin) (getSignedMinValue W))
           | ICMP_UGE \<Rightarrow> Some (if isMinValue UMin then CR_set W True else CR UMin (getMinValue W))
           | ICMP_SGE \<Rightarrow> Some (if isMinSignedValue SMin then CR_set W True else CR SMin (getSignedMinValue W))
           | _ \<Rightarrow> None)"

definition makeSatisfyingICmpRegion :: "predicate \<Rightarrow> crange \<Rightarrow> crange option" where
  "makeSatisfyingICmpRegion Pred r =
     (case getInversePredicate Pred of
        None \<Rightarrow> None
      | Some q \<Rightarrow> map_option cr_inverse (makeAllowedICmpRegion q r))"

definition makeConstantRange :: "predicate \<Rightarrow> apint \<Rightarrow> crange option" where
  "makeConstantRange pred C =
     (let w = bitWidth C;
          or_empty = (\<lambda>L U. if L = U then CR_set w False else CR L U);
          or_full = (\<lambda>L U. if L = U then CR_set w True else CR L U)
      in case pred of
           ICMP_EQ \<Rightarrow> Some (CR C (ap_inc C))
         | ICMP_NE \<Rightarrow> Some (CR (ap_inc C) C)
         | ICMP_ULT \<Rightarrow> Some (or_empty (getMinValue w) C)
         | ICMP_SLT \<Rightarrow> Some (or_empty (getSignedMinValue w) C)
         | ICMP_UGT \<Rightarrow> Some (or_empty (ap_inc C) (getMinValue w))
         | ICMP_SGT \<Rightarrow> Some (or_empty (ap_inc C) (getSignedMinValue w))
         | ICMP_ULE \<Rightarrow> Some (or_full (getMinValue w) (ap_inc C))
         | ICMP_SLE \<Rightarrow> Some (or_full (getSignedMinValue w) (ap_inc C))
         | ICMP_UGE \<Rightarrow> Some (or_full C (getMinValue w))
         | ICMP_SGE \<Rightarrow> Some (or_full C (getSignedMinValue w))
         | _ \<Rightarrow> None)"

section \<open>Half lines\<close>

lemma arc_half_lines:
  "0 < u \<Longrightarrow> u < m \<Longrightarrow> arc m 0 u = {v. v < m \<and> v < u}"
  "0 < l \<Longrightarrow> l < m \<Longrightarrow> arc m l 0 = {v. v < m \<and> l \<le> v}"
  "0 < h \<Longrightarrow> m = 2 * h \<Longrightarrow> u < m \<Longrightarrow> u \<noteq> h \<Longrightarrow> arc m h u = {v. v < m \<and> \<not> sleq h u v}"
  "0 < h \<Longrightarrow> m = 2 * h \<Longrightarrow> l < m \<Longrightarrow> l \<noteq> h \<Longrightarrow> arc m l h = {v. v < m \<and> sleq h l v}"
  by (auto simp: arc_def sleq_def split: if_splits)

lemma arc_single:
  assumes "c < m" "1 < m"
  shows "arc m c (if c + 1 < m then c + 1 else 0) = {v. v < m \<and> v = c}"
    and "arc m (if c + 1 < m then c + 1 else 0) c = {v. v < m \<and> v \<noteq> c}"
proof -
  show "arc m c (if c + 1 < m then c + 1 else 0) = {v. v < m \<and> v = c}"
    using assms by (cases "c + 1 < m") (auto simp: arc_def)
  show "arc m (if c + 1 < m then c + 1 else 0) c = {v. v < m \<and> v \<noteq> c}"
    using assms by (cases "c + 1 < m") (auto simp: arc_def)
qed

text \<open>A range is \<open>exact w P\<close> when its elements are the numbers of the width with property \<open>P\<close>.\<close>

definition exact :: "nat \<Rightarrow> (nat \<Rightarrow> bool) \<Rightarrow> crange \<Rightarrow> bool" where
  "exact w P r \<longleftrightarrow> wf_range w r \<and> elems r = {v. v < 2 ^ w \<and> P v}"

lemma exact_sets:
  "0 < w \<Longrightarrow> (\<And>v. v < 2 ^ w \<Longrightarrow> P v) \<Longrightarrow> exact w P (CR_set w True)"
  "0 < w \<Longrightarrow> (\<And>v. v < 2 ^ w \<Longrightarrow> \<not> P v) \<Longrightarrow> exact w P (CR_set w False)"
  using elems_sets by (auto simp: exact_def)

lemma exact_CR:
  assumes "wf_apint w L" "wf_apint w U" "ival L \<noteq> ival U" "arc (2 ^ w) (ival L) (ival U) = {v. v < 2 ^ w \<and> P v}"
  shows "exact w P (CR L U)"
proof -
  have w: "bitWidth L = w" "bitWidth U = w" "0 < w" using assms(1,2) by (auto simp: wf_apint_def)
  show ?thesis using size_CR(1) [OF assms(1-3)] w assms(4)
    by (simp add: exact_def CR_mk_range [OF w(1,2)] wf_mk_range elems_mk_range)
qed

lemma exact_cong: "exact w P r \<Longrightarrow> (\<And>v. v < 2 ^ w \<Longrightarrow> P v \<longleftrightarrow> Q v) \<Longrightarrow> exact w Q r"
  by (auto simp: exact_def)

text \<open>The four half lines, with the special cases the code tests for.\<close>

lemma exact_below:
  assumes "wf_apint w c"
  shows "exact w (\<lambda>v. v < ival c) (if ival c = 0 then CR_set w False else CR (getMinValue w) c)"
    and "exact w (\<lambda>v. \<not> sleq (2 ^ (w - 1)) (ival c) v)
      (if ival c = 2 ^ (w - 1) then CR_set w False else CR (getSignedMinValue w) c)"
proof -
  have w: "0 < w" "ival c < 2 ^ w" using assms by (simp_all add: wf_apint_def)
  define h where "h = (2 :: nat) ^ (w - 1)"
  have h: "0 < h" "2 ^ w = 2 * h" using exp_halves [OF w(1), where 'a = nat] by (simp_all add: h_def)
  show "exact w (\<lambda>v. v < ival c) (if ival c = 0 then CR_set w False else CR (getMinValue w) c)"
  proof (cases "ival c = 0")
    case True
    then show ?thesis using exact_sets(2) [OF w(1), of "\<lambda>v. v < ival c"] by simp
  next
    case False
    then have "exact w (\<lambda>v. v < ival c) (CR (getMinValue w) c)"
      using w arc_half_lines(1) [of "ival c" "2 ^ w"] by (intro exact_CR assms wf_consts) (simp_all add: ival_consts)
    with False show ?thesis by simp
  qed
  have emp: "\<not> \<not> sleq h h v" if "v < 2 ^ w" for v using that h by (simp add: sleq_def)
  show "exact w (\<lambda>v. \<not> sleq (2 ^ (w - 1)) (ival c) v)
      (if ival c = 2 ^ (w - 1) then CR_set w False else CR (getSignedMinValue w) c)"
  proof (cases "ival c = h")
    case True
    then show ?thesis using exact_sets(2) [OF w(1) emp] by (simp add: h_def)
  next
    case False
    then have "exact w (\<lambda>v. \<not> sleq h (ival c) v) (CR (getSignedMinValue w) c)"
      using w arc_half_lines(3) [OF h] by (intro exact_CR assms wf_consts) (simp_all add: ival_consts h_def)
    with False show ?thesis by (simp add: h_def)
  qed
qed

lemma exact_above:
  assumes "wf_apint w c"
  shows "exact w (\<lambda>v. ival c \<le> v) (if ival c = 0 then CR_set w True else CR c (getMinValue w))"
    and "exact w (\<lambda>v. sleq (2 ^ (w - 1)) (ival c) v)
      (if ival c = 2 ^ (w - 1) then CR_set w True else CR c (getSignedMinValue w))"
proof -
  have w: "0 < w" "ival c < 2 ^ w" using assms by (simp_all add: wf_apint_def)
  define h where "h = (2 :: nat) ^ (w - 1)"
  have h: "0 < h" "2 ^ w = 2 * h" using exp_halves [OF w(1), where 'a = nat] by (simp_all add: h_def)
  show "exact w (\<lambda>v. ival c \<le> v) (if ival c = 0 then CR_set w True else CR c (getMinValue w))"
  proof (cases "ival c = 0")
    case True
    then show ?thesis using exact_sets(1) [OF w(1), of "\<lambda>v. ival c \<le> v"] by simp
  next
    case False
    then have "exact w (\<lambda>v. ival c \<le> v) (CR c (getMinValue w))"
      using w arc_half_lines(2) [of "ival c" "2 ^ w"] by (intro exact_CR assms wf_consts) (simp_all add: ival_consts)
    with False show ?thesis by simp
  qed
  have all: "sleq h h v" if "v < 2 ^ w" for v using that h by (simp add: sleq_def)
  show "exact w (\<lambda>v. sleq (2 ^ (w - 1)) (ival c) v)
      (if ival c = 2 ^ (w - 1) then CR_set w True else CR c (getSignedMinValue w))"
  proof (cases "ival c = h")
    case True
    then show ?thesis using exact_sets(1) [OF w(1) all] by (simp add: h_def)
  next
    case False
    then have "exact w (\<lambda>v. sleq h (ival c) v) (CR c (getSignedMinValue w))"
      using w arc_half_lines(4) [OF h] by (intro exact_CR assms wf_consts) (simp_all add: ival_consts h_def)
    with False show ?thesis by (simp add: h_def)
  qed
qed

text \<open>Stepping to the next value, unsigned and signed, turns a strict bound into a weak one.\<close>

lemma next_bound:
  assumes "wf_apint w c" and "v < 2 ^ w"
  shows "ival c \<noteq> 2 ^ w - 1 \<Longrightarrow> v < ival (ap_inc c) \<longleftrightarrow> v \<le> ival c"
    and "ival c \<noteq> 2 ^ (w - 1) - 1 \<Longrightarrow> \<not> sleq (2 ^ (w - 1)) (ival (ap_inc c)) v \<longleftrightarrow> sleq (2 ^ (w - 1)) v (ival c)"
    and "ival (ap_inc c) = 0 \<longleftrightarrow> ival c = 2 ^ w - 1"
    and "ival (ap_inc c) = 2 ^ (w - 1) \<longleftrightarrow> ival c = 2 ^ (w - 1) - 1"
proof -
  have w: "0 < w" "ival c < 2 ^ w" using assms by (simp_all add: wf_apint_def)
  define h where "h = (2 :: nat) ^ (w - 1)"
  have h: "0 < h" "2 ^ w = 2 * h" using exp_halves [OF w(1), where 'a = nat] by (simp_all add: h_def)
  note inc = ival_inc [OF assms(1), unfolded h(2)]
  have b: "ival c < 2 * h" "v < 2 * h" using w assms(2) h by simp_all
  show "ival c \<noteq> 2 ^ w - 1 \<Longrightarrow> v < ival (ap_inc c) \<longleftrightarrow> v \<le> ival c"
    "ival (ap_inc c) = 0 \<longleftrightarrow> ival c = 2 ^ w - 1"
    unfolding inc h(2) using b by auto
  show "ival (ap_inc c) = 2 ^ (w - 1) \<longleftrightarrow> ival c = 2 ^ (w - 1) - 1"
    unfolding inc h_def [symmetric] using b h(1) by auto
  show "ival c \<noteq> 2 ^ (w - 1) - 1 \<Longrightarrow> \<not> sleq (2 ^ (w - 1)) (ival (ap_inc c)) v \<longleftrightarrow> sleq (2 ^ (w - 1)) v (ival c)"
    unfolding inc h_def [symmetric] using b h(1) by (auto simp: sleq_def split: if_splits)
qed


text \<open>The weak bounds, up to and above the next value.\<close>

lemma exact_next:
  assumes "wf_apint w c"
  defines "h \<equiv> 2 ^ (w - 1)"
  shows "exact w (\<lambda>v. v \<le> ival c) (if ival c = 2 ^ w - 1 then CR_set w True else CR (getMinValue w) (ap_inc c))"
    and "exact w (\<lambda>v. sleq h v (ival c)) (if ival c = h - 1 then CR_set w True else CR (getSignedMinValue w) (ap_inc c))"
    and "exact w (\<lambda>v. ival c < v) (if ival c = 2 ^ w - 1 then CR_set w False else CR (ap_inc c) (getMinValue w))"
    and "exact w (\<lambda>v. \<not> sleq h v (ival c)) (if ival c = h - 1 then CR_set w False else CR (ap_inc c) (getSignedMinValue w))"
proof -
  have w: "0 < w" "ival c < 2 ^ w" using assms by (simp_all add: wf_apint_def)
  have h: "0 < h" "2 ^ w = 2 * h" using exp_halves [OF w(1), where 'a = nat] by (simp_all add: h_def)
  have wfi: "wf_apint w (ap_inc c)" using assms(1) by simp
  note nb = next_bound(1,2) [OF assms(1), folded h_def] next_bound(3,4) [OF assms(1) w(2), folded h_def]
  note below = exact_below [OF wfi, folded h_def] and above = exact_above [OF wfi, folded h_def]
  show "exact w (\<lambda>v. v \<le> ival c) (if ival c = 2 ^ w - 1 then CR_set w True else CR (getMinValue w) (ap_inc c))"
  proof (cases "ival c = 2 ^ w - 1")
    case True
    then show ?thesis using exact_sets(1) [OF w(1), of "\<lambda>v. v \<le> ival c"] by simp
  next
    case False
    then have "exact w (\<lambda>v. v < ival (ap_inc c)) (CR (getMinValue w) (ap_inc c))" using below(1) nb(3) by simp
    then have "exact w (\<lambda>v. v \<le> ival c) (CR (getMinValue w) (ap_inc c))" by (rule exact_cong) (rule nb(1) [OF _ False])
    with False show ?thesis by simp
  qed
  show "exact w (\<lambda>v. ival c < v) (if ival c = 2 ^ w - 1 then CR_set w False else CR (ap_inc c) (getMinValue w))"
  proof (cases "ival c = 2 ^ w - 1")
    case True
    then show ?thesis using exact_sets(2) [OF w(1), of "\<lambda>v. ival c < v"] by simp
  next
    case False
    then have "exact w (\<lambda>v. ival (ap_inc c) \<le> v) (CR (ap_inc c) (getMinValue w))" using above(1) nb(3) by simp
    then have "exact w (\<lambda>v. ival c < v) (CR (ap_inc c) (getMinValue w))"
      by (rule exact_cong) (use nb(1) [OF _ False] in \<open>simp add: not_less [symmetric]\<close>)
    with False show ?thesis by simp
  qed
  have bounds: "sleq h v (h - 1)" if "v < 2 ^ w" for v using that h by (auto simp: sleq_def)
  show "exact w (\<lambda>v. sleq h v (ival c)) (if ival c = h - 1 then CR_set w True else CR (getSignedMinValue w) (ap_inc c))"
  proof (cases "ival c = h - 1")
    case True
    then show ?thesis using exact_sets(1) [OF w(1) bounds] by simp
  next
    case False
    then have "exact w (\<lambda>v. \<not> sleq h (ival (ap_inc c)) v) (CR (getSignedMinValue w) (ap_inc c))"
      using below(2) nb(4) by simp
    then have "exact w (\<lambda>v. sleq h v (ival c)) (CR (getSignedMinValue w) (ap_inc c))"
      by (rule exact_cong) (rule nb(2) [OF _ False])
    with False show ?thesis by simp
  qed
  show "exact w (\<lambda>v. \<not> sleq h v (ival c)) (if ival c = h - 1 then CR_set w False else CR (ap_inc c) (getSignedMinValue w))"
  proof (cases "ival c = h - 1")
    case True
    then show ?thesis using exact_sets(2) [OF w(1), of "\<lambda>v. \<not> sleq h v (h - 1)"] bounds by simp
  next
    case False
    then have "exact w (\<lambda>v. sleq h (ival (ap_inc c)) v) (CR (ap_inc c) (getSignedMinValue w))"
      using above(2) nb(4) by simp
    then have "exact w (\<lambda>v. \<not> sleq h v (ival c)) (CR (ap_inc c) (getSignedMinValue w))"
      by (rule exact_cong) (use nb(2) [OF _ False] in blast)
    with False show ?thesis by simp
  qed
qed

section \<open>The regions are exact\<close>

text \<open>The comparison on representatives of width \<open>w\<close>.\<close>

definition cmp :: "nat \<Rightarrow> predicate \<Rightarrow> nat \<Rightarrow> nat \<Rightarrow> bool" where
  "cmp w p x y \<longleftrightarrow> icmp_holds p (mk_apint w x) (mk_apint w y)"

lemma cmp_simps:
  assumes "0 < w" "x < 2 ^ w" "y < 2 ^ w"
  shows "cmp w ICMP_EQ x y \<longleftrightarrow> x = y" "cmp w ICMP_NE x y \<longleftrightarrow> x \<noteq> y"
    "cmp w ICMP_ULT x y \<longleftrightarrow> x < y" "cmp w ICMP_ULE x y \<longleftrightarrow> x \<le> y"
    "cmp w ICMP_UGT x y \<longleftrightarrow> y < x" "cmp w ICMP_UGE x y \<longleftrightarrow> y \<le> x"
    "cmp w ICMP_SLT x y \<longleftrightarrow> \<not> sleq (2 ^ (w - 1)) y x" "cmp w ICMP_SLE x y \<longleftrightarrow> sleq (2 ^ (w - 1)) x y"
    "cmp w ICMP_SGT x y \<longleftrightarrow> \<not> sleq (2 ^ (w - 1)) x y" "cmp w ICMP_SGE x y \<longleftrightarrow> sleq (2 ^ (w - 1)) y x"
proof -
  have wf: "wf_apint w (mk_apint w x)" "wf_apint w (mk_apint w y)" using assms by simp_all
  note s = sval_le_iff [OF wf] sval_le_iff [OF wf(2,1)]
  show "cmp w ICMP_EQ x y \<longleftrightarrow> x = y" "cmp w ICMP_NE x y \<longleftrightarrow> x \<noteq> y"
    "cmp w ICMP_ULT x y \<longleftrightarrow> x < y" "cmp w ICMP_ULE x y \<longleftrightarrow> x \<le> y"
    "cmp w ICMP_UGT x y \<longleftrightarrow> y < x" "cmp w ICMP_UGE x y \<longleftrightarrow> y \<le> x"
    "cmp w ICMP_SLT x y \<longleftrightarrow> \<not> sleq (2 ^ (w - 1)) y x" "cmp w ICMP_SLE x y \<longleftrightarrow> sleq (2 ^ (w - 1)) x y"
    "cmp w ICMP_SGT x y \<longleftrightarrow> \<not> sleq (2 ^ (w - 1)) x y" "cmp w ICMP_SGE x y \<longleftrightarrow> sleq (2 ^ (w - 1)) y x"
    using s assms(2,3) by (simp_all add: cmp_def not_le [symmetric])
qed

lemma sleq_order:
  "sleq h x x" "sleq h x y \<Longrightarrow> sleq h y z \<Longrightarrow> sleq h x z" "sleq h x y \<or> sleq h y x"
  by (auto simp: sleq_def split: if_splits)

lemma special_values:
  assumes "wf_apint w a"
  shows "isMinValue a \<longleftrightarrow> ival a = 0" "isMaxValue a \<longleftrightarrow> ival a = 2 ^ w - 1"
    "isMinSignedValue a \<longleftrightarrow> ival a = 2 ^ (w - 1)" "isMaxSignedValue a \<longleftrightarrow> ival a = 2 ^ (w - 1) - 1"
  using assms by (auto simp: isMinValue_def isMaxValue_def isMinSignedValue_def isMaxSignedValue_def
      apint_eq_iff ival_consts wf_apint_def)

text \<open>A range of one element, and its complement.\<close>

lemma arc_size_1:
  assumes "arc_ok m l u"
  shows "arc_size m l u = 1 \<longleftrightarrow> u = (if l + 1 < m then l + 1 else 0)"
  using assms by (auto simp: arc_size_def arc_ok_def)

lemma single_element:
  assumes r: "wf_range w r"
  shows "isSingleElement r \<longleftrightarrow> (\<exists>c. elems r = {c})"
    and "isSingleElement r \<Longrightarrow> \<exists>c. elems r = {c} \<and> exact w (\<lambda>v. v \<noteq> c) (CR (Upper r) (Lower r))"
proof -
  obtain l u where lu: "r = mk_range w l u" "0 < w" "arc_ok (2 ^ w) l u" by (rule wf_range_cases [OF r])
  define m where "m = (2 :: nat) ^ w"
  note ok = lu(3) [folded m_def]
  have one: "1 < m" "l < m" "u < m" using ok by (simp_all add: arc_ok_def)
  have wfl: "wf_apint w (Lower r)" using lu one by (simp add: wf_apint_def m_def)
  have inc: "isSingleElement r \<longleftrightarrow> u = (if l + 1 < m then l + 1 else 0)"
    using ival_inc [OF wfl]
    by (simp add: isSingleElement_def lu(1) apint_eq_iff m_def)
  have el: "elems r = arc m l u" using elems_mk_range [OF lu(3)] by (simp add: lu(1) m_def)
  show "isSingleElement r \<longleftrightarrow> (\<exists>c. elems r = {c})"
    unfolding inc arc_size_1 [OF ok, symmetric] el card_arc(1) [OF ok, symmetric] by (simp add: card_1_singleton_iff)
  assume "isSingleElement r"
  then have u: "u = (if l + 1 < m then l + 1 else 0)" by (simp only: inc)
  have "arc m l u = {v. v < m \<and> v = l}" unfolding u by (rule arc_single(1) [OF one(2,1)])
  then have "elems r = {l}" using one(2) unfolding el by auto
  moreover have "exact w (\<lambda>v. v \<noteq> l) (CR (Upper r) (Lower r))"
  proof (rule exact_CR)
    show "arc (2 ^ w) (ival (Upper r)) (ival (Lower r)) = {v. v < 2 ^ w \<and> v \<noteq> l}"
      using arc_single(2) [OF one(2,1)] by (simp add: lu(1) m_def u)
    show "ival (Upper r) \<noteq> ival (Lower r)" using u one(1) by (auto simp: lu(1))
  qed (use wf_range_sel [OF r] in auto)
  ultimately show "\<exists>c. elems r = {c} \<and> exact w (\<lambda>v. v \<noteq> c) (CR (Upper r) (Lower r))" by blast
qed

text \<open>\<open>makeConstantRange\<close> holds exactly the numbers that satisfy the comparison with the constant.\<close>

lemma makeConstantRange_exact:
  assumes "wf_apint w C" and "isIntPredicate p"
  shows "\<exists>r. makeConstantRange p C = Some r \<and> exact w (\<lambda>v. cmp w p v (ival C)) r"
proof -
  have w: "bitWidth C = w" "0 < w" "ival C < 2 ^ w" using assms(1) by (auto simp: wf_apint_def)
  define h where "h = (2 :: nat) ^ (w - 1)"
  have wfi: "wf_apint w (ap_inc C)" using assms(1) by simp
  have one: "1 < (2 :: nat) ^ w" using w(2) by (rule one_less_exp)
  have eqs: "getMinValue w = c \<longleftrightarrow> ival c = 0" "c = getMinValue w \<longleftrightarrow> ival c = 0"
    "getSignedMinValue w = c \<longleftrightarrow> ival c = 2 ^ (w - 1)" "c = getSignedMinValue w \<longleftrightarrow> ival c = 2 ^ (w - 1)"
    if "wf_apint w c" for c
    using that w(2) by (auto simp: apint_eq_iff ival_consts wf_apint_def)
  have cmp: "exact w P r \<Longrightarrow> (\<And>v. v < 2 ^ w \<Longrightarrow> P v \<longleftrightarrow> cmp w p v (ival C)) \<Longrightarrow>
      exact w (\<lambda>v. cmp w p v (ival C)) r" for P r by (rule exact_cong)
  note cs = cmp_simps [OF w(2) _ w(3)]
  note nb = next_bound(3,4) [OF assms(1) w(3)]
  have single: "exact w (\<lambda>v. v = ival C) (CR C (ap_inc C))" "exact w (\<lambda>v. v \<noteq> ival C) (CR (ap_inc C) C)"
    using arc_single [OF w(3) one] w(3) one ival_inc [OF assms(1)]
    by (intro exact_CR assms(1) wfi; simp)+
  show ?thesis
    using assms(2)
  proof (cases p)
    case ICMP_EQ
    show ?thesis using cmp [OF single(1)] cs by (simp add: makeConstantRange_def ICMP_EQ)
  next
    case ICMP_NE
    show ?thesis using cmp [OF single(2)] cs by (simp add: makeConstantRange_def ICMP_NE)
  next
    case ICMP_ULT
    show ?thesis using cmp [OF exact_below(1) [OF assms(1)]] cs w(1) eqs [OF assms(1)]
      by (simp add: makeConstantRange_def ICMP_ULT)
  next
    case ICMP_SLT
    show ?thesis using cmp [OF exact_below(2) [OF assms(1)]] cs w(1) eqs [OF assms(1)]
      by (simp add: makeConstantRange_def ICMP_SLT)
  next
    case ICMP_UGE
    show ?thesis using cmp [OF exact_above(1) [OF assms(1)]] cs w(1) eqs [OF assms(1)]
      by (simp add: makeConstantRange_def ICMP_UGE)
  next
    case ICMP_SGE
    show ?thesis using cmp [OF exact_above(2) [OF assms(1)]] cs w(1) eqs [OF assms(1)]
      by (simp add: makeConstantRange_def ICMP_SGE)
  next
    case ICMP_ULE
    show ?thesis using cmp [OF exact_next(1) [OF assms(1)]] cs w(1) eqs [OF wfi] nb
      by (simp add: makeConstantRange_def ICMP_ULE)
  next
    case ICMP_SLE
    show ?thesis using cmp [OF exact_next(2) [OF assms(1)]] cs w(1) eqs [OF wfi] nb
      by (simp add: makeConstantRange_def ICMP_SLE)
  next
    case ICMP_UGT
    show ?thesis using cmp [OF exact_next(3) [OF assms(1)]] cs w(1) eqs [OF wfi] nb
      by (simp add: makeConstantRange_def ICMP_UGT)
  next
    case ICMP_SGT
    show ?thesis using cmp [OF exact_next(4) [OF assms(1)]] cs w(1) eqs [OF wfi] nb
      by (simp add: makeConstantRange_def ICMP_SGT)
  qed (simp_all add: predicate_simps)
qed

lemma bex_extremes:
  "M \<in> E \<Longrightarrow> (\<And>y. y \<in> E \<Longrightarrow> y \<le> M) \<Longrightarrow> (\<exists>y \<in> E. v < y) \<longleftrightarrow> v < M"
  "M \<in> E \<Longrightarrow> (\<And>y. y \<in> E \<Longrightarrow> y \<le> M) \<Longrightarrow> (\<exists>y \<in> E. v \<le> y) \<longleftrightarrow> v \<le> M"
  "M \<in> E \<Longrightarrow> (\<And>y. y \<in> E \<Longrightarrow> M \<le> y) \<Longrightarrow> (\<exists>y \<in> E. y < v) \<longleftrightarrow> M < v"
  "M \<in> E \<Longrightarrow> (\<And>y. y \<in> E \<Longrightarrow> M \<le> y) \<Longrightarrow> (\<exists>y \<in> E. y \<le> v) \<longleftrightarrow> M \<le> v"
  "M \<in> E \<Longrightarrow> (\<And>y. y \<in> E \<Longrightarrow> sleq h y M) \<Longrightarrow> (\<exists>y \<in> E. \<not> sleq h y v) \<longleftrightarrow> \<not> sleq h M v"
  "M \<in> E \<Longrightarrow> (\<And>y. y \<in> E \<Longrightarrow> sleq h y M) \<Longrightarrow> (\<exists>y \<in> E. sleq h v y) \<longleftrightarrow> sleq h v M"
  "M \<in> E \<Longrightarrow> (\<And>y. y \<in> E \<Longrightarrow> sleq h M y) \<Longrightarrow> (\<exists>y \<in> E. \<not> sleq h v y) \<longleftrightarrow> \<not> sleq h v M"
  "M \<in> E \<Longrightarrow> (\<And>y. y \<in> E \<Longrightarrow> sleq h M y) \<Longrightarrow> (\<exists>y \<in> E. sleq h y v) \<longleftrightarrow> sleq h M v"
  for v M :: nat
  by (meson le_less_trans less_le_trans order_trans sleq_order(2))+

text \<open>\<open>makeAllowedICmpRegion\<close> holds exactly the numbers that satisfy the comparison with some
  element of the range.\<close>

lemma makeAllowedICmpRegion_exact:
  assumes r: "wf_range w r" and p: "isIntPredicate p"
  shows "\<exists>s. makeAllowedICmpRegion p r = Some s \<and> exact w (\<lambda>v. \<exists>y \<in> elems r. cmp w p v y) s"
proof (cases "isEmptySet r")
  case True
  then have "elems r = {}" using range_tests(1) [OF r] by simp
  with True r show ?thesis by (simp add: makeAllowedICmpRegion_def exact_def)
next
  case ne: False
  have w: "getBitWidth r = w" "0 < w" using wf_getBitWidth [OF r] by simp_all
  define h where "h = (2 :: nat) ^ (w - 1)"
  note u = unsigned_extremes [OF r] and s = signed_extremes [OF r, folded h_def]
  have nonempty: "elems r \<noteq> {}" using ne range_tests(1) [OF r] by simp
  note um = conjunct1 [OF u(5) [OF nonempty]] conjunct2 [OF u(5) [OF nonempty]]
    and sm = conjunct1 [OF s(5) [OF nonempty]] conjunct2 [OF s(5) [OF nonempty]]
  note cs = cmp_simps [OF w(2) _ elems_less [OF r], folded h_def]
  note mk = makeAllowedICmpRegion_def
  have some: "\<exists>s. makeAllowedICmpRegion p r = Some s \<and> exact w (\<lambda>v. \<exists>y \<in> elems r. cmp w p v y) s"
    if "makeAllowedICmpRegion p r = Some t" "exact w P t"
      "\<And>v. v < 2 ^ w \<Longrightarrow> P v \<longleftrightarrow> (\<exists>y \<in> elems r. cmp w p v y)" for t P
    using exact_cong [OF that(2,3)] that(1) by (intro exI conjI)
  show ?thesis
    using p
  proof (cases p)
    case ICMP_EQ
    have "exact w (\<lambda>v. v \<in> elems r) r" using r elems_less [OF r] by (auto simp: exact_def)
    then show ?thesis
    proof (rule some [rotated])
      show "makeAllowedICmpRegion p r = Some r" by (simp add: mk ICMP_EQ ne)
      show "v \<in> elems r \<longleftrightarrow> (\<exists>y \<in> elems r. cmp w p v y)" if "v < 2 ^ w" for v
        using cs(1) [OF that] by (auto simp: ICMP_EQ)
    qed
  next
    case ICMP_NE
    show ?thesis
    proof (cases "isSingleElement r")
      case True
      then obtain c where c: "elems r = {c}" "exact w (\<lambda>v. v \<noteq> c) (CR (Upper r) (Lower r))"
        using single_element(2) [OF r] by blast
      then have "c < 2 ^ w" using elems_less [OF r] by simp
      with c show ?thesis
        by (intro some [OF _ c(2)]) (simp_all add: mk ICMP_NE ne True cs(2))
    next
      case False
      obtain y where y: "y \<in> elems r" using nonempty by blast
      then obtain y' where y': "y' \<in> elems r" "y' \<noteq> y" using False single_element(1) [OF r] by blast
      have "exact w (\<lambda>v. True) (CR_set w True)" using w(2) by (intro exact_sets) simp_all
      then show ?thesis
      proof (rule some [rotated])
        show "makeAllowedICmpRegion p r = Some (CR_set w True)" using ne False w(1) by (simp add: mk ICMP_NE)
        fix v :: nat assume v: "v < 2 ^ w"
        have "v \<noteq> y \<or> v \<noteq> y'" using y'(2) by auto
        then show "True \<longleftrightarrow> (\<exists>y \<in> elems r. cmp w p v y)"
          using cs(2) [OF v] y y'(1) by (auto simp: ICMP_NE)
      qed
    qed
  next
    case ICMP_ULT
    show ?thesis by (rule some [OF _ exact_below(1) [OF u(1)]])
      (simp_all add: mk ICMP_ULT ne w(1) special_values [OF u(1)] cs bex_extremes(1) [OF um(1) u(3)])
  next
    case ICMP_SLT
    show ?thesis by (rule some [OF _ exact_below(2) [OF s(1), folded h_def]])
      (simp_all add: mk ICMP_SLT ne w(1) special_values [OF s(1), folded h_def] cs bex_extremes(5) [OF sm(1) s(3)])
  next
    case ICMP_UGE
    show ?thesis by (rule some [OF _ exact_above(1) [OF u(2)]])
      (simp_all add: mk ICMP_UGE ne w(1) special_values [OF u(2)] cs bex_extremes(4) [OF um(2) u(4)])
  next
    case ICMP_SGE
    show ?thesis by (rule some [OF _ exact_above(2) [OF s(2), folded h_def]])
      (simp_all add: mk ICMP_SGE ne w(1) special_values [OF s(2), folded h_def] cs bex_extremes(8) [OF sm(2) s(4)])
  next
    case ICMP_ULE
    show ?thesis by (rule some [OF _ exact_next(1) [OF u(1)]])
      (simp_all add: mk ICMP_ULE ne w(1) special_values [OF u(1)] cs bex_extremes(2) [OF um(1) u(3)])
  next
    case ICMP_SLE
    show ?thesis by (rule some [OF _ exact_next(2) [OF s(1), folded h_def]])
      (simp_all add: mk ICMP_SLE ne w(1) special_values [OF s(1), folded h_def] cs bex_extremes(6) [OF sm(1) s(3)])
  next
    case ICMP_UGT
    show ?thesis by (rule some [OF _ exact_next(3) [OF u(2)]])
      (simp_all add: mk ICMP_UGT ne w(1) special_values [OF u(2)] cs bex_extremes(3) [OF um(2) u(4)])
  next
    case ICMP_SGT
    show ?thesis by (rule some [OF _ exact_next(4) [OF s(2), folded h_def]])
      (simp_all add: mk ICMP_SGT ne w(1) special_values [OF s(2), folded h_def] cs bex_extremes(7) [OF sm(2) s(4)])
  qed (simp_all add: predicate_simps)
qed

text \<open>\<open>makeSatisfyingICmpRegion\<close> holds exactly the numbers that satisfy the comparison with every
  element of the range.\<close>

lemma makeSatisfyingICmpRegion_exact:
  assumes r: "wf_range w r" and p: "isIntPredicate p"
  shows "\<exists>s. makeSatisfyingICmpRegion p r = Some s \<and> exact w (\<lambda>v. \<forall>y \<in> elems r. cmp w p v y) s"
proof -
  obtain q where q: "getInversePredicate p = Some q" "isIntPredicate q" "\<And>a b. icmp_holds q a b \<longleftrightarrow> \<not> icmp_holds p a b"
    using getInversePredicate_icmp [OF p] by blast
  obtain s where s: "makeAllowedICmpRegion q r = Some s" "exact w (\<lambda>v. \<exists>y \<in> elems r. cmp w q v y) s"
    using makeAllowedICmpRegion_exact [OF r q(2)] by blast
  have "exact w (\<lambda>v. \<forall>y \<in> elems r. cmp w p v y) (cr_inverse s)"
    using s(2) elems_inverse [of w s] by (auto simp: exact_def cmp_def q(3))
  then show ?thesis by (simp add: makeSatisfyingICmpRegion_def q(1) s(1))
qed

end
