(* ===== verification/RangeDomain.thy ===== *)
theory RangeDomain
  imports ICmpRanges
begin

text \<open>
  The contract that the clients of \<open>ConstantRange\<close> rely on, as two locales, and the proof that the
  code's operations keep it. The theorems of this theory are the summary of the range component:
  what the queries, the set operations, the comparison regions and the transfer functions of
  \<open>lib/IR/ConstantRange.cpp\<close> promise in terms of the set of numbers a range stands for.

  \<^item> \<open>join_domain\<close>: well-formed abstract values, the set each stands for, and a join that covers both
    of its arguments. A client that merges the values of several program points uses \<open>joins_cover\<close>.
  \<^item> \<open>cover_domain\<close> adds a meet and two extremes. \<open>refine\<close> is a client that merges one group of values and
    then meets the result with every member of another.
\<close>

section \<open>The interface\<close>

locale join_domain =
  fixes ok :: "'a \<Rightarrow> bool" and conc :: "'a \<Rightarrow> 'v set" and join :: "'a \<Rightarrow> 'a \<Rightarrow> 'a"
  assumes join_ok: "ok a \<Longrightarrow> ok b \<Longrightarrow> ok (join a b)"
    and join_left: "ok a \<Longrightarrow> ok b \<Longrightarrow> conc a \<subseteq> conc (join a b)"
    and join_right: "ok a \<Longrightarrow> ok b \<Longrightarrow> conc b \<subseteq> conc (join a b)"
begin

lemma joins_ok: "ok a \<Longrightarrow> (\<And>b. b \<in> set bs \<Longrightarrow> ok b) \<Longrightarrow> ok (foldl join a bs)"
  by (induction bs arbitrary: a) (simp_all add: join_ok)

lemma joins_cover:
  "ok a \<Longrightarrow> (\<And>b. b \<in> set bs \<Longrightarrow> ok b) \<Longrightarrow> conc a \<union> (\<Union>b \<in> set bs. conc b) \<subseteq> conc (foldl join a bs)"
proof (induction bs arbitrary: a)
  case (Cons b bs)
  then have ab: "ok a" "ok b" by simp_all
  have "conc (join a b) \<union> (\<Union>b \<in> set bs. conc b) \<subseteq> conc (foldl join (join a b) bs)"
    by (rule Cons.IH [OF join_ok [OF ab]]) (simp add: Cons.prems)
  with join_left [OF ab] join_right [OF ab] show ?case by auto
qed simp

end

locale cover_domain = join_domain ok conc join
  for ok :: "'a \<Rightarrow> bool" and conc :: "'a \<Rightarrow> 'v set" and join :: "'a \<Rightarrow> 'a \<Rightarrow> 'a" +
  fixes meet :: "'a \<Rightarrow> 'a \<Rightarrow> 'a" and top bot :: 'a
  assumes meet_ok: "ok a \<Longrightarrow> ok b \<Longrightarrow> ok (meet a b)"
    and meet_cover: "ok a \<Longrightarrow> ok b \<Longrightarrow> conc a \<inter> conc b \<subseteq> conc (meet a b)"
    and top_ok: "ok top" and bot_ok: "ok bot" and bot_empty: "conc bot = {}"
    and top_full: "ok a \<Longrightarrow> conc a \<subseteq> conc top"
begin

lemma meets_ok: "ok a \<Longrightarrow> (\<And>b. b \<in> set bs \<Longrightarrow> ok b) \<Longrightarrow> ok (foldl meet a bs)"
  by (induction bs arbitrary: a) (simp_all add: meet_ok)

lemma meets_cover:
  "ok a \<Longrightarrow> (\<And>b. b \<in> set bs \<Longrightarrow> ok b) \<Longrightarrow> conc a \<inter> (\<Inter>b \<in> set bs. conc b) \<subseteq> conc (foldl meet a bs)"
proof (induction bs arbitrary: a)
  case (Cons b bs)
  then have ab: "ok a" "ok b" by simp_all
  have "conc (meet a b) \<inter> (\<Inter>b \<in> set bs. conc b) \<subseteq> conc (foldl meet (meet a b) bs)"
    by (rule Cons.IH [OF meet_ok [OF ab]]) (simp add: Cons.prems)
  with meet_cover [OF ab] show ?case by auto
qed simp

text \<open>What reaches a point from some predecessor and passes every guard is still covered.\<close>

lemma refine:
  assumes "\<And>b. b \<in> set bs \<Longrightarrow> ok b" and "\<And>g. g \<in> set gs \<Longrightarrow> ok g"
  shows "(\<Union>b \<in> set bs. conc b) \<inter> (\<Inter>g \<in> set gs. conc g) \<subseteq> conc (foldl meet (foldl join bot bs) gs)"
proof -
  have "(\<Union>b \<in> set bs. conc b) \<subseteq> conc (foldl join bot bs)"
    using joins_cover [OF bot_ok assms(1)] by auto
  moreover have "conc (foldl join bot bs) \<inter> (\<Inter>g \<in> set gs. conc g) \<subseteq> conc (foldl meet (foldl join bot bs) gs)"
    by (rule meets_cover [OF joins_ok [OF bot_ok assms(1)] assms(2)])
  ultimately show ?thesis by blast
qed

end

section \<open>The subset test and translation\<close>

lemma cr_contains_range_subset:
  assumes r: "wf_range w r" and s: "wf_range w s"
  shows "cr_contains_range r s \<longleftrightarrow> elems s \<subseteq> elems r"
proof -
  note tr = range_tests [OF r] and ts = range_tests [OF s]
  have bound: "elems r \<subseteq> {..<2 ^ w}" "elems s \<subseteq> {..<2 ^ w}" using elems_less r s by auto
  consider "isFullSet r \<or> isEmptySet s" | "\<not> isFullSet r" "\<not> isEmptySet s" "isEmptySet r \<or> isFullSet s"
    | "\<not> isFullSet r" "\<not> isEmptySet s" "\<not> isEmptySet r" "\<not> isFullSet s" by blast
  then show ?thesis
  proof cases
    case 1
    then show ?thesis using tr ts bound by (auto simp: cr_contains_range_def)
  next
    case 2
    then have "\<not> elems s \<subseteq> elems r" using tr ts bound by auto
    with 2 show ?thesis by (simp add: cr_contains_range_def)
  next
    case 3
    note pr = proper_range [OF r 3(3,1)] and ps = proper_range [OF s 3(2,4)]
    show ?thesis
      unfolding pr(3) ps(3) arc_subset_iff [OF pr(1) ps(1) pr(2) ps(2)]
      using 3 pr(2) ps(2) by (auto simp: cr_contains_range_def isWrappedSet_def ugt_def ule_def)
  qed
qed

text \<open>\<open>subtract\<close> moves every element by the constant, around the end of the width.\<close>

lemma cr_subtract_elems:
  assumes r: "wf_range w r" and c: "wf_apint w c" and v: "v < 2 ^ w" and ne: "\<not> isEmptySet r" "\<not> isFullSet r"
  shows "wf_range w (cr_subtract r c)"
    and "v \<in> elems (cr_subtract r c) \<longleftrightarrow> (v + ival c) mod 2 ^ w \<in> elems r"
proof -
  note p = proper_range [OF r ne]
  have wf: "wf_apint w (Lower r)" "wf_apint w (Upper r)" using wf_range_sel [OF r] by blast+
  have w: "0 < w" "bitWidth (Lower r) = w" "bitWidth (Upper r) = w" using wf by (simp_all add: wf_apint_def)
  define l u where "l = ap_sub (Lower r) c" and "u = ap_sub (Upper r) c"
  have sub: "cr_subtract r c = CR l u" using p(2) by (auto simp: cr_subtract_def l_def u_def)
  have wfs: "wf_apint w l" "wf_apint w u" using wf by (simp_all add: l_def u_def)
  have li: "int (ival l) = (int (ival (Lower r)) - int (ival c)) mod 2 ^ w"
    and ui: "int (ival u) = (int (ival (Upper r)) - int (ival c)) mod 2 ^ w"
    using ival_sub_int [OF wf(1) c] ival_sub_int [OF wf(2) c] by (simp_all add: l_def u_def)
  define m where "m = (2 :: nat) ^ w"
  have im: "int m = 2 ^ w" by (simp add: m_def)
  note okr = p(1) [folded m_def]
  have diff: "(int (ival u) - int (ival l)) mod int m = (int (ival (Upper r)) - int (ival (Lower r))) mod int m"
    unfolding li ui im by (simp add: mod_simps)
  have "0 < arc_size m (ival (Lower r)) (ival (Upper r))" using arc_size_bounds(2) [OF okr p(2)] by blast
  then have "(int (ival u) - int (ival l)) mod int m \<noteq> 0"
    unfolding diff by (simp only: arc_size_int [OF okr p(2), symmetric])
  then have lu: "ival l \<noteq> ival u" by auto
  note okl = size_CR(1) [OF wfs lu, folded m_def]
  have wfl: "bitWidth l = w" "bitWidth u = w" using wfs by (simp_all add: wf_apint_def)
  have mk: "CR l u = mk_range w (ival l) (ival u)" by (rule CR_mk_range [OF wfl])
  show "wf_range w (cr_subtract r c)" using okl w(1) by (simp add: sub mk wf_mk_range m_def)
  have "(int v - int (ival l)) mod int m = (int ((v + ival c) mod m) - int (ival (Lower r))) mod int m"
    unfolding li im [symmetric] by (simp add: zmod_int mod_simps algebra_simps)
  moreover have "v \<in> elems (cr_subtract r c) \<longleftrightarrow> v \<in> arc m (ival l) (ival u)"
    using okl by (simp add: sub mk elems_mk_range m_def)
  moreover have "(v + ival c) mod 2 ^ w \<in> elems r \<longleftrightarrow> (v + ival c) mod m \<in> arc m (ival (Lower r)) (ival (Upper r))"
    unfolding p(3) m_def ..
  moreover have "(v + ival c) mod m < m" by (simp add: m_def)
  ultimately show "v \<in> elems (cr_subtract r c) \<longleftrightarrow> (v + ival c) mod 2 ^ w \<in> elems r"
    using arc_offset [OF okl v [folded m_def]] arc_offset [OF okr, of "(v + ival c) mod m"] diff
    by (simp only: arc_size_int [OF okr p(2)] arc_size_int [OF okl lu])
qed

section \<open>The code's operations keep the contract\<close>

lemma lattice_covers:
  assumes "wf_range w r" and "wf_range w s"
  shows "covers w (elems r \<inter> elems s) (intersectWith r s)" and "covers w (elems r \<union> elems s) (unionWith r s)"
  using best_coverD [OF lattice_best(1) [OF assms]] best_coverD [OF lattice_best(2) [OF assms]] wf_getBitWidth [OF assms(1)]
  by (simp_all add: covers_def)

interpretation range: cover_domain "wf_range (Suc n)" elems unionWith intersectWith
  "CR_set (Suc n) True" "CR_set (Suc n) False" for n
proof unfold_locales
  fix a b assume a: "wf_range (Suc n) a" and b: "wf_range (Suc n) b"
  show "wf_range (Suc n) (unionWith a b)" "elems a \<subseteq> elems (unionWith a b)" "elems b \<subseteq> elems (unionWith a b)"
    using lattice_covers(2) [OF a b] by (auto simp: covers_def)
  show "wf_range (Suc n) (intersectWith a b)" "elems a \<inter> elems b \<subseteq> elems (intersectWith a b)"
    using lattice_covers(1) [OF a b] by (auto simp: covers_def)
  show "elems a \<subseteq> elems (CR_set (Suc n) True)" using elems_less [OF a] elems_sets(1) [of "Suc n"] by auto
qed (use elems_sets [of "Suc n"] in auto)

section \<open>Properties\<close>

text \<open>C1: \<open>intersectWith\<close> returns a well-formed range that holds every number of both arguments, and no
  range that does is smaller.\<close>

theorem intersectWith_smallest:
  assumes "wf_range w r" and "wf_range w s"
  shows "wf_range w (intersectWith r s) \<and> elems r \<inter> elems s \<subseteq> elems (intersectWith r s) \<and>
    (\<forall>t. wf_range w t \<and> elems r \<inter> elems s \<subseteq> elems t \<longrightarrow> card (elems (intersectWith r s)) \<le> card (elems t))"
  using best_coverD [OF lattice_best(1) [OF assms]] wf_getBitWidth [OF assms(1)] by blast

theorem intersectWith_smallest_witness:
  "elems (CR (mk_apint 8 200) (mk_apint 8 100)) \<inter> elems (CR (mk_apint 8 50) (mk_apint 8 220)) \<subseteq>
   elems (intersectWith (CR (mk_apint 8 200) (mk_apint 8 100)) (CR (mk_apint 8 50) (mk_apint 8 220)))"
  using intersectWith_smallest [of 8 "CR (mk_apint 8 200) (mk_apint 8 100)" "CR (mk_apint 8 50) (mk_apint 8 220)"]
  by (simp add: wf_range_def wf_apint_def apint_eq_iff)

text \<open>C13: \<open>unionWith\<close> returns a well-formed range that holds every number of either argument, and no
  range that does is smaller.\<close>

theorem unionWith_smallest:
  assumes "wf_range w r" and "wf_range w s"
  shows "wf_range w (unionWith r s) \<and> elems r \<union> elems s \<subseteq> elems (unionWith r s) \<and>
    (\<forall>t. wf_range w t \<and> elems r \<union> elems s \<subseteq> elems t \<longrightarrow> card (elems (unionWith r s)) \<le> card (elems t))"
  using best_coverD [OF lattice_best(2) [OF assms]] wf_getBitWidth [OF assms(1)] by blast

theorem unionWith_smallest_witness:
  "elems (CR (mk_apint 8 250) (mk_apint 8 5)) \<union> elems (CR (mk_apint 8 20) (mk_apint 8 30)) \<subseteq>
   elems (unionWith (CR (mk_apint 8 250) (mk_apint 8 5)) (CR (mk_apint 8 20) (mk_apint 8 30)))"
  using unionWith_smallest [of 8 "CR (mk_apint 8 250) (mk_apint 8 5)" "CR (mk_apint 8 20) (mk_apint 8 30)"]
  by (simp add: wf_range_def wf_apint_def apint_eq_iff)

text \<open>A range is a set of numbers, and the queries are those of the set: membership, inclusion,
  emptiness, fullness, size, being a singleton, and the complement.\<close>

theorem range_is_a_set:
  assumes "wf_range w r" and "wf_range w s" and "wf_apint w v"
  shows "(cr_contains r v \<longleftrightarrow> ival v \<in> elems r) \<and> (cr_contains_range r s \<longleftrightarrow> elems s \<subseteq> elems r) \<and>
    (isEmptySet r \<longleftrightarrow> elems r = {}) \<and> (isFullSet r \<longleftrightarrow> elems r = {..<2 ^ w}) \<and>
    (isSingleElement r \<longleftrightarrow> (\<exists>c. elems r = {c})) \<and>
    ival (getSetSize r) = card (elems r) \<and> elems (cr_inverse r) = {..<2 ^ w} - elems r"
  using elems_contains [OF assms(1,3)] cr_contains_range_subset [OF assms(1,2)] range_tests [OF assms(1)]
    single_element(1) [OF assms(1)] getSetSize_card [OF assms(1)] elems_inverse(1) [OF assms(1)] by blast

theorem range_is_a_set_witness:
  "ival (getSetSize (CR (mk_apint 8 250) (mk_apint 8 5))) = card (elems (CR (mk_apint 8 250) (mk_apint 8 5)))"
  using range_is_a_set [of 8 "CR (mk_apint 8 250) (mk_apint 8 5)" "CR_set 8 True" "mk_apint 8 1"] elems_sets(1) [of 8]
  by (simp add: wf_range_def wf_apint_def apint_eq_iff)

text \<open>The four bounds of a non-empty range are its elements that are largest and smallest in the
  unsigned and in the signed order.\<close>

theorem range_extremes:
  assumes "wf_range w r" and "cr_contains r v" and "wf_apint w v"
  shows "cr_contains r (getUnsignedMax r) \<and> cr_contains r (getUnsignedMin r) \<and>
    cr_contains r (getSignedMax r) \<and> cr_contains r (getSignedMin r) \<and>
    ule v (getUnsignedMax r) \<and> ule (getUnsignedMin r) v \<and> sle v (getSignedMax r) \<and> sle (getSignedMin r) v"
proof -
  note u = unsigned_extremes [OF assms(1)] and s = signed_extremes [OF assms(1)]
  have v: "ival v \<in> elems r" "elems r \<noteq> {}" using elems_contains [OF assms(1,3)] assms(2) by auto
  show ?thesis
    using u(3,4) [OF v(1)] u(5) [OF v(2)] s(3,4) [OF v(1)] s(5) [OF v(2)]
    by (simp add: elems_contains [OF assms(1)] u(1,2) s(1,2) ule_def sle_def sval_le_iff [OF assms(3)]
        sval_le_iff [OF _ assms(3)])
qed

theorem range_extremes_witness:
  "sle (mk_apint 8 1) (getSignedMax (CR (mk_apint 8 250) (mk_apint 8 5)))"
  using range_extremes [of 8 "CR (mk_apint 8 250) (mk_apint 8 5)" "mk_apint 8 1"]
  by (simp add: wf_range_def wf_apint_def apint_eq_iff cr_contains_def isWrappedSet_def ugt_def ule_def ult_def)

text \<open>C29: sums and differences of the arguments' numbers, modulo the width, are in the range that \<open>add\<close> and \<open>sub\<close>
  return, which is well-formed; so are products and the range that \<open>multiply\<close> returns at widths up to 64 bits, where
  the products of twice the width that the code computes are right.\<close>

theorem range_arithmetic_sound:
  assumes "wf_range w r" and "wf_range w s"
  shows "covers w {(x + y) mod 2 ^ w |x y. x \<in> elems r \<and> y \<in> elems s} (cr_add r s) \<and>
    covers w {(x + (2 ^ w - y)) mod 2 ^ w |x y. x \<in> elems r \<and> y \<in> elems s} (cr_sub r s) \<and>
    (w \<le> 64 \<longrightarrow> covers w {x * y mod 2 ^ w |x y. x \<in> elems r \<and> y \<in> elems s} (cr_multiply r s))"
  using cr_add_covers [OF assms] cr_sub_covers [OF assms] cr_multiply_covers [OF assms] by blast

theorem range_arithmetic_sound_witness:
  "covers 8 {(x + y) mod 256 |x y. x \<in> elems (CR_single (mk_apint 8 200)) \<and> y \<in> elems (CR (mk_apint 8 250) (mk_apint 8 5))}
     (cr_add (CR_single (mk_apint 8 200)) (CR (mk_apint 8 250) (mk_apint 8 5)))"
  using range_arithmetic_sound [of 8 "CR_single (mk_apint 8 200)" "CR (mk_apint 8 250) (mk_apint 8 5)"]
  by (simp add: wf_range_def wf_apint_def apint_eq_iff CR_single_def ap_inc_def ap_add_def)

text \<open>C40: the shifts, the bitwise operations and the maxima of the arguments' numbers are in the ranges the code
  returns for them; so is the unsigned division by a non-zero number, at widths up to 128 bits or with divisors
  below \<open>2 ^ 64\<close>, where the division of \<open>APInt\<close> is right.\<close>

theorem range_operations_sound:
  assumes "wf_range w r" and "wf_range w s"
  shows "(w \<le> 128 \<or> elems s \<subseteq> {..<2 ^ 64} \<longrightarrow>
      covers w {x div y |x y. x \<in> elems r \<and> y \<in> elems s \<and> y \<noteq> 0} (cr_udiv r s)) \<and>
    covers w {(if y < w then x * 2 ^ y mod 2 ^ w else 0) |x y. x \<in> elems r \<and> y \<in> elems s} (cr_shl r s) \<and>
    covers w {x div 2 ^ y |x y. x \<in> elems r \<and> y \<in> elems s} (cr_lshr r s) \<and>
    covers w {x AND y |x y. x \<in> elems r \<and> y \<in> elems s} (binaryAnd r s) \<and>
    covers w {x OR y |x y. x \<in> elems r \<and> y \<in> elems s} (binaryOr r s) \<and>
    covers w {max x y |x y. x \<in> elems r \<and> y \<in> elems s} (cr_umax r s) \<and>
    covers w {ival (ap_smax (mk_apint w x) (mk_apint w y)) |x y. x \<in> elems r \<and> y \<in> elems s} (cr_smax r s)"
proof (intro conjI impI)
  assume "w \<le> 128 \<or> elems s \<subseteq> {..<2 ^ 64}"
  then have "w \<le> 128 \<or> (\<forall>y \<in> elems s. y < 2 ^ 64)" by blast
  then show "covers w {x div y |x y. x \<in> elems r \<and> y \<in> elems s \<and> y \<noteq> 0} (cr_udiv r s)" by (rule cr_udiv_covers [OF assms])
qed (rule cr_shl_covers [OF assms] cr_lshr_covers [OF assms] binaryAnd_covers [OF assms]
    binaryOr_covers [OF assms] cr_umax_covers [OF assms] cr_smax_covers [OF assms])+

theorem range_operations_sound_witness:
  "covers 8 {x div y |x y. x \<in> elems (CR (mk_apint 8 7) (mk_apint 8 90)) \<and> y \<in> elems (CR (mk_apint 8 250) (mk_apint 8 5)) \<and> y \<noteq> 0}
     (cr_udiv (CR (mk_apint 8 7) (mk_apint 8 90)) (CR (mk_apint 8 250) (mk_apint 8 5)))"
  using range_operations_sound [of 8 "CR (mk_apint 8 7) (mk_apint 8 90)" "CR (mk_apint 8 250) (mk_apint 8 5)"]
  by (simp add: wf_range_def wf_apint_def apint_eq_iff)

text \<open>The three width changes cover the images of the elements: themselves for \<open>zeroExtend\<close>, their
  sign extensions for \<open>signExtend\<close>, and their low bits for \<open>truncate\<close>.\<close>

theorem range_casts_sound:
  assumes "wf_range w r" and "0 < n" and "n < w" and "w < d" and "w \<le> 128 \<or> n < 64"
  shows "covers d (elems r) (zeroExtend r d) \<and>
    covers d ((\<lambda>v. ival (ap_sext (mk_apint w v) d)) ` elems r) (signExtend r d) \<and>
    covers n ((\<lambda>v. v mod 2 ^ n) ` elems r) (cr_truncate r n)"
proof -
  have "ival (ap_sext (mk_apint w v) d) = sxt w d v" if "v \<in> elems r" for v
    using ival_sext(1) [of w "mk_apint w v" d] elems_less [OF assms(1) that] assms by simp
  then have "(\<lambda>v. ival (ap_sext (mk_apint w v) d)) ` elems r = sxt w d ` elems r" by (intro image_cong refl)
  with zeroExtend_covers [OF assms(1,4)] signExtend_covers [OF assms(1,4)] cr_truncate_covers [OF assms(1-3,5)]
  show ?thesis by simp
qed

theorem range_casts_sound_witness:
  "covers 4 ((\<lambda>v. v mod 2 ^ 4) ` elems (CR (mk_apint 8 250) (mk_apint 8 5))) (cr_truncate (CR (mk_apint 8 250) (mk_apint 8 5)) 4)"
  using range_casts_sound [of 8 "CR (mk_apint 8 250) (mk_apint 8 5)" 4 16]
  by (simp add: wf_range_def wf_apint_def apint_eq_iff)

text \<open>C23: for an integer predicate, \<open>makeAllowedICmpRegion\<close> returns the range of exactly the values that
  compare true with some element of its argument, and \<open>makeSatisfyingICmpRegion\<close> of exactly those that
  compare true with every element.\<close>

theorem icmp_regions_exact:
  assumes "wf_range w r" and "isIntPredicate p"
  shows "\<exists>a s. makeAllowedICmpRegion p r = Some a \<and> makeSatisfyingICmpRegion p r = Some s \<and>
    wf_range w a \<and> wf_range w s \<and>
    (\<forall>v<2 ^ w. v \<in> elems a \<longleftrightarrow> (\<exists>y \<in> elems r. icmp_holds p (mk_apint w v) (mk_apint w y))) \<and>
    (\<forall>v<2 ^ w. v \<in> elems s \<longleftrightarrow> (\<forall>y \<in> elems r. icmp_holds p (mk_apint w v) (mk_apint w y)))"
proof -
  obtain a s where "makeAllowedICmpRegion p r = Some a" "exact w (\<lambda>v. \<exists>y \<in> elems r. cmp w p v y) a"
    and "makeSatisfyingICmpRegion p r = Some s" "exact w (\<lambda>v. \<forall>y \<in> elems r. cmp w p v y) s"
    using makeAllowedICmpRegion_exact [OF assms] makeSatisfyingICmpRegion_exact [OF assms] by blast
  then show ?thesis by (intro exI [of _ a] exI [of _ s]) (simp add: exact_def cmp_def)
qed

theorem icmp_regions_exact_witness:
  "\<exists>a. makeAllowedICmpRegion ICMP_SLT (CR (mk_apint 8 250) (mk_apint 8 5)) = Some a \<and> wf_range 8 a"
  using icmp_regions_exact [of 8 "CR (mk_apint 8 250) (mk_apint 8 5)" ICMP_SLT]
  by (auto simp: wf_range_def wf_apint_def apint_eq_iff predicate_simps)

text \<open>\<open>makeConstantRange\<close> of \<open>ICmpInst\<close> returns the range of exactly the values that compare true with
  the constant.\<close>

theorem makeConstantRange_correct:
  assumes "wf_apint w C" and "isIntPredicate p"
  shows "\<exists>r. makeConstantRange p C = Some r \<and> wf_range w r \<and>
    (\<forall>v. wf_apint w v \<longrightarrow> (cr_contains r v \<longleftrightarrow> icmp_holds p v C))"
proof -
  obtain r where r: "makeConstantRange p C = Some r" "exact w (\<lambda>v. cmp w p v (ival C)) r"
    using makeConstantRange_exact [OF assms] by blast
  have "mk_apint w (ival a) = a" if "wf_apint w a" for a
    using that by (cases a) (simp add: mk_apint_def wf_apint_def)
  with r assms(1) show ?thesis
    by (intro exI [of _ r]) (auto simp: exact_def cmp_def elems_contains ival_less)
qed

theorem makeConstantRange_correct_witness:
  "\<exists>r. makeConstantRange ICMP_SGE (mk_apint 8 128) = Some r \<and> wf_range 8 r"
  using makeConstantRange_correct [of 8 "mk_apint 8 128" ICMP_SGE] by (auto simp: wf_apint_def predicate_simps)

end
