(* ===== verification/LVILattice.thy ===== *)
theory LVILattice
  imports RangeDomain
begin

text \<open>
  \<open>LVILatticeVal\<close> of \<open>lib/Analysis/LazyValueInfo.cpp\<close>: what the lazy value analysis knows of a value at
  a program point, and how the facts of several predecessors are merged. The operations return the
  new state and whether it changed; a failed assertion is \<open>None\<close>.

  Constants other than integer literals and \<open>undef\<close> are compared by address in the code; here they
  are numbered, and \<open>ev\<close> gives the run-time value of each. \<open>ConstantFoldCompareInstOperands\<close>, which
  the code asks whether two such constants are provably different, is the parameter \<open>folds_ne\<close>:
  true when the comparison folds to the constant 1.
\<close>

section \<open>Data\<close>

datatype const = ConstantInt apint | UndefValue | OtherConstant nat

datatype LatticeValueTy = Tag_undefined | Tag_constant | Tag_notconstant | Tag_constantrange | Tag_overdefined

record LVILatticeVal =
  Tag :: LatticeValueTy
  Val :: "const option"
  Rng :: crange

definition new_LVILatticeVal :: LVILatticeVal where
  "new_LVILatticeVal = \<lparr>Tag = Tag_undefined, Val = None, Rng = CR_set 1 True\<rparr>"

definition isUndefined :: "LVILatticeVal \<Rightarrow> bool" where "isUndefined s \<longleftrightarrow> Tag s = Tag_undefined"
definition isConstant :: "LVILatticeVal \<Rightarrow> bool" where "isConstant s \<longleftrightarrow> Tag s = Tag_constant"
definition isNotConstant :: "LVILatticeVal \<Rightarrow> bool" where "isNotConstant s \<longleftrightarrow> Tag s = Tag_notconstant"
definition isConstantRange :: "LVILatticeVal \<Rightarrow> bool" where "isConstantRange s \<longleftrightarrow> Tag s = Tag_constantrange"
definition isOverdefined :: "LVILatticeVal \<Rightarrow> bool" where "isOverdefined s \<longleftrightarrow> Tag s = Tag_overdefined"

lemmas tag_tests = isUndefined_def isConstant_def isNotConstant_def isConstantRange_def isOverdefined_def

section \<open>Operations\<close>

definition markOverdefined :: "LVILatticeVal \<Rightarrow> LVILatticeVal \<times> bool" where
  "markOverdefined s = (if isOverdefined s then (s, False) else (s\<lparr>Tag := Tag_overdefined\<rparr>, True))"

definition markConstantRange :: "crange \<Rightarrow> LVILatticeVal \<Rightarrow> (LVILatticeVal \<times> bool) option" where
  "markConstantRange NewR s =
     (if isConstantRange s then
        (if isEmptySet NewR then Some (markOverdefined s)
         else Some (s\<lparr>Rng := NewR\<rparr>, Rng s \<noteq> NewR))
      else if \<not> isUndefined s then None
      else if isEmptySet NewR then Some (markOverdefined s)
      else Some (s\<lparr>Tag := Tag_constantrange, Rng := NewR\<rparr>, True))"

definition markConstant :: "const \<Rightarrow> LVILatticeVal \<Rightarrow> (LVILatticeVal \<times> bool) option" where
  "markConstant V s =
     (case V of
        ConstantInt C \<Rightarrow> markConstantRange (CR_single C) s
      | UndefValue \<Rightarrow> Some (s, False)
      | _ \<Rightarrow>
          if isConstant s \<and> Val s \<noteq> Some V then None
          else if \<not> isUndefined s then None
          else Some (s\<lparr>Tag := Tag_constant, Val := Some V\<rparr>, True))"

definition markNotConstant :: "const \<Rightarrow> LVILatticeVal \<Rightarrow> (LVILatticeVal \<times> bool) option" where
  "markNotConstant V s =
     (case V of
        ConstantInt C \<Rightarrow> markConstantRange (CR (ap_inc C) C) s
      | UndefValue \<Rightarrow> Some (s, False)
      | _ \<Rightarrow>
          if isConstant s \<and> Val s = Some V then None
          else if isNotConstant s \<and> Val s \<noteq> Some V then None
          else if \<not> (isUndefined s \<or> isConstant s) then None
          else Some (s\<lparr>Tag := Tag_notconstant, Val := Some V\<rparr>, True))"

definition get_const :: "const \<Rightarrow> LVILatticeVal option" where
  "get_const C = (if C \<noteq> UndefValue then map_option fst (markConstant C new_LVILatticeVal) else Some new_LVILatticeVal)"

definition getNot :: "const \<Rightarrow> LVILatticeVal option" where
  "getNot C = (if C \<noteq> UndefValue then map_option fst (markNotConstant C new_LVILatticeVal) else Some new_LVILatticeVal)"

definition getRange :: "crange \<Rightarrow> LVILatticeVal option" where
  "getRange r = map_option fst (markConstantRange r new_LVILatticeVal)"

definition mergeIn ::
    "(const option \<Rightarrow> const option \<Rightarrow> bool) \<Rightarrow> LVILatticeVal \<Rightarrow> LVILatticeVal \<Rightarrow> (LVILatticeVal \<times> bool) option" where
  "mergeIn folds_ne RHS s =
     (if isUndefined RHS \<or> isOverdefined s then Some (s, False)
      else if isOverdefined RHS then Some (markOverdefined s)
      else if isUndefined s then
        Some (s\<lparr>Tag := Tag RHS, Val := Val RHS, Rng := Rng RHS\<rparr>, True)
      else if isConstant s then
        (if isConstant RHS then
           (if Val s = Val RHS then Some (s, False) else Some (markOverdefined s))
         else if isNotConstant RHS then
           (if Val s = Val RHS then Some (markOverdefined s)
            else if folds_ne (Val s) (Val RHS) then
              (case Val RHS of None \<Rightarrow> None | Some C \<Rightarrow> markNotConstant C s)
            else Some (markOverdefined s))
         else Some (markOverdefined s))
      else if isNotConstant s then
        (if isConstant RHS then
           (if Val s = Val RHS then Some (markOverdefined s)
            else if folds_ne (Val s) (Val RHS) then Some (s, False)
            else Some (markOverdefined s))
         else if isNotConstant RHS then
           (if Val s = Val RHS then Some (s, False) else Some (markOverdefined s))
         else Some (markOverdefined s))
      else if \<not> isConstantRange s then None
      else if \<not> isConstantRange RHS then Some (markOverdefined s)
      else
        let NewR = unionWith (Rng s) (Rng RHS)
        in if isFullSet NewR then Some (markOverdefined s) else markConstantRange NewR s)"

section \<open>What a state says\<close>

datatype rtval = IntValue nat | OtherValue nat

fun const_value :: "(nat \<Rightarrow> rtval) \<Rightarrow> const option \<Rightarrow> rtval option" where
  "const_value ev (Some (ConstantInt C)) = Some (IntValue (ival C))"
| "const_value ev (Some (OtherConstant n)) = Some (ev n)"
| "const_value ev _ = None"

definition vals :: "(nat \<Rightarrow> rtval) \<Rightarrow> LVILatticeVal \<Rightarrow> rtval set" where
  "vals ev s =
     (case Tag s of
        Tag_undefined \<Rightarrow> {}
      | Tag_constant \<Rightarrow> {v. const_value ev (Val s) = Some v}
      | Tag_notconstant \<Rightarrow> {v. const_value ev (Val s) \<noteq> Some v}
      | Tag_constantrange \<Rightarrow> IntValue ` elems (Rng s)
      | Tag_overdefined \<Rightarrow> UNIV)"

definition wf_lvi :: "nat \<Rightarrow> LVILatticeVal \<Rightarrow> bool" where
  "wf_lvi w s \<longleftrightarrow> 0 < w \<and>
     (isConstant s \<or> isNotConstant s \<longrightarrow> (\<exists>n. Val s = Some (OtherConstant n))) \<and>
     (isConstantRange s \<longrightarrow> wf_range w (Rng s) \<and> \<not> isEmptySet (Rng s))"

text \<open>The answer of the constant folder is right: constants it proves different have different values.\<close>

definition folds_sound :: "(nat \<Rightarrow> rtval) \<Rightarrow> (const option \<Rightarrow> const option \<Rightarrow> bool) \<Rightarrow> bool" where
  "folds_sound ev folds_ne \<longleftrightarrow> (\<forall>c d. folds_ne c d \<longrightarrow> const_value ev c \<noteq> const_value ev d)"

text \<open>Height in the lattice: every change moves up.\<close>

definition height :: "nat \<Rightarrow> LVILatticeVal \<Rightarrow> nat" where
  "height w s =
     (case Tag s of
        Tag_undefined \<Rightarrow> 0 | Tag_constant \<Rightarrow> 1 | Tag_notconstant \<Rightarrow> 2
      | Tag_constantrange \<Rightarrow> 1 + card (elems (Rng s))
      | Tag_overdefined \<Rightarrow> 2 ^ w + 2)"

section \<open>Merging\<close>

lemma elems_inj:
  assumes r: "wf_range w r" and s: "wf_range w s" and eq: "elems r = elems s"
  shows "r = s"
proof -
  obtain a b where ab: "r = mk_range w a b" "0 < w" "arc_ok (2 ^ w) a b" using wf_range_cases [OF r] by metis
  obtain c d where cd: "s = mk_range w c d" "arc_ok (2 ^ w) c d" using wf_range_cases [OF s] by metis
  have arcs: "arc (2 ^ w) a b = arc (2 ^ w) c d" using eq ab cd by (simp add: elems_mk_range)
  have tests: "isEmptySet r \<longleftrightarrow> isEmptySet s" "isFullSet r \<longleftrightarrow> isFullSet s"
    using range_tests [OF r] range_tests [OF s] eq by simp_all
  show ?thesis
  proof (cases "a = b")
    case True
    then have "isEmptySet r \<or> isFullSet r" using ab by (auto simp: queries arc_ok_def)
    with tests True show ?thesis by (auto simp: ab(1) cd(1) queries)
  next
    case False
    then have ne: "\<not> isEmptySet s" "\<not> isFullSet s" using tests by (simp_all add: ab(1) queries)
    have cd': "c \<noteq> d" using ne cd(2) by (auto simp: cd(1) queries arc_ok_def)
    have "arc (2 ^ w) c d \<subseteq> arc (2 ^ w) a b" "arc (2 ^ w) a b \<subseteq> arc (2 ^ w) c d" using arcs by simp_all
    with arc_subset_iff [OF ab(3) cd(2) False cd'] arc_subset_iff [OF cd(2) ab(3) cd' False] cd' False
    show ?thesis unfolding ab(1) cd(1) queries(6) by (auto split: if_splits)
  qed
qed

lemma height_less: "wf_lvi w s \<Longrightarrow> \<not> isOverdefined s \<Longrightarrow> height w s < 2 ^ w + 2"
proof -
  assume wf: "wf_lvi w s" "\<not> isOverdefined s"
  have "card (elems (Rng s)) \<le> 2 ^ w" if "isConstantRange s"
    using that wf(1) elems_less [of w "Rng s"] card_mono [of "{..<2 ^ w}" "elems (Rng s)"]
    by (auto simp: wf_lvi_def)
  moreover have "2 < (2 :: nat) ^ w + 2" by simp
  ultimately show ?thesis using wf(2)
    by (cases "Tag s") (auto simp: height_def tag_tests)
qed

lemma markOverdefined_facts:
  assumes "markOverdefined s = (t, changed)" and "wf_lvi w s"
  shows "wf_lvi w t" "vals ev t = UNIV" "isOverdefined t" "changed \<Longrightarrow> height w s < height w t" "\<not> changed \<Longrightarrow> t = s"
proof -
  have t: "Tag t = Tag_overdefined" using assms(1) by (auto simp: markOverdefined_def tag_tests split: if_splits)
  then show "wf_lvi w t" "vals ev t = UNIV" "isOverdefined t"
    using assms(2) by (simp_all add: wf_lvi_def vals_def tag_tests)
  show "\<not> changed \<Longrightarrow> t = s" using assms(1) by (auto simp: markOverdefined_def split: if_splits)
  show "height w s < height w t" if changed
    using height_less [OF assms(2)] that assms(1) t by (auto simp: height_def markOverdefined_def split: if_splits)
qed

text \<open>\<open>merged\<close> is what one call of \<open>mergeIn\<close> has to deliver.\<close>

definition merged :: "(nat \<Rightarrow> rtval) \<Rightarrow> nat \<Rightarrow> LVILatticeVal \<Rightarrow> LVILatticeVal \<Rightarrow> (LVILatticeVal \<times> bool) option \<Rightarrow> bool" where
  "merged ev w s RHS res \<longleftrightarrow>
     (case res of
        None \<Rightarrow> False
      | Some (t, changed) \<Rightarrow> wf_lvi w t \<and> vals ev s \<union> vals ev RHS \<subseteq> vals ev t \<and>
          (if changed then height w s < height w t else t = s))"

lemma merged_overdefined: "wf_lvi w s \<Longrightarrow> merged ev w s RHS (Some (markOverdefined s))"
  using markOverdefined_facts by (cases "markOverdefined s") (auto simp: merged_def)

lemma merged_same: "wf_lvi w s \<Longrightarrow> vals ev RHS \<subseteq> vals ev s \<Longrightarrow> merged ev w s RHS (Some (s, False))"
  by (simp add: merged_def)

lemma merged_ranges:
  assumes s: "wf_lvi w s" "isConstantRange s" and r: "wf_lvi w RHS" "isConstantRange RHS"
  shows "merged ev w s RHS (markConstantRange (unionWith (Rng s) (Rng RHS)) s)"
proof -
  let ?u = "unionWith (Rng s) (Rng RHS)"
  have wf: "wf_range w (Rng s)" "wf_range w (Rng RHS)" "\<not> isEmptySet (Rng s)"
    using s r by (simp_all add: wf_lvi_def)
  have u: "wf_range w ?u" "elems (Rng s) \<subseteq> elems ?u" "elems (Rng RHS) \<subseteq> elems ?u"
    using lattice_covers(2) [OF wf(1,2)] by (simp_all add: covers_def)
  have ne: "\<not> isEmptySet ?u" using range_tests(1) [OF wf(1)] range_tests(1) [OF u(1)] wf(3) u(2) by auto
  have fin: "finite (elems ?u)" by (rule finite_subset [of _ "{..<2 ^ w}"]) (use elems_less [OF u(1)] in auto)
  have "card (elems (Rng s)) < card (elems ?u)" if "Rng s \<noteq> ?u"
    using that u(2) elems_inj [OF wf(1) u(1)] fin by (intro psubset_card_mono) auto
  with s r u ne show ?thesis
    by (auto simp: merged_def markConstantRange_def wf_lvi_def vals_def height_def tag_tests)
qed

lemma mergeIn_merged:
  assumes s: "wf_lvi w s" and r: "wf_lvi w RHS" and f: "folds_sound ev folds_ne"
  shows "merged ev w s RHS (mergeIn folds_ne RHS s)"
proof -
  consider "isUndefined RHS \<or> isOverdefined s" | "\<not> isUndefined RHS" "\<not> isOverdefined s" "isOverdefined RHS"
    | "\<not> isUndefined RHS" "\<not> isOverdefined RHS" "isUndefined s"
    | "isConstant s" "isConstant RHS" | "isConstant s" "isNotConstant RHS" | "isConstant s" "isConstantRange RHS"
    | "isNotConstant s" "isConstant RHS" | "isNotConstant s" "isNotConstant RHS" | "isNotConstant s" "isConstantRange RHS"
    | "isConstantRange s" "isConstantRange RHS" | "isConstantRange s" "isConstant RHS \<or> isNotConstant RHS"
    by (cases "Tag s"; cases "Tag RHS") (simp_all add: tag_tests)
  then show ?thesis
  proof cases
    case 1
    have "vals ev RHS \<subseteq> vals ev s" using 1 by (auto simp: vals_def tag_tests)
    with 1 show ?thesis by (simp add: mergeIn_def merged_same s)
  next
    case 2
    then show ?thesis by (simp add: mergeIn_def merged_overdefined s)
  next
    case 3
    have "wf_lvi w (s\<lparr>Tag := Tag RHS, Val := Val RHS, Rng := Rng RHS\<rparr>)"
      using r by (simp add: wf_lvi_def tag_tests)
    with 3 r show ?thesis
      by (cases "Tag RHS") (simp_all add: mergeIn_def merged_def vals_def height_def tag_tests)
  next
    case 4
    then show ?thesis
      using merged_overdefined [OF s] merged_same [OF s, of ev RHS]
      by (simp add: mergeIn_def tag_tests vals_def)
  next
    case 5
    obtain m n where mn: "Val s = Some (OtherConstant m)" "Val RHS = Some (OtherConstant n)"
      using s r 5 by (auto simp: wf_lvi_def)
    have "merged ev w s RHS (markNotConstant (OtherConstant n) s)" if "m \<noteq> n" "folds_ne (Val s) (Val RHS)"
    proof -
      have "const_value ev (Val s) \<noteq> const_value ev (Val RHS)" using f that(2) by (simp only: folds_sound_def) blast
      then have "ev m \<noteq> ev n" by (simp add: mn)
      with that(1) mn 5 s show ?thesis
        by (simp add: merged_def markNotConstant_def wf_lvi_def vals_def height_def tag_tests)
    qed
    with mn 5 show ?thesis using merged_overdefined [OF s] by (simp add: mergeIn_def tag_tests)
  next
    case 7
    obtain m n where mn: "Val s = Some (OtherConstant m)" "Val RHS = Some (OtherConstant n)"
      using s r 7 by (auto simp: wf_lvi_def)
    have "merged ev w s RHS (Some (s, False))" if "folds_ne (Val s) (Val RHS)"
    proof (rule merged_same [OF s])
      have "const_value ev (Val s) \<noteq> const_value ev (Val RHS)" using f that by (simp only: folds_sound_def) blast
      then show "vals ev RHS \<subseteq> vals ev s" using mn 7 by (auto simp: vals_def tag_tests)
    qed
    with mn 7 show ?thesis using merged_overdefined [OF s] by (simp add: mergeIn_def tag_tests)
  next
    case 8
    then show ?thesis
      using merged_overdefined [OF s] merged_same [OF s, of ev RHS]
      by (simp add: mergeIn_def tag_tests vals_def)
  next
    case 10
    then show ?thesis
      using merged_overdefined [OF s] merged_ranges [OF s _ r]
      by (simp add: mergeIn_def tag_tests Let_def)
  qed (simp_all add: mergeIn_def merged_overdefined s tag_tests, (elim disjE; simp)?)
qed

text \<open>\<open>mergeIn\<close> is a join, so that \<open>joins_cover\<close> speaks of the merge over any number of edges.\<close>

definition mergeIn_join :: "(const option \<Rightarrow> const option \<Rightarrow> bool) \<Rightarrow> LVILatticeVal \<Rightarrow> LVILatticeVal \<Rightarrow> LVILatticeVal" where
  "mergeIn_join folds_ne s RHS = fst (the (mergeIn folds_ne RHS s))"

lemma mergeIn_knows:
  assumes "wf_lvi w s" "wf_lvi w RHS" "folds_sound ev folds_ne"
  obtains changed where "mergeIn folds_ne RHS s = Some (mergeIn_join folds_ne s RHS, changed)"
    "wf_lvi w (mergeIn_join folds_ne s RHS)" "vals ev s \<union> vals ev RHS \<subseteq> vals ev (mergeIn_join folds_ne s RHS)"
  using mergeIn_merged [OF assms] unfolding merged_def
  by (cases "mergeIn folds_ne RHS s") (auto simp: mergeIn_join_def split: if_splits)

interpretation lvi: join_domain "\<lambda>s. wf_lvi w s \<and> folds_sound ev folds_ne" "vals ev" "mergeIn_join folds_ne"
  for w ev folds_ne
proof unfold_locales
  fix a b assume a: "wf_lvi w a \<and> folds_sound ev folds_ne" and b: "wf_lvi w b \<and> folds_sound ev folds_ne"
  obtain c where "wf_lvi w (mergeIn_join folds_ne a b)" "vals ev a \<union> vals ev b \<subseteq> vals ev (mergeIn_join folds_ne a b)"
    using a b by (auto elim: mergeIn_knows [of w a b ev folds_ne])
  with a show "wf_lvi w (mergeIn_join folds_ne a b) \<and> folds_sound ev folds_ne"
    "vals ev a \<subseteq> vals ev (mergeIn_join folds_ne a b)" "vals ev b \<subseteq> vals ev (mergeIn_join folds_ne a b)"
    by auto
qed

section \<open>Properties\<close>

text \<open>C16: on states of one type \<open>mergeIn\<close> violates no assertion. The merged state is well-formed and allows
  every value that either state allows; it reports a change exactly when the state is a new one, and
  a change moves up in a lattice of finite height, so that merging reaches a fixed point.\<close>

theorem mergeIn_correct:
  assumes "wf_lvi w s" and "wf_lvi w RHS" and "folds_sound ev folds_ne"
  shows "\<exists>t changed. mergeIn folds_ne RHS s = Some (t, changed) \<and> wf_lvi w t \<and>
    vals ev s \<union> vals ev RHS \<subseteq> vals ev t \<and> (if changed then height w s < height w t else t = s) \<and>
    height w t \<le> 2 ^ w + 2"
proof -
  obtain t c where t: "mergeIn folds_ne RHS s = Some (t, c)" "wf_lvi w t"
    "vals ev s \<union> vals ev RHS \<subseteq> vals ev t" "if c then height w s < height w t else t = s"
    using mergeIn_merged [OF assms] unfolding merged_def by (auto split: option.splits)
  have "height w t \<le> 2 ^ w + 2"
    using height_less [OF t(2)] by (cases "isOverdefined t") (auto simp: height_def tag_tests)
  with t show ?thesis by blast
qed

theorem mergeIn_correct_witness:
  "case mergeIn (\<lambda>c d. False) \<lparr>Tag = Tag_constantrange, Val = None, Rng = CR (mk_apint 8 10) (mk_apint 8 20)\<rparr> new_LVILatticeVal of
     None \<Rightarrow> False | Some (t, changed) \<Rightarrow> wf_lvi 8 t"
  using mergeIn_correct [where w = 8 and s = new_LVILatticeVal and folds_ne = "\<lambda>c d. False" and ev = OtherValue
      and RHS = "\<lparr>Tag = Tag_constantrange, Val = None, Rng = CR (mk_apint 8 10) (mk_apint 8 20)\<rparr>"]
  by (auto simp: wf_lvi_def new_LVILatticeVal_def tag_tests folds_sound_def wf_range_def wf_apint_def
      apint_eq_iff isEmptySet_def)

end
