(* ===== verification/LVITransfer.thy ===== *)
theory LVITransfer
  imports LVILattice
begin

text \<open>
  The transfer functions of the lazy value analysis in \<open>lib/Analysis/LazyValueInfo.cpp\<close>: what a branch
  or a switch says of a value on an edge, what an instruction makes of a range, and the merge over the
  predecessors of a block.

  A query is about one value \<open>Val\<close>. Of the IR the model keeps what the functions look at: the operands
  of a comparison as far as they mention \<open>Val\<close>, and the successors of a terminator by number. Whether a
  block value is already cached, and the result of pushing it on the work list, are arguments. An
  assertion that fails is \<open>None\<close>; \<open>Some None\<close> is the return value \<open>false\<close>.
\<close>

section \<open>What the functions look at\<close>

text \<open>\<open>Op_AddVal C\<close> is what \<open>m_Add(m_Specific(Val), m_ConstantInt(C))\<close> matches.\<close>

datatype icmp_operand = Op_Val | Op_AddVal apint | Op_Other

record icmp_inst =
  Pred :: predicate
  Op0 :: icmp_operand
  Op1 :: "const option"

datatype condition = Cond_Val | Cond_ICmp icmp_inst | Cond_Other

datatype terminator =
    Br_uncond nat
  | Br_cond condition nat nat
  | Switch bool nat "(apint \<times> nat) list"
  | Other_terminator

datatype opcode = I_Add | I_Sub | I_Mul | I_UDiv | I_Shl | I_LShr | I_And | I_Or | I_OtherBinary
  | I_Trunc | I_SExt | I_ZExt | I_BitCast | I_Other

definition isBinaryOperator :: "opcode \<Rightarrow> bool" where
  "isBinaryOperator op \<longleftrightarrow> op \<in> {I_Add, I_Sub, I_Mul, I_UDiv, I_Shl, I_LShr, I_And, I_Or, I_OtherBinary}"

section \<open>Conditions\<close>

definition getValueFromFromCondition :: "icmp_inst \<Rightarrow> bool \<Rightarrow> LVILatticeVal option option" where
  "getValueFromFromCondition ICI isTrueDest =
     (case Op1 ICI of
        None \<Rightarrow> Some None
      | Some C \<Rightarrow>
          if isEquality (Pred ICI) \<and> Op0 ICI = Op_Val then
            (if isTrueDest = (Pred ICI = ICMP_EQ) then map_option Some (get_const C)
             else map_option Some (getNot C))
          else
            let NegOffset =
              (if Pred ICI = ICMP_ULT then (case Op0 ICI of Op_AddVal c \<Rightarrow> Some c | _ \<Rightarrow> None) else None)
            in case C of
                 ConstantInt CI \<Rightarrow>
                   if Op0 ICI = Op_Val \<or> NegOffset \<noteq> None then
                     (case makeAllowedICmpRegion (Pred ICI) (CR_single CI) of
                        None \<Rightarrow> None
                      | Some TrueValues \<Rightarrow>
                          let TrueValues = (case NegOffset of Some c \<Rightarrow> cr_subtract TrueValues c | None \<Rightarrow> TrueValues);
                              TrueValues = (if \<not> isTrueDest then cr_inverse TrueValues else TrueValues)
                          in map_option Some (getRange TrueValues))
                   else Some None
               | _ \<Rightarrow> Some None)"

section \<open>Edges\<close>

definition switch_edge :: "nat \<Rightarrow> nat \<Rightarrow> nat \<Rightarrow> (apint \<times> nat) list \<Rightarrow> crange" where
  "switch_edge Bits BBTo dflt cases =
     (let DefaultCase = (dflt = BBTo)
      in fold (\<lambda>(V, succ) EdgesVals.
           let EdgeVal = CR_single V in
           if DefaultCase then (if succ \<noteq> BBTo then cr_difference EdgesVals EdgeVal else EdgesVals)
           else if succ = BBTo then unionWith EdgesVals EdgeVal
           else EdgesVals) cases (CR_set Bits DefaultCase))"

definition getEdgeValueLocal :: "nat \<Rightarrow> terminator \<Rightarrow> nat \<Rightarrow> LVILatticeVal option option" where
  "getEdgeValueLocal Bits Term BBTo =
     (case Term of
        Br_cond Cond succ0 succ1 \<Rightarrow>
          if succ0 \<noteq> succ1 then
            let isTrueDest = (succ0 = BBTo) in
            if (if \<not> isTrueDest then succ1 else succ0) \<noteq> BBTo then None
            else case Cond of
                Cond_Val \<Rightarrow> map_option Some (get_const (ConstantInt (mk_apint 1 (if isTrueDest then 1 else 0))))
              | Cond_ICmp ICI \<Rightarrow> getValueFromFromCondition ICI isTrueDest
              | Cond_Other \<Rightarrow> Some None
          else Some None
      | Switch on_Val dflt cases \<Rightarrow>
          if \<not> on_Val then Some None
          else map_option Some (getRange (switch_edge Bits BBTo dflt cases))
      | _ \<Rightarrow> Some None)"

text \<open>The assumptions are the comparisons of the \<open>llvm.assume\<close> calls that are valid at the instruction.\<close>

fun mergeAssumeBlockValueConstantRange ::
    "(const option \<Rightarrow> const option \<Rightarrow> bool) \<Rightarrow> icmp_inst list \<Rightarrow> LVILatticeVal \<Rightarrow> LVILatticeVal option" where
  "mergeAssumeBlockValueConstantRange folds_ne [] BBLV = Some BBLV"
| "mergeAssumeBlockValueConstantRange folds_ne (ICI # rest) BBLV =
     (case getValueFromFromCondition ICI True of
        None \<Rightarrow> None
      | Some None \<Rightarrow> mergeAssumeBlockValueConstantRange folds_ne rest BBLV
      | Some (Some Result) \<Rightarrow>
          if isOverdefined BBLV then mergeAssumeBlockValueConstantRange folds_ne rest Result
          else
            (case mergeIn folds_ne Result BBLV of
               None \<Rightarrow> None
             | Some (BBLV, _) \<Rightarrow> mergeAssumeBlockValueConstantRange folds_ne rest BBLV))"

text \<open>\<open>block\<close> is the cached value of \<open>Val\<close> in \<open>BBFrom\<close>, if there is one, and \<open>pushed\<close> whether pushing it
  on the work list succeeded otherwise. \<open>at_term\<close> and \<open>at_cxt\<close> are the assumptions valid at the
  terminator and at the context instruction.\<close>

definition getEdgeValue ::
    "(const option \<Rightarrow> const option \<Rightarrow> bool) \<Rightarrow> const option \<Rightarrow> nat \<Rightarrow> terminator \<Rightarrow> nat \<Rightarrow> LVILatticeVal option \<Rightarrow> bool
      \<Rightarrow> icmp_inst list \<Rightarrow> icmp_inst list \<Rightarrow> LVILatticeVal option option" where
  "getEdgeValue folds_ne Val_const Bits Term BBTo block pushed at_term at_cxt =
     (let assumed = (\<lambda>InBlock.
            Option.bind (mergeAssumeBlockValueConstantRange folds_ne at_term InBlock)
              (mergeAssumeBlockValueConstantRange folds_ne at_cxt))
      in case Val_const of
        Some VC \<Rightarrow> map_option Some (get_const VC)
      | None \<Rightarrow>
          (case getEdgeValueLocal Bits Term BBTo of
             None \<Rightarrow> None
           | Some (Some Result) \<Rightarrow>
               if \<not> isConstantRange Result \<or> isSingleElement (Rng Result) then Some (Some Result)
               else
                 (case block of
                    None \<Rightarrow> if pushed then Some None else Some (Some (fst (markOverdefined Result)))
                  | Some InBlock \<Rightarrow>
                      (case assumed InBlock of
                         None \<Rightarrow> None
                       | Some InBlock \<Rightarrow>
                           if \<not> isConstantRange InBlock then Some (Some Result)
                           else map_option Some (getRange (intersectWith (Rng Result) (Rng InBlock)))))
           | Some None \<Rightarrow>
               (case block of
                  None \<Rightarrow> if pushed then Some None else Some (Some (fst (markOverdefined new_LVILatticeVal)))
                | Some Result \<Rightarrow> map_option Some (assumed Result))))"

section \<open>Blocks\<close>

text \<open>The loop of \<open>solveBlockValueNonLocal\<close> and \<open>solveBlockValuePHINode\<close>: an edge is \<open>None\<close> where
  \<open>getEdgeValue\<close> returned \<open>false\<close>. \<open>over\<close> is the result once the merged value is overdefined.\<close>

fun merge_edges ::
    "(const option \<Rightarrow> const option \<Rightarrow> bool) \<Rightarrow> (LVILatticeVal \<Rightarrow> LVILatticeVal option) \<Rightarrow> bool \<Rightarrow> LVILatticeVal
      \<Rightarrow> LVILatticeVal option list \<Rightarrow> LVILatticeVal option option" where
  "merge_edges folds_ne over EdgesMissing Result [] =
     (if EdgesMissing then Some None else if isOverdefined Result then None else Some (Some Result))"
| "merge_edges folds_ne over EdgesMissing Result (edge # edges) =
     (case edge of
        None \<Rightarrow> merge_edges folds_ne over True Result edges
      | Some EdgeResult \<Rightarrow>
          if EdgesMissing then merge_edges folds_ne over True Result edges
          else
            (case mergeIn folds_ne EdgeResult Result of
               None \<Rightarrow> None
             | Some (Result, _) \<Rightarrow>
                 if isOverdefined Result then map_option Some (over Result)
                 else merge_edges folds_ne over False Result edges))"

definition solveBlockValuePHINode ::
    "(const option \<Rightarrow> const option \<Rightarrow> bool) \<Rightarrow> LVILatticeVal option list \<Rightarrow> LVILatticeVal option option" where
  "solveBlockValuePHINode folds_ne edges = merge_edges folds_ne Some False new_LVILatticeVal edges"

text \<open>\<open>NotNull\<close> is what the head of the function found out of the pointer, \<open>null\<close> the null constant of
  its type, and \<open>entry\<close> whether the block is the entry block of its function.\<close>

definition solveBlockValueNonLocal ::
    "(const option \<Rightarrow> const option \<Rightarrow> bool) \<Rightarrow> bool \<Rightarrow> const \<Rightarrow> bool \<Rightarrow> LVILatticeVal option list \<Rightarrow> LVILatticeVal option option" where
  "solveBlockValueNonLocal folds_ne NotNull null entry edges =
     (if entry then
        (if NotNull then map_option Some (getNot null) else Some (Some (fst (markOverdefined new_LVILatticeVal))))
      else merge_edges folds_ne (\<lambda>Result. if NotNull then getNot null else Some Result) False new_LVILatticeVal edges)"

text \<open>\<open>solveBlockValueConstantRange\<close> from where the value of the first operand is known; \<open>RHS\<close> is the
  second operand when it is an integer constant.\<close>

definition solveBlockValueConstantRange ::
    "opcode \<Rightarrow> nat \<Rightarrow> LVILatticeVal \<Rightarrow> apint option \<Rightarrow> LVILatticeVal option" where
  "solveBlockValueConstantRange op ResultWidth LHSVal RHS =
     (let overdefined = fst (markOverdefined new_LVILatticeVal) in
      if \<not> isConstantRange LHSVal then Some overdefined
      else if isBinaryOperator op \<and> RHS = None then Some overdefined
      else
        let LHSRange = Rng LHSVal;
            RHSRange = (if isBinaryOperator op then CR_single (the RHS) else CR_set 1 True);
            mark = (\<lambda>r. map_option fst (markConstantRange r new_LVILatticeVal))
        in case op of
             I_Add \<Rightarrow> mark (cr_add LHSRange RHSRange)
           | I_Sub \<Rightarrow> mark (cr_sub LHSRange RHSRange)
           | I_Mul \<Rightarrow> mark (cr_multiply LHSRange RHSRange)
           | I_UDiv \<Rightarrow> mark (cr_udiv LHSRange RHSRange)
           | I_Shl \<Rightarrow> mark (cr_shl LHSRange RHSRange)
           | I_LShr \<Rightarrow> mark (cr_lshr LHSRange RHSRange)
           | I_Trunc \<Rightarrow> mark (cr_truncate LHSRange ResultWidth)
           | I_SExt \<Rightarrow> mark (signExtend LHSRange ResultWidth)
           | I_ZExt \<Rightarrow> mark (zeroExtend LHSRange ResultWidth)
           | I_BitCast \<Rightarrow> mark LHSRange
           | I_And \<Rightarrow> mark (binaryAnd LHSRange RHSRange)
           | I_Or \<Rightarrow> mark (binaryOr LHSRange RHSRange)
           | _ \<Rightarrow> Some overdefined)"

section \<open>Run-time meaning\<close>

text \<open>\<open>w\<close> is the width of \<open>Val\<close> when it is an integer. \<open>operand_value\<close> is about an operand that mentions
  \<open>Val\<close>; the second operand has the value of a constant, and any value when it is not a constant or is \<open>undef\<close>.
  How values that are not integers are ordered is left open.\<close>

fun operand_value :: "nat \<Rightarrow> icmp_operand \<Rightarrow> rtval \<Rightarrow> rtval set" where
  "operand_value w Op_Val x = {x}"
| "operand_value w (Op_AddVal c) (IntValue v) = {IntValue ((v + ival c) mod 2 ^ w)}"
| "operand_value w (Op_AddVal c) (OtherValue n) = {}"
| "operand_value w Op_Other x = UNIV"

fun second_value :: "(nat \<Rightarrow> rtval) \<Rightarrow> const option \<Rightarrow> rtval set" where
  "second_value ev None = UNIV"
| "second_value ev (Some UndefValue) = UNIV"
| "second_value ev (Some C) = {b. const_value ev (Some C) = Some b}"

fun rt_icmp :: "nat \<Rightarrow> predicate \<Rightarrow> rtval \<Rightarrow> rtval \<Rightarrow> bool \<Rightarrow> bool" where
  "rt_icmp w p (IntValue i) (IntValue j) taken \<longleftrightarrow>
     i < 2 ^ w \<and> j < 2 ^ w \<and> icmp_holds p (mk_apint w i) (mk_apint w j) = taken"
| "rt_icmp w p (OtherValue m) (OtherValue n) taken \<longleftrightarrow>
     (if isEquality p then (m = n) = (taken = (p = ICMP_EQ)) else True)"
| "rt_icmp w p a b taken \<longleftrightarrow> False"

text \<open>A comparison of something else than \<open>Val\<close>, at whatever width, may come out either way.\<close>

definition cond_holds :: "(nat \<Rightarrow> rtval) \<Rightarrow> nat \<Rightarrow> icmp_inst \<Rightarrow> rtval \<Rightarrow> bool \<Rightarrow> bool" where
  "cond_holds ev w ICI x taken \<longleftrightarrow> Op0 ICI = Op_Other \<or>
     (\<exists>a b. a \<in> operand_value w (Op0 ICI) x \<and> b \<in> second_value ev (Op1 ICI) \<and> rt_icmp w (Pred ICI) a b taken)"

fun wf_const :: "nat \<Rightarrow> const \<Rightarrow> bool" where
  "wf_const w (ConstantInt C) \<longleftrightarrow> wf_apint w C"
| "wf_const w UndefValue \<longleftrightarrow> False"
| "wf_const w (OtherConstant n) \<longleftrightarrow> 0 < w"

text \<open>Operands of one type. What is left out is one comparison, \<open>Val == undef\<close> or \<open>Val != undef\<close>, for which the code
  answers the undefined state, which allows no value.\<close>

definition wf_icmp :: "nat \<Rightarrow> icmp_inst \<Rightarrow> bool" where
  "wf_icmp w ICI \<longleftrightarrow> isIntPredicate (Pred ICI) \<and>
     (Op0 ICI \<noteq> Op_Other \<longrightarrow>
       (case Op0 ICI of Op_AddVal c \<Rightarrow> wf_apint w c | _ \<Rightarrow> True) \<and>
       (case Op1 ICI of
          None \<Rightarrow> True
        | Some C \<Rightarrow> if C = UndefValue then \<not> (isEquality (Pred ICI) \<and> Op0 ICI = Op_Val) else wf_const w C))"

fun taken_edge :: "(nat \<Rightarrow> rtval) \<Rightarrow> nat \<Rightarrow> rtval \<Rightarrow> terminator \<Rightarrow> nat \<Rightarrow> bool" where
  "taken_edge ev w x (Br_uncond s) BBTo \<longleftrightarrow> s = BBTo"
| "taken_edge ev w x (Br_cond Cond_Val s0 s1) BBTo \<longleftrightarrow> w = 1 \<and>
     (x = IntValue 1 \<and> s0 = BBTo \<or> x = IntValue 0 \<and> s1 = BBTo)"
| "taken_edge ev w x (Br_cond (Cond_ICmp ICI) s0 s1) BBTo \<longleftrightarrow>
     cond_holds ev w ICI x True \<and> s0 = BBTo \<or> cond_holds ev w ICI x False \<and> s1 = BBTo"
| "taken_edge ev w x (Br_cond Cond_Other s0 s1) BBTo \<longleftrightarrow> s0 = BBTo \<or> s1 = BBTo"
| "taken_edge ev w x (Switch on_Val dflt cases) BBTo \<longleftrightarrow>
     (if on_Val then
        \<exists>v<2 ^ w. x = IntValue v \<and>
          (case map_of (map (\<lambda>(V, s). (ival V, s)) cases) v of Some s \<Rightarrow> s | None \<Rightarrow> dflt) = BBTo
      else True)"
| "taken_edge ev w x Other_terminator BBTo \<longleftrightarrow> True"

text \<open>The verifier's conditions: operands of one type, and no case value twice.\<close>

fun wf_term :: "nat \<Rightarrow> terminator \<Rightarrow> bool" where
  "wf_term w (Br_cond (Cond_ICmp ICI) s0 s1) \<longleftrightarrow> wf_icmp w ICI"
| "wf_term w (Switch on_Val dflt cases) \<longleftrightarrow>
     (on_Val \<longrightarrow> (\<forall>V \<in> fst ` set cases. wf_apint w V) \<and> distinct (map (\<lambda>(V, s). ival V) cases))"
| "wf_term w _ \<longleftrightarrow> True"

section \<open>The constructors\<close>

lemma CR_single_elems:
  assumes "wf_apint w c"
  shows "wf_range w (CR_single c)" "elems (CR_single c) = {ival c}"
    and "wf_range w (CR (ap_inc c) c)" "elems (CR (ap_inc c) c) = {..<2 ^ w} - {ival c}"
proof -
  have w: "0 < w" "ival c < 2 ^ w" using assms by (simp_all add: wf_apint_def)
  have one: "1 < (2 :: nat) ^ w" using w(1) by (rule one_less_exp)
  have wfi: "wf_apint w (ap_inc c)" using assms by simp
  have ne: "ival c \<noteq> ival (ap_inc c)" using ival_inc [OF assms] one by auto
  have "exact w (\<lambda>v. v = ival c) (CR c (ap_inc c))" "exact w (\<lambda>v. v \<noteq> ival c) (CR (ap_inc c) c)"
    using arc_single [OF w(2) one] ne ival_inc [OF assms] by (intro exact_CR assms wfi; simp)+
  then show "wf_range w (CR_single c)" "elems (CR_single c) = {ival c}"
    "wf_range w (CR (ap_inc c) c)" "elems (CR (ap_inc c) c) = {..<2 ^ w} - {ival c}"
    using w(2) by (auto simp: exact_def CR_single_def)
qed

lemma new_state [simp]:
  "isUndefined new_LVILatticeVal" "\<not> isConstantRange new_LVILatticeVal" "\<not> isConstant new_LVILatticeVal"
  "\<not> isNotConstant new_LVILatticeVal" "\<not> isOverdefined new_LVILatticeVal" "vals ev new_LVILatticeVal = {}"
  "0 < w \<Longrightarrow> wf_lvi w new_LVILatticeVal"
  by (simp_all add: new_LVILatticeVal_def tag_tests vals_def wf_lvi_def)

text \<open>\<open>knows ev w X res\<close>: the operation succeeded with a state that allows all of \<open>X\<close>.\<close>

definition knows :: "(nat \<Rightarrow> rtval) \<Rightarrow> nat \<Rightarrow> rtval set \<Rightarrow> LVILatticeVal option \<Rightarrow> bool" where
  "knows ev w X res \<longleftrightarrow> (case res of None \<Rightarrow> False | Some R \<Rightarrow> wf_lvi w R \<and> X \<subseteq> vals ev R)"

lemma knows_overdefined: "0 < w \<Longrightarrow> knows ev w X (Some (fst (markOverdefined s)))"
  by (auto simp: knows_def markOverdefined_def wf_lvi_def vals_def tag_tests)

lemma knows_mark:
  assumes "wf_range w r"
  shows "knows ev w (IntValue ` elems r) (map_option fst (markConstantRange r new_LVILatticeVal))"
proof (cases "isEmptySet r")
  case True
  have "0 < w" using wf_getBitWidth [OF assms] by simp
  with True show ?thesis
    using knows_overdefined [of w ev "IntValue ` elems r" new_LVILatticeVal]
    by (simp add: markConstantRange_def)
next
  case False
  then show ?thesis using assms wf_getBitWidth [OF assms]
    by (simp add: markConstantRange_def knows_def wf_lvi_def vals_def) (simp add: tag_tests)
qed

lemma knows_getRange: "wf_range w r \<Longrightarrow> knows ev w (IntValue ` elems r) (getRange r)"
  unfolding getRange_def by (rule knows_mark)

lemma knows_mono: "knows ev w X res \<Longrightarrow> Y \<subseteq> X \<Longrightarrow> knows ev w Y res"
  by (auto simp: knows_def split: option.splits)

lemma knows_get:
  assumes "wf_const w C"
  shows "knows ev w {v. const_value ev (Some C) = Some v} (get_const C)"
proof (cases C)
  case (ConstantInt c)
  with assms have c: "wf_apint w c" by simp
  have "knows ev w (IntValue ` elems (CR_single c)) (get_const C)"
    using knows_mark [OF CR_single_elems(1) [OF c]] by (simp add: get_const_def ConstantInt markConstant_def)
  then show ?thesis by (rule knows_mono) (simp add: ConstantInt CR_single_elems(2) [OF c])
next
  case (OtherConstant n)
  with assms show ?thesis
    by (simp add: get_const_def markConstant_def knows_def wf_lvi_def vals_def) (simp add: tag_tests)
qed (use assms in simp)

lemma knows_getNot:
  assumes "wf_const w C"
  shows "knows ev w {v. const_value ev (Some C) \<noteq> Some v \<and> (\<forall>c. C = ConstantInt c \<longrightarrow> v \<in> IntValue ` {..<2 ^ w})} (getNot C)"
proof (cases C)
  case (ConstantInt c)
  with assms have c: "wf_apint w c" by simp
  have "knows ev w (IntValue ` elems (CR (ap_inc c) c)) (getNot C)"
    using knows_mark [OF CR_single_elems(3) [OF c]] by (simp add: getNot_def ConstantInt markNotConstant_def)
  then show ?thesis by (rule knows_mono) (auto simp: ConstantInt CR_single_elems(4) [OF c])
next
  case (OtherConstant n)
  with assms show ?thesis
    by (simp add: getNot_def markNotConstant_def knows_def wf_lvi_def vals_def) (simp add: tag_tests)
qed (use assms in simp)

section \<open>Conditions and edges\<close>

definition answers :: "(nat \<Rightarrow> rtval) \<Rightarrow> nat \<Rightarrow> rtval \<Rightarrow> LVILatticeVal option option \<Rightarrow> bool" where
  "answers ev w x res \<longleftrightarrow>
     (case res of None \<Rightarrow> False | Some None \<Rightarrow> True | Some (Some R) \<Rightarrow> wf_lvi w R \<and> x \<in> vals ev R)"

lemma answers_Some: "knows ev w X res \<Longrightarrow> x \<in> X \<Longrightarrow> answers ev w x (map_option Some res)"
  by (auto simp: knows_def answers_def split: option.splits)

lemma answers_None [simp]: "answers ev w x (Some None)"
  by (simp add: answers_def)

lemma cr_subtract_shift:
  assumes r: "wf_range w r" and c: "wf_apint w c" and v: "v < 2 ^ w"
  shows "wf_range w (cr_subtract r c)" and "v \<in> elems (cr_subtract r c) \<longleftrightarrow> (v + ival c) mod 2 ^ w \<in> elems r"
proof -
  have "wf_range w (cr_subtract r c) \<and> (v \<in> elems (cr_subtract r c) \<longleftrightarrow> (v + ival c) mod 2 ^ w \<in> elems r)"
  proof (cases "isEmptySet r \<or> isFullSet r")
    case True
    then have "cr_subtract r c = r" by (auto simp: cr_subtract_def isEmptySet_def isFullSet_def)
    moreover have "elems r = {} \<or> elems r = {..<2 ^ w}" using True range_tests [OF r] by blast
    then have "v \<in> elems r \<longleftrightarrow> (v + ival c) mod 2 ^ w \<in> elems r" by (elim disjE) (simp_all add: v)
    ultimately show ?thesis using r by simp
  next
    case False
    then show ?thesis using cr_subtract_elems [OF r c v] by simp
  qed
  then show "wf_range w (cr_subtract r c)" "v \<in> elems (cr_subtract r c) \<longleftrightarrow> (v + ival c) mod 2 ^ w \<in> elems r"
    by simp_all
qed

lemma rt_icmp_equality:
  assumes "rt_icmp w p a b taken" and "isEquality p"
  shows "(a = b) = (taken = (p = ICMP_EQ))" and "b = IntValue j \<Longrightarrow> a \<in> IntValue ` {..<2 ^ w}"
proof -
  have p: "p = ICMP_EQ \<or> p = ICMP_NE" using assms(2) by (simp add: isEquality_def)
  have "rt_icmp w p a b taken \<Longrightarrow> (a = b) = (taken = (p = ICMP_EQ))"
    using p by (cases a; cases b) (auto simp: apint_eq_iff isEquality_def)
  then show "(a = b) = (taken = (p = ICMP_EQ))" using assms(1) .
  show "a \<in> IntValue ` {..<2 ^ w}" if "b = IntValue j" using assms(1) that by (cases a) auto
qed

text \<open>The region of a comparison with a constant, moved by the offset and complemented for the false edge.\<close>

lemma region_knows:
  assumes p: "isIntPredicate p" and c: "wf_apint w c" and off: "\<And>c. off = Some c \<Longrightarrow> wf_apint w c"
    and v: "v < 2 ^ w" and a: "a = (case off of Some c \<Rightarrow> (v + ival c) mod 2 ^ w | None \<Rightarrow> v)"
    and holds: "icmp_holds p (mk_apint w a) (mk_apint w (ival c)) = b"
  obtains T where "makeAllowedICmpRegion p (CR_single c) = Some T"
    and "answers ev w (IntValue v) (map_option Some (getRange
      (let T = (case off of Some c \<Rightarrow> cr_subtract T c | None \<Rightarrow> T) in if \<not> b then cr_inverse T else T)))"
proof -
  obtain T where T: "makeAllowedICmpRegion p (CR_single c) = Some T"
    "exact w (\<lambda>v. \<exists>y \<in> elems (CR_single c). cmp w p v y) T"
    using makeAllowedICmpRegion_exact [OF CR_single_elems(1) [OF c] p] by blast
  then have wfT: "wf_range w T" and inT: "u \<in> elems T \<longleftrightarrow> icmp_holds p (mk_apint w u) (mk_apint w (ival c))" if "u < 2 ^ w" for u
    using that by (simp_all add: exact_def CR_single_elems(2) [OF c] cmp_def)
  define S where "S = (case off of Some c \<Rightarrow> cr_subtract T c | None \<Rightarrow> T)"
  have wfT: "wf_range w T" using T(2) by (simp add: exact_def)
  have S: "wf_range w S \<and> (v \<in> elems S \<longleftrightarrow> b)"
  proof (cases off)
    case None
    then show ?thesis using wfT inT [OF v] holds a by (simp add: S_def)
  next
    case (Some d)
    then show ?thesis
      using cr_subtract_shift [OF wfT off [OF Some] v] inT [of "(v + ival d) mod 2 ^ w"] holds a by (simp add: S_def)
  qed
  have "knows ev w (IntValue ` elems (if \<not> b then cr_inverse S else S)) (getRange (if \<not> b then cr_inverse S else S))"
    by (rule knows_getRange) (use S elems_inverse(2) [of w S] in auto)
  moreover have "v \<in> elems (if \<not> b then cr_inverse S else S)" using S elems_inverse(1) [of w S] v by auto
  ultimately have "answers ev w (IntValue v) (map_option Some (getRange (if \<not> b then cr_inverse S else S)))"
    by (intro answers_Some) auto
  with T(1) show thesis unfolding S_def by (intro that) (simp_all only: Let_def)
qed

text \<open>Conditions that say nothing of \<open>Val\<close>: the code does not look into them.\<close>

lemma getValueFromFromCondition_ignores:
  "Op0 ICI = Op_Other \<Longrightarrow> getValueFromFromCondition ICI b = Some None"
  "Op1 ICI = None \<Longrightarrow> getValueFromFromCondition ICI b = Some None"
  "Op1 ICI = Some UndefValue \<Longrightarrow> \<not> (isEquality (Pred ICI) \<and> Op0 ICI = Op_Val) \<Longrightarrow> getValueFromFromCondition ICI b = Some None"
  by (auto simp: getValueFromFromCondition_def split: option.splits const.splits)

lemma getValueFromFromCondition_undef:
  "isEquality p \<Longrightarrow>
    getValueFromFromCondition \<lparr>Pred = p, Op0 = Op_Val, Op1 = Some UndefValue\<rparr> b = Some (Some new_LVILatticeVal)"
  by (simp add: getValueFromFromCondition_def get_const_def getNot_def)

lemma condition_answers:
  assumes wf: "wf_icmp w ICI" and h: "cond_holds ev w ICI x b" and typed: "\<And>v. x = IntValue v \<Longrightarrow> v < 2 ^ w"
  shows "answers ev w x (getValueFromFromCondition ICI b)"
proof (cases "Op0 ICI = Op_Other \<or> Op1 ICI = None \<or> Op1 ICI = Some UndefValue")
  case True
  then have "getValueFromFromCondition ICI b = Some None"
    using wf getValueFromFromCondition_ignores [of ICI b] by (auto simp: wf_icmp_def)
  then show ?thesis by simp
next
  case known: False
  then obtain C where C: "Op1 ICI = Some C" "C \<noteq> UndefValue" by (cases "Op1 ICI") auto
  obtain a y where a: "a \<in> operand_value w (Op0 ICI) x"
    and y: "const_value ev (Some C) = Some y" and cmp: "rt_icmp w (Pred ICI) a y b"
    using h known C by (cases C) (auto simp: cond_holds_def)
  have wfC: "wf_const w C" and p: "isIntPredicate (Pred ICI)" using wf C known by (simp_all add: wf_icmp_def)
  show ?thesis
  proof (cases "isEquality (Pred ICI) \<and> Op0 ICI = Op_Val")
    case True
    then have ax: "a = x" using a by simp
    note e = rt_icmp_equality [OF cmp conjunct1 [OF True], unfolded ax]
    have "x \<in> {v. const_value ev (Some C) \<noteq> Some v \<and> (\<forall>c. C = ConstantInt c \<longrightarrow> v \<in> IntValue ` {..<2 ^ w})}" if "x \<noteq> y"
      using that y e(2) by auto
    with True e(1) y show ?thesis
      using answers_Some [OF knows_get [OF wfC, of ev], of x] answers_Some [OF knows_getNot [OF wfC, of ev], of x]
      by (simp add: getValueFromFromCondition_def C)
  next
    case False
    define off where "off = (if Pred ICI = ICMP_ULT then (case Op0 ICI of Op_AddVal c \<Rightarrow> Some c | _ \<Rightarrow> None) else None)"
    show ?thesis
    proof (cases "\<exists>c. C = ConstantInt c \<and> (Op0 ICI = Op_Val \<or> off \<noteq> None)")
      case True
      then obtain c where c: "C = ConstantInt c" "Op0 ICI = Op_Val \<or> off \<noteq> None" by blast
      have wfc: "wf_apint w c" using wfC c(1) by simp
      have wfoff: "wf_apint w d" if "off = Some d" for d
        using that wf known by (auto simp: off_def wf_icmp_def split: if_splits icmp_operand.splits)
      obtain u where u: "a = IntValue u" "u < 2 ^ w" "icmp_holds (Pred ICI) (mk_apint w u) (mk_apint w (ival c)) = b"
        using cmp y c(1) by (cases a) auto
      obtain v where v: "x = IntValue v" "v < 2 ^ w" "u = (case off of Some c \<Rightarrow> (v + ival c) mod 2 ^ w | None \<Rightarrow> v)"
      proof (cases off)
        case None
        then have "a = x" using c(2) a by simp
        with that [of u] None u show thesis by simp
      next
        case (Some d)
        then have d: "Op0 ICI = Op_AddVal d" by (auto simp: off_def split: if_splits icmp_operand.splits)
        then obtain v where v: "x = IntValue v" "u = (v + ival d) mod 2 ^ w" using a u(1) by (cases x) auto
        with that [of v] typed Some show thesis by simp
      qed
      obtain T where "makeAllowedICmpRegion (Pred ICI) (CR_single c) = Some T"
        and "answers ev w (IntValue v) (map_option Some (getRange
          (let T = (case off of Some c \<Rightarrow> cr_subtract T c | None \<Rightarrow> T) in if \<not> b then cr_inverse T else T)))"
        by (rule region_knows [OF p wfc wfoff v(2,3) u(3)])
      then show ?thesis
        by (simp only: getValueFromFromCondition_def C(1) off_def [symmetric] Let_def if_not_P [OF False]
            if_P [OF c(2)] option.case const.case c(1) v(1))
    next
      case no: False
      then show ?thesis using False
        by (auto simp: getValueFromFromCondition_def C off_def Let_def split: const.splits icmp_operand.splits)
    qed
  qed
qed

text \<open>A switch: the numbers whose case, or default, goes to the destination stay in the range.\<close>

lemma difference_covers:
  assumes r: "wf_range w r" and c: "wf_apint w c"
  shows "wf_range w (cr_difference r (CR_single c))" "elems r - {ival c} \<subseteq> elems (cr_difference r (CR_single c))"
proof -
  note s = CR_single_elems(1,2) [OF c]
  note i = elems_inverse [OF s(1)]
  have "covers w (elems r \<inter> elems (cr_inverse (CR_single c))) (cr_difference r (CR_single c))"
    unfolding cr_difference_def by (rule lattice_covers(1) [OF r i(2)])
  moreover have "elems r - {ival c} \<subseteq> elems r \<inter> elems (cr_inverse (CR_single c))"
    using elems_less [OF r] by (auto simp: i(1) s(2))
  ultimately show "wf_range w (cr_difference r (CR_single c))" "elems r - {ival c} \<subseteq> elems (cr_difference r (CR_single c))"
    by (auto simp: covers_def)
qed

definition switch_step :: "nat \<Rightarrow> bool \<Rightarrow> apint \<times> nat \<Rightarrow> crange \<Rightarrow> crange" where
  "switch_step BBTo DefaultCase = (\<lambda>(V, succ) EdgesVals.
     if DefaultCase then (if succ \<noteq> BBTo then cr_difference EdgesVals (CR_single V) else EdgesVals)
     else if succ = BBTo then unionWith EdgesVals (CR_single V) else EdgesVals)"

lemma switch_fold:
  assumes "wf_range w r" and "\<forall>V \<in> fst ` set cases. wf_apint w V"
  shows "wf_range w (fold (switch_step BBTo d) cases r) \<and>
    ((if d then v \<in> elems r \<and> (\<forall>(V, s) \<in> set cases. ival V = v \<longrightarrow> s = BBTo)
      else v \<in> elems r \<or> (\<exists>V. (V, BBTo) \<in> set cases \<and> ival V = v)) \<longrightarrow>
     v \<in> elems (fold (switch_step BBTo d) cases r))"
  using assms
proof (induction cases arbitrary: r)
  case (Cons c cases)
  obtain V s where c: "c = (V, s)" by (cases c)
  have wfV: "wf_apint w V" using Cons.prems c by auto
  note single = CR_single_elems(1,2) [OF wfV]
  note df = difference_covers [OF Cons.prems(1) wfV] and un = lattice_covers(2) [OF Cons.prems(1) single(1)]
  let ?r = "switch_step BBTo d c r"
  have r: "wf_range w ?r" using df(1) un Cons.prems(1) by (auto simp: switch_step_def c covers_def)
  have step: "v \<in> elems ?r" if "d" "v \<in> elems r" "ival V = v \<longrightarrow> s = BBTo"
    using that df(2) by (auto simp: switch_step_def c)
  have step': "v \<in> elems ?r" if "\<not> d" "v \<in> elems r \<or> ival V = v \<and> s = BBTo"
    using that un by (auto simp: switch_step_def c covers_def single(2))
  have IH: "wf_range w (fold (switch_step BBTo d) cases ?r) \<and>
    ((if d then v \<in> elems ?r \<and> (\<forall>(V, s) \<in> set cases. ival V = v \<longrightarrow> s = BBTo)
      else v \<in> elems ?r \<or> (\<exists>V. (V, BBTo) \<in> set cases \<and> ival V = v)) \<longrightarrow>
     v \<in> elems (fold (switch_step BBTo d) cases ?r))"
    by (rule Cons.IH [OF r]) (use Cons.prems in auto)
  show ?case using IH step step' by (cases d) (auto simp: c)
qed simp

lemma switch_edge_fold: "switch_edge w BBTo dflt cases = fold (switch_step BBTo (dflt = BBTo)) cases (CR_set w (dflt = BBTo))"
  by (simp only: switch_edge_def switch_step_def Let_def)

lemma map_of_distinct: "distinct (map fst xs) \<Longrightarrow> (k, v) \<in> set xs \<Longrightarrow> map_of xs k = Some v"
  by simp

lemma switch_edge_covers:
  assumes w: "0 < w" and wf: "\<forall>V \<in> fst ` set cases. wf_apint w V" and dist: "distinct (map (\<lambda>(V, s). ival V) cases)"
    and v: "v < 2 ^ w"
    and go: "(case map_of (map (\<lambda>(V, s). (ival V, s)) cases) v of Some s \<Rightarrow> s | None \<Rightarrow> dflt) = BBTo"
  shows "wf_range w (switch_edge w BBTo dflt cases)" and "v \<in> elems (switch_edge w BBTo dflt cases)"
proof -
  let ?m = "map (\<lambda>(V, s). (ival V, s)) cases"
  have "map fst ?m = map (\<lambda>(V, s). ival V) cases" by (induction cases) auto
  with dist have dist': "distinct (map fst ?m)" by (simp only:)
  have init: "wf_range w (CR_set w d)" for d using elems_sets [OF w] by (cases d) auto
  show "wf_range w (switch_edge w BBTo dflt cases)"
    unfolding switch_edge_fold by (rule conjunct1 [OF switch_fold [OF init wf]])
  show "v \<in> elems (switch_edge w BBTo dflt cases)"
  proof (cases "dflt = BBTo")
    case True
    have to: "s = BBTo" if "(V, s) \<in> set cases" "ival V = v" for V s
    proof -
      have "(v, s) \<in> set ?m" using that by force
      with dist' have "map_of ?m v = Some s" by (rule map_of_distinct)
      with go show ?thesis by simp
    qed
    have "v \<in> elems (CR_set w True)" using elems_sets(1) [OF w] v by simp
    then show ?thesis
      using switch_fold [OF init [of True] wf, where BBTo = BBTo and d = True and v = v] to True unfolding switch_edge_fold by auto
  next
    case False
    then obtain s where "map_of ?m v = Some s" "s = BBTo" using go by (cases "map_of ?m v") auto
    then have "(v, BBTo) \<in> set ?m" by (auto dest: map_of_SomeD)
    then have "\<exists>V. (V, BBTo) \<in> set cases \<and> ival V = v" by auto
    then show ?thesis
      using switch_fold [OF init [of False] wf, where BBTo = BBTo and d = False and v = v] False unfolding switch_edge_fold by simp
  qed
qed

lemma edge_answers:
  assumes wf: "wf_term w Term" "0 < w" and taken: "taken_edge ev w x Term BBTo"
    and typed: "\<And>v. x = IntValue v \<Longrightarrow> v < 2 ^ w"
  shows "answers ev w x (getEdgeValueLocal w Term BBTo)"
proof (cases Term)
  case (Br_cond Cond s0 s1)
  show ?thesis
  proof (cases "s0 = s1")
    case True
    then show ?thesis by (simp add: getEdgeValueLocal_def Br_cond)
  next
    case ne: False
    show ?thesis
    proof (cases Cond)
      case Cond_Val
      with taken Br_cond have "w = 1" and x: "x = IntValue 1 \<and> s0 = BBTo \<or> x = IntValue 0 \<and> s1 = BBTo" by simp_all
      have "wf_const w (ConstantInt (mk_apint 1 b))" for b using \<open>w = 1\<close> by simp
      from knows_get [OF this, of ev] have "answers ev w (IntValue b) (map_option Some (get_const (ConstantInt (mk_apint 1 b))))"
        if "b < 2" for b using that by (intro answers_Some) auto
      with x ne show ?thesis by (auto simp: getEdgeValueLocal_def Br_cond Cond_Val)
    next
      case (Cond_ICmp ICI)
      with wf Br_cond have "wf_icmp w ICI" by simp
      note c = condition_answers [OF this _ typed]
      show ?thesis using taken ne c by (auto simp: getEdgeValueLocal_def Br_cond Cond_ICmp)
    next
      case Cond_Other
      with taken ne show ?thesis by (auto simp: getEdgeValueLocal_def Br_cond)
    qed
  qed
next
  case (Switch on_Val dflt cases)
  show ?thesis
  proof (cases on_Val)
    case True
    with wf Switch have cs: "\<forall>V \<in> fst ` set cases. wf_apint w V" "distinct (map (\<lambda>(V, s). ival V) cases)" by simp_all
    obtain v where v: "v < 2 ^ w" "x = IntValue v"
      and go: "(case map_of (map (\<lambda>(V, s). (ival V, s)) cases) v of Some s \<Rightarrow> s | None \<Rightarrow> dflt) = BBTo"
      using taken Switch True by auto
    note sw = switch_edge_covers [OF wf(2) cs v(1) go]
    have "answers ev w x (map_option Some (getRange (switch_edge w BBTo dflt cases)))"
      by (rule answers_Some [OF knows_getRange [OF sw(1)]]) (simp add: v(2) sw(2))
    with True show ?thesis by (simp add: getEdgeValueLocal_def Switch)
  qed (simp add: getEdgeValueLocal_def Switch)
qed (simp_all add: getEdgeValueLocal_def)

text \<open>Merging the assumptions keeps what is known.\<close>

lemma assume_knows:
  assumes "folds_sound ev folds_ne" and "\<forall>ICI \<in> set assumptions. wf_icmp w ICI \<and> cond_holds ev w ICI x True"
    and "\<And>v. x = IntValue v \<Longrightarrow> v < 2 ^ w" and "wf_lvi w BBLV" and "x \<in> vals ev BBLV"
  shows "knows ev w {x} (mergeAssumeBlockValueConstantRange folds_ne assumptions BBLV)"
  using assms(2,4,5)
proof (induction assumptions arbitrary: BBLV)
  case Nil
  then show ?case by (simp add: knows_def)
next
  case (Cons ICI rest)
  have "answers ev w x (getValueFromFromCondition ICI True)"
    using Cons.prems(1) assms(3) by (intro condition_answers) simp_all
  then consider "getValueFromFromCondition ICI True = Some None"
    | R where "getValueFromFromCondition ICI True = Some (Some R)" "wf_lvi w R" "x \<in> vals ev R"
    by (auto simp: answers_def split: option.splits)
  then show ?case
  proof cases
    case 1
    then show ?thesis using Cons by simp
  next
    case (2 R)
    obtain t c where "mergeIn folds_ne R BBLV = Some (t, c)" "wf_lvi w t" "vals ev BBLV \<union> vals ev R \<subseteq> vals ev t"
      by (rule mergeIn_knows [OF Cons.prems(2) 2(2) assms(1)])
    with 2 Cons show ?thesis by auto
  qed
qed

lemma getEdgeValue_answers:
  assumes f: "folds_sound ev folds_ne" and wf: "wf_term w Term" "0 < w"
    and const: "\<forall>C. Val_const = Some C \<longrightarrow> wf_const w C \<and> const_value ev (Some C) = Some x"
    and taken: "taken_edge ev w x Term BBTo"
    and block: "\<forall>B. block = Some B \<longrightarrow> wf_lvi w B \<and> x \<in> vals ev B"
    and asm: "\<forall>ICI \<in> set at_term \<union> set at_cxt. wf_icmp w ICI \<and> cond_holds ev w ICI x True"
    and typed: "\<And>v. x = IntValue v \<Longrightarrow> v < 2 ^ w"
  shows "answers ev w x (getEdgeValue folds_ne Val_const w Term BBTo block pushed at_term at_cxt)"
proof (cases Val_const)
  case (Some VC)
  then show ?thesis using answers_Some [OF knows_get, of w VC x ev] const by (simp add: getEdgeValue_def)
next
  case None
  have over: "answers ev w x (Some (Some (fst (markOverdefined s))))" for s
    using knows_overdefined [OF wf(2), of ev "{x}" s] by (simp add: answers_def knows_def)
  have assumed: "knows ev w {x} (Option.bind (mergeAssumeBlockValueConstantRange folds_ne at_term B)
      (mergeAssumeBlockValueConstantRange folds_ne at_cxt))" if "block = Some B" for B
  proof -
    have "knows ev w {x} (mergeAssumeBlockValueConstantRange folds_ne at_term B)"
      by (rule assume_knows [OF f _ typed]) (use asm block that in auto)
    then obtain B' where B': "mergeAssumeBlockValueConstantRange folds_ne at_term B = Some B'" "wf_lvi w B'" "x \<in> vals ev B'"
      by (auto simp: knows_def split: option.splits)
    have "knows ev w {x} (mergeAssumeBlockValueConstantRange folds_ne at_cxt B')"
      by (rule assume_knows [OF f _ typed]) (use asm B' in auto)
    with B'(1) show ?thesis by simp
  qed
  have local: "answers ev w x (getEdgeValueLocal w Term BBTo)" by (rule edge_answers [OF wf taken typed])
  then consider "getEdgeValueLocal w Term BBTo = Some None"
    | R where "getEdgeValueLocal w Term BBTo = Some (Some R)" "wf_lvi w R" "x \<in> vals ev R"
    by (auto simp: answers_def split: option.splits)
  then show ?thesis
  proof cases
    case 1
    show ?thesis
    proof (cases block)
      case block: None
      with 1 None over show ?thesis by (simp add: getEdgeValue_def)
    next
      case (Some B)
      with 1 None answers_Some [OF assumed [OF Some], of x] show ?thesis by (simp add: getEdgeValue_def)
    qed
  next
    case (2 R)
    show ?thesis
    proof (cases "\<not> isConstantRange R \<or> isSingleElement (Rng R) \<or> block = None")
      case True
      with 2 None over show ?thesis by (auto simp: getEdgeValue_def answers_def)
    next
      case False
      then obtain B where B: "block = Some B" by blast
      obtain B' where B': "Option.bind (mergeAssumeBlockValueConstantRange folds_ne at_term B)
          (mergeAssumeBlockValueConstantRange folds_ne at_cxt) = Some B'" "wf_lvi w B'" "x \<in> vals ev B'"
        using assumed [OF B] by (auto simp: knows_def split: option.splits)
      show ?thesis
      proof (cases "isConstantRange B'")
        case True
        then have r: "wf_range w (Rng R)" "wf_range w (Rng B')" using False 2(2) B'(2) by (simp_all add: wf_lvi_def)
        note i = lattice_covers(1) [OF r]
        have "x \<in> IntValue ` elems (intersectWith (Rng R) (Rng B'))"
          using 2(3) B'(3) False True i by (auto simp: vals_def tag_tests covers_def)
        with i have "answers ev w x (map_option Some (getRange (intersectWith (Rng R) (Rng B'))))"
          by (intro answers_Some [OF knows_getRange]) (simp_all add: covers_def)
        with 2(1) None B B' False True show ?thesis by (simp add: getEdgeValue_def)
      next
        case over: False
        with 2 None B B' False show ?thesis by (simp add: getEdgeValue_def answers_def)
      qed
    qed
  qed
qed

section \<open>Merging the edges of a block\<close>

lemma merge_edges_missing: "merge_edges folds_ne over True R edges = Some None"
  by (induction edges) (auto split: option.splits)

text \<open>The loop ends with the join of all edges, unless one is missing or the join is overdefined.\<close>

lemma merge_edges_join:
  assumes f: "folds_sound ev folds_ne" and R: "wf_lvi w R" "\<not> isOverdefined R"
    and wf: "\<forall>E. Some E \<in> set edges \<longrightarrow> wf_lvi w E"
  shows "merge_edges folds_ne over False R edges = Some None \<and> None \<in> set edges \<or>
    merge_edges folds_ne over False R edges = Some (Some (foldl (mergeIn_join folds_ne) R (map the edges))) \<and> None \<notin> set edges \<or>
    (\<exists>top. isOverdefined top \<and> wf_lvi w top \<and> merge_edges folds_ne over False R edges = map_option Some (over top))"
  using R wf
proof (induction edges arbitrary: R)
  case (Cons edge edges)
  show ?case
  proof (cases edge)
    case None
    then show ?thesis by (simp add: merge_edges_missing)
  next
    case (Some E)
    then have E: "wf_lvi w E" using Cons.prems(3) by simp
    obtain c where m: "mergeIn folds_ne E R = Some (mergeIn_join folds_ne R E, c)" "wf_lvi w (mergeIn_join folds_ne R E)"
      by (rule mergeIn_knows [OF Cons.prems(1) E f])
    show ?thesis
    proof (cases "isOverdefined (mergeIn_join folds_ne R E)")
      case True
      with m Some show ?thesis by auto
    next
      case False
      with Cons.IH [OF m(2) False] Cons.prems(3) m(1) Some show ?thesis by simp
    qed
  qed
qed simp

text \<open>What the block knows then: every value that some edge allows, apart from the null pointer when it
  was found not to be null.\<close>

lemma merge_edges_knows:
  assumes f: "folds_sound ev folds_ne" and w: "0 < w" and wf: "\<forall>E. Some E \<in> set edges \<longrightarrow> wf_lvi w E"
    and over: "\<And>top. isOverdefined top \<Longrightarrow> wf_lvi w top \<Longrightarrow> knows ev w Y (over top)"
  shows "\<exists>res. merge_edges folds_ne over False new_LVILatticeVal edges = Some res \<and> (res = None \<longrightarrow> None \<in> set edges) \<and>
    (\<forall>R. res = Some R \<longrightarrow> wf_lvi w R \<and> (\<forall>E. Some E \<in> set edges \<longrightarrow> vals ev E \<inter> Y \<subseteq> vals ev R))"
proof -
  let ?J = "foldl (mergeIn_join folds_ne) new_LVILatticeVal (map the edges)"
  have new: "wf_lvi w new_LVILatticeVal \<and> folds_sound ev folds_ne" using f w by simp
  have oks: "wf_lvi w b \<and> folds_sound ev folds_ne" if no: "None \<notin> set edges" and b: "b \<in> set (map the edges)" for b
  proof -
    obtain e where e: "e \<in> set edges" "b = the e" using b by auto
    with no have "Some b \<in> set edges" by (cases e) auto
    with wf f show ?thesis by blast
  qed
  have J: "wf_lvi w ?J" "vals ev E \<subseteq> vals ev ?J" if "None \<notin> set edges" "Some E \<in> set edges \<or> E = new_LVILatticeVal" for E
  proof -
    show "wf_lvi w ?J" using lvi.joins_ok [OF new oks [OF that(1)]] by blast
    have "E \<in> set (map the edges) \<or> E = new_LVILatticeVal" using that(2) by force
    moreover have "vals ev new_LVILatticeVal \<union> (\<Union>b \<in> set (map the edges). vals ev b) \<subseteq> vals ev ?J"
      by (rule lvi.joins_cover [OF new oks [OF that(1)]])
    ultimately show "vals ev E \<subseteq> vals ev ?J" by blast
  qed
  consider "merge_edges folds_ne over False new_LVILatticeVal edges = Some None" "None \<in> set edges"
    | "merge_edges folds_ne over False new_LVILatticeVal edges = Some (Some ?J)" "None \<notin> set edges"
    | top where "isOverdefined top" "wf_lvi w top"
      "merge_edges folds_ne over False new_LVILatticeVal edges = map_option Some (over top)"
    using merge_edges_join [OF f, of w new_LVILatticeVal edges over] new wf by auto
  then show ?thesis
  proof cases
    case 2
    then show ?thesis using J [OF 2(2)] by (intro exI [of _ "Some ?J"]) auto
  next
    case (3 top)
    then show ?thesis using over [OF 3(1,2)] by (auto simp: knows_def split: option.splits)
  qed auto
qed

section \<open>Instructions\<close>

text \<open>The results an instruction can have: none for a division by zero or a shift past the width, any
  for the instructions that the analysis does not look into.\<close>

definition instr_result :: "opcode \<Rightarrow> nat \<Rightarrow> nat \<Rightarrow> nat \<Rightarrow> nat \<Rightarrow> nat \<Rightarrow> bool" where
  "instr_result op w d x y z =
     (case op of
        I_Add \<Rightarrow> z = (x + y) mod 2 ^ w
      | I_Sub \<Rightarrow> z = (x + (2 ^ w - y)) mod 2 ^ w
      | I_Mul \<Rightarrow> z = x * y mod 2 ^ w
      | I_UDiv \<Rightarrow> y \<noteq> 0 \<and> z = x div y
      | I_Shl \<Rightarrow> y < w \<and> z = x * 2 ^ y mod 2 ^ w
      | I_LShr \<Rightarrow> y < w \<and> z = x div 2 ^ y
      | I_And \<Rightarrow> z = x AND y
      | I_Or \<Rightarrow> z = x OR y
      | I_Trunc \<Rightarrow> z = x mod 2 ^ d
      | I_SExt \<Rightarrow> z = ival (ap_sext (mk_apint w x) d)
      | I_ZExt \<Rightarrow> z = x
      | I_BitCast \<Rightarrow> z = x
      | _ \<Rightarrow> True)"

definition instr_widths :: "opcode \<Rightarrow> nat \<Rightarrow> nat \<Rightarrow> bool" where
  "instr_widths op w d \<longleftrightarrow>
     (if op = I_Trunc then 0 < d \<and> d < w
      else if op = I_SExt \<or> op = I_ZExt then w < d
      else if op = I_Other then 0 < d else d = w)"

text \<open>Where the multiplication and the division of \<open>APInt\<close> that the ranges rest on are right.\<close>

definition arithmetic_exact :: "opcode \<Rightarrow> nat \<Rightarrow> nat \<Rightarrow> nat \<Rightarrow> bool" where
  "arithmetic_exact op w d y \<longleftrightarrow>
     (if op = I_Mul then w \<le> 64 else if op = I_UDiv then w \<le> 128 \<or> y < 2 ^ 64
      else if op = I_Trunc then w \<le> 128 \<or> d < 64 else True)"

lemma covers_marked: "covers w X r \<Longrightarrow> z \<in> X \<Longrightarrow> knows ev w {IntValue z} (map_option fst (markConstantRange r new_LVILatticeVal))"
  unfolding covers_def by (rule knows_mono [OF knows_mark]) auto

lemma transfer_knows:
  assumes L: "wf_lvi w LHSVal" "IntValue x \<in> vals ev LHSVal" and d: "instr_widths op w d" "0 < w"
    and c: "\<forall>c. RHS = Some c \<longrightarrow> wf_apint w c \<and> y = ival c"
    and z: "instr_result op w d x y z" and exact: "arithmetic_exact op w d y"
  shows "knows ev d {IntValue z} (solveBlockValueConstantRange op d LHSVal RHS)"
proof (cases "\<not> isConstantRange LHSVal \<or> isBinaryOperator op \<and> RHS = None")
  case True
  have "0 < d" using d by (auto simp: instr_widths_def split: if_splits)
  moreover have "solveBlockValueConstantRange op d LHSVal RHS = Some (fst (markOverdefined new_LVILatticeVal))"
    using True unfolding solveBlockValueConstantRange_def Let_def by (cases "isConstantRange LHSVal") simp_all
  ultimately show ?thesis by (simp add: knows_overdefined)
next
  case False
  define r where "r = Rng LHSVal"
  have r: "wf_range w r" "x \<in> elems r" using False L by (auto simp: wf_lvi_def r_def vals_def tag_tests)
  define s where "s = (if isBinaryOperator op then CR_single (the RHS) else CR_set 1 True)"
  have s: "wf_range w s" "elems s = {y}" "y \<in> elems s" if "isBinaryOperator op"
    using that False c CR_single_elems(1,2) by (auto simp: s_def)
  have tests: "(\<not> isConstantRange LHSVal) = False" "(isBinaryOperator op \<and> RHS = None) = False" using False by auto
  have res: "solveBlockValueConstantRange op d LHSVal RHS =
    (let mark = (\<lambda>r. map_option fst (markConstantRange r new_LVILatticeVal)) in case op of
             I_Add \<Rightarrow> mark (cr_add r s) | I_Sub \<Rightarrow> mark (cr_sub r s) | I_Mul \<Rightarrow> mark (cr_multiply r s)
           | I_UDiv \<Rightarrow> mark (cr_udiv r s) | I_Shl \<Rightarrow> mark (cr_shl r s) | I_LShr \<Rightarrow> mark (cr_lshr r s)
           | I_Trunc \<Rightarrow> mark (cr_truncate r d) | I_SExt \<Rightarrow> mark (signExtend r d) | I_ZExt \<Rightarrow> mark (zeroExtend r d)
           | I_BitCast \<Rightarrow> mark r | I_And \<Rightarrow> mark (binaryAnd r s) | I_Or \<Rightarrow> mark (binaryOr r s)
           | _ \<Rightarrow> Some (fst (markOverdefined new_LVILatticeVal)))"
    by (simp only: solveBlockValueConstantRange_def Let_def r_def s_def tests if_False)
  have over: "knows ev d {IntValue z} (Some (fst (markOverdefined new_LVILatticeVal)))"
    by (rule knows_overdefined) (use d in \<open>auto simp: instr_widths_def split: if_splits\<close>)
  show ?thesis
  proof (cases op)
    case I_Add
    have s: "wf_range w s" "y \<in> elems s" "elems s = {y}" and d: "d = w" using s d I_Add by (simp_all add: isBinaryOperator_def instr_widths_def)
    have "z \<in> {(x + y) mod 2 ^ w |x y. x \<in> elems r \<and> y \<in> elems s}"
      using z r(2) s(2) by (auto simp: I_Add instr_result_def)
    then show ?thesis
      using covers_marked [OF cr_add_covers [OF r(1) s(1)], of z ev] unfolding res by (simp add: I_Add d)
  next
    case I_Sub
    have s: "wf_range w s" "y \<in> elems s" "elems s = {y}" and d: "d = w" using s d I_Sub by (simp_all add: isBinaryOperator_def instr_widths_def)
    have "z \<in> {(x + (2 ^ w - y)) mod 2 ^ w |x y. x \<in> elems r \<and> y \<in> elems s}"
      using z r(2) s(2) by (auto simp: I_Sub instr_result_def)
    then show ?thesis
      using covers_marked [OF cr_sub_covers [OF r(1) s(1)], of z ev] unfolding res by (simp add: I_Sub d)
  next
    case I_Mul
    have s: "wf_range w s" "y \<in> elems s" "elems s = {y}" and d: "d = w" using s d I_Mul by (simp_all add: isBinaryOperator_def instr_widths_def)
    have "z \<in> {x * y mod 2 ^ w |x y. x \<in> elems r \<and> y \<in> elems s}"
      using z r(2) s(2) by (auto simp: I_Mul instr_result_def)
    then show ?thesis
      using covers_marked [OF cr_multiply_covers [OF r(1) s(1)], of z ev] exact unfolding res by (simp add: I_Mul d arithmetic_exact_def)
  next
    case I_UDiv
    have s: "wf_range w s" "y \<in> elems s" "elems s = {y}" and d: "d = w" using s d I_UDiv by (simp_all add: isBinaryOperator_def instr_widths_def)
    have "z \<in> {x div y |x y. x \<in> elems r \<and> y \<in> elems s \<and> y \<noteq> 0}"
      using z r(2) s(2) by (auto simp: I_UDiv instr_result_def)
    then show ?thesis
      using covers_marked [OF cr_udiv_covers [OF r(1) s(1)], of z ev] exact unfolding res by (simp add: I_UDiv d s(3) arithmetic_exact_def)
  next
    case I_Shl
    have s: "wf_range w s" "y \<in> elems s" "elems s = {y}" and d: "d = w" using s d I_Shl by (simp_all add: isBinaryOperator_def instr_widths_def)
    have "z \<in> {(if y < w then x * 2 ^ y mod 2 ^ w else 0) |x y. x \<in> elems r \<and> y \<in> elems s}"
      using z r(2) s(2) by (auto simp: I_Shl instr_result_def)
    then show ?thesis
      using covers_marked [OF cr_shl_covers [OF r(1) s(1)], of z ev] unfolding res by (simp add: I_Shl d)
  next
    case I_LShr
    have s: "wf_range w s" "y \<in> elems s" "elems s = {y}" and d: "d = w" using s d I_LShr by (simp_all add: isBinaryOperator_def instr_widths_def)
    have "z \<in> {x div 2 ^ y |x y. x \<in> elems r \<and> y \<in> elems s}"
      using z r(2) s(2) by (auto simp: I_LShr instr_result_def)
    then show ?thesis
      using covers_marked [OF cr_lshr_covers [OF r(1) s(1)], of z ev] unfolding res by (simp add: I_LShr d)
  next
    case I_And
    have s: "wf_range w s" "y \<in> elems s" "elems s = {y}" and d: "d = w" using s d I_And by (simp_all add: isBinaryOperator_def instr_widths_def)
    have "z \<in> {x AND y |x y. x \<in> elems r \<and> y \<in> elems s}"
      using z r(2) s(2) by (auto simp: I_And instr_result_def)
    then show ?thesis
      using covers_marked [OF binaryAnd_covers [OF r(1) s(1)], of z ev] unfolding res by (simp add: I_And d)
  next
    case I_Or
    have s: "wf_range w s" "y \<in> elems s" "elems s = {y}" and d: "d = w" using s d I_Or by (simp_all add: isBinaryOperator_def instr_widths_def)
    have "z \<in> {x OR y |x y. x \<in> elems r \<and> y \<in> elems s}"
      using z r(2) s(2) by (auto simp: I_Or instr_result_def)
    then show ?thesis
      using covers_marked [OF binaryOr_covers [OF r(1) s(1)], of z ev] unfolding res by (simp add: I_Or d)
  next
    case I_Trunc
    then have "0 < d" "d < w" "z \<in> (\<lambda>v. v mod 2 ^ d) ` elems r"
      using d z r(2) by (simp_all add: instr_widths_def instr_result_def)
    then show ?thesis using covers_marked [OF cr_truncate_covers [OF r(1)], of d z ev] exact unfolding res by (simp add: I_Trunc arithmetic_exact_def)
  next
    case I_SExt
    then have wd: "w < d" using d by (simp add: instr_widths_def)
    have "z = sxt w d x"
      using z ival_sext(1) [of w "mk_apint w x" d] elems_less [OF r] d(2) wd by (simp add: I_SExt instr_result_def)
    then have "z \<in> sxt w d ` elems r" using r(2) by blast
    then show ?thesis using covers_marked [OF signExtend_covers [OF r(1) wd], of z ev] unfolding res by (simp add: I_SExt)
  next
    case I_ZExt
    then have "w < d" "z \<in> elems r" using d z r(2) by (simp_all add: instr_widths_def instr_result_def)
    then show ?thesis using covers_marked [OF zeroExtend_covers [OF r(1)], of d z ev] unfolding res by (simp add: I_ZExt)
  next
    case I_BitCast
    then have "d = w" "z \<in> elems r" using d z r(2) by (simp_all add: instr_widths_def instr_result_def)
    then show ?thesis using covers_marked [of w "elems r" r z ev] r(1) unfolding res by (simp add: I_BitCast covers_def)
  qed (unfold res, simp_all add: over)
qed

section \<open>Properties\<close>

text \<open>C5: whenever control takes an edge while the value is \<open>x\<close>, \<open>getEdgeValue\<close> violates no assertion, and
  if it answers, its answer allows \<open>x\<close>: for conditional branches on the value, on a comparison of it with anything (the
  range checking idiom included) and on any other condition, for switches, and with the assumptions that hold there.
  Two uses of \<open>undef\<close> are left out, an \<open>undef\<close> as the value itself and a comparison of the value with it for equality:
  there the code answers the undefined state.\<close>

theorem getEdgeValue_sound:
  assumes "folds_sound ev folds_ne" and "wf_term w Term" "0 < w"
    and "\<forall>C. Val_const = Some C \<longrightarrow> wf_const w C \<and> const_value ev (Some C) = Some x"
    and "taken_edge ev w x Term BBTo"
    and "\<forall>B. block = Some B \<longrightarrow> wf_lvi w B \<and> x \<in> vals ev B"
    and "\<forall>ICI \<in> set at_term \<union> set at_cxt. wf_icmp w ICI \<and> cond_holds ev w ICI x True"
    and "\<And>v. x = IntValue v \<Longrightarrow> v < 2 ^ w"
  shows "case getEdgeValue folds_ne Val_const w Term BBTo block pushed at_term at_cxt of
      None \<Rightarrow> False | Some None \<Rightarrow> True | Some (Some R) \<Rightarrow> wf_lvi w R \<and> x \<in> vals ev R"
  using getEdgeValue_answers [OF assms] by (simp only: answers_def)

theorem getEdgeValue_sound_witness:
  "case getEdgeValue (\<lambda>c d. False) None 8
       (Br_cond (Cond_ICmp \<lparr>Pred = ICMP_ULT, Op0 = Op_AddVal (mk_apint 8 250), Op1 = Some (ConstantInt (mk_apint 8 10))\<rparr>) 1 2)
       1 None False [] [] of
     None \<Rightarrow> False | Some None \<Rightarrow> True | Some (Some R) \<Rightarrow> wf_lvi 8 R \<and> IntValue 7 \<in> vals OtherValue R"
proof (rule getEdgeValue_sound)
  show "taken_edge OtherValue 8 (IntValue 7)
    (Br_cond (Cond_ICmp \<lparr>Pred = ICMP_ULT, Op0 = Op_AddVal (mk_apint 8 250), Op1 = Some (ConstantInt (mk_apint 8 10))\<rparr>) 1 2) 1"
    by (simp add: cond_holds_def ult_def)
qed (simp_all add: folds_sound_def wf_icmp_def predicate_simps)

text \<open>C36: the value computed for a PHI node, or for a value that is live into a block, violates no
  assertion and, once no edge is missing, allows everything that some edge allows; only the null
  pointer may be left out, and only where the code has found the value not to be null.\<close>

theorem merged_block_values:
  assumes "folds_sound ev folds_ne" and "0 < w" and "\<forall>E. Some E \<in> set edges \<longrightarrow> wf_lvi w E" and "wf_const w (OtherConstant n)"
  shows "(\<exists>res. solveBlockValuePHINode folds_ne edges = Some res \<and> (res = None \<longrightarrow> None \<in> set edges) \<and>
      (\<forall>R. res = Some R \<longrightarrow> wf_lvi w R \<and> (\<forall>E. Some E \<in> set edges \<longrightarrow> vals ev E \<subseteq> vals ev R))) \<and>
    (\<exists>res. solveBlockValueNonLocal folds_ne NotNull (OtherConstant n) False edges = Some res \<and> (res = None \<longrightarrow> None \<in> set edges) \<and>
      (\<forall>R. res = Some R \<longrightarrow> wf_lvi w R \<and>
        (\<forall>E. Some E \<in> set edges \<longrightarrow> vals ev E \<inter> (if NotNull then {v. v \<noteq> ev n} else UNIV) \<subseteq> vals ev R)))"
proof (rule conjI)
  have top: "knows ev w UNIV (Some s)" if "isOverdefined s" "wf_lvi w s" for s
    using that by (simp add: knows_def vals_def tag_tests)
  show "\<exists>res. solveBlockValuePHINode folds_ne edges = Some res \<and> (res = None \<longrightarrow> None \<in> set edges) \<and>
      (\<forall>R. res = Some R \<longrightarrow> wf_lvi w R \<and> (\<forall>E. Some E \<in> set edges \<longrightarrow> vals ev E \<subseteq> vals ev R))"
    using merge_edges_knows [OF assms(1-3) top] by (simp add: solveBlockValuePHINode_def)
  have "knows ev w {v. v \<noteq> ev n} (getNot (OtherConstant n))"
    using knows_getNot [OF assms(4), of ev] by (rule knows_mono) auto
  then have over: "knows ev w (if NotNull then {v. v \<noteq> ev n} else UNIV) (if NotNull then getNot (OtherConstant n) else Some s)"
    if "isOverdefined s" "wf_lvi w s" for s
    using top that by simp
  show "\<exists>res. solveBlockValueNonLocal folds_ne NotNull (OtherConstant n) False edges = Some res \<and> (res = None \<longrightarrow> None \<in> set edges) \<and>
      (\<forall>R. res = Some R \<longrightarrow> wf_lvi w R \<and>
        (\<forall>E. Some E \<in> set edges \<longrightarrow> vals ev E \<inter> (if NotNull then {v. v \<noteq> ev n} else UNIV) \<subseteq> vals ev R))"
    unfolding solveBlockValueNonLocal_def if_False by (rule merge_edges_knows [OF assms(1-3) over])
qed

theorem merged_block_values_witness:
  "\<exists>res. solveBlockValuePHINode (\<lambda>c d. False) [Some new_LVILatticeVal, None] = Some res"
  using merged_block_values [where ev = OtherValue and folds_ne = "\<lambda>c d. False" and w = 8 and n = 0
      and edges = "[Some new_LVILatticeVal, None]"]
  by (simp add: folds_sound_def) blast

text \<open>C24: the state computed for an instruction from the range of its first operand allows every result
  the instruction can have, whatever the instruction; for a multiplication at widths up to 64 bits, for a division
  up to 128 bits or by a number below \<open>2 ^ 64\<close>, and for a truncation from at most 128 bits or to fewer than 64,
  which is where the multiplication and the division of \<open>APInt\<close> are right.\<close>

theorem solveBlockValueConstantRange_sound:
  assumes "wf_lvi w LHSVal" and "IntValue x \<in> vals ev LHSVal" and "instr_widths op w d" and "0 < w"
    and "\<forall>c. RHS = Some c \<longrightarrow> wf_apint w c \<and> y = ival c" and "instr_result op w d x y z"
    and "arithmetic_exact op w d y"
  shows "\<exists>R. solveBlockValueConstantRange op d LHSVal RHS = Some R \<and> wf_lvi d R \<and> IntValue z \<in> vals ev R"
  using transfer_knows [OF assms] by (auto simp: knows_def split: option.splits)

theorem solveBlockValueConstantRange_sound_witness:
  "\<exists>R. solveBlockValueConstantRange I_UDiv 8
      \<lparr>Tag = Tag_constantrange, Val = None, Rng = CR (mk_apint 8 10) (mk_apint 8 20)\<rparr> (Some (mk_apint 8 3)) = Some R \<and>
    wf_lvi 8 R \<and> IntValue 5 \<in> vals OtherValue R"
proof (rule solveBlockValueConstantRange_sound)
  have "wf_range 8 (CR (mk_apint 8 10) (mk_apint 8 20))" by (simp add: wf_range_def wf_apint_def apint_eq_iff)
  then show "wf_lvi 8 \<lparr>Tag = Tag_constantrange, Val = None, Rng = CR (mk_apint 8 10) (mk_apint 8 20)\<rparr>"
    by (simp add: wf_lvi_def tag_tests isEmptySet_def apint_eq_iff)
  show "IntValue 15 \<in> vals OtherValue \<lparr>Tag = Tag_constantrange, Val = None, Rng = CR (mk_apint 8 10) (mk_apint 8 20)\<rparr>"
    by (simp add: vals_def elems_def getBitWidth_def cr_contains_def isWrappedSet_def ugt_def ule_def ult_def apint_eq_iff)
  show "instr_result I_UDiv 8 8 15 3 5" by (simp add: instr_result_def)
  show "arithmetic_exact I_UDiv 8 8 3" by (simp add: arithmetic_exact_def)
qed (auto simp: instr_widths_def)

end
