(* ===== verification/ImmutableTree.thy ===== *)
theory ImmutableTree
  imports LLVM_Prelude "HOL-Library.Monad_Syntax"
begin

text \<open>
  The persistent AVL tree of \<open>include/llvm/ADT/ImmutableSet.h\<close> (\<open>ImutAVLTree\<close>, \<open>ImutAVLFactory\<close> and the
  iterators) and the sets and maps built on it here and in \<open>ImmutableMap.h\<close>.

  A node is never changed once a tree has been handed out, so a tree is a value: a null pointer is
  \<open>TNull\<close>. \<open>ImutInfo\<close> is the one for keys with \<open>std::equal_to\<close> and \<open>std::less\<close>, whose values are
  pairs of a key and data (for a set, the data is the constant \<open>true\<close>, here the unit). A failed
  assertion, or the use of a null tree, is \<open>None\<close>. Reference counts, the node allocator and the
  canonicalisation cache are not modelled.
\<close>

section \<open>Trees\<close>

datatype ('k, 'd) imut_tree =
    TNull
  | TNode "('k, 'd) imut_tree" "'k \<times> 'd" nat "('k, 'd) imut_tree"

fun getHeight :: "('k, 'd) imut_tree \<Rightarrow> nat" where
  "getHeight TNull = 0"
| "getHeight (TNode l v h r) = h"

fun tree_find :: "'k::linorder \<Rightarrow> ('k, 'd) imut_tree \<Rightarrow> ('k, 'd) imut_tree" where
  "tree_find K TNull = TNull"
| "tree_find K (TNode l v h r) =
     (if K = fst v then TNode l v h r
      else if K < fst v then tree_find K l
      else tree_find K r)"

fun getMaxElement :: "('k, 'd) imut_tree \<Rightarrow> ('k \<times> 'd) option" where
  "getMaxElement TNull = None"
| "getMaxElement (TNode l v h TNull) = Some v"
| "getMaxElement (TNode l v h r) = getMaxElement r"

fun tree_size :: "('k, 'd) imut_tree \<Rightarrow> nat" where
  "tree_size TNull = 0"
| "tree_size (TNode l v h r) = 1 + tree_size l + tree_size r"

definition tree_contains :: "('k::linorder, 'd) imut_tree \<Rightarrow> 'k \<Rightarrow> bool" where
  "tree_contains T K \<longleftrightarrow> tree_find K T \<noteq> TNull"

text \<open>\<open>foreach\<close> with the state of the callback passed along.\<close>

fun tree_foreach :: "('k \<times> 'd \<Rightarrow> 's \<Rightarrow> 's) \<Rightarrow> ('k, 'd) imut_tree \<Rightarrow> 's \<Rightarrow> 's" where
  "tree_foreach C TNull s = s"
| "tree_foreach C (TNode l v h r) s = tree_foreach C r (C v (tree_foreach C l s))"

text \<open>\<open>validateTree\<close> returns the height, or fails one of its assertions. In the last one the comparison with the
  right child is evaluated only if there is no right child, and then reads the value of a null pointer.\<close>

definition less_than_right :: "('k::linorder \<times> 'd) \<Rightarrow> ('k, 'd) imut_tree \<Rightarrow> bool option" where
  "less_than_right v r = (case r of TNull \<Rightarrow> None | TNode _ rv _ _ \<Rightarrow> Some (fst v < fst rv))"

fun validateTree :: "('k::linorder, 'd) imut_tree \<Rightarrow> nat option" where
  "validateTree TNull = None"
| "validateTree (TNode l v h r) =
     do {
       HL \<leftarrow> (if l \<noteq> TNull then validateTree l else Some 0);
       HR \<leftarrow> (if r \<noteq> TNull then validateTree r else Some 0);
       if h \<noteq> (if HL > HR then HL else HR) + 1 then None
       else if \<not> (if HL > HR then HL - HR else HR - HL) \<le> 2 then None
       else if \<not> (case l of TNull \<Rightarrow> True | TNode _ lv _ _ \<Rightarrow> fst lv < fst v) then None
       else do {
         right_or_less \<leftarrow> (if r \<noteq> TNull then Some True else less_than_right v r);
         if \<not> (\<not> right_or_less) then None else Some h
       }
     }"

text \<open>The digest is a sum, modulo \<open>2 ^ 32\<close>, of the hashes of the values; \<open>hash\<close> stands for
  \<open>FoldingSetNodeID::ComputeHash\<close> of a profile.\<close>

fun computeDigest :: "('k \<times> 'd \<Rightarrow> u32) \<Rightarrow> ('k, 'd) imut_tree \<Rightarrow> u32" where
  "computeDigest hash TNull = 0"
| "computeDigest hash (TNode l v h r) = computeDigest hash l + hash v + computeDigest hash r"

section \<open>The factory\<close>

definition incrementHeight :: "('k, 'd) imut_tree \<Rightarrow> ('k, 'd) imut_tree \<Rightarrow> nat" where
  "incrementHeight L R = (let hl = getHeight L; hr = getHeight R in (if hl > hr then hl else hr) + 1)"

definition createNode :: "('k, 'd) imut_tree \<Rightarrow> 'k \<times> 'd \<Rightarrow> ('k, 'd) imut_tree \<Rightarrow> ('k, 'd) imut_tree" where
  "createNode L V R = TNode L V (incrementHeight L R) R"

definition balanceTree ::
    "('k, 'd) imut_tree \<Rightarrow> 'k \<times> 'd \<Rightarrow> ('k, 'd) imut_tree \<Rightarrow> ('k, 'd) imut_tree option" where
  "balanceTree L V R =
     (let hl = getHeight L; hr = getHeight R in
      if hl > hr + 2 then
        (case L of
           TNull \<Rightarrow> None
         | TNode LL LV _ LR \<Rightarrow>
             if getHeight LL \<ge> getHeight LR then Some (createNode LL LV (createNode LR V R))
             else
               (case LR of
                  TNull \<Rightarrow> None
                | TNode LRL LRV _ LRR \<Rightarrow> Some (createNode (createNode LL LV LRL) LRV (createNode LRR V R))))
      else if hr > hl + 2 then
        (case R of
           TNull \<Rightarrow> None
         | TNode RL RV _ RR \<Rightarrow>
             if getHeight RR \<ge> getHeight RL then Some (createNode (createNode L V RL) RV RR)
             else
               (case RL of
                  TNull \<Rightarrow> None
                | TNode RLL RLV _ RLR \<Rightarrow> Some (createNode (createNode L V RLL) RLV (createNode RLR RV RR))))
      else Some (createNode L V R))"

fun add_internal :: "'k \<times> 'd \<Rightarrow> ('k::linorder, 'd) imut_tree \<Rightarrow> ('k, 'd) imut_tree option" where
  "add_internal V TNull = Some (createNode TNull V TNull)"
| "add_internal V (TNode l x h r) =
     (if fst V = fst x then Some (createNode l V r)
      else if fst V < fst x then do { l' \<leftarrow> add_internal V l; balanceTree l' x r }
      else do { r' \<leftarrow> add_internal V r; balanceTree l x r' })"

text \<open>The removed node, an output parameter in the code, is the second component.\<close>

fun removeMinBinding :: "('k, 'd) imut_tree \<Rightarrow> (('k, 'd) imut_tree \<times> 'k \<times> 'd) option" where
  "removeMinBinding TNull = None"
| "removeMinBinding (TNode l v h r) =
     (if l = TNull then Some (r, v)
      else do { (l', removed) \<leftarrow> removeMinBinding l; t \<leftarrow> balanceTree l' v r; Some (t, removed) })"

definition combineTrees :: "('k, 'd) imut_tree \<Rightarrow> ('k, 'd) imut_tree \<Rightarrow> ('k, 'd) imut_tree option" where
  "combineTrees L R =
     (if L = TNull then Some R
      else if R = TNull then Some L
      else do { (newRight, OldNode) \<leftarrow> removeMinBinding R; balanceTree L OldNode newRight })"

fun remove_internal :: "'k \<Rightarrow> ('k::linorder, 'd) imut_tree \<Rightarrow> ('k, 'd) imut_tree option" where
  "remove_internal K TNull = Some TNull"
| "remove_internal K (TNode l x h r) =
     (if K = fst x then combineTrees l r
      else if K < fst x then do { l' \<leftarrow> remove_internal K l; balanceTree l' x r }
      else do { r' \<leftarrow> remove_internal K r; balanceTree l x r' })"

section \<open>Sets and maps\<close>

type_synonym 'k ImmutableSet = "('k, unit) imut_tree"

definition iset_add :: "'k::linorder ImmutableSet \<Rightarrow> 'k \<Rightarrow> 'k ImmutableSet option" where
  "iset_add Old V = add_internal (V, ()) Old"

definition iset_remove :: "'k::linorder ImmutableSet \<Rightarrow> 'k \<Rightarrow> 'k ImmutableSet option" where
  "iset_remove Old V = remove_internal V Old"

definition isSingleton :: "'k ImmutableSet \<Rightarrow> bool" where
  "isSingleton S \<longleftrightarrow> getHeight S = 1"

definition imap_add :: "('k::linorder, 'd) imut_tree \<Rightarrow> 'k \<Rightarrow> 'd \<Rightarrow> ('k, 'd) imut_tree option" where
  "imap_add Old K D = add_internal (K, D) Old"

definition imap_remove :: "('k::linorder, 'd) imut_tree \<Rightarrow> 'k \<Rightarrow> ('k, 'd) imut_tree option" where
  "imap_remove Old K = remove_internal K Old"

definition imap_lookup :: "('k::linorder, 'd) imut_tree \<Rightarrow> 'k \<Rightarrow> 'd option" where
  "imap_lookup M K = (case tree_find K M of TNull \<Rightarrow> None | TNode _ v _ _ \<Rightarrow> Some (snd v))"

section \<open>Order and balance\<close>

fun inorder :: "('k, 'd) imut_tree \<Rightarrow> ('k \<times> 'd) list" where
  "inorder TNull = []"
| "inorder (TNode l v h r) = inorder l @ v # inorder r"

abbreviation keys :: "('k, 'd) imut_tree \<Rightarrow> 'k list" where
  "keys t \<equiv> map fst (inorder t)"

definition ordered :: "('k::linorder, 'd) imut_tree \<Rightarrow> bool" where
  "ordered t \<longleftrightarrow> sorted_wrt (<) (keys t)"

text \<open>The heights are right, and those of siblings differ by at most two.\<close>

fun balanced :: "('k, 'd) imut_tree \<Rightarrow> bool" where
  "balanced TNull \<longleftrightarrow> True"
| "balanced (TNode l v h r) \<longleftrightarrow> balanced l \<and> balanced r \<and> h = max (getHeight l) (getHeight r) + 1 \<and>
     getHeight l \<le> getHeight r + 2 \<and> getHeight r \<le> getHeight l + 2"

lemma sorted_wrt_mid:
  "sorted_wrt (<) (xs @ y # ys) \<longleftrightarrow> sorted_wrt (<) xs \<and> sorted_wrt (<) ys \<and> (\<forall>k \<in> set xs. k < y) \<and> (\<forall>k \<in> set ys. y < k)"
  for y :: "'a::order"
  by (auto simp: sorted_wrt_append intro: order_less_trans)

lemma ordered_simps [simp]:
  "ordered TNull"
  "ordered (TNode l v h r) \<longleftrightarrow> ordered l \<and> ordered r \<and> (\<forall>k \<in> set (keys l). k < fst v) \<and> (\<forall>k \<in> set (keys r). fst v < k)"
  by (auto simp: ordered_def sorted_wrt_mid)

lemma getHeight_createNode [simp]: "getHeight (createNode L V R) = max (getHeight L) (getHeight R) + 1"
  by (auto simp: createNode_def incrementHeight_def Let_def)

lemma createNode_simps [simp]:
  "inorder (createNode L V R) = inorder L @ V # inorder R"
  "balanced (createNode L V R) \<longleftrightarrow> balanced L \<and> balanced R \<and>
     getHeight L \<le> getHeight R + 2 \<and> getHeight R \<le> getHeight L + 2"
  by (auto simp: createNode_def incrementHeight_def Let_def)

lemma createNode_not_null [simp]: "createNode L V R \<noteq> TNull"
  by (simp add: createNode_def)

lemma getHeight_0: "balanced t \<Longrightarrow> getHeight t = 0 \<longleftrightarrow> t = TNull"
  by (cases t) auto

text \<open>Rebalancing after one subtree has grown or shrunk by one.\<close>

lemma balanceTree_spec:
  assumes "balanced L" "balanced R" "getHeight L \<le> getHeight R + 3" "getHeight R \<le> getHeight L + 3"
  obtains t where "balanceTree L V R = Some t" "balanced t" "inorder t = inorder L @ V # inorder R"
    "getHeight t \<le> max (getHeight L) (getHeight R) + 1" "max (getHeight L) (getHeight R) \<le> getHeight t"
    "getHeight L \<le> getHeight R + 2 \<Longrightarrow> getHeight R \<le> getHeight L + 2 \<Longrightarrow> getHeight t = max (getHeight L) (getHeight R) + 1"
proof -
  consider "getHeight L \<le> getHeight R + 2" "getHeight R \<le> getHeight L + 2"
    | "getHeight L = getHeight R + 3" | "getHeight R = getHeight L + 3"
    using assms(3,4) by linarith
  then show thesis
  proof cases
    case 1
    then show thesis using assms by (intro that [of "createNode L V R"]) (auto simp: balanceTree_def Let_def)
  next
    case 2
    then obtain LL LV h LR where L: "L = TNode LL LV h LR" using assms(1) by (cases L) auto
    show thesis
    proof (cases "getHeight LL \<ge> getHeight LR")
      case True
      then show thesis using assms(1,2) 2
        by (intro that [of "createNode LL LV (createNode LR V R)"]) (auto simp: balanceTree_def Let_def L)
    next
      case False
      then obtain LRL LRV h' LRR where LR: "LR = TNode LRL LRV h' LRR" by (cases LR) auto
      show thesis using assms(1,2) 2 False
        by (intro that [of "createNode (createNode LL LV LRL) LRV (createNode LRR V R)"])
          (auto simp: balanceTree_def Let_def L LR)
    qed
  next
    case 3
    then obtain RL RV h RR where R: "R = TNode RL RV h RR" using assms(2) by (cases R) auto
    show thesis
    proof (cases "getHeight RR \<ge> getHeight RL")
      case True
      then show thesis using assms(1,2) 3
        by (intro that [of "createNode (createNode L V RL) RV RR"]) (auto simp: balanceTree_def Let_def R)
    next
      case False
      then obtain RLL RLV h' RLR where RL: "RL = TNode RLL RLV h' RLR" by (cases RL) auto
      show thesis using assms(1,2) 3 False
        by (intro that [of "createNode (createNode L V RLL) RLV (createNode RLR RV RR)"])
          (auto simp: balanceTree_def Let_def R RL)
    qed
  qed
qed

section \<open>Lookup and iteration\<close>

abbreviation content :: "('k, 'd) imut_tree \<Rightarrow> 'k \<rightharpoonup> 'd" where
  "content t \<equiv> map_of (inorder t)"

lemma map_of_not_key: "k \<notin> fst ` set xs \<Longrightarrow> map_of xs k = None"
  by (metis map_of_eq_None_iff)

lemma content_node:
  assumes "ordered (TNode l v h r)"
  shows "content (TNode l v h r) k = (if k = fst v then Some (snd v) else if k < fst v then content l k else content r k)"
proof -
  have l: "content l k = None" if "fst v \<le> k" using that assms by (intro map_of_not_key) auto
  have r: "content r k = None" if "k \<le> fst v" using that assms by (intro map_of_not_key) auto
  show ?thesis using l r by (cases v) (auto simp: map_add_def split: option.splits)
qed

lemma find_content:
  assumes "ordered t"
  shows "imap_lookup t K = content t K"
  using assms
proof (induction t)
  case (TNode l v h r)
  then have "imap_lookup l K = content l K" "imap_lookup r K = content r K" by simp_all
  then show ?case using content_node [OF TNode.prems, of K] by (simp add: imap_lookup_def)
qed (simp add: imap_lookup_def)

lemma contains_keys: "ordered t \<Longrightarrow> tree_contains t K \<longleftrightarrow> K \<in> set (keys t)"
  using find_content [of t K] map_of_eq_None_iff [of "inorder t" K]
  by (auto simp: tree_contains_def imap_lookup_def split: imut_tree.splits)

lemma foreach_inorder: "tree_foreach C t s = fold C (inorder t) s"
  by (induction t arbitrary: s) simp_all

lemma getMaxElement_last: "getMaxElement t = (if t = TNull then None else Some (last (inorder t)))"
  by (induction t rule: getMaxElement.induct) auto

lemma size_inorder: "tree_size t = length (inorder t)"
  by (induction t) simp_all

lemma digest_inorder: "computeDigest hash t = sum_list (map hash (inorder t))"
  by (induction t) (simp_all add: add.assoc)

section \<open>Insertion and deletion\<close>

lemma same_inorder:
  assumes "inorder t = inorder (TNode l x h r)"
  shows "ordered t \<longleftrightarrow> ordered (TNode l x h r)" and "content t = content (TNode l x h r)"
    and "set (keys t) = insert (fst x) (set (keys l) \<union> set (keys r))"
  by (simp_all only: assms ordered_def) auto

lemma add_internal_spec:
  assumes "balanced t" "ordered t"
  shows "\<exists>t'. add_internal V t = Some t' \<and> balanced t' \<and> ordered t' \<and> t' \<noteq> TNull \<and>
    getHeight t \<le> getHeight t' \<and> getHeight t' \<le> getHeight t + 1 \<and>
    set (keys t') = insert (fst V) (set (keys t)) \<and> content t' = (content t)(fst V \<mapsto> snd V)"
  using assms
proof (induction V t rule: add_internal.induct)
  case (2 V l x h r)
  note IH = 2(1,2) and bal = 2(3) and ord = 2(4)
  have sub: "balanced l" "ordered l" "balanced r" "ordered r" using bal ord by simp_all
  consider "fst V = fst x" | "fst V < fst x" | "fst x < fst V" by (rule linorder_cases)
  then show ?case
  proof cases
    case 1
    have "ordered (createNode l V r)" using ord 1 by (simp add: createNode_def)
    moreover have "content (createNode l V r) = (content (TNode l x h r))(fst V \<mapsto> snd V)"
      using content_node [OF \<open>ordered (createNode l V r)\<close> [unfolded createNode_def]] content_node [OF ord] 1
      by (auto simp: createNode_def fun_eq_iff simp del: inorder.simps)
    ultimately show ?thesis using bal 1 by (intro exI [of _ "createNode l V r"]) auto
  next
    case 2
    then obtain l' where l': "add_internal V l = Some l'" "balanced l'" "ordered l'" "l' \<noteq> TNull"
      "getHeight l \<le> getHeight l'" "getHeight l' \<le> getHeight l + 1"
      "set (keys l') = insert (fst V) (set (keys l))" "content l' = (content l)(fst V \<mapsto> snd V)"
      using IH(1) [OF less_imp_neq [OF 2] 2 sub(1,2)] by blast
    obtain t where t: "balanceTree l' x r = Some t" "balanced t" "inorder t = inorder (TNode l' x 0 r)"
      "getHeight t \<le> max (getHeight l') (getHeight r) + 1" "max (getHeight l') (getHeight r) \<le> getHeight t"
      "getHeight l' \<le> getHeight r + 2 \<Longrightarrow> getHeight r \<le> getHeight l' + 2 \<Longrightarrow> getHeight t = max (getHeight l') (getHeight r) + 1"
      by (rule balanceTree_spec [of l' r x]) (use l' bal in auto)
    have ord': "ordered (TNode l' x 0 r)" using ord l' 2 by auto
    note same = same_inorder [OF t(3)]
    have "content t = (content (TNode l x h r))(fst V \<mapsto> snd V)"
      using content_node [OF ord] content_node [OF ord'] 2 l'(8)
      by (auto simp: same fun_eq_iff simp del: inorder.simps)
    moreover have "getHeight (TNode l x h r) \<le> getHeight t \<and> getHeight t \<le> getHeight (TNode l x h r) + 1"
      using t(4-6) l'(5,6) bal by (cases "getHeight l' \<le> getHeight r + 2") auto
    moreover have "t \<noteq> TNull" using t(3) by auto
    ultimately show ?thesis using 2 l'(1,7) t(1-3) ord' by (intro exI [of _ t]) (auto simp: same)
  next
    case 3
    then obtain r' where r': "add_internal V r = Some r'" "balanced r'" "ordered r'" "r' \<noteq> TNull"
      "getHeight r \<le> getHeight r'" "getHeight r' \<le> getHeight r + 1"
      "set (keys r') = insert (fst V) (set (keys r))" "content r' = (content r)(fst V \<mapsto> snd V)"
      using IH(2) [OF less_imp_neq [OF 3, symmetric] leD [OF less_imp_le [OF 3]] sub(3,4)] by blast
    obtain t where t: "balanceTree l x r' = Some t" "balanced t" "inorder t = inorder (TNode l x 0 r')"
      "getHeight t \<le> max (getHeight l) (getHeight r') + 1" "max (getHeight l) (getHeight r') \<le> getHeight t"
      "getHeight l \<le> getHeight r' + 2 \<Longrightarrow> getHeight r' \<le> getHeight l + 2 \<Longrightarrow> getHeight t = max (getHeight l) (getHeight r') + 1"
      by (rule balanceTree_spec [of l r' x]) (use r' bal in auto)
    have ord': "ordered (TNode l x 0 r')" using ord r' 3 by auto
    note same = same_inorder [OF t(3)]
    have "content t = (content (TNode l x h r))(fst V \<mapsto> snd V)"
      using content_node [OF ord] content_node [OF ord'] 3 r'(8)
      by (auto simp: same fun_eq_iff simp del: inorder.simps)
    moreover have "getHeight (TNode l x h r) \<le> getHeight t \<and> getHeight t \<le> getHeight (TNode l x h r) + 1"
      using t(4-6) r'(5,6) bal by (cases "getHeight r' \<le> getHeight l + 2") auto
    moreover have "t \<noteq> TNull" using t(3) by auto
    ultimately show ?thesis using 3 r'(1,7) t(1-3) ord' by (intro exI [of _ t]) (auto simp: same)
  qed
qed (simp add: createNode_def incrementHeight_def)

lemma removeMinBinding_spec:
  assumes "balanced t" "t \<noteq> TNull"
  shows "\<exists>t' v. removeMinBinding t = Some (t', v) \<and> balanced t' \<and> inorder t = v # inorder t' \<and>
    getHeight t' \<le> getHeight t \<and> getHeight t \<le> getHeight t' + 1"
  using assms
proof (induction t)
  case (TNode l x h r)
  show ?case
  proof (cases "l = TNull")
    case True
    with TNode.prems show ?thesis by auto
  next
    case False
    with TNode obtain l' v where l': "removeMinBinding l = Some (l', v)" "balanced l'" "inorder l = v # inorder l'"
      "getHeight l' \<le> getHeight l" "getHeight l \<le> getHeight l' + 1" by auto
    obtain t where t: "balanceTree l' x r = Some t" "balanced t" "inorder t = inorder l' @ x # inorder r"
      "getHeight t \<le> max (getHeight l') (getHeight r) + 1" "max (getHeight l') (getHeight r) \<le> getHeight t"
      "getHeight l' \<le> getHeight r + 2 \<Longrightarrow> getHeight r \<le> getHeight l' + 2 \<Longrightarrow> getHeight t = max (getHeight l') (getHeight r) + 1"
      by (rule balanceTree_spec [of l' r x]) (use l' TNode.prems in auto)
    have "getHeight t \<le> getHeight (TNode l x h r) \<and> getHeight (TNode l x h r) \<le> getHeight t + 1"
      using t(4-6) l'(4,5) TNode.prems by (cases "getHeight r \<le> getHeight l' + 2") auto
    with False l'(1,3) t(1-3) show ?thesis by (intro exI [of _ t] exI [of _ v]) simp
  qed
qed simp

lemma combineTrees_spec:
  assumes "balanced L" "balanced R" "getHeight L \<le> getHeight R + 2" "getHeight R \<le> getHeight L + 2"
  obtains t where "combineTrees L R = Some t" "balanced t" "inorder t = inorder L @ inorder R"
    "max (getHeight L) (getHeight R) \<le> getHeight t" "getHeight t \<le> max (getHeight L) (getHeight R) + 1"
proof (cases "L = TNull \<or> R = TNull")
  case True
  then show thesis using assms by (intro that [of "if L = TNull then R else L"]) (auto simp: combineTrees_def)
next
  case False
  then obtain R' v where R': "removeMinBinding R = Some (R', v)" "balanced R'" "inorder R = v # inorder R'"
    "getHeight R' \<le> getHeight R" "getHeight R \<le> getHeight R' + 1"
    using removeMinBinding_spec [OF assms(2)] by blast
  obtain t where t: "balanceTree L v R' = Some t" "balanced t" "inorder t = inorder L @ v # inorder R'"
    "getHeight t \<le> max (getHeight L) (getHeight R') + 1" "max (getHeight L) (getHeight R') \<le> getHeight t"
    "getHeight L \<le> getHeight R' + 2 \<Longrightarrow> getHeight R' \<le> getHeight L + 2 \<Longrightarrow> getHeight t = max (getHeight L) (getHeight R') + 1"
    by (rule balanceTree_spec [of L R' v]) (use R' assms in auto)
  have "max (getHeight L) (getHeight R) \<le> getHeight t" "getHeight t \<le> max (getHeight L) (getHeight R) + 1"
    using t(4-6) R'(4,5) assms(3,4) by (cases "getHeight L \<le> getHeight R' + 2"; auto)+
  with False R' t show thesis by (intro that [of t]) (simp_all add: combineTrees_def)
qed

text \<open>The entries of an ordered tree are the pairs of its map.\<close>

lemma content_entries:
  assumes "ordered t"
  shows "content t k = Some d \<longleftrightarrow> (k, d) \<in> set (inorder t)"
proof -
  have "distinct (keys t)" using assms strict_sorted_iff [of "keys t"] by (simp add: ordered_def)
  then show ?thesis by (rule map_of_eq_Some_iff)
qed

lemma content_eqI: "ordered t \<Longrightarrow> ordered u \<Longrightarrow>
    (\<And>k' d. (k', d) \<in> set (inorder u) \<longleftrightarrow> (k', d) \<in> set (inorder t) \<and> k' \<noteq> k) \<Longrightarrow> content u = (content t)(k := None)"
proof (rule ext)
  fix k' assume *: "ordered t" "ordered u" "\<And>k' d. (k', d) \<in> set (inorder u) \<longleftrightarrow> (k', d) \<in> set (inorder t) \<and> k' \<noteq> k"
  have "content u k' = Some d \<longleftrightarrow> ((content t)(k := None)) k' = Some d" for d
    using content_entries [OF *(1), of k' d] content_entries [OF *(2), of k' d] *(3) [of k' d] by auto
  then show "content u k' = ((content t)(k := None)) k'" by (metis not_Some_eq)
qed

lemma remove_internal_spec:
  assumes "balanced t" "ordered t"
  shows "\<exists>t'. remove_internal K t = Some t' \<and> balanced t' \<and> ordered t' \<and>
    getHeight t' \<le> getHeight t \<and> getHeight t \<le> getHeight t' + 1 \<and>
    set (inorder t') = {e \<in> set (inorder t). fst e \<noteq> K}"
  using assms
proof (induction K t rule: remove_internal.induct)
  case (2 K l x h r)
  note IH = 2(1,2) and bal = 2(3) and ord = 2(4)
  have sub: "balanced l" "ordered l" "balanced r" "ordered r" using bal ord by simp_all
  have less: "\<forall>e \<in> set (inorder l). fst e < fst x" "\<forall>e \<in> set (inorder r). fst x < fst e" using ord by auto
  consider "K = fst x" | "K < fst x" | "fst x < K" by (rule linorder_cases)
  then show ?case
  proof cases
    case 1
    obtain t where t: "combineTrees l r = Some t" "balanced t" "inorder t = inorder l @ inorder r"
      "max (getHeight l) (getHeight r) \<le> getHeight t" "getHeight t \<le> max (getHeight l) (getHeight r) + 1"
      by (rule combineTrees_spec [of l r]) (use bal in auto)
    have "ordered t" using sub less t(3) by (auto simp: ordered_def sorted_wrt_append intro: order_less_trans)
    with t bal less 1 show ?thesis by (intro exI [of _ t]) auto
  next
    case 2
    obtain l' where l': "remove_internal K l = Some l'" "balanced l'" "ordered l'"
      "getHeight l' \<le> getHeight l" "getHeight l \<le> getHeight l' + 1"
      "set (inorder l') = {e \<in> set (inorder l). fst e \<noteq> K}"
      using IH(1) [OF less_imp_neq [OF 2] 2 sub(1,2)] by blast
    obtain t where t: "balanceTree l' x r = Some t" "balanced t" "inorder t = inorder (TNode l' x 0 r)"
      "getHeight t \<le> max (getHeight l') (getHeight r) + 1" "max (getHeight l') (getHeight r) \<le> getHeight t"
      "getHeight l' \<le> getHeight r + 2 \<Longrightarrow> getHeight r \<le> getHeight l' + 2 \<Longrightarrow> getHeight t = max (getHeight l') (getHeight r) + 1"
      by (rule balanceTree_spec [of l' r x]) (use l' bal in auto)
    have "ordered (TNode l' x 0 r)" using sub less l'(3,6) by auto
    moreover have "getHeight t \<le> getHeight (TNode l x h r) \<and> getHeight (TNode l x h r) \<le> getHeight t + 1"
      using t(4-6) l'(4,5) bal by (cases "getHeight r \<le> getHeight l' + 2") auto
    moreover have "set (inorder t) = {e \<in> set (inorder (TNode l x h r)). fst e \<noteq> K}"
      using t(3) l'(6) less 2 by auto
    ultimately show ?thesis using 2 less_imp_neq [OF 2] l'(1) t(1,2) same_inorder(1) [OF t(3)] by (intro exI [of _ t]) simp
  next
    case 3
    obtain r' where r': "remove_internal K r = Some r'" "balanced r'" "ordered r'"
      "getHeight r' \<le> getHeight r" "getHeight r \<le> getHeight r' + 1"
      "set (inorder r') = {e \<in> set (inorder r). fst e \<noteq> K}"
      using IH(2) [OF less_imp_neq [OF 3, symmetric] leD [OF less_imp_le [OF 3]] sub(3,4)] by blast
    obtain t where t: "balanceTree l x r' = Some t" "balanced t" "inorder t = inorder (TNode l x 0 r')"
      "getHeight t \<le> max (getHeight l) (getHeight r') + 1" "max (getHeight l) (getHeight r') \<le> getHeight t"
      "getHeight l \<le> getHeight r' + 2 \<Longrightarrow> getHeight r' \<le> getHeight l + 2 \<Longrightarrow> getHeight t = max (getHeight l) (getHeight r') + 1"
      by (rule balanceTree_spec [of l r' x]) (use r' bal in auto)
    have "ordered (TNode l x 0 r')" using sub less r'(3,6) by auto
    moreover have "getHeight t \<le> getHeight (TNode l x h r) \<and> getHeight (TNode l x h r) \<le> getHeight t + 1"
      using t(4-6) r'(4,5) bal by (cases "getHeight l \<le> getHeight r' + 2") auto
    moreover have "set (inorder t) = {e \<in> set (inorder (TNode l x h r)). fst e \<noteq> K}"
      using t(3) r'(6) less 3 by auto
    ultimately show ?thesis using 3 less_imp_neq [OF 3] leD [OF less_imp_le [OF 3]] r'(1) t(1,2) same_inorder(1) [OF t(3)] by (intro exI [of _ t]) simp
  qed
qed auto

text \<open>The height is logarithmic in the number of nodes: with siblings two apart, a tree of height \<open>h\<close> has
  at least \<open>2 ^ (h div 3)\<close> leaves.\<close>

lemma balanced_size: "balanced t \<Longrightarrow> 2 ^ (getHeight t div 3) \<le> tree_size t + 1"
proof (induction t)
  case (TNode l v h r)
  define m where "m = min (getHeight l) (getHeight r)"
  have "h \<le> m + 3" using TNode.prems by (auto simp: m_def)
  then have "h div 3 \<le> m div 3 + 1" using div_le_mono [of h "m + 3" 3] by simp
  then have "(2 :: nat) ^ (h div 3) \<le> 2 * 2 ^ (m div 3)" by (simp add: power_increasing flip: power_Suc)
  moreover have "(2 :: nat) ^ (m div 3) \<le> 2 ^ (getHeight l div 3)" "(2 :: nat) ^ (m div 3) \<le> 2 ^ (getHeight r div 3)"
    by (simp_all add: m_def div_le_mono power_increasing)
  moreover have "(2 :: nat) ^ (getHeight l div 3) \<le> tree_size l + 1" "(2 :: nat) ^ (getHeight r div 3) \<le> tree_size r + 1"
    using TNode by simp_all
  ultimately have "(2 :: nat) ^ (h div 3) \<le> tree_size l + tree_size r + 2" by linarith
  then show ?case by simp
qed simp

section \<open>The contract of a persistent map\<close>

datatype ('k, 'd) map_op = Add 'k 'd | Remove 'k

fun run_ops ::
    "('m \<Rightarrow> 'k \<Rightarrow> 'd \<Rightarrow> 'm option) \<Rightarrow> ('m \<Rightarrow> 'k \<Rightarrow> 'm option) \<Rightarrow> ('k, 'd) map_op list \<Rightarrow> 'm \<Rightarrow> 'm option" where
  "run_ops add remove [] m = Some m"
| "run_ops add remove (Add k d # ops) m = do { m' \<leftarrow> add m k d; run_ops add remove ops m' }"
| "run_ops add remove (Remove k # ops) m = do { m' \<leftarrow> remove m k; run_ops add remove ops m' }"

fun apply_op :: "('k, 'd) map_op \<Rightarrow> ('k \<rightharpoonup> 'd) \<Rightarrow> ('k \<rightharpoonup> 'd)" where
  "apply_op (Add k d) f = f(k \<mapsto> d)"
| "apply_op (Remove k) f = f(k := None)"

locale persistent_map =
  fixes ok :: "'m \<Rightarrow> bool" and abs :: "'m \<Rightarrow> 'k \<rightharpoonup> 'd"
    and empty :: 'm and add :: "'m \<Rightarrow> 'k \<Rightarrow> 'd \<Rightarrow> 'm option" and remove :: "'m \<Rightarrow> 'k \<Rightarrow> 'm option"
    and lookup :: "'m \<Rightarrow> 'k \<Rightarrow> 'd option"
  assumes ok_empty: "ok empty" and abs_empty: "abs empty = Map.empty"
    and add_abs: "ok m \<Longrightarrow> \<exists>m'. add m k d = Some m' \<and> ok m' \<and> abs m' = (abs m)(k \<mapsto> d)"
    and remove_abs: "ok m \<Longrightarrow> \<exists>m'. remove m k = Some m' \<and> ok m' \<and> abs m' = (abs m)(k := None)"
    and lookup_abs: "ok m \<Longrightarrow> lookup m k = abs m k"
begin

lemma run_abs:
  "ok m \<Longrightarrow> \<exists>m'. run_ops add remove ops m = Some m' \<and> ok m' \<and> abs m' = fold apply_op ops (abs m)"
proof (induction ops arbitrary: m)
  case (Cons x ops)
  show ?case
  proof (cases x)
    case (Add k d)
    with add_abs [OF Cons.prems, of k d] Cons.IH show ?thesis by fastforce
  next
    case (Remove k)
    with remove_abs [OF Cons.prems, of k] Cons.IH show ?thesis by fastforce
  qed
qed simp

lemma run_lookup:
  "\<exists>m. run_ops add remove ops empty = Some m \<and> ok m \<and> (\<forall>k. lookup m k = fold apply_op ops Map.empty k)"
  using run_abs [OF ok_empty, of ops] lookup_abs by (auto simp: abs_empty)

end

interpretation imap: persistent_map "\<lambda>t. balanced t \<and> ordered t" content TNull imap_add imap_remove imap_lookup
proof unfold_locales
  fix t :: "('a, 'b) imut_tree" and k d
  assume t: "balanced t \<and> ordered t"
  then obtain a where a: "add_internal (k, d) t = Some a" "balanced a" "ordered a" "content a = (content t)(k \<mapsto> d)"
    using add_internal_spec [of t "(k, d)"] by fastforce
  then show "\<exists>t'. imap_add t k d = Some t' \<and> (balanced t' \<and> ordered t') \<and> content t' = (content t)(k \<mapsto> d)"
    by (simp add: imap_add_def)
  obtain b where b: "remove_internal k t = Some b" "balanced b" "ordered b" "set (inorder b) = {e \<in> set (inorder t). fst e \<noteq> k}"
    using remove_internal_spec [of t k] t by blast
  have "content b = (content t)(k := None)" by (rule content_eqI) (use t b in auto)
  with b show "\<exists>t'. imap_remove t k = Some t' \<and> (balanced t' \<and> ordered t') \<and> content t' = (content t)(k := None)"
    by (simp add: imap_remove_def)
  show "imap_lookup t k = content t k" by (rule find_content) (use t in simp)
qed simp_all

section \<open>Properties\<close>

text \<open>C4: after any sequence of insertions and removals, from the empty map on, no assertion has failed,
  the tree is an ordered and balanced tree, and a lookup returns what the same sequence makes of a
  mathematical map.\<close>

theorem ImmutableMap_implements_map:
  "\<exists>m :: ('k::linorder, 'd) imut_tree. run_ops imap_add imap_remove ops TNull = Some m \<and> balanced m \<and> ordered m \<and>
    (\<forall>k. imap_lookup m k = fold apply_op ops Map.empty k)"
  using imap.run_lookup [of ops] by blast

text \<open>C37: adding an element to a set, or removing one, gives exactly the set of elements expected, the
  height changes by at most one, and stays logarithmic in the number of elements.\<close>

theorem ImmutableSet_add_remove:
  assumes "balanced S" and "ordered S"
  shows "\<exists>A R. iset_add S x = Some A \<and> iset_remove S x = Some R \<and>
    (\<forall>y. tree_contains A y \<longleftrightarrow> y = x \<or> tree_contains S y) \<and> (\<forall>y. tree_contains R y \<longleftrightarrow> y \<noteq> x \<and> tree_contains S y) \<and>
    getHeight A \<in> {getHeight S, getHeight S + 1} \<and> getHeight S \<in> {getHeight R, getHeight R + 1} \<and>
    2 ^ (getHeight A div 3) \<le> tree_size A + 1"
proof -
  obtain A where A: "add_internal (x, ()) S = Some A" "balanced A" "ordered A" "getHeight S \<le> getHeight A"
    "getHeight A \<le> getHeight S + 1" "set (keys A) = insert x (set (keys S))"
    using add_internal_spec [OF assms, of "(x, ())"] by auto
  obtain R where R: "remove_internal x S = Some R" "ordered R" "getHeight R \<le> getHeight S"
    "getHeight S \<le> getHeight R + 1" "set (inorder R) = {e \<in> set (inorder S). fst e \<noteq> x}"
    using remove_internal_spec [OF assms, of x] by blast
  have "set (keys R) = set (keys S) - {x}" using R(5) by auto
  with A R assms balanced_size [OF A(2)] show ?thesis
    by - (rule exI [of _ A], rule exI [of _ R],
      auto simp: iset_add_def iset_remove_def contains_keys simp del: set_map)
qed

theorem ImmutableSet_add_remove_witness:
  "\<exists>A R. iset_add (TNode TNull (5 :: nat, ()) 1 TNull) 7 = Some A \<and> iset_remove (TNode TNull (5 :: nat, ()) 1 TNull) 7 = Some R"
proof -
  have "balanced (TNode TNull (5 :: nat, ()) 1 TNull)" "ordered (TNode TNull (5 :: nat, ()) 1 TNull)" by simp_all
  from ImmutableSet_add_remove [OF this, of 7] show ?thesis by blast
qed

text \<open>Trees with the same content list the same elements in the same order and have the same digest,
  however they were built; so equal sets always meet in one bucket of the canonicalisation cache.\<close>

theorem digest_of_content:
  fixes t u :: "('k::linorder, 'd) imut_tree"
  assumes "ordered t" and "ordered u" and "\<And>k. imap_lookup t k = imap_lookup u k"
  shows "inorder t = inorder u \<and> computeDigest hash t = computeDigest hash u \<and> tree_size t = tree_size u"
proof -
  have eq: "content t = content u" using assms find_content by (metis ext)
  then have "dom (content t) = dom (content u)" by simp
  then have "set (keys t) = set (keys u)" by (simp add: dom_map_of_conv_image_fst)
  then have ks: "keys t = keys u"
    using assms(1,2) sorted_distinct_set_unique [of "keys t" "keys u"] by (simp add: ordered_def strict_sorted_iff)
  have len: "length (inorder t) = length (inorder u)" using ks by (metis length_map)
  have "inorder t ! i = inorder u ! i" if i: "i < length (inorder t)" for i
  proof (rule prod_eqI)
    show key: "fst (inorder t ! i) = fst (inorder u ! i)" using ks i len by (metis nth_map)
    have "content t (fst (inorder t ! i)) = Some (snd (inorder t ! i))"
      by (simp only: content_entries [OF assms(1)] prod.collapse nth_mem [OF i])
    moreover have "content u (fst (inorder u ! i)) = Some (snd (inorder u ! i))"
      using i len by (simp only: content_entries [OF assms(2)] prod.collapse nth_mem)
    ultimately show "snd (inorder t ! i) = snd (inorder u ! i)" using key eq by simp
  qed
  with len have "inorder t = inorder u" by (intro nth_equalityI)
  then show ?thesis by (simp add: digest_inorder size_inorder)
qed

theorem digest_of_content_witness:
  "computeDigest (\<lambda>v. of_nat (fst v)) (TNode TNull (1, ()) 2 (TNode TNull (2 :: nat, ()) 1 TNull)) =
   computeDigest (\<lambda>v. of_nat (fst v)) (TNode (TNode TNull (1, ()) 1 TNull) (2 :: nat, ()) 2 TNull)"
  using digest_of_content [of "TNode TNull (1, ()) 2 (TNode TNull (2 :: nat, ()) 1 TNull)"
      "TNode (TNode TNull (1, ()) 1 TNull) (2 :: nat, ()) 2 TNull"]
  by (auto simp: imap_lookup_def)

text \<open>The consistency check fails on every tree, empty right subtree or not, because its last assertion
  negates the condition on the right child.\<close>

theorem validateTree_rejects_all: "validateTree t = None"
proof (cases t)
  case (TNode l v h r)
  have none: "Option.bind x (\<lambda>_. None) = None" for x :: "nat option" by (cases x) simp_all
  show ?thesis by (cases r) (simp_all add: TNode none less_than_right_def cong: if_cong)
qed simp

end
