(* ===== verification/ImmutableIter.thy ===== *)
theory ImmutableIter
  imports ImmutableTree
begin

text \<open>
  The iterators of \<open>include/llvm/ADT/ImmutableSet.h\<close>: \<open>ImutAVLTreeGenericIterator\<close> walks a tree with an
  explicit stack of nodes, each tagged with what has been visited of it (in the code the two low
  bits of the pointer), and \<open>ImutAVLTreeInOrderIterator\<close> stops at a node between its subtrees. The head
  of the list is the top of the stack.
\<close>

section \<open>The generic iterator\<close>

datatype VisitFlag = VisitedNone | VisitedLeft | VisitedRight

type_synonym ('k, 'd) iter_stack = "(('k, 'd) imut_tree \<times> VisitFlag) list"

fun iter_begin :: "('k, 'd) imut_tree \<Rightarrow> ('k, 'd) iter_stack" where
  "iter_begin TNull = []"
| "iter_begin Root = [(Root, VisitedNone)]"

fun skipToParent :: "('k, 'd) iter_stack \<Rightarrow> ('k, 'd) iter_stack option" where
  "skipToParent [] = None"
| "skipToParent [_] = Some []"
| "skipToParent (_ # (T, VisitedNone) # stack) = Some ((T, VisitedLeft) # stack)"
| "skipToParent (_ # (T, VisitedLeft) # stack) = Some ((T, VisitedRight) # stack)"
| "skipToParent (_ # (T, VisitedRight) # stack) = None"

fun iter_inc :: "('k, 'd) iter_stack \<Rightarrow> ('k, 'd) iter_stack option" where
  "iter_inc ((TNode L v h R, VisitedNone) # stack) =
     (if L \<noteq> TNull then Some ((L, VisitedNone) # (TNode L v h R, VisitedNone) # stack)
      else Some ((TNode L v h R, VisitedLeft) # stack))"
| "iter_inc ((TNode L v h R, VisitedLeft) # stack) =
     (if R \<noteq> TNull then Some ((R, VisitedNone) # (TNode L v h R, VisitedLeft) # stack)
      else Some ((TNode L v h R, VisitedRight) # stack))"
| "iter_inc ((TNode L v h R, VisitedRight) # stack) = skipToParent ((TNode L v h R, VisitedRight) # stack)"
| "iter_inc _ = None"

fun iter_dec :: "('k, 'd) iter_stack \<Rightarrow> ('k, 'd) iter_stack option" where
  "iter_dec ((TNode L v h R, VisitedNone) # stack) = Some stack"
| "iter_dec ((TNode L v h R, VisitedLeft) # stack) =
     (if L \<noteq> TNull then Some ((L, VisitedRight) # (TNode L v h R, VisitedNone) # stack)
      else Some ((TNode L v h R, VisitedNone) # stack))"
| "iter_dec ((TNode L v h R, VisitedRight) # stack) =
     (if R \<noteq> TNull then Some ((R, VisitedRight) # (TNode L v h R, VisitedLeft) # stack)
      else Some ((TNode L v h R, VisitedLeft) # stack))"
| "iter_dec _ = None"

section \<open>Every loop over the iterator ends\<close>

text \<open>\<open>work T\<close> bounds the steps below a node; \<open>rest\<close> counts what is left of a node that is not on top.\<close>

fun work :: "('k, 'd) imut_tree \<Rightarrow> nat" where
  "work TNull = 0"
| "work (TNode L v h R) = 4 + work L + work R"

fun rest :: "('k, 'd) imut_tree \<times> VisitFlag \<Rightarrow> nat" where
  "rest (TNode L v h R, VisitedNone) = 3 + work R"
| "rest (TNode L v h R, VisitedLeft) = 1"
| "rest _ = 1"

fun remaining :: "('k, 'd) iter_stack \<Rightarrow> nat" where
  "remaining [] = 0"
| "remaining ((TNode L v h R, VisitedNone) # stack) = 4 + work L + work R + sum_list (map rest stack)"
| "remaining ((TNode L v h R, VisitedLeft) # stack) = 2 + work R + sum_list (map rest stack)"
| "remaining (_ # stack) = 1 + sum_list (map rest stack)"

lemma remaining_top: "T \<noteq> TNull \<Longrightarrow> remaining ((T, VisitedNone) # stack) = work T + sum_list (map rest stack)"
  by (cases T) simp_all

lemma skipToParent_less: "skipToParent ((TNode L v h R, VisitedRight) # stack) = Some s \<Longrightarrow>
    remaining s < remaining ((TNode L v h R, VisitedRight) # stack)"
proof -
  assume s: "skipToParent ((TNode L v h R, VisitedRight) # stack) = Some s"
  show ?thesis
  proof (cases stack)
    case (Cons e stack')
    obtain T f where e: "e = (T, f)" by (cases e)
    show ?thesis using s by (cases f; cases T) (auto simp: Cons e)
  qed (use s in simp)
qed

lemma iter_inc_less: "iter_inc s = Some s' \<Longrightarrow> remaining s' < remaining s"
  by (cases s rule: iter_inc.cases)
    (auto simp: remaining_top simp del: skipToParent.simps dest!: skipToParent_less split: if_splits)

section \<open>The in-order iterator\<close>

definition stops :: "('k, 'd) iter_stack \<Rightarrow> bool" where
  "stops s \<longleftrightarrow> s = [] \<or> snd (hd s) = VisitedLeft"

text \<open>\<open>do ++InternalItr; while (!atEnd() && getVisitState() != VisitedLeft)\<close>.\<close>

function inorder_inc :: "('k, 'd) iter_stack \<Rightarrow> ('k, 'd) iter_stack option" where
  "inorder_inc s =
     (case iter_inc s of
        None \<Rightarrow> None
      | Some s' \<Rightarrow> if stops s' then Some s' else inorder_inc s')"
  by pat_completeness auto
termination
  by (relation "measure remaining") (auto dest: iter_inc_less)

declare inorder_inc.simps [simp del]

function skip_loop :: "('k, 'd) iter_stack \<Rightarrow> ('k, 'd) iter_stack option" where
  "skip_loop s = (if stops s then Some s else case iter_inc s of None \<Rightarrow> None | Some s' \<Rightarrow> skip_loop s')"
  by pat_completeness auto
termination
  by (relation "measure remaining") (auto dest: iter_inc_less)

declare skip_loop.simps [simp del]

definition skipSubTree :: "('k, 'd) iter_stack \<Rightarrow> ('k, 'd) iter_stack option" where
  "skipSubTree s = Option.bind (skipToParent s) skip_loop"

definition inorder_begin :: "('k, 'd) imut_tree \<Rightarrow> ('k, 'd) iter_stack option" where
  "inorder_begin Root = (if Root \<noteq> TNull then inorder_inc (iter_begin Root) else Some (iter_begin Root))"

definition iter_value :: "('k, 'd) iter_stack \<Rightarrow> ('k \<times> 'd) option" where
  "iter_value s = (case s of (TNode L v h R, _) # _ \<Rightarrow> Some v | _ \<Rightarrow> None)"

lemma inorder_inc_less: "inorder_inc s = Some s' \<Longrightarrow> remaining s' < remaining s"
proof (induction s rule: inorder_inc.induct)
  case (1 s)
  then show ?case
    by (subst (asm) (2) inorder_inc.simps)
      (auto split: option.splits if_splits dest: iter_inc_less intro: order_less_trans)
qed

lemma skip_loop_le: "skip_loop s = Some s' \<Longrightarrow> remaining s' \<le> remaining s"
proof (induction s rule: skip_loop.induct)
  case (1 s)
  then show ?case
    by (subst (asm) (2) skip_loop.simps)
      (auto split: option.splits if_splits dest!: iter_inc_less intro: order_trans less_imp_le)
qed

lemma skipToParent_less': "skipToParent s = Some s' \<Longrightarrow> remaining s' < remaining s"
  by (cases s rule: skipToParent.cases; cases "hd s" rule: rest.cases; cases "fst (hd (tl s))"; cases "snd (hd s)") auto

lemma skipSubTree_less: "skipSubTree s = Some s' \<Longrightarrow> remaining s' < remaining s"
  by (auto simp: skipSubTree_def Option.bind_eq_Some_conv dest!: skipToParent_less' skip_loop_le)

text \<open>\<open>for (I = begin(); I != end(); ++I)\<close>: the values such a loop sees.\<close>

function iterate :: "('k, 'd) iter_stack \<Rightarrow> ('k \<times> 'd) list option" where
  "iterate s =
     (if s = [] then Some []
      else case iter_value s of
             None \<Rightarrow> None
           | Some v \<Rightarrow>
               (case inorder_inc s of None \<Rightarrow> None | Some s' \<Rightarrow> map_option (Cons v) (iterate s')))"
  by pat_completeness auto
termination
  by (relation "measure remaining") (auto dest: inorder_inc_less)

declare iterate.simps [simp del]

text \<open>The loop of \<open>ImutAVLTree::isEqual\<close>. \<open>same\<close> is the comparison of node addresses.\<close>

function isEqual_loop ::
    "(('k, 'd) imut_tree \<Rightarrow> ('k, 'd) imut_tree \<Rightarrow> bool) \<Rightarrow> ('k, 'd) iter_stack \<Rightarrow> ('k, 'd) iter_stack \<Rightarrow> bool option" where
  "isEqual_loop same LItr RItr =
     (if LItr \<noteq> [] \<and> RItr \<noteq> [] then
        if same (fst (hd LItr)) (fst (hd RItr)) then
          (case (skipSubTree LItr, skipSubTree RItr) of
             (Some LItr', Some RItr') \<Rightarrow> isEqual_loop same LItr' RItr'
           | _ \<Rightarrow> None)
        else if iter_value LItr \<noteq> iter_value RItr then Some False
        else
          (case (inorder_inc LItr, inorder_inc RItr) of
             (Some LItr', Some RItr') \<Rightarrow> isEqual_loop same LItr' RItr'
           | _ \<Rightarrow> None)
      else Some (LItr = [] \<and> RItr = []))"
  by pat_completeness auto
termination
  by (relation "measure (\<lambda>(same, L, R). remaining L)") (auto dest: inorder_inc_less [OF sym] skipSubTree_less [OF sym])

declare isEqual_loop.simps [simp del]

definition tree_isEqual ::
    "(('k, 'd) imut_tree \<Rightarrow> ('k, 'd) imut_tree \<Rightarrow> bool) \<Rightarrow> ('k, 'd) imut_tree \<Rightarrow> ('k, 'd) imut_tree \<Rightarrow> bool option" where
  "tree_isEqual same T RHS =
     (if same RHS T then Some True
      else do { LItr \<leftarrow> inorder_begin T; RItr \<leftarrow> inorder_begin RHS; isEqual_loop same LItr RItr })"

text \<open>\<open>compareTreeWithSection\<close>: whether the tree under \<open>I\<close> matches what \<open>TI\<close> sees, and where \<open>TI\<close> ends.\<close>

function compareTreeWithSection ::
    "('k, 'd) iter_stack \<Rightarrow> ('k, 'd) iter_stack \<Rightarrow> (bool \<times> ('k, 'd) iter_stack) option" where
  "compareTreeWithSection I TI =
     (if I = [] then Some (True, TI)
      else if TI = [] \<or> iter_value I \<noteq> iter_value TI then Some (False, TI)
      else
        (case (inorder_inc I, inorder_inc TI) of
           (Some I', Some TI') \<Rightarrow> compareTreeWithSection I' TI'
         | _ \<Rightarrow> None))"
  by pat_completeness auto
termination
  by (relation "measure (\<lambda>(I, TI). remaining I)") (auto dest: inorder_inc_less [OF sym])

declare compareTreeWithSection.simps [simp del]

section \<open>What an iterator has still to visit\<close>

fun valid_stack :: "('k, 'd) iter_stack \<Rightarrow> bool" where
  "valid_stack [] \<longleftrightarrow> True"
| "valid_stack [(T, f)] \<longleftrightarrow> T \<noteq> TNull"
| "valid_stack ((C, f) # (T, g) # stack) \<longleftrightarrow> C \<noteq> TNull \<and> valid_stack ((T, g) # stack) \<and>
     (case T of TNull \<Rightarrow> False
      | TNode L v h R \<Rightarrow> g = VisitedNone \<and> C = L \<or> g = VisitedLeft \<and> C = R)"

fun below :: "('k, 'd) imut_tree \<times> VisitFlag \<Rightarrow> ('k \<times> 'd) list" where
  "below (TNode L v h R, VisitedNone) = v # inorder R"
| "below _ = []"

fun pending :: "('k, 'd) iter_stack \<Rightarrow> ('k \<times> 'd) list" where
  "pending [] = []"
| "pending ((TNode L v h R, VisitedNone) # stack) = inorder L @ v # inorder R @ concat (map below stack)"
| "pending ((TNode L v h R, VisitedLeft) # stack) = v # inorder R @ concat (map below stack)"
| "pending (_ # stack) = concat (map below stack)"

lemma valid_top: "valid_stack (e # stack) \<Longrightarrow> \<exists>L v h R f. e = (TNode L v h R, f)"
  by (cases e; cases "fst e"; cases stack) auto

lemma pending_None: "T \<noteq> TNull \<Longrightarrow> pending ((T, VisitedNone) # stack) = inorder T @ concat (map below stack)"
  by (cases T) simp_all

lemma skipToParent_spec:
  assumes "valid_stack (e # stack)"
  shows "\<exists>s'. skipToParent (e # stack) = Some s' \<and> valid_stack s' \<and> pending s' = concat (map below stack)"
proof (cases stack)
  case Nil
  then show ?thesis by simp
next
  case (Cons e' stack')
  obtain L v h R g where e': "e' = (TNode L v h R, g)" using assms Cons valid_top [of e' stack'] by (cases e; cases e') auto
  have v: "valid_stack ((TNode L v h R, g') # stack')" for g'
    using assms Cons e' by (cases e; cases stack') auto
  show ?thesis using assms v by (cases g; cases e) (auto simp: Cons e')
qed

lemma iter_inc_spec:
  assumes "valid_stack s" "s \<noteq> []"
  shows "\<exists>s'. iter_inc s = Some s' \<and> valid_stack s' \<and> pending s' = (if snd (hd s) = VisitedLeft then tl (pending s) else pending s)"
proof -
  obtain e stack where s: "s = e # stack" using assms(2) by (cases s) auto
  obtain L v h R f where e: "e = (TNode L v h R, f)" using assms(1) s valid_top by blast
  have v: "valid_stack ((TNode L v h R, f') # stack)" for f'
    using assms(1) by (cases stack) (auto simp: s e)
  show ?thesis
  proof (cases f)
    case VisitedRight
    then show ?thesis using skipToParent_spec [OF v [of VisitedRight]] by (simp add: s e)
  next
    case VisitedNone
    then show ?thesis using v by (auto simp: s e pending_None)
  next
    case VisitedLeft
    then show ?thesis using v by (auto simp: s e pending_None)
  qed
qed

text \<open>Where the in-order iterator stops, the head of the pending values is the current one.\<close>

lemma stops_pending:
  assumes "valid_stack s" "stops s"
  shows "case pending s of [] \<Rightarrow> s = [] | v # vs \<Rightarrow> s \<noteq> [] \<and> iter_value s = Some v"
proof (cases s)
  case (Cons e stack)
  obtain L v h R f where e: "e = (TNode L v h R, f)" using assms(1) Cons valid_top by blast
  then show ?thesis using assms(2) by (simp add: Cons stops_def iter_value_def)
qed simp

lemma inorder_inc_spec:
  assumes "valid_stack s" "s \<noteq> []"
  shows "\<exists>s'. inorder_inc s = Some s' \<and> valid_stack s' \<and> stops s' \<and>
    pending s' = (if snd (hd s) = VisitedLeft then tl (pending s) else pending s)"
  using assms
proof (induction s rule: inorder_inc.induct)
  case (1 s)
  obtain t where t: "iter_inc s = Some t" "valid_stack t"
    "pending t = (if snd (hd s) = VisitedLeft then tl (pending s) else pending s)"
    using iter_inc_spec [OF 1(2,3)] by blast
  show ?case
  proof (cases "stops t")
    case True
    with t show ?thesis by (subst inorder_inc.simps) simp
  next
    case False
    then have "t \<noteq> []" "snd (hd t) \<noteq> VisitedLeft" by (auto simp: stops_def)
    with 1(1) [OF t(1) False t(2)] t False show ?thesis by (subst inorder_inc.simps) simp
  qed
qed

lemma inorder_inc_at:
  assumes "valid_stack s" "stops s" "s \<noteq> []"
  shows "\<exists>s'. inorder_inc s = Some s' \<and> valid_stack s' \<and> stops s' \<and> pending s' = tl (pending s)"
  using inorder_inc_spec [OF assms(1,3)] assms(2,3) by (simp add: stops_def)

lemma inorder_begin_spec:
  "\<exists>s. inorder_begin T = Some s \<and> valid_stack s \<and> stops s \<and> pending s = inorder T"
proof (cases T)
  case (TNode L v h R)
  then show ?thesis using inorder_inc_spec [of "[(T, VisitedNone)]"] by (simp add: inorder_begin_def)
qed (simp add: inorder_begin_def stops_def)

lemma skip_loop_spec:
  assumes "valid_stack s"
  shows "\<exists>s'. skip_loop s = Some s' \<and> valid_stack s' \<and> stops s' \<and> pending s' = pending s"
  using assms
proof (induction s rule: skip_loop.induct)
  case (1 s)
  show ?case
  proof (cases "stops s")
    case True
    with 1(2) show ?thesis by (subst skip_loop.simps) simp
  next
    case False
    then have s: "s \<noteq> []" "snd (hd s) \<noteq> VisitedLeft" by (auto simp: stops_def)
    obtain t where t: "iter_inc s = Some t" "valid_stack t" "pending t = pending s"
      using iter_inc_spec [OF 1(2) s(1)] s(2) by auto
    with 1(1) [OF False t(1,2)] False show ?thesis by (subst skip_loop.simps) simp
  qed
qed

text \<open>Skipping from a node drops it and its right subtree from what is pending.\<close>

lemma skipSubTree_spec:
  assumes "valid_stack s" "stops s" "s \<noteq> []"
  shows "\<exists>s' L v h R. fst (hd s) = TNode L v h R \<and> skipSubTree s = Some s' \<and> valid_stack s' \<and> stops s' \<and>
    pending s = (v # inorder R) @ pending s'"
proof -
  obtain e stack where s: "s = e # stack" using assms(3) by (cases s) auto
  obtain L v h R f where e: "e = (TNode L v h R, f)" using assms(1) s valid_top by blast
  obtain t where t: "skipToParent s = Some t" "valid_stack t" "pending t = concat (map below stack)"
    using skipToParent_spec [of e stack] assms(1) s by blast
  obtain u where "skip_loop t = Some u" "valid_stack u" "stops u" "pending u = pending t"
    using skip_loop_spec [OF t(2)] by blast
  with t s e assms(2) show ?thesis by (auto simp: skipSubTree_def stops_def)
qed

lemma iterate_pending: "valid_stack s \<Longrightarrow> stops s \<Longrightarrow> iterate s = Some (pending s)"
proof (induction s rule: iterate.induct)
  case (1 s)
  show ?case
  proof (cases "s = []")
    case True
    then show ?thesis by (subst iterate.simps) simp
  next
    case False
    then obtain v vs where v: "pending s = v # vs" "iter_value s = Some v"
      using stops_pending [OF 1(2,3)] by (cases "pending s") auto
    obtain t where t: "inorder_inc s = Some t" "valid_stack t" "stops t" "pending t = vs"
      using inorder_inc_at [OF 1(2,3) False] v(1) by auto
    with 1(1) [OF False v(2) t(1-3)] v False show ?thesis by (subst iterate.simps) simp
  qed
qed

lemma isEqual_loop_spec:
  assumes "\<And>a b. same a b \<Longrightarrow> a = b" "valid_stack L" "stops L" "valid_stack R" "stops R"
  shows "isEqual_loop same L R = Some (pending L = pending R)"
  using assms
proof (induction same L R rule: isEqual_loop.induct)
  case (1 same L R)
  note IH = 1(1,2) and same = 1(3) and L = 1(4,5) and R = 1(6,7)
  show ?case
  proof (cases "L = [] \<or> R = []")
    case True
    then show ?thesis using stops_pending [OF L] stops_pending [OF R]
      by (subst isEqual_loop.simps) (auto split: list.splits)
  next
    case False
    then have ne: "L \<noteq> []" "R \<noteq> []" "L \<noteq> [] \<and> R \<noteq> []" by simp_all
    show ?thesis
    proof (cases "same (fst (hd L)) (fst (hd R))")
      case True
      obtain L' ll v h rr where L': "fst (hd L) = TNode ll v h rr" "skipSubTree L = Some L'" "valid_stack L'" "stops L'"
        "pending L = (v # inorder rr) @ pending L'" using skipSubTree_spec [OF L ne(1)] by blast
      obtain R' where R': "skipSubTree R = Some R'" "valid_stack R'" "stops R'"
        "pending R = (v # inorder rr) @ pending R'"
        using skipSubTree_spec [OF R ne(2)] same [OF True] L'(1) by auto
      from IH(1) [OF ne(3) True refl L'(2) R'(1) same L'(3,4) R'(2,3)] True ne L' R'
      show ?thesis by (subst isEqual_loop.simps) simp
    next
      case diff: False
      obtain v vs where v: "pending L = v # vs" "iter_value L = Some v" using stops_pending [OF L] ne(1) by (cases "pending L") auto
      obtain u us where u: "pending R = u # us" "iter_value R = Some u" using stops_pending [OF R] ne(2) by (cases "pending R") auto
      obtain L' where L': "inorder_inc L = Some L'" "valid_stack L'" "stops L'" "pending L' = vs"
        using inorder_inc_at [OF L ne(1)] v(1) by auto
      obtain R' where R': "inorder_inc R = Some R'" "valid_stack R'" "stops R'" "pending R' = us"
        using inorder_inc_at [OF R ne(2)] u(1) by auto
      show ?thesis
      proof (cases "v = u")
        case True
        then have "\<not> iter_value L \<noteq> iter_value R" using v u by simp
        from IH(2) [OF ne(3) diff this refl L'(1) R'(1) same L'(2,3) R'(2,3)] diff ne v u L' R' True
        show ?thesis by (subst isEqual_loop.simps) simp
      next
        case False
        with diff ne v u show ?thesis by (subst isEqual_loop.simps) simp
      qed
    qed
  qed
qed

lemma compareTreeWithSection_spec:
  assumes "valid_stack I" "stops I" "valid_stack TI" "stops TI"
  shows "\<exists>TI'. compareTreeWithSection I TI = Some (take (length (pending I)) (pending TI) = pending I, TI') \<and>
    (take (length (pending I)) (pending TI) = pending I \<longrightarrow> (TI' = [] \<longleftrightarrow> pending TI = pending I))"
  using assms
proof (induction I TI rule: compareTreeWithSection.induct)
  case (1 I TI)
  note I = 1(2,3) and TI = 1(4,5)
  show ?case
  proof (cases "I = []")
    case True
    then show ?thesis using stops_pending [OF TI]
      by (subst compareTreeWithSection.simps) (auto split: list.splits)
  next
    case ne: False
    obtain v vs where v: "pending I = v # vs" "iter_value I = Some v" using stops_pending [OF I] ne by (cases "pending I") auto
    obtain I' where I': "inorder_inc I = Some I'" "valid_stack I'" "stops I'" "pending I' = vs"
      using inorder_inc_at [OF I ne] v(1) by auto
    show ?thesis
    proof (cases "TI = [] \<or> iter_value I \<noteq> iter_value TI")
      case True
      have "take (length (pending I)) (pending TI) \<noteq> pending I"
        using True v stops_pending [OF TI] by (auto split: list.splits)
      with True ne show ?thesis by (subst compareTreeWithSection.simps) auto
    next
      case False
      obtain us where u: "pending TI = v # us"
        using stops_pending [OF TI] False v(2) by (cases "pending TI") auto
      obtain TI' where TI': "inorder_inc TI = Some TI'" "valid_stack TI'" "stops TI'" "pending TI' = us"
        using inorder_inc_at [OF TI] False u by auto
      from 1(1) [OF ne False refl I'(1) TI'(1) I'(2,3) TI'(2,3)] False ne v u I' TI'
      show ?thesis by (subst compareTreeWithSection.simps) auto
    qed
  qed
qed

section \<open>Properties\<close>

text \<open>C38: the in-order iterator started at a tree violates no assertion, ends, and sees the elements of the
  tree in order.\<close>

theorem iteration_is_inorder: "Option.bind (inorder_begin T) iterate = Some (inorder T)"
proof -
  obtain s where "inorder_begin T = Some s" "valid_stack s" "stops s" "pending s = inorder T"
    using inorder_begin_spec [of T] by blast
  then show ?thesis by (simp add: iterate_pending)
qed

text \<open>C26: \<open>operator--\<close> of the generic iterator undoes \<open>operator++\<close>, unless that left the tree.\<close>

theorem iterator_dec_inc:
  assumes "valid_stack s" and "iter_inc s = Some s'" and "s' \<noteq> []"
  shows "iter_dec s' = Some s"
proof -
  obtain e stack where s: "s = e # stack" using assms(2) by (cases s) auto
  obtain L v h R f where e: "e = (TNode L v h R, f)" using assms(1) s valid_top by blast
  show ?thesis
  proof (cases f)
    case VisitedRight
    then obtain e' stack' where st: "stack = e' # stack'" using assms(2,3) s e by (cases stack) auto
    obtain L' v' h' R' g where e': "e' = (TNode L' v' h' R', g)"
      using assms(1) s e st by (cases e'; cases "fst e'") auto
    show ?thesis using assms(1,2) VisitedRight by (cases g) (auto simp: s e st e')
  next
    case VisitedNone
    then show ?thesis using assms(2) by (cases L) (auto simp: s e)
  next
    case VisitedLeft
    then show ?thesis using assms(2) by (cases R) (auto simp: s e)
  qed
qed

theorem iterator_dec_inc_witness:
  "iter_dec [(TNode TNull (2 :: nat, ()) 1 TNull, VisitedNone), (TNode TNull (1, ()) 2 (TNode TNull (2, ()) 1 TNull), VisitedLeft)] =
   Some [(TNode TNull (1, ()) 2 (TNode TNull (2, ()) 1 TNull), VisitedLeft)]"
  by (rule iterator_dec_inc) simp_all

text \<open>C25: provided that nodes at one address are equal, \<open>isEqual\<close> violates no assertion and decides whether
  two trees list the same elements, whatever their shapes and the subtrees it skips; the comparison
  that the canonicalisation makes finds exactly the trees with the same elements.\<close>

theorem isEqual_decides:
  assumes "\<And>a b. same a b \<Longrightarrow> a = b"
  shows "tree_isEqual same T U = Some (inorder T = inorder U) \<and>
    (\<exists>I TI eq TI'. inorder_begin T = Some I \<and> inorder_begin U = Some TI \<and> compareTreeWithSection I TI = Some (eq, TI') \<and>
      (eq \<and> TI' = [] \<longleftrightarrow> inorder T = inorder U))"
proof -
  obtain L where L: "inorder_begin T = Some L" "valid_stack L" "stops L" "pending L = inorder T"
    using inorder_begin_spec [of T] by blast
  obtain R where R: "inorder_begin U = Some R" "valid_stack R" "stops R" "pending R = inorder U"
    using inorder_begin_spec [of U] by blast
  have "tree_isEqual same T U = Some (inorder T = inorder U)"
    using isEqual_loop_spec [OF assms L(2,3) R(2,3)] L(1,4) R(1,4) assms [of U T]
    by (auto simp: tree_isEqual_def)
  moreover define P where "P \<longleftrightarrow> take (length (inorder T)) (inorder U) = inorder T"
  obtain TI' where cmp: "compareTreeWithSection L R = Some (P, TI')" "P \<longrightarrow> (TI' = [] \<longleftrightarrow> inorder U = inorder T)"
    using compareTreeWithSection_spec [OF L(2,3) R(2,3)] L(4) R(4) by (auto simp: P_def)
  have "inorder U = inorder T \<Longrightarrow> P" by (simp add: P_def)
  then have "P \<and> TI' = [] \<longleftrightarrow> inorder T = inorder U" using cmp(2) by auto
  ultimately show ?thesis using L(1) R(1) cmp(1) by blast
qed

theorem isEqual_decides_witness:
  "tree_isEqual (\<lambda>a b. False) (TNode TNull (1, ()) 2 (TNode TNull (2 :: nat, ()) 1 TNull))
     (TNode (TNode TNull (1, ()) 1 TNull) (2 :: nat, ()) 2 TNull) = Some True"
  by (subst conjunct1 [OF isEqual_decides]) simp_all

end
