(* ===== verification/IRType.thy ===== *)
theory IRType
  imports LLVM_Prelude
begin

text \<open>
  The types of the intermediate representation (\<open>include/llvm/IR/Type.h\<close>,
  \<open>include/llvm/IR/DerivedTypes.h\<close>, \<open>lib/IR/Type.cpp\<close>): the type identifiers, the classification
  predicates, the accessors and the primitive sizes.

  Types are uniqued by their context, so the pointer comparisons of the code are equalities of
  \<open>ir_type\<close> values. An identified struct has no structure of its own: it is a name whose body is
  looked up in a context and may be missing (an opaque struct) or mention the struct itself.
  An accessor that \<open>cast\<close>s to a subclass is \<open>None\<close> on every other type; sizes are
  \<open>unsigned\<close> and wrap modulo \<open>2 ^ 32\<close>.
\<close>

datatype TypeID =
    VoidTyID | HalfTyID | FloatTyID | DoubleTyID | X86_FP80TyID | FP128TyID | PPC_FP128TyID
  | LabelTyID | MetadataTyID | X86_MMXTyID
  | IntegerTyID | FunctionTyID | StructTyID | ArrayTyID | PointerTyID | VectorTyID

datatype ir_type =
    VoidTy | HalfTy | FloatTy | DoubleTy | X86_FP80Ty | FP128Ty | PPC_FP128Ty
  | LabelTy | MetadataTy | X86_MMXTy
  | IntegerTy nat                            \<comment> \<open>the bit width\<close>
  | FunctionTy ir_type "ir_type list" bool   \<comment> \<open>result, parameters, variadic\<close>
  | StructTy "ir_type list" bool             \<comment> \<open>literal struct: elements, packed\<close>
  | NamedStruct nat                          \<comment> \<open>identified struct\<close>
  | ArrayTy ir_type nat                      \<comment> \<open>element type, number of elements\<close>
  | PointerTy ir_type nat                    \<comment> \<open>pointee, address space\<close>
  | VectorTy ir_type nat                     \<comment> \<open>element type, number of elements\<close>

text \<open>The bodies of the identified structs of a context; a missing body is an opaque struct.\<close>

type_synonym struct_bodies = "nat \<rightharpoonup> ir_type list"

fun getTypeID :: "ir_type \<Rightarrow> TypeID" where
  "getTypeID VoidTy = VoidTyID"
| "getTypeID HalfTy = HalfTyID"
| "getTypeID FloatTy = FloatTyID"
| "getTypeID DoubleTy = DoubleTyID"
| "getTypeID X86_FP80Ty = X86_FP80TyID"
| "getTypeID FP128Ty = FP128TyID"
| "getTypeID PPC_FP128Ty = PPC_FP128TyID"
| "getTypeID LabelTy = LabelTyID"
| "getTypeID MetadataTy = MetadataTyID"
| "getTypeID X86_MMXTy = X86_MMXTyID"
| "getTypeID (IntegerTy n) = IntegerTyID"
| "getTypeID (FunctionTy r ps v) = FunctionTyID"
| "getTypeID (StructTy es p) = StructTyID"
| "getTypeID (NamedStruct s) = StructTyID"
| "getTypeID (ArrayTy e n) = ArrayTyID"
| "getTypeID (PointerTy e a) = PointerTyID"
| "getTypeID (VectorTy e n) = VectorTyID"

section \<open>Classification\<close>

definition isVoidTy :: "ir_type \<Rightarrow> bool" where "isVoidTy t \<longleftrightarrow> getTypeID t = VoidTyID"
definition isX86_MMXTy :: "ir_type \<Rightarrow> bool" where "isX86_MMXTy t \<longleftrightarrow> getTypeID t = X86_MMXTyID"
definition isLabelTy :: "ir_type \<Rightarrow> bool" where "isLabelTy t \<longleftrightarrow> getTypeID t = LabelTyID"
definition isMetadataTy :: "ir_type \<Rightarrow> bool" where "isMetadataTy t \<longleftrightarrow> getTypeID t = MetadataTyID"
definition isIntegerTy :: "ir_type \<Rightarrow> bool" where "isIntegerTy t \<longleftrightarrow> getTypeID t = IntegerTyID"
definition isFunctionTy :: "ir_type \<Rightarrow> bool" where "isFunctionTy t \<longleftrightarrow> getTypeID t = FunctionTyID"
definition isStructTy :: "ir_type \<Rightarrow> bool" where "isStructTy t \<longleftrightarrow> getTypeID t = StructTyID"
definition isArrayTy :: "ir_type \<Rightarrow> bool" where "isArrayTy t \<longleftrightarrow> getTypeID t = ArrayTyID"
definition isPointerTy :: "ir_type \<Rightarrow> bool" where "isPointerTy t \<longleftrightarrow> getTypeID t = PointerTyID"
definition isVectorTy :: "ir_type \<Rightarrow> bool" where "isVectorTy t \<longleftrightarrow> getTypeID t = VectorTyID"

definition isFloatingPointTy :: "ir_type \<Rightarrow> bool" where
  "isFloatingPointTy t \<longleftrightarrow> getTypeID t = HalfTyID \<or> getTypeID t = FloatTyID \<or> getTypeID t = DoubleTyID
     \<or> getTypeID t = X86_FP80TyID \<or> getTypeID t = FP128TyID \<or> getTypeID t = PPC_FP128TyID"

fun getScalarType :: "ir_type \<Rightarrow> ir_type" where
  "getScalarType (VectorTy e n) = e"
| "getScalarType t = t"

definition isFPOrFPVectorTy :: "ir_type \<Rightarrow> bool" where
  "isFPOrFPVectorTy t \<longleftrightarrow> isFloatingPointTy (getScalarType t)"

definition isIntOrIntVectorTy :: "ir_type \<Rightarrow> bool" where
  "isIntOrIntVectorTy t \<longleftrightarrow> isIntegerTy (getScalarType t)"

definition isPtrOrPtrVectorTy :: "ir_type \<Rightarrow> bool" where
  "isPtrOrPtrVectorTy t \<longleftrightarrow> isPointerTy (getScalarType t)"

definition isFirstClassType :: "ir_type \<Rightarrow> bool" where
  "isFirstClassType t \<longleftrightarrow> getTypeID t \<noteq> FunctionTyID \<and> getTypeID t \<noteq> VoidTyID"

definition isSingleValueType :: "ir_type \<Rightarrow> bool" where
  "isSingleValueType t \<longleftrightarrow> isFloatingPointTy t \<or> isX86_MMXTy t \<or> isIntegerTy t
     \<or> isPointerTy t \<or> isVectorTy t"

definition isAggregateType :: "ir_type \<Rightarrow> bool" where
  "isAggregateType t \<longleftrightarrow> getTypeID t = StructTyID \<or> getTypeID t = ArrayTyID"

named_theorems ty_defs
lemmas [ty_defs] = isVoidTy_def isX86_MMXTy_def isLabelTy_def isMetadataTy_def isIntegerTy_def
  isFunctionTy_def isStructTy_def isArrayTy_def isPointerTy_def isVectorTy_def isFloatingPointTy_def
  isFPOrFPVectorTy_def isIntOrIntVectorTy_def isPtrOrPtrVectorTy_def isFirstClassType_def
  isSingleValueType_def isAggregateType_def

section \<open>Accessors\<close>

fun getIntegerBitWidth :: "ir_type \<Rightarrow> nat option" where
  "getIntegerBitWidth (IntegerTy n) = Some n"
| "getIntegerBitWidth t = None"

fun getSequentialElementType :: "ir_type \<Rightarrow> ir_type option" where
  "getSequentialElementType (ArrayTy e n) = Some e"
| "getSequentialElementType (PointerTy e a) = Some e"
| "getSequentialElementType (VectorTy e n) = Some e"
| "getSequentialElementType t = None"

definition getPointerElementType :: "ir_type \<Rightarrow> ir_type option" where
  "getPointerElementType t = getSequentialElementType t"

fun getVectorNumElements :: "ir_type \<Rightarrow> nat option" where
  "getVectorNumElements (VectorTy e n) = Some n"
| "getVectorNumElements t = None"

fun getAddressSpace :: "ir_type \<Rightarrow> nat option" where
  "getAddressSpace (PointerTy e a) = Some a"
| "getAddressSpace t = None"

definition getPointerAddressSpace :: "ir_type \<Rightarrow> nat option" where
  "getPointerAddressSpace t = getAddressSpace (getScalarType t)"

section \<open>Sizes\<close>

fun getPrimitiveSizeInBits :: "ir_type \<Rightarrow> nat" where
  "getPrimitiveSizeInBits HalfTy = 16"
| "getPrimitiveSizeInBits FloatTy = 32"
| "getPrimitiveSizeInBits DoubleTy = 64"
| "getPrimitiveSizeInBits X86_FP80Ty = 80"
| "getPrimitiveSizeInBits FP128Ty = 128"
| "getPrimitiveSizeInBits PPC_FP128Ty = 128"
| "getPrimitiveSizeInBits X86_MMXTy = 64"
| "getPrimitiveSizeInBits (IntegerTy n) = n"
| "getPrimitiveSizeInBits (VectorTy e n) = n * getPrimitiveSizeInBits e mod 2 ^ 32"
| "getPrimitiveSizeInBits t = 0"

text \<open>\<open>VectorType::getBitWidth\<close>\<close>

definition vector_getBitWidth :: "ir_type \<Rightarrow> nat \<Rightarrow> nat" where
  "vector_getBitWidth e n = n * getPrimitiveSizeInBits e mod 2 ^ 32"

definition getScalarSizeInBits :: "ir_type \<Rightarrow> nat" where
  "getScalarSizeInBits t = getPrimitiveSizeInBits (getScalarType t)"

fun getFPMantissaWidth :: "ir_type \<Rightarrow> int option" where
  "getFPMantissaWidth (VectorTy e n) = getFPMantissaWidth e"
| "getFPMantissaWidth t = (if \<not> isFloatingPointTy t then None
     else if getTypeID t = HalfTyID then Some 11
     else if getTypeID t = FloatTyID then Some 24
     else if getTypeID t = DoubleTyID then Some 53
     else if getTypeID t = X86_FP80TyID then Some 64
     else if getTypeID t = FP128TyID then Some 113
     else if getTypeID t \<noteq> PPC_FP128TyID then None
     else Some (- 1))"

fun canLosslesslyBitCastTo :: "ir_type \<Rightarrow> ir_type \<Rightarrow> bool" where
  "canLosslesslyBitCastTo t Ty =
    (if t = Ty then True
     else if \<not> isFirstClassType t \<or> \<not> isFirstClassType Ty then False
     else case (t, Ty) of
       (VectorTy e n, VectorTy e' n') \<Rightarrow> vector_getBitWidth e n = vector_getBitWidth e' n'
     | (VectorTy e n, X86_MMXTy) \<Rightarrow> vector_getBitWidth e n = 64
     | (X86_MMXTy, VectorTy e n) \<Rightarrow> vector_getBitWidth e n = 64
     | (PointerTy e a, PointerTy e' a') \<Rightarrow> a = a'
     | _ \<Rightarrow> False)"

section \<open>Well-formed types\<close>

text \<open>The element tests the constructors assert.\<close>

definition struct_isValidElementType :: "ir_type \<Rightarrow> bool" where
  "struct_isValidElementType t \<longleftrightarrow> \<not> isVoidTy t \<and> \<not> isLabelTy t \<and> \<not> isMetadataTy t \<and> \<not> isFunctionTy t"

definition array_isValidElementType :: "ir_type \<Rightarrow> bool" where
  "array_isValidElementType t \<longleftrightarrow> \<not> isVoidTy t \<and> \<not> isLabelTy t \<and> \<not> isMetadataTy t \<and> \<not> isFunctionTy t"

definition vector_isValidElementType :: "ir_type \<Rightarrow> bool" where
  "vector_isValidElementType t \<longleftrightarrow> isIntegerTy t \<or> isFloatingPointTy t \<or> isPointerTy t"

definition pointer_isValidElementType :: "ir_type \<Rightarrow> bool" where
  "pointer_isValidElementType t \<longleftrightarrow> \<not> isVoidTy t \<and> \<not> isLabelTy t \<and> \<not> isMetadataTy t"

text \<open>The assertions of \<open>IntegerType::get\<close>, \<open>VectorType::get\<close>, \<open>ArrayType::get\<close> and \<open>PointerType::get\<close>.\<close>

definition IntegerType_get :: "nat \<Rightarrow> ir_type option" where
  "IntegerType_get NumBits = (if NumBits < 1 then None else if NumBits > 2 ^ 23 - 1 then None
     else Some (IntegerTy NumBits))"

definition VectorType_get :: "ir_type \<Rightarrow> nat \<Rightarrow> ir_type option" where
  "VectorType_get e n = (if \<not> n > 0 then None else if \<not> vector_isValidElementType e then None
     else Some (VectorTy e n))"

definition ArrayType_get :: "ir_type \<Rightarrow> nat \<Rightarrow> ir_type option" where
  "ArrayType_get e n = (if \<not> array_isValidElementType e then None else Some (ArrayTy e n))"

definition PointerType_get :: "ir_type \<Rightarrow> nat \<Rightarrow> ir_type option" where
  "PointerType_get e a = (if \<not> pointer_isValidElementType e then None else Some (PointerTy e a))"

text \<open>What these assertions make of the types a program can have: every integer has a legal width
  and every vector a legal element type.\<close>

fun wf_type :: "ir_type \<Rightarrow> bool" where
  "wf_type (IntegerTy n) \<longleftrightarrow> 1 \<le> n \<and> n \<le> 2 ^ 23 - 1"
| "wf_type (VectorTy e n) \<longleftrightarrow> 0 < n \<and> n < 2 ^ 32 \<and> vector_isValidElementType e \<and> wf_type e"
| "wf_type (ArrayTy e n) \<longleftrightarrow> array_isValidElementType e \<and> wf_type e"
| "wf_type (PointerTy e a) \<longleftrightarrow> pointer_isValidElementType e \<and> wf_type e"
| "wf_type (FunctionTy r ps v) \<longleftrightarrow> wf_type r \<and> (\<forall>p \<in> set ps. wf_type p)"
| "wf_type (StructTy es p) \<longleftrightarrow> (\<forall>e \<in> set es. struct_isValidElementType e \<and> wf_type e)"
| "wf_type t \<longleftrightarrow> True"

section \<open>Derived vector types\<close>

text \<open>\<open>VectorType::getInteger\<close> and its relatives.\<close>

fun vector_getInteger :: "ir_type \<Rightarrow> ir_type option" where
  "vector_getInteger (VectorTy e n) =
    (let EltBits = getPrimitiveSizeInBits e
     in if EltBits = 0 then None
        else Option.bind (IntegerType_get EltBits) (\<lambda>EltTy. VectorType_get EltTy n))"
| "vector_getInteger t = None"

fun getExtendedElementVectorType :: "ir_type \<Rightarrow> ir_type option" where
  "getExtendedElementVectorType (VectorTy e n) =
    (let EltBits = getPrimitiveSizeInBits e
     in Option.bind (IntegerType_get (EltBits * 2 mod 2 ^ 32)) (\<lambda>EltTy. VectorType_get EltTy n))"
| "getExtendedElementVectorType t = None"

fun getTruncatedElementVectorType :: "ir_type \<Rightarrow> ir_type option" where
  "getTruncatedElementVectorType (VectorTy e n) =
    (let EltBits = getPrimitiveSizeInBits e
     in if odd EltBits then None
        else Option.bind (IntegerType_get (EltBits div 2)) (\<lambda>EltTy. VectorType_get EltTy n))"
| "getTruncatedElementVectorType t = None"

fun getHalfElementsVectorType :: "ir_type \<Rightarrow> ir_type option" where
  "getHalfElementsVectorType (VectorTy e n) = (if odd n then None else VectorType_get e (n div 2))"
| "getHalfElementsVectorType t = None"

fun getDoubleElementsVectorType :: "ir_type \<Rightarrow> ir_type option" where
  "getDoubleElementsVectorType (VectorTy e n) = VectorType_get e (n * 2 mod 2 ^ 32)"
| "getDoubleElementsVectorType t = None"

section \<open>Facts about the classes\<close>

text \<open>The classes of scalar types are disjoint, and a legal vector element is a scalar.\<close>

lemma isIntegerTy_iff: "isIntegerTy t \<longleftrightarrow> (\<exists>n. t = IntegerTy n)"
  by (cases t) (auto simp: ty_defs)

lemma isPointerTy_iff: "isPointerTy t \<longleftrightarrow> (\<exists>e a. t = PointerTy e a)"
  by (cases t) (auto simp: ty_defs)

lemma isVectorTy_iff: "isVectorTy t \<longleftrightarrow> (\<exists>e n. t = VectorTy e n)"
  by (cases t) (auto simp: ty_defs)

lemma isVectorTy_simps [simp]: "isVectorTy (VectorTy e n)" "\<not> isVectorTy (IntegerTy w)" "\<not> isVectorTy (PointerTy e a)"
  by (simp_all add: ty_defs)

lemma scalar_classes:
  "isIntegerTy t \<Longrightarrow> \<not> isFloatingPointTy t \<and> \<not> isPointerTy t \<and> \<not> isVectorTy t \<and> \<not> isX86_MMXTy t \<and> \<not> isAggregateType t"
  "isFloatingPointTy t \<Longrightarrow> \<not> isIntegerTy t \<and> \<not> isPointerTy t \<and> \<not> isVectorTy t \<and> \<not> isX86_MMXTy t \<and> \<not> isAggregateType t"
  "isPointerTy t \<Longrightarrow> \<not> isIntegerTy t \<and> \<not> isFloatingPointTy t \<and> \<not> isVectorTy t \<and> \<not> isX86_MMXTy t \<and> \<not> isAggregateType t"
  "isVectorTy t \<Longrightarrow> \<not> isIntegerTy t \<and> \<not> isFloatingPointTy t \<and> \<not> isPointerTy t \<and> \<not> isX86_MMXTy t \<and> \<not> isAggregateType t"
  by (auto simp: ty_defs)

lemma getScalarType_scalar [simp]: "\<not> isVectorTy t \<Longrightarrow> getScalarType t = t"
  by (cases t) (auto simp: ty_defs)

lemma wf_scalar_not_vector: "wf_type t \<Longrightarrow> \<not> isVectorTy (getScalarType t)"
  by (cases t) (auto simp: ty_defs vector_isValidElementType_def)

lemma getAddressSpace_iff: "getAddressSpace t = None \<longleftrightarrow> \<not> isPointerTy t"
  by (cases t) (auto simp: ty_defs)

lemma getPointerAddressSpace_iff: "getPointerAddressSpace t = None \<longleftrightarrow> \<not> isPtrOrPtrVectorTy t"
  by (simp add: getPointerAddressSpace_def getAddressSpace_iff isPtrOrPtrVectorTy_def)

lemma vector_getBitWidth [simp]: "getPrimitiveSizeInBits (VectorTy e n) = vector_getBitWidth e n"
  by (simp add: vector_getBitWidth_def)

lemma getPrimitiveSizeInBits_pointer: "isPointerTy t \<Longrightarrow> getPrimitiveSizeInBits t = 0"
  by (auto simp: isPointerTy_iff)

lemma getPrimitiveSizeInBits_pos: "isIntegerTy t \<or> isFloatingPointTy t \<Longrightarrow> wf_type t \<Longrightarrow> 0 < getPrimitiveSizeInBits t"
  by (cases t) (auto simp: ty_defs)

end
