(* ===== verification/CastOps.thy ===== *)
theory CastOps
  imports IRType
begin

text \<open>
  Cast instructions (\<open>CastInst\<close> in \<open>lib/IR/Instructions.cpp\<close>): which opcode converts one type to
  another, which casts are valid, which need no code, and which opcode replaces a pair of casts.

  A cast is its opcode and its two types; the operand value matters only through its type.
  Assertions and \<open>llvm_unreachable\<close> are \<open>None\<close>. The result \<open>0\<close> of \<open>isEliminableCastPair\<close>
  (no replacement) is \<open>Some None\<close>.
\<close>

datatype cast_op = Trunc | ZExt | SExt | FPToUI | FPToSI | UIToFP | SIToFP | FPTrunc | FPExt
  | PtrToInt | IntToPtr | BitCast | AddrSpaceCast

text \<open>The opcodes of \<open>include/llvm/IR/Instruction.def\<close>; \<open>CastOpsBegin\<close> is 33.\<close>

fun op_code :: "cast_op \<Rightarrow> nat" where
  "op_code Trunc = 33" | "op_code ZExt = 34" | "op_code SExt = 35" | "op_code FPToUI = 36"
| "op_code FPToSI = 37" | "op_code UIToFP = 38" | "op_code SIToFP = 39" | "op_code FPTrunc = 40"
| "op_code FPExt = 41" | "op_code PtrToInt = 42" | "op_code IntToPtr = 43" | "op_code BitCast = 44"
| "op_code AddrSpaceCast = 45"

record cast_inst =
  inst_opcode :: cast_op
  inst_src :: ir_type    \<comment> \<open>the type of operand 0\<close>
  inst_type :: ir_type   \<comment> \<open>the type of the instruction\<close>

section \<open>Validity\<close>

text \<open>The number of elements of a vector type, zero for every other type.\<close>

definition vector_length :: "ir_type \<Rightarrow> nat" where
  "vector_length t = (case getVectorNumElements t of Some n \<Rightarrow> n | None \<Rightarrow> 0)"

definition pointer_cast_shape :: "ir_type \<Rightarrow> ir_type \<Rightarrow> bool" where
  "pointer_cast_shape SrcTy DstTy \<longleftrightarrow>
    (if isVectorTy SrcTy \<noteq> isVectorTy DstTy then False
     else case getVectorNumElements SrcTy of
       Some n \<Rightarrow> getVectorNumElements DstTy = Some n
     | None \<Rightarrow> True)"

definition pointer_vector_shape :: "ir_type \<Rightarrow> ir_type \<Rightarrow> bool" where
  "pointer_vector_shape SrcTy DstTy \<longleftrightarrow>
    (case getVectorNumElements SrcTy of
       Some n \<Rightarrow> (case getVectorNumElements DstTy of Some n' \<Rightarrow> n = n' | None \<Rightarrow> False)
     | None \<Rightarrow> True)"

definition castIsValid :: "cast_op \<Rightarrow> ir_type \<Rightarrow> ir_type \<Rightarrow> bool" where
  "castIsValid opc SrcTy DstTy =
    (if \<not> isFirstClassType SrcTy \<or> \<not> isFirstClassType DstTy \<or>
        isAggregateType SrcTy \<or> isAggregateType DstTy then False
     else
       let SrcBitSize = getScalarSizeInBits SrcTy; DstBitSize = getScalarSizeInBits DstTy;
           SrcLength = vector_length SrcTy; DstLength = vector_length DstTy;
           SrcPtr = getPointerAddressSpace SrcTy; DstPtr = getPointerAddressSpace DstTy
       in case opc of
         Trunc \<Rightarrow> isIntOrIntVectorTy SrcTy \<and> isIntOrIntVectorTy DstTy \<and>
                  SrcLength = DstLength \<and> SrcBitSize > DstBitSize
       | ZExt \<Rightarrow> isIntOrIntVectorTy SrcTy \<and> isIntOrIntVectorTy DstTy \<and>
                  SrcLength = DstLength \<and> SrcBitSize < DstBitSize
       | SExt \<Rightarrow> isIntOrIntVectorTy SrcTy \<and> isIntOrIntVectorTy DstTy \<and>
                  SrcLength = DstLength \<and> SrcBitSize < DstBitSize
       | FPTrunc \<Rightarrow> isFPOrFPVectorTy SrcTy \<and> isFPOrFPVectorTy DstTy \<and>
                  SrcLength = DstLength \<and> SrcBitSize > DstBitSize
       | FPExt \<Rightarrow> isFPOrFPVectorTy SrcTy \<and> isFPOrFPVectorTy DstTy \<and>
                  SrcLength = DstLength \<and> SrcBitSize < DstBitSize
       | UIToFP \<Rightarrow> isIntOrIntVectorTy SrcTy \<and> isFPOrFPVectorTy DstTy \<and> SrcLength = DstLength
       | SIToFP \<Rightarrow> isIntOrIntVectorTy SrcTy \<and> isFPOrFPVectorTy DstTy \<and> SrcLength = DstLength
       | FPToUI \<Rightarrow> isFPOrFPVectorTy SrcTy \<and> isIntOrIntVectorTy DstTy \<and> SrcLength = DstLength
       | FPToSI \<Rightarrow> isFPOrFPVectorTy SrcTy \<and> isIntOrIntVectorTy DstTy \<and> SrcLength = DstLength
       | PtrToInt \<Rightarrow> pointer_cast_shape SrcTy DstTy \<and>
                  isPointerTy (getScalarType SrcTy) \<and> isIntegerTy (getScalarType DstTy)
       | IntToPtr \<Rightarrow> pointer_cast_shape SrcTy DstTy \<and>
                  isIntegerTy (getScalarType SrcTy) \<and> isPointerTy (getScalarType DstTy)
       | BitCast \<Rightarrow>
           (if (SrcPtr = None) \<noteq> (DstPtr = None) then False
            else if SrcPtr = None then getPrimitiveSizeInBits SrcTy = getPrimitiveSizeInBits DstTy
            else if SrcPtr \<noteq> DstPtr then False
            else pointer_vector_shape SrcTy DstTy)
       | AddrSpaceCast \<Rightarrow>
           (if SrcPtr = None then False
            else if DstPtr = None then False
            else if SrcPtr = DstPtr then False
            else pointer_vector_shape SrcTy DstTy))"

section \<open>Choosing the opcode\<close>

text \<open>Vectors of the same length are cast element by element.\<close>

fun element_types :: "ir_type \<Rightarrow> ir_type \<Rightarrow> ir_type \<times> ir_type" where
  "element_types (VectorTy s n) (VectorTy d m) = (if n = m then (s, d) else (VectorTy s n, VectorTy d m))"
| "element_types s d = (s, d)"

definition isCastable :: "ir_type \<Rightarrow> ir_type \<Rightarrow> bool" where
  "isCastable SrcTy0 DestTy0 =
    (if \<not> isFirstClassType SrcTy0 \<or> \<not> isFirstClassType DestTy0 then False
     else if SrcTy0 = DestTy0 then True
     else
       let (SrcTy, DestTy) = element_types SrcTy0 DestTy0;
           SrcBits = getPrimitiveSizeInBits SrcTy; DestBits = getPrimitiveSizeInBits DestTy
       in if isIntegerTy DestTy then
            (if isIntegerTy SrcTy then True
             else if isFloatingPointTy SrcTy then True
             else if isVectorTy SrcTy then DestBits = SrcBits
             else isPointerTy SrcTy)
          else if isFloatingPointTy DestTy then
            (if isIntegerTy SrcTy then True
             else if isFloatingPointTy SrcTy then True
             else if isVectorTy SrcTy then DestBits = SrcBits
             else False)
          else if isVectorTy DestTy then DestBits = SrcBits
          else if isPointerTy DestTy then
            (if isPointerTy SrcTy then True else isIntegerTy SrcTy)
          else if isX86_MMXTy DestTy then
            (if isVectorTy SrcTy then DestBits = SrcBits else False)
          else False)"

definition getCastOpcode :: "ir_type \<Rightarrow> bool \<Rightarrow> ir_type \<Rightarrow> bool \<Rightarrow> cast_op option" where
  "getCastOpcode SrcTy0 SrcIsSigned DestTy0 DestIsSigned =
    (if \<not> (isFirstClassType SrcTy0 \<and> isFirstClassType DestTy0) then None
     else if SrcTy0 = DestTy0 then Some BitCast
     else
       let (SrcTy, DestTy) = element_types SrcTy0 DestTy0;
           SrcBits = getPrimitiveSizeInBits SrcTy; DestBits = getPrimitiveSizeInBits DestTy
       in if isIntegerTy DestTy then
            (if isIntegerTy SrcTy then
               (if DestBits < SrcBits then Some Trunc
                else if DestBits > SrcBits then (if SrcIsSigned then Some SExt else Some ZExt)
                else Some BitCast)
             else if isFloatingPointTy SrcTy then (if DestIsSigned then Some FPToSI else Some FPToUI)
             else if isVectorTy SrcTy then (if DestBits = SrcBits then Some BitCast else None)
             else if isPointerTy SrcTy then Some PtrToInt else None)
          else if isFloatingPointTy DestTy then
            (if isIntegerTy SrcTy then (if SrcIsSigned then Some SIToFP else Some UIToFP)
             else if isFloatingPointTy SrcTy then
               (if DestBits < SrcBits then Some FPTrunc
                else if DestBits > SrcBits then Some FPExt
                else Some BitCast)
             else if isVectorTy SrcTy then (if DestBits = SrcBits then Some BitCast else None)
             else None)
          else if isVectorTy DestTy then (if DestBits = SrcBits then Some BitCast else None)
          else if isPointerTy DestTy then
            (if isPointerTy SrcTy then
               (if getPointerAddressSpace DestTy \<noteq> getPointerAddressSpace SrcTy then Some AddrSpaceCast
                else Some BitCast)
             else if isIntegerTy SrcTy then Some IntToPtr
             else None)
          else if isX86_MMXTy DestTy then
            (if isVectorTy SrcTy then (if DestBits = SrcBits then Some BitCast else None)
             else None)
          else None)"

definition isBitCastable :: "ir_type \<Rightarrow> ir_type \<Rightarrow> bool" where
  "isBitCastable SrcTy0 DestTy0 =
    (if \<not> isFirstClassType SrcTy0 \<or> \<not> isFirstClassType DestTy0 then False
     else if SrcTy0 = DestTy0 then True
     else
       let (SrcTy, DestTy) = element_types SrcTy0 DestTy0
       in case (getAddressSpace DestTy, getAddressSpace SrcTy) of
            (Some d, Some s) \<Rightarrow> s = d
          | _ \<Rightarrow>
            (let SrcBits = getPrimitiveSizeInBits SrcTy; DestBits = getPrimitiveSizeInBits DestTy
             in if SrcBits = 0 \<or> DestBits = 0 then False
                else if SrcBits \<noteq> DestBits then False
                else if isX86_MMXTy DestTy \<or> isX86_MMXTy SrcTy then False
                else True))"

text \<open>The pointer widths come from the data layout: \<open>ptr_bits\<close> maps an address space to
  \<open>DL.getPointerTypeSizeInBits\<close> of its pointers.\<close>

definition isBitOrNoopPointerCastable :: "(nat \<Rightarrow> nat) \<Rightarrow> ir_type \<Rightarrow> ir_type \<Rightarrow> bool" where
  "isBitOrNoopPointerCastable ptr_bits SrcTy DestTy =
    (case (SrcTy, DestTy) of
       (PointerTy e a, IntegerTy n) \<Rightarrow> n = ptr_bits a
     | (IntegerTy n, PointerTy e a) \<Rightarrow> n = ptr_bits a
     | _ \<Rightarrow> isBitCastable SrcTy DestTy)"

section \<open>Creating casts\<close>

definition Create :: "cast_op \<Rightarrow> ir_type \<Rightarrow> ir_type \<Rightarrow> cast_inst option" where
  "Create opc S Ty = (if castIsValid opc S Ty then Some \<lparr>inst_opcode = opc, inst_src = S, inst_type = Ty\<rparr> else None)"

definition CreateZExtOrBitCast :: "ir_type \<Rightarrow> ir_type \<Rightarrow> cast_inst option" where
  "CreateZExtOrBitCast S Ty =
    (if getScalarSizeInBits S = getScalarSizeInBits Ty then Create BitCast S Ty else Create ZExt S Ty)"

definition CreateSExtOrBitCast :: "ir_type \<Rightarrow> ir_type \<Rightarrow> cast_inst option" where
  "CreateSExtOrBitCast S Ty =
    (if getScalarSizeInBits S = getScalarSizeInBits Ty then Create BitCast S Ty else Create SExt S Ty)"

definition CreateTruncOrBitCast :: "ir_type \<Rightarrow> ir_type \<Rightarrow> cast_inst option" where
  "CreateTruncOrBitCast S Ty =
    (if getScalarSizeInBits S = getScalarSizeInBits Ty then Create BitCast S Ty else Create Trunc S Ty)"

definition CreatePointerBitCastOrAddrSpaceCast :: "ir_type \<Rightarrow> ir_type \<Rightarrow> cast_inst option" where
  "CreatePointerBitCastOrAddrSpaceCast S Ty =
    (if \<not> isPtrOrPtrVectorTy S then None
     else if \<not> isPtrOrPtrVectorTy Ty then None
     else if getPointerAddressSpace S \<noteq> getPointerAddressSpace Ty then Create AddrSpaceCast S Ty
     else Create BitCast S Ty)"

definition CreatePointerCast :: "ir_type \<Rightarrow> ir_type \<Rightarrow> cast_inst option" where
  "CreatePointerCast S Ty =
    (if \<not> isPtrOrPtrVectorTy S then None
     else if \<not> (isIntOrIntVectorTy Ty \<or> isPtrOrPtrVectorTy Ty) then None
     else if isVectorTy Ty \<noteq> isVectorTy S then None
     else if isVectorTy Ty \<and> getVectorNumElements Ty \<noteq> getVectorNumElements S then None
     else if isIntOrIntVectorTy Ty then Create PtrToInt S Ty
     else CreatePointerBitCastOrAddrSpaceCast S Ty)"

definition CreateBitOrPointerCast :: "ir_type \<Rightarrow> ir_type \<Rightarrow> cast_inst option" where
  "CreateBitOrPointerCast S Ty =
    (if isPointerTy S \<and> isIntegerTy Ty then Create PtrToInt S Ty
     else if isIntegerTy S \<and> isPointerTy Ty then Create IntToPtr S Ty
     else Create BitCast S Ty)"

definition CreateIntegerCast :: "ir_type \<Rightarrow> ir_type \<Rightarrow> bool \<Rightarrow> cast_inst option" where
  "CreateIntegerCast C Ty isSigned =
    (if \<not> (isIntOrIntVectorTy C \<and> isIntOrIntVectorTy Ty) then None
     else let SrcBits = getScalarSizeInBits C; DstBits = getScalarSizeInBits Ty;
              opcode = (if SrcBits = DstBits then BitCast
                        else if SrcBits > DstBits then Trunc
                        else if isSigned then SExt else ZExt)
          in Create opcode C Ty)"

definition CreateFPCast :: "ir_type \<Rightarrow> ir_type \<Rightarrow> cast_inst option" where
  "CreateFPCast C Ty =
    (if \<not> (isFPOrFPVectorTy C \<and> isFPOrFPVectorTy Ty) then None
     else let SrcBits = getScalarSizeInBits C; DstBits = getScalarSizeInBits Ty;
              opcode = (if SrcBits = DstBits then BitCast
                        else if SrcBits > DstBits then FPTrunc else FPExt)
          in Create opcode C Ty)"

section \<open>Properties of one cast\<close>

definition isIntegerCast :: "cast_inst \<Rightarrow> bool" where
  "isIntegerCast c = (case inst_opcode c of
     ZExt \<Rightarrow> True | SExt \<Rightarrow> True | Trunc \<Rightarrow> True
   | BitCast \<Rightarrow> isIntegerTy (inst_src c) \<and> isIntegerTy (inst_type c)
   | _ \<Rightarrow> False)"

definition isLosslessCast :: "cast_inst \<Rightarrow> bool" where
  "isLosslessCast c =
    (if inst_opcode c \<noteq> BitCast then False
     else if inst_src c = inst_type c then True
     else if isPointerTy (inst_src c) then isPointerTy (inst_type c)
     else False)"

definition isNoopCast :: "cast_op \<Rightarrow> ir_type \<Rightarrow> ir_type \<Rightarrow> ir_type \<Rightarrow> bool" where
  "isNoopCast opc S D IntPtrTy = (case opc of
     BitCast \<Rightarrow> True
   | PtrToInt \<Rightarrow> getScalarSizeInBits IntPtrTy = getScalarSizeInBits D
   | IntToPtr \<Rightarrow> getScalarSizeInBits IntPtrTy = getScalarSizeInBits S
   | _ \<Rightarrow> False)"

section \<open>Replacing a pair of casts\<close>

text \<open>The table \<open>CastResults\<close>, row by row: rows are the first opcode, columns the second.\<close>

fun CastResults :: "cast_op \<Rightarrow> nat list" where
                      (* Tr ZX SX FU FS UF SF FT FX PI IP BC AC *)
  "CastResults Trunc    = [1, 0, 0,99,99, 0, 0,99,99,99, 0, 3, 0]"
| "CastResults ZExt     = [8, 1, 9,99,99, 2, 0,99,99,99, 2, 3, 0]"
| "CastResults SExt     = [8, 0, 1,99,99, 0, 2,99,99,99, 0, 3, 0]"
| "CastResults FPToUI   = [0, 0, 0,99,99, 0, 0,99,99,99, 0, 3, 0]"
| "CastResults FPToSI   = [0, 0, 0,99,99, 0, 0,99,99,99, 0, 3, 0]"
| "CastResults UIToFP   = [99,99,99, 0, 0,99,99, 0, 0,99,99, 4, 0]"
| "CastResults SIToFP   = [99,99,99, 0, 0,99,99, 0, 0,99,99, 4, 0]"
| "CastResults FPTrunc  = [99,99,99, 0, 0,99,99, 1, 0,99,99, 4, 0]"
| "CastResults FPExt    = [99,99,99, 2, 2,99,99,10, 2,99,99, 4, 0]"
| "CastResults PtrToInt = [1, 0, 0,99,99, 0, 0,99,99,99, 7, 3, 0]"
| "CastResults IntToPtr = [99,99,99,99,99,99,99,99,99,11,99,15, 0]"
| "CastResults BitCast  = [5, 5, 5, 6, 6, 5, 5, 6, 6,16, 5, 1,14]"
| "CastResults AddrSpaceCast = [0, 0, 0, 0, 0, 0, 0, 0, 0, 0, 0,13,12]"

text \<open>The cases 7, 11, 12, 14 and 8 of the switch.\<close>

definition elim_ptr_int_ptr :: "ir_type \<Rightarrow> ir_type \<Rightarrow> ir_type \<Rightarrow> ir_type option \<Rightarrow> ir_type option \<Rightarrow> cast_op option option" where
  "elim_ptr_int_ptr SrcTy MidTy DstTy SrcIntPtrTy DstIntPtrTy =
    (if getPointerAddressSpace SrcTy = None \<or> getPointerAddressSpace DstTy = None then None
     else if getPointerAddressSpace SrcTy \<noteq> getPointerAddressSpace DstTy then Some None
     else let MidSize = getScalarSizeInBits MidTy
       in if MidSize = 64 then Some (Some BitCast)
          else case SrcIntPtrTy of
            None \<Rightarrow> Some None
          | Some t \<Rightarrow>
              if DstIntPtrTy \<noteq> SrcIntPtrTy then Some None
              else if MidSize \<ge> getScalarSizeInBits t then Some (Some BitCast) else Some None)"

definition elim_int_ptr_int :: "ir_type \<Rightarrow> ir_type \<Rightarrow> ir_type option \<Rightarrow> cast_op option option" where
  "elim_int_ptr_int SrcTy DstTy MidIntPtrTy =
    (case MidIntPtrTy of
       None \<Rightarrow> Some None
     | Some t \<Rightarrow>
        let PtrSize = getScalarSizeInBits t; SrcSize = getScalarSizeInBits SrcTy;
            DstSize = getScalarSizeInBits DstTy
        in if SrcSize \<le> PtrSize \<and> SrcSize = DstSize then Some (Some BitCast) else Some None)"

definition elim_addrspace :: "ir_type \<Rightarrow> ir_type \<Rightarrow> cast_op option option" where
  "elim_addrspace SrcTy DstTy =
    (if getPointerAddressSpace SrcTy = None \<or> getPointerAddressSpace DstTy = None then None
     else if getPointerAddressSpace SrcTy \<noteq> getPointerAddressSpace DstTy then Some (Some AddrSpaceCast)
     else Some (Some BitCast))"

definition elim_bitcast_addrspace :: "ir_type \<Rightarrow> ir_type \<Rightarrow> cast_op option option" where
  "elim_bitcast_addrspace SrcTy DstTy =
    (case (getPointerElementType SrcTy, getPointerElementType DstTy) of
       (Some s, Some d) \<Rightarrow> if s = d then Some (Some AddrSpaceCast) else Some None
     | _ \<Rightarrow> None)"

definition elim_ext_trunc :: "cast_op \<Rightarrow> cast_op \<Rightarrow> ir_type \<Rightarrow> ir_type \<Rightarrow> cast_op option option" where
  "elim_ext_trunc firstOp secondOp SrcTy DstTy =
    (let SrcSize = getScalarSizeInBits SrcTy; DstSize = getScalarSizeInBits DstTy
     in if SrcSize = DstSize then Some (Some BitCast)
        else if SrcSize < DstSize then Some (Some firstOp)
        else Some (Some secondOp))"

definition elim_case :: "nat \<Rightarrow> cast_op \<Rightarrow> cast_op \<Rightarrow> ir_type \<Rightarrow> ir_type \<Rightarrow> ir_type \<Rightarrow>
    ir_type option \<Rightarrow> ir_type option \<Rightarrow> ir_type option \<Rightarrow> cast_op option option" where
  "elim_case ElimCase firstOp secondOp SrcTy MidTy DstTy SrcIntPtrTy MidIntPtrTy DstIntPtrTy =
    (if ElimCase = 0 then Some None
     else if ElimCase = 1 then Some (Some firstOp)
     else if ElimCase = 2 then Some (Some secondOp)
     else if ElimCase = 3 then (if \<not> isVectorTy SrcTy \<and> isIntegerTy DstTy then Some (Some firstOp) else Some None)
     else if ElimCase = 4 then (if isFloatingPointTy DstTy then Some (Some firstOp) else Some None)
     else if ElimCase = 5 then (if isIntegerTy SrcTy then Some (Some secondOp) else Some None)
     else if ElimCase = 6 then (if isFloatingPointTy SrcTy then Some (Some secondOp) else Some None)
     else if ElimCase = 7 then elim_ptr_int_ptr SrcTy MidTy DstTy SrcIntPtrTy DstIntPtrTy
     else if ElimCase = 8 then elim_ext_trunc firstOp secondOp SrcTy DstTy
     else if ElimCase = 9 then Some (Some ZExt)
     else if ElimCase = 10 then (if SrcTy = DstTy then Some (Some BitCast) else Some None)
     else if ElimCase = 11 then elim_int_ptr_int SrcTy DstTy MidIntPtrTy
     else if ElimCase = 12 then elim_addrspace SrcTy DstTy
     else if ElimCase = 13 then
       (if isPtrOrPtrVectorTy SrcTy \<and> isPtrOrPtrVectorTy MidTy \<and> isPtrOrPtrVectorTy DstTy \<and>
           getPointerAddressSpace SrcTy \<noteq> getPointerAddressSpace MidTy \<and>
           getPointerAddressSpace MidTy = getPointerAddressSpace DstTy
        then Some (Some firstOp) else None)
     else if ElimCase = 14 then
       elim_bitcast_addrspace SrcTy DstTy
     else if ElimCase = 15 then
       (if isIntOrIntVectorTy SrcTy \<and> isPtrOrPtrVectorTy MidTy \<and> isPtrOrPtrVectorTy DstTy \<and>
           getPointerAddressSpace MidTy = getPointerAddressSpace DstTy
        then Some (Some firstOp) else None)
     else if ElimCase = 16 then
       (if isPtrOrPtrVectorTy SrcTy \<and> isPtrOrPtrVectorTy MidTy \<and> isIntOrIntVectorTy DstTy \<and>
           getPointerAddressSpace SrcTy = getPointerAddressSpace MidTy
        then Some (Some secondOp) else None)
     else None)"

definition isEliminableCastPair :: "cast_op \<Rightarrow> cast_op \<Rightarrow> ir_type \<Rightarrow> ir_type \<Rightarrow> ir_type \<Rightarrow>
    ir_type option \<Rightarrow> ir_type option \<Rightarrow> ir_type option \<Rightarrow> cast_op option option" where
  "isEliminableCastPair firstOp secondOp SrcTy MidTy DstTy SrcIntPtrTy MidIntPtrTy DstIntPtrTy =
    (let isFirstBitcast = (firstOp = BitCast); isSecondBitcast = (secondOp = BitCast);
         chainedBitcast = (SrcTy = DstTy \<and> isFirstBitcast \<and> isSecondBitcast)
     in if ((isFirstBitcast \<and> isVectorTy SrcTy \<noteq> isVectorTy MidTy) \<or>
            (isSecondBitcast \<and> isVectorTy MidTy \<noteq> isVectorTy DstTy)) \<and> \<not> chainedBitcast
        then Some None
        else elim_case (CastResults firstOp ! (op_code secondOp - op_code Trunc))
               firstOp secondOp SrcTy MidTy DstTy SrcIntPtrTy MidIntPtrTy DstIntPtrTy)"

end
