(* ===== verification/CastSound.thy ===== *)
theory CastSound
  imports CastOps
begin

text \<open>
  What the cast operations promise: the chosen opcode is valid, the replacement of a pair of casts
  is a valid cast of the outer types, and on integers and pointers it has the same value.
\<close>

section \<open>Validity in terms of the scalar class, the length and the size\<close>

lemma class_first_class:
  "isIntOrIntVectorTy t \<Longrightarrow> isFirstClassType t \<and> \<not> isAggregateType t"
  "isFPOrFPVectorTy t \<Longrightarrow> isFirstClassType t \<and> \<not> isAggregateType t"
  "isPtrOrPtrVectorTy t \<Longrightarrow> isFirstClassType t \<and> \<not> isAggregateType t"
  by (cases t; simp add: ty_defs; fail)+

lemma int_facts: "isIntegerTy t \<Longrightarrow> isIntOrIntVectorTy t \<and> \<not> isFPOrFPVectorTy t \<and> \<not> isPtrOrPtrVectorTy t
    \<and> \<not> isVectorTy t \<and> isFirstClassType t \<and> \<not> isAggregateType t"
  by (cases t) (simp_all add: ty_defs)

lemma fp_facts: "isFloatingPointTy t \<Longrightarrow> isFPOrFPVectorTy t \<and> \<not> isIntOrIntVectorTy t \<and> \<not> isPtrOrPtrVectorTy t
    \<and> \<not> isVectorTy t \<and> isFirstClassType t \<and> \<not> isAggregateType t"
  by (cases t) (simp_all add: ty_defs)

lemma ptr_facts: "isPointerTy t \<Longrightarrow> isPtrOrPtrVectorTy t \<and> \<not> isFPOrFPVectorTy t \<and> \<not> isIntOrIntVectorTy t
    \<and> \<not> isVectorTy t \<and> isFirstClassType t \<and> \<not> isAggregateType t"
  by (cases t) (simp_all add: ty_defs)

lemma class_disjoint:
  "isIntOrIntVectorTy t \<Longrightarrow> \<not> isFPOrFPVectorTy t \<and> \<not> isPtrOrPtrVectorTy t"
  "isFPOrFPVectorTy t \<Longrightarrow> \<not> isPtrOrPtrVectorTy t \<and> \<not> isIntOrIntVectorTy t"
  "isPtrOrPtrVectorTy t \<Longrightarrow> \<not> isIntOrIntVectorTy t \<and> \<not> isFPOrFPVectorTy t"
  by (auto simp: isIntOrIntVectorTy_def isFPOrFPVectorTy_def isPtrOrPtrVectorTy_def dest: scalar_classes)

lemma class_scalar:
  "\<not> isVectorTy t \<Longrightarrow> isIntOrIntVectorTy t = isIntegerTy t"
  "\<not> isVectorTy t \<Longrightarrow> isFPOrFPVectorTy t = isFloatingPointTy t"
  "\<not> isVectorTy t \<Longrightarrow> isPtrOrPtrVectorTy t = isPointerTy t"
  by (simp_all add: isIntOrIntVectorTy_def isFPOrFPVectorTy_def isPtrOrPtrVectorTy_def)

lemma vector_length_simps [simp]: "vector_length (VectorTy e n) = n" "vector_length (IntegerTy w) = 0"
    "vector_length (PointerTy e a) = 0"
  by (simp_all add: vector_length_def)

lemma vector_length_0: "wf_type t \<Longrightarrow> vector_length t = 0 \<longleftrightarrow> \<not> isVectorTy t"
  by (cases t) (simp_all add: vector_length_def ty_defs)

lemma length_eq_vector:
  "wf_type s \<Longrightarrow> wf_type d \<Longrightarrow> vector_length s = vector_length d \<Longrightarrow> isVectorTy s = isVectorTy d"
  using vector_length_0 by metis

lemma getVectorNumElements_eq: "getVectorNumElements t = (if isVectorTy t then Some (vector_length t) else None)"
  by (cases t) (simp_all add: vector_length_def ty_defs)

lemma pointer_cast_shape_iff: "wf_type s \<Longrightarrow> wf_type d \<Longrightarrow>
    pointer_cast_shape s d \<longleftrightarrow> vector_length s = vector_length d"
  using vector_length_0 [of s] vector_length_0 [of d]
  by (auto simp: pointer_cast_shape_def getVectorNumElements_eq)

lemma pointer_vector_shape_iff: "wf_type s \<Longrightarrow> wf_type d \<Longrightarrow>
    pointer_vector_shape s d \<longleftrightarrow> \<not> isVectorTy s \<or> vector_length s = vector_length d"
  using vector_length_0 [of s] vector_length_0 [of d]
  by (auto simp: pointer_vector_shape_def getVectorNumElements_eq)

lemma primitive_size: "getPrimitiveSizeInBits t =
    (if isVectorTy t then vector_length t * getScalarSizeInBits t mod 2 ^ 32 else getScalarSizeInBits t)"
  by (cases t) (simp_all add: vector_length_def getScalarSizeInBits_def vector_getBitWidth_def ty_defs)

lemma int_type_eqI:
  "isIntOrIntVectorTy s \<Longrightarrow> isIntOrIntVectorTy d \<Longrightarrow> wf_type s \<Longrightarrow> wf_type d \<Longrightarrow>
   vector_length s = vector_length d \<Longrightarrow> getScalarSizeInBits s = getScalarSizeInBits d \<Longrightarrow> s = d"
  by (cases s; cases d; auto simp: isIntOrIntVectorTy_def isIntegerTy_iff getScalarSizeInBits_def
      vector_length_def ty_defs)

lemma castIsValid_iff:
  assumes "wf_type s" "wf_type d"
  shows "castIsValid Trunc s d \<longleftrightarrow> isIntOrIntVectorTy s \<and> isIntOrIntVectorTy d \<and>
           vector_length s = vector_length d \<and> getScalarSizeInBits d < getScalarSizeInBits s"
    and "castIsValid ZExt s d \<longleftrightarrow> isIntOrIntVectorTy s \<and> isIntOrIntVectorTy d \<and>
           vector_length s = vector_length d \<and> getScalarSizeInBits s < getScalarSizeInBits d"
    and "castIsValid SExt s d \<longleftrightarrow> isIntOrIntVectorTy s \<and> isIntOrIntVectorTy d \<and>
           vector_length s = vector_length d \<and> getScalarSizeInBits s < getScalarSizeInBits d"
    and "castIsValid FPTrunc s d \<longleftrightarrow> isFPOrFPVectorTy s \<and> isFPOrFPVectorTy d \<and>
           vector_length s = vector_length d \<and> getScalarSizeInBits d < getScalarSizeInBits s"
    and "castIsValid FPExt s d \<longleftrightarrow> isFPOrFPVectorTy s \<and> isFPOrFPVectorTy d \<and>
           vector_length s = vector_length d \<and> getScalarSizeInBits s < getScalarSizeInBits d"
    and "castIsValid UIToFP s d \<longleftrightarrow> isIntOrIntVectorTy s \<and> isFPOrFPVectorTy d \<and> vector_length s = vector_length d"
    and "castIsValid SIToFP s d \<longleftrightarrow> isIntOrIntVectorTy s \<and> isFPOrFPVectorTy d \<and> vector_length s = vector_length d"
    and "castIsValid FPToUI s d \<longleftrightarrow> isFPOrFPVectorTy s \<and> isIntOrIntVectorTy d \<and> vector_length s = vector_length d"
    and "castIsValid FPToSI s d \<longleftrightarrow> isFPOrFPVectorTy s \<and> isIntOrIntVectorTy d \<and> vector_length s = vector_length d"
    and "castIsValid PtrToInt s d \<longleftrightarrow> isPtrOrPtrVectorTy s \<and> isIntOrIntVectorTy d \<and> vector_length s = vector_length d"
    and "castIsValid IntToPtr s d \<longleftrightarrow> isIntOrIntVectorTy s \<and> isPtrOrPtrVectorTy d \<and> vector_length s = vector_length d"
    and "castIsValid AddrSpaceCast s d \<longleftrightarrow> isPtrOrPtrVectorTy s \<and> isPtrOrPtrVectorTy d \<and>
           getPointerAddressSpace s \<noteq> getPointerAddressSpace d \<and>
           (\<not> isVectorTy s \<or> vector_length s = vector_length d)"
    and "castIsValid BitCast s d \<longleftrightarrow> isFirstClassType s \<and> isFirstClassType d \<and> \<not> isAggregateType s \<and>
           \<not> isAggregateType d \<and> (isPtrOrPtrVectorTy s = isPtrOrPtrVectorTy d) \<and>
           (if isPtrOrPtrVectorTy s then getPointerAddressSpace s = getPointerAddressSpace d \<and>
              (\<not> isVectorTy s \<or> vector_length s = vector_length d)
            else getPrimitiveSizeInBits s = getPrimitiveSizeInBits d)"
  unfolding castIsValid_def Let_def
  using class_first_class [of s] class_first_class [of d]
  by (auto simp: pointer_cast_shape_iff assms pointer_vector_shape_iff getPointerAddressSpace_iff
      isPtrOrPtrVectorTy_def isIntOrIntVectorTy_def)

section \<open>Choosing an opcode\<close>

lemma getCastOpcode_isCastable:
  "(\<exists>opc. getCastOpcode s b d b' = Some opc) \<longleftrightarrow> isCastable s d"
  unfolding getCastOpcode_def isCastable_def
  by (simp add: Let_def split: prod.split)

lemma element_types_cases:
  obtains (vectors) es ed n where "s = VectorTy es n" "d = VectorTy ed n" "element_types s d = (es, ed)"
  | (others) "element_types s d = (s, d)" "isVectorTy s \<Longrightarrow> isVectorTy d \<Longrightarrow> vector_length s \<noteq> vector_length d"
proof (cases "\<exists>es ed n. s = VectorTy es n \<and> d = VectorTy ed n")
  case True
  then show ?thesis using vectors by auto
next
  case False
  then have "element_types s d = (s, d)" by (cases "(s, d)" rule: element_types.cases) auto
  moreover have "\<not> (isVectorTy s \<and> isVectorTy d \<and> vector_length s = vector_length d) \<or> element_types s d \<noteq> (s, d)"
    using False by (auto simp: isVectorTy_iff)
  ultimately show ?thesis using others by blast
qed

text \<open>The choice on types that are not both vectors of one length.\<close>

definition scalar_opcode :: "ir_type \<Rightarrow> bool \<Rightarrow> ir_type \<Rightarrow> bool \<Rightarrow> cast_op option" where
  "scalar_opcode s b d b' =
    (if isIntegerTy d \<and> isIntegerTy s then
        Some (if getPrimitiveSizeInBits d < getPrimitiveSizeInBits s then Trunc
              else if getPrimitiveSizeInBits d > getPrimitiveSizeInBits s then (if b then SExt else ZExt)
              else BitCast)
     else if isIntegerTy d \<and> isFloatingPointTy s then Some (if b' then FPToSI else FPToUI)
     else if isIntegerTy d \<and> isPointerTy s then Some PtrToInt
     else if isFloatingPointTy d \<and> isIntegerTy s then Some (if b then SIToFP else UIToFP)
     else if isFloatingPointTy d \<and> isFloatingPointTy s then
        Some (if getPrimitiveSizeInBits d < getPrimitiveSizeInBits s then FPTrunc
              else if getPrimitiveSizeInBits d > getPrimitiveSizeInBits s then FPExt else BitCast)
     else if isPointerTy d \<and> isPointerTy s then
        Some (if getPointerAddressSpace d \<noteq> getPointerAddressSpace s then AddrSpaceCast else BitCast)
     else if isPointerTy d \<and> isIntegerTy s then Some IntToPtr
     else if (isVectorTy s \<and> (isIntegerTy d \<or> isFloatingPointTy d \<or> isX86_MMXTy d) \<or> isVectorTy d) \<and>
        getPrimitiveSizeInBits d = getPrimitiveSizeInBits s then Some BitCast
     else None)"

lemma getCastOpcode_scalar:
  "getCastOpcode s b d b' =
    (if \<not> (isFirstClassType s \<and> isFirstClassType d) then None
     else if s = d then Some BitCast
     else case element_types s d of (s', d') \<Rightarrow> scalar_opcode s' b d' b')"
proof -
  obtain s' d' where e: "element_types s d = (s', d')" by fastforce
  show ?thesis
    unfolding getCastOpcode_def scalar_opcode_def e Let_def prod.case
    by (cases d'; simp add: ty_defs; cases s'; simp)
qed

lemma vector_class [simp]:
  assumes "\<not> isVectorTy e"
  shows "isIntOrIntVectorTy (VectorTy e n) = isIntOrIntVectorTy e"
    "isFPOrFPVectorTy (VectorTy e n) = isFPOrFPVectorTy e"
    "isPtrOrPtrVectorTy (VectorTy e n) = isPtrOrPtrVectorTy e"
    "getScalarSizeInBits (VectorTy e n) = getScalarSizeInBits e"
    "getPointerAddressSpace (VectorTy e n) = getPointerAddressSpace e"
  using assms by (simp_all add: isIntOrIntVectorTy_def isFPOrFPVectorTy_def isPtrOrPtrVectorTy_def
      getScalarSizeInBits_def getPointerAddressSpace_def)

lemma vector_first_class: "isFirstClassType (VectorTy t n)" "\<not> isAggregateType (VectorTy t n)"
  by (simp_all add: ty_defs)

lemma castIsValid_vector:
  assumes wfv: "wf_type (VectorTy e n)" "wf_type (VectorTy e' n)" and v: "castIsValid opc e e'"
  shows "castIsValid opc (VectorTy e n) (VectorTy e' n)"
proof -
  have wf: "wf_type e" "wf_type e'" and el: "vector_isValidElementType e" "vector_isValidElementType e'"
    using wfv by simp_all
  have nv: "\<not> isVectorTy e" "\<not> isVectorTy e'"
    using el by (auto simp: vector_isValidElementType_def dest: scalar_classes)
  note iff = castIsValid_iff [OF wf] castIsValid_iff [OF wfv]
  have size: "getPrimitiveSizeInBits (VectorTy e n) = getPrimitiveSizeInBits (VectorTy e' n)"
    if "getPrimitiveSizeInBits e = getPrimitiveSizeInBits e'"
    using that by (simp add: vector_getBitWidth_def)
  show ?thesis
  proof (cases "opc = BitCast")
    case True
    have "castIsValid BitCast (VectorTy e n) (VectorTy e' n)"
      using v nv size unfolding True iff by (simp add: vector_first_class split: if_splits)
    then show ?thesis unfolding True .
  next
    case False
    then show ?thesis using v nv
      by (cases opc) (simp_all add: iff)
  qed
qed

lemma scalar_opcode_elim:
  assumes "scalar_opcode s b d b' = Some opc"
  obtains (int_int) "isIntegerTy s" "isIntegerTy d"
      "opc = Trunc \<and> getPrimitiveSizeInBits d < getPrimitiveSizeInBits s
       \<or> opc \<in> {ZExt, SExt} \<and> getPrimitiveSizeInBits s < getPrimitiveSizeInBits d
       \<or> opc = BitCast \<and> getPrimitiveSizeInBits s = getPrimitiveSizeInBits d"
  | (fp_int) "isFloatingPointTy s" "isIntegerTy d" "opc \<in> {FPToSI, FPToUI}"
  | (ptr_int) "isPointerTy s" "isIntegerTy d" "opc = PtrToInt"
  | (int_fp) "isIntegerTy s" "isFloatingPointTy d" "opc \<in> {SIToFP, UIToFP}"
  | (fp_fp) "isFloatingPointTy s" "isFloatingPointTy d"
      "opc = FPTrunc \<and> getPrimitiveSizeInBits d < getPrimitiveSizeInBits s
       \<or> opc = FPExt \<and> getPrimitiveSizeInBits s < getPrimitiveSizeInBits d
       \<or> opc = BitCast \<and> getPrimitiveSizeInBits s = getPrimitiveSizeInBits d"
  | (ptr_ptr) "isPointerTy s" "isPointerTy d"
      "opc = (if getPointerAddressSpace d \<noteq> getPointerAddressSpace s then AddrSpaceCast else BitCast)"
  | (int_ptr) "isIntegerTy s" "isPointerTy d" "opc = IntToPtr"
  | (bits) "isVectorTy s \<and> (isIntegerTy d \<or> isFloatingPointTy d \<or> isX86_MMXTy d) \<or> isVectorTy d"
      "opc = BitCast" "getPrimitiveSizeInBits d = getPrimitiveSizeInBits s"
  using assms unfolding scalar_opcode_def by (auto split: if_splits)

lemma scalar_opcode_valid:
  assumes wf: "wf_type s" "wf_type d" and fc: "isFirstClassType s" "isFirstClassType d"
    and agg: "\<not> isAggregateType s" "\<not> isAggregateType d"
    and shape: "isVectorTy s \<Longrightarrow> isVectorTy d \<Longrightarrow> vector_length s \<noteq> vector_length d"
    and opc: "scalar_opcode s b d b' = Some opc"
  shows "castIsValid opc s d \<or>
    (isVectorTy d \<and> vector_length s \<noteq> vector_length d \<and> (isPtrOrPtrVectorTy s \<or> isPtrOrPtrVectorTy d))"
proof -
  note iff = castIsValid_iff [OF wf]
  have len: "vector_length t = 0 \<and> getScalarSizeInBits t = getPrimitiveSizeInBits t"
    if "wf_type t" "\<not> isVectorTy t" for t
    using that by (simp add: vector_length_0 primitive_size)
  from opc show ?thesis
  proof (cases rule: scalar_opcode_elim)
    case int_int
    note fact = int_facts [OF int_int(1)] int_facts [OF int_int(2)]
    show ?thesis using int_int(3) fact len [OF wf(1)] len [OF wf(2)] by (auto simp: iff split: if_splits)
  next
    case fp_int
    note fact = fp_facts [OF fp_int(1)] int_facts [OF fp_int(2)]
    show ?thesis using fp_int(3) fact len [OF wf(1)] len [OF wf(2)] by (auto simp: iff split: if_splits)
  next
    case ptr_int
    note fact = ptr_facts [OF ptr_int(1)] int_facts [OF ptr_int(2)]
    show ?thesis using ptr_int(3) fact len [OF wf(1)] len [OF wf(2)] by (auto simp: iff split: if_splits)
  next
    case int_fp
    note fact = int_facts [OF int_fp(1)] fp_facts [OF int_fp(2)]
    show ?thesis using int_fp(3) fact len [OF wf(1)] len [OF wf(2)] by (auto simp: iff split: if_splits)
  next
    case fp_fp
    note fact = fp_facts [OF fp_fp(1)] fp_facts [OF fp_fp(2)]
    show ?thesis using fp_fp(3) fact len [OF wf(1)] len [OF wf(2)] by (auto simp: iff split: if_splits)
  next
    case ptr_ptr
    note fact = ptr_facts [OF ptr_ptr(1)] ptr_facts [OF ptr_ptr(2)]
    show ?thesis using ptr_ptr(3) fact len [OF wf(1)] len [OF wf(2)] by (auto simp: iff split: if_splits)
  next
    case int_ptr
    note fact = int_facts [OF int_ptr(1)] ptr_facts [OF int_ptr(2)]
    show ?thesis using int_ptr(3) fact len [OF wf(1)] len [OF wf(2)] by (auto simp: iff split: if_splits)
  next
    case bits
    have ne: "vector_length s \<noteq> vector_length d" if "isVectorTy d"
      using that shape vector_length_0 [OF wf(1)] vector_length_0 [OF wf(2)] by metis
    show ?thesis
    proof (cases "isPtrOrPtrVectorTy s \<or> isPtrOrPtrVectorTy d")
      case False
      then show ?thesis using bits fc agg by (auto simp: iff)
    next
      case True
      have "isVectorTy d"
      proof (rule ccontr)
        assume "\<not> isVectorTy d"
        with bits(1) have sv: "isVectorTy s" and d: "isIntegerTy d \<or> isFloatingPointTy d \<or> isX86_MMXTy d" by blast+
        have "0 < getPrimitiveSizeInBits d"
          using d wf(2) by (cases d) (simp_all add: ty_defs)
        moreover have "\<not> isPtrOrPtrVectorTy d" using d \<open>\<not> isVectorTy d\<close> by (cases d) (auto simp: ty_defs)
        with True have "isPointerTy (getScalarType s)" by (simp add: isPtrOrPtrVectorTy_def)
        then have "getPrimitiveSizeInBits s = 0"
          using sv unfolding primitive_size [of s] by (simp add: getScalarSizeInBits_def getPrimitiveSizeInBits_pointer)
        ultimately show False using bits(3) by simp
      qed
      then show ?thesis using True ne by blast
    qed
  qed
qed

lemma getCastOpcode_valid:
  assumes wf: "wf_type s" "wf_type d" and opc: "getCastOpcode s b d b' = Some opc"
  shows "castIsValid opc s d \<or> isAggregateType s \<or> isAggregateType d \<or>
    (isVectorTy d \<and> vector_length s \<noteq> vector_length d \<and> (isPtrOrPtrVectorTy s \<or> isPtrOrPtrVectorTy d))"
proof (cases "isAggregateType s \<or> isAggregateType d")
  case False
  then have agg: "\<not> isAggregateType s" "\<not> isAggregateType d" by auto
  have fc: "isFirstClassType s" "isFirstClassType d"
    using opc by (auto simp: getCastOpcode_scalar split: if_splits)
  show ?thesis
  proof (cases "s = d")
    case True
    then show ?thesis
      using opc fc agg by (simp add: getCastOpcode_scalar castIsValid_iff(13) [OF wf(2) wf(2)])
  next
    case ne: False
    show ?thesis
    proof (cases s d rule: element_types_cases)
      case (vectors es ed n)
      then have el: "wf_type es" "wf_type ed" "vector_isValidElementType es" "vector_isValidElementType ed"
        using wf by simp_all
      have el_facts: "isFirstClassType t \<and> \<not> isAggregateType t \<and> \<not> isVectorTy t" if "vector_isValidElementType t" for t
        using that by (cases t) (auto simp: vector_isValidElementType_def ty_defs)
      have "scalar_opcode es b ed b' = Some opc"
        using opc fc ne vectors by (simp add: getCastOpcode_scalar)
      from scalar_opcode_valid [OF el(1,2) _ _ _ _ _ this]
      have "castIsValid opc es ed" using el_facts [OF el(3)] el_facts [OF el(4)] by blast
      then show ?thesis using castIsValid_vector wf vectors by metis
    next
      case others
      then have "scalar_opcode s b d b' = Some opc"
        using opc fc ne by (simp add: getCastOpcode_scalar)
      from scalar_opcode_valid [OF wf fc agg others(2) this] show ?thesis by blast
    qed
  qed
qed blast

text \<open>C28: an opcode is chosen exactly for the castable pairs of types, and it is a valid cast of them, unless
  one is an aggregate or a vector of another length meets pointers.\<close>
theorem getCastOpcode_correct:
  assumes wf: "wf_type s" "wf_type d"
  shows "case getCastOpcode s b d b' of
      None \<Rightarrow> \<not> isCastable s d
    | Some opc \<Rightarrow> isCastable s d \<and> (castIsValid opc s d \<or> isAggregateType s \<or> isAggregateType d \<or>
        (isVectorTy d \<and> vector_length s \<noteq> vector_length d \<and> (isPtrOrPtrVectorTy s \<or> isPtrOrPtrVectorTy d)))"
  using getCastOpcode_valid [OF wf, of b b'] getCastOpcode_isCastable [of s b d b']
  by (cases "getCastOpcode s b d b'") auto

lemma getCastOpcode_correct_witness:
  "case getCastOpcode (VectorTy (IntegerTy 8) 4) True (IntegerTy 32) False of
     None \<Rightarrow> \<not> isCastable (VectorTy (IntegerTy 8) 4) (IntegerTy 32)
   | Some opc \<Rightarrow> isCastable (VectorTy (IntegerTy 8) 4) (IntegerTy 32) \<and> (castIsValid opc (VectorTy (IntegerTy 8) 4) (IntegerTy 32) \<or>
      isAggregateType (VectorTy (IntegerTy 8) 4) \<or> isAggregateType (IntegerTy 32) \<or>
      (isVectorTy (IntegerTy 32) \<and> vector_length (VectorTy (IntegerTy 8) 4) \<noteq> vector_length (IntegerTy 32) \<and>
       (isPtrOrPtrVectorTy (VectorTy (IntegerTy 8) 4) \<or> isPtrOrPtrVectorTy (IntegerTy 32))))"
  by (rule getCastOpcode_correct) (simp_all add: vector_isValidElementType_def ty_defs)

text \<open>The two ways in which the axiom of the comment fails: an opcode is chosen for an aggregate and
  for vectors of pointers of different lengths, whose sizes are both read as zero; and the validity
  check lets a pointer be cast to a vector of pointers.\<close>

theorem castIsValid_axiom_fails:
  "getCastOpcode (StructTy [] False) False (StructTy [] False) False = Some BitCast \<and>
   \<not> castIsValid BitCast (StructTy [] False) (StructTy [] False) \<and>
   getCastOpcode (VectorTy (PointerTy (IntegerTy 8) 0) 2) False (VectorTy (PointerTy (IntegerTy 8) 0) 3) False = Some BitCast \<and>
   \<not> castIsValid BitCast (VectorTy (PointerTy (IntegerTy 8) 0) 2) (VectorTy (PointerTy (IntegerTy 8) 0) 3) \<and>
   castIsValid BitCast (PointerTy (IntegerTy 8) 0) (VectorTy (PointerTy (IntegerTy 8) 0) 3)"
  by (simp add: getCastOpcode_scalar castIsValid_def ty_defs scalar_opcode_def Let_def vector_getBitWidth_def
      getPointerAddressSpace_def pointer_vector_shape_def)

section \<open>Replacing a pair of casts\<close>

text \<open>Scalars are the types of vector length zero, so every test reads as one of class, length and size.\<close>

lemma type_views:
  assumes "wf_type t"
  shows "isVectorTy t \<longleftrightarrow> vector_length t \<noteq> 0"
    "isIntegerTy t \<longleftrightarrow> isIntOrIntVectorTy t \<and> vector_length t = 0"
    "isFloatingPointTy t \<longleftrightarrow> isFPOrFPVectorTy t \<and> vector_length t = 0"
    "isPointerTy t \<longleftrightarrow> isPtrOrPtrVectorTy t \<and> vector_length t = 0"
    "getPrimitiveSizeInBits t = (if vector_length t = 0 then getScalarSizeInBits t
       else vector_length t * getScalarSizeInBits t mod 2 ^ 32)"
  using assms vector_length_0 [OF assms] int_facts [of t] fp_facts [of t] ptr_facts [of t]
  by (auto simp: primitive_size class_scalar)

text \<open>The replacement computed for a pair is absent or a valid cast, and never a failed assertion.\<close>

definition good_elim :: "cast_op option option \<Rightarrow> ir_type \<Rightarrow> ir_type \<Rightarrow> bool" where
  "good_elim res s d \<longleftrightarrow> (case res of None \<Rightarrow> False | Some None \<Rightarrow> True | Some (Some r) \<Rightarrow> castIsValid r s d)"

lemma good_elim_simps [simp]: "\<not> good_elim None s d" "good_elim (Some None) s d"
    "good_elim (Some (Some r)) s d = castIsValid r s d"
    "good_elim (if c then x else y) s d = (if c then good_elim x s d else good_elim y s d)"
  by (simp_all add: good_elim_def)

lemma same_class_bitcast:
  assumes wf: "wf_type s" "wf_type d" and vl: "vector_length s = vector_length d"
    and c: "isIntOrIntVectorTy s \<and> isIntOrIntVectorTy d \<and> getScalarSizeInBits s = getScalarSizeInBits d \<or>
            isPtrOrPtrVectorTy s \<and> isPtrOrPtrVectorTy d \<and> getPointerAddressSpace s = getPointerAddressSpace d"
  shows "castIsValid BitCast s d"
  using c
proof
  assume i: "isIntOrIntVectorTy s \<and> isIntOrIntVectorTy d \<and> getScalarSizeInBits s = getScalarSizeInBits d"
  then have "getPrimitiveSizeInBits s = getPrimitiveSizeInBits d"
    by (simp add: type_views(5) [OF wf(1)] type_views(5) [OF wf(2)] vl)
  then show ?thesis
    using i class_first_class(1) class_disjoint(1) by (simp add: castIsValid_iff(13) [OF wf])
next
  assume p: "isPtrOrPtrVectorTy s \<and> isPtrOrPtrVectorTy d \<and> getPointerAddressSpace s = getPointerAddressSpace d"
  then show ?thesis using class_first_class(3) vl by (simp add: castIsValid_iff(13) [OF wf])
qed

lemma fp_bitcast_self: "wf_type d \<Longrightarrow> isFPOrFPVectorTy d \<Longrightarrow> castIsValid BitCast d d"
  using class_first_class(2) class_disjoint(2) by (simp add: castIsValid_iff(13))

lemma elim_ext_trunc_good:
  assumes wf: "wf_type s" "wf_type d" and vl: "vector_length s = vector_length d"
    and i: "isIntOrIntVectorTy s" "isIntOrIntVectorTy d" and f: "f = ZExt \<or> f = SExt"
  shows "good_elim (elim_ext_trunc f Trunc s d) s d"
proof -
  have "castIsValid BitCast s d" if "getScalarSizeInBits s = getScalarSizeInBits d"
    using same_class_bitcast [OF wf vl] i that by blast
  then show ?thesis
    using f i vl by (auto simp: elim_ext_trunc_def Let_def castIsValid_iff [OF wf])
qed

lemma elim_ptr_int_ptr_good:
  assumes wf: "wf_type s" "wf_type d" and vl: "vector_length s = vector_length d"
    and p: "isPtrOrPtrVectorTy s" "isPtrOrPtrVectorTy d"
  shows "good_elim (elim_ptr_int_ptr s m d sp dp) s d"
proof -
  have "castIsValid BitCast s d" if "getPointerAddressSpace s = getPointerAddressSpace d"
    using same_class_bitcast [OF wf vl] p that by blast
  then show ?thesis
    using p getPointerAddressSpace_iff [of s] getPointerAddressSpace_iff [of d]
    by (simp add: elim_ptr_int_ptr_def Let_def split: option.split)
qed

lemma elim_int_ptr_int_good:
  assumes wf: "wf_type s" "wf_type d" and vl: "vector_length s = vector_length d"
    and i: "isIntOrIntVectorTy s" "isIntOrIntVectorTy d"
  shows "good_elim (elim_int_ptr_int s d mp) s d"
proof -
  have "castIsValid BitCast s d" if "getScalarSizeInBits s = getScalarSizeInBits d"
    using same_class_bitcast [OF wf vl] i that by blast
  then show ?thesis by (simp add: elim_int_ptr_int_def Let_def split: option.split)
qed

lemma elim_addrspace_good:
  assumes wf: "wf_type s" "wf_type d" and vl: "vector_length s = 0 \<or> vector_length s = vector_length d"
    and "isPtrOrPtrVectorTy s" "isPtrOrPtrVectorTy d"
  shows "good_elim (elim_addrspace s d) s d"
  using assms getPointerAddressSpace_iff [of s] getPointerAddressSpace_iff [of d]
    class_first_class [of s] class_first_class [of d]
  by (auto simp: elim_addrspace_def castIsValid_iff [OF wf] type_views)

lemma getPointerElementType_Some: "isPtrOrPtrVectorTy t \<Longrightarrow> \<exists>e. getPointerElementType t = Some e"
  by (cases t) (simp_all add: getPointerElementType_def ty_defs)

lemma elim_bitcast_addrspace_good:
  assumes wf: "wf_type s" "wf_type d" and vl: "vector_length s = 0 \<or> vector_length s = vector_length d"
    and p: "isPtrOrPtrVectorTy s" "isPtrOrPtrVectorTy d" and a: "getPointerAddressSpace s \<noteq> getPointerAddressSpace d"
  shows "good_elim (elim_bitcast_addrspace s d) s d"
proof -
  have "castIsValid AddrSpaceCast s d"
    using p a vl by (auto simp: castIsValid_iff(12) [OF wf] type_views(1) [OF wf(1)])
  then show ?thesis
    using getPointerElementType_Some [OF p(1)] getPointerElementType_Some [OF p(2)]
    by (auto simp: elim_bitcast_addrspace_def)
qed

lemma elim_pair_valid:
  assumes wf: "wf_type s" "wf_type m" "wf_type d"
    and v: "castIsValid f s m" "castIsValid g m d"
  shows "good_elim (isEliminableCastPair f g s m d sp mp dp) s d"
proof -
  note iff = castIsValid_iff [OF wf(1,2)] castIsValid_iff [OF wf(2,3)] castIsValid_iff [OF wf(1,3)]
  note views = type_views [OF wf(1)] type_views [OF wf(2)] type_views [OF wf(3)]
  note good = elim_ext_trunc_good [OF wf(1,3)] elim_ptr_int_ptr_good [OF wf(1,3)]
    elim_int_ptr_int_good [OF wf(1,3)] elim_addrspace_good [OF wf(1,3)]
    elim_bitcast_addrspace_good [OF wf(1,3)] fp_bitcast_self [OF wf(3)]
  consider "isIntOrIntVectorTy m" "\<not> isFPOrFPVectorTy m" "\<not> isPtrOrPtrVectorTy m"
    | "isFPOrFPVectorTy m" "\<not> isIntOrIntVectorTy m" "\<not> isPtrOrPtrVectorTy m"
    | "isPtrOrPtrVectorTy m" "\<not> isIntOrIntVectorTy m" "\<not> isFPOrFPVectorTy m"
    | "\<not> isPtrOrPtrVectorTy m" "\<not> isIntOrIntVectorTy m" "\<not> isFPOrFPVectorTy m"
    using class_disjoint [of m] by blast
  then show ?thesis
  proof cases
    case 1
    then show ?thesis using v unfolding isEliminableCastPair_def Let_def
      apply (cases f; cases g; simp only: CastResults.simps op_code.simps; simp add: elim_case_def iff views good)
      by (auto split: if_splits)
  next
    case 2
    then show ?thesis using v unfolding isEliminableCastPair_def Let_def
      apply (cases f; cases g; simp only: CastResults.simps op_code.simps; simp add: elim_case_def iff views good)
      by (auto split: if_splits simp: good)
  next
    case 3
    then show ?thesis using v unfolding isEliminableCastPair_def Let_def
      apply (cases f; cases g; simp only: CastResults.simps op_code.simps; simp add: elim_case_def iff views good)
      by (auto split: if_splits simp: good views)
  next
    case 4
    then show ?thesis using v unfolding isEliminableCastPair_def Let_def
      apply (cases f; cases g; simp only: CastResults.simps op_code.simps; simp add: elim_case_def iff views good)
      done
  qed
qed
text \<open>C27: for valid casts \<open>f\<close> and \<open>g\<close> the replacement is computed without a failed assertion or an
  unreachable case, and an opcode it returns is a valid cast of the outer types.\<close>
theorem isEliminableCastPair_valid:
  assumes "wf_type s" "wf_type m" "wf_type d" and "castIsValid f s m" "castIsValid g m d"
  shows "case isEliminableCastPair f g s m d sp mp dp of
      None \<Rightarrow> False
    | Some None \<Rightarrow> True
    | Some (Some r) \<Rightarrow> castIsValid r s d"
  using elim_pair_valid [OF assms, of sp mp dp] by (simp add: good_elim_def)

lemma isEliminableCastPair_valid_witness:
  "case isEliminableCastPair SExt Trunc (IntegerTy 8) (IntegerTy 64) (IntegerTy 16) None None None of
      None \<Rightarrow> False | Some None \<Rightarrow> True | Some (Some r) \<Rightarrow> castIsValid r (IntegerTy 8) (IntegerTy 16)"
  by (rule isEliminableCastPair_valid)
    (simp_all add: castIsValid_def ty_defs getScalarSizeInBits_def)

section \<open>Creating casts\<close>

lemma Create_Some: "Create opc s d = Some c \<longleftrightarrow> castIsValid opc s d \<and> c = \<lparr>inst_opcode = opc, inst_src = s, inst_type = d\<rparr>"
  by (auto simp: Create_def)

lemma CreateIntegerCast_valid:
  assumes wf: "wf_type s" "wf_type d" and vl: "vector_length s = vector_length d"
    and i: "isIntOrIntVectorTy s" "isIntOrIntVectorTy d"
  shows "\<exists>c. CreateIntegerCast s d sg = Some c"
proof -
  have "castIsValid BitCast s d" if "getScalarSizeInBits s = getScalarSizeInBits d"
    using same_class_bitcast [OF wf vl] i that by blast
  then show ?thesis
    using i vl by (auto simp: CreateIntegerCast_def Let_def Create_Some castIsValid_iff(1-3) [OF wf])
qed

lemma CreateFPCast_valid:
  assumes wf: "wf_type s" "wf_type d" and vl: "vector_length s = vector_length d"
    and i: "isFPOrFPVectorTy s" "isFPOrFPVectorTy d"
  shows "\<exists>c. CreateFPCast s d = Some c"
proof -
  have "castIsValid BitCast s d" if "getScalarSizeInBits s = getScalarSizeInBits d"
  proof -
    have "getPrimitiveSizeInBits s = getPrimitiveSizeInBits d"
      using that by (simp add: type_views(5) [OF wf(1)] type_views(5) [OF wf(2)] vl)
    then show ?thesis
      using i class_first_class(2) class_disjoint(2) by (simp add: castIsValid_iff(13) [OF wf])
  qed
  then show ?thesis
    using i vl by (auto simp: CreateFPCast_def Let_def Create_Some castIsValid_iff(4,5) [OF wf])
qed

lemma CreatePointerCast_valid:
  assumes wf: "wf_type s" "wf_type d" and vl: "vector_length s = vector_length d"
    and p: "isPtrOrPtrVectorTy s" "isIntOrIntVectorTy d \<or> isPtrOrPtrVectorTy d"
  shows "\<exists>c. CreatePointerCast s d = Some c"
proof -
  have "castIsValid BitCast s d" if "getPointerAddressSpace s = getPointerAddressSpace d" "isPtrOrPtrVectorTy d"
    using same_class_bitcast [OF wf vl] p that by blast
  then show ?thesis
    using p vl by (auto simp: CreatePointerCast_def CreatePointerBitCastOrAddrSpaceCast_def Create_Some
        getVectorNumElements_eq castIsValid_iff(10,12) [OF wf] type_views(1) [OF wf(1)] type_views(1) [OF wf(2)])
qed

text \<open>Between operands of one shape the integer, floating point and pointer casts are created without a
  failed assertion.\<close>
theorem Create_casts_succeed:
  assumes "wf_type s" "wf_type d" and "vector_length s = vector_length d"
  shows "(isIntOrIntVectorTy s \<and> isIntOrIntVectorTy d \<longrightarrow> CreateIntegerCast s d sg \<noteq> None) \<and>
    (isFPOrFPVectorTy s \<and> isFPOrFPVectorTy d \<longrightarrow> CreateFPCast s d \<noteq> None) \<and>
    (isPtrOrPtrVectorTy s \<and> (isIntOrIntVectorTy d \<or> isPtrOrPtrVectorTy d) \<longrightarrow> CreatePointerCast s d \<noteq> None)"
  using CreateIntegerCast_valid [OF assms] CreateFPCast_valid [OF assms] CreatePointerCast_valid [OF assms]
  by auto

lemma Create_casts_succeed_witness:
  "CreatePointerCast (VectorTy (PointerTy FloatTy 1) 4) (VectorTy (PointerTy DoubleTy 0) 4) \<noteq> None"
  using Create_casts_succeed [of "VectorTy (PointerTy FloatTy 1) 4" "VectorTy (PointerTy DoubleTy 0) 4" True]
  by (simp add: vector_isValidElementType_def pointer_isValidElementType_def ty_defs)

section \<open>Bit casts\<close>

definition same_bits :: "ir_type \<Rightarrow> ir_type \<Rightarrow> bool" where
  "same_bits s d \<longleftrightarrow> isPointerTy s \<and> isPointerTy d \<and> getAddressSpace s = getAddressSpace d \<or>
    \<not> (isPointerTy s \<and> isPointerTy d) \<and> getPrimitiveSizeInBits s = getPrimitiveSizeInBits d \<and>
    getPrimitiveSizeInBits s \<noteq> 0 \<and> \<not> isX86_MMXTy s \<and> \<not> isX86_MMXTy d"

lemma isBitCastable_same_bits:
  "isBitCastable s d \<longleftrightarrow> isFirstClassType s \<and> isFirstClassType d \<and>
    (s = d \<or> (case element_types s d of (s', d') \<Rightarrow> same_bits s' d'))"
proof -
  obtain s' d' where e: "element_types s d = (s', d')" by fastforce
  show ?thesis
    unfolding isBitCastable_def e Let_def prod.case same_bits_def
    using getAddressSpace_iff [of s'] getAddressSpace_iff [of d']
    by (cases "getAddressSpace s'"; cases "getAddressSpace d'") auto
qed

lemma same_bits_sym: "same_bits s d = same_bits d s"
  by (auto simp: same_bits_def)

lemma element_types_swap: "element_types d s = prod.swap (element_types s d)"
  by (cases "(s, d)" rule: element_types.cases) auto

lemma same_bits_valid:
  assumes wf: "wf_type s" "wf_type d" and fc: "isFirstClassType s" "isFirstClassType d" and sb: "same_bits s d"
  shows "castIsValid BitCast s d"
proof (cases "isPointerTy s \<and> isPointerTy d")
  case True
  then show ?thesis
    using sb ptr_facts by (auto simp: castIsValid_iff(13) [OF wf] same_bits_def getPointerAddressSpace_def)
next
  case False
  then have sz: "getPrimitiveSizeInBits s = getPrimitiveSizeInBits d" "getPrimitiveSizeInBits s \<noteq> 0"
    using sb by (auto simp: same_bits_def)
  have z: "getPrimitiveSizeInBits t = 0" if "isAggregateType t \<or> isPtrOrPtrVectorTy t" for t
    using that by (cases t) (auto simp: ty_defs vector_getBitWidth_def getPrimitiveSizeInBits_pointer)
  have "\<not> isAggregateType s" "\<not> isAggregateType d" "\<not> isPtrOrPtrVectorTy s" "\<not> isPtrOrPtrVectorTy d"
    using sz z [of s] z [of d] by auto
  then show ?thesis using fc sz by (simp add: castIsValid_iff(13) [OF wf])
qed

lemma same_bits_element_types:
  assumes wf: "wf_type s" "wf_type d" and fc: "isFirstClassType s" "isFirstClassType d"
    and sb: "case element_types s d of (s', d') \<Rightarrow> same_bits s' d'"
  shows "castIsValid BitCast s d \<and> getPrimitiveSizeInBits s = getPrimitiveSizeInBits d"
proof (cases s d rule: element_types_cases)
  case (vectors es ed n)
  have el: "wf_type es" "wf_type ed" "vector_isValidElementType es" "vector_isValidElementType ed"
    using wf vectors by simp_all
  have "isFirstClassType t" if "vector_isValidElementType t" for t
    using that by (cases t) (auto simp: vector_isValidElementType_def ty_defs)
  from this [OF el(3)] this [OF el(4)] have "castIsValid BitCast es ed"
    using same_bits_valid [OF el(1,2)] sb vectors by simp
  moreover have "getPrimitiveSizeInBits es = getPrimitiveSizeInBits ed"
    using sb vectors by (auto simp: same_bits_def getPrimitiveSizeInBits_pointer)
  ultimately show ?thesis
    using castIsValid_vector [of es n ed BitCast] wf vectors by (simp add: vector_getBitWidth_def)
next
  case others
  then have "same_bits s d" using sb by simp
  then show ?thesis
    using same_bits_valid [OF wf fc] by (auto simp: same_bits_def getPrimitiveSizeInBits_pointer)
qed

text \<open>\<open>isBitCastable\<close> is symmetric, castable types have equal sizes, and unless it is the cast of an
  aggregate to itself the bit cast is valid.\<close>
theorem isBitCastable_valid:
  assumes "wf_type s" "wf_type d"
  shows "(isBitCastable s d = isBitCastable d s) \<and>
    (isBitCastable s d \<longrightarrow> getPrimitiveSizeInBits s = getPrimitiveSizeInBits d \<and>
       (castIsValid BitCast s d \<or> s = d \<and> isAggregateType s))"
proof -
  have "isBitCastable s d = isBitCastable d s"
    unfolding isBitCastable_same_bits element_types_swap [of d s]
    by (auto simp: same_bits_sym split: prod.splits)
  moreover have "castIsValid BitCast s s" if "isFirstClassType s" "\<not> isAggregateType s"
    using that by (simp add: castIsValid_iff(13) [OF assms(1) assms(1)])
  ultimately show ?thesis
    using same_bits_element_types [OF assms] by (auto simp: isBitCastable_same_bits)
qed

lemma isBitCastable_valid_witness:
  "isBitCastable (VectorTy FloatTy 2) (IntegerTy 64) \<and> castIsValid BitCast (VectorTy FloatTy 2) (IntegerTy 64)"
  using isBitCastable_valid [of "VectorTy FloatTy 2" "IntegerTy 64"]
  by (simp add: isBitCastable_same_bits same_bits_def vector_isValidElementType_def vector_getBitWidth_def ty_defs)

end
