(* ===== verification/CastValue.thy ===== *)
theory CastValue
  imports CastSound ConstantRangeSound
begin

text \<open>
  The value of a cast of integers and pointers, and the theorem that the replacement of a pair of
  casts has the same value. A pointer is a number of the width the data layout gives its address
  space; what an \<open>addrspacecast\<close> does to it is a parameter.
\<close>

definition value_bits :: "(nat \<Rightarrow> nat) \<Rightarrow> ir_type \<Rightarrow> nat" where
  "value_bits ptr_bits t = (case t of IntegerTy n \<Rightarrow> n | PointerTy e a \<Rightarrow> ptr_bits a | _ \<Rightarrow> 0)"

definition scalar_value_type :: "ir_type \<Rightarrow> bool" where
  "scalar_value_type t \<longleftrightarrow> isIntegerTy t \<or> isPointerTy t"

text \<open>The casts of the language reference: truncation keeps the low bits, the extensions fill with zeros
  or copies of the sign bit, a conversion between pointer and integer truncates or extends with zeros,
  and a bit cast changes nothing.\<close>

definition cast_value :: "(nat \<Rightarrow> nat) \<Rightarrow> (nat \<Rightarrow> nat \<Rightarrow> apint \<Rightarrow> apint) \<Rightarrow> cast_op \<Rightarrow> ir_type \<Rightarrow> ir_type \<Rightarrow> apint \<Rightarrow> apint option" where
  "cast_value ptr_bits asc opc s d v =
    (let w = value_bits ptr_bits d in case opc of
       Trunc \<Rightarrow> Some (ap_trunc v w)
     | ZExt \<Rightarrow> Some (ap_zext v w)
     | SExt \<Rightarrow> Some (ap_sext v w)
     | PtrToInt \<Rightarrow> Some (if w < bitWidth v then ap_trunc v w else ap_zext v w)
     | IntToPtr \<Rightarrow> Some (if w < bitWidth v then ap_trunc v w else ap_zext v w)
     | BitCast \<Rightarrow> Some v
     | AddrSpaceCast \<Rightarrow>
         (case (getPointerAddressSpace s, getPointerAddressSpace d) of
            (Some a, Some a') \<Rightarrow> Some (asc a a' v) | _ \<Rightarrow> None)
     | _ \<Rightarrow> None)"

text \<open>What the elimination of two \<open>addrspacecast\<close>s takes the target's conversions to do: two in sequence are the direct
  one, and there and back again changes nothing.\<close>

definition addrspaces_compose :: "(nat \<Rightarrow> nat \<Rightarrow> apint \<Rightarrow> apint) \<Rightarrow> bool" where
  "addrspaces_compose asc \<longleftrightarrow> (\<forall>a b c v. asc b c (asc a b v) = (if a = c then v else asc a c v))"

section \<open>Composing conversions\<close>

lemma resize_eq: "ap_trunc v w = mk_apint w (ival v)" "ap_zext v w = mk_apint w (ival v)"
  by (simp_all add: ap_trunc_def ap_zext_def)

lemma mk_resize:
  "w \<le> m \<Longrightarrow> mk_apint w (v mod 2 ^ m) = mk_apint w v"
  by (simp add: mk_apint_def mod_mod_cancel le_imp_power_dvd)

lemma mk_extend:
  assumes "wf_apint w a" "w \<le> m"
  shows "mk_apint d (ival (mk_apint m (ival a))) = mk_apint d (ival a)"
proof -
  have "ival a < 2 ^ m" using ival_less [OF assms(1)] exp_mono(2) [OF assms(2)] by linarith
  then show ?thesis by simp
qed

lemma mk_same: "wf_apint w a \<Longrightarrow> mk_apint w (ival a) = a"
  by (simp add: wf_apint_def)

lemma sval_of_nonneg:
  assumes "wf_apint w a" "w < m"
  shows "sval (mk_apint m (ival a)) = int (ival a)"
proof -
  have "w \<le> m - 1" "m - 1 \<le> m" using assms(2) by simp_all
  then have lt: "ival a < 2 ^ (m - 1)" "ival a < 2 ^ m"
    using ival_less [OF assms(1)] exp_mono(2) [of w "m - 1"] exp_mono(2) [of "m - 1" m] by linarith+
  then have "ival a mod 2 ^ m = ival a" by simp
  with lt(1) show ?thesis by (simp add: sval_def mk_apint_def)
qed

lemma sext_zext:
  assumes "wf_apint w a" "w < m" "m \<le> d"
  shows "ap_sext (ap_zext a m) d = ap_zext a d"
proof -
  have "int (ival a mod 2 ^ d) = int (ival a) mod 2 ^ d" by (simp add: of_nat_mod)
  then show ?thesis
    using sval_of_nonneg [OF assms(1,2)]
    by (simp add: resize_eq ap_sext_def of_sval_def mk_apint_def nat_mod_distrib nat_power_eq)
qed

lemma sval_sext:
  assumes "wf_apint w a" "w \<le> m"
  shows "sval (ap_sext a m) = sval a"
proof -
  have w: "0 < w" using assms by (simp add: wf_apint_def)
  have m: "0 < m" using w assms by simp
  have b: "- (2 ^ (w - 1)) \<le> sval a" "sval a < 2 ^ (w - 1)" using sval_bounds [OF assms(1)] by auto
  have pw: "(2 :: int) ^ (w - 1) \<le> 2 ^ (m - 1)" using assms by (intro power_increasing) auto
  have dbl: "(2 :: int) ^ m = 2 * 2 ^ (m - 1)" using m by (rule exp_halves)
  have dbn: "(2 :: nat) ^ m = 2 * 2 ^ (m - 1)" using m by (rule exp_halves)
  have iv: "int (ival (ap_sext a m)) = sval a mod 2 ^ m"
    by (simp add: ap_sext_def of_sval_def)
  show ?thesis
  proof (cases "0 \<le> sval a")
    case True
    then have "sval a mod 2 ^ m = sval a" using b pw dbl by (intro mod_pos_pos_trivial) linarith+
    with iv have "int (ival (ap_sext a m)) = sval a" by simp
    moreover from this have "ival (ap_sext a m) < 2 ^ (m - 1)"
      using b(2) pw by (metis (no_types) of_nat_less_iff of_nat_numeral of_nat_power order_less_le_trans)
    ultimately show ?thesis by (simp add: sval_def)
  next
    case False
    have "sval a mod 2 ^ m = (sval a + 2 ^ m) mod 2 ^ m" by simp
    also have "\<dots> = sval a + 2 ^ m" using False b pw dbl by (intro mod_pos_pos_trivial) linarith+
    finally have e: "int (ival (ap_sext a m)) = sval a + 2 ^ m" using iv by simp
    have "\<not> ival (ap_sext a m) < 2 ^ (m - 1)"
    proof
      assume "ival (ap_sext a m) < 2 ^ (m - 1)"
      then have "int (ival (ap_sext a m)) < 2 ^ (m - 1)"
        by (metis of_nat_less_iff of_nat_numeral of_nat_power)
      then show False using e b(1) pw dbl by linarith
    qed
    then show ?thesis using e by (simp add: sval_def)
  qed
qed

lemma sext_sext:
  assumes "wf_apint w a" "w \<le> m"
  shows "ap_sext (ap_sext a m) d = ap_sext a d"
  using sval_sext [OF assms] by (simp add: ap_sext_def)

lemma sval_mod:
  assumes "wf_apint w a" "d \<le> w"
  shows "sval a mod 2 ^ d = int (ival a) mod 2 ^ d"
proof -
  have "(2 :: int) ^ d dvd 2 ^ w" using assms(2) by (rule le_imp_power_dvd)
  then have "(int (ival a) - 2 ^ w) mod 2 ^ d = int (ival a) mod 2 ^ d"
    by (metis diff_zero dvd_eq_mod_eq_0 mod_diff_right_eq)
  then show ?thesis using assms by (simp add: sval_def wf_apint_def)
qed

lemma trunc_sext:
  assumes "wf_apint w a" "w \<le> m" "d \<le> m"
  shows "ap_trunc (ap_sext a m) d = (if d \<le> w then ap_trunc a d else ap_sext a d)"
proof -
  have "int (ival (ap_sext a m) mod 2 ^ d) = sval a mod 2 ^ m mod 2 ^ d"
    by (simp add: ap_sext_def of_sval_def zmod_int)
  also have "\<dots> = sval a mod 2 ^ d" using assms(3) by (simp add: mod_mod_cancel le_imp_power_dvd)
  finally have e: "int (ival (ap_sext a m) mod 2 ^ d) = sval a mod 2 ^ d" .
  show ?thesis
  proof (cases "d \<le> w")
    case True
    then have "int (ival (ap_sext a m) mod 2 ^ d) = int (ival a mod 2 ^ d)"
      using e sval_mod [OF assms(1) True] by (simp add: zmod_int)
    then show ?thesis using True by (simp add: resize_eq mk_apint_def)
  next
    case False
    then show ?thesis using e by (simp add: resize_eq mk_apint_def ap_sext_def of_sval_def flip: e)
  qed
qed

text \<open>Truncation and zero extension are one function on values; the laws below put a composition of
  conversions into a single one.\<close>

lemma ap_trunc_zext: "ap_trunc v w = ap_zext v w"
  by (simp add: resize_eq)

lemma zext_id: "wf_apint w a \<Longrightarrow> ap_zext a w = a"
  by (simp add: resize_eq mk_same)

lemma zext_zext: "wf_apint w a \<Longrightarrow> w \<le> m \<or> d \<le> m \<Longrightarrow> ap_zext (ap_zext a m) d = ap_zext a d"
  using mk_extend [of w a m d] mk_resize [of d m "ival a"] by (auto simp: resize_eq)

lemma zext_sext: "wf_apint w a \<Longrightarrow> w \<le> m \<Longrightarrow> d \<le> m \<Longrightarrow>
    ap_zext (ap_sext a m) d = (if d \<le> w then ap_zext a d else ap_sext a d)"
  using trunc_sext [of w a m d] by (simp add: ap_trunc_zext)

lemma bitWidth_ext: "bitWidth (ap_zext a w) = w" "bitWidth (ap_sext a w) = w"
  by simp_all

section \<open>Casts of scalars\<close>

lemma scalar_views [simp]:
  "isIntegerTy (IntegerTy n)" "\<not> isIntegerTy (PointerTy e a)" "isPointerTy (PointerTy e a)" "\<not> isPointerTy (IntegerTy n)"
  "isIntOrIntVectorTy (IntegerTy n)" "\<not> isIntOrIntVectorTy (PointerTy e a)"
  "isPtrOrPtrVectorTy (PointerTy e a)" "\<not> isPtrOrPtrVectorTy (IntegerTy n)"
  "\<not> isFloatingPointTy (IntegerTy n)" "\<not> isFloatingPointTy (PointerTy e a)"
  "getScalarSizeInBits (IntegerTy n) = n" "getScalarSizeInBits (PointerTy e a) = 0"
  "getPointerAddressSpace (PointerTy e a) = Some a" "getPointerAddressSpace (IntegerTy n) = None"
  "value_bits ptr_bits (IntegerTy n) = n" "value_bits ptr_bits (PointerTy e a) = ptr_bits a"
  by (simp_all add: ty_defs getScalarSizeInBits_def getPointerAddressSpace_def value_bits_def)

lemma valid_scalar:
  "castIsValid opc (IntegerTy a) (IntegerTy b) \<longleftrightarrow>
     opc = Trunc \<and> b < a \<or> opc = ZExt \<and> a < b \<or> opc = SExt \<and> a < b \<or> opc = BitCast \<and> a = b"
  "castIsValid opc (IntegerTy a) (PointerTy e b) \<longleftrightarrow> opc = IntToPtr"
  "castIsValid opc (PointerTy e a) (IntegerTy b) \<longleftrightarrow> opc = PtrToInt"
  "castIsValid opc (PointerTy e a) (PointerTy e' b) \<longleftrightarrow> opc = BitCast \<and> a = b \<or> opc = AddrSpaceCast \<and> a \<noteq> b"
  by (cases opc; auto simp: castIsValid_def Let_def ty_defs getScalarSizeInBits_def getPointerAddressSpace_def
      pointer_cast_shape_def pointer_vector_shape_def vector_length_def)+

lemma isEliminableCastPair_scalar:
  "\<not> isVectorTy s \<Longrightarrow> \<not> isVectorTy m \<Longrightarrow> \<not> isVectorTy d \<Longrightarrow>
   isEliminableCastPair f g s m d sp mp dp = elim_case (CastResults f ! (op_code g - op_code Trunc)) f g s m d sp mp dp"
  by (simp add: isEliminableCastPair_def)

lemma elim_case_simps:
  "elim_case 0 f g s m d sp mp dp = Some None"
  "elim_case (Suc 0) f g s m d sp mp dp = Some (Some f)"
  "elim_case 2 f g s m d sp mp dp = Some (Some g)"
  "elim_case 3 f g s m d sp mp dp = (if \<not> isVectorTy s \<and> isIntegerTy d then Some (Some f) else Some None)"
  "elim_case 5 f g s m d sp mp dp = (if isIntegerTy s then Some (Some g) else Some None)"
  "elim_case 7 f g s m d sp mp dp = elim_ptr_int_ptr s m d sp dp"
  "elim_case 8 f g s m d sp mp dp = elim_ext_trunc f g s d"
  "elim_case 9 f g s m d sp mp dp = Some (Some ZExt)"
  "elim_case 11 f g s m d sp mp dp = elim_int_ptr_int s d mp"
  "elim_case 12 f g s m d sp mp dp = elim_addrspace s d"
  "elim_case 14 f g s m d sp mp dp = elim_bitcast_addrspace s d"
  "elim_case 13 f g s m d sp mp dp = (if isPtrOrPtrVectorTy s \<and> isPtrOrPtrVectorTy m \<and> isPtrOrPtrVectorTy d \<and>
     getPointerAddressSpace s \<noteq> getPointerAddressSpace m \<and> getPointerAddressSpace m = getPointerAddressSpace d
     then Some (Some f) else None)"
  "elim_case 15 f g s m d sp mp dp = (if isIntOrIntVectorTy s \<and> isPtrOrPtrVectorTy m \<and> isPtrOrPtrVectorTy d \<and>
     getPointerAddressSpace m = getPointerAddressSpace d then Some (Some f) else None)"
  "elim_case 16 f g s m d sp mp dp = (if isPtrOrPtrVectorTy s \<and> isPtrOrPtrVectorTy m \<and> isIntOrIntVectorTy d \<and>
     getPointerAddressSpace s = getPointerAddressSpace m then Some (Some g) else None)"
  by (simp_all add: elim_case_def)

lemmas elim_scalar = isEliminableCastPair_scalar elim_case_simps elim_ext_trunc_def elim_int_ptr_int_def
  elim_ptr_int_ptr_def elim_addrspace_def elim_bitcast_addrspace_def getPointerElementType_def cast_value_def Let_def ap_trunc_zext

lemma value_iii:
  assumes "castIsValid f (IntegerTy a) (IntegerTy b)" "castIsValid g (IntegerTy b) (IntegerTy c)"
    and "isEliminableCastPair f g (IntegerTy a) (IntegerTy b) (IntegerTy c) sp mp dp = Some (Some r)"
    and x: "wf_apint a x"
  shows "cast_value ptr_bits asc r (IntegerTy a) (IntegerTy c) x =
    Option.bind (cast_value ptr_bits asc f (IntegerTy a) (IntegerTy b) x) (cast_value ptr_bits asc g (IntegerTy b) (IntegerTy c))"
  using assms unfolding valid_scalar
  by (elim disjE conjE; simp add: elim_scalar split: if_splits;
      simp add: zext_id zext_zext zext_sext sext_zext sext_sext)

lemma value_iip:
  assumes "castIsValid f (IntegerTy a) (IntegerTy b)" "castIsValid g (IntegerTy b) (PointerTy e c)"
    and "isEliminableCastPair f g (IntegerTy a) (IntegerTy b) (PointerTy e c) sp mp dp = Some (Some r)"
    and x: "wf_apint a x"
  shows "cast_value ptr_bits asc r (IntegerTy a) (PointerTy e c) x =
    Option.bind (cast_value ptr_bits asc f (IntegerTy a) (IntegerTy b) x) (cast_value ptr_bits asc g (IntegerTy b) (PointerTy e c))"
  using assms(1-3) unfolding valid_scalar
  by (elim disjE conjE; simp add: elim_scalar split: if_splits;
      simp add: zext_id [OF x] zext_zext [OF x])

lemma value_ipi:
  assumes "castIsValid f (IntegerTy a) (PointerTy e b)" "castIsValid g (PointerTy e b) (IntegerTy c)"
    and mp: "mp = None \<or> mp = Some (IntegerTy (ptr_bits b))"
    and "isEliminableCastPair f g (IntegerTy a) (PointerTy e b) (IntegerTy c) sp mp dp = Some (Some r)"
    and x: "wf_apint a x"
  shows "cast_value ptr_bits asc r (IntegerTy a) (IntegerTy c) x =
    Option.bind (cast_value ptr_bits asc f (IntegerTy a) (PointerTy e b) x) (cast_value ptr_bits asc g (PointerTy e b) (IntegerTy c))"
  using assms unfolding valid_scalar
  by (elim disjE conjE; simp add: elim_scalar split: if_splits;
      simp add: zext_id zext_zext)

lemma value_ipp:
  assumes "castIsValid f (IntegerTy a) (PointerTy e b)" "castIsValid g (PointerTy e b) (PointerTy e' c)"
    and "isEliminableCastPair f g (IntegerTy a) (PointerTy e b) (PointerTy e' c) sp mp dp = Some (Some r)"
  shows "cast_value ptr_bits asc r (IntegerTy a) (PointerTy e' c) x =
    Option.bind (cast_value ptr_bits asc f (IntegerTy a) (PointerTy e b) x) (cast_value ptr_bits asc g (PointerTy e b) (PointerTy e' c))"
  using assms unfolding valid_scalar
  by (elim disjE conjE; simp add: elim_scalar split: if_splits)

lemma value_pii:
  assumes "castIsValid f (PointerTy e a) (IntegerTy b)" "castIsValid g (IntegerTy b) (IntegerTy c)"
    and "isEliminableCastPair f g (PointerTy e a) (IntegerTy b) (IntegerTy c) sp mp dp = Some (Some r)"
    and x: "wf_apint (ptr_bits a) x"
  shows "cast_value ptr_bits asc r (PointerTy e a) (IntegerTy c) x =
    Option.bind (cast_value ptr_bits asc f (PointerTy e a) (IntegerTy b) x) (cast_value ptr_bits asc g (IntegerTy b) (IntegerTy c))"
  using assms(1-3) unfolding valid_scalar
  by (elim disjE conjE; simp add: elim_scalar split: if_splits;
      simp add: zext_id [OF x] zext_zext [OF x])

lemma value_pip:
  assumes "castIsValid f (PointerTy e a) (IntegerTy b)" "castIsValid g (IntegerTy b) (PointerTy e' c)"
    and small: "b = 64 \<longrightarrow> ptr_bits a \<le> 64" and sp: "sp = None \<or> sp = Some (IntegerTy (ptr_bits a))"
    and "isEliminableCastPair f g (PointerTy e a) (IntegerTy b) (PointerTy e' c) sp mp dp = Some (Some r)"
    and x: "wf_apint (ptr_bits a) x"
  shows "cast_value ptr_bits asc r (PointerTy e a) (PointerTy e' c) x =
    Option.bind (cast_value ptr_bits asc f (PointerTy e a) (IntegerTy b) x) (cast_value ptr_bits asc g (IntegerTy b) (PointerTy e' c))"
  using assms unfolding valid_scalar
  by (elim disjE conjE; simp add: elim_scalar split: if_splits;
      simp add: zext_id zext_zext)

lemma value_ppi:
  assumes "castIsValid f (PointerTy e a) (PointerTy e' b)" "castIsValid g (PointerTy e' b) (IntegerTy c)"
    and "isEliminableCastPair f g (PointerTy e a) (PointerTy e' b) (IntegerTy c) sp mp dp = Some (Some r)"
  shows "cast_value ptr_bits asc r (PointerTy e a) (IntegerTy c) x =
    Option.bind (cast_value ptr_bits asc f (PointerTy e a) (PointerTy e' b) x) (cast_value ptr_bits asc g (PointerTy e' b) (IntegerTy c))"
  using assms unfolding valid_scalar
  by (elim disjE conjE; simp add: elim_scalar split: if_splits)

lemma value_ppp:
  assumes "castIsValid f (PointerTy e a) (PointerTy e' b)" "castIsValid g (PointerTy e' b) (PointerTy e'' c)"
    and "f = AddrSpaceCast \<and> g = AddrSpaceCast \<longrightarrow> addrspaces_compose asc"
    and "isEliminableCastPair f g (PointerTy e a) (PointerTy e' b) (PointerTy e'' c) sp mp dp = Some (Some r)"
  shows "cast_value ptr_bits asc r (PointerTy e a) (PointerTy e'' c) x =
    Option.bind (cast_value ptr_bits asc f (PointerTy e a) (PointerTy e' b) x) (cast_value ptr_bits asc g (PointerTy e' b) (PointerTy e'' c))"
  using assms unfolding valid_scalar
  by (elim disjE conjE; simp add: elim_scalar addrspaces_compose_def split: if_splits)

lemma scalar_value_typeE:
  assumes "scalar_value_type t"
  obtains (int) n where "t = IntegerTy n" | (ptr) e a where "t = PointerTy e a"
  using assms by (auto simp: scalar_value_type_def isIntegerTy_iff isPointerTy_iff)

text \<open>C17: the opcode that replaces a pair of casts gives the value of the two casts one after the other, for
  integers and pointers, whatever is known of the pointer widths. Two conditions: a pointer that goes through a
  64-bit integer has at most 64 bits, as the code assumes there (with a FIXME), and for two \<open>addrspacecast\<close>s
  the conversions of the target compose.\<close>
theorem isEliminableCastPair_value:
  assumes "scalar_value_type s" "scalar_value_type m" "scalar_value_type d"
    and "castIsValid f s m" "castIsValid g m d"
    and "f = AddrSpaceCast \<and> g = AddrSpaceCast \<longrightarrow> addrspaces_compose asc"
    and "\<forall>e a. s = PointerTy e a \<and> m = IntegerTy 64 \<longrightarrow> ptr_bits a \<le> 64"
    and "\<forall>e a. s = PointerTy e a \<longrightarrow> sp = None \<or> sp = Some (IntegerTy (ptr_bits a))"
    and "\<forall>e a. m = PointerTy e a \<longrightarrow> mp = None \<or> mp = Some (IntegerTy (ptr_bits a))"
    and "isEliminableCastPair f g s m d sp mp dp = Some (Some r)"
    and "wf_apint (value_bits ptr_bits s) x"
  shows "cast_value ptr_bits asc r s d x =
    Option.bind (cast_value ptr_bits asc f s m x) (cast_value ptr_bits asc g m d)"
proof -
  note * = assms(4-11)
  show ?thesis
    using assms(1)
  proof (cases rule: scalar_value_typeE)
    case s: (int a)
    show ?thesis using assms(2)
    proof (cases rule: scalar_value_typeE)
      case m: (int b)
      show ?thesis using assms(3)
        by (cases rule: scalar_value_typeE) (use * in \<open>simp_all add: s m value_iii value_iip\<close>)
    next
      case m: (ptr e b)
      show ?thesis using assms(3)
        by (cases rule: scalar_value_typeE) (use * in \<open>simp_all add: s m value_ipi value_ipp\<close>)
    qed
  next
    case s: (ptr e a)
    show ?thesis using assms(2)
    proof (cases rule: scalar_value_typeE)
      case m: (int b)
      show ?thesis using assms(3)
        by (cases rule: scalar_value_typeE) (use * in \<open>simp_all add: s m value_pii value_pip\<close>)
    next
      case m: (ptr e' b)
      show ?thesis using assms(3)
        by (cases rule: scalar_value_typeE) (use * in \<open>simp_all add: s m value_ppi value_ppp\<close>)
    qed
  qed
qed

lemma isEliminableCastPair_value_witness:
  "cast_value (\<lambda>a. 32) (\<lambda>a b v. v) PtrToInt (PointerTy FloatTy 0) (IntegerTy 8) (mk_apint 32 1000) =
    Option.bind (cast_value (\<lambda>a. 32) (\<lambda>a b v. v) PtrToInt (PointerTy FloatTy 0) (IntegerTy 64) (mk_apint 32 1000))
      (cast_value (\<lambda>a. 32) (\<lambda>a b v. v) Trunc (IntegerTy 64) (IntegerTy 8))"
  by (rule isEliminableCastPair_value [where sp = None and mp = None and dp = None])
    (simp_all add: scalar_value_type_def valid_scalar elim_scalar)

text \<open>The condition on the width is needed: a pointer of 128 bits loses its high bits on the way.\<close>

lemma wide_pointer_round_trip:
  "isEliminableCastPair PtrToInt IntToPtr (PointerTy FloatTy 0) (IntegerTy 64) (PointerTy FloatTy 0) None None None = Some (Some BitCast)"
  "Option.bind (cast_value (\<lambda>a. 128) asc PtrToInt (PointerTy FloatTy 0) (IntegerTy 64) (mk_apint 128 (2 ^ 64)))
     (cast_value (\<lambda>a. 128) asc IntToPtr (IntegerTy 64) (PointerTy FloatTy 0)) \<noteq>
   cast_value (\<lambda>a. 128) asc BitCast (PointerTy FloatTy 0) (PointerTy FloatTy 0) (mk_apint 128 (2 ^ 64))"
  by (simp_all add: elim_scalar mk_apint_def ap_zext_def)

section \<open>Integer casts and casts that do nothing\<close>

text \<open>An integer cast is created for every pair of widths, and its value is that of the operand, read
  as signed or unsigned as asked, modulo the new width.\<close>
theorem CreateIntegerCast_value:
  assumes "wf_apint a x" "0 < b"
  shows "case CreateIntegerCast (IntegerTy a) (IntegerTy b) isSigned of
      None \<Rightarrow> False
    | Some c \<Rightarrow> isIntegerCast c \<and> cast_value ptr_bits asc (inst_opcode c) (IntegerTy a) (IntegerTy b) x =
        Some (of_sval b (if isSigned then sval x else int (ival x)))"
proof -
  have u: "of_sval b (int (ival x)) = ap_zext x b"
    by (simp add: of_sval_def resize_eq mk_apint_def nat_mod_distrib nat_power_eq)
  have sg: "of_sval b (sval x) = ap_sext x b" by (simp add: ap_sext_def)
  have tr: "ap_sext x b = ap_zext x b" if "b < a"
    using sval_mod [OF assms(1), of b] that u by (simp add: ap_sext_def of_sval_def)
  have id: "ap_sext x a = x"
    using ival_sext(1) [OF assms(1) order_refl] ival_less [OF assms(1)] wf_bitWidth [OF assms(1)]
    by (auto simp: sxt_def intro!: apint.equality)
  show ?thesis
    using u sg tr id zext_id [OF assms(1)]
    by (auto simp: CreateIntegerCast_def Let_def Create_def valid_scalar isIntegerCast_def cast_value_def ap_trunc_zext)
qed

lemma CreateIntegerCast_value_witness:
  "case CreateIntegerCast (IntegerTy 8) (IntegerTy 16) True of
     None \<Rightarrow> False
   | Some c \<Rightarrow> isIntegerCast c \<and> cast_value (\<lambda>a. 64) (\<lambda>a b v. v) (inst_opcode c) (IntegerTy 8) (IntegerTy 16) (mk_apint 8 255) =
        Some (of_sval 16 (if True then sval (mk_apint 8 255) else int (ival (mk_apint 8 255))))"
  by (rule CreateIntegerCast_value) simp_all

text \<open>A valid cast that \<open>isNoopCast\<close> accepts leaves the value of an integer or a pointer as it is, and
  keeps its width.\<close>
theorem isNoopCast_value:
  assumes "scalar_value_type s" "scalar_value_type d" and "castIsValid opc s d"
    and "\<forall>e a. s = PointerTy e a \<or> d = PointerTy e a \<longrightarrow> IntPtrTy = IntegerTy (ptr_bits a)"
    and "isNoopCast opc s d IntPtrTy" and "wf_apint (value_bits ptr_bits s) x"
  shows "cast_value ptr_bits asc opc s d x = Some x \<and> wf_apint (value_bits ptr_bits d) x"
proof -
  note * = assms(3-6)
  show ?thesis
    using assms(1)
  proof (cases rule: scalar_value_typeE)
    case s: (int a)
    show ?thesis using assms(2)
      by (cases rule: scalar_value_typeE)
        (use * in \<open>auto simp: s valid_scalar isNoopCast_def cast_value_def ap_trunc_zext zext_id wf_bitWidth\<close>)
  next
    case s: (ptr e a)
    show ?thesis using assms(2)
      by (cases rule: scalar_value_typeE)
        (use * in \<open>auto simp: s valid_scalar isNoopCast_def cast_value_def ap_trunc_zext zext_id wf_bitWidth\<close>)
  qed
qed

lemma isNoopCast_value_witness:
  "cast_value (\<lambda>a. 32) (\<lambda>a b v. v) PtrToInt (PointerTy FloatTy 0) (IntegerTy 32) (mk_apint 32 7) = Some (mk_apint 32 7) \<and>
   wf_apint (value_bits (\<lambda>a. 32) (IntegerTy 32)) (mk_apint 32 7)"
  by (rule isNoopCast_value [where IntPtrTy = "IntegerTy 32"])
    (simp_all add: scalar_value_type_def valid_scalar isNoopCast_def)

end
