(* ===== verification/StringRef.thy ===== *)
theory StringRef
  imports LLVM_Prelude
begin

text \<open>
  Strings by reference (\<open>include/llvm/ADT/StringRef.h\<close>, \<open>lib/Support/StringRef.cpp\<close>) and the string
  switch (\<open>include/llvm/ADT/StringSwitch.h\<close>): comparison, slicing, searching and splitting; with the tokens and
  joins of \<open>StringExtras\<close>.

  A string is a list of 8-bit characters; \<open>of_char\<close> is the \<open>unsigned char\<close> value. Sizes and positions are
  natural numbers, with \<open>npos\<close> the largest \<open>size_t\<close>; where the code lets a size wrap or narrows it to
  \<open>unsigned\<close>, the model takes the remainder. A null reference, which only \<open>split\<close> tells from an empty
  one, is \<open>None\<close>. The standard library's \<open>memcmp\<close>, \<open>memchr\<close> and \<open>bitset\<close> are written out.
\<close>

definition npos :: nat where
  "npos = 2 ^ 64 - 1"

section \<open>Comparison\<close>

text \<open>The sign of \<open>memcmp\<close> on the first \<open>n\<close> bytes, which every caller keeps within both strings.\<close>

fun compareMemory :: "string \<Rightarrow> string \<Rightarrow> nat \<Rightarrow> int" where
  "compareMemory (a # LHS) (b # RHS) (Suc n) =
     (if a = b then compareMemory LHS RHS n
      else if (of_char a :: nat) < of_char b then - 1 else 1)"
| "compareMemory LHS RHS n = 0"

definition equals :: "string \<Rightarrow> string \<Rightarrow> bool" where
  "equals S RHS \<longleftrightarrow> length S = length RHS \<and> compareMemory S RHS (length RHS) = 0"

definition compare :: "string \<Rightarrow> string \<Rightarrow> int" where
  "compare S RHS =
    (let Res = compareMemory S RHS (min (length S) (length RHS))
     in if Res \<noteq> 0 then (if Res < 0 then - 1 else 1)
        else if length S = length RHS then 0
        else if length S < length RHS then - 1 else 1)"

definition startswith :: "string \<Rightarrow> string \<Rightarrow> bool" where
  "startswith S Prefix \<longleftrightarrow> length S \<ge> length Prefix \<and> compareMemory S Prefix (length Prefix) = 0"

definition endswith :: "string \<Rightarrow> string \<Rightarrow> bool" where
  "endswith S Suffix \<longleftrightarrow> length S \<ge> length Suffix \<and>
     compareMemory (drop (length S - length Suffix) S) Suffix (length Suffix) = 0"

definition ascii_tolower :: "char \<Rightarrow> char" where
  "ascii_tolower x = (if (of_char x :: nat) \<ge> of_char CHR ''A'' \<and> (of_char x :: nat) \<le> of_char CHR ''Z''
     then char_of ((of_char x :: nat) - of_char CHR ''A'' + of_char CHR ''a'') else x)"

definition ascii_toupper :: "char \<Rightarrow> char" where
  "ascii_toupper x = (if (of_char x :: nat) \<ge> of_char CHR ''a'' \<and> (of_char x :: nat) \<le> of_char CHR ''z''
     then char_of ((of_char x :: nat) - of_char CHR ''a'' + of_char CHR ''A'') else x)"

definition ascii_isdigit :: "char \<Rightarrow> bool" where
  "ascii_isdigit x \<longleftrightarrow> (of_char x :: nat) \<ge> of_char CHR ''0'' \<and> (of_char x :: nat) \<le> of_char CHR ''9''"

fun ascii_strncasecmp :: "string \<Rightarrow> string \<Rightarrow> nat \<Rightarrow> int" where
  "ascii_strncasecmp (l # LHS) (r # RHS) (Suc n) =
     (let LHC = ascii_tolower l; RHC = ascii_tolower r
      in if LHC \<noteq> RHC then (if (of_char LHC :: nat) < of_char RHC then - 1 else 1)
         else ascii_strncasecmp LHS RHS n)"
| "ascii_strncasecmp LHS RHS n = 0"

definition compare_lower :: "string \<Rightarrow> string \<Rightarrow> int" where
  "compare_lower S RHS =
    (let Res = ascii_strncasecmp S RHS (min (length S) (length RHS))
     in if Res \<noteq> 0 then Res
        else if length S = length RHS then 0
        else if length S < length RHS then - 1 else 1)"

definition startswith_lower :: "string \<Rightarrow> string \<Rightarrow> bool" where
  "startswith_lower S Prefix \<longleftrightarrow> length S \<ge> length Prefix \<and> ascii_strncasecmp S Prefix (length Prefix) = 0"

definition endswith_lower :: "string \<Rightarrow> string \<Rightarrow> bool" where
  "endswith_lower S Suffix \<longleftrightarrow> length S \<ge> length Suffix \<and>
     ascii_strncasecmp (drop (length S - length Suffix) S) Suffix (length Suffix) = 0"

definition equals_lower :: "string \<Rightarrow> string \<Rightarrow> bool" where
  "equals_lower S RHS \<longleftrightarrow> length S = length RHS \<and> compare_lower S RHS = 0"

definition lower :: "string \<Rightarrow> string" where
  "lower S = List.map ascii_tolower S"

definition upper :: "string \<Rightarrow> string" where
  "upper S = List.map ascii_toupper S"

text \<open>\<open>compare_numeric\<close>: the inner loop ends with a result (\<open>Inl\<close>) or with the end of two digit runs
  of one length (\<open>Inr\<close>).\<close>

function digit_runs :: "string \<Rightarrow> string \<Rightarrow> nat \<Rightarrow> nat \<Rightarrow> int + nat" where
  "digit_runs S RHS E J =
    (if J < E + 1 then
       let ld = (J < length S \<and> ascii_isdigit (S ! J)); rd = (J < length RHS \<and> ascii_isdigit (RHS ! J))
       in if ld \<noteq> rd then Inl (if rd then - 1 else 1)
          else if \<not> rd then Inr J
          else digit_runs S RHS E (J + 1)
     else Inr J)"
  by pat_completeness auto
termination by (relation "measure (\<lambda>(S, RHS, E, J). E + 1 - J)") auto

declare digit_runs.simps [simp del]

lemma digit_runs_ge: "digit_runs S RHS E J = Inr K \<Longrightarrow> J \<le> K"
proof (induction S RHS E J rule: digit_runs.induct)
  case (1 S RHS E J)
  show ?case
  proof (cases "digit_runs S RHS E (J + 1) = Inr K \<and> J < E + 1 \<and> J < length S \<and> ascii_isdigit (S ! J) \<and>
      J < length RHS \<and> ascii_isdigit (RHS ! J)")
    case True
    then have "J + 1 \<le> K" using "1.IH" [OF _ refl refl] by simp
    then show ?thesis by simp
  next
    case False
    then show ?thesis using "1.prems" by (subst (asm) digit_runs.simps) (auto simp: Let_def split: if_splits)
  qed
qed

function compare_numeric_loop :: "string \<Rightarrow> string \<Rightarrow> nat \<Rightarrow> nat \<Rightarrow> int" where
  "compare_numeric_loop S RHS E I =
    (if I < E then
       if ascii_isdigit (S ! I) \<and> ascii_isdigit (RHS ! I) then
         case digit_runs S RHS E (I + 1) of
           Inl res \<Rightarrow> res
         | Inr J \<Rightarrow>
             let Res = compareMemory (drop I S) (drop I RHS) (J - I)
             in if Res \<noteq> 0 then (if Res < 0 then - 1 else 1)
                else compare_numeric_loop S RHS E J
       else if S ! I \<noteq> RHS ! I then (if (of_char (S ! I) :: nat) < of_char (RHS ! I) then - 1 else 1)
       else compare_numeric_loop S RHS E (I + 1)
     else if length S = length RHS then 0
     else if length S < length RHS then - 1 else 1)"
  by pat_completeness auto
termination
  by (relation "measure (\<lambda>(S, RHS, E, I). E - I)") (auto dest!: digit_runs_ge [OF sym] digit_runs_ge)

declare compare_numeric_loop.simps [simp del]

definition compare_numeric :: "string \<Rightarrow> string \<Rightarrow> int" where
  "compare_numeric S RHS = compare_numeric_loop S RHS (min (length S) (length RHS)) 0"

section \<open>Slicing\<close>

definition substr :: "string \<Rightarrow> nat \<Rightarrow> nat \<Rightarrow> string" where
  "substr S Start N = (let Start = min Start (length S) in take (min N (length S - Start)) (drop Start S))"

definition slice :: "string \<Rightarrow> nat \<Rightarrow> nat \<Rightarrow> string" where
  "slice S Start End =
    (let Start = min Start (length S); End = min (max Start End) (length S)
     in take (End - Start) (drop Start S))"

definition drop_front :: "string \<Rightarrow> nat \<Rightarrow> string option" where
  "drop_front S N = (if length S \<ge> N then Some (substr S N npos) else None)"

definition drop_back :: "string \<Rightarrow> nat \<Rightarrow> string option" where
  "drop_back S N = (if length S \<ge> N then Some (substr S 0 (length S - N)) else None)"

section \<open>Searching\<close>

text \<open>The loops \<open>for (i = b; i != e; ++i) if (P(i)) return i; return npos\<close> and its downward form.\<close>

definition first_index :: "(nat \<Rightarrow> bool) \<Rightarrow> nat \<Rightarrow> nat \<Rightarrow> nat" where
  "first_index P b e = (case List.find P [b..<e] of Some i \<Rightarrow> i | None \<Rightarrow> npos)"

definition last_index :: "(nat \<Rightarrow> bool) \<Rightarrow> nat \<Rightarrow> nat" where
  "last_index P e = (case List.find P (rev [0..<e]) of Some i \<Rightarrow> i | None \<Rightarrow> npos)"

definition find_char :: "string \<Rightarrow> char \<Rightarrow> nat \<Rightarrow> nat" where
  "find_char S C From =
    (let FindBegin = min From (length S)
     in if FindBegin < length S then first_index (\<lambda>i. S ! i = C) FindBegin (length S) else npos)"

text \<open>The bad character table of the search, one byte per character.\<close>

definition BadCharSkip :: "string \<Rightarrow> char \<Rightarrow> nat" where
  "BadCharSkip Str =
    (let N = length Str in fold (\<lambda>i T. T(Str ! i := N - 1 - i)) [0..<N - 1] (\<lambda>_. N))"

function horspool :: "string \<Rightarrow> string \<Rightarrow> nat \<Rightarrow> nat \<Rightarrow> nat" where
  "horspool S Str Len Pos =
    (if Len \<ge> length Str then
       if equals (substr S Pos (length Str)) Str then Pos
       else let Skip = BadCharSkip Str (S ! (Pos + length Str - 1))
            in horspool S Str (Len - Skip) ((Pos + Skip) mod 2 ^ 32)
     else npos)"
  by pat_completeness auto

lemma BadCharSkip_bounds:
  assumes "0 < length Str"
  shows "0 < BadCharSkip Str c \<and> BadCharSkip Str c \<le> length Str \<and>
    (\<forall>k < length Str - 1. Str ! k = c \<longrightarrow> BadCharSkip Str c \<le> length Str - 1 - k)"
proof -
  define tab where "tab m = fold (\<lambda>i T. T(Str ! i := length Str - 1 - i)) [0..<m] (\<lambda>_. length Str)" for m
  have "0 < tab m c \<and> tab m c \<le> length Str \<and> (\<forall>k < m. Str ! k = c \<longrightarrow> tab m c \<le> length Str - 1 - k)"
    if "m \<le> length Str - 1" for m
    using that
  proof (induction m)
    case 0
    then show ?case using assms by (simp add: tab_def)
  next
    case (Suc m)
    have step: "tab (Suc m) = (tab m)(Str ! m := length Str - 1 - m)" by (simp add: tab_def)
    show ?case
    proof (cases "c = Str ! m")
      case True
      then show ?thesis using Suc.prems by (auto simp: step less_Suc_eq)
    next
      case False
      then show ?thesis using Suc by (auto simp: step less_Suc_eq)
    qed
  qed
  from this [OF order_refl] show ?thesis by (simp add: tab_def BadCharSkip_def Let_def)
qed

lemma equals_Nil: "equals (substr S i 0) []"
  by (simp add: equals_def substr_def Let_def)

termination horspool
proof (relation "measure (\<lambda>(S, Str, Len, Pos). Len)", simp)
  fix S Str :: string and Len Pos Skip :: nat
  assume "length Str \<le> Len" "\<not> equals (substr S Pos (length Str)) Str"
    and Skip: "Skip = BadCharSkip Str (S ! (Pos + length Str - 1))"
  then have "0 < length Str" using equals_Nil [of S Pos] by (cases Str) auto
  with Skip BadCharSkip_bounds have "0 < Skip" by blast
  then show "((S, Str, Len - Skip, (Pos + Skip) mod 2 ^ 32), S, Str, Len, Pos) \<in> measure (\<lambda>(S, Str, Len, Pos). Len)"
    using less_le_trans [OF \<open>0 < length Str\<close> \<open>length Str \<le> Len\<close>] by simp
qed

declare horspool.simps [simp del]

definition find_str :: "string \<Rightarrow> string \<Rightarrow> nat \<Rightarrow> nat" where
  "find_str S Str From =
    (let N = length Str in
     if N > length S then npos
     else if length S < 16 \<or> N > 255 \<or> N = 0 then
       (let e = length S - N + 1 in first_index (\<lambda>i. equals (substr S i N) Str) (min From e) e)
     else if From \<ge> length S then npos
     else horspool S Str ((length S - From) mod 2 ^ 32) (From mod 2 ^ 32))"

definition rfind_char :: "string \<Rightarrow> char \<Rightarrow> nat \<Rightarrow> nat" where
  "rfind_char S C From = last_index (\<lambda>i. S ! i = C) (min From (length S))"

definition rfind_str :: "string \<Rightarrow> string \<Rightarrow> nat" where
  "rfind_str S Str =
    (let N = length Str in
     if N > length S then npos
     else last_index (\<lambda>i. equals (substr S i N) Str) (length S - N + 1))"

definition find_first_of :: "string \<Rightarrow> string \<Rightarrow> nat \<Rightarrow> nat" where
  "find_first_of S Chars From = first_index (\<lambda>i. S ! i \<in> set Chars) (min From (length S)) (length S)"

definition find_first_not_of_char :: "string \<Rightarrow> char \<Rightarrow> nat \<Rightarrow> nat" where
  "find_first_not_of_char S C From = first_index (\<lambda>i. S ! i \<noteq> C) (min From (length S)) (length S)"

definition find_first_not_of :: "string \<Rightarrow> string \<Rightarrow> nat \<Rightarrow> nat" where
  "find_first_not_of S Chars From = first_index (\<lambda>i. S ! i \<notin> set Chars) (min From (length S)) (length S)"

definition find_last_of :: "string \<Rightarrow> string \<Rightarrow> nat \<Rightarrow> nat" where
  "find_last_of S Chars From = last_index (\<lambda>i. S ! i \<in> set Chars) (min From (length S))"

definition find_last_not_of_char :: "string \<Rightarrow> char \<Rightarrow> nat \<Rightarrow> nat" where
  "find_last_not_of_char S C From = last_index (\<lambda>i. S ! i \<noteq> C) (min From (length S))"

definition find_last_not_of :: "string \<Rightarrow> string \<Rightarrow> nat \<Rightarrow> nat" where
  "find_last_not_of S Chars From = last_index (\<lambda>i. S ! i \<notin> set Chars) (min From (length S))"

definition count_char :: "string \<Rightarrow> char \<Rightarrow> nat" where
  "count_char S C = length (List.filter (\<lambda>i. S ! i = C) [0..<length S])"

definition count_str :: "string \<Rightarrow> string \<Rightarrow> nat" where
  "count_str S Str =
    (let N = length Str in
     if N > length S then 0
     else length (List.filter (\<lambda>i. equals (substr S i N) Str) [0..<length S - N + 1]))"

section \<open>Trimming and splitting\<close>

definition ltrim :: "string \<Rightarrow> string \<Rightarrow> string option" where
  "ltrim S Chars = drop_front S (min (length S) (find_first_not_of S Chars 0))"

definition rtrim :: "string \<Rightarrow> string \<Rightarrow> string option" where
  "rtrim S Chars = drop_back S (length S - min (length S) ((find_last_not_of S Chars npos + 1) mod 2 ^ 64))"

definition trim :: "string \<Rightarrow> string \<Rightarrow> string option" where
  "trim S Chars = Option.bind (ltrim S Chars) (\<lambda>T. rtrim T Chars)"

definition split_char :: "string \<Rightarrow> char \<Rightarrow> string \<times> string option" where
  "split_char S Separator =
    (let Idx = find_char S Separator 0
     in if Idx = npos then (S, None) else (slice S 0 Idx, Some (slice S (Idx + 1) npos)))"

definition split_str :: "string \<Rightarrow> string \<Rightarrow> string \<times> string option" where
  "split_str S Separator =
    (let Idx = find_str S Separator 0
     in if Idx = npos then (S, None) else (slice S 0 Idx, Some (slice S (Idx + length Separator) npos)))"

definition rsplit_char :: "string \<Rightarrow> char \<Rightarrow> string \<times> string option" where
  "rsplit_char S Separator =
    (let Idx = rfind_char S Separator npos
     in if Idx = npos then (S, None) else (slice S 0 Idx, Some (slice S (Idx + 1) npos)))"

text \<open>The loop of the many-way \<open>split\<close>. It runs forever when the separator is empty and the number of
  splits is not bounded, which is the result \<open>None\<close> here.\<close>

partial_function (option) split_loop ::
    "string \<Rightarrow> int \<Rightarrow> bool \<Rightarrow> int \<Rightarrow> string option \<Rightarrow> string list \<Rightarrow> (string list \<times> string option) option" where
  "split_loop Separators MaxSplit KeepEmpty splits rest A =
    (case rest of
       None \<Rightarrow> Some (A, None)
     | Some r \<Rightarrow>
         if MaxSplit < 0 \<or> splits < MaxSplit then
           split_loop Separators MaxSplit KeepEmpty (splits + 1) (snd (split_str r Separators))
             (if KeepEmpty \<or> length (fst (split_str r Separators)) \<noteq> 0
              then A @ [fst (split_str r Separators)] else A)
         else Some (A, Some r))"

definition split :: "string option \<Rightarrow> string \<Rightarrow> int \<Rightarrow> bool \<Rightarrow> string list option" where
  "split S Separators MaxSplit KeepEmpty =
    map_option (\<lambda>(A, rest). case rest of
        None \<Rightarrow> A
      | Some r \<Rightarrow> if length r \<noteq> 0 \<or> KeepEmpty then A @ [r] else A)
    (split_loop Separators MaxSplit KeepEmpty 0 S [])"

text \<open>\<open>lib/Support/StringExtras.cpp\<close> and the \<open>join\<close> of its header, which appends to one string.\<close>

definition StrInStrNoCase :: "string \<Rightarrow> string \<Rightarrow> nat" where
  "StrInStrNoCase s1 s2 =
    (let N = length s2; M = length s1 in
     if N > M then npos else first_index (\<lambda>i. equals_lower (substr s1 i N) s2) 0 (M - N + 1))"

definition getToken :: "string \<Rightarrow> string \<Rightarrow> string \<times> string" where
  "getToken Source Delimiters =
    (let Start = find_first_not_of Source Delimiters 0; End = find_first_of Source Delimiters Start
     in (slice Source Start End, substr Source End npos))"

lemma getToken_shorter:
  assumes "fst (getToken Source Delimiters) \<noteq> []"
  shows "length (snd (getToken Source Delimiters)) < length Source"
proof -
  let ?Start = "find_first_not_of Source Delimiters 0"
  let ?End = "find_first_of Source Delimiters ?Start"
  have "?Start < ?End" "Source \<noteq> []"
    using assms by (auto simp: getToken_def slice_def Let_def min_def max_def split: if_splits)
  moreover have "length (substr Source k npos) \<le> length Source - k" for k
    by (auto simp: substr_def Let_def)
  from this [of ?End] have "length (snd (getToken Source Delimiters)) \<le> length Source - ?End"
    by (simp add: getToken_def Let_def)
  ultimately show ?thesis by (cases Source) auto
qed

function SplitString :: "string \<Rightarrow> string \<Rightarrow> string list" where
  "SplitString Source Delimiters =
    (let S = getToken Source Delimiters
     in if fst S \<noteq> [] then fst S # SplitString (snd S) Delimiters else [])"
  by pat_completeness auto
termination
  by (relation "measure (\<lambda>(Source, _). length Source)") (auto intro: getToken_shorter)

declare SplitString.simps [simp del]

definition join :: "string list \<Rightarrow> string \<Rightarrow> string" where
  "join Parts Separator = (case Parts of [] \<Rightarrow> [] | x # xs \<Rightarrow> foldl (\<lambda>S y. S @ Separator @ y) x xs)"

section \<open>The string switch\<close>

datatype 'a switch_case = Case string 'a | StartsWith string 'a | EndsWith string 'a

fun case_matches :: "string \<Rightarrow> 'a switch_case \<Rightarrow> 'a option" where
  "case_matches Str (Case S Value) = (if length S = length Str \<and> compareMemory S Str (length S) = 0 then Some Value else None)"
| "case_matches Str (StartsWith S Value) =
     (if length Str \<ge> length S \<and> compareMemory S Str (length S) = 0 then Some Value else None)"
| "case_matches Str (EndsWith S Value) =
     (if length Str \<ge> length S \<and> compareMemory S (drop (length Str - length S) Str) (length S) = 0
      then Some Value else None)"

text \<open>The first case that matches gives the result, otherwise \<open>Default\<close> does.\<close>

fun StringSwitch :: "string \<Rightarrow> 'a switch_case list \<Rightarrow> 'a \<Rightarrow> 'a" where
  "StringSwitch Str [] Value = Value"
| "StringSwitch Str (c # cs) Value =
     (case case_matches Str c of Some v \<Rightarrow> v | None \<Rightarrow> StringSwitch Str cs Value)"

end
