(* ===== verification/StringFind.thy ===== *)
theory StringFind
  imports StringRef
begin

text \<open>
  What the comparison and search functions of \<open>StringRef\<close> compute: the comparisons are those of the
  character lists, the skip table search finds the first occurrence, and splitting is undone by
  joining.
\<close>

section \<open>Comparison of character lists\<close>

lemma compareMemory_0:
  "n \<le> length a \<Longrightarrow> n \<le> length b \<Longrightarrow> compareMemory a b n = 0 \<longleftrightarrow> take n a = take n b"
  by (induction a b n rule: compareMemory.induct) auto

lemma equals_iff [simp]: "equals s t \<longleftrightarrow> s = t"
  by (auto simp: equals_def compareMemory_0)

lemma startswith_iff: "startswith s p \<longleftrightarrow> take (length p) s = p"
proof -
  have "length p \<le> length s" if "take (length p) s = p"
    using arg_cong [OF that, of length] by (simp add: min_def split: if_splits)
  then show ?thesis by (auto simp: startswith_def compareMemory_0)
qed

lemma startswith_append: "startswith s p \<longleftrightarrow> (\<exists>t. s = p @ t)"
  by (metis startswith_iff append_eq_conv_conj append_take_drop_id)

lemma endswith_iff: "endswith s p \<longleftrightarrow> (\<exists>t. s = t @ p)"
proof
  assume "endswith s p"
  then have "length p \<le> length s" "drop (length s - length p) s = p"
    by (auto simp: endswith_def compareMemory_0)
  then show "\<exists>t. s = t @ p" by (metis append_take_drop_id)
qed (auto simp: endswith_def compareMemory_0)

lemma case_matches_simps [simp]:
  "case_matches s (Case t v) = (if s = t then Some v else None)"
  "case_matches s (StartsWith t v) = (if startswith s t then Some v else None)"
  "case_matches s (EndsWith t v) = (if endswith s t then Some v else None)"
proof -
  have comm: "compareMemory t u (length t) = 0 \<longleftrightarrow> compareMemory u t (length t) = 0"
    if "length t \<le> length u" for u :: string
    using compareMemory_0 [of "length t" t u] compareMemory_0 [of "length t" u t] that by auto
  show "case_matches s (Case t v) = (if s = t then Some v else None)"
    using comm [of s] by (auto simp: compareMemory_0)
  show "case_matches s (StartsWith t v) = (if startswith s t then Some v else None)"
    using comm [of s] by (auto simp: startswith_def)
  show "case_matches s (EndsWith t v) = (if endswith s t then Some v else None)"
    using comm [of "drop (length s - length t) s"] by (auto simp: endswith_def)
qed

declare case_matches.simps [simp del]

section \<open>Loops over positions\<close>

text \<open>\<open>r\<close> is the first position in \<open>[b, e)\<close> that satisfies \<open>P\<close>, or \<open>npos\<close> when there is none.\<close>

definition is_first :: "(nat \<Rightarrow> bool) \<Rightarrow> nat \<Rightarrow> nat \<Rightarrow> nat \<Rightarrow> bool" where
  "is_first P b e r \<longleftrightarrow>
    (b \<le> r \<and> r < e \<and> P r \<and> (\<forall>i. b \<le> i \<and> i < r \<longrightarrow> \<not> P i)) \<or> (r = npos \<and> (\<forall>i. b \<le> i \<and> i < e \<longrightarrow> \<not> P i))"

definition is_last :: "(nat \<Rightarrow> bool) \<Rightarrow> nat \<Rightarrow> nat \<Rightarrow> bool" where
  "is_last P e r \<longleftrightarrow>
    (r < e \<and> P r \<and> (\<forall>i. r < i \<and> i < e \<longrightarrow> \<not> P i)) \<or> (r = npos \<and> (\<forall>i < e. \<not> P i))"

lemma first_index_is_first: "is_first P b e (first_index P b e)"
proof (cases "List.find P [b..<e]")
  case None
  moreover from None have "\<forall>i. b \<le> i \<and> i < e \<longrightarrow> \<not> P i" by (auto simp: find_None_iff)
  ultimately show ?thesis by (simp add: first_index_def is_first_def)
next
  case (Some r)
  then obtain i where "i < e - b" "P (b + i)" "r = b + i" "\<forall>j < i. \<not> P (b + j)"
    by (auto simp: find_Some_iff)
  moreover have "\<not> P k" if "b \<le> k" "k < b + i" for k
    using that \<open>\<forall>j < i. \<not> P (b + j)\<close> by (metis le_add_diff_inverse nat_add_left_cancel_less)
  ultimately show ?thesis using Some by (auto simp: first_index_def is_first_def)
qed

lemma last_index_is_last: "is_last P e (last_index P e)"
proof (cases "List.find P (rev [0..<e])")
  case None
  moreover from None have "\<forall>i < e. \<not> P i" by (auto simp: find_None_iff)
  ultimately show ?thesis by (simp add: last_index_def is_last_def)
next
  case (Some r)
  then obtain i where i: "i < e" "P (rev [0..<e] ! i)" "r = rev [0..<e] ! i" "\<forall>j < i. \<not> P (rev [0..<e] ! j)"
    by (auto simp: find_Some_iff)
  have nth: "rev [0..<e] ! j = e - 1 - j" if "j < e" for j
    using that by (simp add: rev_nth)
  have "\<not> P k" if "r < k" "k < e" for k
  proof -
    have "e - 1 - k < i" using i(1,3) that nth [OF i(1)] by linarith
    then have "\<not> P (rev [0..<e] ! (e - 1 - k))" using i(4) by blast
    then show ?thesis using nth [of "e - 1 - k"] that by simp
  qed
  then show ?thesis using i nth [OF i(1)] Some by (auto simp: last_index_def is_last_def)
qed

lemma is_first_min: "is_first P (min b e) e r \<Longrightarrow> is_first P b e r"
  by (cases "b \<le> e") (auto simp: is_first_def min_def)

lemma is_first_extend:
  assumes "is_first P b e r" and "e \<le> e'" and none: "\<And>i. e \<le> i \<Longrightarrow> \<not> P i"
  shows "is_first P b e' r"
proof -
  have "\<not> P i" if "\<forall>i. b \<le> i \<and> i < e \<longrightarrow> \<not> P i" "b \<le> i" for i
    using that none [of i] by (cases "i < e") auto
  then show ?thesis using assms(1,2) unfolding is_first_def by fastforce
qed

lemma is_first_later:
  assumes "is_first P b' e r" and "b \<le> b'" and none: "\<And>i. b \<le> i \<Longrightarrow> i < b' \<Longrightarrow> \<not> P i"
  shows "is_first P b e r"
proof -
  have "\<not> P i" if "\<forall>i. b' \<le> i \<and> i < k \<longrightarrow> \<not> P i" "b \<le> i" "i < k" for i k
    using that none [of i] by (cases "i < b'") auto
  then show ?thesis using assms(1,2) unfolding is_first_def by fastforce
qed

section \<open>Substring search\<close>

definition occurs :: "string \<Rightarrow> string \<Rightarrow> nat \<Rightarrow> bool" where
  "occurs s t i \<longleftrightarrow> i + length t \<le> length s \<and> take (length t) (drop i s) = t"

lemma substr_take: "substr s i n = take n (drop i s)"
  by (auto simp: substr_def Let_def min_def)

lemma equals_substr: "i \<le> length s \<Longrightarrow> substr s i (length t) = t \<longleftrightarrow> occurs s t i"
  by (auto simp: occurs_def substr_take dest: arg_cong [of _ _ length])

lemma occurs_nth: "occurs s t i \<Longrightarrow> k < length t \<Longrightarrow> s ! (i + k) = t ! k"
  by (metis occurs_def add_leD1 nth_drop nth_take)

lemma skip_sound:
  assumes t: "0 < length t" and j: "occurs s t j" "p < j"
  shows "p + BadCharSkip t (s ! (p + length t - 1)) \<le> j"
proof (rule ccontr)
  let ?skip = "BadCharSkip t (s ! (p + length t - 1))"
  assume "\<not> ?thesis"
  then have lt: "j - p < ?skip" using j(2) by simp
  have "?skip \<le> length t" using BadCharSkip_bounds [OF t] by blast
  with lt j(2) have d: "0 < j - p" "j - p < length t" by auto
  define k where "k = length t - 1 - (j - p)"
  have k: "k < length t - 1" "j + k = p + length t - 1" using d j(2) by (auto simp: k_def)
  have "s ! (p + length t - 1) = t ! k" using occurs_nth [OF j(1), of k] k by simp
  then have "?skip \<le> length t - 1 - k" using BadCharSkip_bounds [OF t] k(1) by metis
  then show False using lt d by (simp add: k_def)
qed

lemma horspool_is_first:
  assumes t: "0 < length t" and s: "length s < 2 ^ 32" and "p \<le> length s" and "Len = length s - p"
  shows "is_first (occurs s t) p (length s - length t + 1) (horspool s t Len p)"
  using assms(3,4)
proof (induction Len arbitrary: p rule: less_induct)
  case (less Len)
  show ?case
  proof (cases "length t \<le> Len")
    case False
    then have "horspool s t Len p = npos" by (simp add: horspool.simps)
    moreover have "\<not> occurs s t i" if "p \<le> i" for i using that False less.prems by (auto simp: occurs_def)
    ultimately show ?thesis by (simp add: is_first_def)
  next
    case True
    show ?thesis
    proof (cases "occurs s t p")
      case occ: True
      then have "horspool s t Len p = p"
        using True equals_substr [OF less.prems(1)] by (simp add: horspool.simps)
      with occ True less.prems show ?thesis by (auto simp: is_first_def occurs_def)
    next
      case nocc: False
      let ?skip = "BadCharSkip t (s ! (p + length t - 1))"
      have b: "0 < ?skip" "?skip \<le> length t" using BadCharSkip_bounds [OF t] by blast+
      have p': "p + ?skip \<le> length s" using b True less.prems by linarith
      have m: "(p + ?skip) mod 2 ^ 32 = p + ?skip" using p' s by (intro mod_less) linarith
      have "horspool s t Len p = horspool s t (Len - ?skip) (p + ?skip)"
        by (subst horspool.simps)
          (simp only: True nocc equals_iff equals_substr [OF less.prems(1)] Let_def m if_True if_False)
      moreover have "is_first (occurs s t) (p + ?skip) (length s - length t + 1) (horspool s t (Len - ?skip) (p + ?skip))"
        using b True t less.prems p' by (intro less.IH) auto
      moreover have "\<not> occurs s t i" if "p \<le> i" "i < p + ?skip" for i
        using that nocc skip_sound [OF t, of s i p] by (cases "p = i") auto
      ultimately show ?thesis using is_first_later [of "occurs s t" "p + ?skip" _ _ p] by simp
    qed
  qed
qed

text \<open>On strings below 4 GiB the search, by the skip table or naively, returns the first position from
  \<open>From\<close> on where the needle occurs, and \<open>npos\<close> exactly when there is none.\<close>

lemma find_str_is_first:
  assumes "length S < 2 ^ 32"
  shows "is_first (occurs S Str) From (length S + 1) (find_str S Str From)"
proof (cases "length Str \<le> length S")
  case False
  then have "\<not> occurs S Str i" for i by (auto simp: occurs_def)
  with False show ?thesis by (simp add: find_str_def is_first_def)
next
  case True
  let ?P = "occurs S Str"
  have beyond: "\<not> ?P i" if "length S - length Str + 1 \<le> i" for i using that by (auto simp: occurs_def)
  have widen: "is_first ?P From (length S + 1) r" if "is_first ?P From (length S - length Str + 1) r" for r
    by (rule is_first_extend [OF that _ beyond]) simp
  show ?thesis
  proof (cases "length S < 16 \<or> length Str > 255 \<or> length Str = 0")
    case naive: True
    let ?e = "length S - length Str + 1"
    have eq: "first_index (\<lambda>i. equals (substr S i (length Str)) Str) b ?e = first_index ?P b ?e" for b
    proof -
      have "List.find (\<lambda>i. equals (substr S i (length Str)) Str) [b..<?e] = List.find ?P [b..<?e]"
        by (intro find_cong refl) (subst equals_iff, rule equals_substr, use True in auto)
      then show ?thesis by (simp add: first_index_def)
    qed
    have "find_str S Str From = first_index ?P (min From ?e) ?e"
      using True naive eq by (simp add: find_str_def Let_def)
    moreover have "is_first ?P From ?e (first_index ?P (min From ?e) ?e)"
      by (rule is_first_min) (rule first_index_is_first)
    ultimately show ?thesis using widen by simp
  next
    case tab: False
    then have N: "0 < length Str" by simp
    show ?thesis
    proof (cases "From < length S")
      case True
      then have "find_str S Str From = horspool S Str (length S - From) From"
        using tab \<open>length Str \<le> length S\<close> assms by (simp add: find_str_def Let_def)
      then show ?thesis using widen horspool_is_first [OF N assms, of From] True by simp
    next
      case False
      then have "find_str S Str From = npos" using tab \<open>length Str \<le> length S\<close> by (simp add: find_str_def Let_def)
      moreover have "\<not> ?P i" if "From \<le> i" for i using that False N by (auto simp: occurs_def)
      ultimately show ?thesis by (simp add: is_first_def)
    qed
  qed
qed

section \<open>The other searches\<close>

lemma is_last_extend:
  assumes "is_last P e r" and "e \<le> e'" and none: "\<And>i. e \<le> i \<Longrightarrow> \<not> P i"
  shows "is_last P e' r"
proof -
  have "\<not> P i" if "\<forall>i. k \<le> i \<and> i < e \<longrightarrow> \<not> P i" "k \<le> i" for i k
    using that none [of i] by (cases "i < e") auto
  then show ?thesis using assms unfolding is_last_def by (metis leI order_less_le_trans)
qed

lemma equals_window:
  "i < length S - length Str + 1 \<Longrightarrow> length Str \<le> length S \<Longrightarrow>
    equals (substr S i (length Str)) Str = occurs S Str i"
  by (subst equals_iff, rule equals_substr) simp

lemma rfind_str_last: "is_last (occurs S Str) (length S + 1) (rfind_str S Str)"
proof (cases "length Str \<le> length S")
  case False
  then have "\<not> occurs S Str i" for i by (auto simp: occurs_def)
  with False show ?thesis by (simp add: rfind_str_def is_last_def)
next
  case True
  let ?e = "length S - length Str + 1"
  have "List.find (\<lambda>i. equals (substr S i (length Str)) Str) (rev [0..<?e]) = List.find (occurs S Str) (rev [0..<?e])"
    by (intro find_cong refl) (rule equals_window, use True in auto)
  then have "rfind_str S Str = last_index (occurs S Str) ?e"
    using True by (simp add: rfind_str_def Let_def last_index_def)
  then have "is_last (occurs S Str) ?e (rfind_str S Str)" by (simp only: last_index_is_last)
  then show ?thesis by (rule is_last_extend) (auto simp: occurs_def)
qed

lemma count_str_occurrences: "count_str S Str = card {i. i \<le> length S \<and> occurs S Str i}"
proof (cases "length Str \<le> length S")
  case False
  then have "\<not> occurs S Str i" for i by (auto simp: occurs_def)
  with False show ?thesis by (simp add: count_str_def)
next
  case True
  let ?e = "length S - length Str + 1"
  have "List.filter (\<lambda>i. equals (substr S i (length Str)) Str) [0..<?e] = List.filter (occurs S Str) [0..<?e]"
    by (intro filter_cong refl) (rule equals_window, use True in auto)
  then have "count_str S Str = card (set (List.filter (occurs S Str) [0..<?e]))"
    using True by (simp add: count_str_def Let_def distinct_card del: set_filter upt_Suc)
  also have "set (List.filter (occurs S Str) [0..<?e]) = {i. i \<le> length S \<and> occurs S Str i}"
    unfolding set_filter set_upt by (auto simp: occurs_def)
  finally show ?thesis .
qed

text \<open>C19: the forward search, naive or by the skip table, returns the first position from \<open>From\<close> on where the
  needle occurs, the backward search the last one, each \<open>npos\<close> exactly when there is none; \<open>count\<close> counts every
  occurrence, the overlapping ones too.\<close>

theorem searches_correct:
  assumes "length S < 2 ^ 32"
  shows "is_first (occurs S Str) From (length S + 1) (find_str S Str From) \<and>
    is_last (occurs S Str) (length S + 1) (rfind_str S Str) \<and>
    count_str S Str = card {i. i \<le> length S \<and> occurs S Str i}"
  using find_str_is_first [OF assms] rfind_str_last count_str_occurrences by blast

lemma searches_correct_witness:
  "is_first (occurs ''aaa'' ''aa'') 1 4 (find_str ''aaa'' ''aa'' 1) \<and> is_last (occurs ''aaa'' ''aa'') 4 (rfind_str ''aaa'' ''aa'')"
proof -
  have l: "length ''aaa'' + 1 = 4" "length ''aaa'' < 2 ^ 32" by simp_all
  show ?thesis using searches_correct [OF l(2), of "''aa''" 1] unfolding l(1) by blast
qed

section \<open>Splitting\<close>

lemma slice_take: "i \<le> length s \<Longrightarrow> slice s 0 i = take i s"
  by (simp add: slice_def Let_def)

lemma slice_drop: "length s \<le> npos \<Longrightarrow> slice s i npos = drop i s"
  by (simp add: slice_def Let_def min_def max_def)

lemma join_simps [simp]:
  "join [] sep = []" "join [x] sep = x" "join (x # y # zs) sep = x @ sep @ join (y # zs) sep"
proof -
  have "foldl (\<lambda>S y. S @ sep @ y) (a @ b) ys = a @ foldl (\<lambda>S y. S @ sep @ y) b ys" for a b ys
    by (induction ys arbitrary: b) auto
  from this [of "x @ sep" y zs] show "join (x # y # zs) sep = x @ sep @ join (y # zs) sep"
    by (simp add: join_def)
qed (simp_all add: join_def)

lemma join_Cons: "xs \<noteq> [] \<Longrightarrow> join (x # xs) sep = x @ sep @ join xs sep"
  by (cases xs) auto

lemma small_npos: "n < 2 ^ 32 \<Longrightarrow> n < npos"
  by (simp add: npos_def)

lemma split_str_cases:
  assumes "length S < 2 ^ 32"
  obtains (none) "\<And>i. \<not> occurs S sep i" "split_str S sep = (S, None)"
  | (some) p q where "S = p @ sep @ q" "\<And>i. i < length p \<Longrightarrow> \<not> occurs S sep i" "split_str S sep = (p, Some q)"
proof -
  note f = find_str_is_first [OF assms, of sep 0]
  show thesis
  proof (cases "find_str S sep 0 = npos")
    case True
    then have "\<not> occurs S sep i" for i
      using f small_npos [OF assms] by (cases "i < length S + 1") (auto simp: is_first_def occurs_def)
    then show thesis using True none by (simp add: split_str_def Let_def)
  next
    case False
    define i where "i = find_str S sep 0"
    have i: "occurs S sep i" "\<And>k. k < i \<Longrightarrow> \<not> occurs S sep k"
      using f False by (auto simp: is_first_def i_def)
    have len: "i + length sep \<le> length S" using i(1) by (simp add: occurs_def)
    have "S = take i S @ sep @ drop (i + length sep) S"
      using i(1) by (metis append_take_drop_id drop_drop occurs_def add.commute)
    moreover have "split_str S sep = (take i S, Some (drop (i + length sep) S))"
      using False len small_npos [OF assms] by (simp add: split_str_def Let_def slice_take slice_drop flip: i_def)
    ultimately show thesis using some [of "take i S"] i(2) len by simp
  qed
qed

lemma split_loop_joins:
  assumes sep: "sep \<noteq> [] \<or> 0 \<le> MaxSplit" and "length r < 2 ^ 32" and "0 \<le> splits"
    and fuel: "n = (if MaxSplit < 0 then length r else nat (MaxSplit - splits))"
  shows "\<exists>ps rest. (\<forall>K A. split_loop sep MaxSplit K splits (Some r) A =
        Some (A @ (if K then ps else List.filter (\<lambda>p. length p \<noteq> 0) ps), rest)) \<and>
      join (ps @ (case rest of None \<Rightarrow> [] | Some q \<Rightarrow> [q])) sep = r \<and>
      (rest = None \<longrightarrow> ps \<noteq> []) \<and>
      (0 \<le> MaxSplit \<and> splits \<le> MaxSplit \<longrightarrow> splits + int (length ps) \<le> MaxSplit) \<and>
      (MaxSplit < 0 \<longrightarrow> rest = None \<and> (\<forall>p \<in> set ps. \<forall>i. \<not> occurs p sep i))"
  using assms(2-4)
proof (induction n arbitrary: r splits rule: less_induct)
  case (less n)
  show ?case
  proof (cases "MaxSplit < 0 \<or> splits < MaxSplit")
    case False
    then show ?thesis
      by (intro exI [of _ "[]"] exI [of _ "Some r"]) (auto simp: split_loop.simps)
  next
    case go: True
    then have unfold: "split_loop sep MaxSplit K splits (Some r) A =
        split_loop sep MaxSplit K (splits + 1) (snd (split_str r sep))
          (if K \<or> length (fst (split_str r sep)) \<noteq> 0 then A @ [fst (split_str r sep)] else A)" for K A
      by (subst split_loop.simps) simp
    from less.prems(1) show ?thesis
    proof (cases rule: split_str_cases [of r sep])
      case none
      then show ?thesis
        using go unfold by (intro exI [of _ "[r]"] exI [of _ None]) (auto simp: split_loop.simps)
    next
      case (some p q)
      have small: "length q < 2 ^ 32" using some(1) less.prems(1) by simp
      have "(if MaxSplit < 0 then length q else nat (MaxSplit - (splits + 1))) < n"
        using go less.prems(3) sep some(1) by (cases sep) auto
      from less.IH [OF this small _ refl] less.prems(2) obtain ps rest where
        IH: "\<forall>K A. split_loop sep MaxSplit K (splits + 1) (Some q) A =
            Some (A @ (if K then ps else List.filter (\<lambda>p. length p \<noteq> 0) ps), rest)"
          "join (ps @ (case rest of None \<Rightarrow> [] | Some q \<Rightarrow> [q])) sep = q" "rest = None \<longrightarrow> ps \<noteq> []"
          "0 \<le> MaxSplit \<and> splits + 1 \<le> MaxSplit \<longrightarrow> splits + 1 + int (length ps) \<le> MaxSplit"
          "MaxSplit < 0 \<longrightarrow> rest = None \<and> (\<forall>p \<in> set ps. \<forall>i. \<not> occurs p sep i)"
        by auto
      have free: "\<not> occurs p sep i" if "sep \<noteq> []" for i
      proof
        assume "occurs p sep i"
        then have "occurs r sep i" "i < length p"
          using some(1) that by (cases sep; auto simp: occurs_def)+
        then show False using some(2) by blast
      qed
      show ?thesis
      proof (intro exI [of _ "p # ps"] exI [of _ rest] conjI allI impI)
        show "split_loop sep MaxSplit K splits (Some r) A =
            Some (A @ (if K then p # ps else List.filter (\<lambda>p. length p \<noteq> 0) (p # ps)), rest)" for K A
          using IH(1) some(3) by (simp add: unfold)
        show "join ((p # ps) @ (case rest of None \<Rightarrow> [] | Some q \<Rightarrow> [q])) sep = r"
          using IH(2,3) some(1) by (cases rest) (auto simp: join_Cons)
      qed (use IH go sep free in auto)
    qed
  qed
qed

lemma split_joined_parts:
  assumes "Separators \<noteq> [] \<or> 0 \<le> MaxSplit" and "length S < 2 ^ 32"
  obtains parts where "split (Some S) Separators MaxSplit True = Some parts" "join parts Separators = S"
    "0 \<le> MaxSplit \<longrightarrow> int (length parts) \<le> MaxSplit + 1"
    "MaxSplit < 0 \<longrightarrow> (\<forall>p \<in> set parts. \<forall>i. \<not> occurs p Separators i)"
    "split (Some S) Separators MaxSplit False = Some (List.filter (\<lambda>p. p \<noteq> []) parts)"
proof -
  obtain ps rest where
    l: "\<forall>K A. split_loop Separators MaxSplit K 0 (Some S) A =
        Some (A @ (if K then ps else List.filter (\<lambda>p. length p \<noteq> 0) ps), rest)"
      "join (ps @ (case rest of None \<Rightarrow> [] | Some q \<Rightarrow> [q])) Separators = S"
      "0 \<le> MaxSplit \<longrightarrow> int (length ps) \<le> MaxSplit"
      "MaxSplit < 0 \<longrightarrow> rest = None \<and> (\<forall>p \<in> set ps. \<forall>i. \<not> occurs p Separators i)"
    using split_loop_joins [OF assms order_refl refl] by auto
  show thesis
    using l by (intro that [of "ps @ (case rest of None \<Rightarrow> [] | Some q \<Rightarrow> [q])"])
      (auto simp: split_def split: option.splits)
qed

text \<open>Splitting terminates when the separator is not empty or the number of splits is bounded. The
  parts joined by the separator give the string back, there are at most \<open>MaxSplit + 1\<close> of them, without
  a bound none contains the separator, and \<open>KeepEmpty = false\<close> drops exactly the empty ones.\<close>

theorem split_join:
  assumes "Separators \<noteq> [] \<or> 0 \<le> MaxSplit" and "length S < 2 ^ 32"
  shows "\<exists>parts. split (Some S) Separators MaxSplit True = Some parts \<and> join parts Separators = S \<and>
    (0 \<le> MaxSplit \<longrightarrow> int (length parts) \<le> MaxSplit + 1) \<and>
    (MaxSplit < 0 \<longrightarrow> (\<forall>p \<in> set parts. \<forall>i. \<not> occurs p Separators i)) \<and>
    split (Some S) Separators MaxSplit False = Some (List.filter (\<lambda>p. p \<noteq> []) parts)"
  by (rule split_joined_parts [OF assms]) blast

lemma split_join_witness:
  "\<exists>parts. split (Some ''a--b'') ''-'' (- 1) True = Some parts \<and> join parts ''-'' = ''a--b'' \<and>
    split (Some ''a--b'') ''-'' (- 1) False = Some (List.filter (\<lambda>p. p \<noteq> []) parts)"
  using split_join [of "''-''" "- 1" "''a--b''"] by auto

lemma find_str_Nil: "find_str r [] 0 = 0"
  by (simp add: find_str_def first_index_def upt_conv_Cons substr_take del: upt_Suc)

lemma split_str_Nil: "snd (split_str r []) \<noteq> None"
  by (simp add: split_str_def Let_def npos_def find_str_Nil)

lemma split_loop_diverges:
  assumes "split_loop sep MaxSplit K splits rest A = Some y"
  shows "sep = [] \<longrightarrow> rest \<noteq> None \<longrightarrow> 0 \<le> MaxSplit"
proof (rule split_loop.raw_induct [where P = "\<lambda>sep M K sp rest A y. sep = [] \<longrightarrow> rest \<noteq> None \<longrightarrow> 0 \<le> M", OF _ assms])
  fix loop sep MaxSplit K splits A y and rest :: "string option"
  assume IH: "\<And>sep M K sp rest A y. loop sep M K sp rest A = Some y \<Longrightarrow>
      sep = [] \<longrightarrow> rest \<noteq> None \<longrightarrow> 0 \<le> (M :: int)"
    and eq: "(case rest of
       None \<Rightarrow> Some (A, None)
     | Some r \<Rightarrow>
         if MaxSplit < 0 \<or> splits < MaxSplit then
           loop sep MaxSplit K (splits + 1) (snd (split_str r sep))
             (if K \<or> length (fst (split_str r sep)) \<noteq> 0
              then A @ [fst (split_str r sep)] else A)
         else Some (A, Some r)) = Some y"
  show "sep = [] \<longrightarrow> rest \<noteq> None \<longrightarrow> 0 \<le> MaxSplit"
  proof (intro impI)
    assume s: "sep = []" and "rest \<noteq> None"
    then obtain r where "rest = Some r" by blast
    with eq show "0 \<le> MaxSplit"
      using IH s split_str_Nil [of r] by (auto simp del: not_None_eq split: if_splits) (meson not_le)?
  qed
qed

text \<open>C32: the many-way split of a non-null string returns if and only if the separator is not empty or the
  number of splits is bounded.\<close>
theorem split_returns_iff:
  assumes "length S < 2 ^ 32"
  shows "split (Some S) Separators MaxSplit KeepEmpty \<noteq> None \<longleftrightarrow> Separators \<noteq> [] \<or> 0 \<le> MaxSplit"
proof
  assume "split (Some S) Separators MaxSplit KeepEmpty \<noteq> None"
  then obtain y where "split_loop Separators MaxSplit KeepEmpty 0 (Some S) [] = Some y"
    by (auto simp: split_def)
  then show "Separators \<noteq> [] \<or> 0 \<le> MaxSplit"
    using split_loop_diverges [of Separators] by blast
next
  assume "Separators \<noteq> [] \<or> 0 \<le> MaxSplit"
  from split_loop_joins [OF this assms order_refl refl] show "split (Some S) Separators MaxSplit KeepEmpty \<noteq> None"
    by (auto simp: split_def)
qed

lemma split_returns_iff_witness:
  "split (Some ''a,b'') [] (- 1) True = None \<and> split (Some ''a,b'') [] 1 True \<noteq> None"
  using split_returns_iff [of "''a,b''" "[]" "- 1" True] split_returns_iff [of "''a,b''" "[]" 1 True] by simp

section \<open>Searching strings of 4 GiB and more\<close>

text \<open>The length left to search is narrowed to \<open>unsigned\<close>: nothing is found in a string of 4 GiB.\<close>

lemma find_str_4GiB:
  assumes "length S = 2 ^ 32" "0 < length Str" "length Str \<le> 255"
  shows "find_str S Str 0 = npos"
proof -
  have "find_str S Str 0 = horspool S Str 0 0" using assms by (auto simp: find_str_def Let_def)
  then show ?thesis using assms(2) by (simp add: horspool.simps)
qed

section \<open>Trimming\<close>

lemma first_index_takeWhile:
  assumes "length S < npos" and "b \<le> length S"
  shows "min (length S) (first_index (\<lambda>i. \<not> P (S ! i)) b (length S)) = b + length (takeWhile P (drop b S))"
proof -
  let ?r = "first_index (\<lambda>i. \<not> P (S ! i)) b (length S)"
  have "is_first (\<lambda>i. \<not> P (S ! i)) b (length S) ?r" by (rule first_index_is_first)
  then consider "b \<le> ?r" "?r < length S" "\<not> P (S ! ?r)" "\<forall>i. b \<le> i \<and> i < ?r \<longrightarrow> P (S ! i)"
    | "?r = npos" "\<forall>i. b \<le> i \<and> i < length S \<longrightarrow> P (S ! i)"
    by (auto simp: is_first_def)
  then show ?thesis
  proof cases
    case 1
    then have "takeWhile P (drop b S) = take (?r - b) (drop b S)" by (intro takeWhile_eq_take_P_nth) auto
    with 1(1,2) show ?thesis by simp
  next
    case 2
    then have "P x" if "x \<in> set (drop b S)" for x using that by (fastforce simp: in_set_conv_nth)
    then have "takeWhile P (drop b S) = drop b S" by (simp add: takeWhile_eq_all_conv)
    then have "length (takeWhile P (drop b S)) = length S - b" by (simp only: length_drop)
    with 2(1) assms show ?thesis by simp
  qed
qed

lemma last_index_takeWhile:
  assumes "length S < npos"
  shows "min (length S) ((last_index (\<lambda>i. \<not> P (S ! i)) (length S) + 1) mod 2 ^ 64) =
    length S - length (takeWhile P (rev S))"
proof -
  let ?r = "last_index (\<lambda>i. \<not> P (S ! i)) (length S)"
  have "is_last (\<lambda>i. \<not> P (S ! i)) (length S) ?r" by (rule last_index_is_last)
  then consider "?r < length S" "\<not> P (S ! ?r)" "\<forall>i. ?r < i \<and> i < length S \<longrightarrow> P (S ! i)"
    | "?r = npos" "\<forall>i < length S. P (S ! i)"
    by (auto simp: is_last_def)
  then show ?thesis
  proof cases
    case 1
    let ?k = "length S - 1 - ?r"
    have "takeWhile P (rev S) = take ?k (rev S)"
    proof (rule takeWhile_eq_take_P_nth)
      fix i
      assume i: "i < ?k" "i < length (rev S)"
      then have "?r < length S - Suc i" by linarith
      with 1(3) i(2) show "P (rev S ! i)" by (simp add: rev_nth)
    qed (use 1(1,2) in \<open>simp add: rev_nth\<close>)
    moreover have "(?r + 1) mod 2 ^ 64 = ?r + 1"
      using 1(1) assms by (simp add: npos_def)
    ultimately show ?thesis using 1(1) by simp
  next
    case 2
    then have "takeWhile P (rev S) = rev S" by (auto simp: in_set_conv_nth takeWhile_eq_all_conv)
    then have "length (takeWhile P (rev S)) = length S" by (simp only: length_rev)
    moreover have "(npos + 1) mod 2 ^ 64 = 0" by (simp add: npos_def)
    ultimately show ?thesis using 2(1) by simp
  qed
qed

lemma ltrim_dropWhile:
  assumes "length S < npos"
  shows "ltrim S Chars = Some (dropWhile (\<lambda>c. c \<in> set Chars) S)"
proof -
  have k: "min (length S) (find_first_not_of S Chars 0) = length (takeWhile (\<lambda>c. c \<in> set Chars) S)"
    using first_index_takeWhile [OF assms, of 0 "\<lambda>c. c \<in> set Chars"] by (simp add: find_first_not_of_def)
  have "length S \<le> npos" using assms by simp
  then show ?thesis
    using length_dropWhile_le [of "\<lambda>c. c \<in> set Chars" S]
    by (simp add: ltrim_def k drop_front_def length_takeWhile_le substr_take flip: dropWhile_eq_drop)
qed

lemma rtrim_dropWhile:
  assumes "length S < npos"
  shows "rtrim S Chars = Some (rev (dropWhile (\<lambda>c. c \<in> set Chars) (rev S)))"
proof -
  let ?t = "takeWhile (\<lambda>c. c \<in> set Chars) (rev S)"
  have k: "min (length S) ((find_last_not_of S Chars npos + 1) mod 2 ^ 64) = length S - length ?t"
    using last_index_takeWhile [OF assms, of "\<lambda>c. c \<in> set Chars"] assms
    by (simp add: find_last_not_of_def min_def)
  have "length ?t \<le> length S" using length_takeWhile_le [of _ "rev S"] by simp
  moreover have "dropWhile (\<lambda>c. c \<in> set Chars) (rev S) = drop (length ?t) (rev S)"
    by (rule dropWhile_eq_drop)
  ultimately show ?thesis
    unfolding rtrim_def k drop_back_def by (simp add: substr_take rev_drop)
qed

text \<open>Trimming removes exactly the longest run of the given characters at each end.\<close>

theorem trim_dropWhile:
  assumes "length S < npos"
  shows "trim S Chars = Some (rev (dropWhile (\<lambda>c. c \<in> set Chars) (rev (dropWhile (\<lambda>c. c \<in> set Chars) S))))"
proof -
  have "length (dropWhile (\<lambda>c. c \<in> set Chars) S) < npos"
    using assms length_dropWhile_le [of "\<lambda>c. c \<in> set Chars" S] by linarith
  then show ?thesis by (simp add: trim_def ltrim_dropWhile [OF assms] rtrim_dropWhile)
qed

lemma trim_dropWhile_witness: "trim '' a b  '' '' '' = Some ''a b''"
  using trim_dropWhile [of "'' a b  ''" "'' ''"] by (simp add: npos_def)

section \<open>Tokens\<close>

text \<open>The reference: the maximal runs of characters that are not delimiters.\<close>

function runs :: "string \<Rightarrow> string \<Rightarrow> string list" where
  "runs D S = (case dropWhile (\<lambda>c. c \<in> set D) S of
     [] \<Rightarrow> []
   | c # T \<Rightarrow> (c # takeWhile (\<lambda>c. c \<notin> set D) T) # runs D (dropWhile (\<lambda>c. c \<notin> set D) T))"
  by pat_completeness auto
termination
proof (relation "measure (\<lambda>(_, S). length S)", simp)
  fix D S T :: string and c
  assume "dropWhile (\<lambda>c. c \<in> set D) S = c # T"
  then have "length (c # T) \<le> length S" by (metis length_dropWhile_le)
  then show "((D, dropWhile (\<lambda>c. c \<notin> set D) T), D, S) \<in> measure (\<lambda>(_, S). length S)"
    using length_dropWhile_le [of "\<lambda>c. c \<notin> set D" T] by simp
qed

declare runs.simps [simp del]

lemma runs_Nil: "dropWhile (\<lambda>c. c \<in> set D) S = [] \<Longrightarrow> runs D S = []"
  by (subst runs.simps) (simp only: list.case)

lemma runs_Cons: "dropWhile (\<lambda>c. c \<in> set D) S = c # T \<Longrightarrow>
    runs D S = (c # takeWhile (\<lambda>c. c \<notin> set D) T) # runs D (dropWhile (\<lambda>c. c \<notin> set D) T)"
  by (subst runs.simps) (simp only: list.case)

lemma getToken_runs:
  assumes "length S < npos"
  shows "getToken S D = (takeWhile (\<lambda>c. c \<notin> set D) (dropWhile (\<lambda>c. c \<in> set D) S),
    dropWhile (\<lambda>c. c \<notin> set D) (dropWhile (\<lambda>c. c \<in> set D) S))"
proof -
  let ?Start = "find_first_not_of S D 0"
  let ?End = "find_first_of S D ?Start"
  define k where "k = length (takeWhile (\<lambda>c. c \<in> set D) S)"
  define T where "T = dropWhile (\<lambda>c. c \<in> set D) S"
  have T: "T = drop k S" by (simp add: T_def k_def dropWhile_eq_drop)
  have k: "min ?Start (length S) = k" "k \<le> length S"
    using first_index_takeWhile [OF assms, of 0 "\<lambda>c. c \<in> set D"]
    by (simp_all add: find_first_not_of_def min.commute k_def length_takeWhile_le)
  have e: "min (length S) ?End = k + length (takeWhile (\<lambda>c. c \<notin> set D) T)"
    using first_index_takeWhile [OF assms k(2), of "\<lambda>c. c \<notin> set D"] by (simp add: find_first_of_def k T)
  have "slice S ?Start ?End = takeWhile (\<lambda>c. c \<notin> set D) T"
  proof -
    have "min (max k ?End) (length S) = k + length (takeWhile (\<lambda>c. c \<notin> set D) T)"
      using e k(2) by (simp add: min_def max_def split: if_splits)
    then show ?thesis by (simp add: slice_def Let_def k(1) T flip: takeWhile_eq_take)
  qed
  moreover have "substr S ?End npos = dropWhile (\<lambda>c. c \<notin> set D) T"
  proof -
    have "substr S ?End npos = drop (min (length S) ?End) S"
      using assms by (auto simp: substr_def Let_def min_def)
    then show ?thesis by (simp add: e T dropWhile_eq_drop add.commute)
  qed
  ultimately show ?thesis by (simp add: getToken_def Let_def T_def)
qed

lemma SplitString_runs: "length S < npos \<Longrightarrow> SplitString S D = runs D S"
proof (induction D S rule: runs.induct)
  case (1 D S)
  show ?case
  proof (cases "dropWhile (\<lambda>c. c \<in> set D) S")
    case Nil
    with getToken_runs [OF 1(2), of D] have "fst (getToken S D) = []" by (simp only: Nil fst_conv takeWhile.simps)
    then show ?thesis by (simp add: SplitString.simps [of S] runs_Nil [OF Nil])
  next
    case (Cons c T)
    then have c: "c \<notin> set D" by (metis dropWhile_eq_Cons_conv)
    have "length (c # T) \<le> length S" using Cons by (metis length_dropWhile_le)
    then have "length (dropWhile (\<lambda>c. c \<notin> set D) T) < npos"
      using 1(2) length_dropWhile_le [of "\<lambda>c. c \<notin> set D" T] by simp
    then show ?thesis
      using 1 Cons c by (simp add: SplitString.simps [of S] runs_Cons [OF Cons] getToken_runs)
  qed
qed

lemma runs_tokens: "w \<in> set (runs D S) \<Longrightarrow> w \<noteq> [] \<and> set w \<inter> set D = {}"
proof (induction D S rule: runs.induct)
  case (1 D S)
  show ?case
  proof (cases "dropWhile (\<lambda>c. c \<in> set D) S")
    case (Cons c T)
    then have "c \<notin> set D" by (metis dropWhile_eq_Cons_conv)
    then show ?thesis using 1 Cons by (auto simp: runs_Cons [OF Cons] dest: set_takeWhileD)
  qed (use 1(2) in \<open>simp add: runs_Nil\<close>)
qed

lemma concat_runs: "concat (runs D S) = List.filter (\<lambda>c. c \<notin> set D) S"
proof (induction D S rule: runs.induct)
  case (1 D S)
  have drop: "List.filter (\<lambda>c. c \<notin> set D) (dropWhile (\<lambda>c. c \<in> set D) U) = List.filter (\<lambda>c. c \<notin> set D) U" for U
    by (induction U) auto
  have take: "takeWhile (\<lambda>c. c \<notin> set D) U @ List.filter (\<lambda>c. c \<notin> set D) (dropWhile (\<lambda>c. c \<notin> set D) U) =
      List.filter (\<lambda>c. c \<notin> set D) U" for U
    by (induction U) auto
  show ?case
  proof (cases "dropWhile (\<lambda>c. c \<in> set D) S")
    case Nil
    with drop [of S] have "List.filter (\<lambda>c. c \<notin> set D) S = []" by (simp only: Nil List.filter.simps)
    then show ?thesis by (simp only: runs_Nil [OF Nil] concat.simps)
  next
    case (Cons c T)
    then have "c \<notin> set D" by (metis dropWhile_eq_Cons_conv)
    then show ?thesis using 1 [OF Cons] Cons drop [of S] take [of T] by (simp add: runs_Cons [OF Cons])
  qed
qed

lemma runs_join:
  assumes "\<forall>w \<in> set ws. w \<noteq> [] \<and> set w \<inter> set D = {}" and "d \<in> set D"
  shows "runs D (join ws [d]) = ws"
  using assms(1)
proof (induction ws)
  case Nil
  then show ?case by (simp add: runs.simps)
next
  case (Cons w ws)
  then obtain c u where w: "w = c # u" "c \<notin> set D" "set u \<inter> set D = {}" by (cases w) auto
  have u: "takeWhile (\<lambda>c. c \<notin> set D) (u @ v) = u @ takeWhile (\<lambda>c. c \<notin> set D) v"
    "dropWhile (\<lambda>c. c \<notin> set D) (u @ v) = dropWhile (\<lambda>c. c \<notin> set D) v" for v
    using w(3) by (auto simp: takeWhile_append dropWhile_append)
  have d: "runs D (d # v) = runs D v" for v
    using assms(2) by (simp add: runs.simps [of D "d # v"] runs.simps [of D v] split: list.split)
  show ?case
  proof (cases ws)
    case Nil
    have "runs D [] = []" by (rule runs_Nil) simp
    moreover have "dropWhile (\<lambda>c. c \<notin> set D) u = []" "takeWhile (\<lambda>c. c \<notin> set D) u = u"
      using w(3) by (auto simp: takeWhile_eq_all_conv)
    moreover have "runs D (c # u) = (c # takeWhile (\<lambda>c. c \<notin> set D) u) # runs D (dropWhile (\<lambda>c. c \<notin> set D) u)"
      using w(2) by (intro runs_Cons) simp
    ultimately show ?thesis by (simp only: Nil w(1) join_simps)
  next
    case (Cons x xs)
    then have j: "join (w # ws) [d] = c # u @ d # join ws [d]" by (simp add: join_Cons w)
    show ?thesis
      unfolding j using w u [of "d # join ws [d]"] assms(2) Cons.IH Cons.prems d [of "join ws [d]"]
        runs_Cons [of D "c # u @ d # join ws [d]" c "u @ d # join ws [d]"] by simp
  qed
qed

text \<open>Splitting into tokens keeps exactly the characters that are no delimiters, in order, in non-empty
  tokens; it takes apart what joining tokens with a delimiter put together.\<close>

theorem SplitString_tokens:
  assumes "length S < npos"
  shows "concat (SplitString S D) = List.filter (\<lambda>c. c \<notin> set D) S \<and>
    (\<forall>w \<in> set (SplitString S D). w \<noteq> [] \<and> set w \<inter> set D = {}) \<and>
    (\<forall>ws d. (\<forall>w \<in> set ws. w \<noteq> [] \<and> set w \<inter> set D = {}) \<and> d \<in> set D \<and> join ws [d] = S \<longrightarrow> SplitString S D = ws)"
  using SplitString_runs [OF assms] concat_runs runs_tokens runs_join by auto

lemma SplitString_tokens_witness: "SplitString ''ab-c'' ''-'' = [''ab'', ''c'']"
proof -
  have "length ''ab-c'' < npos" by (simp add: npos_def)
  from SplitString_tokens [OF this, of "''-''"]
  have "(\<forall>w \<in> set [''ab'', ''c'']. w \<noteq> [] \<and> set w \<inter> set ''-'' = {}) \<and> CHR ''-'' \<in> set ''-'' \<and>
      join [''ab'', ''c''] [CHR ''-''] = ''ab-c'' \<longrightarrow> SplitString ''ab-c'' ''-'' = [''ab'', ''c'']"
    by blast
  then show ?thesis by simp
qed

section \<open>Case-insensitive comparison\<close>

lemma ascii_strncasecmp_lower:
  "n \<le> length a \<Longrightarrow> n \<le> length b \<Longrightarrow> ascii_strncasecmp a b n = compareMemory (lower a) (lower b) n"
  by (induction a b n rule: ascii_strncasecmp.induct) (auto simp: lower_def Let_def)

lemma compare_lower_compare: "compare_lower a b = compare (lower a) (lower b)"
proof -
  have r: "compareMemory x y n \<in> {- 1, 0, 1}" for x y n
    by (induction x y n rule: compareMemory.induct) auto
  have "length (lower a) = length a" "length (lower b) = length b" by (simp_all add: lower_def)
  then show ?thesis
    using ascii_strncasecmp_lower [of "min (length a) (length b)" a b]
      r [of "lower a" "lower b" "min (length a) (length b)"]
    by (auto simp: compare_lower_def compare_def Let_def)
qed

end
