(* ===== verification/NumberFormats.thy ===== *)
theory NumberFormats
  imports StringFind
begin

text \<open>
  Numbers as text and as bytes: the integer parsers of \<open>lib/Support/StringRef.cpp\<close> with their templates in
  \<open>include/llvm/ADT/StringRef.h\<close>, the printers of \<open>include/llvm/ADT/StringExtras.h\<close>, and the LEB128
  coding of \<open>include/llvm/Support/LEB128.h\<close> and \<open>lib/Support/LEB128.cpp\<close>.

  A parser returns \<open>None\<close> where the code returns \<open>true\<close> for an error, otherwise the number it stores.
  The printers and the coders work on \<open>u64\<close>. A decoder reads the bytes that are there; \<open>None\<close> means that it
  reads beyond them or that C++ leaves a shift undefined.
\<close>

section \<open>Parsing integers\<close>

definition GetAutoSenseRadix :: "string \<Rightarrow> nat \<times> string" where
  "GetAutoSenseRadix Str =
    (if startswith Str ''0x'' then (16, substr Str 2 npos)
     else if startswith Str ''0b'' then (2, substr Str 2 npos)
     else if startswith Str ''0o'' then (8, substr Str 2 npos)
     else if startswith Str ''0'' then (8, Str)
     else (10, Str))"

text \<open>The value of one digit, with the checks that both parsers make.\<close>

definition in_range :: "char \<Rightarrow> char \<Rightarrow> char \<Rightarrow> bool" where
  "in_range lo c hi \<longleftrightarrow> (of_char lo :: nat) \<le> of_char c \<and> (of_char c :: nat) \<le> of_char hi"

definition CharVal :: "nat \<Rightarrow> char \<Rightarrow> nat option" where
  "CharVal Radix c =
    Option.bind
      (if in_range CHR ''0'' c CHR ''9'' then Some (of_char c - of_char CHR ''0'')
       else if in_range CHR ''a'' c CHR ''z'' then Some (of_char c - of_char CHR ''a'' + 10)
       else if in_range CHR ''A'' c CHR ''Z'' then Some (of_char c - of_char CHR ''A'' + 10)
       else None)
      (\<lambda>v. if v \<ge> Radix then None else Some v)"

fun parse_unsigned :: "string \<Rightarrow> nat \<Rightarrow> u64 \<Rightarrow> u64 option" where
  "parse_unsigned [] Radix Result = Some Result"
| "parse_unsigned (c # Str) Radix Result =
     (case CharVal Radix c of
        None \<Rightarrow> None
      | Some v \<Rightarrow>
          let PrevResult = Result; Result = Result * of_nat Radix + of_nat v
          in if Result div of_nat Radix < PrevResult then None else parse_unsigned Str Radix Result)"

definition getAsUnsignedInteger :: "string \<Rightarrow> nat \<Rightarrow> u64 option" where
  "getAsUnsignedInteger Str Radix =
    (let (Radix, Str) = (if Radix = 0 then GetAutoSenseRadix Str else (Radix, Str))
     in if Str = [] then None else parse_unsigned Str Radix 0)"

definition getAsSignedInteger :: "string \<Rightarrow> nat \<Rightarrow> u64 option" where
  "getAsSignedInteger Str Radix =
    (if Str = [] \<or> hd Str \<noteq> CHR ''-'' then
       case getAsUnsignedInteger Str Radix of
         None \<Rightarrow> None
       | Some ULLVal \<Rightarrow> if ULLVal <s 0 then None else Some ULLVal
     else
       case getAsUnsignedInteger (substr Str 1 npos) Radix of
         None \<Rightarrow> None
       | Some ULLVal \<Rightarrow> if 0 <s - ULLVal then None else Some (- ULLVal))"

text \<open>The templates for a result of \<open>w\<close> bits: the value must survive the conversion.\<close>

definition getAsInteger_signed :: "nat \<Rightarrow> string \<Rightarrow> nat \<Rightarrow> int option" where
  "getAsInteger_signed w S Radix =
    (case getAsSignedInteger S Radix of
       None \<Rightarrow> None
     | Some LLVal \<Rightarrow> if signed_take_bit (w - 1) (sint LLVal) \<noteq> sint LLVal then None else Some (sint LLVal))"

definition getAsInteger_unsigned :: "nat \<Rightarrow> string \<Rightarrow> nat \<Rightarrow> nat option" where
  "getAsInteger_unsigned w S Radix =
    (case getAsUnsignedInteger S Radix of
       None \<Rightarrow> None
     | Some ULLVal \<Rightarrow> if take_bit w (unat ULLVal) \<noteq> unat ULLVal then None else Some (unat ULLVal))"

text \<open>The parser into an \<open>APInt\<close>, given the width of the old result; it returns the new width and value.
  The arithmetic is that of the width chosen.\<close>

function log2_radix :: "nat \<Rightarrow> nat \<Rightarrow> nat" where
  "log2_radix Radix Log2Radix = (if 2 ^ Log2Radix < Radix then log2_radix Radix (Log2Radix + 1) else Log2Radix)"
  by pat_completeness auto
termination
proof (relation "measure (\<lambda>(r, l). r - l)", simp)
  fix r l :: nat
  assume "2 ^ l < r"
  with less_exp [of l] have "l < r" by linarith
  then show "((r, l + 1), (r, l)) \<in> measure (\<lambda>(r, l). r - l)" by simp
qed

declare log2_radix.simps [simp del]

fun parse_APInt :: "nat \<Rightarrow> nat \<Rightarrow> nat \<Rightarrow> string \<Rightarrow> nat \<Rightarrow> nat option" where
  "parse_APInt BitWidth Log2Radix Radix [] Result = Some Result"
| "parse_APInt BitWidth Log2Radix Radix (c # Str) Result =
     (case CharVal Radix c of
        None \<Rightarrow> None
      | Some v \<Rightarrow>
          parse_APInt BitWidth Log2Radix Radix Str
            (if 2 ^ Log2Radix = Radix then take_bit BitWidth (push_bit Log2Radix Result) OR take_bit BitWidth v
             else take_bit BitWidth
                    (take_bit BitWidth (Result * take_bit BitWidth Radix) + take_bit BitWidth v)))"

definition getAsInteger_APInt :: "nat \<Rightarrow> string \<Rightarrow> nat \<Rightarrow> (nat \<times> nat) option" where
  "getAsInteger_APInt oldWidth S Radix =
    (let (Radix, Str) = (if Radix = 0 then GetAutoSenseRadix S else (Radix, S))
     in if Str = [] then None
        else
          let Str = dropWhile (\<lambda>c. c = CHR ''0'') Str
          in if Str = [] then Some (64, 0)
             else
               let Log2Radix = log2_radix Radix 0;
                   BitWidth = max ((Log2Radix * length Str) mod 2 ^ 32) oldWidth
               in map_option (Pair BitWidth) (parse_APInt BitWidth Log2Radix Radix Str 0))"

section \<open>Printing integers\<close>

definition hexdigit :: "nat \<Rightarrow> bool \<Rightarrow> char" where
  "hexdigit X LowerCase =
    (let HexChar = (if LowerCase then of_char CHR ''a'' else of_char CHR ''A'')
     in if X < 10 then char_of (of_char CHR ''0'' + X) else char_of (HexChar + X - 10))"

definition hexDigitValue :: "char \<Rightarrow> u32" where
  "hexDigitValue C =
    (if in_range CHR ''0'' C CHR ''9'' then of_nat (of_char C - of_char CHR ''0'')
     else if in_range CHR ''a'' C CHR ''f'' then of_nat (of_char C - of_char CHR ''a'' + 10)
     else if in_range CHR ''A'' C CHR ''F'' then of_nat (of_char C - of_char CHR ''A'' + 10)
     else - 1)"

text \<open>What ends the loops that shift a number to zero.\<close>

lemma drop_bit_decreases: "v \<noteq> 0 \<Longrightarrow> 0 < n \<Longrightarrow> unat (drop_bit n v) < unat v" for v :: "'a::len word"
  unfolding unat_drop_bit using one_less_power [of "2::nat" n] by (intro div_less_dividend) (auto simp: unat_gt_0)

text \<open>The buffer is filled from its end, so the loops put each digit before the text so far.\<close>

function hex_loop :: "u64 \<Rightarrow> bool \<Rightarrow> string \<Rightarrow> string" where
  "hex_loop X LowerCase Buf =
    (if X \<noteq> 0 then hex_loop (drop_bit 4 X) LowerCase (hexdigit (unat (X AND 15)) LowerCase # Buf) else Buf)"
  by pat_completeness auto
termination
  by (relation "measure (\<lambda>(X, _, _). unat X)") (auto intro: drop_bit_decreases)

definition utohexstr :: "u64 \<Rightarrow> bool \<Rightarrow> string" where
  "utohexstr X LowerCase = (if X = 0 then ''0'' else hex_loop X LowerCase [])"

function decimal_loop :: "u64 \<Rightarrow> string \<Rightarrow> string" where
  "decimal_loop X Buf =
    (if X \<noteq> 0 then decimal_loop (X div 10) (char_of (of_char CHR ''0'' + unat (X mod 10)) # Buf) else Buf)"
  by pat_completeness auto
termination
  by (relation "measure (\<lambda>(X, _). unat X)") (auto simp: unat_div intro!: div_less_dividend simp: unat_gt_0)

declare hex_loop.simps [simp del] decimal_loop.simps [simp del]

definition utostr :: "u64 \<Rightarrow> bool \<Rightarrow> string" where
  "utostr X isNeg =
    (let Buf = (if X = 0 then ''0'' else decimal_loop X []) in if isNeg then CHR ''-'' # Buf else Buf)"

text \<open>The negation is of a signed number, undefined for the least one.\<close>

definition itostr :: "u64 \<Rightarrow> string option" where
  "itostr X =
    (if X <s 0 then if sint X = - (2 ^ 63) then None else Some (utostr (- X) True) else Some (utostr X False))"

section \<open>LEB128\<close>

function encodeULEB128_loop :: "u64 \<Rightarrow> nat \<Rightarrow> u8 list" where
  "encodeULEB128_loop Value Padding =
    (let Byte = ucast (Value AND 0x7f) :: u8; Value = drop_bit 7 Value;
         Byte = (if Value \<noteq> 0 \<or> Padding \<noteq> 0 then Byte OR 0x80 else Byte)
     in Byte # (if Value \<noteq> 0 then encodeULEB128_loop Value Padding else []))"
  by pat_completeness auto
termination
  by (relation "measure (\<lambda>(Value, _). unat Value)") (auto intro: drop_bit_decreases)

definition encodeULEB128 :: "u64 \<Rightarrow> nat \<Rightarrow> u8 list" where
  "encodeULEB128 Value Padding =
    encodeULEB128_loop Value Padding @ (if Padding \<noteq> 0 then replicate (Padding - 1) 0x80 @ [0] else [])"

fun decodeULEB128_loop :: "u8 list \<Rightarrow> u64 \<Rightarrow> nat \<Rightarrow> nat \<Rightarrow> (u64 \<times> nat) option" where
  "decodeULEB128_loop [] Value Shift n = None"
| "decodeULEB128_loop (b # p) Value Shift n =
     (if Shift \<ge> 64 then None
      else
        let Value = Value + push_bit Shift (ucast (b AND 0x7f))
        in if b \<ge> 128 then decodeULEB128_loop p Value (Shift + 7) (n + 1) else Some (Value, n + 1))"

definition decodeULEB128 :: "u8 list \<Rightarrow> (u64 \<times> nat) option" where
  "decodeULEB128 p = decodeULEB128_loop p 0 0 0"

function getULEB128Size_loop :: "u64 \<Rightarrow> nat \<Rightarrow> nat" where
  "getULEB128Size_loop Value Size =
    (let Value = drop_bit 7 Value; Size = Size + 1
     in if Value \<noteq> 0 then getULEB128Size_loop Value Size else Size)"
  by pat_completeness auto
termination
  by (relation "measure (\<lambda>(Value, _). unat Value)") (auto intro: drop_bit_decreases)

definition getULEB128Size :: "u64 \<Rightarrow> nat" where
  "getULEB128Size Value = getULEB128Size_loop Value 0"

text \<open>The signed coder stops when the rest is the sign alone and the last byte shows it, that is, when the
  value fits in seven bits.\<close>

function encodeSLEB128 :: "u64 \<Rightarrow> u8 list" where
  "encodeSLEB128 Value =
    (let Byte = ucast (Value AND 0x7f) :: u8; Value = signed_drop_bit 7 Value;
         More = (\<not> ((Value = 0 \<and> Byte AND 0x40 = 0) \<or> (Value = - 1 \<and> Byte AND 0x40 \<noteq> 0)));
         Byte = (if More then Byte OR 0x80 else Byte)
     in Byte # (if More then encodeSLEB128 Value else []))"
  by pat_completeness auto

lemma sint_signed_drop_bit: "sint (signed_drop_bit n w) = sint w div 2 ^ n" for w :: "'a::len word"
  by (simp add: sint_signed_drop_bit_eq flip: drop_bit_eq_div)

lemma and_0x40_eq_0: "w AND 0x40 = 0 \<longleftrightarrow> \<not> bit w 6" for w :: "'a::len word"
  using and_exp_eq_0_iff_not_bit [of w 6] by simp

lemma bit6_sint: "bit (v :: u64) 6 \<longleftrightarrow> odd (sint v div 64)"
  using bit_sint_iff [of v 6] by (simp add: bit_iff_odd)

lemma div_64_iff: "x div 64 = 0 \<or> x div 64 = - 1 \<longleftrightarrow> - 64 \<le> x \<and> x < 64" for x :: int
proof -
  have "q = 0 \<or> q = - 1 \<longleftrightarrow> - 64 \<le> 64 * q + r \<and> 64 * q + r < 64" if "0 \<le> r" "r < 64" for q r :: int
    using that by auto
  from this [of "x mod 64" "x div 64"] show ?thesis by simp
qed

lemma div_2_parity: "(q div 2 = 0 \<and> even q) \<or> (q div 2 = - 1 \<and> odd q) \<longleftrightarrow> q = 0 \<or> q = - 1" for q :: int
  by presburger

lemma fits_seven_bits:
  "(signed_drop_bit 7 v = 0 \<and> ucast (v AND 0x7f) AND (0x40 :: u8) = 0) \<or>
   (signed_drop_bit 7 v = - 1 \<and> ucast (v AND 0x7f) AND (0x40 :: u8) \<noteq> 0) \<longleftrightarrow> - 64 \<le> sint v \<and> sint v < 64"
  for v :: u64
proof -
  have b: "ucast (v AND 0x7f) AND (0x40 :: u8) = 0 \<longleftrightarrow> even (sint v div 64)"
    using bit6_sint [of v] by (simp add: and_0x40_eq_0 bit_simps)
  have z: "signed_drop_bit 7 v = 0 \<longleftrightarrow> sint v div 128 = 0" "signed_drop_bit 7 v = - 1 \<longleftrightarrow> sint v div 128 = - 1"
    using sint_signed_drop_bit [of 7 v] by (auto simp: word_eq_iff_signed [where 'a = int])
  have "(sint v div 128 = 0 \<and> even (sint v div 64)) \<or> (sint v div 128 = - 1 \<and> odd (sint v div 64)) \<longleftrightarrow>
      sint v div 64 = 0 \<or> sint v div 64 = - 1"
    using div_2_parity [of "sint v div 64"] zdiv_zmult2_eq [of 2 "sint v" 64] by simp
  also have "\<dots> \<longleftrightarrow> - 64 \<le> sint v \<and> sint v < 64"
    by (rule div_64_iff)
  finally show ?thesis unfolding b z .
qed

termination encodeSLEB128
proof (relation "measure (\<lambda>v. nat \<bar>sint v\<bar>)", simp)
  fix v x :: u64 and b :: u8 and y
  assume b: "b = ucast (v AND 0x7f)" and x: "x = signed_drop_bit 7 v"
    and y: "y = (\<not> ((x = 0 \<and> b AND 0x40 = 0) \<or> (x = - 1 \<and> b AND 0x40 \<noteq> 0)))" and y
  then have "\<not> (- 64 \<le> sint v \<and> sint v < 64)" using fits_seven_bits [of v] by simp
  then have "\<bar>sint v div 128\<bar> < \<bar>sint v\<bar>" by linarith
  then show "(x, v) \<in> measure (\<lambda>v. nat \<bar>sint v\<bar>)" by (simp add: x sint_signed_drop_bit)
qed

declare encodeULEB128_loop.simps [simp del] getULEB128Size_loop.simps [simp del] encodeSLEB128.simps [simp del]

text \<open>In the decoder the shifted byte is an \<open>int\<close>: the shift is undefined from 32 on, and when bits are
  lost beyond the 32nd. The result is converted to \<open>int64_t\<close>, which copies bit 31 upwards.\<close>

definition shift_byte :: "u8 \<Rightarrow> nat \<Rightarrow> u64 option" where
  "shift_byte Byte Shift =
    (if Shift \<ge> 32 \<or> uint (Byte AND 0x7f) * 2 ^ Shift \<ge> 2 ^ 32 then None
     else Some (scast (push_bit Shift (ucast (Byte AND 0x7f)) :: u32)))"

fun decodeSLEB128_loop :: "u8 list \<Rightarrow> u64 \<Rightarrow> nat \<Rightarrow> nat \<Rightarrow> (u64 \<times> nat) option" where
  "decodeSLEB128_loop [] Value Shift n = None"
| "decodeSLEB128_loop (Byte # p) Value Shift n =
     (case shift_byte Byte Shift of
        None \<Rightarrow> None
      | Some x \<Rightarrow>
          let Value = Value OR x; Shift = Shift + 7
          in if Byte \<ge> 128 then decodeSLEB128_loop p Value Shift (n + 1)
             else if Byte AND 0x40 \<noteq> 0 then Some (Value OR push_bit Shift (- 1), n + 1)
             else Some (Value, n + 1))"

definition decodeSLEB128 :: "u8 list \<Rightarrow> (u64 \<times> nat) option" where
  "decodeSLEB128 p = decodeSLEB128_loop p 0 0 0"

partial_function (option) getSLEB128Size_loop :: "u64 \<Rightarrow> u64 \<Rightarrow> nat \<Rightarrow> nat option" where
  "getSLEB128Size_loop Value Sign Size =
    (if signed_drop_bit 7 Value \<noteq> Sign \<or> ((Value AND 0x7f) XOR Sign) AND 0x40 \<noteq> 0
     then getSLEB128Size_loop (signed_drop_bit 7 Value) Sign (Size + 1) else Some (Size + 1))"

definition getSLEB128Size :: "u64 \<Rightarrow> nat option" where
  "getSLEB128Size Value = getSLEB128Size_loop Value (signed_drop_bit 63 Value) 0"

section \<open>The number a text denotes\<close>

text \<open>What a text means, apart from the code: the digits are those of the alphabet, in either case; a numeral
  denotes the sum of its digits times the powers of the radix; and a prefix selects the radix when none is given.\<close>

definition is_digit :: "nat \<Rightarrow> char \<Rightarrow> bool" where
  "is_digit v c \<longleftrightarrow>
    c = ''0123456789abcdefghijklmnopqrstuvwxyz'' ! v \<or> c = ''0123456789ABCDEFGHIJKLMNOPQRSTUVWXYZ'' ! v"

definition digit_of :: "char \<Rightarrow> nat option" where
  "digit_of c = List.find (\<lambda>v. is_digit v c) [0..<36]"

definition numeral_value :: "nat \<Rightarrow> string \<Rightarrow> nat option" where
  "numeral_value R S =
    (if S \<noteq> [] \<and> (\<forall>c \<in> set S. \<exists>v \<in> {..<R}. digit_of c = Some v)
     then Some (\<Sum>i < length S. the (digit_of (rev S ! i)) * R ^ i) else None)"

definition sensed :: "string \<Rightarrow> nat \<times> string" where
  "sensed S =
    (if take 2 S = ''0x'' then (16, drop 2 S)
     else if take 2 S = ''0b'' then (2, drop 2 S)
     else if take 2 S = ''0o'' then (8, drop 2 S)
     else if take 1 S = ''0'' then (8, S)
     else (10, S))"

definition number_of :: "nat \<Rightarrow> string \<Rightarrow> nat option" where
  "number_of Radix S = (case (if Radix = 0 then sensed S else (Radix, S)) of (R, T) \<Rightarrow> numeral_value R T)"

definition signed_number_of :: "nat \<Rightarrow> string \<Rightarrow> int option" where
  "signed_number_of Radix S =
    (case S of CHR ''-'' # T \<Rightarrow> map_option (\<lambda>n. - int n) (number_of Radix T)
     | _ \<Rightarrow> map_option int (number_of Radix S))"

text \<open>The same with the digits as the code reads them; \<open>text_value_number\<close> below shows that the two agree.\<close>

definition digits_value :: "nat \<Rightarrow> nat \<Rightarrow> string \<Rightarrow> nat" where
  "digits_value R acc S = foldl (\<lambda>n c. n * R + the (CharVal R c)) acc S"

definition numeral_text :: "nat \<Rightarrow> string \<Rightarrow> bool" where
  "numeral_text R S \<longleftrightarrow> (\<forall>c \<in> set S. CharVal R c \<noteq> None)"

definition text_value :: "nat \<Rightarrow> string \<Rightarrow> nat option" where
  "text_value Radix S =
    (let (R, T) = (if Radix = 0 then GetAutoSenseRadix S else (Radix, S))
     in if T \<noteq> [] \<and> numeral_text R T then Some (digits_value R 0 T) else None)"

definition signed_text_value :: "nat \<Rightarrow> string \<Rightarrow> int option" where
  "signed_text_value Radix S =
    (case S of CHR ''-'' # T \<Rightarrow> map_option (\<lambda>n. - int n) (text_value Radix T)
     | _ \<Rightarrow> map_option int (text_value Radix S))"

definition keep_if :: "('a \<Rightarrow> bool) \<Rightarrow> 'a option \<Rightarrow> 'a option" where
  "keep_if P x = (case x of Some a \<Rightarrow> if P a then Some a else None | None \<Rightarrow> None)"

lemma digits_value_simps [simp]:
  "digits_value R acc [] = acc"
  "digits_value R acc (c # S) = digits_value R (acc * R + the (CharVal R c)) S"
  "digits_value R acc (S @ T) = digits_value R (digits_value R acc S) T"
  by (simp_all add: digits_value_def)

lemma numeral_text_simps [simp]:
  "numeral_text R []"
  "numeral_text R (c # S) \<longleftrightarrow> CharVal R c \<noteq> None \<and> numeral_text R S"
  "numeral_text R (S @ T) \<longleftrightarrow> numeral_text R S \<and> numeral_text R T"
  by (auto simp: numeral_text_def)

text \<open>The alphabet by the codes of its characters.\<close>

lemma is_digit_code:
  assumes "v < 36"
  shows "is_digit v c \<longleftrightarrow>
    (of_char c :: nat) = (if v < 10 then 48 + v else 87 + v) \<or> (of_char c :: nat) = (if v < 10 then 48 + v else 55 + v)"
proof -
  have "\<forall>v \<in> set [0..<36].
      (of_char (''0123456789abcdefghijklmnopqrstuvwxyz'' ! v) :: nat) = (if v < 10 then 48 + v else 87 + v) \<and>
      (of_char (''0123456789ABCDEFGHIJKLMNOPQRSTUVWXYZ'' ! v) :: nat) = (if v < 10 then 48 + v else 55 + v)"
    by (simp add: upt_conv_Cons)
  then have "(of_char (''0123456789abcdefghijklmnopqrstuvwxyz'' ! v) :: nat) = (if v < 10 then 48 + v else 87 + v) \<and>
      (of_char (''0123456789ABCDEFGHIJKLMNOPQRSTUVWXYZ'' ! v) :: nat) = (if v < 10 then 48 + v else 55 + v)"
    by (rule bspec) (use assms in simp)
  then show ?thesis unfolding is_digit_def by (metis of_char_eq_iff)
qed

lemma find_upt: "List.find P [0..<n] = Some v \<longleftrightarrow> v < n \<and> P v \<and> (\<forall>j < v. \<not> P j)"
  by (auto simp: find_Some_iff)

lemma digit_of_iff:
  "digit_of c = Some v \<longleftrightarrow> v < 36 \<and>
    ((of_char c :: nat) = (if v < 10 then 48 + v else 87 + v) \<or> (of_char c :: nat) = (if v < 10 then 48 + v else 55 + v))"
proof -
  have "j = v" if "v < 36" "j < 36" "is_digit v c" "is_digit j c" for j
    using that by (auto simp: is_digit_code split: if_splits)
  then have "digit_of c = Some v \<longleftrightarrow> v < 36 \<and> is_digit v c"
    unfolding digit_of_def find_upt by (metis less_trans nat_neq_iff)
  then show ?thesis by (auto simp: is_digit_code)
qed

lemma digit_of_char:
  "(if in_range CHR ''0'' c CHR ''9'' then Some (of_char c - of_char CHR ''0'')
    else if in_range CHR ''a'' c CHR ''z'' then Some (of_char c - of_char CHR ''a'' + 10)
    else if in_range CHR ''A'' c CHR ''Z'' then Some (of_char c - of_char CHR ''A'' + 10)
    else None) = digit_of c" (is "?code = _")
proof -
  have "?code = Some v \<longleftrightarrow> digit_of c = Some v" for v
    unfolding digit_of_iff by (auto simp: in_range_def)
  then show ?thesis by (metis not_None_eq)
qed

lemma CharVal_digit_of: "CharVal R c = Option.bind (digit_of c) (\<lambda>v. if v < R then Some v else None)"
  unfolding CharVal_def digit_of_char by (rule arg_cong [of _ _ "Option.bind (digit_of c)"]) auto

lemma digits_value_sum:
  "digits_value R acc S = acc * R ^ length S + (\<Sum>i < length S. the (CharVal R (rev S ! i)) * R ^ i)"
proof (induction S arbitrary: acc)
  case (Cons c S)
  have "(\<Sum>i < length S. the (CharVal R ((rev S @ [c]) ! i)) * R ^ i) = (\<Sum>i < length S. the (CharVal R (rev S ! i)) * R ^ i)"
    by (intro sum.cong) (simp_all add: nth_append)
  then show ?case using Cons by (simp add: nth_append algebra_simps)
qed simp

lemma CharVal_less: "CharVal R c = Some v \<Longrightarrow> v < R"
  by (auto simp: CharVal_def Option.bind_eq_Some_conv split: if_splits)

lemma digits_value_ge: "0 < R \<Longrightarrow> acc \<le> digits_value R acc S"
proof (induction S arbitrary: acc)
  case (Cons c S)
  have "acc \<le> acc * R + the (CharVal R c)" using Cons.prems by (simp add: trans_le_add1)
  also have "\<dots> \<le> digits_value R acc (c # S)" using Cons by simp
  finally show ?case .
qed simp

lemma digits_value_less:
  assumes "numeral_text R S"
  shows "digits_value R acc S < (acc + 1) * R ^ length S"
  using assms
proof (induction S arbitrary: acc)
  case (Cons c S)
  then obtain v where v: "CharVal R c = Some v" "v < R" using CharVal_less by fastforce
  then have "digits_value R acc (c # S) < (acc * R + v + 1) * R ^ length S" using Cons by auto
  also have "\<dots> \<le> (acc * R + R) * R ^ length S" using v(2) by (intro mult_right_mono) auto
  also have "\<dots> = (acc + 1) * R ^ length (c # S)" by (simp add: algebra_simps)
  finally show ?case .
qed simp

lemma text_value_numeral_value:
  "(if T \<noteq> [] \<and> numeral_text R T then Some (digits_value R 0 T) else None) = numeral_value R T"
proof -
  have ok: "numeral_text R T \<longleftrightarrow> (\<forall>c \<in> set T. \<exists>v \<in> {..<R}. digit_of c = Some v)"
    unfolding numeral_text_def by (intro ball_cong refl) (auto simp: CharVal_digit_of bind_eq_None_conv split: if_splits)
  have "digits_value R 0 T = (\<Sum>i < length T. the (digit_of (rev T ! i)) * R ^ i)" if "numeral_text R T"
  proof -
    have "the (CharVal R (rev T ! i)) = the (digit_of (rev T ! i))" if "i < length T" for i
    proof -
      have "rev T ! i \<in> set T" using that by (metis length_rev nth_mem set_rev)
      then show ?thesis using \<open>numeral_text R T\<close> by (auto simp: ok CharVal_digit_of split: if_splits)
    qed
    then show ?thesis by (simp add: digits_value_sum)
  qed
  then show ?thesis by (simp add: numeral_value_def ok)
qed

lemma GetAutoSenseRadix_sensed: "length S < npos \<Longrightarrow> GetAutoSenseRadix S = sensed S"
  by (simp add: GetAutoSenseRadix_def sensed_def startswith_iff substr_take npos_def numeral_2_eq_2)

lemma text_value_number: "length S < npos \<Longrightarrow> text_value Radix S = number_of Radix S"
  by (simp add: text_value_def number_of_def GetAutoSenseRadix_sensed text_value_numeral_value split: prod.splits)

lemma signed_text_value_number: "length S < npos \<Longrightarrow> signed_text_value Radix S = signed_number_of Radix S"
  by (auto simp: signed_text_value_def signed_number_of_def text_value_number split: list.splits char.splits bool.splits)

section \<open>The parsers are exact\<close>

text \<open>The check after each digit, whether dividing the new value by the radix gives less than the old one,
  detects an overflow and nothing else.\<close>

lemma overflow_check:
  assumes "acc < 2 ^ 64" and "v < R" and "R < 2 ^ 32"
  shows "((of_nat acc * of_nat R + of_nat v) div of_nat R < (of_nat acc :: u64)) \<longleftrightarrow> 2 ^ 64 \<le> acc * R + v"
proof -
  have R: "unat (of_nat R :: u64) = R" and a: "unat (of_nat acc :: u64) = acc"
    using assms(1,3) by (simp_all add: unat_of_nat)
  have "unat (of_nat acc * of_nat R + of_nat v :: u64) = (acc * R + v) mod 2 ^ 64"
    by (simp flip: of_nat_mult of_nat_add add: unat_of_nat)
  then have "(of_nat acc * of_nat R + of_nat v) div of_nat R < (of_nat acc :: u64) \<longleftrightarrow>
      (acc * R + v) mod 2 ^ 64 div R < acc"
    by (simp add: word_less_nat_alt unat_div R a)
  also have "\<dots> \<longleftrightarrow> (acc * R + v) mod 2 ^ 64 < acc * R"
    using assms(2) by (simp add: div_less_iff_less_mult)
  also have "\<dots> \<longleftrightarrow> 2 ^ 64 \<le> acc * R + v"
  proof (cases "acc * R + v < 2 ^ 64")
    case False
    then have "(acc * R + v) mod 2 ^ 64 \<le> acc * R + v - 2 ^ 64"
      by (metis linorder_not_less mod_if mod_less_eq_dividend)
    moreover have "(2::nat) ^ 32 < 2 ^ 64" by simp
    ultimately show ?thesis using assms(2,3) False by linarith
  qed simp
  finally show ?thesis .
qed

lemma parse_unsigned_value:
  assumes "acc < 2 ^ 64" and "R < 2 ^ 32"
  shows "parse_unsigned S R (of_nat acc) =
    (if numeral_text R S \<and> digits_value R acc S < 2 ^ 64 then Some (of_nat (digits_value R acc S)) else None)"
  using assms(1)
proof (induction S arbitrary: acc)
  case (Cons c S)
  show ?case
  proof (cases "CharVal R c")
    case (Some v)
    then have v: "v < R" by (rule CharVal_less)
    have "acc * R + v \<le> digits_value R (acc * R + v) S" using v by (intro digits_value_ge) simp
    then show ?thesis
      using Cons.IH [of "acc * R + v"] overflow_check [OF Cons.prems v assms(2)] Some
      by (auto simp: Let_def simp flip: of_nat_mult of_nat_add)
  qed simp
qed simp

lemma GetAutoSenseRadix_less: "fst (GetAutoSenseRadix S) \<in> {2, 8, 10, 16}"
  by (simp add: GetAutoSenseRadix_def)

text \<open>The 64-bit parser accepts exactly the numerals, with the prefix that selects the radix when it is
  to be sensed, of a number below \<open>2 ^ 64\<close>, and returns that number.\<close>

lemma getAsUnsignedInteger_value:
  assumes "Radix < 2 ^ 32"
  shows "map_option unat (getAsUnsignedInteger Str Radix) = keep_if (\<lambda>n. n < 2 ^ 64) (text_value Radix Str)"
proof -
  obtain R T where RT: "(if Radix = 0 then GetAutoSenseRadix Str else (Radix, Str)) = (R, T)"
    by (metis surj_pair)
  have "R < 2 ^ 32" using assms RT GetAutoSenseRadix_less [of Str] by (auto split: if_splits)
  from parse_unsigned_value [OF _ this, of 0 T] RT show ?thesis
    by (auto simp: getAsUnsignedInteger_def text_value_def keep_if_def unat_of_nat)
qed

lemma getAsUnsignedInteger_cases:
  assumes "Radix < 2 ^ 32"
  shows "getAsUnsignedInteger Str Radix =
    (case text_value Radix Str of Some n \<Rightarrow> if n < 2 ^ 64 then Some (of_nat n) else None | None \<Rightarrow> None)"
  using getAsUnsignedInteger_value [OF assms, of Str]
  by (cases "getAsUnsignedInteger Str Radix") (auto simp: keep_if_def split: option.splits if_splits)

lemma sint_of_nat_u64:
  assumes "n < 2 ^ 64"
  shows "sint (of_nat n :: u64) = (if n < 2 ^ 63 then int n else int n - 2 ^ 64)"
proof -
  have s: "sint (of_nat n :: u64) = (int n + 2 ^ 63) mod 2 ^ 64 - 2 ^ 63"
    using int_word_sint [of "int n", where 'a = 64] by simp
  show ?thesis
  proof (cases "n < 2 ^ 63")
    case True
    then have "int n < 2 ^ 63" by simp
    then have "(int n + 2 ^ 63) mod 2 ^ 64 = int n + 2 ^ 63" by (intro mod_pos_pos_trivial) simp_all
    with True s show ?thesis by simp
  next
    case False
    then have "(2::int) ^ 63 \<le> int n" "int n < 2 ^ 64" using assms by simp_all
    then have "(int n - 2 ^ 63) mod 2 ^ 64 = int n - 2 ^ 63" by (intro mod_pos_pos_trivial) simp_all
    moreover have "int n + 2 ^ 63 = (int n - 2 ^ 63) + 2 ^ 64" by simp
    ultimately have "(int n + 2 ^ 63) mod 2 ^ 64 = int n - 2 ^ 63" by (metis mod_add_self2)
    with False s show ?thesis by simp
  qed
qed

lemma sint_minus_of_nat:
  assumes "n < 2 ^ 64"
  shows "sint (- of_nat n :: u64) = (if n = 0 then 0 else if n \<le> 2 ^ 63 then - int n else 2 ^ 64 - int n)"
proof (cases "n = 0")
  case False
  have e: "- of_nat n = (of_nat (2 ^ 64 - n) :: u64)" using assms by (simp add: of_nat_diff)
  have m: "int (2 ^ 64 - n) = 2 ^ 64 - int n" using assms by (simp add: of_nat_diff)
  from False assms show ?thesis unfolding e by (subst sint_of_nat_u64) (auto simp: m)
qed simp

lemma signed_text_value_pos:
  "S = [] \<or> hd S \<noteq> CHR ''-'' \<Longrightarrow> signed_text_value Radix S = map_option int (text_value Radix S)"
  by (auto simp: signed_text_value_def split: list.splits char.splits bool.splits)

lemma substr_tl: "length S < npos \<Longrightarrow> substr S 1 npos = tl S"
  by (cases S) (simp_all add: substr_take)

lemma getAsSignedInteger_value:
  assumes "Radix < 2 ^ 32" and "length Str < npos"
  shows "map_option sint (getAsSignedInteger Str Radix) =
    keep_if (\<lambda>n. - (2 ^ 63) \<le> n \<and> n < 2 ^ 63) (signed_text_value Radix Str)"
proof -
  note [simp] = getAsUnsignedInteger_cases [OF assms(1)] word_sless_alt sint_of_nat_u64
  note neg = sint_minus_of_nat
  show ?thesis
  proof (cases "Str = [] \<or> hd Str \<noteq> CHR ''-''")
    case True
    then have "signed_text_value Radix Str = map_option int (text_value Radix Str)" by (rule signed_text_value_pos)
    with True show ?thesis
      by (auto simp: getAsSignedInteger_def keep_if_def split: option.splits)
  next
    case False
    then obtain T where T: "Str = CHR ''-'' # T" by (cases Str) auto
    have d: "substr (CHR ''-'' # T) (Suc 0) npos = T" using substr_tl [OF assms(2)] by (simp add: T)
    show ?thesis
    proof (cases "text_value Radix T")
      case (Some n)
      then show ?thesis using neg [of n] d
        by (cases "n < 2 ^ 64") (auto simp: T getAsSignedInteger_def keep_if_def signed_text_value_def)
    qed (simp add: T d getAsSignedInteger_def keep_if_def signed_text_value_def)
  qed
qed

lemma signed_take_bit_id_iff:
  "signed_take_bit n k = k \<longleftrightarrow> - (2 ^ n) \<le> k \<and> k < 2 ^ n" for k :: int
  by (metis signed_take_bit_int_eq_self signed_take_bit_int_greater_eq_minus_exp signed_take_bit_int_less_exp)

lemma getAsInteger_signed_value:
  assumes "Radix < 2 ^ 32" and "length S < npos" and "1 \<le> w" and "w \<le> 64"
  shows "getAsInteger_signed w S Radix =
    keep_if (\<lambda>n. - (2 ^ (w - 1)) \<le> n \<and> n < 2 ^ (w - 1)) (signed_text_value Radix S)"
proof -
  have "(2::int) ^ (w - 1) \<le> 2 ^ 63" using assms(3,4) by (intro power_increasing) auto
  with getAsSignedInteger_value [OF assms(1,2)] show ?thesis
    by (cases "getAsSignedInteger S Radix"; cases "signed_text_value Radix S")
      (auto simp: getAsInteger_signed_def keep_if_def signed_take_bit_id_iff split: if_splits)
qed

lemma getAsInteger_unsigned_value:
  assumes "Radix < 2 ^ 32" and "w \<le> 64"
  shows "getAsInteger_unsigned w S Radix = keep_if (\<lambda>n. n < 2 ^ w) (text_value Radix S)"
proof -
  have "(2::nat) ^ w \<le> 2 ^ 64" using assms(2) by (intro power_increasing) auto
  with getAsUnsignedInteger_value [OF assms(1), of S] show ?thesis
    by (cases "getAsUnsignedInteger S Radix"; cases "text_value Radix S")
      (auto simp: getAsInteger_unsigned_def keep_if_def take_bit_nat_eq_self_iff split: if_splits)
qed

text \<open>The result of the arbitrary precision parser is always wide enough.\<close>

lemma log2_radix_bounds:
  assumes "2 ^ (l - 1) < R \<or> l = 0" and "1 < R"
  shows "R \<le> 2 ^ log2_radix R l \<and> 2 ^ (log2_radix R l - 1) < R"
  using assms
proof (induction R l rule: log2_radix.induct)
  case (1 R l)
  then show ?case
    by (cases "2 ^ l < R") (auto simp: log2_radix.simps [of R l])
qed

lemma push_bit_or:
  fixes n v :: nat
  assumes "v < 2 ^ l"
  shows "push_bit l n OR v = n * 2 ^ l + v"
proof -
  have v: "take_bit l v = v" using assms by (simp add: take_bit_nat_eq_self_iff)
  have "push_bit l n AND take_bit l v = 0" by (simp add: bit_eq_iff bit_simps)
  then show ?thesis using disjunctive_add_eq_or [of "push_bit l n" v] by (simp add: v push_bit_eq_mult)
qed

lemma parse_APInt_value:
  assumes R: "1 < R" and L: "L = log2_radix R 0" and "(acc + 1) * R ^ length S \<le> 2 ^ W" and "L \<le> W"
  shows "parse_APInt W L R S acc = (if numeral_text R S then Some (digits_value R acc S) else None)"
  using assms(3)
proof (induction S arbitrary: acc)
  case (Cons c S)
  show ?case
  proof (cases "CharVal R c")
    case (Some v)
    then have v: "v < R" by (rule CharVal_less)
    have RL: "R \<le> 2 ^ L" using log2_radix_bounds [OF _ R, of 0] by (simp add: L)
    have "1 \<le> R ^ length S" using R by simp
    then have "(acc + 1) * R * 1 \<le> (acc + 1) * R * R ^ length S" by (rule mult_left_mono) simp
    also have "\<dots> \<le> 2 ^ W" using Cons.prems by (simp add: algebra_simps)
    finally have le: "(acc + 1) * R \<le> 2 ^ W" by simp
    have less: "acc * R + v < 2 ^ W" "acc * R < 2 ^ W" "v < 2 ^ W" using le v by auto
    have next_acc: "(if 2 ^ L = R then take_bit W (push_bit L acc) OR take_bit W v
        else take_bit W (take_bit W (acc * take_bit W R) + take_bit W v)) = acc * R + v"
    proof (cases "2 ^ L = R")
      case True
      then show ?thesis using less v push_bit_or [of v L acc]
        by (simp add: take_bit_nat_eq_self push_bit_eq_mult)
    next
      case False
      have "(2::nat) ^ L \<le> 2 ^ W" using assms(4) by (intro power_increasing) auto
      then have "R < 2 ^ W" using False RL by linarith
      with False less show ?thesis by (simp add: take_bit_nat_eq_self)
    qed
    have "(acc * R + v + 1) * R ^ length S \<le> (acc * R + R) * R ^ length S"
      using v by (intro mult_right_mono) auto
    also have "\<dots> \<le> 2 ^ W" using Cons.prems by (simp add: algebra_simps)
    finally have "(acc * R + v + 1) * R ^ length S \<le> 2 ^ W" .
    then show ?thesis using Cons.IH [of "acc * R + v"] Some by (simp add: next_acc del: if_image_distrib)
  qed simp
qed simp

lemma digits_value_zeroes:
  assumes "1 < R"
  shows "digits_value R 0 (dropWhile (\<lambda>c. c = CHR ''0'') S) = digits_value R 0 S \<and>
    numeral_text R (dropWhile (\<lambda>c. c = CHR ''0'') S) = numeral_text R S"
proof -
  have "CharVal R CHR ''0'' = Some 0" using assms by (simp add: CharVal_def in_range_def)
  then show ?thesis by (induction S) auto
qed

lemma getAsInteger_APInt_value:
  assumes "Radix = 0 \<or> 1 < Radix" and "Radix \<le> 36" and len: "6 * length S < 2 ^ 32"
  shows "map_option snd (getAsInteger_APInt w S Radix) = text_value Radix S \<and>
    (\<forall>W n. getAsInteger_APInt w S Radix = Some (W, n) \<longrightarrow> n < 2 ^ W)"
proof -
  obtain R T where RT: "(if Radix = 0 then GetAutoSenseRadix S else (Radix, S)) = (R, T)"
    by (metis surj_pair)
  have R: "1 < R" "R \<le> 36" using assms(1,2) RT GetAutoSenseRadix_less [of S] by (auto split: if_splits)
  have T: "length T \<le> length S"
    using RT by (auto simp: GetAutoSenseRadix_def substr_take split: if_splits)
  define D where "D = dropWhile (\<lambda>c. c = CHR ''0'') T"
  define L where "L = log2_radix R 0"
  define W where "W = max ((L * length D) mod 2 ^ 32) w"
  have l: "R \<le> 2 ^ L" "2 ^ (L - 1) < R" using log2_radix_bounds [of 0 R] R(1) by (simp_all add: L_def)
  have "\<not> 6 < L"
  proof
    assume "6 < L"
    then have "(2::nat) ^ 6 \<le> 2 ^ (L - 1)" by (intro power_increasing) auto
    with l(2) R(2) show False by simp
  qed
  then have "L * length D \<le> 6 * length S"
    using T length_dropWhile_le [of "\<lambda>c. c = CHR ''0''" T] unfolding D_def by (intro mult_le_mono) linarith+
  then have "L * length D \<le> W" using len by (simp add: W_def)
  then have W: "(2::nat) ^ (L * length D) \<le> 2 ^ W" by (intro power_increasing) auto
  have "R ^ length D \<le> (2 ^ L) ^ length D" using l(1) by (rule power_mono) simp
  then have fits: "(0 + 1) * R ^ length D \<le> 2 ^ W" using W by (simp add: power_mult)
  note z = digits_value_zeroes [OF R(1), of T, folded D_def]
  show ?thesis
  proof (cases "D = []")
    case True
    then show ?thesis using z RT by (auto simp: getAsInteger_APInt_def text_value_def Let_def D_def [symmetric])
  next
    case False
    then have "L \<le> L * length D" by (cases D) auto
    with \<open>L * length D \<le> W\<close> have "L \<le> W" by linarith
    note v = parse_APInt_value [OF R(1) L_def fits this]
    have "getAsInteger_APInt w S Radix = map_option (Pair W) (parse_APInt W L R D 0)"
      using RT False by (auto simp: getAsInteger_APInt_def Let_def D_def L_def W_def)
    moreover have "T \<noteq> []" using False by (auto simp: D_def)
    moreover have "digits_value R 0 T < 2 ^ W" if "numeral_text R D"
      using digits_value_less [OF that, of 0] fits z by simp
    ultimately show ?thesis using v z RT by (auto simp: text_value_def)
  qed
qed

section \<open>Printing and parsing\<close>

text \<open>\<open>ds\<close> is the numeral of \<open>n\<close> in radix \<open>R\<close>, without leading zeroes.\<close>

definition numeral_of :: "nat \<Rightarrow> string \<Rightarrow> nat \<Rightarrow> bool" where
  "numeral_of R ds n \<longleftrightarrow> numeral_text R ds \<and> digits_value R 0 ds = n \<and> (n \<noteq> 0 \<longrightarrow> ds \<noteq> [] \<and> hd ds \<noteq> CHR ''0'')"

lemma numeral_of_snoc:
  assumes "numeral_of R ds (n div R)" and "n div R = 0 \<longrightarrow> ds = []" and "CharVal R c = Some (n mod R)"
    and "c = CHR ''0'' \<longrightarrow> n mod R = 0"
  shows "numeral_of R (ds @ [c]) n"
proof -
  have "n div R * R + n mod R = n" by simp
  with assms show ?thesis by (cases "n div R = 0"; cases ds) (auto simp: numeral_of_def)
qed

lemma CharVal_digit: "d < 10 \<Longrightarrow> d < R \<Longrightarrow> CharVal R (char_of (48 + d)) = Some d"
  by (simp add: CharVal_def in_range_def)

lemma CharVal_hexdigit:
  assumes "d < 16"
  shows "CharVal 16 (hexdigit d b) = Some d \<and> (hexdigit d b = CHR ''0'' \<longrightarrow> d = 0)"
proof -
  have c: "hexdigit d b = char_of (if d < 10 then 48 + d else if b then 87 + d else 55 + d)"
    by (simp add: hexdigit_def)
  have n: "(of_char (hexdigit d b) :: nat) = (if d < 10 then 48 + d else if b then 87 + d else 55 + d)"
    using assms by (simp add: c)
  have "CharVal 16 (hexdigit d b) = Some d"
    using assms n by (cases b; cases "d < 10"; simp add: CharVal_def in_range_def)
  moreover have "hexdigit d b = CHR ''0'' \<longrightarrow> d = 0" using n by (auto split: if_splits)
  ultimately show ?thesis by blast
qed

lemma decimal_loop_numeral:
  "\<exists>ds. decimal_loop X Buf = ds @ Buf \<and> numeral_of 10 ds (unat X) \<and> (X = 0 \<longrightarrow> ds = [])"
proof (induction X Buf rule: decimal_loop.induct)
  case (1 X Buf)
  show ?case
  proof (cases "X = 0")
    case True
    then show ?thesis by (simp add: decimal_loop.simps [of 0] numeral_of_def)
  next
    case False
    let ?c = "char_of (48 + unat X mod 10) :: char"
    from 1 [OF False] obtain ds where ds: "decimal_loop (X div 10) (?c # Buf) = ds @ ?c # Buf"
      "numeral_of 10 ds (unat X div 10)" "X div 10 = 0 \<longrightarrow> ds = []"
      by (auto simp: unat_div unat_mod)
    have "of_char ?c = 48 + unat X mod 10" by simp
    then have "?c = CHR ''0'' \<longrightarrow> unat X mod 10 = 0" by force
    moreover have "unat X div 10 = 0 \<longrightarrow> ds = []" using ds(3) by (auto simp: unat_div simp flip: unat_eq_0)
    ultimately have "numeral_of 10 (ds @ [?c]) (unat X)"
      using ds(2) by (intro numeral_of_snoc) (simp_all add: CharVal_digit)
    then show ?thesis using ds(1) False
      by (intro exI [of _ "ds @ [?c]"]) (simp add: decimal_loop.simps [of X] unat_mod)
  qed
qed

lemma hex_loop_numeral:
  "\<exists>ds. hex_loop X L Buf = ds @ Buf \<and> numeral_of 16 ds (unat X) \<and> (X = 0 \<longrightarrow> ds = [])"
proof (induction X L Buf rule: hex_loop.induct)
  case (1 X L Buf)
  show ?case
  proof (cases "X = 0")
    case True
    then show ?thesis by (simp add: hex_loop.simps [of 0] numeral_of_def)
  next
    case False
    let ?c = "hexdigit (unat (X AND 15)) L"
    have m: "unat (X AND 15) = unat X mod 16"
      using take_bit_eq_mod [of 4 "unat X"] by (simp add: unsigned_and_eq take_bit_eq_mask mask_eq_exp_minus_1)
    have d: "unat (drop_bit 4 X) = unat X div 16" by (simp add: unat_drop_bit)
    from 1 [OF False] obtain ds where ds: "hex_loop (drop_bit 4 X) L (?c # Buf) = ds @ ?c # Buf"
      "numeral_of 16 ds (unat X div 16)" "drop_bit 4 X = 0 \<longrightarrow> ds = []"
      by (auto simp: d)
    have "unat X div 16 = 0 \<longrightarrow> ds = []" using ds(3) d by (auto simp flip: unat_eq_0)
    then have "numeral_of 16 (ds @ [?c]) (unat X)"
      using ds(2) CharVal_hexdigit [of "unat X mod 16" L] by (intro numeral_of_snoc) (simp_all add: m)
    then show ?thesis using ds(1) False
      by (intro exI [of _ "ds @ [?c]"]) (simp add: hex_loop.simps [of X])
  qed
qed

lemma CharVal_0: "CharVal R c = Some 0 \<Longrightarrow> c = CHR ''0''"
  by (auto simp: CharVal_def in_range_def Option.bind_eq_Some_conv split: if_splits dest!: order_antisym
      simp flip: of_char_eq_iff [where 'a = nat])

lemma digits_value_ge_power: "0 < R \<Longrightarrow> acc * R ^ length S \<le> digits_value R acc S"
proof (induction S arbitrary: acc)
  case (Cons c S)
  have "acc * R ^ length (c # S) \<le> (acc * R + the (CharVal R c)) * R ^ length S"
    by (simp add: algebra_simps)
  also have "\<dots> \<le> digits_value R acc (c # S)" using Cons by simp
  finally show ?case .
qed simp

lemma numeral_of_short:
  assumes "numeral_of R ds n" and "1 < R" and "n < 2 ^ 64" and "n \<noteq> 0"
  shows "length ds \<le> 64"
proof -
  obtain c S v where ds: "ds = c # S" "CharVal R c = Some v" "v \<noteq> 0"
    using assms(1,4) CharVal_0 by (cases ds) (auto simp: numeral_of_def)
  have "2 ^ length S \<le> R ^ length S" using assms(2) by (intro power_mono) auto
  also have "\<dots> \<le> v * R ^ length S" using ds(3) by simp
  also have "\<dots> \<le> n" using digits_value_ge_power [of R v S] assms(1,2) ds by (simp add: numeral_of_def)
  also have "\<dots> < 2 ^ 64" by (rule assms(3))
  finally have "length S < 64" by (rule power_less_imp_less_exp [rotated]) simp
  then show ?thesis by (simp add: ds)
qed

lemma text_value_numeral:
  assumes "numeral_of R ds n" and "n \<noteq> 0" and "R \<noteq> 0"
  shows "text_value R ds = Some n \<and> (R = 10 \<longrightarrow> text_value 0 ds = Some n)"
proof -
  obtain c S where ds: "ds = c # S" "c \<noteq> CHR ''0''" using assms(1,2) by (cases ds) (auto simp: numeral_of_def)
  then have "GetAutoSenseRadix ds = (10, ds)" by (auto simp: GetAutoSenseRadix_def startswith_iff)
  then show ?thesis using assms ds by (auto simp: text_value_def numeral_of_def)
qed

lemma utostr_numeral:
  assumes "X \<noteq> 0"
  shows "numeral_of 10 (utostr X False) (unat X)" "utostr X True = CHR ''-'' # utostr X False"
  using decimal_loop_numeral [of X "[]"] assms by (auto simp: utostr_def)

lemma utohexstr_numeral: "X \<noteq> 0 \<Longrightarrow> numeral_of 16 (utohexstr X lc) (unat X)"
  using hex_loop_numeral [of X lc "[]"] by (auto simp: utohexstr_def)

lemma text_value_0: "text_value 10 ''0'' = Some 0" "text_value 0 ''0'' = Some 0" "text_value 16 ''0'' = Some 0"
  by (simp_all add: text_value_def GetAutoSenseRadix_def startswith_iff CharVal_def in_range_def)

lemma text_value_prefix: "length S < 2 ^ 32 \<Longrightarrow> text_value 0 (''0x'' @ S) = text_value 16 S"
  by (simp add: text_value_def GetAutoSenseRadix_def startswith_iff substr_take npos_def)

lemma text_value_utostr: "text_value 10 (utostr X False) = Some (unat X) \<and> text_value 0 (utostr X False) = Some (unat X)"
proof (cases "X = 0")
  case False
  then show ?thesis using text_value_numeral [OF utostr_numeral(1) [OF False]] by (simp add: unat_eq_0)
qed (simp add: utostr_def text_value_0)

lemma text_value_utohexstr:
  "text_value 16 (utohexstr X lc) = Some (unat X) \<and> text_value 0 (''0x'' @ utohexstr X lc) = Some (unat X)"
proof -
  have "length (utohexstr X lc) < 2 ^ 32"
  proof (cases "X = 0")
    case False
    then have "length (utohexstr X lc) \<le> 64"
      using numeral_of_short [OF utohexstr_numeral _ u64_less] by (auto simp: unat_eq_0)
    then show ?thesis by simp
  qed (simp add: utohexstr_def)
  moreover have "text_value 16 (utohexstr X lc) = Some (unat X)"
  proof (cases "X = 0")
    case False
    then show ?thesis using text_value_numeral [OF utohexstr_numeral [OF False]] by (simp add: unat_eq_0)
  qed (simp add: utohexstr_def text_value_0)
  ultimately show ?thesis using text_value_prefix by simp
qed

lemma getAsSignedInteger_Some:
  assumes "signed_text_value 10 S = Some (sint X)" and "length S < npos"
  shows "getAsSignedInteger S 10 = Some X"
proof -
  have "- (2 ^ 63) \<le> sint X" "sint X < 2 ^ 63" using sint_ge [of X] sint_less [of X] by simp_all
  then have "map_option sint (getAsSignedInteger S 10) = Some (sint X)"
    using getAsSignedInteger_value [OF _ assms(2), of 10] assms(1) by (simp add: keep_if_def)
  then show ?thesis by (auto intro: signed_word_eqI)
qed

lemma getAsSignedInteger_itostr:
  assumes "itostr X = Some S"
  shows "getAsSignedInteger S 10 = Some X"
proof -
  have short: "length (utostr Y False) \<le> 64" for Y
    using numeral_of_short [OF utostr_numeral(1) _ u64_less] by (cases "Y = 0") (auto simp: utostr_def [of 0] unat_eq_0)
  have digit: "\<exists>c T. utostr Y False = c # T \<and> c \<noteq> CHR ''-''" for Y
  proof (cases "Y = 0")
    case False
    then obtain c T where "utostr Y False = c # T" "CharVal 10 c \<noteq> None"
      using utostr_numeral(1) [OF False] by (cases "utostr Y False") (auto simp: numeral_of_def unat_eq_0)
    moreover have "CharVal 10 CHR ''-'' = None" by (simp add: CharVal_def in_range_def)
    ultimately show ?thesis by auto
  qed (simp add: utostr_def)
  have npos: "(65::nat) < npos" by (simp add: npos_def)
  show ?thesis
  proof (cases "X <s 0")
    case True
    then have neg: "sint X < 0" "X \<noteq> 0" by (auto simp: word_sless_alt)
    from True assms have min: "sint X \<noteq> - (2 ^ 63)" and S: "S = CHR ''-'' # utostr (- X) False"
      using utostr_numeral(2) [of "- X"] neg(2) by (auto simp: itostr_def split: if_splits)
    have "int (unat (- X)) = - sint X"
    proof -
      define n where "n = unat (- X)"
      then have "sint X = sint (- of_nat n :: u64)" "n < 2 ^ 64" using u64_less [of "- X"] by simp_all
      with sint_minus_of_nat [of n] neg(1) have "int n = - sint X" by (auto split: if_splits)
      then show ?thesis by (simp add: n_def)
    qed
    then have "signed_text_value 10 S = Some (sint X)"
      using text_value_utostr [of "- X"] by (simp add: S signed_text_value_def)
    then show ?thesis using short [of "- X"] npos by (intro getAsSignedInteger_Some) (simp_all add: S)
  next
    case False
    with assms have S: "S = utostr X False" by (simp add: itostr_def)
    obtain c T where c: "utostr X False = c # T" "c \<noteq> CHR ''-''" using digit by blast
    have "sint X = int (unat X)"
    proof -
      define n where "n = unat X"
      then have "sint X = sint (of_nat n :: u64)" "n < 2 ^ 64" using u64_less [of X] by simp_all
      with sint_of_nat_u64 [of n] False have "int n = sint X" by (auto simp: word_sless_alt split: if_splits)
      then show ?thesis by (simp add: n_def)
    qed
    then have "signed_text_value 10 S = Some (sint X)"
      using text_value_utostr [of X] c by (simp add: S signed_text_value_pos)
    then show ?thesis using short [of X] npos by (intro getAsSignedInteger_Some) (simp_all add: S)
  qed
qed

text \<open>C15: every parser of integers accepts exactly the numerals of the given radix, or with the prefix that selects the
  radix when it is to be sensed (\<open>0x\<close>, \<open>0b\<close>, \<open>0o\<close>, \<open>0\<close>, or none for ten), of the numbers its result type
  holds, and returns that number; the one into an \<open>APInt\<close> accepts them all. The meaning of a text is
  \<open>number_of\<close>, which does not use the code's digits and prefixes. The radix is at most 36, and six bits for
  each character stay below \<open>2 ^ 32\<close>.\<close>

theorem getAsInteger_correct:
  assumes "Radix = 0 \<or> 1 < Radix" and "Radix \<le> 36" and "6 * length S < 2 ^ 32" and "1 \<le> w" and "w \<le> 64"
  shows "getAsInteger_signed w S Radix =
      keep_if (\<lambda>n. - (2 ^ (w - 1)) \<le> n \<and> n < 2 ^ (w - 1)) (signed_number_of Radix S) \<and>
    getAsInteger_unsigned w S Radix = keep_if (\<lambda>n. n < 2 ^ w) (number_of Radix S) \<and>
    map_option snd (getAsInteger_APInt W S Radix) = number_of Radix S \<and>
    (case getAsInteger_APInt W S Radix of Some (W', n) \<Rightarrow> n < 2 ^ W' | None \<Rightarrow> True)"
proof -
  have len: "Radix < 2 ^ 32" "length S < npos" using assms(2,3) by (simp_all add: npos_def)
  then show ?thesis
    using getAsInteger_signed_value [of Radix S w] getAsInteger_unsigned_value [of Radix w S]
      getAsInteger_APInt_value [OF assms(1-3), of W] assms(4,5)
    unfolding text_value_number [OF len(2)] signed_text_value_number [OF len(2)]
    by (auto split: option.splits)
qed

lemma getAsInteger_correct_witness:
  "getAsInteger_signed 8 ''-128'' 10 = Some (- 128) \<and> getAsInteger_unsigned 8 ''0x100'' 0 = None"
proof -
  have "signed_number_of 10 ''-128'' = Some (- 128)" "number_of 0 ''0x100'' = Some 256" by code_simp+
  then show ?thesis
    using getAsInteger_correct [of 10 "''-128''" 8] getAsInteger_correct [of 0 "''0x100''" 8]
    by (simp add: keep_if_def)
qed

text \<open>C31: what the printers write, the parsers read back, with the radix given or sensed; the least signed
  number alone cannot be printed without undefined behaviour.\<close>

theorem print_parse_integers:
  "getAsUnsignedInteger (utostr X False) 10 = Some X \<and>
   getAsUnsignedInteger (utostr X False) 0 = Some X \<and>
   getAsUnsignedInteger (utohexstr X LowerCase) 16 = Some X \<and>
   getAsUnsignedInteger (''0x'' @ utohexstr X LowerCase) 0 = Some X \<and>
   map_option (\<lambda>S. getAsSignedInteger S 10) (itostr X) = (if sint X = - (2 ^ 63) then None else Some (Some X))"
proof -
  have "getAsUnsignedInteger S R = Some X" if "text_value R S = Some (unat X)" "R < 2 ^ 32" for R S
    using getAsUnsignedInteger_cases [OF that(2), of S] that(1) u64_less [of X] by simp
  moreover have "itostr X = None \<longleftrightarrow> sint X = - (2 ^ 63)"
    by (auto simp: itostr_def word_sless_alt)
  ultimately show ?thesis
    using text_value_utostr [of X] text_value_utohexstr [of X LowerCase] getAsSignedInteger_itostr [of X]
    by (cases "itostr X") auto
qed

section \<open>LEB128 round trips\<close>

lemma u8_ge_128: "128 \<le> b \<longleftrightarrow> bit b 7" for b :: u8
proof -
  have "unat b < 256" using unsigned_less [of b] by simp
  then have "unat b div 128 = (if 128 \<le> unat b then 1 else 0)" by (auto simp: le_div_geq)
  then have "128 \<le> unat b \<longleftrightarrow> odd (unat b div 128)" by simp
  then show ?thesis by (simp add: word_le_nat_alt bit_iff_odd_unat)
qed

lemma and_0x7f: "w AND 0x7f = take_bit 7 w" for w :: "'a::len word"
  by (simp add: take_bit_eq_mask mask_eq_exp_minus_1)

lemma bit_0x80: "bit (0x80 :: u8) n \<longleftrightarrow> n = 7"
proof -
  have e: "(0x80 :: u8) = push_bit 7 1" by (simp add: push_bit_eq_mult)
  show ?thesis unfolding e bit_push_bit_iff by (auto simp: bit_1_iff)
qed

text \<open>The byte of one round, with and without the continuation bit.\<close>

lemma leb_byte:
  fixes v :: u64
  shows "\<not> 128 \<le> (ucast (take_bit 7 v) :: u8)" and "128 \<le> (ucast (take_bit 7 v) OR 0x80 :: u8)"
    and "ucast (take_bit 7 (ucast (take_bit 7 v) :: u8)) = take_bit 7 v"
    and "ucast (take_bit 7 (ucast (take_bit 7 v) OR 0x80 :: u8)) = take_bit 7 v"
  by (auto simp: u8_ge_128 bit_0x80 bit_eq_iff bit_simps)

lemma getULEB128Size_length: "getULEB128Size_loop v k = k + length (encodeULEB128_loop v p)"
proof (induction v k rule: getULEB128Size_loop.induct)
  case (1 v k)
  show ?case
    by (cases "drop_bit 7 v = 0")
      (simp_all add: getULEB128Size_loop.simps [of v] encodeULEB128_loop.simps [of v] 1 Let_def)
qed

lemma getULEB128Size_pos: "0 < getULEB128Size v"
  unfolding getULEB128Size_def by (simp add: getULEB128Size_length [of v 0 0] encodeULEB128_loop.simps [of v] Let_def)

lemma getULEB128Size_step:
  "getULEB128Size v = (if drop_bit 7 v = 0 then 1 else 1 + getULEB128Size (drop_bit 7 v))"
  unfolding getULEB128Size_def by (simp add: getULEB128Size_length [of _ _ 0] encodeULEB128_loop.simps [of v] Let_def)

lemma push_bit_split: "push_bit s v = push_bit s (take_bit 7 v) + push_bit (s + 7) (drop_bit 7 v)" for v :: u64
proof -
  have "push_bit s v = push_bit s (push_bit 7 (drop_bit 7 v) + take_bit 7 v)" by (simp only: bits_ident)
  then show ?thesis by (simp add: push_bit_add add.commute)
qed

lemma decode_encode_loop:
  "decodeULEB128_loop (encodeULEB128_loop v p @ rest) acc s n =
    (if s + 7 * (getULEB128Size v - 1) < 64
     then if p \<noteq> 0 then decodeULEB128_loop rest (acc + push_bit s v) (s + 7 * getULEB128Size v) (n + getULEB128Size v)
          else Some (acc + push_bit s v, n + getULEB128Size v)
     else None)"
proof (induction v p arbitrary: acc s n rule: encodeULEB128_loop.induct)
  case (1 v p)
  show ?case
  proof (cases "drop_bit 7 v = 0")
    case True
    then have "push_bit s v = push_bit s (take_bit 7 v)" using push_bit_split [of s v] by simp
    then show ?thesis
      using True leb_byte [of v] by (simp add: encodeULEB128_loop.simps [of v] getULEB128Size_step [of v] Let_def and_0x7f)
  next
    case False
    have IH: "decodeULEB128_loop (encodeULEB128_loop (drop_bit 7 v) p @ rest) acc s n =
      (if s + 7 * (getULEB128Size (drop_bit 7 v) - 1) < 64
       then if p \<noteq> 0 then decodeULEB128_loop rest (acc + push_bit s (drop_bit 7 v))
                (s + 7 * getULEB128Size (drop_bit 7 v)) (n + getULEB128Size (drop_bit 7 v))
            else Some (acc + push_bit s (drop_bit 7 v), n + getULEB128Size (drop_bit 7 v))
       else None)" for acc s n
      using 1 [OF refl refl refl False] by simp
    have sz: "getULEB128Size v = 1 + getULEB128Size (drop_bit 7 v)" using False getULEB128Size_step [of v] by simp
    show ?thesis
      using False leb_byte [of v] getULEB128Size_pos [of "drop_bit 7 v"]
      by (auto simp: encodeULEB128_loop.simps [of v] sz Let_def and_0x7f IH push_bit_split [of s v] algebra_simps)
  qed
qed

lemma decode_padding:
  "decodeULEB128_loop (replicate k 0x80 @ 0 # rest) acc s n = (if s + 7 * k < 64 then Some (acc, n + k + 1) else None)"
  by (induction k arbitrary: s n) (auto simp: and_0x7f)

lemma getULEB128Size_le: "unat v < 2 ^ (7 * k) \<Longrightarrow> 0 < k \<Longrightarrow> getULEB128Size v \<le> k"
proof (induction k arbitrary: v)
  case (Suc k)
  show ?case
  proof (cases "drop_bit 7 v = 0")
    case False
    have "unat (drop_bit 7 v) < 2 ^ (7 * k)"
      using Suc.prems(1) unfolding unat_drop_bit by (simp add: div_less_iff_less_mult power_add)
    moreover from this False have "0 < k" by (cases k) (auto simp: unat_eq_0)
    ultimately show ?thesis using Suc.IH getULEB128Size_step [of v] False by simp
  qed (simp add: getULEB128Size_step [of v])
qed simp

text \<open>C39: decoding an encoded number gives it back with the number of bytes read, whatever follows, padding included,
  exactly when the code has at most ten bytes; a longer one makes the decoder shift by the width or more. The code
  has the length that \<open>getULEB128Size\<close> tells, plus the padding.\<close>

theorem ULEB128_round_trip:
  "decodeULEB128 (encodeULEB128 v Padding @ rest) =
     (if getULEB128Size v + Padding \<le> 10 then Some (v, getULEB128Size v + Padding) else None) \<and>
   length (encodeULEB128 v Padding) = getULEB128Size v + Padding \<and> getULEB128Size v \<le> 10"
proof -
  have "unat v < 2 ^ (7 * 10)" using u64_less [of v] by simp
  then have le: "getULEB128Size v \<le> 10" by (rule getULEB128Size_le) simp
  have len: "length (encodeULEB128_loop v p) = getULEB128Size v" for p
    using getULEB128Size_length [of v 0 p] by (simp add: getULEB128Size_def)
  show ?thesis
  proof (cases Padding)
    case 0
    then show ?thesis
      using le by (simp add: decodeULEB128_def encodeULEB128_def decode_encode_loop len)
  next
    case (Suc k)
    then show ?thesis
      using le getULEB128Size_pos [of v]
      by (auto simp: decodeULEB128_def encodeULEB128_def decode_encode_loop decode_padding len)
  qed
qed

lemma encodeSLEB128_step:
  "encodeSLEB128 v =
    (if - 64 \<le> sint v \<and> sint v < 64 then [ucast (take_bit 7 v)]
     else (ucast (take_bit 7 v) OR 0x80) # encodeSLEB128 (signed_drop_bit 7 v))"
  unfolding encodeSLEB128.simps [of v] Let_def fits_seven_bits unfolding and_0x7f by simp

lemma uint_take_bit_7: "uint (ucast (take_bit 7 v) :: u8) = sint v mod 128" for v :: u64
proof -
  have "uint (ucast (take_bit 7 v) :: u8) = take_bit 7 (uint v)"
    by (simp add: unsigned_ucast_eq unsigned_take_bit_eq)
  also have "\<dots> = take_bit 7 (sint v)" by (simp add: uint_sint)
  finally show ?thesis by (simp add: take_bit_eq_mod)
qed

lemma shift_byte_take_bit:
  "shift_byte (ucast (take_bit 7 v)) s =
    (if 32 \<le> s \<or> 2 ^ 32 \<le> sint v mod 128 * 2 ^ s then None
     else Some (scast (push_bit s (ucast (take_bit 7 v)) :: u32)))"
  "shift_byte (ucast (take_bit 7 v) OR 0x80) s = shift_byte (ucast (take_bit 7 v)) s" for v :: u64
proof -
  have t: "take_bit 7 (ucast (take_bit 7 v) :: u8) = ucast (take_bit 7 v)"
    "take_bit 7 (ucast (take_bit 7 v) OR 0x80 :: u8) = ucast (take_bit 7 v)"
    by (auto simp: bit_eq_iff bit_simps bit_0x80)
  have u: "ucast (ucast (take_bit 7 v) :: u8) = (ucast (take_bit 7 v) :: u32)"
    by (auto simp: bit_eq_iff bit_simps)
  show "shift_byte (ucast (take_bit 7 v)) s =
    (if 32 \<le> s \<or> 2 ^ 32 \<le> sint v mod 128 * 2 ^ s then None
     else Some (scast (push_bit s (ucast (take_bit 7 v)) :: u32)))"
    by (simp add: shift_byte_def and_0x7f t u uint_take_bit_7)
  show "shift_byte (ucast (take_bit 7 v) OR 0x80) s = shift_byte (ucast (take_bit 7 v)) s"
    by (simp add: shift_byte_def and_0x7f t)
qed

lemma bit_take_7_u32:
  "bit (scast (push_bit s (ucast (take_bit 7 v)) :: u32) :: u64) j \<longleftrightarrow>
    s \<le> min j 31 \<and> j < 64 \<and> min j 31 - s < 7 \<and> bit v (min j 31 - s)" for v :: u64
  by (auto simp: bit_simps min_def)

lemma shift_byte_low:
  fixes v :: u64
  assumes "s \<le> 21"
  shows "shift_byte (ucast (take_bit 7 v)) s = Some (push_bit s (take_bit 7 v))"
proof -
  have "sint v mod 128 * 2 ^ s \<le> 127 * 2 ^ 21"
    using assms pos_mod_bound [of 128 "sint v"] by (intro mult_mono power_increasing) auto
  moreover have "scast (push_bit s (ucast (take_bit 7 v)) :: u32) = push_bit s (take_bit 7 v)"
    using assms by (intro bit_eqI) (auto simp: bit_take_7_u32 bit_simps min_def)
  ultimately show ?thesis using assms by (simp add: shift_byte_take_bit)
qed

text \<open>One round of the decoder on what the encoder wrote.\<close>

lemma decode_encode_step:
  fixes w :: u64
  shows "decodeSLEB128_loop (encodeSLEB128 w @ rest) V s n =
    (case shift_byte (ucast (take_bit 7 w)) s of
       None \<Rightarrow> None
     | Some x \<Rightarrow>
         if - 64 \<le> sint w \<and> sint w < 64 then Some ((V OR x) OR (if sint w < 0 then push_bit (s + 7) (- 1) else 0), n + 1)
         else decodeSLEB128_loop (encodeSLEB128 (signed_drop_bit 7 w) @ rest) (V OR x) (s + 7) (n + 1))"
proof -
  have neg: "ucast (take_bit 7 w) AND (0x40 :: u8) = 0 \<longleftrightarrow> \<not> sint w < 0" if "- 64 \<le> sint w" "sint w < 64"
  proof -
    have "sint w div 64 = 0 \<or> sint w div 64 = - 1" using div_64_iff [of "sint w"] that by simp
    moreover have "sint w div 64 < 0 \<longleftrightarrow> sint w < 0" by (simp add: pos_imp_zdiv_neg_iff)
    ultimately have "odd (sint w div 64) \<longleftrightarrow> sint w < 0" by auto
    moreover have "bit (ucast (take_bit 7 w) :: u8) 6 \<longleftrightarrow> bit w 6" by (simp add: bit_simps)
    ultimately show ?thesis by (simp add: and_0x40_eq_0 bit6_sint [of w])
  qed
  define b :: u8 where "b = ucast (take_bit 7 w)"
  have byte: "\<not> 128 \<le> b" "128 \<le> b OR 0x80" "shift_byte (b OR 0x80) s = shift_byte b s"
    unfolding b_def by (rule leb_byte shift_byte_take_bit(2))+
  show ?thesis
  proof (cases "- 64 \<le> sint w \<and> sint w < 64")
    case True
    then have "encodeSLEB128 w = [b]" by (subst encodeSLEB128_step) (simp add: b_def)
    with True byte(1) neg show ?thesis by (cases "shift_byte b s") (simp_all add: Let_def flip: b_def)
  next
    case False
    then have "encodeSLEB128 w = (b OR 0x80) # encodeSLEB128 (signed_drop_bit 7 w)"
      by (subst encodeSLEB128_step) (auto simp: b_def)
    with byte(2,3) show ?thesis
      unfolding if_not_P [OF False] by (cases "shift_byte b s") (simp_all add: Let_def flip: b_def)
  qed
qed

lemma take_bit_append:
  fixes v :: u64
  assumes "s \<le> 57"
  shows "take_bit s v OR push_bit s (take_bit 7 (signed_drop_bit s v)) = take_bit (s + 7) v"
  using assms by (intro bit_eqI) (auto simp: bit_simps min_def not_less)

lemma sign_extension:
  fixes v :: u64
  assumes "- 64 \<le> sint (signed_drop_bit s v)" and "sint (signed_drop_bit s v) < 64" and "s \<le> 56"
  shows "take_bit (s + 7) v OR (if sint v < 0 then push_bit (s + 7) (- 1) else 0) = v"
proof -
  have "sint v div 2 ^ s div 64 = 0 \<or> sint v div 2 ^ s div 64 = - 1"
    using assms(1,2) div_64_iff by (simp add: sint_signed_drop_bit)
  then have q: "sint v div 2 ^ (s + 6) = 0 \<or> sint v div 2 ^ (s + 6) = - 1"
    by (simp add: power_add zdiv_zmult2_eq)
  have high: "bit v j \<longleftrightarrow> sint v < 0" if "s + 6 \<le> j" "j < 64" for j
  proof -
    have "(2::int) ^ j = 2 ^ (s + 6) * 2 ^ (j - (s + 6))" using that(1) by (simp flip: power_add)
    then have "sint v div 2 ^ j = sint v div 2 ^ (s + 6) div 2 ^ (j - (s + 6))" by (simp only: zdiv_zmult2_eq zero_le_power)
    then have "sint v div 2 ^ j = 0 \<or> sint v div 2 ^ j = - 1" using q by (auto simp: minus_1_div_exp_eq_int)
    moreover have "sint v div 2 ^ j < 0 \<longleftrightarrow> sint v < 0" by (simp add: pos_imp_zdiv_neg_iff)
    ultimately have "odd (sint v div 2 ^ j) \<longleftrightarrow> sint v < 0" by auto
    moreover have "bit v j \<longleftrightarrow> bit (sint v) j" using that(2) by (simp add: bit_sint_iff)
    ultimately show ?thesis by (simp add: bit_iff_odd)
  qed
  show ?thesis
  proof (rule bit_eqI)
    fix n
    assume "possible_bit TYPE(64 word) n"
    then show "bit (take_bit (s + 7) v OR (if sint v < 0 then push_bit (s + 7) (- 1) else 0)) n = bit v n"
      using assms(3) high [of n] by (cases "n < s + 7") (auto simp: bit_simps)
  qed
qed

text \<open>The rounds that shift by at most 21 bits are as intended.\<close>

lemma decode_encode_low:
  fixes v :: u64
  assumes "s \<le> 21"
  shows "decodeSLEB128_loop (encodeSLEB128 (signed_drop_bit s v) @ rest) (take_bit s v) s n =
    (if - 64 \<le> sint (signed_drop_bit s v) \<and> sint (signed_drop_bit s v) < 64 then Some (v, n + 1)
     else decodeSLEB128_loop (encodeSLEB128 (signed_drop_bit (s + 7) v) @ rest) (take_bit (s + 7) v) (s + 7) (n + 1))"
proof -
  have "sint (signed_drop_bit s v) < 0 \<longleftrightarrow> sint v < 0"
    by (simp add: sint_signed_drop_bit pos_imp_zdiv_neg_iff)
  moreover have "signed_drop_bit 7 (signed_drop_bit s v) = signed_drop_bit (s + 7) v"
    by (simp add: signed_drop_bit_signed_drop_bit add.commute)
  ultimately show ?thesis
    using sign_extension [of s v] assms take_bit_append [of s v]
    by (subst decode_encode_step) (simp only: shift_byte_low option.case, simp)
qed

lemma le_div_int_iff: "0 < p \<Longrightarrow> k \<le> x div p \<longleftrightarrow> k * p \<le> x" for x k p :: int
  using pos_imp_zdiv_nonneg_iff [of p "x + - k * p"] div_mult_self1 [of p x "- k"] by linarith

lemma fits_iff:
  "- 64 \<le> sint (signed_drop_bit s v) \<and> sint (signed_drop_bit s v) < 64 \<longleftrightarrow>
    - (2 ^ (s + 6)) \<le> sint v \<and> sint v < 2 ^ (s + 6)" for v :: u64
  using le_div_int_iff [of "2 ^ s" "- 64" "sint v"] le_div_int_iff [of "2 ^ s" 64 "sint v"]
  by (auto simp: sint_signed_drop_bit power_add mult.commute not_le)

lemma length_encodeSLEB128:
  "length (encodeSLEB128 (signed_drop_bit s v)) =
    (if - (2 ^ (s + 6)) \<le> sint v \<and> sint v < 2 ^ (s + 6) then 1
     else 1 + length (encodeSLEB128 (signed_drop_bit (s + 7) v)))" for v :: u64
  using fits_iff [of s v] by (subst encodeSLEB128_step) (simp add: add.commute)

lemma decode_encode_first:
  "decodeSLEB128 (encodeSLEB128 v @ rest) =
    (if - (2 ^ 27) \<le> sint v \<and> sint v < 2 ^ 27 then Some (v, length (encodeSLEB128 v))
     else decodeSLEB128_loop (encodeSLEB128 (signed_drop_bit 28 v) @ rest) (take_bit 28 v) 28 4)"
proof -
  note step = decode_encode_low [unfolded fits_iff, of _ v rest]
  note len = length_encodeSLEB128 [of 0 v] length_encodeSLEB128 [of 7 v] length_encodeSLEB128 [of 14 v]
    length_encodeSLEB128 [of 21 v]
  have four: "(4::nat) = Suc (Suc (Suc (Suc 0)))" by simp
  have "decodeSLEB128 (encodeSLEB128 v @ rest) =
      decodeSLEB128_loop (encodeSLEB128 (signed_drop_bit 0 v) @ rest) (take_bit 0 v) 0 0"
    by (simp add: decodeSLEB128_def)
  then show ?thesis
    using step [of 0 0] step [of 7 1] step [of 14 2] step [of 21 3] len
    by (simp add: numeral_2_eq_2 numeral_3_eq_3 four split: if_splits)
qed

lemma decode_encode_last:
  fixes v :: u64
  shows "decodeSLEB128_loop (encodeSLEB128 (signed_drop_bit 28 v) @ rest) (take_bit 28 v) 28 4 = Some (v, k) \<longleftrightarrow>
    0 \<le> sint v \<and> sint v < 2 ^ 31 \<and> k = 5"
proof -
  define w where "w = signed_drop_bit 28 v"
  let ?x = "scast (push_bit 28 (ucast (take_bit 7 w)) :: u32) :: u64"
  have range: "0 \<le> sint v \<and> sint v < 2 ^ 31 \<longleftrightarrow> 0 \<le> sint w \<and> sint w < 8"
    using le_div_int_iff [of "2 ^ 28" 8 "sint v"] le_div_int_iff [of "2 ^ 28" 0 "sint v"]
    by (auto simp: w_def sint_signed_drop_bit not_le)
  have bits: "bit w j \<longleftrightarrow> odd (sint w div 2 ^ j)" if "j < 64" for j
    using bit_sint_iff [of w j] that by (simp add: bit_iff_odd)
  have sb: "shift_byte (ucast (take_bit 7 w)) 28 = (if 16 \<le> sint w mod 128 then None else Some ?x)"
    by (simp add: shift_byte_take_bit)
  have late: "decodeSLEB128_loop (encodeSLEB128 u @ rest) V 35 n = None" for u V n
    by (subst decode_encode_step) (simp add: shift_byte_take_bit)
  have step: "decodeSLEB128_loop (encodeSLEB128 w @ rest) (take_bit 28 v) 28 4 =
      (if 0 \<le> sint w \<and> sint w < 16 then Some (take_bit 28 v OR ?x, 5) else None)"
  proof (cases "- 64 \<le> sint w \<and> sint w < 64")
    case True
    then have "sint w mod 128 = (if sint w < 0 then sint w + 128 else sint w)"
      using mod_pos_pos_trivial [of "sint w + 128" 128] by auto
    with True show ?thesis by (subst decode_encode_step) (auto simp: sb)
  next
    case False
    then show ?thesis by (subst decode_encode_step) (auto simp: sb late)
  qed
  show ?thesis
  proof (cases "0 \<le> sint w \<and> sint w < 8")
    case True
    have "\<not> bit w j" if "3 \<le> j" "j < 64" for j
    proof -
      have "(2::int) ^ 3 \<le> 2 ^ j" using that(1) by (intro power_increasing) auto
      with True have "sint w div 2 ^ j = 0" by (intro div_pos_pos_trivial) auto
      with that(2) show ?thesis by (simp add: bits)
    qed
    then have "?x = push_bit 28 (take_bit 7 w)"
      by (intro bit_eqI) (auto simp: bit_take_7_u32 bit_simps min_def)
    then have "take_bit 28 v OR ?x = v"
      using take_bit_append [of 28 v] sign_extension [of 28 v] True range by (simp add: w_def)
    with True step range show ?thesis by (auto simp: w_def)
  next
    case False
    have "take_bit 28 v OR ?x \<noteq> v" if "8 \<le> sint w" "sint w < 16"
    proof -
      have "sint w div 2 ^ 3 = 1" using that by (intro int_div_pos_eq [where r = "sint w - 8"]) simp_all
      then have "bit w 3" using bits [of 3] by simp
      then have "bit (take_bit 28 v OR ?x) 63" by (simp add: bit_or_iff bit_take_7_u32)
      moreover have "0 \<le> sint v"
        using that le_div_int_iff [of "2 ^ 28" 0 "sint v"] by (simp add: w_def sint_signed_drop_bit)
      then have "\<not> bit v 63" using bit_last_iff [of v] by simp
      ultimately show ?thesis by metis
    qed
    with False step range show ?thesis by (auto simp: w_def)
  qed
qed

lemma sign_word: "signed_drop_bit 63 v = (if sint v < 0 then - 1 else 0)" for v :: u64
proof (rule bit_eqI)
  fix n
  assume "possible_bit TYPE(64 word) n"
  then show "bit (signed_drop_bit 63 v) n = bit (if sint v < 0 then - 1 else 0 :: u64) n"
    using bit_last_iff [of v] by (cases n) (auto simp: bit_signed_drop_bit_iff)
qed

lemma is_more_iff:
  "signed_drop_bit 7 v \<noteq> signed_drop_bit 63 v \<or> ((v AND 0x7f) XOR signed_drop_bit 63 v) AND 0x40 \<noteq> 0 \<longleftrightarrow>
    \<not> (- 64 \<le> sint v \<and> sint v < 64)" for v :: u64
proof -
  have b: "(v AND 0x7f) AND 0x40 = 0 \<longleftrightarrow> ucast (v AND 0x7f) AND (0x40 :: u8) = 0"
    by (simp add: and_0x40_eq_0 bit_simps)
  have n: "((v AND 0x7f) XOR - 1) AND 0x40 = 0 \<longleftrightarrow> \<not> (ucast (v AND 0x7f) AND (0x40 :: u8) = 0)"
    by (simp only: and_0x40_eq_0) (simp add: bit_simps)
  have "sint v < 0" if "signed_drop_bit 7 v = - 1"
    using that sint_signed_drop_bit [of 7 v] pos_imp_zdiv_neg_iff [of 128 "sint v"] by simp
  moreover have "\<not> sint v < 0" if "signed_drop_bit 7 v = 0"
    using that sint_signed_drop_bit [of 7 v] pos_imp_zdiv_neg_iff [of 128 "sint v"] by simp
  ultimately show ?thesis
    unfolding fits_seven_bits [symmetric] sign_word using b n by (cases "sint v < 0") auto
qed

lemma getSLEB128Size_loop_length:
  "getSLEB128Size_loop v (signed_drop_bit 63 v) k = Some (k + length (encodeSLEB128 v))"
proof (induction v arbitrary: k rule: encodeSLEB128.induct)
  case (1 v)
  show ?case
  proof (cases "- 64 \<le> sint v \<and> sint v < 64")
    case True
    then have "encodeSLEB128 v = [ucast (take_bit 7 v)]" by (subst encodeSLEB128_step) simp
    moreover have "getSLEB128Size_loop v (signed_drop_bit 63 v) k = Some (k + 1)"
      unfolding getSLEB128Size_loop.simps [of v] is_more_iff using True by simp
    ultimately show ?thesis by simp
  next
    case False
    then have enc: "encodeSLEB128 v = (ucast (take_bit 7 v) OR 0x80) # encodeSLEB128 (signed_drop_bit 7 v)"
      by (subst encodeSLEB128_step) auto
    have "getSLEB128Size_loop v (signed_drop_bit 63 v) k =
        getSLEB128Size_loop (signed_drop_bit 7 v) (signed_drop_bit 63 v) (k + 1)"
      unfolding getSLEB128Size_loop.simps [of v] is_more_iff using False by simp
    moreover have "signed_drop_bit 63 v = signed_drop_bit 63 (signed_drop_bit 7 v)"
      by (simp only: sign_word sint_signed_drop_bit pos_imp_zdiv_neg_iff zero_less_power zero_less_numeral)
    moreover have "\<not> ((signed_drop_bit 7 v = 0 \<and> ucast (v AND 0x7f) AND (0x40 :: u8) = 0) \<or>
        (signed_drop_bit 7 v = - 1 \<and> ucast (v AND 0x7f) AND (0x40 :: u8) \<noteq> 0))"
      using False fits_seven_bits [of v] by blast
    ultimately show ?thesis using "1.IH" [OF refl refl refl refl, of "k + 1"] enc by simp
  qed
qed

text \<open>C30: the size function of signed numbers returns, and it and the coder agree. The decoder gives a signed
  number back exactly when it lies in \<open>[- (2 ^ 27), 2 ^ 31)\<close>: beyond that the shift of an \<open>int\<close> is undefined or
  the 32nd bit is taken for the sign.\<close>

theorem SLEB128_round_trip:
  "getSLEB128Size v = Some (length (encodeSLEB128 v)) \<and>
   (decodeSLEB128 (encodeSLEB128 v @ rest) = Some (v, length (encodeSLEB128 v)) \<longleftrightarrow>
     - (2 ^ 27) \<le> sint v \<and> sint v < 2 ^ 31)"
proof -
  have "length (encodeSLEB128 v) = 5" if "2 ^ 27 \<le> sint v" "sint v < 2 ^ 31"
    using that length_encodeSLEB128 [of 0 v] length_encodeSLEB128 [of 7 v] length_encodeSLEB128 [of 14 v]
      length_encodeSLEB128 [of 21 v] length_encodeSLEB128 [of 28 v] by simp
  moreover have "(2::int) ^ 27 < 2 ^ 31" by simp
  ultimately show ?thesis
    using decode_encode_first [of v rest] decode_encode_last [of v rest "length (encodeSLEB128 v)"]
      getSLEB128Size_loop_length [of v 0]
    by (auto simp: getSLEB128Size_def)
qed

end
