(* ===== verification/EditDistance.thy ===== *)
theory EditDistance
  imports StringFind
begin

text \<open>
  The edit distance of two sequences, \<open>ComputeEditDistance\<close> of \<open>include/llvm/ADT/edit_distance.h\<close>, and its
  instance \<open>StringRef::edit_distance\<close>.

  The two rows of the table are lists of \<open>unsigned\<close> words, of length \<open>n + 1\<close>, that change places after each row;
  a cell is written by index. The row that is not yet written holds zeroes in the model (in the code it is not
  initialised; no cell is read before it is written). The loop that fills the first row counts in
  \<open>unsigned\<close>, and ends for a second sequence below \<open>2 ^ 32 - 1\<close> elements, as the properties require.
\<close>

definition edit_cell :: "bool \<Rightarrow> bool \<Rightarrow> u32 \<Rightarrow> u32 \<Rightarrow> u32 \<Rightarrow> u32" where
  "edit_cell AllowReplacements same diagonal left up =
    (if AllowReplacements then min (diagonal + (if same then 0 else 1)) (min left up + 1)
     else if same then diagonal
     else min left up + 1)"

text \<open>One row, with the best cell of it.\<close>

definition edit_row :: "bool \<Rightarrow> 'a list \<Rightarrow> 'a list \<Rightarrow> nat \<Rightarrow> u32 list \<Rightarrow> u32 list \<Rightarrow> u32 list \<times> u32" where
  "edit_row AllowReplacements FromArray ToArray y Previous Current =
    for_upto 1 (length ToArray + 1)
      (\<lambda>x (Current, BestThisRow).
        let c = edit_cell AllowReplacements (FromArray ! (y - 1) = ToArray ! (x - 1))
                  (Previous ! (x - 1)) (Current ! (x - 1)) (Previous ! x)
        in (Current[x := c], min BestThisRow c))
      (Current[0 := of_nat y], of_nat y)"

function edit_rows :: "bool \<Rightarrow> u32 \<Rightarrow> 'a list \<Rightarrow> 'a list \<Rightarrow> nat \<Rightarrow> u32 list \<Rightarrow> u32 list \<Rightarrow> u32" where
  "edit_rows AllowReplacements MaxEditDistance FromArray ToArray y Previous Current =
    (if y \<le> length FromArray then
       let (Current, BestThisRow) = edit_row AllowReplacements FromArray ToArray y Previous Current
       in if MaxEditDistance \<noteq> 0 \<and> BestThisRow > MaxEditDistance then MaxEditDistance + 1
          else edit_rows AllowReplacements MaxEditDistance FromArray ToArray (y + 1) Current Previous
     else Previous ! length ToArray)"
  by pat_completeness auto
termination by (relation "measure (\<lambda>(_, _, F, _, y, _, _). length F + 1 - y)") auto

declare edit_rows.simps [simp del]

definition ComputeEditDistance :: "'a list \<Rightarrow> 'a list \<Rightarrow> bool \<Rightarrow> u32 \<Rightarrow> u32" where
  "ComputeEditDistance FromArray ToArray AllowReplacements MaxEditDistance =
    edit_rows AllowReplacements MaxEditDistance FromArray ToArray 1
      (map of_nat [0..<length ToArray + 1]) (replicate (length ToArray + 1) 0)"

definition edit_distance :: "string \<Rightarrow> string \<Rightarrow> bool \<Rightarrow> u32 \<Rightarrow> u32" where
  "edit_distance S Other AllowReplacements MaxEditDistance =
    ComputeEditDistance S Other AllowReplacements MaxEditDistance"

section \<open>The specification\<close>

text \<open>One edit, and what the distance is: the least number of edits.\<close>

inductive edit1 :: "bool \<Rightarrow> 'a list \<Rightarrow> 'a list \<Rightarrow> bool" for R where
  insertion: "edit1 R (u @ v) (u @ y # v)"
| removal: "edit1 R (u @ x # v) (u @ v)"
| replacement: "R \<Longrightarrow> edit1 R (u @ x # v) (u @ y # v)"

definition is_distance :: "bool \<Rightarrow> 'a list \<Rightarrow> 'a list \<Rightarrow> nat \<Rightarrow> bool" where
  "is_distance R xs ys d \<longleftrightarrow> (edit1 R ^^ d) xs ys \<and> (\<forall>k. (edit1 R ^^ k) xs ys \<longrightarrow> d \<le> k)"

text \<open>The recursion the table computes, on the reversed prefixes.\<close>

definition lev_cell :: "bool \<Rightarrow> bool \<Rightarrow> nat \<Rightarrow> nat \<Rightarrow> nat \<Rightarrow> nat" where
  "lev_cell AllowReplacements same diagonal left up =
    (if AllowReplacements then min (diagonal + (if same then 0 else 1)) (min left up + 1)
     else if same then diagonal
     else min left up + 1)"

fun lev :: "bool \<Rightarrow> 'a list \<Rightarrow> 'a list \<Rightarrow> nat" where
  "lev R [] ys = length ys"
| "lev R (x # xs) [] = Suc (length xs)"
| "lev R (x # xs) (y # ys) = lev_cell R (x = y) (lev R xs ys) (lev R (x # xs) ys) (lev R xs (y # ys))"

section \<open>The recursion gives the distance\<close>

lemma lev_Nil [simp]: "lev R xs [] = length xs"
  by (cases xs) auto

lemma lev_cell_Suc:
  "d \<le> Suc d' \<Longrightarrow> l \<le> Suc l' \<Longrightarrow> u \<le> Suc u' \<Longrightarrow> lev_cell R s d l u \<le> Suc (lev_cell R s d' l' u')"
  by (auto simp: lev_cell_def)

text \<open>Dropping the first element of either sequence changes the value by at most one.\<close>

lemma lev_shift:
  "lev R xs ys \<le> Suc (lev R (x # xs) ys) \<and> lev R xs ys \<le> Suc (lev R xs (y # ys)) \<and>
   lev R (x # xs) ys \<le> Suc (lev R xs ys) \<and> lev R xs (y # ys) \<le> Suc (lev R xs ys)"
proof (induction "length xs + length ys" arbitrary: xs ys x y rule: less_induct)
  case less
  have up2: "lev R xs (b # ys) \<le> Suc (lev R xs ys)" for b
  proof (cases xs)
    case (Cons a as)
    then have "lev R as ys \<le> Suc (lev R (a # as) ys)" using less [of as ys] by simp
    then show ?thesis by (auto simp: Cons lev_cell_def min_def)
  qed simp
  have up1: "lev R (a # xs) ys \<le> Suc (lev R xs ys)" for a
  proof (cases ys)
    case (Cons b bs)
    then have "lev R xs bs \<le> Suc (lev R xs (b # bs))" using less [of xs bs] by simp
    then show ?thesis by (auto simp: Cons lev_cell_def min_def)
  qed simp
  have down1: "lev R xs ys \<le> Suc (lev R (x # xs) ys)"
  proof (cases ys)
    case (Cons b bs)
    then have "lev R xs (b # bs) \<le> Suc (lev R xs bs)" "lev R xs bs \<le> Suc (lev R (x # xs) bs)"
      using less [of xs bs] by simp_all
    then show ?thesis by (auto simp: Cons lev_cell_def min_def)
  qed simp
  have down2: "lev R xs ys \<le> Suc (lev R xs (y # ys))"
  proof (cases xs)
    case (Cons a as)
    then have "lev R (a # as) ys \<le> Suc (lev R as ys)" "lev R as ys \<le> Suc (lev R as (y # ys))"
      using less [of as ys] by simp_all
    then show ?thesis by (auto simp: Cons lev_cell_def min_def)
  qed simp
  from up1 up2 down1 down2 show ?case by blast
qed

text \<open>So does one edit, wherever it is made.\<close>

lemma lev_prefix:
  assumes "\<And>zs. lev R xs zs \<le> Suc (lev R ys zs)"
  shows "lev R (u @ xs) zs \<le> Suc (lev R (u @ ys) zs)"
proof (induction u arbitrary: zs)
  case Nil
  show ?case using assms by simp
next
  case (Cons a u)
  show ?case
  proof (induction zs)
    case Nil
    show ?case using Cons.IH [of "[]"] by simp
  next
    case (Cons z zs)
    then show ?case using Cons.IH \<open>\<And>zs. lev R (u @ xs) zs \<le> Suc (lev R (u @ ys) zs)\<close>
      by (auto intro!: lev_cell_Suc)
  qed
qed

lemma lev_replace: "R \<Longrightarrow> lev R (x # v) zs \<le> Suc (lev R (y # v) zs)"
  by (induction zs) (auto simp: lev_cell_def min_def)

lemma lev_edit1: "edit1 R xs ys \<Longrightarrow> lev R xs zs \<le> Suc (lev R ys zs)"
proof (induction rule: edit1.induct)
  case (insertion u v y)
  show ?case by (intro lev_prefix) (rule lev_shift [THEN conjunct1])
next
  case (removal u x v)
  show ?case by (intro lev_prefix) (rule lev_shift [THEN conjunct2, THEN conjunct2, THEN conjunct1])
next
  case (replacement u x v y)
  show ?case by (intro lev_prefix) (rule lev_replace [OF replacement])
qed

lemma lev_self: "lev R xs xs = 0"
  by (induction xs) (auto simp: lev_cell_def)

lemma lev_le: "(edit1 R ^^ k) xs ys \<Longrightarrow> lev R xs ys \<le> k"
proof (induction k arbitrary: xs)
  case (Suc k)
  from Suc.prems obtain us where "edit1 R xs us" "(edit1 R ^^ k) us ys" by (rule relpowp_Suc_E2)
  with Suc.IH [of us] lev_edit1 [of R xs us ys] show ?case by simp
qed (simp add: lev_self)

lemma edit1_Cons: "edit1 R xs ys \<Longrightarrow> edit1 R (a # xs) (a # ys)"
  by (induction rule: edit1.induct) (metis append_Cons edit1.intros)+

lemma edits_Cons: "(edit1 R ^^ k) xs ys \<Longrightarrow> (edit1 R ^^ k) (a # xs) (a # ys)"
proof (induction k arbitrary: ys)
  case (Suc k)
  from Suc.prems obtain us where "(edit1 R ^^ k) xs us" "edit1 R us ys" by (rule relpowp_Suc_E)
  then show ?case by (intro relpowp_Suc_I [OF Suc.IH edit1_Cons])
qed simp

lemma edit1_front:
  "edit1 R (x # xs) xs" "edit1 R xs (x # xs)" "R \<Longrightarrow> edit1 R (x # xs) (y # xs)"
  by (metis append_Nil edit1.intros)+

lemma edits_lev: "(edit1 R ^^ lev R xs ys) xs ys"
proof (induction R xs ys rule: lev.induct)
  case (1 R ys)
  show ?case
  proof (induction ys)
    case (Cons y ys)
    then have "(edit1 R ^^ Suc (length ys)) [] (y # ys)" using edit1_front(2) by (intro relpowp_Suc_I) auto
    then show ?case by simp
  qed simp
next
  case (2 R x xs)
  have "(edit1 R ^^ length zs) zs []" for zs :: "'a list"
  proof (induction zs)
    case (Cons z zs)
    from relpowp_Suc_I2 [OF edit1_front(1) this] show ?case by simp
  qed simp
  from this [of "x # xs"] show ?case by simp
next
  case (3 R x xs y ys)
  have "(edit1 R ^^ Suc (lev R (x # xs) ys)) (x # xs) (y # ys)"
    by (rule relpowp_Suc_I [OF "3.IH"(2) edit1_front(2)])
  moreover have "(edit1 R ^^ Suc (lev R xs (y # ys))) (x # xs) (y # ys)"
    by (rule relpowp_Suc_I2 [OF edit1_front(1) "3.IH"(3)])
  moreover have "(edit1 R ^^ lev R xs ys) (x # xs) (x # ys)"
    by (rule edits_Cons [OF "3.IH"(1)])
  moreover have "(edit1 R ^^ Suc (lev R xs ys)) (x # xs) (y # ys)" if R
    by (rule relpowp_Suc_I2 [OF edit1_front(3) [OF that] edits_Cons [OF "3.IH"(1)]])
  ultimately show ?case by (auto simp: lev_cell_def min_def)
qed

lemma lev_is_distance: "is_distance R xs ys (lev R xs ys)"
  using edits_lev lev_le by (auto simp: is_distance_def)

text \<open>The distance does not depend on the direction the sequences are read in.\<close>

lemma edit1_rev: "edit1 R xs ys \<Longrightarrow> edit1 R (rev xs) (rev ys)"
proof (induction rule: edit1.induct)
  case (insertion u v y)
  show ?case using edit1.insertion [of R "rev v" "rev u" y] by simp
next
  case (removal u x v)
  show ?case using edit1.removal [of R "rev v" x "rev u"] by simp
next
  case (replacement u x v y)
  then show ?case using edit1.replacement [of R "rev v" x "rev u" y] by simp
qed

lemma edits_rev: "(edit1 R ^^ k) xs ys \<Longrightarrow> (edit1 R ^^ k) (rev xs) (rev ys)"
proof (induction k arbitrary: ys)
  case (Suc k)
  from Suc.prems obtain us where "(edit1 R ^^ k) xs us" "edit1 R us ys" by (rule relpowp_Suc_E)
  then show ?case by (intro relpowp_Suc_I [OF Suc.IH edit1_rev])
qed simp

lemma is_distance_rev: "is_distance R (rev xs) (rev ys) d \<Longrightarrow> is_distance R xs ys d"
  using edits_rev [of _ R xs ys] edits_rev [of d R "rev xs" "rev ys"] by (auto simp: is_distance_def)

section \<open>The table\<close>

text \<open>The entry for the first \<open>i\<close> and the first \<open>j\<close> elements.\<close>

definition entry :: "bool \<Rightarrow> 'a list \<Rightarrow> 'a list \<Rightarrow> nat \<Rightarrow> nat \<Rightarrow> nat" where
  "entry R F T i j = lev R (rev (take i F)) (rev (take j T))"

lemma entry_0: "i \<le> length F \<Longrightarrow> entry R F T i 0 = i" "j \<le> length T \<Longrightarrow> entry R F T 0 j = j"
  by (simp_all add: entry_def)

lemma entry_Suc:
  "i < length F \<Longrightarrow> j < length T \<Longrightarrow> entry R F T (Suc i) (Suc j) =
    lev_cell R (F ! i = T ! j) (entry R F T i j) (entry R F T (Suc i) j) (entry R F T i (Suc j))"
  by (simp add: entry_def take_Suc_conv_app_nth)

text \<open>No entry exceeds the number of elements, so the words do not wrap around.\<close>

lemma lev_bound: "lev R xs ys \<le> length xs + length ys"
  by (induction R xs ys rule: lev.induct) (auto simp: lev_cell_def)

lemma entry_bound: "i \<le> length F \<Longrightarrow> j \<le> length T \<Longrightarrow> entry R F T i j \<le> i + j"
  using lev_bound [of R "rev (take i F)" "rev (take j T)"] by (simp add: entry_def)

lemma unat_min: "unat (min a b) = min (unat a) (unat b)" for a b :: "'a::len word"
  by (simp add: min_def word_le_nat_alt)

lemma u32_below: "unat a < 2 ^ 32" for a :: u32
  using unsigned_less [of a] by simp

lemma unat_add_one: "unat a + 1 < 2 ^ 32 \<Longrightarrow> unat (a + 1) = unat a + 1" for a :: u32
  using unat_add_lem [of a 1] by simp

lemma unat_edit_cell:
  assumes "unat d + 1 < 2 ^ 32" and "unat l + 1 < 2 ^ 32" and "unat u + 1 < 2 ^ 32"
  shows "unat (edit_cell R s d l u) = lev_cell R s (unat d) (unat l) (unat u)"
proof -
  have "unat (min l u) + 1 < 2 ^ 32" using assms by (simp add: unat_min)
  then show ?thesis
    using unat_add_one [OF assms(1)] unat_add_one [of "min l u"] by (simp add: edit_cell_def lev_cell_def unat_min)
qed

lemma edit_row_entries:
  assumes small: "length F + length T < 2 ^ 32 - 1"
    and y: "1 \<le> y" "y \<le> length F" and P: "length Previous = length T + 1" "length Current = length T + 1"
    and prev: "\<And>j. j \<le> length T \<Longrightarrow> unat (Previous ! j) = entry R F T (y - 1) j"
    and row: "edit_row R F T y Previous Current = (C, Best)"
  shows "length C = length T + 1 \<and> (\<forall>j \<le> length T. unat (C ! j) = entry R F T y j) \<and>
    (\<forall>j \<le> length T. unat Best \<le> entry R F T y j) \<and> (\<exists>j \<le> length T. unat Best = entry R F T y j)"
proof -
  have ew: "entry R F T i j + 1 < 2 ^ 32" if "i \<le> length F" "j \<le> length T" for i j
    using entry_bound [OF that, of R] that small by simp
  let ?I = "\<lambda>x (C :: u32 list, Best :: u32). length C = length T + 1 \<and> (\<forall>j < x. unat (C ! j) = entry R F T y j) \<and>
    (\<forall>j < x. unat Best \<le> entry R F T y j) \<and> (\<exists>j < x. unat Best = entry R F T y j)"
  have "?I (length T + 1) (edit_row R F T y Previous Current)"
    unfolding edit_row_def
  proof (rule for_upto_invariant [where P = ?I])
    have "unat (of_nat y :: u32) = y" using y small by (simp add: unat_of_nat)
    then show "?I 1 (Current[0 := of_nat y], of_nat y)" using P y entry_0(1) [of y F R T] by (auto simp: less_Suc_eq)
  next
    fix x and s :: "u32 list \<times> u32"
    assume x: "1 \<le> x" "x < length T + 1" and "?I x s"
    obtain C Best where s: "s = (C, Best)" by (cases s)
    let ?c = "edit_cell R (F ! (y - 1) = T ! (x - 1)) (Previous ! (x - 1)) (C ! (x - 1)) (Previous ! x)"
    have C: "length C = length T + 1" "\<forall>j < x. unat (C ! j) = entry R F T y j" "\<forall>j < x. unat Best \<le> entry R F T y j"
      "\<exists>j < x. unat Best = entry R F T y j"
      using \<open>?I x s\<close> by (simp_all add: s)
    have in3: "unat (Previous ! (x - 1)) = entry R F T (y - 1) (x - 1)" "unat (C ! (x - 1)) = entry R F T y (x - 1)"
      "unat (Previous ! x) = entry R F T (y - 1) x"
      using prev [of x] prev [of "x - 1"] C(2) x by simp_all
    have "unat ?c = lev_cell R (F ! (y - 1) = T ! (x - 1)) (entry R F T (y - 1) (x - 1)) (entry R F T y (x - 1)) (entry R F T (y - 1) x)"
      using unat_edit_cell [of "Previous ! (x - 1)" "C ! (x - 1)" "Previous ! x" R "F ! (y - 1) = T ! (x - 1)", unfolded in3]
        ew [of "y - 1" "x - 1"] ew [of y "x - 1"] ew [of "y - 1" x] x y by simp
    moreover obtain y' x' where "y = Suc y'" "x = Suc x'" using x y by (cases y; cases x) auto
    ultimately have "unat ?c = entry R F T y x"
      using entry_Suc [of y' F x' T R] x y by simp
    then show "?I (Suc x) (case s of (C, Best) \<Rightarrow> let c = edit_cell R (F ! (y - 1) = T ! (x - 1))
        (Previous ! (x - 1)) (C ! (x - 1)) (Previous ! x) in (C[x := c], min Best c))"
      using C x unat_min [of Best ?c]
      by (cases "unat Best \<le> unat ?c") (auto simp: s Let_def less_Suc_eq nth_list_update intro: order_trans)
  qed simp
  then show ?thesis by (simp add: row less_Suc_eq_le)
qed

text \<open>The best entry of a row never gets smaller in the next one, which justifies the early exit.\<close>

lemma row_bound_step:
  assumes "\<forall>j \<le> length T. b \<le> entry R F T y j" and "y < length F" and "j \<le> length T"
  shows "b \<le> entry R F T (Suc y) j"
  using assms(3)
proof (induction j)
  case 0
  have "b \<le> entry R F T y 0" using assms(1) by blast
  with assms(2) show ?case by (simp add: entry_0)
next
  case (Suc j)
  then have "b \<le> entry R F T y j" "b \<le> entry R F T (Suc y) j" "b \<le> entry R F T y (Suc j)"
    using assms(1) by simp_all
  then show ?case using Suc.prems assms(2) by (auto simp: entry_Suc lev_cell_def)
qed

lemma row_bound:
  assumes "\<forall>j \<le> length T. b \<le> entry R F T y j" and "y \<le> length F"
  shows "b \<le> entry R F T (length F) (length T)"
proof -
  have "\<forall>j \<le> length T. b \<le> entry R F T (y + k) j" if "y + k \<le> length F" for k
    using that
  proof (induction k)
    case (Suc k)
    then show ?case using row_bound_step [of T b R F "y + k"] by simp
  qed (simp add: assms(1))
  from this [of "length F - y"] assms(2) show ?thesis by simp
qed

text \<open>When the routine gives up: some row lies above the maximum as a whole.\<close>

definition row_above :: "bool \<Rightarrow> 'a list \<Rightarrow> 'a list \<Rightarrow> nat \<Rightarrow> nat \<Rightarrow> bool" where
  "row_above R F T m i \<longleftrightarrow> (\<forall>j \<le> length T. m < entry R F T i j)"

lemma ex_from: "(\<exists>i \<ge> y. P i) \<longleftrightarrow> P y \<or> (\<exists>i \<ge> y + 1. P i)" for y :: nat
  by (metis Suc_eq_plus1 le_refl not_less_eq_eq order_antisym_conv le_SucI)

lemma edit_rows_result:
  assumes small: "length F + length T < 2 ^ 32 - 1"
    and "1 \<le> y" "y \<le> length F + 1" and "length Previous = length T + 1" "length Current = length T + 1"
    and "\<forall>j \<le> length T. unat (Previous ! j) = entry R F T (y - 1) j"
  shows "unat (edit_rows R MaxD F T y Previous Current) =
    (if MaxD \<noteq> 0 \<and> (\<exists>i. y \<le> i \<and> i \<le> length F \<and> row_above R F T (unat MaxD) i)
     then unat MaxD + 1 else entry R F T (length F) (length T))"
  using assms
proof (induction R MaxD F T y Previous Current rule: edit_rows.induct)
  case (1 R MaxD F T y Previous Current)
  show ?case
  proof (cases "y \<le> length F")
    case False
    then have "y = length F + 1" using "1.prems"(3) by simp
    with "1.prems"(6) show ?thesis by (subst edit_rows.simps) auto
  next
    case True
    obtain C Best where row: "edit_row R F T y Previous Current = (C, Best)" by fastforce
    note C = edit_row_entries [OF "1.prems"(1,2) True "1.prems"(4,5) _ row] "1.prems"(6)
    have above: "row_above R F T (unat MaxD) y \<longleftrightarrow> MaxD < Best"
      using C by (fastforce simp: row_above_def word_less_nat_alt)
    show ?thesis
    proof (cases "MaxD \<noteq> 0 \<and> MaxD < Best")
      case exit: True
      have "unat MaxD + 1 < 2 ^ 32"
        using exit u32_below [of Best] by (simp add: word_less_nat_alt)
      with exit True row above show ?thesis by (auto simp: edit_rows.simps [of _ _ _ _ y] unat_add_one)
    next
      case False
      have step: "edit_rows R MaxD F T y Previous Current = edit_rows R MaxD F T (y + 1) C Previous"
        using False True row by (auto simp: edit_rows.simps [of _ _ _ _ y])
      have rest: "MaxD \<noteq> 0 \<and> (\<exists>i. y \<le> i \<and> i \<le> length F \<and> row_above R F T (unat MaxD) i) \<longleftrightarrow>
          MaxD \<noteq> 0 \<and> (\<exists>i. y + 1 \<le> i \<and> i \<le> length F \<and> row_above R F T (unat MaxD) i)"
        using False above ex_from [of y "\<lambda>i. i \<le> length F \<and> row_above R F T (unat MaxD) i"] by blast
      show ?thesis unfolding step rest
        using "1.IH" [OF True row [symmetric] refl] C "1.prems" True False by auto
    qed
  qed
qed

text \<open>Some prefix of the first sequence, not the empty one, is farther than \<open>m\<close> from every prefix of the second.\<close>

definition far_prefix :: "bool \<Rightarrow> 'a list \<Rightarrow> 'a list \<Rightarrow> nat \<Rightarrow> bool" where
  "far_prefix R F T m \<longleftrightarrow> (\<exists>i \<in> {1..length F}. \<forall>j \<le> length T. \<forall>d. is_distance R (take i F) (take j T) d \<longrightarrow> m < d)"

lemma entry_is_distance: "is_distance R (take i F) (take j T) (entry R F T i j)"
  using lev_is_distance [of R "rev (take i F)" "rev (take j T)"] by (simp add: entry_def is_distance_rev)

lemma is_distance_unique: "is_distance R xs ys d \<Longrightarrow> is_distance R xs ys e \<Longrightarrow> d = e"
  by (auto simp: is_distance_def intro: le_antisym)

lemma far_prefix_rows: "far_prefix R F T m \<longleftrightarrow> (\<exists>i. 1 \<le> i \<and> i \<le> length F \<and> row_above R F T m i)"
  unfolding far_prefix_def row_above_def Bex_def atLeastAtMost_iff using entry_is_distance is_distance_unique by metis

text \<open>C18: the routine returns the least number of insertions, removals and (where allowed) replacements that
  turn one sequence into the other. With a maximum it gives up with the maximum plus one exactly when some prefix
  of the first sequence is farther than the maximum from every prefix of the second, in which case the
  distance is above the maximum; otherwise the result is the distance, whether above the maximum or not. The
  entries are \<open>unsigned\<close>; the sequences together have fewer than \<open>2 ^ 32 - 1\<close> elements.\<close>

theorem ComputeEditDistance_least:
  assumes "length F + length T < 2 ^ 32 - 1"
  shows "\<exists>d. is_distance R F T d \<and>
    unat (ComputeEditDistance F T R MaxD) = (if MaxD \<noteq> 0 \<and> far_prefix R F T (unat MaxD) then unat MaxD + 1 else d) \<and>
    (far_prefix R F T (unat MaxD) \<longrightarrow> unat MaxD < d)"
proof (intro exI conjI)
  show "is_distance R F T (entry R F T (length F) (length T))"
    using entry_is_distance [of R "length F" F "length T" T] by simp
  have "unat (map of_nat [0..<length T + 1] ! j :: u32) = j" if "j \<le> length T" for j
    using that assms by (simp add: unat_of_nat del: upt_Suc)
  then show "unat (ComputeEditDistance F T R MaxD) =
      (if MaxD \<noteq> 0 \<and> far_prefix R F T (unat MaxD) then unat MaxD + 1 else entry R F T (length F) (length T))"
    using edit_rows_result [OF assms, of 1 "map of_nat [0..<length T + 1]" "replicate (length T + 1) 0" R MaxD]
    by (simp add: ComputeEditDistance_def entry_0 far_prefix_rows del: upt_Suc)
  show "far_prefix R F T (unat MaxD) \<longrightarrow> unat MaxD < entry R F T (length F) (length T)"
    using row_bound [of T "unat MaxD + 1" R F] by (auto simp: far_prefix_rows row_above_def Suc_le_eq)
qed

theorem ComputeEditDistance_least_witness:
  "\<exists>d. is_distance True ''kitten'' ''sitting'' d \<and> unat (ComputeEditDistance ''kitten'' ''sitting'' True 0) = d"
  using ComputeEditDistance_least [of "''kitten''" "''sitting''" True 0] by auto

text \<open>Above the maximum the result need not be \<open>MaxEditDistance + 1\<close>.\<close>

lemma ComputeEditDistance_above_maximum: "ComputeEditDistance [] ''abc'' True 1 = 3"
  by (simp add: ComputeEditDistance_def edit_rows.simps upt_conv_Cons)

end
