(* ===== verification/TargetTriple.thy ===== *)
theory TargetTriple
  imports NumberFormats
begin

text \<open>
  Target triples (\<open>include/llvm/ADT/Triple.h\<close>, \<open>lib/Support/Triple.cpp\<close>): the enumerations with their names and
  parsers, the class with its constructors, accessors, predicates and setters, the versions of the operating
  system, the 32 and 64 bit variants of an architecture, and the normalisation of a triple's string.

  A triple is the record of its string and the six values parsed from it. A setter returns the new triple. The
  parsers are the string switches of the code, with \<open>Cases\<close> written as one case per name. The accessors of
  the components work on the string alone. A null \<open>StringRef\<close>, what \<open>split\<close> returns second when there is no
  separator, is the empty string to all of them.
\<close>

section \<open>The enumerations\<close>

datatype ArchType =
    UnknownArch | arm | armeb | aarch64 | aarch64_be | bpf | hexagon | mips | mipsel | mips64 | mips64el
    | msp430 | ppc | ppc64 | ppc64le | r600 | amdgcn | sparc | sparcv9 | systemz | tce | thumb | thumbeb | x86
    | x86_64 | xcore | nvptx | nvptx64 | le32 | le64 | amdil | amdil64 | hsail | hsail64 | spir | spir64
    | kalimba

datatype SubArchType =
    NoSubArch | ARMSubArch_v8_1a | ARMSubArch_v8 | ARMSubArch_v7 | ARMSubArch_v7em | ARMSubArch_v7m
    | ARMSubArch_v7s | ARMSubArch_v6 | ARMSubArch_v6m | ARMSubArch_v6k | ARMSubArch_v6t2 | ARMSubArch_v5
    | ARMSubArch_v5te | ARMSubArch_v4t | KalimbaSubArch_v3 | KalimbaSubArch_v4 | KalimbaSubArch_v5

datatype VendorType =
    UnknownVendor | Apple | PC | SCEI | BGP | BGQ | Freescale | IBM | ImaginationTechnologies
    | MipsTechnologies | NVIDIA | CSR

datatype OSType =
    UnknownOS | CloudABI | Darwin | DragonFly | FreeBSD | IOS | KFreeBSD | Linux | Lv2 | MacOSX | NetBSD
    | OpenBSD | Solaris | Win32 | Haiku | Minix | RTEMS | NaCl | CNK | Bitrig | AIX | CUDA | NVCL | AMDHSA
    | PS4

datatype EnvironmentType =
    UnknownEnvironment | GNU | GNUEABI | GNUEABIHF | GNUX32 | CODE16 | EABI | EABIHF | Android | MSVC | Itanium
    | Cygnus

datatype ObjectFormatType =
    UnknownObjectFormat | COFF | ELF | MachO

section \<open>Names\<close>

fun getArchTypeName :: "ArchType \<Rightarrow> string" where
  "getArchTypeName UnknownArch = ''unknown''"
| "getArchTypeName aarch64 = ''aarch64''"
| "getArchTypeName aarch64_be = ''aarch64_be''"
| "getArchTypeName arm = ''arm''"
| "getArchTypeName armeb = ''armeb''"
| "getArchTypeName bpf = ''bpf''"
| "getArchTypeName hexagon = ''hexagon''"
| "getArchTypeName mips = ''mips''"
| "getArchTypeName mipsel = ''mipsel''"
| "getArchTypeName mips64 = ''mips64''"
| "getArchTypeName mips64el = ''mips64el''"
| "getArchTypeName msp430 = ''msp430''"
| "getArchTypeName ppc64 = ''powerpc64''"
| "getArchTypeName ppc64le = ''powerpc64le''"
| "getArchTypeName ppc = ''powerpc''"
| "getArchTypeName r600 = ''r600''"
| "getArchTypeName amdgcn = ''amdgcn''"
| "getArchTypeName sparc = ''sparc''"
| "getArchTypeName sparcv9 = ''sparcv9''"
| "getArchTypeName systemz = ''s390x''"
| "getArchTypeName tce = ''tce''"
| "getArchTypeName thumb = ''thumb''"
| "getArchTypeName thumbeb = ''thumbeb''"
| "getArchTypeName x86 = ''i386''"
| "getArchTypeName x86_64 = ''x86_64''"
| "getArchTypeName xcore = ''xcore''"
| "getArchTypeName nvptx = ''nvptx''"
| "getArchTypeName nvptx64 = ''nvptx64''"
| "getArchTypeName le32 = ''le32''"
| "getArchTypeName le64 = ''le64''"
| "getArchTypeName amdil = ''amdil''"
| "getArchTypeName amdil64 = ''amdil64''"
| "getArchTypeName hsail = ''hsail''"
| "getArchTypeName hsail64 = ''hsail64''"
| "getArchTypeName spir = ''spir''"
| "getArchTypeName spir64 = ''spir64''"
| "getArchTypeName kalimba = ''kalimba''"

fun getArchTypePrefix :: "ArchType \<Rightarrow> string option" where
  "getArchTypePrefix UnknownArch = None"
| "getArchTypePrefix arm = Some ''arm''"
| "getArchTypePrefix armeb = Some ''arm''"
| "getArchTypePrefix aarch64 = Some ''aarch64''"
| "getArchTypePrefix aarch64_be = Some ''aarch64''"
| "getArchTypePrefix bpf = Some ''bpf''"
| "getArchTypePrefix hexagon = Some ''hexagon''"
| "getArchTypePrefix mips = Some ''mips''"
| "getArchTypePrefix mipsel = Some ''mips''"
| "getArchTypePrefix mips64 = Some ''mips''"
| "getArchTypePrefix mips64el = Some ''mips''"
| "getArchTypePrefix msp430 = None"
| "getArchTypePrefix ppc = Some ''ppc''"
| "getArchTypePrefix ppc64 = Some ''ppc''"
| "getArchTypePrefix ppc64le = Some ''ppc''"
| "getArchTypePrefix r600 = Some ''amdgpu''"
| "getArchTypePrefix amdgcn = Some ''amdgpu''"
| "getArchTypePrefix sparc = Some ''sparc''"
| "getArchTypePrefix sparcv9 = Some ''sparc''"
| "getArchTypePrefix systemz = Some ''s390''"
| "getArchTypePrefix tce = None"
| "getArchTypePrefix thumb = Some ''arm''"
| "getArchTypePrefix thumbeb = Some ''arm''"
| "getArchTypePrefix x86 = Some ''x86''"
| "getArchTypePrefix x86_64 = Some ''x86''"
| "getArchTypePrefix xcore = Some ''xcore''"
| "getArchTypePrefix nvptx = Some ''nvptx''"
| "getArchTypePrefix nvptx64 = Some ''nvptx''"
| "getArchTypePrefix le32 = Some ''le32''"
| "getArchTypePrefix le64 = Some ''le64''"
| "getArchTypePrefix amdil = Some ''amdil''"
| "getArchTypePrefix amdil64 = Some ''amdil''"
| "getArchTypePrefix hsail = Some ''hsail''"
| "getArchTypePrefix hsail64 = Some ''hsail''"
| "getArchTypePrefix spir = Some ''spir''"
| "getArchTypePrefix spir64 = Some ''spir''"
| "getArchTypePrefix kalimba = Some ''kalimba''"

fun getVendorTypeName :: "VendorType \<Rightarrow> string" where
  "getVendorTypeName UnknownVendor = ''unknown''"
| "getVendorTypeName Apple = ''apple''"
| "getVendorTypeName PC = ''pc''"
| "getVendorTypeName SCEI = ''scei''"
| "getVendorTypeName BGP = ''bgp''"
| "getVendorTypeName BGQ = ''bgq''"
| "getVendorTypeName Freescale = ''fsl''"
| "getVendorTypeName IBM = ''ibm''"
| "getVendorTypeName ImaginationTechnologies = ''img''"
| "getVendorTypeName MipsTechnologies = ''mti''"
| "getVendorTypeName NVIDIA = ''nvidia''"
| "getVendorTypeName CSR = ''csr''"

fun getOSTypeName :: "OSType \<Rightarrow> string" where
  "getOSTypeName UnknownOS = ''unknown''"
| "getOSTypeName CloudABI = ''cloudabi''"
| "getOSTypeName Darwin = ''darwin''"
| "getOSTypeName DragonFly = ''dragonfly''"
| "getOSTypeName FreeBSD = ''freebsd''"
| "getOSTypeName IOS = ''ios''"
| "getOSTypeName KFreeBSD = ''kfreebsd''"
| "getOSTypeName Linux = ''linux''"
| "getOSTypeName Lv2 = ''lv2''"
| "getOSTypeName MacOSX = ''macosx''"
| "getOSTypeName NetBSD = ''netbsd''"
| "getOSTypeName OpenBSD = ''openbsd''"
| "getOSTypeName Solaris = ''solaris''"
| "getOSTypeName Win32 = ''windows''"
| "getOSTypeName Haiku = ''haiku''"
| "getOSTypeName Minix = ''minix''"
| "getOSTypeName RTEMS = ''rtems''"
| "getOSTypeName NaCl = ''nacl''"
| "getOSTypeName CNK = ''cnk''"
| "getOSTypeName Bitrig = ''bitrig''"
| "getOSTypeName AIX = ''aix''"
| "getOSTypeName CUDA = ''cuda''"
| "getOSTypeName NVCL = ''nvcl''"
| "getOSTypeName AMDHSA = ''amdhsa''"
| "getOSTypeName PS4 = ''ps4''"

fun getEnvironmentTypeName :: "EnvironmentType \<Rightarrow> string" where
  "getEnvironmentTypeName UnknownEnvironment = ''unknown''"
| "getEnvironmentTypeName GNU = ''gnu''"
| "getEnvironmentTypeName GNUEABIHF = ''gnueabihf''"
| "getEnvironmentTypeName GNUEABI = ''gnueabi''"
| "getEnvironmentTypeName GNUX32 = ''gnux32''"
| "getEnvironmentTypeName CODE16 = ''code16''"
| "getEnvironmentTypeName EABI = ''eabi''"
| "getEnvironmentTypeName EABIHF = ''eabihf''"
| "getEnvironmentTypeName Android = ''android''"
| "getEnvironmentTypeName MSVC = ''msvc''"
| "getEnvironmentTypeName Itanium = ''itanium''"
| "getEnvironmentTypeName Cygnus = ''cygnus''"

fun getObjectFormatTypeName :: "ObjectFormatType \<Rightarrow> string" where
  "getObjectFormatTypeName UnknownObjectFormat = ''''"
| "getObjectFormatTypeName COFF = ''coff''"
| "getObjectFormatTypeName ELF = ''elf''"
| "getObjectFormatTypeName MachO = ''macho''"

section \<open>Parsers\<close>

definition getArchTypeForLLVMName :: "string \<Rightarrow> ArchType" where
  "getArchTypeForLLVMName Name =
    StringSwitch Name
     [Case ''aarch64'' aarch64, Case ''aarch64_be'' aarch64_be, Case ''arm64'' aarch64, Case ''arm'' arm,
      Case ''armeb'' armeb, Case ''bpf'' bpf, Case ''mips'' mips, Case ''mipsel'' mipsel,
      Case ''mips64'' mips64, Case ''mips64el'' mips64el, Case ''msp430'' msp430, Case ''ppc64'' ppc64,
      Case ''ppc32'' ppc, Case ''ppc'' ppc, Case ''ppc64le'' ppc64le, Case ''r600'' r600,
      Case ''amdgcn'' amdgcn, Case ''hexagon'' hexagon, Case ''sparc'' sparc, Case ''sparcv9'' sparcv9,
      Case ''systemz'' systemz, Case ''tce'' tce, Case ''thumb'' thumb, Case ''thumbeb'' thumbeb,
      Case ''x86'' x86, Case ''x86-64'' x86_64, Case ''xcore'' xcore, Case ''nvptx'' nvptx,
      Case ''nvptx64'' nvptx64, Case ''le32'' le32, Case ''le64'' le64, Case ''amdil'' amdil,
      Case ''amdil64'' amdil64, Case ''hsail'' hsail, Case ''hsail64'' hsail64, Case ''spir'' spir,
      Case ''spir64'' spir64, Case ''kalimba'' kalimba] UnknownArch"

definition parseARMArch :: "string \<Rightarrow> ArchType" where
  "parseARMArch ArchName =
    (if equals ArchName ''arm'' then arm
     else if equals ArchName ''armeb'' then armeb
     else if equals ArchName ''thumb'' then thumb
     else if equals ArchName ''thumbeb'' then thumbeb
     else if equals ArchName ''arm64'' \<or> equals ArchName ''aarch64'' then aarch64
     else if equals ArchName ''aarch64_be'' then aarch64_be
     else
       let isThumb = startswith ArchName ''thumb'';
           (offset, arch, ArchName) =
             (if startswith ArchName ''armv'' then
                if endswith ArchName ''eb'' then (3, armeb, substr ArchName 0 (length ArchName - 2))
                else (3, arm, ArchName)
              else if startswith ArchName ''armebv'' then (5, armeb, ArchName)
              else if startswith ArchName ''thumbv'' then
                if endswith ArchName ''eb'' then (5, thumbeb, substr ArchName 0 (length ArchName - 2))
                else (5, thumb, ArchName)
              else if startswith ArchName ''thumbebv'' then (7, thumbeb, ArchName)
              else (npos, UnknownArch, ArchName))
       in StringSwitch (substr ArchName offset npos)
           [Case ''v2'' (if isThumb then UnknownArch else arch),
            Case ''v2a'' (if isThumb then UnknownArch else arch),
            Case ''v3'' (if isThumb then UnknownArch else arch),
            Case ''v3m'' (if isThumb then UnknownArch else arch), Case ''v4'' arch, Case ''v4t'' arch,
            Case ''v5'' arch, Case ''v5e'' arch, Case ''v5t'' arch, Case ''v5te'' arch, Case ''v5tej'' arch,
            Case ''v6'' arch, Case ''v6j'' arch, Case ''v6k'' arch, Case ''v6m'' arch, Case ''v6sm'' arch,
            Case ''v6t2'' arch, Case ''v6z'' arch, Case ''v6zk'' arch, Case ''v7'' arch, Case ''v7a'' arch,
            Case ''v7em'' arch, Case ''v7l'' arch, Case ''v7m'' arch, Case ''v7r'' arch, Case ''v7s'' arch,
            Case ''v8'' arch, Case ''v8a'' arch, Case ''v8.1'' arch, Case ''v8.1a'' arch] UnknownArch)"

definition parseArch :: "string \<Rightarrow> ArchType" where
  "parseArch Str =
    StringSwitch Str
     [Case ''i386'' x86, Case ''i486'' x86, Case ''i586'' x86, Case ''i686'' x86, Case ''i786'' x86,
      Case ''i886'' x86, Case ''i986'' x86, Case ''amd64'' x86_64, Case ''x86_64'' x86_64,
      Case ''x86_64h'' x86_64, Case ''powerpc'' ppc, Case ''powerpc64'' ppc64, Case ''ppu'' ppc64,
      Case ''powerpc64le'' ppc64le, Case ''xscale'' arm, Case ''xscaleeb'' armeb, StartsWith ''arm'' (parseARMArch Str),
      StartsWith ''thumb'' (parseARMArch Str), StartsWith ''aarch64'' (parseARMArch Str), Case ''msp430'' msp430, Case ''mips'' mips,
      Case ''mipseb'' mips, Case ''mipsallegrex'' mips, Case ''mipsel'' mipsel, Case ''mipsallegrexel'' mipsel,
      Case ''mips64'' mips64, Case ''mips64eb'' mips64, Case ''mips64el'' mips64el, Case ''r600'' r600,
      Case ''amdgcn'' amdgcn, Case ''bpf'' bpf, Case ''hexagon'' hexagon, Case ''s390x'' systemz,
      Case ''sparc'' sparc, Case ''sparcv9'' sparcv9, Case ''sparc64'' sparcv9, Case ''tce'' tce,
      Case ''xcore'' xcore, Case ''nvptx'' nvptx, Case ''nvptx64'' nvptx64, Case ''le32'' le32,
      Case ''le64'' le64, Case ''amdil'' amdil, Case ''amdil64'' amdil64, Case ''hsail'' hsail,
      Case ''hsail64'' hsail64, Case ''spir'' spir, Case ''spir64'' spir64, StartsWith ''kalimba'' kalimba] UnknownArch"

definition parseVendor :: "string \<Rightarrow> VendorType" where
  "parseVendor Str =
    StringSwitch Str
     [Case ''apple'' Apple, Case ''pc'' PC, Case ''scei'' SCEI, Case ''bgp'' BGP, Case ''bgq'' BGQ,
      Case ''fsl'' Freescale, Case ''ibm'' IBM, Case ''img'' ImaginationTechnologies,
      Case ''mti'' MipsTechnologies, Case ''nvidia'' NVIDIA, Case ''csr'' CSR] UnknownVendor"

definition parseOS :: "string \<Rightarrow> OSType" where
  "parseOS Str =
    StringSwitch Str
     [StartsWith ''cloudabi'' CloudABI, StartsWith ''darwin'' Darwin, StartsWith ''dragonfly'' DragonFly,
      StartsWith ''freebsd'' FreeBSD, StartsWith ''ios'' IOS, StartsWith ''kfreebsd'' KFreeBSD,
      StartsWith ''linux'' Linux, StartsWith ''lv2'' Lv2, StartsWith ''macosx'' MacOSX,
      StartsWith ''netbsd'' NetBSD, StartsWith ''openbsd'' OpenBSD, StartsWith ''solaris'' Solaris,
      StartsWith ''win32'' Win32, StartsWith ''windows'' Win32, StartsWith ''haiku'' Haiku,
      StartsWith ''minix'' Minix, StartsWith ''rtems'' RTEMS, StartsWith ''nacl'' NaCl, StartsWith ''cnk'' CNK,
      StartsWith ''bitrig'' Bitrig, StartsWith ''aix'' AIX, StartsWith ''cuda'' CUDA, StartsWith ''nvcl'' NVCL,
      StartsWith ''amdhsa'' AMDHSA, StartsWith ''ps4'' PS4] UnknownOS"

definition parseEnvironment :: "string \<Rightarrow> EnvironmentType" where
  "parseEnvironment Str =
    StringSwitch Str
     [StartsWith ''eabihf'' EABIHF, StartsWith ''eabi'' EABI, StartsWith ''gnueabihf'' GNUEABIHF,
      StartsWith ''gnueabi'' GNUEABI, StartsWith ''gnux32'' GNUX32, StartsWith ''code16'' CODE16,
      StartsWith ''gnu'' GNU, StartsWith ''android'' Android, StartsWith ''msvc'' MSVC,
      StartsWith ''itanium'' Itanium, StartsWith ''cygnus'' Cygnus] UnknownEnvironment"

definition parseFormat :: "string \<Rightarrow> ObjectFormatType" where
  "parseFormat Str =
    StringSwitch Str
     [EndsWith ''coff'' COFF, EndsWith ''elf'' ELF, EndsWith ''macho'' MachO] UnknownObjectFormat"

definition parseSubArch :: "string \<Rightarrow> SubArchType" where
  "parseSubArch SubArchName =
    StringSwitch (if endswith SubArchName ''eb'' then substr SubArchName 0 (length SubArchName - 2) else SubArchName)
     [EndsWith ''v8.1a'' ARMSubArch_v8_1a, EndsWith ''v8'' ARMSubArch_v8, EndsWith ''v8a'' ARMSubArch_v8,
      EndsWith ''v7'' ARMSubArch_v7, EndsWith ''v7a'' ARMSubArch_v7, EndsWith ''v7em'' ARMSubArch_v7em,
      EndsWith ''v7l'' ARMSubArch_v7, EndsWith ''v7m'' ARMSubArch_v7m, EndsWith ''v7r'' ARMSubArch_v7,
      EndsWith ''v7s'' ARMSubArch_v7s, EndsWith ''v6'' ARMSubArch_v6, EndsWith ''v6m'' ARMSubArch_v6m,
      EndsWith ''v6sm'' ARMSubArch_v6m, EndsWith ''v6k'' ARMSubArch_v6k, EndsWith ''v6t2'' ARMSubArch_v6t2,
      EndsWith ''v5'' ARMSubArch_v5, EndsWith ''v5e'' ARMSubArch_v5, EndsWith ''v5t'' ARMSubArch_v5,
      EndsWith ''v5te'' ARMSubArch_v5te, EndsWith ''v4t'' ARMSubArch_v4t,
      EndsWith ''kalimba3'' KalimbaSubArch_v3, EndsWith ''kalimba4'' KalimbaSubArch_v4,
      EndsWith ''kalimba5'' KalimbaSubArch_v5] NoSubArch"

section \<open>The class\<close>

record Triple =
  Data :: string
  Arch :: ArchType
  SubArch :: SubArchType
  Vendor :: VendorType
  OS :: OSType
  Environment :: EnvironmentType
  ObjectFormat :: ObjectFormatType

text \<open>The components of the string: \<open>rest_of\<close> is \<open>split('-').second\<close>.\<close>

definition rest_of :: "string \<Rightarrow> string" where
  "rest_of Str = (case snd (split_char Str CHR ''-'') of Some r \<Rightarrow> r | None \<Rightarrow> [])"

definition getArchName :: "string \<Rightarrow> string" where
  "getArchName D = fst (split_char D CHR ''-'')"

definition getVendorName :: "string \<Rightarrow> string" where
  "getVendorName D = (let Tmp = rest_of D in fst (split_char Tmp CHR ''-''))"

definition getOSName :: "string \<Rightarrow> string" where
  "getOSName D = (let Tmp = rest_of D; Tmp = rest_of Tmp in fst (split_char Tmp CHR ''-''))"

definition getEnvironmentName :: "string \<Rightarrow> string" where
  "getEnvironmentName D = (let Tmp = rest_of D; Tmp = rest_of Tmp in rest_of Tmp)"

definition getOSAndEnvironmentName :: "string \<Rightarrow> string" where
  "getOSAndEnvironmentName D = (let Tmp = rest_of D in rest_of Tmp)"

definition hasEnvironment :: "Triple \<Rightarrow> bool" where
  "hasEnvironment T \<longleftrightarrow> getEnvironmentName (Data T) \<noteq> []"

section \<open>Predicates\<close>

definition isMacOSX :: "Triple \<Rightarrow> bool" where
  "isMacOSX T \<longleftrightarrow> OS T = Darwin \<or> OS T = MacOSX"

definition isiOS :: "Triple \<Rightarrow> bool" where
  "isiOS T \<longleftrightarrow> OS T = IOS"

definition isOSDarwin :: "Triple \<Rightarrow> bool" where
  "isOSDarwin T \<longleftrightarrow> isMacOSX T \<or> isiOS T"

definition isOSWindows :: "Triple \<Rightarrow> bool" where
  "isOSWindows T \<longleftrightarrow> OS T = Win32"

definition isWindowsMSVCEnvironment :: "Triple \<Rightarrow> bool" where
  "isWindowsMSVCEnvironment T \<longleftrightarrow> OS T = Win32 \<and> (Environment T = UnknownEnvironment \<or> Environment T = MSVC)"

definition isKnownWindowsMSVCEnvironment :: "Triple \<Rightarrow> bool" where
  "isKnownWindowsMSVCEnvironment T \<longleftrightarrow> OS T = Win32 \<and> Environment T = MSVC"

definition isWindowsItaniumEnvironment :: "Triple \<Rightarrow> bool" where
  "isWindowsItaniumEnvironment T \<longleftrightarrow> OS T = Win32 \<and> Environment T = Itanium"

definition isWindowsCygwinEnvironment :: "Triple \<Rightarrow> bool" where
  "isWindowsCygwinEnvironment T \<longleftrightarrow> OS T = Win32 \<and> Environment T = Cygnus"

definition isWindowsGNUEnvironment :: "Triple \<Rightarrow> bool" where
  "isWindowsGNUEnvironment T \<longleftrightarrow> OS T = Win32 \<and> Environment T = GNU"

definition isOSCygMing :: "Triple \<Rightarrow> bool" where
  "isOSCygMing T \<longleftrightarrow> isWindowsCygwinEnvironment T \<or> isWindowsGNUEnvironment T"

definition isOSMSVCRT :: "Triple \<Rightarrow> bool" where
  "isOSMSVCRT T \<longleftrightarrow> isWindowsMSVCEnvironment T \<or> isWindowsGNUEnvironment T \<or> isWindowsItaniumEnvironment T"

definition isPS4 :: "Triple \<Rightarrow> bool" where
  "isPS4 T \<longleftrightarrow> Vendor T = SCEI \<and> OS T = PS4"

definition isPS4CPU :: "Triple \<Rightarrow> bool" where
  "isPS4CPU T \<longleftrightarrow> Arch T = x86_64 \<and> Vendor T = SCEI \<and> OS T = PS4"

section \<open>Construction\<close>

definition getDefaultFormat :: "Triple \<Rightarrow> ObjectFormatType" where
  "getDefaultFormat T =
    (if Arch T \<in> {hexagon, mips, mipsel, mips64, mips64el, r600, amdgcn, sparc, sparcv9, systemz, xcore, ppc64le}
     then ELF
     else if Arch T \<in> {ppc, ppc64} then (if isOSDarwin T then MachO else ELF)
     else if isOSDarwin T then MachO
     else if isOSWindows T then COFF
     else ELF)"

definition Triple_of :: "string \<Rightarrow> Triple" where
  "Triple_of Str =
    (let T = \<lparr> Data = Str, Arch = parseArch (getArchName Str), SubArch = parseSubArch (getArchName Str),
               Vendor = parseVendor (getVendorName Str), OS = parseOS (getOSName Str),
               Environment = parseEnvironment (getEnvironmentName Str),
               ObjectFormat = parseFormat (getEnvironmentName Str) \<rparr>
     in if ObjectFormat T = UnknownObjectFormat then T\<lparr> ObjectFormat := getDefaultFormat T \<rparr> else T)"

definition Triple_of3 :: "string \<Rightarrow> string \<Rightarrow> string \<Rightarrow> Triple" where
  "Triple_of3 ArchStr VendorStr OSStr =
    (let T = \<lparr> Data = ArchStr @ ''-'' @ VendorStr @ ''-'' @ OSStr, Arch = parseArch ArchStr,
               SubArch = parseSubArch ArchStr, Vendor = parseVendor VendorStr, OS = parseOS OSStr,
               Environment = UnknownEnvironment, ObjectFormat = UnknownObjectFormat \<rparr>
     in T\<lparr> ObjectFormat := getDefaultFormat T \<rparr>)"

definition Triple_of4 :: "string \<Rightarrow> string \<Rightarrow> string \<Rightarrow> string \<Rightarrow> Triple" where
  "Triple_of4 ArchStr VendorStr OSStr EnvironmentStr =
    (let T = \<lparr> Data = ArchStr @ ''-'' @ VendorStr @ ''-'' @ OSStr @ ''-'' @ EnvironmentStr, Arch = parseArch ArchStr,
               SubArch = parseSubArch ArchStr, Vendor = parseVendor VendorStr, OS = parseOS OSStr,
               Environment = parseEnvironment EnvironmentStr, ObjectFormat = parseFormat EnvironmentStr \<rparr>
     in if ObjectFormat T = UnknownObjectFormat then T\<lparr> ObjectFormat := getDefaultFormat T \<rparr> else T)"

text \<open>The default constructor leaves \<open>SubArch\<close> uninitialised: it is an argument here.\<close>

definition Triple_default :: "SubArchType \<Rightarrow> Triple" where
  "Triple_default uninitialised =
    \<lparr> Data = [], Arch = UnknownArch, SubArch = uninitialised, Vendor = UnknownVendor, OS = UnknownOS,
      Environment = UnknownEnvironment, ObjectFormat = UnknownObjectFormat \<rparr>"

definition triple_eq :: "Triple \<Rightarrow> Triple \<Rightarrow> bool" where
  "triple_eq T Other \<longleftrightarrow> Arch T = Arch Other \<and> SubArch T = SubArch Other \<and> Vendor T = Vendor Other \<and>
     OS T = OS Other \<and> Environment T = Environment Other \<and> ObjectFormat T = ObjectFormat Other"

section \<open>Setters\<close>

definition setTriple :: "Triple \<Rightarrow> string \<Rightarrow> Triple" where
  "setTriple T Str = Triple_of Str"

definition setArchName :: "Triple \<Rightarrow> string \<Rightarrow> Triple" where
  "setArchName T Str =
    setTriple T (Str @ ''-'' @ getVendorName (Data T) @ ''-'' @ getOSAndEnvironmentName (Data T))"

definition setVendorName :: "Triple \<Rightarrow> string \<Rightarrow> Triple" where
  "setVendorName T Str =
    setTriple T (getArchName (Data T) @ ''-'' @ Str @ ''-'' @ getOSAndEnvironmentName (Data T))"

definition setOSName :: "Triple \<Rightarrow> string \<Rightarrow> Triple" where
  "setOSName T Str =
    (if hasEnvironment T
     then setTriple T (getArchName (Data T) @ ''-'' @ getVendorName (Data T) @ ''-'' @ Str @ ''-'' @
            getEnvironmentName (Data T))
     else setTriple T (getArchName (Data T) @ ''-'' @ getVendorName (Data T) @ ''-'' @ Str))"

definition setEnvironmentName :: "Triple \<Rightarrow> string \<Rightarrow> Triple" where
  "setEnvironmentName T Str =
    setTriple T (getArchName (Data T) @ ''-'' @ getVendorName (Data T) @ ''-'' @ getOSName (Data T) @ ''-'' @ Str)"

definition setOSAndEnvironmentName :: "Triple \<Rightarrow> string \<Rightarrow> Triple" where
  "setOSAndEnvironmentName T Str =
    setTriple T (getArchName (Data T) @ ''-'' @ getVendorName (Data T) @ ''-'' @ Str)"

definition setArch :: "Triple \<Rightarrow> ArchType \<Rightarrow> Triple" where
  "setArch T Kind = setArchName T (getArchTypeName Kind)"

definition setVendor :: "Triple \<Rightarrow> VendorType \<Rightarrow> Triple" where
  "setVendor T Kind = setVendorName T (getVendorTypeName Kind)"

definition setOS :: "Triple \<Rightarrow> OSType \<Rightarrow> Triple" where
  "setOS T Kind = setOSName T (getOSTypeName Kind)"

definition setEnvironment :: "Triple \<Rightarrow> EnvironmentType \<Rightarrow> Triple" where
  "setEnvironment T Kind =
    (if ObjectFormat T = getDefaultFormat T then setEnvironmentName T (getEnvironmentTypeName Kind)
     else setEnvironmentName T (getEnvironmentTypeName Kind @ ''-'' @ getObjectFormatTypeName (ObjectFormat T)))"

definition setObjectFormat :: "Triple \<Rightarrow> ObjectFormatType \<Rightarrow> Triple" where
  "setObjectFormat T Kind =
    (if Environment T = UnknownEnvironment then setEnvironmentName T (getObjectFormatTypeName Kind)
     else setEnvironmentName T (getEnvironmentTypeName (Environment T) @ ''-'' @ getObjectFormatTypeName Kind))"

section \<open>Versions\<close>

text \<open>\<open>EatNumber\<close> returns the number, modulo \<open>2 ^ 32\<close>, and what follows it; its caller has seen a digit.\<close>

function EatNumber_loop :: "u32 \<Rightarrow> string \<Rightarrow> u32 \<times> string" where
  "EatNumber_loop Result Str =
    (if Str \<noteq> [] \<and> in_range CHR ''0'' (hd Str) CHR ''9''
     then EatNumber_loop (Result * 10 + of_nat (of_char (hd Str) - of_char CHR ''0'')) (substr Str 1 npos)
     else (Result, Str))"
  by pat_completeness auto
termination by (relation "measure (\<lambda>(_, Str). length Str)") (auto simp: substr_take neq_Nil_conv)

declare EatNumber_loop.simps [simp del]

definition EatNumber :: "string \<Rightarrow> (u32 \<times> string) option" where
  "EatNumber Str =
    (if Str \<noteq> [] \<and> in_range CHR ''0'' (hd Str) CHR ''9'' then Some (EatNumber_loop 0 Str) else None)"

text \<open>Up to three numbers, each with the dot that may follow it; the components not reached stay zero.\<close>

fun version_numbers :: "nat \<Rightarrow> string \<Rightarrow> u32 list" where
  "version_numbers 0 OSName = []"
| "version_numbers (Suc n) OSName =
     (case EatNumber OSName of
        None \<Rightarrow> replicate (Suc n) 0
      | Some (v, rest) \<Rightarrow> v # version_numbers n (if startswith rest ''.'' then substr rest 1 npos else rest))"

definition getOSVersion :: "Triple \<Rightarrow> u32 list" where
  "getOSVersion T =
    (let OSName =
           (if Environment T = Android then
              let OSName = substr (getEnvironmentName (Data T)) (length ''android'') npos
              in if startswith OSName ''eabi'' then substr OSName (length ''eabi'') npos else OSName
            else getOSName (Data T));
         OSTypeName = getOSTypeName (OS T);
         OSName = (if startswith OSName OSTypeName then substr OSName (length OSTypeName) npos else OSName)
     in version_numbers 3 OSName)"

definition getOSMajorVersion :: "Triple \<Rightarrow> u32" where
  "getOSMajorVersion T = getOSVersion T ! 0"

text \<open>The result of \<open>getMacOSXVersion\<close> is the three numbers with the value returned; \<open>None\<close> is the
  unreachable case.\<close>

definition getMacOSXVersion :: "Triple \<Rightarrow> (u32 list \<times> bool) option" where
  "getMacOSXVersion T =
    (let v = getOSVersion T; Major = v ! 0; Minor = v ! 1; Micro = v ! 2 in
     if OS T = Darwin then
       let Major = (if Major = 0 then 8 else Major)
       in if Major < 4 then Some ([Major, Minor, Micro], False) else Some ([10, Major - 4, 0], True)
     else if OS T = MacOSX then
       let (Major, Minor) = (if Major = 0 then (10, 4) else (Major, Minor))
       in if Major \<noteq> 10 then Some ([Major, Minor, Micro], False) else Some ([Major, Minor, Micro], True)
     else if OS T = IOS then Some ([10, 4, 0], True)
     else None)"

definition getiOSVersion :: "Triple \<Rightarrow> u32 list option" where
  "getiOSVersion T =
    (if OS T = Darwin \<or> OS T = MacOSX then Some [5, 0, 0]
     else if OS T = IOS then
       let v = getOSVersion T
       in Some (if v ! 0 = 0 then [if Arch T = aarch64 then 7 else 5, v ! 1, v ! 2] else v)
     else None)"

definition isOSVersionLT :: "Triple \<Rightarrow> u32 \<Rightarrow> u32 \<Rightarrow> u32 \<Rightarrow> bool" where
  "isOSVersionLT T Major Minor Micro =
    (let LHS = getOSVersion T in
     if LHS ! 0 \<noteq> Major then LHS ! 0 < Major
     else if LHS ! 1 \<noteq> Minor then LHS ! 1 < Minor
     else if LHS ! 2 \<noteq> Micro then LHS ! 1 < Micro
     else False)"

definition isOSVersionLT_triple :: "Triple \<Rightarrow> Triple \<Rightarrow> bool" where
  "isOSVersionLT_triple T Other =
    (let RHS = getOSVersion Other in isOSVersionLT T (RHS ! 0) (RHS ! 1) (RHS ! 2))"

definition isMacOSXVersionLT :: "Triple \<Rightarrow> u32 \<Rightarrow> u32 \<Rightarrow> u32 \<Rightarrow> bool option" where
  "isMacOSXVersionLT T Major Minor Micro =
    (if \<not> isMacOSX T then None
     else if OS T = MacOSX then Some (isOSVersionLT T Major Minor Micro)
     else if Major \<noteq> 10 then None
     else Some (isOSVersionLT T (Minor + 4) Micro 0))"

section \<open>Pointer width and variants\<close>

fun getArchPointerBitWidth :: "ArchType \<Rightarrow> nat" where
  "getArchPointerBitWidth UnknownArch = 0"
| "getArchPointerBitWidth msp430 = 16"
| "getArchPointerBitWidth arm = 32"
| "getArchPointerBitWidth armeb = 32"
| "getArchPointerBitWidth hexagon = 32"
| "getArchPointerBitWidth le32 = 32"
| "getArchPointerBitWidth mips = 32"
| "getArchPointerBitWidth mipsel = 32"
| "getArchPointerBitWidth nvptx = 32"
| "getArchPointerBitWidth ppc = 32"
| "getArchPointerBitWidth r600 = 32"
| "getArchPointerBitWidth sparc = 32"
| "getArchPointerBitWidth tce = 32"
| "getArchPointerBitWidth thumb = 32"
| "getArchPointerBitWidth thumbeb = 32"
| "getArchPointerBitWidth x86 = 32"
| "getArchPointerBitWidth xcore = 32"
| "getArchPointerBitWidth amdil = 32"
| "getArchPointerBitWidth hsail = 32"
| "getArchPointerBitWidth spir = 32"
| "getArchPointerBitWidth kalimba = 32"
| "getArchPointerBitWidth aarch64 = 64"
| "getArchPointerBitWidth aarch64_be = 64"
| "getArchPointerBitWidth amdgcn = 64"
| "getArchPointerBitWidth bpf = 64"
| "getArchPointerBitWidth le64 = 64"
| "getArchPointerBitWidth mips64 = 64"
| "getArchPointerBitWidth mips64el = 64"
| "getArchPointerBitWidth nvptx64 = 64"
| "getArchPointerBitWidth ppc64 = 64"
| "getArchPointerBitWidth ppc64le = 64"
| "getArchPointerBitWidth sparcv9 = 64"
| "getArchPointerBitWidth systemz = 64"
| "getArchPointerBitWidth x86_64 = 64"
| "getArchPointerBitWidth amdil64 = 64"
| "getArchPointerBitWidth hsail64 = 64"
| "getArchPointerBitWidth spir64 = 64"

definition isArch64Bit :: "Triple \<Rightarrow> bool" where
  "isArch64Bit T \<longleftrightarrow> getArchPointerBitWidth (Arch T) = 64"

definition isArch32Bit :: "Triple \<Rightarrow> bool" where
  "isArch32Bit T \<longleftrightarrow> getArchPointerBitWidth (Arch T) = 32"

definition isArch16Bit :: "Triple \<Rightarrow> bool" where
  "isArch16Bit T \<longleftrightarrow> getArchPointerBitWidth (Arch T) = 16"

text \<open>The switches of the two variants: the architecture to set, or \<open>None\<close> for \<open>already\<close> that width.\<close>

fun variant32 :: "ArchType \<Rightarrow> ArchType option" where
  "variant32 UnknownArch = Some UnknownArch"
| "variant32 aarch64 = Some UnknownArch"
| "variant32 aarch64_be = Some UnknownArch"
| "variant32 amdgcn = Some UnknownArch"
| "variant32 bpf = Some UnknownArch"
| "variant32 msp430 = Some UnknownArch"
| "variant32 systemz = Some UnknownArch"
| "variant32 ppc64le = Some UnknownArch"
| "variant32 amdil = None"
| "variant32 hsail = None"
| "variant32 spir = None"
| "variant32 arm = None"
| "variant32 armeb = None"
| "variant32 hexagon = None"
| "variant32 kalimba = None"
| "variant32 le32 = None"
| "variant32 mips = None"
| "variant32 mipsel = None"
| "variant32 nvptx = None"
| "variant32 ppc = None"
| "variant32 r600 = None"
| "variant32 sparc = None"
| "variant32 tce = None"
| "variant32 thumb = None"
| "variant32 thumbeb = None"
| "variant32 x86 = None"
| "variant32 xcore = None"
| "variant32 le64 = Some le32"
| "variant32 mips64 = Some mips"
| "variant32 mips64el = Some mipsel"
| "variant32 nvptx64 = Some nvptx"
| "variant32 ppc64 = Some ppc"
| "variant32 sparcv9 = Some sparc"
| "variant32 x86_64 = Some x86"
| "variant32 amdil64 = Some amdil"
| "variant32 hsail64 = Some hsail"
| "variant32 spir64 = Some spir"

fun variant64 :: "ArchType \<Rightarrow> ArchType option" where
  "variant64 UnknownArch = Some UnknownArch"
| "variant64 arm = Some UnknownArch"
| "variant64 armeb = Some UnknownArch"
| "variant64 hexagon = Some UnknownArch"
| "variant64 kalimba = Some UnknownArch"
| "variant64 msp430 = Some UnknownArch"
| "variant64 r600 = Some UnknownArch"
| "variant64 tce = Some UnknownArch"
| "variant64 thumb = Some UnknownArch"
| "variant64 thumbeb = Some UnknownArch"
| "variant64 xcore = Some UnknownArch"
| "variant64 aarch64 = None"
| "variant64 aarch64_be = None"
| "variant64 bpf = None"
| "variant64 le64 = None"
| "variant64 amdil64 = None"
| "variant64 amdgcn = None"
| "variant64 hsail64 = None"
| "variant64 spir64 = None"
| "variant64 mips64 = None"
| "variant64 mips64el = None"
| "variant64 nvptx64 = None"
| "variant64 ppc64 = None"
| "variant64 ppc64le = None"
| "variant64 sparcv9 = None"
| "variant64 systemz = None"
| "variant64 x86_64 = None"
| "variant64 le32 = Some le64"
| "variant64 mips = Some mips64"
| "variant64 mipsel = Some mips64el"
| "variant64 nvptx = Some nvptx64"
| "variant64 ppc = Some ppc64"
| "variant64 sparc = Some sparcv9"
| "variant64 x86 = Some x86_64"
| "variant64 amdil = Some amdil64"
| "variant64 hsail = Some hsail64"
| "variant64 spir = Some spir64"

definition get32BitArchVariant :: "Triple \<Rightarrow> Triple" where
  "get32BitArchVariant T = (case variant32 (Arch T) of Some k \<Rightarrow> setArch T k | None \<Rightarrow> T)"

definition get64BitArchVariant :: "Triple \<Rightarrow> Triple" where
  "get64BitArchVariant T = (case variant64 (Arch T) of Some k \<Rightarrow> setArch T k | None \<Rightarrow> T)"

section \<open>Processors\<close>

definition arm_cpu :: "string \<Rightarrow> string option" where
  "arm_cpu Str =
    StringSwitch Str
     [Case ''v2'' (Some ''arm2''), Case ''v2a'' (Some ''arm2''), Case ''v3'' (Some ''arm6''), Case ''v3m'' (Some ''arm7m''),
      Case ''v4'' (Some ''strongarm''), Case ''v4t'' (Some ''arm7tdmi''), Case ''v5'' (Some ''arm10tdmi''),
      Case ''v5t'' (Some ''arm10tdmi''), Case ''v5e'' (Some ''arm1022e''), Case ''v5te'' (Some ''arm1022e''),
      Case ''v5tej'' (Some ''arm926ej-s''), Case ''v6'' (Some ''arm1136jf-s''), Case ''v6j'' (Some ''arm1136j-s''),
      Case ''v6k'' (Some ''arm1176jzf-s''), Case ''v6z'' (Some ''arm1176jzf-s''), Case ''v6zk'' (Some ''arm1176jzf-s''),
      Case ''v6t2'' (Some ''arm1156t2-s''), Case ''v6m'' (Some ''cortex-m0''), Case ''v6-m'' (Some ''cortex-m0''),
      Case ''v6sm'' (Some ''cortex-m0''), Case ''v6s-m'' (Some ''cortex-m0''), Case ''v7'' (Some ''cortex-a8''),
      Case ''v7a'' (Some ''cortex-a8''), Case ''v7-a'' (Some ''cortex-a8''), Case ''v7l'' (Some ''cortex-a8''),
      Case ''v7-l'' (Some ''cortex-a8''), Case ''v7s'' (Some ''swift''), Case ''v7-s'' (Some ''swift''), Case ''v7r'' (Some ''cortex-r4''),
      Case ''v7-r'' (Some ''cortex-r4''), Case ''v7m'' (Some ''cortex-m3''), Case ''v7-m'' (Some ''cortex-m3''),
      Case ''v7em'' (Some ''cortex-m4''), Case ''v7e-m'' (Some ''cortex-m4''), Case ''v8'' (Some ''cortex-a53''),
      Case ''v8a'' (Some ''cortex-a53''), Case ''v8-a'' (Some ''cortex-a53''), Case ''v8.1a'' (Some ''generic''),
      Case ''v8.1-a'' (Some ''generic'')] None"

definition fallback_cpu :: "Triple \<Rightarrow> string" where
  "fallback_cpu T =
    (if OS T = NetBSD then
       if Environment T \<in> {GNUEABIHF, GNUEABI, EABIHF, EABI} then ''arm926ej-s'' else ''strongarm''
     else if OS T = NaCl then ''cortex-a8''
     else if Environment T \<in> {EABIHF, GNUEABIHF} then ''arm1176jzf-s''
     else ''arm7tdmi'')"

definition getARMCPUForArch :: "Triple \<Rightarrow> string \<Rightarrow> string" where
  "getARMCPUForArch T MArch =
    (let MArch = (if MArch = [] then getArchName (Data T) else MArch) in
     if (OS T = FreeBSD \<or> OS T = NetBSD) \<and> equals MArch ''armv6'' then ''arm1176jzf-s''
     else if OS T = Win32 then ''cortex-a9''
     else
       let offset = (if startswith MArch ''thumb'' then 5 else if startswith MArch ''arm'' then 3 else npos);
           offset = (if offset \<noteq> npos \<and> equals (substr MArch offset 2) ''eb'' then offset + 2 else offset);
           MArch = (if endswith MArch ''eb'' then substr MArch 0 (length MArch - 2) else MArch);
           result =
             (if offset \<noteq> npos then arm_cpu (substr MArch offset npos)
              else StringSwitch MArch
                [Case ''ep9312'' (Some ''ep9312''), Case ''iwmmxt'' (Some ''iwmmxt''),
                 Case ''xscale'' (Some ''xscale'')] None)
       in case result of Some cpu \<Rightarrow> cpu | None \<Rightarrow> fallback_cpu T)"

section \<open>Normalisation\<close>

text \<open>The local variables of \<open>normalize\<close> that live across its loops. \<open>None\<close> as a result below is a failed
  assertion or an index out of range.\<close>

record norm =
  Components :: "string list"
  Found :: "bool list"
  nOS :: OSType
  nEnvironment :: EnvironmentType
  nObjectFormat :: ObjectFormatType
  IsCygwin :: bool
  IsMinGW32 :: bool

definition norm_start :: "string list \<Rightarrow> norm" where
  "norm_start Comps =
    (let n = length Comps;
         A = (if n > 0 then parseArch (Comps ! 0) else UnknownArch);
         V = (if n > 1 then parseVendor (Comps ! 1) else UnknownVendor);
         S = (if n > 2 then parseOS (Comps ! 2) else UnknownOS);
         E = (if n > 3 then parseEnvironment (Comps ! 3) else UnknownEnvironment)
     in \<lparr> Components = Comps,
          Found = [A \<noteq> UnknownArch, V \<noteq> UnknownVendor, S \<noteq> UnknownOS, E \<noteq> UnknownEnvironment],
          nOS = S, nEnvironment = E,
          nObjectFormat = (if n > 4 then parseFormat (Comps ! 4) else UnknownObjectFormat),
          IsCygwin = (n > 2 \<and> startswith (Comps ! 2) ''cygwin''),
          IsMinGW32 = (n > 2 \<and> startswith (Comps ! 2) ''mingw'') \<rparr>)"

text \<open>Does a component parse as valid for the target position? The variables are assigned either way.\<close>

definition norm_valid :: "nat \<Rightarrow> string \<Rightarrow> norm \<Rightarrow> bool \<times> norm" where
  "norm_valid Pos Comp st =
    (if Pos = 0 then (parseArch Comp \<noteq> UnknownArch, st)
     else if Pos = 1 then (parseVendor Comp \<noteq> UnknownVendor, st)
     else if Pos = 2 then
       let st = st\<lparr> nOS := parseOS Comp, IsCygwin := startswith Comp ''cygwin'', IsMinGW32 := startswith Comp ''mingw'' \<rparr>
       in (nOS st \<noteq> UnknownOS \<or> IsCygwin st \<or> IsMinGW32 st, st)
     else
       let st = st\<lparr> nEnvironment := parseEnvironment Comp \<rparr> in
       if nEnvironment st \<noteq> UnknownEnvironment then (True, st)
       else let st = st\<lparr> nObjectFormat := parseFormat Comp \<rparr>
            in (nObjectFormat st \<noteq> UnknownObjectFormat, st))"

function skip_fixed :: "bool list \<Rightarrow> nat \<Rightarrow> nat" where
  "skip_fixed F i = (if i < 4 \<and> F ! i then skip_fixed F (i + 1) else i)"
  by pat_completeness auto
termination by (relation "measure (\<lambda>(_, i). 4 - i)") auto

lemma skip_fixed_ge: "i \<le> skip_fixed F i"
proof (induction F i rule: skip_fixed.induct)
  case (1 F i)
  then show ?case by (subst skip_fixed.simps) auto
qed

text \<open>Inserting left: place the component at the next position that is not fixed and go on with the one that
  was there, until an empty one is met.\<close>

function insert_left :: "bool list \<Rightarrow> string list \<Rightarrow> nat \<Rightarrow> string \<Rightarrow> string list option" where
  "insert_left F Comps i Current =
    (if Current = [] then Some Comps
     else let i = skip_fixed F i
          in if i < length Comps then insert_left F (Comps[i := Current]) (i + 1) (Comps ! i) else None)"
  by pat_completeness auto
termination
proof (relation "measure (\<lambda>(_, Comps, i, _). length Comps - i)", simp)
  fix F Comps i Current x
  assume "x = skip_fixed F i" "x < length (Comps :: string list)"
  then show "((F, Comps[x := Current], x + 1, Comps ! x), F, Comps, i, Current :: string)
      \<in> measure (\<lambda>(_, Comps, i, _). length Comps - i)"
    using skip_fixed_ge [of i F] by auto
qed

text \<open>Pushing right: one empty component goes in at \<open>i\<close>; the component left over, if any, is returned.\<close>

function push_empty :: "bool list \<Rightarrow> string list \<Rightarrow> nat \<Rightarrow> string \<Rightarrow> string list \<times> string" where
  "push_empty F Comps i Current =
    (if i < length Comps then
       if Comps ! i = [] then (Comps[i := Current], [])
       else push_empty F (Comps[i := Current]) (skip_fixed F (i + 1)) (Comps ! i)
     else (Comps, Current))"
  by pat_completeness auto
termination
proof (relation "measure (\<lambda>(_, Comps, i, _). length Comps - i)", simp)
  fix F Comps i Current
  assume "i < length (Comps :: string list)"
  then show "((F, Comps[i := Current], skip_fixed F (i + 1), Comps ! i), F, Comps, i, Current :: string)
      \<in> measure (\<lambda>(_, Comps, i, _). length Comps - i)"
    using skip_fixed_ge [of "i + 1" F] by auto
qed

function push_right :: "bool list \<Rightarrow> string list \<Rightarrow> nat \<Rightarrow> nat \<Rightarrow> string list" where
  "push_right F Comps Idx Pos =
    (let (C, Current) = push_empty F Comps Idx [];
         C = (if Current \<noteq> [] then C @ [Current] else C);
         Idx = skip_fixed F (Idx + 1)
     in if Idx < Pos then push_right F C Idx Pos else C)"
  by pat_completeness auto
termination
proof (relation "measure (\<lambda>(_, _, Idx, Pos). Pos - Idx)", simp)
  fix F Comps C Idx x Pos
  assume "x = skip_fixed F (Idx + 1)" "x < Pos"
  then show "((F, C, x, Pos), F, Comps, Idx, Pos)
      \<in> measure (\<lambda>(_ :: bool list, _ :: string list, Idx, Pos). Pos - Idx)"
    using skip_fixed_ge [of "Idx + 1" F] by auto
qed

declare skip_fixed.simps [simp del] insert_left.simps [simp del] push_empty.simps [simp del] push_right.simps [simp del]

definition norm_move :: "nat \<Rightarrow> nat \<Rightarrow> norm \<Rightarrow> norm option" where
  "norm_move Pos Idx st =
    (let Comp = Components st ! Idx;
         C = (if \<not> Idx < length (Components st) then None
              else if Pos < Idx then insert_left (Found st) ((Components st)[Idx := []]) Pos Comp
              else if Pos > Idx then Some (push_right (Found st) (Components st) Idx Pos)
              else Some (Components st))
     in case C of
          None \<Rightarrow> None
        | Some C \<Rightarrow>
            if Pos < length C \<and> C ! Pos = Comp then Some (st\<lparr> Components := C, Found := (Found st)[Pos := True] \<rparr>)
            else None)"

lemma norm_valid_frame [simp]:
  "Components (snd (norm_valid Pos Comp st)) = Components st" "Found (snd (norm_valid Pos Comp st)) = Found st"
  by (auto simp: norm_valid_def Let_def)

text \<open>The inner loop over the components, and the outer one over the four positions.\<close>

function norm_find :: "nat \<Rightarrow> nat \<Rightarrow> norm \<Rightarrow> norm option" where
  "norm_find Pos Idx st =
    (if Idx < length (Components st) then
       if Idx < 4 \<and> Found st ! Idx then norm_find Pos (Idx + 1) st
       else let (Valid, st') = norm_valid Pos (Components st ! Idx) st
            in if Valid then norm_move Pos Idx st' else norm_find Pos (Idx + 1) st'
     else Some st)"
  by pat_completeness auto
termination
proof (relation "measure (\<lambda>(_, Idx, st). length (Components st) - Idx)", simp_all)
  fix Pos Idx st and s :: norm
  assume Idx: "Idx < length (Components st)" and x: "(False, s) = norm_valid Pos (Components st ! Idx) st"
  from x have "s = snd (norm_valid Pos (Components st ! Idx) st)" by (metis snd_conv)
  then have "Components s = Components st" by (simp only: norm_valid_frame)
  then show "length (Components s) - Suc Idx < length (Components st) - Idx" using Idx by simp
qed

declare norm_find.simps [simp del]

definition norm_position :: "nat \<Rightarrow> norm option \<Rightarrow> norm option" where
  "norm_position Pos st = Option.bind st (\<lambda>st. if Found st ! Pos then Some st else norm_find Pos 0 st)"

definition resize :: "nat \<Rightarrow> string list \<Rightarrow> string list" where
  "resize n xs = take n xs @ replicate (n - length xs) []"

text \<open>A write to a component by its index: out of range it is \<open>None\<close>.\<close>

definition set_component :: "nat \<Rightarrow> string \<Rightarrow> string list \<Rightarrow> string list option" where
  "set_component i Str Comps = (if i < length Comps then Some (Comps[i := Str]) else None)"

definition norm_special :: "norm \<Rightarrow> string list option" where
  "norm_special st =
    (let fmt = nObjectFormat st;
         special =
           (if nOS st = Win32 then
              Option.bind (set_component 2 ''windows'' (resize 4 (Components st))) (\<lambda>C.
                if nEnvironment st = UnknownEnvironment then
                  (if fmt = UnknownObjectFormat \<or> fmt = COFF then set_component 3 ''msvc'' C
                   else set_component 3 (getObjectFormatTypeName fmt) C)
                else Some C)
            else if IsMinGW32 st then
              Option.bind (set_component 2 ''windows'' (resize 4 (Components st))) (set_component 3 ''gnu'')
            else if IsCygwin st then
              Option.bind (set_component 2 ''windows'' (resize 4 (Components st))) (set_component 3 ''cygnus'')
            else Some (Components st))
     in Option.bind special (\<lambda>C.
          if (IsMinGW32 st \<or> IsCygwin st \<or> nOS st = Win32 \<and> nEnvironment st \<noteq> UnknownEnvironment) \<and>
             fmt \<noteq> UnknownObjectFormat \<and> fmt \<noteq> COFF
          then set_component 4 (getObjectFormatTypeName fmt) (resize 5 C) else Some C))"

definition normalize :: "string \<Rightarrow> string option" where
  "normalize Str =
    Option.bind (split (Some Str) ''-'' (- 1) True) (\<lambda>Comps.
      Option.bind (fold norm_position [0..<4] (Some (norm_start Comps))) (\<lambda>st.
        map_option (\<lambda>C. join C ''-'') (norm_special st)))"

end
