(* ===== verification/TripleSound.thy ===== *)
theory TripleSound
  imports TargetTriple
begin

text \<open>
  Correctness of the target triples: every printed name is parsed back (one locale, interpreted for each of the
  enumerations), what the setters change and keep, the constructors agree, versions are read as they are
  written, and normalisation never runs out of range.
\<close>

section \<open>Names and their parsers\<close>

locale named_kind =
  fixes kind_name :: "'k \<Rightarrow> string" and parse :: "string \<Rightarrow> 'k"
  assumes parse_name: "parse (kind_name k) = k"
    and no_dash: "CHR ''-'' \<notin> set (kind_name k)"
    and short: "length (kind_name k) < 32"
begin

lemma kind_name_eq_iff: "kind_name k = kind_name l \<longleftrightarrow> k = l"
  using parse_name by metis

lemma name_is_kind: "S = kind_name k \<Longrightarrow> parse S = k"
  by (simp add: parse_name)

end

lemma endswith_rev: "endswith s t \<longleftrightarrow> take (length t) (rev s) = rev t"
proof -
  have "take (length t) (rev s) = rev (drop (length s - length t) s)"
    by (cases "length t \<le> length s") (simp_all add: take_rev)
  then have "take (length t) (rev s) = rev t \<longleftrightarrow> drop (length s - length t) s = t" by (simp only: rev_is_rev_conv)
  also have "\<dots> \<longleftrightarrow> (\<exists>u. s = u @ t)" by (metis append_eq_conv_conj append_take_drop_id length_append add_diff_cancel_right')
  finally show ?thesis by (simp add: endswith_iff)
qed

text \<open>The switches are evaluated case by case, without touching the cases that follow.\<close>

lemma StringSwitch_cong: "Str = Str' \<Longrightarrow> StringSwitch Str cs v = StringSwitch Str' cs v"
  by simp

lemma startswith_simps:
  "startswith s []" "\<not> startswith [] (d # t)" "startswith (c # s) (d # t) \<longleftrightarrow> c = d \<and> startswith s t"
  by (auto simp: startswith_iff)

lemmas switch_simps = StringSwitch.simps case_matches_simps startswith_simps endswith_rev

lemma parseArch_name: "parseArch (getArchTypeName k) = k"
  by (cases k) (simp_all add: parseArch_def parseARMArch_def switch_simps cong: StringSwitch_cong)

lemma parseVendor_name: "parseVendor (getVendorTypeName k) = k"
  by (cases k) (simp_all add: parseVendor_def switch_simps cong: StringSwitch_cong)

lemma parseOS_name: "parseOS (getOSTypeName k @ x) = k"
  by (cases k) (simp_all add: parseOS_def switch_simps cong: StringSwitch_cong)

lemma parseEnvironment_name: "parseEnvironment (getEnvironmentTypeName k) = k"
  by (cases k) (simp_all add: parseEnvironment_def switch_simps cong: StringSwitch_cong)

lemma parseEnvironment_name_dash: "parseEnvironment (getEnvironmentTypeName k @ ''-'' @ x) = k"
  by (cases k) (simp_all add: parseEnvironment_def switch_simps cong: StringSwitch_cong)

lemma parseFormat_name: "parseFormat (x @ getObjectFormatTypeName k) = k" if "k \<noteq> UnknownObjectFormat"
  using that by (cases k) (simp_all add: parseFormat_def switch_simps cong: StringSwitch_cong)

lemma parseFormat_environment: "parseFormat (getEnvironmentTypeName k) = UnknownObjectFormat"
  by (cases k) (simp_all add: parseFormat_def switch_simps cong: StringSwitch_cong)

interpretation archs: named_kind getArchTypeName parseArch
proof
  show "parseArch (getArchTypeName k) = k" for k by (rule parseArch_name)
  show "CHR ''-'' \<notin> set (getArchTypeName k)" "length (getArchTypeName k) < 32" for k by (cases k; simp)+
qed

interpretation vendors: named_kind getVendorTypeName parseVendor
proof
  show "parseVendor (getVendorTypeName k) = k" for k by (rule parseVendor_name)
  show "CHR ''-'' \<notin> set (getVendorTypeName k)" "length (getVendorTypeName k) < 32" for k by (cases k; simp)+
qed

interpretation systems: named_kind getOSTypeName parseOS
proof
  show "parseOS (getOSTypeName k) = k" for k using parseOS_name [of k "[]"] by simp
  show "CHR ''-'' \<notin> set (getOSTypeName k)" "length (getOSTypeName k) < 32" for k by (cases k; simp)+
qed

interpretation environments: named_kind getEnvironmentTypeName parseEnvironment
proof
  show "parseEnvironment (getEnvironmentTypeName k) = k" for k by (rule parseEnvironment_name)
  show "CHR ''-'' \<notin> set (getEnvironmentTypeName k)" "length (getEnvironmentTypeName k) < 32" for k by (cases k; simp)+
qed

interpretation formats: named_kind getObjectFormatTypeName parseFormat
proof
  show "parseFormat (getObjectFormatTypeName k) = k" for k
    using parseFormat_name [of k "[]"] by (cases k) (simp_all add: parseFormat_def endswith_rev)
  show "CHR ''-'' \<notin> set (getObjectFormatTypeName k)" "length (getObjectFormatTypeName k) < 32" for k by (cases k; simp)+
qed

section \<open>The components of the string\<close>

lemma split_char_takeWhile:
  assumes "length S < npos"
  shows "split_char S c = (if c \<in> set S then (takeWhile (\<lambda>d. d \<noteq> c) S, Some (tl (dropWhile (\<lambda>d. d \<noteq> c) S))) else (S, None))"
proof -
  let ?r = "first_index (\<lambda>i. S ! i = c) 0 (length S)"
  have r: "find_char S c 0 = ?r"
    by (cases S) (simp_all add: find_char_def first_index_def)
  have k: "min (length S) ?r = length (takeWhile (\<lambda>d. d \<noteq> c) S)"
    using first_index_takeWhile [OF assms, of 0 "\<lambda>d. d \<noteq> c"] by simp
  have f: "is_first (\<lambda>i. S ! i = c) 0 (length S) ?r" by (rule first_index_is_first)
  show ?thesis
  proof (cases "c \<in> set S")
    case True
    then have "?r < length S" using f assms by (auto simp: is_first_def in_set_conv_nth)
    then have rk: "?r = length (takeWhile (\<lambda>d. d \<noteq> c) S)" "?r \<noteq> npos" using k assms by simp_all
    have "slice S 0 ?r = takeWhile (\<lambda>d. d \<noteq> c) S"
      using \<open>?r < length S\<close> by (simp add: slice_take rk(1) flip: takeWhile_eq_take)
    moreover have "slice S (?r + 1) npos = tl (dropWhile (\<lambda>d. d \<noteq> c) S)"
      using assms by (simp add: slice_drop rk(1) dropWhile_eq_drop drop_Suc drop_tl)
    ultimately show ?thesis using True rk(2) by (simp add: split_char_def Let_def r)
  next
    case False
    then have "?r = npos" using f by (auto simp: is_first_def in_set_conv_nth)
    with False show ?thesis by (simp add: split_char_def Let_def r)
  qed
qed

lemma dash_takeWhile:
  "CHR ''-'' \<notin> set a \<Longrightarrow> takeWhile (\<lambda>d. d \<noteq> CHR ''-'') (a @ x) = a @ takeWhile (\<lambda>d. d \<noteq> CHR ''-'') x"
  "CHR ''-'' \<notin> set a \<Longrightarrow> dropWhile (\<lambda>d. d \<noteq> CHR ''-'') (a @ x) = dropWhile (\<lambda>d. d \<noteq> CHR ''-'') x"
  by (induction a) auto

lemma split_dash:
  assumes "CHR ''-'' \<notin> set a" and "length (a @ ''-'' @ x) < npos"
  shows "split_char (a @ ''-'' @ x) CHR ''-'' = (a, Some x)"
  using split_char_takeWhile [OF assms(2), of "CHR ''-''"] by (simp add: dash_takeWhile [OF assms(1)])

lemma split_no_dash:
  assumes "CHR ''-'' \<notin> set a" and "length a < npos"
  shows "split_char a CHR ''-'' = (a, None)"
  using split_char_takeWhile [OF assms(2), of "CHR ''-''"] assms(1) by simp

lemma split_parts:
  assumes "length S < npos"
  shows "CHR ''-'' \<notin> set (fst (split_char S CHR ''-''))" "length (fst (split_char S CHR ''-'')) \<le> length S"
    "length (rest_of S) \<le> length S"
  using length_takeWhile_le [of "\<lambda>d. d \<noteq> CHR ''-''" S] length_dropWhile_le [of "\<lambda>d. d \<noteq> CHR ''-''" S]
  by (auto simp: rest_of_def split_char_takeWhile [OF assms] dest: set_takeWhileD)

text \<open>What the accessors return for a string put together from components.\<close>

lemma rest_of_dash: "CHR ''-'' \<notin> set a \<Longrightarrow> length (a @ ''-'' @ x) < npos \<Longrightarrow> rest_of (a @ ''-'' @ x) = x"
  by (simp only: rest_of_def split_dash snd_conv option.case not_False_eq_True)

lemma rest_of_no_dash: "CHR ''-'' \<notin> set a \<Longrightarrow> length a < npos \<Longrightarrow> rest_of a = []"
  by (simp only: rest_of_def split_no_dash snd_conv option.case not_False_eq_True)

lemma accessors_join:
  assumes "CHR ''-'' \<notin> set a" and "CHR ''-'' \<notin> set v" and "length (a @ ''-'' @ v @ ''-'' @ x) < npos"
  shows "getArchName (a @ ''-'' @ v @ ''-'' @ x) = a" "getVendorName (a @ ''-'' @ v @ ''-'' @ x) = v"
    "getOSAndEnvironmentName (a @ ''-'' @ v @ ''-'' @ x) = x"
    "getOSName (a @ ''-'' @ v @ ''-'' @ x) = fst (split_char x CHR ''-'')"
    "getEnvironmentName (a @ ''-'' @ v @ ''-'' @ x) = rest_of x"
proof -
  have l: "length (v @ ''-'' @ x) < npos" using assms(3) by simp
  note r = rest_of_dash [OF assms(1,3)] rest_of_dash [OF assms(2) l]
  show "getArchName (a @ ''-'' @ v @ ''-'' @ x) = a" by (simp only: getArchName_def split_dash [OF assms(1,3)] fst_conv)
  show "getVendorName (a @ ''-'' @ v @ ''-'' @ x) = v"
    by (simp only: getVendorName_def Let_def r split_dash [OF assms(2) l] fst_conv)
  show "getOSAndEnvironmentName (a @ ''-'' @ v @ ''-'' @ x) = x"
    "getOSName (a @ ''-'' @ v @ ''-'' @ x) = fst (split_char x CHR ''-'')"
    "getEnvironmentName (a @ ''-'' @ v @ ''-'' @ x) = rest_of x"
    by (simp_all only: getOSAndEnvironmentName_def getOSName_def getEnvironmentName_def Let_def r)
qed

lemma os_env_parts: "getOSName D = fst (split_char (getOSAndEnvironmentName D) CHR ''-'')"
  "getEnvironmentName D = rest_of (getOSAndEnvironmentName D)"
  by (simp_all add: getOSName_def getEnvironmentName_def getOSAndEnvironmentName_def Let_def)

lemma component_bounds:
  assumes "length D < 2 ^ 32"
  shows "CHR ''-'' \<notin> set (getArchName D)" "CHR ''-'' \<notin> set (getVendorName D)" "CHR ''-'' \<notin> set (getOSName D)"
    "length (getArchName D) < 2 ^ 32" "length (getVendorName D) < 2 ^ 32" "length (getOSName D) < 2 ^ 32"
    "length (getEnvironmentName D) < 2 ^ 32" "length (getOSAndEnvironmentName D) < 2 ^ 32"
proof -
  have n: "n < npos" if "n < 2 ^ 32" for n using that by (simp add: npos_def)
  have r: "length (rest_of S) < 2 ^ 32" "CHR ''-'' \<notin> set (fst (split_char S CHR ''-''))"
    "length (fst (split_char S CHR ''-'')) < 2 ^ 32" if "length S < 2 ^ 32" for S
    using split_parts [OF n [OF that]] that by linarith+
  show "CHR ''-'' \<notin> set (getArchName D)" "CHR ''-'' \<notin> set (getVendorName D)" "CHR ''-'' \<notin> set (getOSName D)"
    "length (getArchName D) < 2 ^ 32" "length (getVendorName D) < 2 ^ 32" "length (getOSName D) < 2 ^ 32"
    "length (getEnvironmentName D) < 2 ^ 32" "length (getOSAndEnvironmentName D) < 2 ^ 32"
    unfolding getArchName_def getVendorName_def getOSName_def getEnvironmentName_def getOSAndEnvironmentName_def Let_def
    by (intro r assms)+
qed

section \<open>Construction\<close>

definition consistent :: "Triple \<Rightarrow> bool" where
  "consistent T \<longleftrightarrow> T = Triple_of (Data T)"

lemma getDefaultFormat_ObjectFormat [simp]: "getDefaultFormat (T\<lparr> ObjectFormat := f \<rparr>) = getDefaultFormat T"
  by (simp add: getDefaultFormat_def isOSDarwin_def isMacOSX_def isiOS_def isOSWindows_def)

lemma getDefaultFormat_cong: "Arch T = Arch T' \<Longrightarrow> OS T = OS T' \<Longrightarrow> getDefaultFormat T = getDefaultFormat T'"
  by (simp add: getDefaultFormat_def isOSDarwin_def isMacOSX_def isiOS_def isOSWindows_def)

lemma getDefaultFormat_known: "getDefaultFormat T \<noteq> UnknownObjectFormat"
  by (simp add: getDefaultFormat_def)

lemma Triple_of_fields:
  "Data (Triple_of D) = D" "Arch (Triple_of D) = parseArch (getArchName D)"
  "SubArch (Triple_of D) = parseSubArch (getArchName D)" "Vendor (Triple_of D) = parseVendor (getVendorName D)"
  "OS (Triple_of D) = parseOS (getOSName D)" "Environment (Triple_of D) = parseEnvironment (getEnvironmentName D)"
  by (simp_all add: Triple_of_def Let_def)

lemma Triple_of_format:
  "ObjectFormat (Triple_of D) =
    (if parseFormat (getEnvironmentName D) = UnknownObjectFormat then getDefaultFormat (Triple_of D)
     else parseFormat (getEnvironmentName D))"
  by (auto simp: Triple_of_def Let_def intro: getDefaultFormat_cong)

lemma consistent_fields:
  assumes "consistent T"
  shows "Arch T = parseArch (getArchName (Data T))" "Vendor T = parseVendor (getVendorName (Data T))"
    "OS T = parseOS (getOSName (Data T))" "Environment T = parseEnvironment (getEnvironmentName (Data T))"
    "ObjectFormat T = (if parseFormat (getEnvironmentName (Data T)) = UnknownObjectFormat then getDefaultFormat T
       else parseFormat (getEnvironmentName (Data T)))"
  using Triple_of_fields [of "Data T"] Triple_of_format [of "Data T"] assms unfolding consistent_def by metis+

lemma component_free_of_dash: "length x < npos \<Longrightarrow> CHR ''-'' \<notin> set x \<Longrightarrow> fst (split_char x CHR ''-'') = x \<and> rest_of x = []"
  by (simp add: split_no_dash rest_of_no_dash)

text \<open>A triple put together from its components is the triple of the joined string.\<close>

theorem constructors_agree:
  assumes "CHR ''-'' \<notin> set a" and "CHR ''-'' \<notin> set v" and "CHR ''-'' \<notin> set s"
    and "length (a @ ''-'' @ v @ ''-'' @ s @ ''-'' @ e) < npos"
  shows "Triple_of3 a v s = Triple_of (a @ ''-'' @ v @ ''-'' @ s) \<and>
    Triple_of4 a v s e = Triple_of (a @ ''-'' @ v @ ''-'' @ s @ ''-'' @ e)"
proof -
  have l: "length (a @ ''-'' @ v @ ''-'' @ s) < npos" "length s < npos" "length (s @ ''-'' @ e) < npos"
    using assms(4) by simp_all
  note j3 = accessors_join [OF assms(1,2) l(1)] component_free_of_dash [OF l(2) assms(3)]
  note j4 = accessors_join [OF assms(1,2) assms(4)] split_dash [OF assms(3) l(3)] rest_of_dash [OF assms(3) l(3)]
  have "parseEnvironment [] = UnknownEnvironment" "parseFormat [] = UnknownObjectFormat"
    by (simp_all add: parseEnvironment_def parseFormat_def switch_simps cong: StringSwitch_cong)
  then show ?thesis
    unfolding Triple_of3_def Triple_of4_def Triple_of_def j3 j4 by (simp add: Let_def j3)
qed

lemma constructors_agree_witness:
  "Triple_of3 ''x86_64'' ''apple'' ''darwin14'' = Triple_of ''x86_64-apple-darwin14''"
proof -
  have "length (''x86_64'' @ ''-'' @ ''apple'' @ ''-'' @ ''darwin14'' @ ''-'' @ []) < npos" by (simp add: npos_def)
  then show ?thesis using constructors_agree [of "''x86_64''" "''apple''" "''darwin14''" "[]"] by simp
qed

section \<open>Setters\<close>

lemma join_short:
  assumes "length a < 2 ^ 33" and "length v < 2 ^ 33" and "length x < 2 ^ 33"
  shows "length (a @ ''-'' @ v @ ''-'' @ x) < npos"
  using assms by (simp add: npos_def)

lemma setArchName_fields:
  assumes "CHR ''-'' \<notin> set Str" and "length Str < 32" and "length (Data T) < 2 ^ 32" and "consistent T"
  shows "consistent (setArchName T Str) \<and> Arch (setArchName T Str) = parseArch Str \<and>
    Vendor (setArchName T Str) = Vendor T \<and> OS (setArchName T Str) = OS T \<and>
    Environment (setArchName T Str) = Environment T"
proof -
  note b = component_bounds [OF assms(3)]
  have l: "length (Str @ ''-'' @ getVendorName (Data T) @ ''-'' @ getOSAndEnvironmentName (Data T)) < npos"
    using assms(2) b by (intro join_short) simp_all
  show ?thesis
    by (simp only: setArchName_def setTriple_def consistent_def Triple_of_fields consistent_fields [OF assms(4)]
        accessors_join [OF assms(1) b(2) l] os_env_parts simp_thms)
qed

lemma setVendorName_fields:
  assumes "CHR ''-'' \<notin> set Str" and "length Str < 32" and "length (Data T) < 2 ^ 32" and "consistent T"
  shows "consistent (setVendorName T Str) \<and> Vendor (setVendorName T Str) = parseVendor Str \<and>
    Arch (setVendorName T Str) = Arch T \<and> OS (setVendorName T Str) = OS T \<and>
    Environment (setVendorName T Str) = Environment T"
proof -
  note b = component_bounds [OF assms(3)]
  have l: "length (getArchName (Data T) @ ''-'' @ Str @ ''-'' @ getOSAndEnvironmentName (Data T)) < npos"
    using assms(2) b by (intro join_short) simp_all
  show ?thesis
    by (simp only: setVendorName_def setTriple_def consistent_def Triple_of_fields consistent_fields [OF assms(4)]
        accessors_join [OF b(1) assms(1) l] os_env_parts simp_thms)
qed

lemma setOSName_fields:
  assumes "CHR ''-'' \<notin> set Str" and "length Str < 32" and "length (Data T) < 2 ^ 32" and "consistent T"
  shows "consistent (setOSName T Str) \<and> OS (setOSName T Str) = parseOS Str \<and>
    Arch (setOSName T Str) = Arch T \<and> Vendor (setOSName T Str) = Vendor T \<and>
    Environment (setOSName T Str) = Environment T"
proof -
  note b = component_bounds [OF assms(3)]
  have x: "length (Str @ ''-'' @ getEnvironmentName (Data T)) < npos" "length Str < npos"
    using assms(2) b(7) by (simp_all add: npos_def)
  have l: "length (getArchName (Data T) @ ''-'' @ getVendorName (Data T) @ ''-'' @ Str @ ''-'' @ getEnvironmentName (Data T)) < npos"
    "length (getArchName (Data T) @ ''-'' @ getVendorName (Data T) @ ''-'' @ Str) < npos"
    using assms(2) b by (intro join_short; simp)+
  show ?thesis
  proof (cases "getEnvironmentName (Data T) = []")
    case True
    show ?thesis
      by (simp only: setOSName_def hasEnvironment_def True setTriple_def consistent_def Triple_of_fields
          consistent_fields [OF assms(4)] accessors_join [OF b(1,2) l(2)] component_free_of_dash [OF x(2) assms(1)]
          simp_thms if_False)
  next
    case False
    then show ?thesis
      by (simp only: setOSName_def hasEnvironment_def setTriple_def consistent_def Triple_of_fields
          consistent_fields [OF assms(4)] accessors_join [OF b(1,2) l(1)] split_dash [OF assms(1) x(1)]
          rest_of_dash [OF assms(1) x(1)] fst_conv simp_thms if_True)
  qed
qed

lemma setEnvironmentName_fields:
  assumes "length Str < 64" and "length (Data T) < 2 ^ 32" and "consistent T"
  shows "consistent (setEnvironmentName T Str) \<and> Environment (setEnvironmentName T Str) = parseEnvironment Str \<and>
    Arch (setEnvironmentName T Str) = Arch T \<and> Vendor (setEnvironmentName T Str) = Vendor T \<and>
    OS (setEnvironmentName T Str) = OS T \<and>
    ObjectFormat (setEnvironmentName T Str) =
      (if parseFormat Str = UnknownObjectFormat then getDefaultFormat T else parseFormat Str)"
proof -
  note b = component_bounds [OF assms(2)]
  have x: "length (getOSName (Data T) @ ''-'' @ Str) < npos"
    using assms(1) b(6) by (simp add: npos_def)
  have l: "length (getArchName (Data T) @ ''-'' @ getVendorName (Data T) @ ''-'' @ getOSName (Data T) @ ''-'' @ Str) < npos"
    using assms(1) b by (intro join_short) simp_all
  have f: "consistent (setEnvironmentName T Str) \<and> Environment (setEnvironmentName T Str) = parseEnvironment Str \<and>
    Arch (setEnvironmentName T Str) = Arch T \<and> Vendor (setEnvironmentName T Str) = Vendor T \<and>
    OS (setEnvironmentName T Str) = OS T"
    by (simp only: setEnvironmentName_def setTriple_def consistent_def Triple_of_fields consistent_fields [OF assms(3)]
        accessors_join [OF b(1,2) l] split_dash [OF b(3) x] rest_of_dash [OF b(3) x] fst_conv simp_thms)
  then have d: "getDefaultFormat (setEnvironmentName T Str) = getDefaultFormat T" by (intro getDefaultFormat_cong) simp_all
  have "ObjectFormat (setEnvironmentName T Str) =
      (if parseFormat Str = UnknownObjectFormat then getDefaultFormat (setEnvironmentName T Str) else parseFormat Str)"
    by (simp only: setEnvironmentName_def setTriple_def Triple_of_format
        accessors_join [OF b(1,2) l] rest_of_dash [OF b(3) x])
  with f d show ?thesis by simp
qed

lemma parseFormat_dash: "parseFormat (getEnvironmentTypeName k @ ''-'' @ getObjectFormatTypeName f) = f"
proof (cases f)
  case UnknownObjectFormat
  then show ?thesis by (cases k) (simp_all add: parseFormat_def switch_simps cong: StringSwitch_cong)
qed (use parseFormat_name [of f "getEnvironmentTypeName k @ ''-''"] in simp_all)

lemma parseEnvironment_format: "parseEnvironment (getObjectFormatTypeName f) = UnknownEnvironment"
  by (cases f) (simp_all add: parseEnvironment_def switch_simps cong: StringSwitch_cong)

lemma consistent_format_known: "consistent T \<Longrightarrow> ObjectFormat T \<noteq> UnknownObjectFormat"
  using consistent_fields(5) [of T] getDefaultFormat_known by (auto split: if_splits)

lemma setEnvironment_fields:
  assumes "consistent T" and "length (Data T) < 2 ^ 32"
  shows "let T' = setEnvironment T e in
      consistent T' \<and> Arch T' = Arch T \<and> Vendor T' = Vendor T \<and> OS T' = OS T \<and> Environment T' = e \<and>
      ObjectFormat T' = ObjectFormat T"
proof -
  have l: "length (getEnvironmentTypeName e) < 64"
    "length (getEnvironmentTypeName e @ ''-'' @ getObjectFormatTypeName (ObjectFormat T)) < 64"
    using environments.short [of e] formats.short [of "ObjectFormat T"] by simp_all
  show ?thesis
    using setEnvironmentName_fields [OF l(1) assms(2,1)] setEnvironmentName_fields [OF l(2) assms(2,1)]
      consistent_format_known [OF assms(1)]
    by (simp only: setEnvironment_def Let_def parseEnvironment_name parseEnvironment_name_dash parseFormat_environment
        parseFormat_dash simp_thms if_True if_False split: if_split) (rule impI, erule sym)
qed

lemma setObjectFormat_fields:
  assumes "consistent T" and "length (Data T) < 2 ^ 32"
  shows "let T' = setObjectFormat T f in
      consistent T' \<and> Arch T' = Arch T \<and> Vendor T' = Vendor T \<and> OS T' = OS T \<and> Environment T' = Environment T \<and>
      ObjectFormat T' = (if f = UnknownObjectFormat then getDefaultFormat T else f)"
proof -
  have l: "length (getObjectFormatTypeName f) < 64"
    "length (getEnvironmentTypeName (Environment T) @ ''-'' @ getObjectFormatTypeName f) < 64"
    using environments.short [of "Environment T"] formats.short [of f] by simp_all
  show ?thesis
    using setEnvironmentName_fields [OF l(1) assms(2,1)] setEnvironmentName_fields [OF l(2) assms(2,1)]
    by (simp only: setObjectFormat_def Let_def parseEnvironment_name_dash parseEnvironment_format
        formats.parse_name parseFormat_dash simp_thms split: if_split) (rule impI, erule sym)
qed

text \<open>C21: setting one component by its kind gives that kind, keeps the other components, and leaves the triple the
  one its string denotes; the object format too is kept when the environment is set.\<close>

theorem setters_frame:
  assumes "consistent T" and "length (Data T) < 2 ^ 32"
  shows "(let T' = setArch T k in
      consistent T' \<and> Arch T' = k \<and> Vendor T' = Vendor T \<and> OS T' = OS T \<and> Environment T' = Environment T) \<and>
    (let T' = setVendor T v in
      consistent T' \<and> Arch T' = Arch T \<and> Vendor T' = v \<and> OS T' = OS T \<and> Environment T' = Environment T) \<and>
    (let T' = setOS T s in
      consistent T' \<and> Arch T' = Arch T \<and> Vendor T' = Vendor T \<and> OS T' = s \<and> Environment T' = Environment T) \<and>
    (let T' = setEnvironment T e in
      consistent T' \<and> Arch T' = Arch T \<and> Vendor T' = Vendor T \<and> OS T' = OS T \<and> Environment T' = e \<and>
      ObjectFormat T' = ObjectFormat T) \<and>
    (let T' = setObjectFormat T f in
      consistent T' \<and> Arch T' = Arch T \<and> Vendor T' = Vendor T \<and> OS T' = OS T \<and> Environment T' = Environment T \<and>
      ObjectFormat T' = (if f = UnknownObjectFormat then getDefaultFormat T else f))"
  using setArchName_fields [OF archs.no_dash archs.short assms(2,1), of k]
    setVendorName_fields [OF vendors.no_dash vendors.short assms(2,1), of v]
    setOSName_fields [OF systems.no_dash systems.short assms(2,1), of s]
    setEnvironment_fields [OF assms, of e] setObjectFormat_fields [OF assms, of f]
  by (simp only: setArch_def setVendor_def setOS_def Let_def archs.parse_name vendors.parse_name systems.parse_name
      simp_thms)

lemma setters_frame_witness:
  "OS (setOS (Triple_of ''arm-none-linux-gnueabi'') FreeBSD) = FreeBSD \<and>
   Environment (setOS (Triple_of ''arm-none-linux-gnueabi'') FreeBSD) = Environment (Triple_of ''arm-none-linux-gnueabi'')"
proof -
  have "consistent (Triple_of ''arm-none-linux-gnueabi'')" "length (Data (Triple_of ''arm-none-linux-gnueabi'')) < 2 ^ 32"
    by (simp_all add: consistent_def Triple_of_fields)
  from setters_frame [OF this, where s = FreeBSD] show ?thesis by (simp add: Let_def)
qed

section \<open>Variants\<close>

definition same_platform :: "Triple \<Rightarrow> Triple \<Rightarrow> bool" where
  "same_platform T T' \<longleftrightarrow> Vendor T' = Vendor T \<and> OS T' = OS T \<and> Environment T' = Environment T"

lemma setArch_fields:
  assumes "consistent T" and "length (Data T) < 2 ^ 32"
  shows "consistent (setArch T k)" "Arch (setArch T k) = k" "same_platform T (setArch T k)"
  using setArchName_fields [OF archs.no_dash archs.short assms(2,1), of k]
  by (simp_all add: setArch_def archs.parse_name same_platform_def)

lemma variant_tables:
  "case variant32 k of None \<Rightarrow> getArchPointerBitWidth k = 32
   | Some l \<Rightarrow> getArchPointerBitWidth k \<noteq> 32 \<and> (l = UnknownArch \<or> getArchPointerBitWidth l = 32 \<and> variant64 l = Some k)"
  "case variant64 k of None \<Rightarrow> getArchPointerBitWidth k = 64
   | Some l \<Rightarrow> getArchPointerBitWidth k \<noteq> 64 \<and> (l = UnknownArch \<or> getArchPointerBitWidth l = 64 \<and> variant32 l = Some k)"
  by (cases k; simp)+

text \<open>The 32 bit variant has a 32 bit or the unknown architecture and otherwise the same platform, a 32 bit triple
  is its own, and where it is known the 64 bit variant of the 32 bit variant has the architecture of the start;
  so it is with 64 and 32 exchanged.\<close>

theorem arch_variants:
  assumes "consistent T" and "length (Data T) < 2 ^ 32"
  shows "(let V = get32BitArchVariant T in
      consistent V \<and> same_platform T V \<and> (isArch32Bit V \<or> Arch V = UnknownArch) \<and> (isArch32Bit T \<longrightarrow> V = T) \<and>
      (isArch64Bit T \<and> isArch32Bit V \<longrightarrow> variant64 (Arch V) = Some (Arch T))) \<and>
    (let V = get64BitArchVariant T in
      consistent V \<and> same_platform T V \<and> (isArch64Bit V \<or> Arch V = UnknownArch) \<and> (isArch64Bit T \<longrightarrow> V = T) \<and>
      (isArch32Bit T \<and> isArch64Bit V \<longrightarrow> variant32 (Arch V) = Some (Arch T)))"
  using variant_tables [of "Arch T"] setArch_fields [OF assms] assms(1)
  by (auto simp: get32BitArchVariant_def get64BitArchVariant_def isArch32Bit_def isArch64Bit_def same_platform_def Let_def
      split: option.splits)

lemma arch_variants_witness:
  "Arch (get32BitArchVariant (Triple_of ''x86_64-pc-linux'')) = UnknownArch \<or>
   isArch32Bit (get32BitArchVariant (Triple_of ''x86_64-pc-linux''))"
proof -
  have "consistent (Triple_of ''x86_64-pc-linux'')" "length (Data (Triple_of ''x86_64-pc-linux'')) < 2 ^ 32"
    by (simp_all add: consistent_def Triple_of_fields)
  from arch_variants [OF this] show ?thesis by (auto simp: Let_def)
qed

text \<open>The name of every architecture, vendor, system, environment and object format is parsed as that kind, also
  when a version follows the name of the system or a format that of the environment; no two kinds share a name.\<close>

theorem names_parse:
  "parseArch (getArchTypeName a) = a \<and> parseVendor (getVendorTypeName v) = v \<and>
   parseOS (getOSTypeName s @ version) = s \<and>
   parseEnvironment (getEnvironmentTypeName e @ ''-'' @ getObjectFormatTypeName f) = e \<and>
   parseFormat (getEnvironmentTypeName e @ ''-'' @ getObjectFormatTypeName f) = f \<and>
   inj getArchTypeName \<and> inj getVendorTypeName \<and> inj getOSTypeName \<and> inj getEnvironmentTypeName"
  by (intro conjI archs.parse_name vendors.parse_name parseOS_name parseEnvironment_name_dash parseFormat_dash)
    (simp_all add: inj_def archs.kind_name_eq_iff vendors.kind_name_eq_iff systems.kind_name_eq_iff
      environments.kind_name_eq_iff)

section \<open>Versions\<close>

lemma CharVal_10: "CharVal 10 c = (if in_range CHR ''0'' c CHR ''9'' then Some (of_char c - 48) else None)"
  by (auto simp: CharVal_def in_range_def)

lemma EatNumber_loop_digits:
  assumes "numeral_text 10 ds" and "rest = [] \<or> \<not> in_range CHR ''0'' (hd rest) CHR ''9''" and "length (ds @ rest) < npos"
  shows "EatNumber_loop (of_nat acc) (ds @ rest) = (of_nat (digits_value 10 acc ds), rest)"
  using assms(1,3)
proof (induction ds arbitrary: acc)
  case Nil
  show ?case using assms(2) by (subst EatNumber_loop.simps) auto
next
  case (Cons c ds)
  from Cons.prems(1) have r: "in_range CHR ''0'' c CHR ''9''" and v: "the (CharVal 10 c) = of_char c - 48"
    by (simp_all add: CharVal_10 split: if_splits)
  have t: "substr (c # ds @ rest) 1 npos = ds @ rest" using Cons.prems(2) by (simp add: substr_take)
  have e: "of_nat acc * 10 + of_nat (of_char c - of_char CHR ''0'') = (of_nat (acc * 10 + the (CharVal 10 c)) :: u32)"
    by (simp add: v)
  have "EatNumber_loop (of_nat acc) ((c # ds) @ rest) =
      EatNumber_loop (of_nat (acc * 10 + the (CharVal 10 c))) (ds @ rest)"
    using r t e by (subst EatNumber_loop.simps) simp
  also have "\<dots> = (of_nat (digits_value 10 (acc * 10 + the (CharVal 10 c)) ds), rest)"
    using Cons.prems by (intro Cons.IH) simp_all
  finally show ?case by simp
qed

lemma utostr_digits:
  "numeral_text 10 (utostr n False)" "digits_value 10 0 (utostr n False) = unat n" "utostr n False \<noteq> []"
  "length (utostr n False) \<le> 64"
proof -
  show "numeral_text 10 (utostr n False)" "digits_value 10 0 (utostr n False) = unat n" "utostr n False \<noteq> []"
    using text_value_utostr [of n] by (auto simp: text_value_def split: if_splits)
  show "length (utostr n False) \<le> 64"
    using numeral_of_short [OF utostr_numeral(1) _ u64_less] by (cases "n = 0") (auto simp: utostr_def [of 0] unat_eq_0)
qed

lemma EatNumber_utostr:
  assumes "rest = [] \<or> \<not> in_range CHR ''0'' (hd rest) CHR ''9''" and "length rest < 2 ^ 32"
  shows "EatNumber (utostr n False @ rest) = Some (of_nat (unat n), rest)"
proof -
  note d = utostr_digits [of n]
  obtain c cs where c: "utostr n False = c # cs" using d(3) by (cases "utostr n False") auto
  then have "in_range CHR ''0'' c CHR ''9''" using d(1) by (auto simp: CharVal_10 split: if_splits)
  moreover have "EatNumber_loop (of_nat 0) (utostr n False @ rest) = (of_nat (unat n), rest)"
    using EatNumber_loop_digits [OF d(1) assms(1), of 0] d(2,4) assms(2) by (simp add: npos_def)
  ultimately show ?thesis by (simp add: EatNumber_def c)
qed

definition version_text :: "u64 \<Rightarrow> u64 \<Rightarrow> u64 \<Rightarrow> string" where
  "version_text a b c = utostr a False @ ''.'' @ utostr b False @ ''.'' @ utostr c False"

lemma version_numbers_text:
  "version_numbers 3 (version_text a b c) = [of_nat (unat a), of_nat (unat b), of_nat (unat c)]"
proof -
  have dot: "\<not> in_range CHR ''0'' CHR ''.'' CHR ''9''" by (simp add: in_range_def)
  note l = utostr_digits(4)
  have a: "EatNumber (version_text a b c) = Some (of_nat (unat a), ''.'' @ utostr b False @ ''.'' @ utostr c False)"
    unfolding version_text_def using dot l [of b] l [of c] by (intro EatNumber_utostr) simp_all
  have b: "EatNumber (utostr b False @ ''.'' @ utostr c False) = Some (of_nat (unat b), ''.'' @ utostr c False)"
    using dot l [of c] by (intro EatNumber_utostr) simp_all
  have c: "EatNumber (utostr c False) = Some (of_nat (unat c), [])"
    using EatNumber_utostr [of "[]" c] by simp
  have s: "substr (''.'' @ x) 1 npos = x" if "length x < 2 ^ 33" for x
    using that by (simp add: substr_take npos_def)
  have sb: "substr (''.'' @ utostr b False @ ''.'' @ utostr c False) 1 npos = utostr b False @ ''.'' @ utostr c False"
    using l [of b] l [of c] by (intro s) simp
  have sc: "substr (''.'' @ utostr c False) 1 npos = utostr c False" using l [of c] by (intro s) simp
  show ?thesis
    using sb sc by (simp add: numeral_3_eq_3 a b [simplified] c startswith_simps)
qed

lemma triple_version:
  assumes "CHR ''-'' \<notin> set a" and "CHR ''-'' \<notin> set v" and "length a < 2 ^ 32" and "length v < 2 ^ 32"
  shows "let T = Triple_of (a @ ''-'' @ v @ ''-'' @ getOSTypeName s @ version_text x y z) in
    OS T = s \<and> getOSVersion T = [ucast x, ucast y, ucast z]"
proof -
  let ?o = "getOSTypeName s @ version_text x y z"
  note l = utostr_digits(4)
  have vl: "length (version_text x y z) < 2 ^ 33" using l [of x] l [of y] l [of z] by (simp add: version_text_def)
  have ol: "length ?o < npos" using vl systems.short [of s] by (simp add: npos_def)
  have al: "length (a @ ''-'' @ v @ ''-'' @ ?o) < npos" using assms(3,4) vl systems.short [of s] by (simp add: npos_def)
  have digits: "CHR ''-'' \<notin> set (utostr n False)" for n
    using utostr_digits(1) [of n] by (auto simp: numeral_text_def CharVal_10 in_range_def)
  have dash: "CHR ''-'' \<notin> set ?o" using digits systems.no_dash [of s] by (simp add: version_text_def)
  note j = accessors_join [OF assms(1,2) al] component_free_of_dash [OF ol dash]
  have "parseEnvironment [] = UnknownEnvironment"
    by (simp add: parseEnvironment_def switch_simps cong: StringSwitch_cong)
  moreover define D where "D = a @ ''-'' @ v @ ''-'' @ ?o"
  moreover have n: "getOSName D = ?o" "getEnvironmentName D = []" unfolding D_def by (simp_all only: j)
  ultimately have f: "OS (Triple_of D) = s" "Environment (Triple_of D) = UnknownEnvironment"
    by (simp_all only: Triple_of_fields parseOS_name)
  have sub: "substr ?o (length (getOSTypeName s)) npos = version_text x y z"
    using vl by (simp add: substr_take npos_def)
  have "startswith ?o (getOSTypeName s)" by (auto simp: startswith_append)
  moreover have "of_nat (unat n) = (ucast n :: u32)" for n :: u64 by (simp add: unsigned_of_nat)
  ultimately have "getOSVersion (Triple_of D) = [ucast x, ucast y, ucast z]"
    using f sub version_numbers_text [of x y z] by (simp add: getOSVersion_def Let_def Triple_of_fields(1) n)
  with f(1) show ?thesis by (simp only: Let_def simp_thms flip: D_def)
qed

text \<open>A triple whose system is written with a version of three numbers has that system and reports those
  numbers, each modulo \<open>2 ^ 32\<close>.\<close>

theorem getOSVersion_reads_back:
  assumes "CHR ''-'' \<notin> set a" and "CHR ''-'' \<notin> set v" and "length a < 2 ^ 32" and "length v < 2 ^ 32"
  shows "let T = Triple_of (a @ ''-'' @ v @ ''-'' @ getOSTypeName s @ version_text x y z) in
    OS T = s \<and> getOSVersion T = [ucast x, ucast y, ucast z]"
  by (rule triple_version [OF assms])

lemma getOSVersion_reads_back_witness:
  "getOSVersion (Triple_of (''x86_64-apple-macosx'' @ version_text 10 9 1)) = [10, 9, 1]"
  using getOSVersion_reads_back [of "''x86_64''" "''apple''" MacOSX 10 9 1] by (simp add: Let_def)

text \<open>The comparison of versions is the lexicographic order except between versions that differ in the third
  number alone: there the second number is compared with the other's third, and the result is wrong exactly when
  that differs from comparing the third ones.\<close>

theorem isOSVersionLT_order:
  assumes "getOSVersion T = [a, b, c]" and "getOSVersion U = [a', b', c']"
  shows "(isOSVersionLT_triple T U \<longleftrightarrow> a < a' \<or> a = a' \<and> (b < b' \<or> b = b' \<and> c < c')) \<longleftrightarrow>
    \<not> (a = a' \<and> b = b' \<and> c \<noteq> c' \<and> (b < c') \<noteq> (c < c'))"
  by (auto simp: isOSVersionLT_triple_def isOSVersionLT_def assms Let_def)

lemma isOSVersionLT_order_witness:
  "isOSVersionLT_triple (Triple_of (''x86_64-apple-macosx'' @ version_text 10 1 5))
     (Triple_of (''x86_64-apple-macosx'' @ version_text 10 1 2))"
proof -
  have v: "getOSVersion (Triple_of (''x86_64-apple-macosx'' @ version_text x y z)) = [ucast x, ucast y, ucast z]" for x y z
    using triple_version [of "''x86_64''" "''apple''" MacOSX x y z] by (simp add: Let_def)
  have "(5 :: u32) \<noteq> 2" "\<not> (5 :: u32) < 2" "(1 :: u32) < 2" by simp_all
  then show ?thesis using isOSVersionLT_order [OF v v, of 10 1 5 10 1 2] by simp
qed

section \<open>Normalisation\<close>

lemma skip_fixed_stop: "Idx \<ge> i \<Longrightarrow> Idx \<ge> 4 \<or> \<not> F ! Idx \<Longrightarrow> skip_fixed F i \<le> Idx"
proof (induction F i rule: skip_fixed.induct)
  case (1 F i)
  show ?case
  proof (cases "i < 4 \<and> F ! i")
    case True
    then have "i \<noteq> Idx" using "1.prems"(2) by auto
    then show ?thesis using 1 True by (subst skip_fixed.simps) simp
  qed (use "1.prems"(1) in \<open>subst skip_fixed.simps, auto\<close>)
qed

lemma skip_fixed_self: "\<not> F ! i \<Longrightarrow> skip_fixed F i = i"
  by (simp add: skip_fixed.simps)

lemma skip_fixed_found: "i \<le> k \<Longrightarrow> k < skip_fixed F i \<Longrightarrow> k < 4 \<and> F ! k"
proof (induction F i rule: skip_fixed.induct)
  case (1 F i)
  then show ?case by (cases "k = i") (auto simp: skip_fixed.simps [of F i] split: if_splits)
qed

text \<open>Inserting to the left stays in range: it ends at the place the component left empty.\<close>

lemma insert_left_result:
  assumes "C ! Idx = []" and "i \<le> Idx" and "Idx < length C" and "Idx \<ge> 4 \<or> \<not> F ! Idx"
  shows "\<exists>C'. insert_left F C i cur = Some C' \<and> length C' = length C \<and> (\<forall>k < i. C' ! k = C ! k) \<and>
    (cur \<noteq> [] \<longrightarrow> C' ! skip_fixed F i = cur)"
  using assms
proof (induction F C i cur rule: insert_left.induct)
  case (1 F C i cur)
  show ?case
  proof (cases "cur = []")
    case True
    then show ?thesis by (simp add: insert_left.simps)
  next
    case False
    define j where "j = skip_fixed F i"
    have j: "i \<le> j" "j \<le> Idx" using skip_fixed_ge skip_fixed_stop 1(3,5) by (simp_all add: j_def)
    have step: "insert_left F C i cur = insert_left F (C[j := cur]) (j + 1) (C ! j)"
      using False j "1.prems"(3) by (subst insert_left.simps) (simp add: j_def [symmetric] Let_def)
    show ?thesis
    proof (cases "j = Idx")
      case True
      then have "insert_left F C i cur = Some (C[j := cur])" using "1.prems"(1) unfolding step by (subst insert_left.simps) simp
      then show ?thesis using j True "1.prems"(3) by (simp add: j_def [symmetric])
    next
      case neq: False
      then obtain C' where "insert_left F (C[j := cur]) (j + 1) (C ! j) = Some C'" "length C' = length C"
        "\<forall>k < j + 1. C' ! k = C[j := cur] ! k"
        using "1.IH" [OF False j_def] j "1.prems" by auto
      then show ?thesis using j "1.prems"(3) by (auto simp: step simp flip: j_def)
    qed
  qed
qed

text \<open>Pushing to the right puts the component at the next place that is not fixed.\<close>

lemma push_empty_result:
  assumes "push_empty F C i cur = (C', r)"
  shows "length C' = length C \<and> (\<forall>k < i. C' ! k = C ! k) \<and> (i < length C \<longrightarrow> C' ! i = cur) \<and>
    (\<not> i < length C \<longrightarrow> r = cur)"
  using assms
proof (induction F C i cur arbitrary: C' r rule: push_empty.induct)
  case (1 F C i cur)
  show ?case
  proof (cases "i < length C \<and> C ! i \<noteq> []")
    case True
    then have rec: "push_empty F (C[i := cur]) (skip_fixed F (i + 1)) (C ! i) = (C', r)"
      using "1.prems" by (simp add: push_empty.simps [of F C])
    have "i + 1 \<le> skip_fixed F (i + 1)" by (rule skip_fixed_ge)
    then show ?thesis using "1.IH" [OF _ _ rec] True by auto
  next
    case False
    then show ?thesis using "1.prems" by (auto simp: push_empty.simps [of F C] split: if_splits)
  qed
qed

lemma push_right_result:
  assumes "Idx < Pos" and "Pos < 4" and "\<not> F ! Pos" and "Idx < length C" and "C ! Idx \<noteq> []"
    and "\<forall>k < 4. F ! k \<longrightarrow> k < length C"
  shows "Pos < length (push_right F C Idx Pos) \<and> push_right F C Idx Pos ! Pos = C ! Idx \<and>
    length C \<le> length (push_right F C Idx Pos)"
  using assms
proof (induction F C Idx Pos rule: push_right.induct)
  case (1 F C Idx Pos)
  define n where "n = skip_fixed F (Idx + 1)"
  have n: "Idx + 1 \<le> n" "n \<le> Pos" using skip_fixed_ge skip_fixed_stop "1.prems"(1,3) by (simp_all add: n_def)
  have "n \<le> length C"
  proof (rule ccontr)
    assume "\<not> n \<le> length C"
    then have "length C < 4 \<and> F ! length C"
      using "1.prems"(4) by (intro skip_fixed_found [of "Idx + 1"]) (simp_all add: n_def)
    with "1.prems"(6) show False by blast
  qed
  obtain C1 r where e: "push_empty F C Idx [] = (C1, r)" by fastforce
  have "push_empty F (C[Idx := []]) n (C ! Idx) = (C1, r)"
    using e "1.prems"(4,5) by (simp add: push_empty.simps [of F C] n_def)
  note p = push_empty_result [OF this]
  define C2 where "C2 = (if r \<noteq> [] then C1 @ [r] else C1)"
  have C2: "n < length C2" "C2 ! n = C ! Idx" "length C \<le> length C2"
    using p \<open>n \<le> length C\<close> "1.prems"(5) by (auto simp: C2_def nth_append)
  have step: "push_right F C Idx Pos = (if n < Pos then push_right F C2 n Pos else C2)"
    by (subst push_right.simps) (simp add: e C2_def n_def Let_def)
  show ?case
  proof (cases "n < Pos")
    case True
    have "\<forall>k < 4. F ! k \<longrightarrow> k < length C2" using "1.prems"(6) C2(3) by fastforce
    moreover have "push_empty F C Idx [] = (C1, r)" by (rule e)
    ultimately have "Pos < length (push_right F C2 n Pos) \<and> push_right F C2 n Pos ! Pos = C2 ! n \<and>
        length C2 \<le> length (push_right F C2 n Pos)"
      using "1.IH" [OF e [symmetric] refl refl refl, folded n_def C2_def, OF True]
        True "1.prems" C2 by (simp add: C2_def n_def)
    then show ?thesis using C2 True step by simp
  next
    case False
    then show ?thesis using C2 n step by simp
  qed
qed

definition norm_ok :: "norm \<Rightarrow> bool" where
  "norm_ok st \<longleftrightarrow> length (Found st) = 4 \<and> (\<forall>k < 4. Found st ! k \<longrightarrow> k < length (Components st))"

lemma parse_empty:
  "parseArch [] = UnknownArch" "parseVendor [] = UnknownVendor" "parseOS [] = UnknownOS"
  "parseEnvironment [] = UnknownEnvironment" "parseFormat [] = UnknownObjectFormat"
  by (simp_all add: parseArch_def parseVendor_def parseOS_def parseEnvironment_def parseFormat_def switch_simps
      cong: StringSwitch_cong)

lemma norm_valid_nonempty: "fst (norm_valid Pos Comp st) \<Longrightarrow> Comp \<noteq> []"
  by (auto simp: norm_valid_def Let_def parse_empty startswith_simps split: if_splits)

lemma norm_move_ok:
  assumes "norm_ok st" and "Pos < 4" and "\<not> Found st ! Pos" and "Idx < length (Components st)"
    and "Components st ! Idx \<noteq> []" and "\<not> (Idx < 4 \<and> Found st ! Idx)"
  shows "\<exists>st'. norm_move Pos Idx st = Some st' \<and> norm_ok st'"
proof -
  note ok = assms(1) [unfolded norm_ok_def]
  have moved: "\<exists>st'. norm_move Pos Idx st = Some st' \<and> norm_ok st'"
    if "(if Pos < Idx then insert_left (Found st) ((Components st)[Idx := []]) Pos (Components st ! Idx)
         else if Pos > Idx then Some (push_right (Found st) (Components st) Idx Pos) else Some (Components st)) = Some C"
      "Pos < length C" "C ! Pos = Components st ! Idx" "length (Components st) \<le> length C" for C
    using that ok assms(2,4) by (fastforce simp: norm_move_def norm_ok_def nth_list_update)
  consider "Pos < Idx" | "Pos > Idx" | "Pos = Idx" by linarith
  then show ?thesis
  proof cases
    case 1
    then obtain C where "insert_left (Found st) ((Components st)[Idx := []]) Pos (Components st ! Idx) = Some C"
      "length C = length (Components st)" "C ! skip_fixed (Found st) Pos = Components st ! Idx"
      using insert_left_result [of "(Components st)[Idx := []]" Idx Pos "Found st" "Components st ! Idx"] assms by auto
    then show ?thesis using 1 assms skip_fixed_self [of "Found st" Pos] by (intro moved) auto
  next
    case 2
    then show ?thesis
      using push_right_result [OF 2 assms(2,3,4,5)] ok by (intro moved [of "push_right (Found st) (Components st) Idx Pos"]) auto
  next
    case 3
    then show ?thesis using assms by (intro moved [of "Components st"]) auto
  qed
qed

lemma norm_find_ok:
  assumes "norm_ok st" and "Pos < 4" and "\<not> Found st ! Pos"
  shows "\<exists>st'. norm_find Pos Idx st = Some st' \<and> norm_ok st'"
  using assms
proof (induction Pos Idx st rule: norm_find.induct)
  case (1 Pos Idx st)
  show ?case
  proof (cases "Idx < length (Components st)")
    case False
    then show ?thesis using "1.prems" by (simp add: norm_find.simps [of Pos])
  next
    case Idx: True
    show ?thesis
    proof (cases "Idx < 4 \<and> Found st ! Idx")
      case True
      then show ?thesis using "1.IH"(1) [OF Idx True "1.prems"] Idx by (simp add: norm_find.simps [of Pos Idx])
    next
      case free: False
      obtain v s where vs: "norm_valid Pos (Components st ! Idx) st = (v, s)" by fastforce
      have s: "Components s = Components st" "Found s = Found st"
        using norm_valid_frame [of Pos "Components st ! Idx" st] by (simp_all add: vs)
      then have ok: "norm_ok s" using "1.prems"(1) by (simp add: norm_ok_def)
      show ?thesis
      proof (cases v)
        case True
        then have "Components st ! Idx \<noteq> []" using norm_valid_nonempty [of Pos "Components st ! Idx" st] vs by simp
        then have "\<exists>st'. norm_move Pos Idx s = Some st' \<and> norm_ok st'"
          using norm_move_ok [OF ok, of Pos Idx] s free Idx "1.prems" by simp
        moreover have "norm_find Pos Idx st = norm_move Pos Idx s"
          using True Idx vs unfolding norm_find.simps [of Pos Idx] if_not_P [OF free] by simp
        ultimately show ?thesis by simp
      next
        case False
        then have "\<exists>st'. norm_find Pos (Idx + 1) s = Some st' \<and> norm_ok st'"
          using "1.IH"(2) [OF Idx free vs [symmetric] refl] ok s "1.prems" by auto
        moreover have "norm_find Pos Idx st = norm_find Pos (Idx + 1) s"
          using False Idx vs unfolding norm_find.simps [of Pos Idx] if_not_P [OF free] by simp
        ultimately show ?thesis by simp
      qed
    qed
  qed
qed

lemma norm_start_ok: "norm_ok (norm_start Comps)"
  by (auto simp: norm_ok_def norm_start_def Let_def less_Suc_eq numeral_eq_Suc)

lemma norm_fold_ok: "n \<le> 4 \<Longrightarrow> \<exists>st. fold norm_position [0..<n] (Some (norm_start Comps)) = Some st \<and> norm_ok st"
proof (induction n)
  case (Suc n)
  then obtain st where "fold norm_position [0..<n] (Some (norm_start Comps)) = Some st" "norm_ok st" by auto
  then have "\<exists>st'. norm_position n (Some st) = Some st' \<and> norm_ok st'"
    using norm_find_ok [of st n 0] Suc.prems by (simp add: norm_position_def)
  then show ?case using \<open>fold norm_position [0..<n] (Some (norm_start Comps)) = Some st\<close> by simp
qed (simp add: norm_start_ok)

text \<open>The special cases write to components that \<open>resize\<close> has just made.\<close>

lemma length_resize [simp]: "length (resize n xs) = n"
  by (simp add: resize_def)

lemma norm_special_writes: "\<exists>C. norm_special st = Some C"
  by (simp add: norm_special_def set_component_def Let_def)

text \<open>C6: normalisation returns a string for every triple shorter than 4 GiB, the bound below which \<open>split\<close> returns: no
  assertion fails, and every component that is moved, or written by the special cases for Windows, is in range.\<close>

theorem normalize_total:
  assumes "length Str < 2 ^ 32"
  shows "normalize Str \<noteq> None"
proof -
  obtain Comps where "split (Some Str) ''-'' (- 1) True = Some Comps"
    by (rule split_joined_parts [of "''-''" "- 1" Str]) (use assms in simp_all)
  then show ?thesis using norm_fold_ok [of 4 Comps] norm_special_writes by (fastforce simp: normalize_def)
qed

lemma normalize_total_witness: "normalize ''a-mingw32-i386'' \<noteq> None"
  using normalize_total [of "''a-mingw32-i386''"] by simp

lemma parseOS_cyg_mingw:
  assumes "parseOS Str \<noteq> UnknownOS"
  shows "\<not> startswith Str ''cygwin'' \<and> \<not> startswith Str ''mingw''"
proof -
  have "parseOS (''cygwin'' @ x) = UnknownOS" "parseOS (''mingw'' @ x) = UnknownOS" for x
    by (simp_all add: parseOS_def switch_simps cong: StringSwitch_cong)
  then show ?thesis using assms by (auto simp: startswith_append)
qed

lemma norm_find_skip:
  "Idx < length (Components st) \<Longrightarrow> Idx < 4 \<Longrightarrow> Found st ! Idx \<Longrightarrow> norm_find Pos Idx st = norm_find Pos (Idx + 1) st"
  by (subst norm_find.simps) simp

text \<open>What the search for one position leaves alone when the first three are found.\<close>

lemma norm_find_kept:
  assumes "3 \<le> length (Components st)" and "length (Components st) \<le> 4" and "take 3 (Found st) = [True, True, True]"
    and "length (Found st) = 4" and "\<not> Found st ! 3"
  shows "\<exists>st'. norm_find 3 0 st = Some st' \<and> Components st' = Components st \<and> nOS st' = nOS st \<and>
    IsCygwin st' = IsCygwin st \<and> IsMinGW32 st' = IsMinGW32 st"
proof -
  have F: "Found st ! 0" "Found st ! 1" "Found st ! 2"
    using assms(3,4) by (auto simp: take_Suc_conv_app_nth numeral_3_eq_3 numeral_2_eq_2)
  have "norm_find 3 0 st = norm_find 3 3 st"
    using F assms(1) norm_find_skip [of 0 st 3] norm_find_skip [of 1 st 3] norm_find_skip [of 2 st 3]
    by (fastforce simp: numeral_2_eq_2 numeral_3_eq_3)
  moreover have "\<exists>st'. norm_find 3 3 st = Some st' \<and> Components st' = Components st \<and> nOS st' = nOS st \<and>
      IsCygwin st' = IsCygwin st \<and> IsMinGW32 st' = IsMinGW32 st"
    using assms by (auto simp: norm_find.simps [of 3 3] norm_find.simps [of 3 4] norm_valid_def norm_move_def Let_def)
  ultimately show ?thesis by simp
qed

text \<open>A triple whose first three components are an architecture, a vendor and a system other than Windows, each
  in its place, and which has no more than an environment after them, or a known one, is its own normal form.\<close>

theorem normalize_canonical:
  assumes "length Str < 2 ^ 32" and "split (Some Str) ''-'' (- 1) True = Some Comps" and "3 \<le> length Comps"
    and "parseArch (Comps ! 0) \<noteq> UnknownArch" and "parseVendor (Comps ! 1) \<noteq> UnknownVendor"
    and "parseOS (Comps ! 2) \<noteq> UnknownOS" and "parseOS (Comps ! 2) \<noteq> Win32"
    and "length Comps \<le> 4 \<or> parseEnvironment (Comps ! 3) \<noteq> UnknownEnvironment"
  shows "normalize Str = Some Str"
proof -
  define st where "st = norm_start Comps"
  have st: "Components st = Comps" "Found st = [True, True, True, 3 < length Comps \<and> parseEnvironment (Comps ! 3) \<noteq> UnknownEnvironment]"
    "nOS st = parseOS (Comps ! 2)" "\<not> IsCygwin st" "\<not> IsMinGW32 st"
    using assms(3-6) parseOS_cyg_mingw [OF assms(6)] by (auto simp: st_def norm_start_def Let_def)
  have "\<exists>st'. norm_position 3 (Some st) = Some st' \<and> Components st' = Comps \<and> nOS st' = parseOS (Comps ! 2) \<and>
      \<not> IsCygwin st' \<and> \<not> IsMinGW32 st'"
  proof (cases "Found st ! 3")
    case True
    then show ?thesis using st by (auto simp: norm_position_def)
  next
    case False
    then have "length Comps \<le> 4" using assms(8) st(2) by auto
    then show ?thesis using False norm_find_kept [of st] st assms(3) by (auto simp: norm_position_def)
  qed
  then obtain st' where st': "norm_position 3 (Some st) = Some st'" "Components st' = Comps"
    "nOS st' = parseOS (Comps ! 2)" "\<not> IsCygwin st'" "\<not> IsMinGW32 st'"
    by blast
  have four: "[0..<4] = [0, 1, 2, 3 :: nat]" by (simp add: numeral_eq_Suc)
  have "norm_position k (Some st) = Some st" if "k < 3" for k
    using that st(2) by (auto simp: norm_position_def numeral_eq_Suc less_Suc_eq)
  then have "fold norm_position [0..<4] (Some st) = Some st'" unfolding four by (simp add: st'(1))
  moreover have "norm_special st' = Some Comps" using st' assms(7) by (simp add: norm_special_def Let_def)
  moreover have "join Comps ''-'' = Str"
    by (rule split_joined_parts [of "''-''" "- 1" Str]) (use assms(1,2) in simp_all)
  ultimately show ?thesis using assms(2) by (simp add: normalize_def st_def)
qed

lemma normalize_canonical_witness: "normalize ''mips-pc-linux'' = Some ''mips-pc-linux''"
proof -
  have "split (Some ''mips-pc-linux'') ''-'' (- 1) True = Some [''mips'', ''pc'', ''linux'']"
  proof -
    have "split_str ''mips-pc-linux'' ''-'' = (''mips'', Some ''pc-linux'')"
      "split_str ''pc-linux'' ''-'' = (''pc'', Some ''linux'')" "split_str ''linux'' ''-'' = (''linux'', None)"
      by (simp_all add: split_str_def find_str_def first_index_def upt_conv_Cons substr_take slice_def npos_def)
    then show ?thesis by (simp add: split_def split_loop.simps)
  qed
  then show ?thesis
    using parseArch_name [of mips] parseVendor_name [of PC] parseOS_name [of Linux "[]"]
    by (intro normalize_canonical [of _ "[''mips'', ''pc'', ''linux'']"]) simp_all
qed

end
