(* ===== verification/IntEqClasses.thy ===== *)
theory IntEqClasses
  imports LLVM_Prelude
begin

text \<open>
  Equivalence classes of the integers \<open>0, ..., n - 1\<close> (\<open>include/llvm/ADT/IntEqClasses.h\<close>,
  \<open>lib/Support/IntEqClasses.cpp\<close>).

  The state is the vector \<open>EC\<close> and the number of classes, 0 while uncompressed. An operation returns \<open>None\<close> where
  an assertion of the code fails or an index is out of range; the two loops that follow the vector also return
  \<open>None\<close> if they never end. Sizes stay below \<open>2 ^ 32\<close>, so the entries are natural numbers.
\<close>

section \<open>The operations\<close>

record IntEqClasses =
  EC :: "nat list"
  NumClasses :: nat

definition grow :: "nat \<Rightarrow> IntEqClasses \<Rightarrow> IntEqClasses option" where
  "grow N s = (if NumClasses s \<noteq> 0 then None else Some (s\<lparr> EC := EC s @ [length (EC s)..<N] \<rparr>))"

definition new_classes :: "nat \<Rightarrow> IntEqClasses option" where
  "new_classes N = grow N \<lparr> EC = [], NumClasses = 0 \<rparr>"

definition clear :: "IntEqClasses \<Rightarrow> IntEqClasses" where
  "clear s = \<lparr> EC = [], NumClasses = 0 \<rparr>"

partial_function (option) join_loop :: "nat list \<Rightarrow> nat \<Rightarrow> nat \<Rightarrow> nat \<Rightarrow> nat \<Rightarrow> nat list option" where
  "join_loop E a b eca ecb =
    (if eca \<noteq> ecb then
       if eca < ecb then
         if ecb < length E then join_loop (E[b := eca]) a ecb eca (E[b := eca] ! ecb) else None
       else
         if eca < length E then join_loop (E[a := ecb]) eca b (E[a := ecb] ! eca) ecb else None
     else Some E)"

definition join_classes :: "IntEqClasses \<Rightarrow> nat \<Rightarrow> nat \<Rightarrow> IntEqClasses option" where
  "join_classes s a b =
    (if NumClasses s \<noteq> 0 \<or> length (EC s) \<le> a \<or> length (EC s) \<le> b then None
     else map_option (\<lambda>E. s\<lparr> EC := E \<rparr>) (join_loop (EC s) a b (EC s ! a) (EC s ! b)))"

partial_function (option) find_loop :: "nat list \<Rightarrow> nat \<Rightarrow> nat option" where
  "find_loop E a =
    (if a < length E then if a \<noteq> E ! a then find_loop E (E ! a) else Some a else None)"

definition findLeader :: "IntEqClasses \<Rightarrow> nat \<Rightarrow> nat option" where
  "findLeader s a = (if NumClasses s \<noteq> 0 then None else find_loop (EC s) a)"

definition compress :: "IntEqClasses \<Rightarrow> IntEqClasses" where
  "compress s =
    (if NumClasses s \<noteq> 0 then s
     else for_upto 0 (length (EC s))
       (\<lambda>i s. if EC s ! i = i then s\<lparr> EC := (EC s)[i := NumClasses s], NumClasses := NumClasses s + 1 \<rparr>
              else s\<lparr> EC := (EC s)[i := EC s ! (EC s ! i)] \<rparr>) s)"

definition class_of :: "IntEqClasses \<Rightarrow> nat \<Rightarrow> nat option" where
  "class_of s a = (if NumClasses s = 0 \<or> length (EC s) \<le> a then None else Some (EC s ! a))"

definition uncompress :: "IntEqClasses \<Rightarrow> IntEqClasses" where
  "uncompress s =
    (if NumClasses s = 0 then s
     else
       let (E, Leader) = for_upto 0 (length (EC s))
             (\<lambda>i (E, Leader). if E ! i < length Leader then (E[i := Leader ! (E ! i)], Leader) else (E[i := i], Leader @ [i]))
             (EC s, [])
       in \<lparr> EC = E, NumClasses = 0 \<rparr>)"

section \<open>Connected numbers\<close>

definition conn :: "(nat \<times> nat) set \<Rightarrow> (nat \<times> nat) set" where
  "conn E = (E \<union> E\<inverse>)\<^sup>*"

lemma conn_refl [simp]: "(i, i) \<in> conn E"
  by (simp add: conn_def)

lemma conn_edge: "(i, j) \<in> E \<Longrightarrow> (i, j) \<in> conn E"
  by (auto simp: conn_def)

lemma conn_sym: "(i, j) \<in> conn E \<Longrightarrow> (j, i) \<in> conn E"
proof -
  have "(E \<union> E\<inverse>)\<inverse> = E \<union> E\<inverse>" by auto
  then show "(i, j) \<in> conn E \<Longrightarrow> (j, i) \<in> conn E" unfolding conn_def by (metis converse_iff rtrancl_converse)
qed

lemma conn_trans: "(i, j) \<in> conn E \<Longrightarrow> (j, k) \<in> conn E \<Longrightarrow> (i, k) \<in> conn E"
  by (simp add: conn_def)

lemma conn_least: "E \<subseteq> conn F \<Longrightarrow> conn E \<subseteq> conn F"
proof -
  assume "E \<subseteq> conn F"
  then have "E \<union> E\<inverse> \<subseteq> conn F" using conn_sym by auto
  then have "conn E \<subseteq> (conn F)\<^sup>*" unfolding conn_def [of E] by (rule rtrancl_mono)
  then show ?thesis by (simp add: conn_def)
qed

lemma conn_mono: "E \<subseteq> F \<Longrightarrow> conn E \<subseteq> conn F"
  by (intro conn_least subrelI) (blast intro: conn_edge)

text \<open>The classes a vector stands for.\<close>

definition links :: "nat list \<Rightarrow> (nat \<times> nat) set" where
  "links E = {(i, E ! i) |i. i < length E}"

definition ordered :: "nat list \<Rightarrow> bool" where
  "ordered E \<longleftrightarrow> (\<forall>i < length E. E ! i \<le> i)"

lemma ordered_update: "ordered E \<Longrightarrow> x \<le> i \<Longrightarrow> ordered (E[i := x])"
  by (cases "i < length E") (auto simp: ordered_def nth_list_update)

lemma link: "i < length E \<Longrightarrow> (i, E ! i) \<in> conn (links E)"
  by (intro conn_edge) (auto simp: links_def)

section \<open>Joining\<close>

text \<open>One round: the entry of \<open>b\<close> is redirected to the entry of \<open>a\<close>, and \<open>a\<close> has yet to be joined to the old one.\<close>

lemma conn_round:
  assumes "a < length E" and "b < length E" and "a \<noteq> b"
  shows "conn (insert (a, E ! b) (links (E[b := E ! a]))) = conn (insert (a, b) (links E))" (is "conn ?L = conn ?R")
proof (rule antisym)
  have R: "(a, b) \<in> conn ?R" "(a, E ! a) \<in> conn ?R" "(b, E ! b) \<in> conn ?R"
    using assms by (auto simp: links_def intro: conn_edge)
  show "conn ?L \<subseteq> conn ?R"
  proof (intro conn_least subrelI)
    fix i j
    assume "(i, j) \<in> ?L"
    then consider "i = a" "j = E ! b" | "i = b" "j = E ! a" | "(i, j) \<in> links E"
      using assms by (auto simp: links_def nth_list_update split: if_splits)
    then show "(i, j) \<in> conn ?R"
      using R by cases (auto intro: conn_trans conn_sym conn_edge)
  qed
  have L: "(a, E ! b) \<in> conn ?L" "(a, E ! a) \<in> conn ?L" "(b, E ! a) \<in> conn ?L"
    using assms by (auto simp: links_def nth_list_update intro!: conn_edge)
  have ab: "(a, b) \<in> conn ?L" using L(2) conn_sym [OF L(3)] by (rule conn_trans)
  show "conn ?R \<subseteq> conn ?L"
  proof (intro conn_least subrelI)
    fix i j
    assume "(i, j) \<in> ?R"
    then consider "i = a" "j = b" | "i = b" "j = E ! b" | "(i, j) \<in> links (E[b := E ! a])"
      using assms by (cases "i = b") (auto simp: links_def nth_list_update)
    then show "(i, j) \<in> conn ?L"
      using ab L(1) conn_trans [OF conn_sym [OF ab] L(1)] by cases (auto intro: conn_edge)
  qed
qed

lemma conn_insert_swap: "conn (insert (a, b) E) = conn (insert (b, a) E)"
proof -
  have "(insert (a, b) E) \<union> (insert (a, b) E)\<inverse> = (insert (b, a) E) \<union> (insert (b, a) E)\<inverse>" by auto
  then show ?thesis by (simp only: conn_def)
qed

lemma conn_insert_absorb:
  assumes "(a, b) \<in> conn E"
  shows "conn (insert (a, b) E) = conn E"
  using assms by (intro antisym conn_least subrelI conn_mono) (auto intro: conn_edge)

lemma join_loop_result:
  assumes "ordered E" and "a < length E" and "b < length E"
  shows "\<exists>E'. join_loop E a b (E ! a) (E ! b) = Some E' \<and> ordered E' \<and> length E' = length E \<and>
    conn (links E') = conn (insert (a, b) (links E))"
  using assms
proof (induction "a + b + E ! a + E ! b" arbitrary: E a b rule: less_induct)
  case less
  have le: "E ! a \<le> a" "E ! b \<le> b" using less.prems by (simp_all add: ordered_def)
  then have le2: "E ! (E ! a) \<le> E ! a" "E ! (E ! b) \<le> E ! b"
    using less.prems by (metis ordered_def le_less_trans)+
  consider "E ! a = E ! b" | "E ! a < E ! b" | "E ! b < E ! a" by linarith
  then show ?case
  proof cases
    case 1
    have "(a, E ! a) \<in> conn (links E)" "(E ! b, b) \<in> conn (links E)"
      using less.prems link [of a E] link [of b E] conn_sym by auto
    then have "(a, b) \<in> conn (links E)" using 1 conn_trans by metis
    then show ?thesis using 1 less.prems by (simp add: join_loop.simps conn_insert_absorb)
  next
    case 2
    let ?E = "E[b := E ! a]" and ?b = "E ! b"
    have "a \<noteq> b" using 2 by auto
    have b: "?b < length E" using le less.prems by linarith
    have "?E ! ?b \<le> ?b \<and> (?b = b \<longrightarrow> ?E ! ?b < E ! b)" using 2 le le2 b by (cases "?b = b") auto
    then have "a + ?b + ?E ! a + ?E ! ?b < a + b + E ! a + E ! b"
      using le(2) \<open>a \<noteq> b\<close> by (cases "?b = b") auto
    moreover have "ordered ?E" using 2 le less.prems(1) by (intro ordered_update) simp_all
    ultimately obtain E' where "join_loop ?E a ?b (?E ! a) (?E ! ?b) = Some E'" "ordered E'" "length E' = length E"
      "conn (links E') = conn (insert (a, ?b) (links ?E))"
      using less.hyps [of a ?b ?E] less.prems b by auto
    then show ?thesis
      using 2 b \<open>a \<noteq> b\<close> conn_round [of a E b] less.prems by (subst join_loop.simps) simp
  next
    case 3
    let ?E = "E[a := E ! b]" and ?a = "E ! a"
    have "a \<noteq> b" using 3 by auto
    have a: "?a < length E" using le less.prems by linarith
    have "?E ! ?a \<le> ?a \<and> (?a = a \<longrightarrow> ?E ! ?a < E ! a)" using 3 le le2 a by (cases "?a = a") auto
    then have "?a + b + ?E ! ?a + ?E ! b < a + b + E ! a + E ! b"
      using le(1) \<open>a \<noteq> b\<close> by (cases "?a = a") auto
    moreover have "ordered ?E" using 3 le less.prems(1) by (intro ordered_update) simp_all
    ultimately obtain E' where "join_loop ?E ?a b (?E ! ?a) (?E ! b) = Some E'" "ordered E'" "length E' = length E"
      "conn (links E') = conn (insert (?a, b) (links ?E))"
      using less.hyps [of ?a b ?E] less.prems a by auto
    then show ?thesis
      using 3 a \<open>a \<noteq> b\<close> conn_round [of b E a] conn_insert_swap [of ?a b] conn_insert_swap [of a b] less.prems
      by (subst join_loop.simps) simp
  qed
qed

section \<open>Leaders\<close>

fun leader :: "nat list \<Rightarrow> nat \<Rightarrow> nat" where
  "leader E i = (if E ! i < i then leader E (E ! i) else i)"

declare leader.simps [simp del]

lemma leader_step: "ordered E \<Longrightarrow> i < length E \<Longrightarrow> leader E (E ! i) = leader E i"
  by (cases "E ! i < i") (auto simp: leader.simps [of E i] ordered_def)

lemma leader_le: "leader E i \<le> i"
  by (induction E i rule: leader.induct) (subst leader.simps, auto)

lemma leader_fixed: "ordered E \<Longrightarrow> i < length E \<Longrightarrow> E ! leader E i = leader E i"
  by (induction E i rule: leader.induct) (subst (1 2) leader.simps, auto simp: ordered_def)

lemma leader_self: "E ! i = i \<Longrightarrow> leader E i = i"
  by (simp add: leader.simps)

lemma leader_conn: "ordered E \<Longrightarrow> i < length E \<Longrightarrow> (i, leader E i) \<in> conn (links E)"
proof (induction E i rule: leader.induct)
  case (1 E i)
  show ?case
  proof (cases "E ! i < i")
    case True
    then have "(E ! i, leader E (E ! i)) \<in> conn (links E)" using 1 by simp
    then show ?thesis using link [OF 1(3)] conn_trans True by (subst leader.simps) auto
  qed (simp add: leader.simps)
qed

lemma leader_cong:
  assumes "ordered E" and "(i, j) \<in> conn (links E)"
  shows "leader E i = leader E j"
  using assms(2) unfolding conn_def
proof (induction rule: rtrancl_induct)
  case (step j k)
  then show ?case using leader_step [OF assms(1)] by (auto simp: links_def)
qed simp

lemma conn_iff_leader:
  "ordered E \<Longrightarrow> i < length E \<Longrightarrow> j < length E \<Longrightarrow> (i, j) \<in> conn (links E) \<longleftrightarrow> leader E i = leader E j"
  by (metis leader_cong leader_conn conn_sym conn_trans)

lemma find_loop_leader: "ordered E \<Longrightarrow> i < length E \<Longrightarrow> find_loop E i = Some (leader E i)"
proof (induction E i rule: leader.induct)
  case (1 E i)
  then have "E ! i \<le> i" by (simp add: ordered_def)
  then show ?case using 1 by (subst find_loop.simps, subst leader.simps) auto
qed

section \<open>Sequences of joins\<close>

fun join_all :: "('s \<Rightarrow> nat \<Rightarrow> nat \<Rightarrow> 's option) \<Rightarrow> 's \<Rightarrow> (nat \<times> nat) list \<Rightarrow> 's option" where
  "join_all f s [] = Some s"
| "join_all f s ((a, b) # ps) = Option.bind (f s a b) (\<lambda>s. join_all f s ps)"

text \<open>What a structure for joining classes promises, and what follows for a sequence of joins.\<close>

locale class_joining =
  fixes ok :: "'s \<Rightarrow> bool" and size_of :: "'s \<Rightarrow> nat" and same :: "'s \<Rightarrow> (nat \<times> nat) set"
    and join_op :: "'s \<Rightarrow> nat \<Rightarrow> nat \<Rightarrow> 's option"
  assumes join_law: "ok s \<Longrightarrow> a < size_of s \<Longrightarrow> b < size_of s \<Longrightarrow>
      \<exists>s'. join_op s a b = Some s' \<and> ok s' \<and> size_of s' = size_of s \<and> same s' = conn (insert (a, b) (same s))"
    and same_closed: "ok s \<Longrightarrow> conn (same s) = same s"
begin

lemma joins:
  assumes "ok s" and "\<forall>(a, b) \<in> set ps. a < size_of s \<and> b < size_of s"
  shows "\<exists>s'. join_all join_op s ps = Some s' \<and> ok s' \<and> size_of s' = size_of s \<and> same s' = conn (set ps \<union> same s)"
  using assms
proof (induction ps arbitrary: s)
  case Nil
  then show ?case by (simp add: same_closed)
next
  case (Cons p ps)
  obtain a b where p: "p = (a, b)" by fastforce
  obtain s1 where s1: "join_op s a b = Some s1" "ok s1" "size_of s1 = size_of s"
    "same s1 = conn (insert (a, b) (same s))"
    using join_law [of s a b] Cons.prems by (auto simp: p)
  then obtain s' where s': "join_all join_op s1 ps = Some s'" "ok s'" "size_of s' = size_of s"
    "same s' = conn (set ps \<union> same s1)"
    using Cons.IH [of s1] Cons.prems by (auto simp: p)
  have "conn (set ps \<union> conn (insert (a, b) (same s))) = conn (set (p # ps) \<union> same s)"
  proof (rule antisym)
    have "conn (insert (a, b) (same s)) \<subseteq> conn (set (p # ps) \<union> same s)" by (intro conn_mono) (auto simp: p)
    then show "conn (set ps \<union> conn (insert (a, b) (same s))) \<subseteq> conn (set (p # ps) \<union> same s)"
      by (intro conn_least) (auto intro: conn_edge)
    show "conn (set (p # ps) \<union> same s) \<subseteq> conn (set ps \<union> conn (insert (a, b) (same s)))"
      by (intro conn_least) (auto simp: p intro!: conn_edge)
  qed
  then show ?case using s1 s' by (simp add: p)
qed

lemma joins_order:
  assumes "ok s" and "\<forall>(a, b) \<in> set ps. a < size_of s \<and> b < size_of s" and "set qs = set ps"
  shows "map_option same (join_all join_op s ps) = map_option same (join_all join_op s qs)"
  using joins [OF assms(1), of ps] joins [OF assms(1), of qs] assms by auto

end

definition uncompressed :: "IntEqClasses \<Rightarrow> bool" where
  "uncompressed s \<longleftrightarrow> NumClasses s = 0 \<and> ordered (EC s)"

interpretation iec: class_joining uncompressed "\<lambda>s. length (EC s)" "\<lambda>s. conn (links (EC s))" join_classes
proof
  fix s a b
  assume ok: "uncompressed s" "a < length (EC s)" "b < length (EC s)"
  then obtain E' where "join_loop (EC s) a b (EC s ! a) (EC s ! b) = Some E'" "ordered E'" "length E' = length (EC s)"
    "conn (links E') = conn (insert (a, b) (links (EC s)))"
    using join_loop_result [of "EC s" a b] by (auto simp: uncompressed_def)
  moreover have "conn (insert (a, b) (conn (links (EC s)))) = conn (insert (a, b) (links (EC s)))"
  proof (rule antisym)
    have "conn (links (EC s)) \<subseteq> conn (insert (a, b) (links (EC s)))" by (rule conn_mono) auto
    then show "conn (insert (a, b) (conn (links (EC s)))) \<subseteq> conn (insert (a, b) (links (EC s)))"
      by (intro conn_least) (auto intro: conn_edge)
    show "conn (insert (a, b) (links (EC s))) \<subseteq> conn (insert (a, b) (conn (links (EC s))))"
      by (intro conn_least) (auto intro!: conn_edge)
  qed
  ultimately show "\<exists>s'. join_classes s a b = Some s' \<and> uncompressed s' \<and> length (EC s') = length (EC s) \<and>
      conn (links (EC s')) = conn (insert (a, b) (conn (links (EC s))))"
    using ok by (auto simp: join_classes_def uncompressed_def)
next
  fix s
  show "conn (conn (links (EC s))) = conn (links (EC s))"
    by (intro antisym conn_least subset_refl) (auto intro!: conn_edge)
qed

lemma new_classes_links: "new_classes N = Some s \<Longrightarrow> uncompressed s \<and> length (EC s) = N \<and> conn (set ps \<union> conn (links (EC s))) = conn (set ps)"
proof -
  assume "new_classes N = Some s"
  then have s: "s = \<lparr> EC = [0..<N], NumClasses = 0 \<rparr>" by (simp add: new_classes_def grow_def)
  have "links [0..<N] \<subseteq> conn {}" by (auto simp: links_def)
  then have "conn (links [0..<N]) \<subseteq> conn {}" by (rule conn_least)
  also have "\<dots> \<subseteq> conn (set ps)" by (rule conn_mono) simp
  finally have "conn (set ps \<union> conn (links [0..<N])) \<subseteq> conn (set ps)" by (intro conn_least) (auto intro: conn_edge)
  moreover have "conn (set ps) \<subseteq> conn (set ps \<union> conn (links [0..<N]))" by (rule conn_mono) simp
  ultimately show ?thesis by (auto simp: s uncompressed_def ordered_def)
qed

text \<open>C20: joins return, in whatever order they come; afterwards the leader of a number is found, and it is the least
  number that the joined pairs connect with it.\<close>

theorem joined_leaders:
  assumes "\<forall>(a, b) \<in> set ps. a < N \<and> b < N" and "i < N"
  shows "\<exists>s0 s l. new_classes N = Some s0 \<and> join_all join_classes s0 ps = Some s \<and> findLeader s i = Some l \<and>
    (i, l) \<in> conn (set ps) \<and> (\<forall>j < N. (i, j) \<in> conn (set ps) \<longrightarrow> l \<le> j)"
proof -
  obtain s0 where s0: "new_classes N = Some s0" by (simp add: new_classes_def grow_def)
  note n = new_classes_links [OF s0, of ps]
  obtain s where s: "join_all join_classes s0 ps = Some s" "uncompressed s" "length (EC s) = N"
    "conn (links (EC s)) = conn (set ps)"
    using iec.joins [of s0 ps] n assms(1) by auto
  have E: "ordered (EC s)" "NumClasses s = 0" using s(2) by (simp_all add: uncompressed_def)
  have "leader (EC s) i \<le> j" if "j < N" "(i, j) \<in> conn (set ps)" for j
    using leader_cong [OF E(1), of i j] leader_le [of "EC s" j] that s(4) by simp
  then show ?thesis
    using s0 s find_loop_leader [OF E(1), of i] leader_conn [OF E(1), of i] assms(2) E(2)
    by (intro exI [of _ s0] exI [of _ s] exI [of _ "leader (EC s) i"]) (auto simp: findLeader_def)
qed

lemma joined_leaders_witness:
  "\<exists>s0 s l. new_classes 4 = Some s0 \<and> join_all join_classes s0 [(3, 1), (0, 3)] = Some s \<and> findLeader s 1 = Some l \<and> l \<le> 0"
proof -
  have "(1, 3) \<in> conn (set [(3, 1), (0, 3 :: nat)])" "(3, 0) \<in> conn (set [(3, 1), (0, 3 :: nat)])"
    by (auto intro!: conn_sym [OF conn_edge])
  then have "(1, 0) \<in> conn (set [(3, 1), (0, 3 :: nat)])" by (rule conn_trans)
  then show ?thesis using joined_leaders [of "[(3, 1), (0, 3)]" 4 1] by fastforce
qed

section \<open>Numbering the classes\<close>

text \<open>The leaders below a bound, in order.\<close>

definition leaders :: "nat list \<Rightarrow> nat \<Rightarrow> nat list" where
  "leaders E k = List.filter (\<lambda>i. E ! i = i) [0..<k]"

definition class_number :: "nat list \<Rightarrow> nat \<Rightarrow> nat" where
  "class_number E i = length (leaders E (leader E i))"

lemma leaders_Suc: "leaders E (Suc k) = leaders E k @ (if E ! k = k then [k] else [])"
  by (simp add: leaders_def)

lemma leaders_mono: "l \<le> k \<Longrightarrow> length (leaders E l) \<le> length (leaders E k)"
  by (induction k) (auto simp: leaders_Suc le_Suc_eq)

lemma leaders_nth: "l < k \<Longrightarrow> E ! l = l \<Longrightarrow> length (leaders E l) < length (leaders E k) \<and> leaders E k ! length (leaders E l) = l"
proof (induction k)
  case (Suc k)
  then show ?case by (cases "l = k") (auto simp: leaders_Suc nth_append)
qed simp

lemma set_leaders: "set (leaders E k) = {i. i < k \<and> E ! i = i}"
  by (auto simp: leaders_def)

lemma map_upt_append_update:
  "k < length xs \<Longrightarrow> f k = y \<Longrightarrow> (List.map f [0..<k] @ drop k xs)[k := y] = List.map f [0..<Suc k] @ drop (Suc k) xs"
  by (simp add: list_update_append upd_conv_take_nth_drop Cons_nth_drop_Suc [symmetric])

lemma compress_result:
  assumes "uncompressed s"
  shows "compress s = \<lparr> EC = List.map (class_number (EC s)) [0..<length (EC s)], NumClasses = length (leaders (EC s) (length (EC s))) \<rparr>"
proof -
  let ?E = "EC s"
  let ?I = "\<lambda>k t. t = \<lparr> EC = List.map (class_number ?E) [0..<k] @ drop k ?E, NumClasses = length (leaders ?E k) \<rparr>"
  have ord: "ordered ?E" "NumClasses s = 0" using assms by (simp_all add: uncompressed_def)
  have "?I (length ?E) (for_upto 0 (length ?E)
       (\<lambda>i s. if EC s ! i = i then s\<lparr> EC := (EC s)[i := NumClasses s], NumClasses := NumClasses s + 1 \<rparr>
              else s\<lparr> EC := (EC s)[i := EC s ! (EC s ! i)] \<rparr>) s)"
  proof (rule for_upto_invariant [where P = ?I])
    show "?I 0 s" using ord(2) by (cases s) (simp add: leaders_def)
  next
    fix k t
    assume k: "0 \<le> k" "k < length ?E" and t: "?I k t"
    have nk: "EC t ! k = ?E ! k" using k by (simp add: t nth_append)
    show "?I (Suc k) (if EC t ! k = k then t\<lparr> EC := (EC t)[k := NumClasses t], NumClasses := NumClasses t + 1 \<rparr>
              else t\<lparr> EC := (EC t)[k := EC t ! (EC t ! k)] \<rparr>)"
    proof (cases "?E ! k = k")
      case True
      then have "class_number ?E k = length (leaders ?E k)" by (simp add: class_number_def leader_self)
      from map_upt_append_update [of k ?E "class_number ?E", OF k(2) this] show ?thesis using True nk by (simp add: t leaders_Suc)
    next
      case False
      then have j: "?E ! k < k" using ord(1) k(2) by (auto simp: ordered_def le_less)
      then have "EC t ! (?E ! k) = class_number ?E (?E ! k)" by (simp add: t nth_append)
      also have "\<dots> = class_number ?E k" using leader_step [OF ord(1) k(2)] by (simp add: class_number_def)
      finally have "class_number ?E k = EC t ! (?E ! k)" by simp
      from map_upt_append_update [of k ?E "class_number ?E", OF k(2) this] show ?thesis using False nk by (simp add: t leaders_Suc)
    qed
  qed simp
  then show ?thesis using ord(2) by (simp add: compress_def)
qed

lemma uncompress_result:
  assumes "ordered E" and "length E \<noteq> 0"
  shows "uncompress \<lparr> EC = List.map (class_number E) [0..<length E], NumClasses = length (leaders E (length E)) \<rparr> =
    \<lparr> EC = List.map (leader E) [0..<length E], NumClasses = 0 \<rparr>"
proof -
  let ?c = "List.map (class_number E) [0..<length E]"
  let ?I = "\<lambda>k t. t = (List.map (leader E) [0..<k] @ drop k ?c, leaders E k)"
  have "?I (length E) (for_upto 0 (length E)
             (\<lambda>i (E, Leader). if E ! i < length Leader then (E[i := Leader ! (E ! i)], Leader) else (E[i := i], Leader @ [i]))
             (?c, []))"
  proof (rule for_upto_invariant [where P = ?I])
    show "?I 0 (?c, [])" by (simp add: leaders_def)
  next
    fix k and t :: "nat list \<times> nat list"
    assume k: "0 \<le> k" "k < length E" and t: "?I k t"
    let ?F = "List.map (leader E) [0..<k] @ drop k ?c"
    have nk: "?F ! k = class_number E k" using k by (simp add: nth_append)
    have kc: "k < length ?c" using k by simp
    note up = map_upt_append_update [OF kc, of "leader E"]
    have "(if ?F ! k < length (leaders E k) then (?F[k := leaders E k ! (?F ! k)], leaders E k)
        else (?F[k := k], leaders E k @ [k])) = (List.map (leader E) [0..<Suc k] @ drop (Suc k) ?c, leaders E (Suc k))"
    proof (cases "E ! k = k")
      case True
      then show ?thesis using up [of k] by (simp add: nk class_number_def leader_self leaders_Suc)
    next
      case False
      then have l: "leader E k < k" using leader_fixed [OF assms(1) k(2)] leader_le [of E k] by (auto simp: le_less)
      note n = leaders_nth [OF l leader_fixed [OF assms(1) k(2)]]
      then show ?thesis using up [of "leader E k"] False by (simp add: nk class_number_def leaders_Suc)
    qed
    then show "?I (Suc k) (case t of (E, Leader) \<Rightarrow>
        if E ! k < length Leader then (E[k := Leader ! (E ! k)], Leader) else (E[k := k], Leader @ [k]))"
      by (simp only: t prod.case)
  qed simp
  moreover have "0 < length (leaders E (length E))"
    using assms leaders_nth [of 0 "length E" E] by (auto simp: ordered_def)
  ultimately show ?thesis by (simp add: uncompress_def)
qed

text \<open>Compressing numbers the classes \<open>0, ..., NumClasses - 1\<close>, two integers getting one number exactly when they
  are in one class; uncompressing gives the classes back, every entry now being its leader.\<close>

theorem compress_uncompress:
  assumes "uncompressed s" and "EC s \<noteq> []"
  shows "set (EC (compress s)) = {0..<NumClasses (compress s)} \<and> NumClasses (compress s) \<noteq> 0 \<and>
    (\<forall>i < length (EC s). \<forall>j < length (EC s).
      class_of (compress s) i = class_of (compress s) j \<longleftrightarrow> findLeader s i = findLeader s j) \<and>
    uncompressed (uncompress (compress s)) \<and>
    (\<forall>i < length (EC s). findLeader (uncompress (compress s)) i = findLeader s i)"
proof -
  let ?E = "EC s" and ?n = "length (EC s)"
  have E: "ordered ?E" "NumClasses s = 0" "?n \<noteq> 0" using assms by (simp_all add: uncompressed_def)
  have c: "EC (compress s) = List.map (class_number ?E) [0..<?n]" "NumClasses (compress s) = length (leaders ?E ?n)"
    using compress_result [OF assms(1)] by simp_all
  have u: "uncompress (compress s) = \<lparr> EC = List.map (leader ?E) [0..<?n], NumClasses = 0 \<rparr>"
    using uncompress_result [OF E(1,3)] compress_result [OF assms(1)] by simp
  have fixed: "leader ?E i < ?n" "?E ! leader ?E i = leader ?E i" if "i < ?n" for i
    using leader_fixed [OF E(1) that] leader_le [of ?E i] that by simp_all
  have num: "class_number ?E i < length (leaders ?E ?n)" "leaders ?E ?n ! class_number ?E i = leader ?E i" if "i < ?n" for i
    using leaders_nth [OF fixed [OF that]] by (simp_all add: class_number_def)
  have pos: "0 < length (leaders ?E ?n)" using num(1) [of 0] E(3) by linarith
  have all: "\<exists>i < ?n. class_number ?E i = m" if m: "m < length (leaders ?E ?n)" for m
  proof -
    let ?l = "leaders ?E ?n ! m"
    have l: "?l < ?n" "?E ! ?l = ?l" using m nth_mem [OF m] by (auto simp: set_leaders)
    have "leaders ?E ?n ! class_number ?E ?l = ?l" using num(2) [OF l(1)] leader_self [OF l(2)] by simp
    moreover have "distinct (leaders ?E ?n)" by (simp add: leaders_def)
    ultimately have "class_number ?E ?l = m" using num(1) [OF l(1)] m by (simp add: nth_eq_iff_index_eq)
    with l(1) show ?thesis by blast
  qed
  have same: "class_number ?E i = class_number ?E j \<longleftrightarrow> leader ?E i = leader ?E j" if "i < ?n" "j < ?n" for i j
    using num(2) [OF that(1)] num(2) [OF that(2)] by (metis class_number_def)
  have "set (EC (compress s)) = {0..<NumClasses (compress s)}" using num(1) all by (fastforce simp: c image_iff)
  moreover have "\<forall>i < ?n. \<forall>j < ?n. class_of (compress s) i = class_of (compress s) j \<longleftrightarrow> findLeader s i = findLeader s j"
    using pos same find_loop_leader [OF E(1)] E(2) by (simp add: class_of_def findLeader_def c)
  moreover have ou: "ordered (List.map (leader ?E) [0..<?n])" using leader_le by (simp add: ordered_def)
  then have "uncompressed (uncompress (compress s))" by (simp add: u uncompressed_def)
  moreover have "findLeader (uncompress (compress s)) i = findLeader s i" if i: "i < ?n" for i
  proof -
    have "leader (List.map (leader ?E) [0..<?n]) i = leader ?E i"
      using i fixed [OF i] leader_step [OF ou, of i] leader_self [OF fixed(2) [OF i]]
        leader_self [of "List.map (leader ?E) [0..<?n]" "leader ?E i"] by simp
    then show ?thesis
      using find_loop_leader [OF ou, of i] find_loop_leader [OF E(1) i] i E(2) by (simp add: u findLeader_def)
  qed
  ultimately show ?thesis using c(2) pos by auto
qed

lemma compress_uncompress_witness:
  "uncompressed (uncompress (compress \<lparr> EC = [0, 0, 2], NumClasses = 0 \<rparr>))"
proof -
  have "uncompressed \<lparr> EC = [0, 0, 2], NumClasses = 0 \<rparr>"
    by (simp add: uncompressed_def ordered_def less_Suc_eq numeral_eq_Suc)
  from compress_uncompress [OF this] show ?thesis by simp
qed

end
