(* ===== verification/BranchProbability.thy ===== *)
theory BranchProbability
  imports LLVM_Prelude Complex_Main
begin

text \<open>
  Branch probabilities and block frequencies (\<open>BranchProbability\<close>, \<open>BlockFrequency\<close>; headers in
  \<open>include/llvm/Support/\<close>, sources in \<open>lib/Support/\<close>): the 96 bit product of the scaling, digit by digit in
  \<open>uint32_t\<close> and \<open>uint64_t\<close>, and the saturating arithmetic of the frequencies. \<open>None\<close> is a failed assertion, or a
  shift by more than the width.
\<close>

section \<open>Probabilities\<close>

record BranchProbability =
  Numerator :: u32
  Denominator :: u32

definition make_probability :: "u32 \<Rightarrow> u32 \<Rightarrow> BranchProbability option" where
  "make_probability n d = (if d > 0 \<and> n \<le> d then Some \<lparr> Numerator = n, Denominator = d \<rparr> else None)"

definition getCompl :: "BranchProbability \<Rightarrow> BranchProbability option" where
  "getCompl P = make_probability (Denominator P - Numerator P) (Denominator P)"

definition scale_fraction :: "u64 \<Rightarrow> u32 \<Rightarrow> u32 \<Rightarrow> u64 option" where
  "scale_fraction Num N D =
    (if D = 0 then None
     else if Num = 0 \<or> D = N then Some Num
     else
       let ProductHigh = drop_bit 32 Num * ucast N;
           ProductLow = (Num AND 0xFFFFFFFF) * ucast N;
           Upper32 = (ucast (drop_bit 32 ProductHigh) :: u32);
           Lower32 = (ucast (ProductLow AND 0xFFFFFFFF) :: u32);
           Mid32Partial = (ucast (ProductHigh AND 0xFFFFFFFF) :: u32);
           Mid32 = (ucast (ucast Mid32Partial + drop_bit 32 ProductLow) :: u32);
           Upper32 = Upper32 + (if Mid32 < Mid32Partial then 1 else 0)
       in if Upper32 \<ge> D then Some (- 1)
          else
            let Rem = push_bit 32 (ucast Upper32 :: u64) OR ucast Mid32;
                UpperQ = Rem div ucast D
            in if UpperQ > 0xFFFFFFFF then Some (- 1)
               else
                 let Rem = push_bit 32 (Rem mod ucast D) OR ucast Lower32;
                     LowerQ = Rem div ucast D;
                     Q = push_bit 32 UpperQ + LowerQ
                 in Some (if Q < LowerQ then - 1 else Q))"

definition scale :: "BranchProbability \<Rightarrow> u64 \<Rightarrow> u64 option" where
  "scale P Num = scale_fraction Num (Numerator P) (Denominator P)"

definition scaleByInverse :: "BranchProbability \<Rightarrow> u64 \<Rightarrow> u64 option" where
  "scaleByInverse P Num = scale_fraction Num (Denominator P) (Numerator P)"

definition probability_eq :: "BranchProbability \<Rightarrow> BranchProbability \<Rightarrow> bool" where
  "probability_eq P RHS \<longleftrightarrow>
    (ucast (Numerator P) * ucast (Denominator RHS) :: u64) = ucast (Denominator P) * ucast (Numerator RHS)"

definition probability_less :: "BranchProbability \<Rightarrow> BranchProbability \<Rightarrow> bool" where
  "probability_less P RHS \<longleftrightarrow>
    (ucast (Numerator P) * ucast (Denominator RHS) :: u64) < ucast (Denominator P) * ucast (Numerator RHS)"

definition probability_le :: "BranchProbability \<Rightarrow> BranchProbability \<Rightarrow> bool" where
  "probability_le P RHS \<longleftrightarrow> \<not> probability_less RHS P"

section \<open>Frequencies\<close>

definition frequency_mult :: "u64 \<Rightarrow> BranchProbability \<Rightarrow> u64 option" where
  "frequency_mult Frequency Prob = scale Prob Frequency"

definition frequency_div :: "u64 \<Rightarrow> BranchProbability \<Rightarrow> u64 option" where
  "frequency_div Frequency Prob = scaleByInverse Prob Frequency"

definition frequency_add :: "u64 \<Rightarrow> u64 \<Rightarrow> u64" where
  "frequency_add Frequency Freq =
    (let Before = Freq; Frequency = Frequency + Freq in if Frequency < Before then - 1 else Frequency)"

definition frequency_shift :: "u64 \<Rightarrow> nat \<Rightarrow> u64 option" where
  "frequency_shift Frequency count =
    (if Frequency = 0 \<or> 64 \<le> count then None
     else let Frequency = drop_bit count Frequency in Some (Frequency OR (if Frequency = 0 then 1 else 0)))"

section \<open>Scaling\<close>

text \<open>The schoolbook division on natural numbers: the product in three digits, then the quotient in two.\<close>

lemma two_digit_division:
  fixes M L D B :: nat
  assumes "0 < D" and "L < B" and "M < D * B"
  shows "M div D < B" and "(M mod D * B + L) div D < B" and "M div D * B + (M mod D * B + L) div D = (M * B + L) div D"
proof -
  show "M div D < B" using assms(1,3) by (simp add: div_less_iff_less_mult mult.commute)
  have "M mod D * B + L < (M mod D + 1) * B" using assms(2) by simp
  also have "\<dots> \<le> D * B" using assms(1) by (intro mult_right_mono) (simp_all add: Suc_le_eq)
  finally show "(M mod D * B + L) div D < B" using assms(1) by (simp add: div_less_iff_less_mult mult.commute)
  have "M * B + L = M div D * B * D + (M mod D * B + L)"
    using div_mult_mod_eq [of M D] by (metis add.assoc add_mult_distrib mult.assoc mult.commute)
  then have "(M * B + L) div D = (M div D * B * D + (M mod D * B + L)) div D" by (simp only:)
  then show "M div D * B + (M mod D * B + L) div D = (M * B + L) div D" using assms(1) by simp
qed

lemma two_digits_less:
  fixes a b B :: nat
  assumes "a < B" and "b < B"
  shows "a * B + b < B * B"
proof -
  have "(a + 1) * B \<le> B * B" using assms(1) by (intro mult_right_mono) simp_all
  then show ?thesis using assms(2) by simp
qed

lemma u32_less: "unat (w :: u32) < 2 ^ 32"
  using unsigned_less [of w] by simp

lemma unat_ucast_u32_u64: "unat (ucast x :: u64) = unat (x :: u32)"
proof -
  have "unat x < 2 ^ 64" using u32_less [of x] by simp
  then show ?thesis by (simp add: unsigned_ucast_eq take_bit_nat_eq_self)
qed

lemma unat_low32: "unat (x AND 0xFFFFFFFF) = unat (x :: u64) mod 2 ^ 32"
proof -
  have "(0xFFFFFFFF :: u64) = mask 32" by (simp add: mask_eq_exp_minus_1)
  then have "x AND 0xFFFFFFFF = take_bit 32 x" by (simp add: take_bit_eq_mask)
  then show ?thesis by (simp add: unsigned_take_bit_eq take_bit_eq_mod unat_mod)
qed

lemma unat_low32_u32: "unat (ucast (x :: u64) :: u32) = unat x mod 2 ^ 32"
  by (simp add: unsigned_ucast_eq unsigned_take_bit_eq take_bit_eq_mod)

lemma unat_combine:
  assumes "unat x < 2 ^ 32"
  shows "unat (push_bit 32 x OR ucast y) = unat (x :: u64) * 2 ^ 32 + unat (y :: u32)"
proof -
  have "push_bit 32 x AND ucast y = 0"
    by (auto simp: bit_eq_iff bit_simps dest: bit_imp_le_length [of y])
  then have "push_bit 32 x OR ucast y = push_bit 32 x + ucast y" by (simp add: disjunctive_add_eq_or)
  moreover have "unat (push_bit 32 x) = unat x * 2 ^ 32"
    using assms by (simp add: push_bit_eq_mult unat_mult_lem [THEN iffD1])
  moreover have "unat x * 2 ^ 32 + unat y < 2 ^ 64"
  proof -
    have "(unat x + 1) * 2 ^ 32 \<le> 2 ^ 32 * 2 ^ 32" using assms by (intro mult_right_mono) simp_all
    then show ?thesis using u32_less [of y] by simp
  qed
  ultimately show ?thesis by (simp add: unat_add_lem [THEN iffD1] unat_ucast_u32_u64)
qed

lemma product_digits:
  fixes n m B :: nat
  assumes "0 < B"
  defines "PH \<equiv> n div B * m" and "PL \<equiv> n mod B * m"
  defines "t \<equiv> PH mod B + PL div B"
  shows "n * m = (PH + PL div B) * B + PL mod B" and "(PH div B + t div B) * B + t mod B = PH + PL div B"
proof -
  have "n * m = (n div B * B + n mod B) * m" by (simp only: div_mult_mod_eq)
  also have "\<dots> = PH * B + PL" by (simp only: PH_def PL_def algebra_simps)
  also have "PL = PL div B * B + PL mod B" by simp
  finally show "n * m = (PH + PL div B) * B + PL mod B" by (simp add: algebra_simps)
  have "PH + PL div B = PH div B * B + t" by (simp add: t_def)
  also have "t = t div B * B + t mod B" by simp
  finally show "(PH div B + t div B) * B + t mod B = PH + PL div B" by (simp add: algebra_simps)
qed

lemma carry_mod:
  fixes p q B :: nat
  assumes "p < B" and "q < B"
  shows "(p + q) mod B < p \<longleftrightarrow> B \<le> p + q" and "(p + q) div B = (if B \<le> p + q then 1 else 0)"
proof -
  have *: "p + q < 2 * B" using assms by simp
  show "(p + q) mod B < p \<longleftrightarrow> B \<le> p + q"
  proof (cases "B \<le> p + q")
    case True
    then have "(p + q) mod B = p + q - B" using * by (simp add: le_mod_geq)
    then show ?thesis using True assms by auto
  qed simp
  show "(p + q) div B = (if B \<le> p + q then 1 else 0)"
    using assms * by (auto simp: div_if)
qed

text \<open>The three digits the code computes, and the number they make up with the lowest one.\<close>

definition scale_digits :: "u64 \<Rightarrow> u32 \<Rightarrow> u32 \<times> u32 \<times> u32" where
  "scale_digits Num N =
    (let ProductHigh = drop_bit 32 Num * ucast N;
         ProductLow = (Num AND 0xFFFFFFFF) * ucast N;
         Upper32 = (ucast (drop_bit 32 ProductHigh) :: u32);
         Lower32 = (ucast (ProductLow AND 0xFFFFFFFF) :: u32);
         Mid32Partial = (ucast (ProductHigh AND 0xFFFFFFFF) :: u32);
         Mid32 = (ucast (ucast Mid32Partial + drop_bit 32 ProductLow) :: u32);
         Upper32 = Upper32 + (if Mid32 < Mid32Partial then 1 else 0)
     in (Upper32, Mid32, Lower32))"

lemma scale_digits_value:
  assumes "scale_digits Num N = (U, Mid, Low)"
  shows "unat Num * unat N = (unat U * 2 ^ 32 + unat Mid) * 2 ^ 32 + unat Low"
proof -
  define n m where "n = unat Num" and "m = unat N"
  have n: "n < 2 ^ 64" "m < 2 ^ 32" using u64_less u32_less by (auto simp: n_def m_def)
  define PHw PLw where "PHw = drop_bit 32 Num * ucast N" and "PLw = (Num AND 0xFFFFFFFF) * ucast N"
  define MP where "MP = (ucast (PHw AND 0xFFFFFFFF) :: u32)"
  define PH PL t where "PH = n div 2 ^ 32 * m" and "PL = n mod 2 ^ 32 * m" and "t = PH mod 2 ^ 32 + PL div 2 ^ 32"
  have q: "n div 2 ^ 32 \<le> 2 ^ 32 - 1" "n mod 2 ^ 32 \<le> 2 ^ 32 - 1" "m \<le> 2 ^ 32 - 1"
    using n by (simp_all add: less_Suc_eq_le [symmetric] div_less_iff_less_mult)
  have le: "PH \<le> (2 ^ 32 - 1) * (2 ^ 32 - 1)" "PL \<le> (2 ^ 32 - 1) * (2 ^ 32 - 1)"
    unfolding PH_def PL_def using q by (auto simp only: intro: mult_le_mono)
  have PH: "unat PHw = PH" using le(1)
    by (simp add: PHw_def PH_def n_def m_def drop_bit_eq_div unat_div_distrib unat_ucast_u32_u64 unat_mult_lem [THEN iffD1])
  have PL: "unat PLw = PL" using le(2)
    by (simp add: PLw_def PL_def n_def m_def unat_low32 unat_ucast_u32_u64 unat_mult_lem [THEN iffD1])
  have b: "PH div 2 ^ 32 < 2 ^ 32 - 1" "PL div 2 ^ 32 < 2 ^ 32" "PH mod 2 ^ 32 < 2 ^ 32"
    using le by (simp_all add: div_less_iff_less_mult)
  have MP: "unat MP = PH mod 2 ^ 32" by (simp add: MP_def unat_low32_u32 unat_low32 PH)
  have dPL: "unat (drop_bit 32 PLw) = PL div 2 ^ 32" by (simp add: drop_bit_eq_div unat_div_distrib PL)
  have "unat (ucast MP + drop_bit 32 PLw) = t"
    using b by (simp add: t_def unat_add_lem [THEN iffD1] unat_ucast_u32_u64 MP dPL)
  then have Mid: "unat (ucast (ucast MP + drop_bit 32 PLw) :: u32) = t mod 2 ^ 32" by (simp add: unat_low32_u32)
  have carry: "(ucast (ucast MP + drop_bit 32 PLw) :: u32) < MP \<longleftrightarrow> 2 ^ 32 \<le> t"
    using carry_mod(1) [OF b(3,2), folded t_def] by (simp add: word_less_nat_alt Mid MP)
  have up: "unat (ucast (drop_bit 32 PHw) :: u32) = PH div 2 ^ 32"
    using b(1) by (simp add: unat_low32_u32 drop_bit_eq_div unat_div_distrib PH)
  have U: "unat ((ucast (drop_bit 32 PHw) :: u32) + (if 2 ^ 32 \<le> t then 1 else 0)) = PH div 2 ^ 32 + t div 2 ^ 32"
    unfolding t_def carry_mod(2) [OF b(3,2)] using b(1) by (subst unat_add_lem [THEN iffD1]) (simp_all add: up)
  have Low: "unat (ucast (PLw AND 0xFFFFFFFF) :: u32) = PL mod 2 ^ 32" by (simp add: unat_low32_u32 unat_low32 PL)
  have digits: "U = (ucast (drop_bit 32 PHw) :: u32) + (if 2 ^ 32 \<le> t then 1 else 0)"
    "Mid = ucast (ucast MP + drop_bit 32 PLw)" "Low = ucast (PLw AND 0xFFFFFFFF)"
    using assms carry by (auto simp: scale_digits_def Let_def PHw_def [symmetric] PLw_def [symmetric] MP_def [symmetric])
  show ?thesis
    using product_digits [of "2 ^ 32" n m, OF zero_less_power [OF pos2]] unfolding digits U Mid Low
    by (simp only: PH_def [symmetric] PL_def [symmetric] t_def [symmetric] n_def [symmetric] m_def [symmetric])
qed

lemma scale_fraction_digits:
  "scale_fraction Num N D =
    (if D = 0 then None
     else if Num = 0 \<or> D = N then Some Num
     else case scale_digits Num N of (U, Mid, Low) \<Rightarrow>
       if D \<le> U then Some (- 1)
       else let Rem = push_bit 32 (ucast U :: u64) OR ucast Mid
         in if Rem div ucast D > 0xFFFFFFFF then Some (- 1)
            else let R = push_bit 32 (Rem mod ucast D) OR ucast Low;
                     Q = push_bit 32 (Rem div ucast D) + R div ucast D
                 in Some (if Q < R div ucast D then - 1 else Q))"
  by (simp add: scale_fraction_def scale_digits_def Let_def)

text \<open>The scaling is the floor of the exact product by the fraction, or the largest number where that is larger.\<close>

lemma scale_fraction_floor:
  assumes "D \<noteq> 0"
  shows "scale_fraction Num N D = Some (of_nat (min (unat Num * unat N div unat D) (2 ^ 64 - 1)))"
proof (cases "Num = 0 \<or> D = N")
  case True
  then have "unat Num * unat N div unat D = unat Num" using assms by (auto simp: unat_gt_0)
  moreover have "unat Num \<le> 2 ^ 64 - 1" using u64_less [of Num] by simp
  ultimately show ?thesis using True assms by (simp add: scale_fraction_def min_absorb1)
next
  case False
  obtain U Mid Low where digits: "scale_digits Num N = (U, Mid, Low)" by (cases "scale_digits Num N") auto
  define M where "M = unat U * 2 ^ 32 + unat Mid"
  have product: "unat Num * unat N = M * 2 ^ 32 + unat Low" using scale_digits_value [OF digits] by (simp add: M_def)
  have d: "0 < unat D" using assms by (simp add: unat_gt_0)
  show ?thesis
  proof (cases "D \<le> U")
    case True
    have "unat D * 2 ^ 32 \<le> unat U * 2 ^ 32" using True by (simp add: word_le_nat_alt)
    then have "unat D * 2 ^ 32 * 2 ^ 32 \<le> unat Num * unat N"
      unfolding product M_def by (simp add: add_mult_distrib)
    then have "2 ^ 64 \<le> unat Num * unat N div unat D"
      using d by (simp add: less_eq_div_iff_mult_less_eq mult.commute)
    then have "min (unat Num * unat N div unat D) (2 ^ 64 - 1) = 2 ^ 64 - 1" by simp
    moreover have "(- 1 :: u64) = of_nat (2 ^ 64 - 1)" by simp
    ultimately show ?thesis using True False assms digits by (simp only: scale_fraction_digits) simp
  next
    case le: False
    define d where "d = unat D"
    define Rem where "Rem = push_bit 32 (ucast U :: u64) OR ucast Mid"
    define R where "R = push_bit 32 (Rem mod ucast D) OR ucast Low"
    have d: "0 < d" "d < 2 ^ 32" using \<open>0 < unat D\<close> u32_less by (simp_all add: d_def)
    have "unat U < d" using le by (simp add: d_def word_le_nat_alt)
    then have "(unat U + 1) * 2 ^ 32 \<le> d * 2 ^ 32" by (intro mult_right_mono) simp_all
    then have M: "M < d * 2 ^ 32" using u32_less [of Mid] by (simp add: M_def)
    note quotient = two_digit_division [OF d(1) u32_less [of Low] M]
    have Rem: "unat Rem = M"
      unfolding Rem_def M_def using unat_combine [of "ucast U" Mid] u32_less [of U] by (simp add: unat_ucast_u32_u64)
    have div: "unat (Rem div ucast D) = M div d" "unat (Rem mod ucast D) = M mod d"
      by (simp_all add: unat_div_distrib unat_mod_distrib unat_ucast_u32_u64 Rem d_def)
    have small: "M mod d < 2 ^ 32" using d by (meson less_trans mod_less_divisor)
    then have "unat R = M mod d * 2 ^ 32 + unat Low"
      unfolding R_def using unat_combine [of "Rem mod ucast D" Low] by (simp add: div)
    then have R: "unat (R div ucast D) = (M mod d * 2 ^ 32 + unat Low) div d"
      by (simp add: unat_div_distrib unat_ucast_u32_u64 d_def)
    have push: "unat (push_bit 32 (Rem div ucast D)) = M div d * 2 ^ 32"
      using unat_combine [of "Rem div ucast D" 0] quotient(1) by (simp add: div)
    have total: "(M * 2 ^ 32 + unat Low) div d < 2 ^ 64"
      using two_digits_less [OF quotient(1,2)] by (simp only: quotient(3)) simp
    have Q: "unat (push_bit 32 (Rem div ucast D) + R div ucast D) = (M * 2 ^ 32 + unat Low) div d"
      using total unfolding quotient(3) [symmetric]
      by (subst unat_add_lem [THEN iffD1]) (simp_all add: push R)
    have "\<not> Rem div ucast D > 0xFFFFFFFF" using quotient(1) by (simp add: word_less_nat_alt div)
    moreover have "\<not> push_bit 32 (Rem div ucast D) + R div ucast D < R div ucast D"
      unfolding word_less_nat_alt Q R not_less quotient(3) [symmetric] by (rule le_add2)
    ultimately have "scale_fraction Num N D = Some (push_bit 32 (Rem div ucast D) + R div ucast D)"
      using le False assms digits by (simp only: scale_fraction_digits) (simp add: Let_def Rem_def R_def)
    moreover have "push_bit 32 (Rem div ucast D) + R div ucast D = of_nat ((M * 2 ^ 32 + unat Low) div d)"
      unfolding Q [symmetric] by (simp only: of_nat_unat ucast_id)
    moreover have "min (unat Num * unat N div unat D) (2 ^ 64 - 1) = (M * 2 ^ 32 + unat Low) div d"
      using total by (simp add: product d_def)
    ultimately show ?thesis by simp
  qed
qed

section \<open>Properties\<close>

lemma scale_fraction_None: "scale_fraction Num N D = None \<longleftrightarrow> D = 0"
  by (simp add: scale_fraction_def Let_def split: if_splits)

text \<open>C22: scaling by a probability and by its inverse: exactly the division by a zero probability fails its assertion, and
  otherwise the result is the floor of the exact 96 bit quotient, or the largest 64 bit number where that does not fit;
  multiplying a frequency by a probability never leaves the range and never raises it.
\<close>

theorem scale_floor:
  assumes "make_probability n d = Some P"
  shows "scale P Num = Some (of_nat (unat Num * unat n div unat d))
    \<and> unat Num * unat n div unat d \<le> unat Num
    \<and> frequency_mult Num P = scale P Num
    \<and> scaleByInverse P Num = (if n = 0 then None else Some (of_nat (min (unat Num * unat d div unat n) (2 ^ 64 - 1))))
    \<and> frequency_div Num P = scaleByInverse P Num"
proof -
  have P: "P = \<lparr> Numerator = n, Denominator = d \<rparr>" and d: "d > 0" "n \<le> d"
    using assms by (auto simp: make_probability_def split: if_splits)
  then have "0 < unat d" "unat n \<le> unat d" by (simp_all add: word_less_nat_alt word_le_nat_alt)
  then have le: "unat Num * unat n div unat d \<le> unat Num"
    by (metis div_le_mono mult_le_mono2 nonzero_mult_div_cancel_right not_gr_zero)
  then have "min (unat Num * unat n div unat d) (2 ^ 64 - 1) = unat Num * unat n div unat d"
    using u64_less [of Num] by simp
  then show ?thesis using d le
    by (simp add: P scale_def scaleByInverse_def frequency_mult_def frequency_div_def scale_fraction_floor word_gt_0
        scale_fraction_None)
qed

theorem scale_floor_witness:
  "scale \<lparr> Numerator = 1, Denominator = 3 \<rparr> 18446744073709551615 = Some 6148914691236517205
    \<and> scaleByInverse \<lparr> Numerator = 1, Denominator = 3 \<rparr> 100 = Some 300
    \<and> scaleByInverse \<lparr> Numerator = 1, Denominator = 3 \<rparr> 18446744073709551615 = Some (- 1)"
proof -
  have "make_probability 1 3 = Some \<lparr> Numerator = 1, Denominator = 3 \<rparr>" by (simp add: make_probability_def)
  from scale_floor [OF this, of 18446744073709551615] scale_floor [OF this, of 100] show ?thesis by simp
qed

text \<open>
  The comparisons of the code, whose products fit in 64 bits, are those of the fractions; the complement is the
  difference from one; the sums of frequencies saturate, and a shifted frequency is never zero.
\<close>

lemma unat_cross: "unat (ucast a * ucast b :: u64) = unat (a :: u32) * unat (b :: u32)"
proof -
  have "unat a \<le> 2 ^ 32 - 1" "unat b \<le> 2 ^ 32 - 1" using u32_less [of a] u32_less [of b] by simp_all
  then have "unat a * unat b \<le> (2 ^ 32 - 1) * (2 ^ 32 - 1)" by (rule mult_le_mono)
  then show ?thesis by (simp add: unat_mult_lem [THEN iffD1] unat_ucast_u32_u64)
qed

lemma fraction_order:
  fixes n d n' d' :: nat
  assumes "0 < d" and "0 < d'"
  shows "real n / real d < real n' / real d' \<longleftrightarrow> n * d' < d * n'" and "real n / real d = real n' / real d' \<longleftrightarrow> n * d' = d * n'"
  using assms by (simp_all add: divide_less_eq less_divide_eq frac_eq_eq mult.commute flip: of_nat_mult)

lemma frequency_add_saturates: "unat (frequency_add a b) = min (unat a + unat b) (2 ^ 64 - 1)"
proof (cases "unat a + unat b < 2 ^ 64")
  case True
  then have sum: "unat (a + b) = unat a + unat b" by (simp add: unat_add_lem [THEN iffD1])
  then have "\<not> a + b < b" by (simp add: word_less_nat_alt)
  with True show ?thesis by (simp add: frequency_add_def sum)
next
  case False
  then have "unat (a + b) = unat a + unat b - 2 ^ 64"
    using u64_less [of a] u64_less [of b] by (simp add: unat_word_ariths le_mod_geq)
  then have "a + b < b" using False u64_less [of a] u64_less [of b] by (simp add: word_less_nat_alt)
  moreover have "unat (- 1 :: u64) = 2 ^ 64 - 1" by (simp add: unsigned_minus_1_eq_mask mask_eq_exp_minus_1)
  ultimately show ?thesis using False by (simp add: frequency_add_def)
qed

lemma frequency_shift_value:
  "frequency_shift f c = (if f = 0 \<or> 64 \<le> c then None else Some (of_nat (max 1 (unat f div 2 ^ c))))"
proof -
  have shifted: "unat (drop_bit c f) = unat f div 2 ^ c" by (simp only: unat_drop_bit_eq) (rule drop_bit_eq_div)
  have "drop_bit c f = of_nat (unat f div 2 ^ c)" unfolding shifted [symmetric] by (simp only: of_nat_unat ucast_id)
  moreover have "drop_bit c f = 0 \<longleftrightarrow> unat f div 2 ^ c = 0" using shifted by (metis unat_eq_zero)
  ultimately show ?thesis by (auto simp: frequency_shift_def Let_def max_def)
qed

text \<open>The arithmetic of probabilities and frequencies: the complement of a probability is a probability, the cross
  products that compare two of them do not wrap, so that the code's relations are those of the fractions and exactly
  one of less, equal and greater holds; the sum of frequencies is exact or the largest number, and a shift right keeps
  a frequency positive.
\<close>

theorem fractions_and_frequencies:
  assumes "make_probability n d = Some P" and "make_probability n' d' = Some P'"
  shows "getCompl P = Some \<lparr> Numerator = d - n, Denominator = d \<rparr> \<and> unat (d - n) = unat d - unat n
    \<and> (probability_less P P' \<longleftrightarrow> real (unat n) / real (unat d) < real (unat n') / real (unat d'))
    \<and> (probability_eq P P' \<longleftrightarrow> real (unat n) / real (unat d) = real (unat n') / real (unat d'))
    \<and> (probability_le P P' \<longleftrightarrow> real (unat n) / real (unat d) \<le> real (unat n') / real (unat d'))
    \<and> unat (frequency_add f g) = min (unat f + unat g) (2 ^ 64 - 1)
    \<and> frequency_shift f c = (if f = 0 \<or> 64 \<le> c then None else Some (of_nat (max 1 (unat f div 2 ^ c))))"
proof -
  have P: "P = \<lparr> Numerator = n, Denominator = d \<rparr>" "d > 0" "n \<le> d" "P' = \<lparr> Numerator = n', Denominator = d' \<rparr>" "d' > 0"
    using assms by (auto simp: make_probability_def split: if_splits)
  then have "0 < unat d" "0 < unat d'" by (simp_all add: word_gt_0 unat_gt_0)
  note fractions = fraction_order [OF this] fraction_order [OF this(2,1)]
  have "probability_less P P' \<longleftrightarrow> real (unat n) / real (unat d) < real (unat n') / real (unat d')"
    unfolding fractions by (simp add: probability_less_def P(1,4) word_less_nat_alt unat_cross)
  moreover have "probability_less P' P \<longleftrightarrow> real (unat n') / real (unat d') < real (unat n) / real (unat d)"
    unfolding fractions by (simp add: probability_less_def P(1,4) word_less_nat_alt unat_cross)
  moreover have "probability_eq P P' \<longleftrightarrow> real (unat n) / real (unat d) = real (unat n') / real (unat d')"
    unfolding fractions by (simp add: probability_eq_def P(1,4) word_unat_eq_iff unat_cross)
  moreover have "getCompl P = Some \<lparr> Numerator = d - n, Denominator = d \<rparr>"
    using P(2,3) by (simp add: getCompl_def make_probability_def P(1) word_sub_le)
  moreover have "unat (d - n) = unat d - unat n" using P(3) by (simp add: unat_sub)
  ultimately show ?thesis by (auto simp: probability_le_def frequency_add_saturates frequency_shift_value)
qed

theorem fractions_and_frequencies_witness:
  "getCompl \<lparr> Numerator = 1, Denominator = 3 \<rparr> = Some \<lparr> Numerator = 2, Denominator = 3 \<rparr>
    \<and> probability_less \<lparr> Numerator = 1, Denominator = 3 \<rparr> \<lparr> Numerator = 2, Denominator = 4 \<rparr>
    \<and> unat (frequency_add 18446744073709551610 10) = 2 ^ 64 - 1
    \<and> frequency_shift 3 1 = Some 1"
proof -
  have "make_probability 1 3 = Some \<lparr> Numerator = 1, Denominator = 3 \<rparr>"
    "make_probability 2 4 = Some \<lparr> Numerator = 2, Denominator = 4 \<rparr>" by (simp_all add: make_probability_def)
  from fractions_and_frequencies [OF this, of 18446744073709551610 10 1]
    fractions_and_frequencies [OF this, of 3 0 1] show ?thesis by simp
qed

end
