(* ===== verification/Spec2Isabelle.thy ===== *)
theory Spec2Isabelle
  imports LLVM_Prelude MathExtras BigNum BigNumMul BigNumDiv APIntSpec APIntRep APIntSound APIntDiv
    ConstantRange ConstantRangeLattice ConstantRangeSound CmpPredicate ICmpRanges
    RangeDomain LVILattice LVITransfer ImmutableTree ImmutableIter
    IRType CastOps CastSound CastValue StringRef StringFind NumberFormats EditDistance
    TargetTriple TripleSound IntEqClasses BranchProbability
begin

text \<open>
  A verification library for core parts of LLVM: the integer arithmetic, the value domains of the
  analyses, the casts of the intermediate representation, the containers, and the strings, numbers and target
  triples that the tools parse and print. Every definition
  is a shallow embedding of a function, type or table under \<open>src/llvm\<close>, keeps its name where the logic
  allows it, and can be evaluated.

  \<^bold>\<open>Conventions.\<close> A fixed-width integer is a \<open>w word\<close>, or a natural number with \<open>mod 2 ^ w\<close> written out.
  A failed assertion, an \<open>llvm_unreachable\<close> and a \<open>cast\<close> to the wrong class are \<open>None\<close>; functions that write
  through pointers return the written values. Loops are structural recursions, \<open>function\<close>s with a measure,
  or the counted loop \<open>for_upto\<close>; none of the definitions takes fuel except \<open>ImmutableIter\<close>, where the
  bound is the number of elements and the theorems show that it is enough. Four loops of the code need not end
  on every argument and are \<open>partial_function (option)\<close>s: \<open>split_loop\<close> (it ends exactly unless the separator is
  empty and the number of splits unbounded), \<open>getSLEB128Size_loop\<close> (it always ends), \<open>join_loop\<close> and \<open>find_loop\<close>
  (they end on every state that joins can reach).

  \<^bold>\<open>Theories.\<close>
  \<^item> \<open>LLVM_Prelude\<close>: machine words, the counted loop, the lemmas shared by all components.
  \<^item> \<open>MathExtras\<close>: \<open>include/llvm/Support/MathExtras.h\<close>; bit scans, masks, powers of two,
    alignment, sign extension. Each scan is shown equal to its counting specification, each test to the set
    of patterns it should accept.
  \<^item> \<open>BigNum\<close>, \<open>BigNumMul\<close>, \<open>BigNumDiv\<close>: the multi-word \<open>tc*\<close> functions of
    \<open>lib/Support/APInt.cpp\<close> on lists of 64-bit parts. The abstraction is the number a list stands for; the
    lemmas give the exact sum, difference, product, quotient, shift and field, with carries and overflow.
  \<^item> \<open>APIntSpec\<close>: the values of \<open>APInt\<close> (a width and a number below \<open>2 ^ width\<close>) with the operations its
    clients call.
  \<^item> \<open>APIntRep\<close>: the representation of \<open>APInt\<close> (\<open>include/llvm/ADT/APInt.h\<close>, \<open>lib/Support/APInt.cpp\<close>): one word or an
    array of words, with the bits above the width clear (\<open>wf_rep\<close>). \<open>abs_apint\<close> maps it to \<open>APIntSpec\<close>, and
    \<open>refines\<close> says that an operation returns an object that stands for the abstract result. The locales
    \<open>apint_binary\<close> and \<open>apint_inverse\<close> are the contract of a binary operation, interpreted for sums, differences and
    the bitwise operators. \<open>APIntSound\<close> proves the refinement for comparison, counts, resizing, shifts and rotations.
  \<^item> \<open>APIntDiv\<close>: multiplication on 32-bit halves, Knuth's Algorithm D on 32-bit digits, the division operators and the
    overflow tests, built on the representation. Both algorithms lose a carry for large operands: the lemmas
    give the operands for which they are right (all of at most 128 bits), and counterexamples at 192 bits.
  \<^item> \<open>ConstantRange\<close>: \<open>lib/IR/ConstantRange.cpp\<close>, with the word-level multiplication and division of \<open>APIntDiv\<close>.
    \<open>ConstantRangeLattice\<close> proves union and intersection to be smallest covers, \<open>ConstantRangeSound\<close> the arithmetic to
    cover all results: products up to 64 bits (the code multiplies at twice the width), quotients up to 128 bits or by
    divisors below \<open>2 ^ 64\<close>, truncations from 128 bits or to fewer than 64, and the rest at every width.
  \<^item> \<open>CmpPredicate\<close>, \<open>ICmpRanges\<close>: comparison predicates (\<open>lib/IR/Instructions.cpp\<close>,
    \<open>include/llvm/IR/InstrTypes.h\<close>) and the ranges of values that satisfy a comparison.
  \<^item> \<open>RangeDomain\<close>: the interface of an abstract domain, as the locales \<open>join_domain\<close> and \<open>cover_domain\<close>;
    \<open>interpretation range\<close> gives it for \<open>ConstantRange\<close>, and the properties of ranges are stated here.
  \<^item> \<open>LVILattice\<close>, \<open>LVITransfer\<close>: the lattice and the transfer functions of
    \<open>lib/Analysis/LazyValueInfo.cpp\<close>. The lattice interprets \<open>join_domain\<close> again (\<open>lvi\<close>) and is built on
    \<open>ConstantRange\<close>; the transfer functions use the predicates, the comparison regions and the range
    arithmetic, and are shown to allow every run-time value (within the same widths; equality with \<open>undef\<close> is left out).
  \<^item> \<open>ImmutableTree\<close>, \<open>ImmutableIter\<close>: the AVL trees of \<open>include/llvm/ADT/ImmutableSet.h\<close>, the maps of
    \<open>ImmutableMap.h\<close> and their iterators. The locale \<open>persistent_map\<close> is the contract of a map;
    \<open>interpretation imap\<close> discharges it for \<open>ImmutableMap\<close>.
  \<^item> \<open>IRType\<close>, \<open>CastOps\<close>: the types of the intermediate representation (\<open>include/llvm/IR/Type.h\<close>,
    \<open>DerivedTypes.h\<close>, \<open>lib/IR/Type.cpp\<close>) and the cast instructions of \<open>lib/IR/Instructions.cpp\<close>.
    \<open>CastSound\<close> shows which casts are valid, \<open>CastValue\<close> that replacing a pair of casts keeps the value.
  \<^item> \<open>StringRef\<close>: \<open>include/llvm/ADT/StringRef.h\<close>, \<open>lib/Support/StringRef.cpp\<close>, \<open>StringSwitch.h\<close> and the tokens
    of \<open>StringExtras\<close>. \<open>StringFind\<close> shows that the searches find the first or last occurrence, that splitting
    and joining are inverse, and when the splitting loop ends.
  \<^item> \<open>NumberFormats\<close>: the integer parsers of \<open>StringRef\<close>, the printers of \<open>StringExtras.h\<close>, and the
    variable-length codes of \<open>include/llvm/Support/LEB128.h\<close>; each parser accepts exactly the numerals of its
    type, and the printers and coders are inverted by the parsers and decoders.
  \<^item> \<open>EditDistance\<close>: \<open>include/llvm/ADT/edit_distance.h\<close> on \<open>unsigned\<close> words, a refinement of the least number of edits
    with the exact condition under which the routine gives up.
  \<^item> \<open>TargetTriple\<close>: \<open>include/llvm/ADT/Triple.h\<close>, \<open>lib/Support/Triple.cpp\<close>, on the strings above. In
    \<open>TripleSound\<close> the locale \<open>named_kind\<close> is the contract of an enumeration with names that are parsed back; it is
    interpreted for architectures, vendors, systems, environments and formats (\<open>archs\<close>, \<open>vendors\<close>, \<open>systems\<close>,
    \<open>environments\<close>, \<open>formats\<close>), and the setters, versions and \<open>normalize\<close> are proved from it.
  \<^item> \<open>IntEqClasses\<close>: \<open>lib/Support/IntEqClasses.cpp\<close>; the locale \<open>class_joining\<close> states what joining promises,
    \<open>interpretation iec\<close> discharges it, and the leaders are the least members of the connected numbers.
  \<^item> \<open>BranchProbability\<close>: \<open>lib/Support/BranchProbability.cpp\<close> and \<open>BlockFrequency.cpp\<close>; the scaling in three
    32-bit digits is the exact floor.

  \<^bold>\<open>Parameters.\<close> Constant folding of comparisons of non-integer constants, the widths of pointers and the
  meaning of \<open>addrspacecast\<close> are arguments of the definitions that use them, as the code takes them from the
  target or from other parts of LLVM.

  \<^bold>\<open>Not modelled.\<close> Of \<open>APInt\<close>: reading and printing text, population counts, splats, conversions from and to doubles,
  square roots, inverses and magic numbers, and the functions that only forward to modelled ones. \<open>APFloat\<close>, which
  needs the rounding of the host. The graph of IR values with its passes, code generation, object files, and the other
  projects of the repository (Clang, LLDB, LLD, Polly and the runtimes): they are object graphs, input and output,
  generated code, or separate programs. Reference counts and the canonicalisation cache of the persistent trees, the
  hashing of strings, the cache and work list of the lazy value analysis and the uniquing tables of types are left out;
  the functions modelled do not depend on them.
\<close>

end
